(* ===== verification/Prelude.thy ===== *)
theory Prelude
  imports Main "HOL-Library.Word" "HOL-Library.Monad_Syntax"
begin

section \<open>Shared vocabulary: bytes, C strings, character classes\<close>

text \<open>
  Vocabulary shared by all component theories.

  \<^item> A NUL-terminated C string is the \<open>string\<close> of the characters before its NUL. Reading
    one past the last character yields the NUL (\<open>char_at\<close>); code that could read further
    is modelled so that it shows.
  \<^item> A raw byte buffer is a \<open>byte list\<close>; \<open>unsigned\<close> is a 32-bit word, so that its
    arithmetic wraps as it does in C.
  \<^item> The \<open>ctype.h\<close> and \<open>string.h\<close> functions are those of the "C" locale. They are part of
    the language's library, not of the repository; the repository's own replacements
    (strcasecmp.c, strstr.c, \<dots>) are modelled separately in the theory \<open>Strings\<close> and proved
    equal to the definitions here.
\<close>

unbundle bit_operations_syntax

type_synonym byte = "8 word"
type_synonym u32 = "32 word"

named_theorems cstr \<open>definitions of the C string vocabulary\<close>
named_theorems ctype \<open>definitions of the character classes\<close>

subsection \<open>Characters\<close>

abbreviation NUL :: char where "NUL \<equiv> CHR 0x00"
abbreviation TAB :: char where "TAB \<equiv> CHR 0x09"
abbreviation LF :: char where "LF \<equiv> CHR 0x0A"
abbreviation CR :: char where "CR \<equiv> CHR 0x0D"
abbreviation SP :: char where "SP \<equiv> CHR 0x20"
abbreviation BACKSLASH :: char where "BACKSLASH \<equiv> CHR 0x5C"
abbreviation DQUOTE :: char where "DQUOTE \<equiv> CHR 0x22"

definition code :: "char \<Rightarrow> nat" where
  "code c = of_char c"

definition chr :: "nat \<Rightarrow> char" where
  "chr n = char_of n"

lemma code_less [simp]: "code c < 256"
  by (simp add: code_def)

lemma chr_code [simp]: "chr (code c) = c"
  by (simp add: chr_def code_def)

lemma code_chr: "code (chr n) = n mod 256"
  by (simp add: chr_def code_def)

lemma code_inject [simp]: "code c = code d \<longleftrightarrow> c = d"
  by (metis chr_code)

definition isspace :: "char \<Rightarrow> bool" where
  [ctype]: "isspace c \<longleftrightarrow> c = SP \<or> c = TAB \<or> c = LF \<or> c = CHR 0x0B \<or> c = CHR 0x0C \<or> c = CR"

definition isdigit :: "char \<Rightarrow> bool" where
  [ctype]: "isdigit c \<longleftrightarrow> 48 \<le> code c \<and> code c \<le> 57"

definition isupper :: "char \<Rightarrow> bool" where
  [ctype]: "isupper c \<longleftrightarrow> 65 \<le> code c \<and> code c \<le> 90"

definition islower :: "char \<Rightarrow> bool" where
  [ctype]: "islower c \<longleftrightarrow> 97 \<le> code c \<and> code c \<le> 122"

definition iscntrl :: "char \<Rightarrow> bool" where
  [ctype]: "iscntrl c \<longleftrightarrow> code c < 32 \<or> code c = 127"

definition isprint :: "char \<Rightarrow> bool" where
  [ctype]: "isprint c \<longleftrightarrow> 32 \<le> code c \<and> code c < 127"

definition toupper :: "char \<Rightarrow> char" where
  [ctype]: "toupper c = (if islower c then chr (code c - 32) else c)"

definition tolower :: "char \<Rightarrow> char" where
  [ctype]: "tolower c = (if isupper c then chr (code c + 32) else c)"

lemma toupper_NUL_iff [simp]: "toupper c = NUL \<longleftrightarrow> c = NUL"
proof -
  have "code (toupper c) = 0 \<longleftrightarrow> code c = 0"
    by (auto simp: toupper_def islower_def code_chr)
  moreover have "code NUL = 0" by (simp add: code_def)
  ultimately show ?thesis by (metis code_inject)
qed

lemma toupper_NUL [simp]: "toupper NUL = NUL"
  by simp

lemma NUL_eq_toupper_iff [simp]: "NUL = toupper c \<longleftrightarrow> c = NUL"
  by (metis toupper_NUL_iff)

subsection \<open>C strings\<close>

text \<open>A C string holds no NUL of its own.\<close>

definition c_string :: "string \<Rightarrow> bool" where
  "c_string s \<longleftrightarrow> NUL \<notin> set s"

text \<open>\<open>s[i]\<close> for \<open>i\<close> up to and including the terminator.\<close>

definition char_at :: "string \<Rightarrow> nat \<Rightarrow> char" where
  "char_at s i = (if i < length s then s ! i else NUL)"

lemma char_at_Nil [simp]: "char_at [] i = NUL"
  by (simp add: char_at_def)

lemma char_at_Cons_0 [simp]: "char_at (c # s) 0 = c"
  by (simp add: char_at_def)

lemma char_at_Cons_Suc [simp]: "char_at (c # s) (Suc i) = char_at s i"
  by (simp add: char_at_def)

lemma char_at_Cons_numeral [simp]: "char_at (c # s) (numeral k) = char_at s (pred_numeral k)"
  by (simp add: numeral_eq_Suc)

text \<open>The library functions the sources call, in the "C" locale.\<close>

definition strspn :: "string \<Rightarrow> string \<Rightarrow> nat" where
  [cstr]: "strspn s accept = length (takeWhile (\<lambda>c. c \<in> set accept) s)"

definition strcspn :: "string \<Rightarrow> string \<Rightarrow> nat" where
  [cstr]: "strcspn s reject = length (takeWhile (\<lambda>c. c \<notin> set reject) s)"

text \<open>Offset of the first \<open>c\<close>; \<open>strchr\<close> of NUL finds the terminator.\<close>

definition strchr :: "string \<Rightarrow> char \<Rightarrow> nat option" where
  [cstr]: "strchr s c =
     (if c \<in> set s then Some (length (takeWhile (\<lambda>d. d \<noteq> c) s))
      else if c = NUL then Some (length s) else None)"

definition strrchr :: "string \<Rightarrow> char \<Rightarrow> nat option" where
  [cstr]: "strrchr s c =
     (if c \<in> set s then Some (length s - Suc (length (takeWhile (\<lambda>d. d \<noteq> c) (rev s))))
      else if c = NUL then Some (length s) else None)"

text \<open>\<open>strncmp(s, p, strlen(p)) == 0\<close> and its case-blind variant.\<close>

fun has_prefix :: "string \<Rightarrow> string \<Rightarrow> bool" where
  "has_prefix s [] = True"
| "has_prefix [] (p # ps) = False"
| "has_prefix (c # s) (p # ps) = (c = p \<and> has_prefix s ps)"

fun has_iprefix :: "string \<Rightarrow> string \<Rightarrow> bool" where
  "has_iprefix s [] = True"
| "has_iprefix [] (p # ps) = False"
| "has_iprefix (c # s) (p # ps) = (toupper c = toupper p \<and> has_iprefix s ps)"

definition strcaseeq :: "string \<Rightarrow> string \<Rightarrow> bool" where
  [cstr]: "strcaseeq s t \<longleftrightarrow> map toupper s = map toupper t"

text \<open>Offset of the first occurrence of a substring.\<close>

fun find_sub :: "string \<Rightarrow> string \<Rightarrow> nat option" where
  "find_sub [] sub = (if sub = [] then Some 0 else None)"
| "find_sub (c # s) sub =
     (if has_prefix (c # s) sub then Some 0 else map_option Suc (find_sub s sub))"

subsection \<open>Bounded buffers\<close>

text \<open>
  A C array is the list of its cells. Reading or writing outside it is undefined behaviour in C
  and \<open>None\<close> here, so that a result \<open>Some\<close> says that every access was inside the array.
\<close>

definition peek :: "'a list \<Rightarrow> nat \<Rightarrow> 'a option" where
  "peek buf i = (if i < length buf then Some (buf ! i) else None)"

definition poke :: "'a list \<Rightarrow> nat \<Rightarrow> 'a \<Rightarrow> 'a list option" where
  "poke buf i x = (if i < length buf then Some (buf[i := x]) else None)"

lemma peek_in [simp]: "i < length buf \<Longrightarrow> peek buf i = Some (buf ! i)"
  by (simp add: peek_def)

lemma poke_in [simp]: "i < length buf \<Longrightarrow> poke buf i x = Some (buf[i := x])"
  by (simp add: poke_def)

text \<open>The C string an array holds: the characters before its first NUL.\<close>

definition cstr_of :: "string \<Rightarrow> string" where
  "cstr_of buf = takeWhile (\<lambda>c. c \<noteq> NUL) buf"

lemma c_string_cstr_of [simp]: "c_string (cstr_of buf)"
  unfolding c_string_def cstr_of_def by (auto dest: set_takeWhileD)

lemma cstr_of_append_NUL:
  "c_string s \<Longrightarrow> cstr_of (s @ NUL # t) = s"
  by (induction s) (auto simp: cstr_of_def c_string_def)

lemma c_string_Cons: "c_string (c # s) \<longleftrightarrow> c \<noteq> NUL \<and> c_string s"
  by (auto simp: c_string_def)

lemma c_string_nth: "c_string s \<Longrightarrow> i < length s \<Longrightarrow> s ! i \<noteq> NUL"
  by (metis c_string_def nth_mem)

lemma char_at_NUL_iff: "c_string s \<Longrightarrow> char_at s i = NUL \<longleftrightarrow> length s \<le> i"
  by (auto simp: char_at_def c_string_nth)

lemma length_cstr_of_le: "length (cstr_of buf) \<le> length buf"
  by (simp add: cstr_of_def length_takeWhile_le)

text \<open>Overwriting a run of cells.\<close>

definition overwrite :: "'a list \<Rightarrow> nat \<Rightarrow> 'a list \<Rightarrow> 'a list" where
  "overwrite buf i xs = take i buf @ xs @ drop (i + length xs) buf"

lemma length_overwrite [simp]: "i + length xs \<le> length buf \<Longrightarrow> length (overwrite buf i xs) = length buf"
  by (simp add: overwrite_def)

lemma overwrite_Nil [simp]: "overwrite buf i [] = buf"
  by (simp add: overwrite_def)

lemma overwrite_update:
  assumes "i < length buf"
  shows "overwrite (buf[i := x]) (Suc i) xs = overwrite buf i (x # xs)"
  using assms by (simp add: overwrite_def take_Suc_conv_app_nth take_update_swap list_update_append)

lemma overwrite_snoc:
  assumes "i + length xs < length buf"
  shows "(overwrite buf i xs)[i + length xs := x] = overwrite buf i (xs @ [x])"
  using assms
  by (simp add: overwrite_def list_update_append Cons_nth_drop_Suc [symmetric] del: drop_append)

lemma cstr_of_overwrite_0:
  "c_string s \<Longrightarrow> cstr_of (overwrite buf 0 (s @ [NUL])) = s"
  by (simp add: overwrite_def cstr_of_append_NUL)

subsection \<open>Facts\<close>

lemma has_prefix_iff: "has_prefix s p \<longleftrightarrow> take (length p) s = p"
  by (induction s p rule: has_prefix.induct) auto

lemma has_prefix_append [simp]: "has_prefix (p @ s) p"
  by (simp add: has_prefix_iff)

lemma find_sub_Nil [simp]: "find_sub s [] = Some 0"
  by (cases s) auto

lemma find_sub_Some:
  "find_sub s sub = Some i \<Longrightarrow> i + length sub \<le> length s \<and> take (length sub) (drop i s) = sub"
proof (induction s arbitrary: i)
  case Nil
  then show ?case by (auto split: if_splits)
next
  case (Cons c s)
  show ?case
  proof (cases "has_prefix (c # s) sub")
    case True
    then have pre: "take (length sub) (c # s) = sub" by (simp add: has_prefix_iff)
    then have "length sub \<le> length (c # s)" by (metis length_take min.absorb_iff2)
    with True pre Cons.prems show ?thesis by simp
  next
    case False
    with Cons.prems obtain j where "find_sub s sub = Some j" "i = Suc j" by auto
    with Cons.IH show ?thesis by auto
  qed
qed

lemma find_sub_None:
  "find_sub s sub = None \<Longrightarrow> i \<le> length s \<Longrightarrow> take (length sub) (drop i s) \<noteq> sub"
proof (induction s arbitrary: i)
  case Nil
  then show ?case by (auto split: if_splits)
next
  case (Cons c s)
  then show ?case by (cases i) (auto simp: has_prefix_iff split: if_splits)
qed

lemma strchr_split:
  "strchr r c = Some n \<Longrightarrow> c \<noteq> NUL \<Longrightarrow> n < length r \<and> r ! n = c \<and> c \<notin> set (take n r)"
proof (induction r arbitrary: n)
  case (Cons d r)
  show ?case
  proof (cases "d = c")
    case True
    with Cons.prems show ?thesis by (auto simp: strchr_def)
  next
    case False
    then obtain m where "n = Suc m" "strchr r c = Some m"
      using Cons.prems by (auto simp: strchr_def split: if_splits)
    with Cons.IH [of m] Cons.prems False show ?thesis by auto
  qed
qed (simp add: strchr_def)

lemma strchr_None: "strchr r c = None \<Longrightarrow> c \<notin> set r"
  by (auto simp: strchr_def split: if_splits)

lemma strchr_append:
  "c \<noteq> NUL \<Longrightarrow> strchr (a @ b) c = (case strchr a c of Some i \<Rightarrow> Some i | None \<Rightarrow> map_option ((+) (length a)) (strchr b c))"
  by (auto simp: strchr_def takeWhile_append)

end
