(* ===== verification/Base64.thy ===== *)
theory Base64
  imports Prelude
begin

section \<open>Base-64 conversion (base64.c)\<close>

definition base64digits :: string where
  "base64digits = ''ABCDEFGHIJKLMNOPQRSTUVWXYZabcdefghijklmnopqrstuvwxyz0123456789+/''"

definition BAD :: int where
  "BAD = -1"

definition base64val :: "int list" where
  "base64val =
   [BAD,BAD,BAD,BAD, BAD,BAD,BAD,BAD, BAD,BAD,BAD,BAD, BAD,BAD,BAD,BAD,
    BAD,BAD,BAD,BAD, BAD,BAD,BAD,BAD, BAD,BAD,BAD,BAD, BAD,BAD,BAD,BAD,
    BAD,BAD,BAD,BAD, BAD,BAD,BAD,BAD, BAD,BAD,BAD, 62, BAD,BAD,BAD, 63,
     52, 53, 54, 55,  56, 57, 58, 59,  60, 61,BAD,BAD, BAD,BAD,BAD,BAD,
    BAD,  0,  1,  2,   3,  4,  5,  6,   7,  8,  9, 10,  11, 12, 13, 14,
     15, 16, 17, 18,  19, 20, 21, 22,  23, 24, 25,BAD, BAD,BAD,BAD,BAD,
    BAD, 26, 27, 28,  29, 30, 31, 32,  33, 34, 35, 36,  37, 38, 39, 40,
     41, 42, 43, 44,  45, 46, 47, 48,  49, 50, 51,BAD, BAD,BAD,BAD,BAD]"

text \<open>The macro \<open>DECODE64\<close>: the table for ASCII bytes, \<open>BAD\<close> for the others.\<close>

definition DECODE64 :: "char \<Rightarrow> int" where
  "DECODE64 c = (if code c < 128 then base64val ! code c else BAD)"

text \<open>\<open>base64digits[x]\<close> for an index that is the value of a byte expression.\<close>

definition b64digit :: "byte \<Rightarrow> char" where
  "b64digit x = base64digits ! unat x"

fun to64frombits :: "byte list \<Rightarrow> string" where
  "to64frombits (in0 # in1 # in2 # rest) =
     b64digit (drop_bit 2 in0)
     # b64digit ((push_bit 4 in0 AND 0x30) OR drop_bit 4 in1)
     # b64digit ((push_bit 2 in1 AND 0x3c) OR drop_bit 6 in2)
     # b64digit (in2 AND 0x3f)
     # to64frombits rest"
| "to64frombits [in0, in1] =
     [b64digit (drop_bit 2 in0),
      b64digit ((push_bit 4 in0 AND 0x30) OR drop_bit 4 in1),
      b64digit (push_bit 2 in1 AND 0x3c),
      CHR ''='']"
| "to64frombits [in0] =
     [b64digit (drop_bit 2 in0),
      b64digit (push_bit 4 in0 AND 0x30),
      CHR ''='',
      CHR ''='']"
| "to64frombits [] = []"

text \<open>
  The decoder. A digit is read as a character of the C string, so a short input shows as the
  NUL that \<open>DECODE64\<close> rejects. \<open>None\<close> is the return value -1, \<open>Some out\<close> the
  return of \<open>length out\<close> with \<open>out\<close> in the output buffer. \<open>maxlen\<close> limits the
  output unless it is zero.
\<close>

definition six :: "char \<Rightarrow> byte" where
  "six c = word_of_int (DECODE64 c)"

definition room :: "int \<Rightarrow> byte list \<Rightarrow> bool" where
  "room maxlen out \<longleftrightarrow> \<not> (maxlen \<noteq> 0 \<and> int (length out) > maxlen)"

lemma DECODE64_NUL [simp]: "DECODE64 NUL = BAD"
  by (simp add: DECODE64_def base64val_def code_def)

function from64_loop :: "int \<Rightarrow> string \<Rightarrow> byte list \<Rightarrow> byte list option" where
  "from64_loop maxlen inp out =
     (let digit1 = char_at inp 0; digit2 = char_at inp 1;
          digit3 = char_at inp 2; digit4 = char_at inp 3 in
      if DECODE64 digit1 = BAD then None
      else if DECODE64 digit2 = BAD then None
      else if digit3 \<noteq> CHR ''='' \<and> DECODE64 digit3 = BAD then None
      else if digit4 \<noteq> CHR ''='' \<and> DECODE64 digit4 = BAD then None
      else
        let inp' = drop 4 inp;
            out1 = out @ [push_bit 2 (six digit1) OR drop_bit 4 (six digit2)];
            out2 = (if digit3 \<noteq> CHR ''=''
                    then out1 @ [(push_bit 4 (six digit2) AND 0xf0) OR drop_bit 2 (six digit3)]
                    else out1);
            out3 = (if digit3 \<noteq> CHR ''='' \<and> digit4 \<noteq> CHR ''=''
                    then out2 @ [(push_bit 6 (six digit3) AND 0xc0) OR six digit4]
                    else out2) in
        if \<not> room maxlen out1 \<or> \<not> room maxlen out2 \<or> \<not> room maxlen out3 then None
        else if char_at inp' 0 \<noteq> NUL \<and> char_at inp' 0 \<noteq> CR \<and> digit4 \<noteq> CHR ''=''
        then from64_loop maxlen inp' out3
        else Some out3)"
  by pat_completeness auto
termination
  by (relation "measure (\<lambda>(maxlen, inp, out). length inp)")
    (auto simp: char_at_def split: if_splits)

declare from64_loop.simps [simp del]

definition from64tobits :: "string \<Rightarrow> int \<Rightarrow> byte list option" where
  "from64tobits inp maxlen =
     (let inp' = (if char_at inp 0 = CHR ''+'' \<and> char_at inp 1 = SP then drop 2 inp else inp) in
      if char_at inp' 0 = CR then Some []
      else from64_loop maxlen inp' [])"

section \<open>Lemmas on the digits\<close>

lemma byte_eqI:
  fixes a b :: byte
  assumes "bit a 0 = bit b 0" "bit a 1 = bit b 1" "bit a 2 = bit b 2" "bit a 3 = bit b 3"
    "bit a 4 = bit b 4" "bit a 5 = bit b 5" "bit a 6 = bit b 6" "bit a 7 = bit b 7"
  shows "a = b"
proof (rule bit_word_eqI)
  fix n assume "n < LENGTH(8)"
  then have "n = 0 \<or> n = 1 \<or> n = 2 \<or> n = 3 \<or> n = 4 \<or> n = 5 \<or> n = 6 \<or> n = 7"
    by (simp; arith)
  with assms show "bit a n = bit b n" by auto
qed

lemma unat_less_64I:
  fixes x :: byte
  assumes "\<not> bit x 6" "\<not> bit x 7"
  shows "unat x < 64"
proof -
  have "x = take_bit 6 x"
    by (rule byte_eqI) (use assms in \<open>simp_all add: bit_simps\<close>)
  then have "unat x = take_bit 6 (unat x)"
    by (metis unsigned_take_bit_eq)
  then have "unat x = unat x mod 64"
    by (simp add: take_bit_eq_mod)
  then show ?thesis
    by (metis mod_less_divisor zero_less_numeral)
qed

lemma sextets:
  fixes a b :: byte
  shows "unat (drop_bit 2 a) < 64"
    and "unat ((push_bit 4 a AND 0x30) OR drop_bit 4 b) < 64"
    and "unat ((push_bit 2 a AND 0x3c) OR drop_bit 6 b) < 64"
    and "unat (push_bit 4 a AND 0x30) < 64"
    and "unat (push_bit 2 a AND 0x3c) < 64"
    and "unat (a AND 0x3f) < 64"
proof -
  have "\<not> bit a 8" "\<not> bit a 9" by (auto dest: bit_imp_le_length)
  then show "unat (drop_bit 2 a) < 64"
    by (intro unat_less_64I) (simp_all add: bit_simps)
qed (rule unat_less_64I; simp add: bit_simps impossible_bit)+

lemma regroup:
  fixes a b c :: byte
  shows "push_bit 2 (drop_bit 2 a) OR drop_bit 4 ((push_bit 4 a AND 0x30) OR drop_bit 4 b) = a"
    and "push_bit 2 (drop_bit 2 a) OR drop_bit 4 (push_bit 4 a AND 0x30) = a"
    and "(push_bit 4 ((push_bit 4 a AND 0x30) OR drop_bit 4 b) AND 0xf0)
          OR drop_bit 2 ((push_bit 2 b AND 0x3c) OR drop_bit 6 c) = b"
    and "(push_bit 4 ((push_bit 4 a AND 0x30) OR drop_bit 4 b) AND 0xf0)
          OR drop_bit 2 (push_bit 2 b AND 0x3c) = b"
    and "(push_bit 6 ((push_bit 2 b AND 0x3c) OR drop_bit 6 c) AND 0xc0) OR (c AND 0x3f) = c"
  by (rule byte_eqI; simp add: bit_simps)+

lemma DECODE64_digits: "map (\<lambda>i. DECODE64 (base64digits ! i)) [0..<64] = map int [0..<64]"
  by code_simp

lemma DECODE64_b64digit [simp]:
  assumes "unat x < 64"
  shows "DECODE64 (b64digit x) = int (unat x)"
proof -
  have "map (\<lambda>i. DECODE64 (base64digits ! i)) [0..<64] ! unat x = map int [0..<64] ! unat x"
    by (simp only: DECODE64_digits)
  with assms show ?thesis by (simp add: b64digit_def)
qed

lemma uint_not_BAD [simp]:
  fixes x :: byte
  shows "uint x \<noteq> BAD"
proof -
  have "0 \<le> uint x" by simp
  then show ?thesis unfolding BAD_def by linarith
qed

lemma b64digit_good: "unat x < 64 \<Longrightarrow> DECODE64 (b64digit x) \<noteq> BAD"
  by simp

lemma six_b64digit [simp]: "unat x < 64 \<Longrightarrow> six (b64digit x) = x"
  by (simp add: six_def)

lemma DECODE64_special:
  "DECODE64 CR = BAD" "DECODE64 SP = BAD" "DECODE64 (CHR ''='') = BAD"
  by code_simp+

lemma b64digit_not_special [simp]:
  assumes "unat x < 64"
  shows "b64digit x \<noteq> NUL" "b64digit x \<noteq> CR" "b64digit x \<noteq> SP" "b64digit x \<noteq> CHR ''=''"
  using b64digit_good [OF assms] DECODE64_special DECODE64_NUL by metis+

section \<open>Encoding and decoding are inverse\<close>

lemma char_at_to64frombits:
  assumes "bs \<noteq> []"
  shows "char_at (to64frombits bs) 0 \<noteq> NUL \<and> char_at (to64frombits bs) 0 \<noteq> CR
    \<and> char_at (to64frombits bs) 1 \<noteq> SP"
  using assms by (cases bs rule: to64frombits.cases) (simp_all add: sextets)

lemma char_at_to64frombits_0:
  "char_at (to64frombits bs) 0 \<noteq> NUL \<and> char_at (to64frombits bs) 0 \<noteq> CR \<longleftrightarrow> bs \<noteq> []"
  using char_at_to64frombits [of bs] by (cases "bs = []") auto

text \<open>One turn of the decoder's loop on the digits of given sextets.\<close>

lemma room_prefix: "room maxlen (xs @ ys) \<Longrightarrow> room maxlen xs"
  by (auto simp: room_def)

lemma from64_loop_quad:
  assumes "unat x1 < 64" "unat x2 < 64" "unat x3 < 64" "unat x4 < 64"
    and "room maxlen (out @ [push_bit 2 x1 OR drop_bit 4 x2,
      (push_bit 4 x2 AND 0xf0) OR drop_bit 2 x3, (push_bit 6 x3 AND 0xc0) OR x4])" (is "room _ (out @ [?a, ?b, ?c])")
  shows "from64_loop maxlen (b64digit x1 # b64digit x2 # b64digit x3 # b64digit x4 # rest) out =
    (if char_at rest 0 \<noteq> NUL \<and> char_at rest 0 \<noteq> CR
     then from64_loop maxlen rest (out @ [?a, ?b, ?c]) else Some (out @ [?a, ?b, ?c]))"
proof -
  have "room maxlen (out @ [?a])" "room maxlen (out @ [?a, ?b])"
    using assms(5) room_prefix [of maxlen "out @ [?a]" "[?b, ?c]"]
      room_prefix [of maxlen "out @ [?a, ?b]" "[?c]"] by simp_all
  with assms show ?thesis
    by (subst from64_loop.simps) (simp add: Let_def)
qed

lemma from64_loop_three:
  assumes "unat x1 < 64" "unat x2 < 64" "unat x3 < 64"
    and "room maxlen (out @ [push_bit 2 x1 OR drop_bit 4 x2,
      (push_bit 4 x2 AND 0xf0) OR drop_bit 2 x3])" (is "room _ (out @ [?a, ?b])")
  shows "from64_loop maxlen [b64digit x1, b64digit x2, b64digit x3, CHR ''=''] out
    = Some (out @ [?a, ?b])"
  using assms room_prefix [of maxlen "out @ [?a]" "[?b]"]
  by (subst from64_loop.simps) (simp add: Let_def)

lemma from64_loop_two:
  assumes "unat x1 < 64" "unat x2 < 64"
    and "room maxlen (out @ [push_bit 2 x1 OR drop_bit 4 x2])" (is "room _ (out @ [?a])")
  shows "from64_loop maxlen [b64digit x1, b64digit x2, CHR ''='', CHR ''=''] out
    = Some (out @ [?a])"
  using assms by (subst from64_loop.simps) (simp add: Let_def)

lemmas from64_loop_turns =
  from64_loop_quad [OF sextets(1) [of a] sextets(2) [of a b] sextets(3) [of b c] sextets(6) [of c],
    unfolded regroup]
  from64_loop_three [OF sextets(1) [of a] sextets(2) [of a b] sextets(5) [of b], unfolded regroup]
  from64_loop_two [OF sextets(1) [of a] sextets(4) [of a], unfolded regroup] for a b c

lemma from64_loop_to64frombits:
  assumes "bs \<noteq> []" and "room maxlen (out @ bs)"
  shows "from64_loop maxlen (to64frombits bs) out = Some (out @ bs)"
  using assms
proof (induction bs arbitrary: out rule: to64frombits.induct)
  case (1 in0 in1 in2 rest)
  have "room maxlen (out @ [in0, in1, in2])"
    using "1.prems" room_prefix [of maxlen "out @ [in0, in1, in2]" rest] by simp
  then have "from64_loop maxlen (to64frombits (in0 # in1 # in2 # rest)) out =
      (if rest \<noteq> [] then from64_loop maxlen (to64frombits rest) (out @ [in0, in1, in2])
       else Some (out @ [in0, in1, in2]))"
    by (simp only: to64frombits.simps from64_loop_turns char_at_to64frombits_0 simp_thms)
  with "1.prems" "1.IH" [of "out @ [in0, in1, in2]"] show ?case
    by auto
qed (simp_all only: to64frombits.simps from64_loop_turns simp_thms)

lemma b64_inverse:
  assumes "bs \<noteq> []" and "maxlen = 0 \<or> int (length bs) \<le> maxlen"
  shows "from64tobits (to64frombits bs) maxlen = Some bs"
  using assms char_at_to64frombits [OF assms(1)] from64_loop_to64frombits [of bs maxlen "[]"]
  by (auto simp: from64tobits_def room_def)

text \<open>C32. A decoded encoding is the original data, whenever the output limit leaves room for
  it: \<open>from64tobits\<close> undoes \<open>to64frombits\<close> on every non-empty byte string.\<close>

theorem base64_roundtrip:
  assumes "bs \<noteq> []" and "maxlen = 0 \<or> int (length bs) \<le> maxlen"
  shows "from64tobits (to64frombits bs) maxlen = Some bs"
  by (rule b64_inverse [OF assms])

theorem base64_roundtrip_witness:
  "from64tobits (to64frombits [0xff, 0, 0x10, 0x41]) 4 = Some [0xff, 0, 0x10, 0x41]"
  by (rule base64_roundtrip) simp_all

section \<open>Sizes\<close>

lemma length_to64frombits: "length (to64frombits bs) = 4 * ((length bs + 2) div 3)"
proof (induction bs rule: to64frombits.induct)
  case (1 in0 in1 in2 rest)
  have "(length (in0 # in1 # in2 # rest) + 2) div 3 = (length rest + 2) div 3 + 1"
    using div_add_self2 [of "3::nat" "length rest + 2"] by (simp add: algebra_simps)
  with 1 show ?case by (simp del: add_Suc_right)
qed simp_all

lemma from64_loop_turn:
  assumes "from64_loop maxlen inp out = Some bs"
  shows "\<exists>out'. room maxlen out' \<and> length inp \<ge> 4 \<and> length out' \<le> length out + 3 \<and>
    (bs = out' \<or> from64_loop maxlen (drop 4 inp) out' = Some bs)"
proof -
  have "char_at inp 3 \<noteq> NUL"
    using assms by (subst (asm) from64_loop.simps) (auto simp: Let_def split: if_splits)
  then have "length inp \<ge> 4"
    by (simp add: char_at_def split: if_splits)
  with assms show ?thesis
    by (subst (asm) from64_loop.simps) (auto simp: Let_def split: if_splits)
qed

lemma from64_loop_bounds:
  assumes "from64_loop maxlen inp out = Some bs"
  shows "room maxlen bs \<and> 4 * length bs \<le> 4 * length out + 3 * length inp"
  using assms
proof (induction inp arbitrary: out rule: length_induct)
  case (1 inp)
  from from64_loop_turn [OF "1.prems"] obtain out'
    where out': "room maxlen out'" "length inp \<ge> 4" "length out' \<le> length out + 3"
      "bs = out' \<or> from64_loop maxlen (drop 4 inp) out' = Some bs" by blast
  show ?case
  proof (cases "bs = out'")
    case False
    with out' have rec: "from64_loop maxlen (drop 4 inp) out' = Some bs" by blast
    have "length (drop 4 inp) < length inp" using out'(2) by simp
    with rec have "room maxlen bs \<and> 4 * length bs \<le> 4 * length out' + 3 * length (drop 4 inp)"
      using "1.IH" by blast
    with out' show ?thesis by auto
  qed (use out' in auto)
qed

lemma from64tobits_room:
  assumes "from64tobits inp maxlen = Some bs"
  shows "maxlen = 0 \<or> int (length bs) \<le> max 0 maxlen" "4 * length bs \<le> 3 * length inp"
proof -
  define inp' where
    "inp' = (if char_at inp 0 = CHR ''+'' \<and> char_at inp 1 = SP then drop 2 inp else inp)"
  have "length inp' \<le> length inp" by (simp add: inp'_def)
  moreover have "bs = [] \<or> from64_loop maxlen inp' [] = Some bs"
    using assms by (auto simp: from64tobits_def Let_def inp'_def split: if_splits)
  ultimately show "maxlen = 0 \<or> int (length bs) \<le> max 0 maxlen" "4 * length bs \<le> 3 * length inp"
    using from64_loop_bounds [of maxlen inp' "[]" bs] by (auto simp: room_def)
qed

text \<open>The decoder never writes more than \<open>maxlen\<close> bytes when a limit is given, and never
  more than three bytes for four characters read.\<close>

theorem from64tobits_bounds:
  assumes "from64tobits inp maxlen = Some bs"
  shows "(maxlen = 0 \<or> int (length bs) \<le> max 0 maxlen) \<and> 4 * length bs \<le> 3 * length inp"
  using from64tobits_room [OF assms] by simp

theorem from64tobits_bounds_witness:
  "from64tobits ''+ AQIDBA=='' 4 = Some [1, 2, 3, 4] \<and> int (length [1, 2, 3, 4 :: byte]) \<le> 4"
proof -
  have "from64tobits ''+ AQIDBA=='' 4 = Some [1, 2, 3, 4]" by code_simp
  with from64tobits_bounds [OF this] show ?thesis by simp
qed

end
