(* ===== verification/Strings.thy ===== *)
theory Strings
  imports Prelude
begin

section \<open>The string primitives the repository carries itself\<close>

text \<open>
  strlcpy.c, strlcat.c, strcasecmp.c, strstr.c, stpcpy.c, memmove.c and sdump.c. The pointers of the C
  code are offsets into the arrays it is given; an access outside an array is \<open>None\<close>.
\<close>

subsection \<open>strlcpy\<close>

text \<open>The \<open>do \<dots> while\<close> of \<open>strlcpy\<close>: buffer, offset of \<open>d\<close>, offset of \<open>s\<close>, and \<open>n\<close>.\<close>

fun strlcpy_loop ::
  "string \<Rightarrow> string \<Rightarrow> nat \<Rightarrow> nat \<Rightarrow> nat \<Rightarrow> (string \<times> nat \<times> nat \<times> nat) option" where
  "strlcpy_loop src dst d s 0 = Some (dst, d, s, 0)"
| "strlcpy_loop src dst d s (Suc n) = do {
     dst' \<leftarrow> poke dst d (char_at src s);
     if char_at src s = NUL then Some (dst', Suc d, Suc s, Suc n)
     else strlcpy_loop src dst' (Suc d) (Suc s) n
   }"

text \<open>\<open>while (*s++) ;\<close>: the offset just behind the terminator.\<close>

function past_nul :: "string \<Rightarrow> nat \<Rightarrow> nat" where
  "past_nul src s = (if char_at src s = NUL then Suc s else past_nul src (Suc s))"
  by pat_completeness auto
termination
  by (relation "measure (\<lambda>(src, s). length src - s)") (auto simp: char_at_def split: if_splits)

declare past_nul.simps [simp del]

definition strlcpy :: "string \<Rightarrow> string \<Rightarrow> nat \<Rightarrow> (string \<times> nat) option" where
  "strlcpy dst src siz = do {
     (dst1, d, s, n) \<leftarrow>
       (if siz \<noteq> 0 \<and> siz - 1 \<noteq> 0 then strlcpy_loop src dst 0 0 (siz - 1)
        else Some (dst, 0, 0, siz - 1));
     (dst2, s) \<leftarrow>
       (if n = 0 then do {
          dst2 \<leftarrow> (if siz \<noteq> 0 then poke dst1 d NUL else Some dst1);
          Some (dst2, past_nul src s)
        } else Some (dst1, s));
     Some (dst2, s - 1)
   }"

subsection \<open>strlcat\<close>

text \<open>\<open>while (n-- != 0 && *d != 0) d++\<close>: the offset of \<open>d\<close> when the loop ends.\<close>

fun strlcat_end :: "string \<Rightarrow> nat \<Rightarrow> nat \<Rightarrow> nat option" where
  "strlcat_end dst d 0 = Some d"
| "strlcat_end dst d (Suc n) = do {
     c \<leftarrow> peek dst d;
     if c \<noteq> NUL then strlcat_end dst (Suc d) n else Some d
   }"

fun strlcat_loop :: "string \<Rightarrow> string \<Rightarrow> nat \<Rightarrow> nat \<Rightarrow> (string \<times> nat) option" where
  "strlcat_loop dst [] d n = Some (dst, d)"
| "strlcat_loop dst (c # src) d n =
     (if n \<noteq> 1 then do {
        dst' \<leftarrow> poke dst d c;
        strlcat_loop dst' src (Suc d) (n - 1)
      } else strlcat_loop dst src d n)"

definition strlcat :: "string \<Rightarrow> string \<Rightarrow> nat \<Rightarrow> (string \<times> nat) option" where
  "strlcat dst src siz = do {
     dlen \<leftarrow> strlcat_end dst 0 siz;
     let n = siz - dlen;
     if n = 0 then Some (dst, dlen + length src)
     else do {
       (dst1, d) \<leftarrow> strlcat_loop dst src dlen n;
       dst2 \<leftarrow> poke dst1 d NUL;
       Some (dst2, dlen + length src)
     }
   }"

subsection \<open>strcasecmp, strncasecmp\<close>

text \<open>
  The arguments are the rests of the strings; reading past the last character gives the NUL.
\<close>

fun strcasecmp :: "string \<Rightarrow> string \<Rightarrow> int" where
  "strcasecmp s1 s2 =
     (if toupper (char_at s1 0) = toupper (char_at s2 0)
      then (case s1 of [] \<Rightarrow> 0 | c # s1' \<Rightarrow> strcasecmp s1' (drop 1 s2))
      else int (code (toupper (char_at s1 0))) - int (code (toupper (char_at s2 0))))"

declare strcasecmp.simps [simp del]

fun strncasecmp :: "string \<Rightarrow> string \<Rightarrow> nat \<Rightarrow> int" where
  "strncasecmp s1 s2 0 = 0"
| "strncasecmp s1 s2 (Suc n) =
     (if toupper (char_at s1 0) = toupper (char_at s2 0)
      then (case s1 of [] \<Rightarrow> 0 | c # s1' \<Rightarrow> strncasecmp s1' (drop 1 s2) n)
      else int (code (toupper (char_at s1 0))) - int (code (toupper (char_at s2 0))))"

subsection \<open>strstr, stpcpy\<close>

text \<open>The inner loop: does \<open>sub\<close> start at \<open>bp\<close>?\<close>

fun strstr_here :: "string \<Rightarrow> string \<Rightarrow> bool" where
  "strstr_here bp [] = True"
| "strstr_here bp (c # sub) = (char_at bp 0 = c \<and> strstr_here (drop 1 bp) sub)"

fun strstr_loop :: "string \<Rightarrow> string \<Rightarrow> nat \<Rightarrow> nat option" where
  "strstr_loop [] sub i = None"
| "strstr_loop (c # buf) sub i =
     (if strstr_here (c # buf) sub then Some i else strstr_loop buf sub (Suc i))"

definition strstr :: "string \<Rightarrow> string \<Rightarrow> nat option" where
  "strstr buf sub = (if sub = [] then Some 0 else strstr_loop buf sub 0)"

text \<open>\<open>strcpy(dest, src); return strchr(dest, 0)\<close>: the array after the copy and the returned offset.\<close>

fun store :: "'a list \<Rightarrow> nat \<Rightarrow> 'a list \<Rightarrow> 'a list option" where
  "store buf i [] = Some buf"
| "store buf i (x # xs) = do { buf' \<leftarrow> poke buf i x; store buf' (Suc i) xs }"

definition stpcpy :: "string \<Rightarrow> string \<Rightarrow> (string \<times> nat) option" where
  "stpcpy dest src = do {
     dest' \<leftarrow> store dest 0 (src @ [NUL]);
     p \<leftarrow> strchr (cstr_of dest') NUL;
     Some (dest', p)
   }"

subsection \<open>memmove\<close>

text \<open>Both pointers point into one array of cells; the copy direction follows from their order.\<close>

fun memmove_down :: "'a list \<Rightarrow> nat \<Rightarrow> nat \<Rightarrow> nat \<Rightarrow> 'a list option" where
  "memmove_down mem dst src 0 = Some mem"
| "memmove_down mem dst src (Suc n) = do {
     x \<leftarrow> peek mem (src + n);
     mem' \<leftarrow> poke mem (dst + n) x;
     memmove_down mem' dst src n
   }"

fun memmove_up :: "'a list \<Rightarrow> nat \<Rightarrow> nat \<Rightarrow> nat \<Rightarrow> 'a list option" where
  "memmove_up mem dst src 0 = Some mem"
| "memmove_up mem dst src (Suc n) = do {
     x \<leftarrow> peek mem src;
     mem' \<leftarrow> poke mem dst x;
     memmove_up mem' (Suc dst) (Suc src) n
   }"

definition memmove :: "'a list \<Rightarrow> nat \<Rightarrow> nat \<Rightarrow> nat \<Rightarrow> 'a list option" where
  "memmove mem dst src n =
     (if dst > src \<and> dst < src + n then memmove_down mem dst src n
      else memmove_up mem dst src n)"

subsection \<open>sdump\<close>

text \<open>\<open>%02X\<close> of a byte.\<close>

definition hexdigit :: "nat \<Rightarrow> char" where
  "hexdigit n = (if n < 10 then chr (48 + n) else chr (55 + n))"

definition hex2 :: "char \<Rightarrow> string" where
  "hex2 c = [hexdigit (code c div 16), hexdigit (code c mod 16)]"

definition sdump_char :: "char \<Rightarrow> string" where
  "sdump_char c = (if isprint c then [c] else BACKSLASH # CHR ''x'' # hex2 c)"

definition sdump_outlen :: "string \<Rightarrow> nat" where
  "sdump_outlen inp = sum_list (map (\<lambda>c. if isprint c then 1 else 4) inp)"

fun sdump_fill :: "string \<Rightarrow> nat \<Rightarrow> string \<Rightarrow> (string \<times> nat) option" where
  "sdump_fill out oi [] = Some (out, oi)"
| "sdump_fill out oi (c # inp) =
     (if isprint c then do {
        out' \<leftarrow> poke out oi c;
        sdump_fill out' (Suc oi) inp
      } else do {
        out' \<leftarrow> store out oi (BACKSLASH # CHR ''x'' # hex2 c @ [NUL]);
        sdump_fill out' (oi + 4) inp
      })"

text \<open>\<open>mem\<close> is the uninitialised memory \<open>xmalloc\<close> hands out; \<open>len\<close> bytes of \<open>inp\<close> are dumped.\<close>

definition sdump :: "(nat \<Rightarrow> string) \<Rightarrow> string \<Rightarrow> string option" where
  "sdump mem inp = do {
     let outlen = sdump_outlen inp;
     (out, oi) \<leftarrow> sdump_fill (mem (outlen + 1)) 0 inp;
     out' \<leftarrow> poke out oi NUL;
     Some out'
   }"

section \<open>What the primitives compute\<close>

lemma store_eq:
  "store buf i xs = (if xs = [] \<or> i + length xs \<le> length buf then Some (overwrite buf i xs) else None)"
proof (induction xs arbitrary: buf i)
  case Nil
  then show ?case by simp
next
  case (Cons x xs)
  then show ?case
    by (cases "i < length buf") (auto simp: overwrite_update poke_def)
qed

lemma past_nul_eq:
  assumes "c_string src" "s \<le> length src"
  shows "past_nul src s = Suc (length src)"
  using assms
proof (induction src s rule: past_nul.induct)
  case (1 src s)
  then show ?case
    by (cases "s = length src")
      (simp_all add: past_nul.simps [of src s] past_nul.simps [of src "length src"] char_at_NUL_iff)
qed

lemma strlcpy_loop_fits:
  assumes "c_string src" "s \<le> length src" "length src - s < n" "d + n \<le> length dst"
  shows "strlcpy_loop src dst d s n =
    Some (overwrite dst d (drop s src @ [NUL]), d + (length src - s) + 1, length src + 1,
      n - (length src - s))"
  using assms
proof (induction src dst d s n rule: strlcpy_loop.induct)
  case (2 src dst d s n)
  show ?case
  proof (cases "s = length src")
    case True
    with "2.prems" show ?thesis
      by (simp add: char_at_def overwrite_update [where xs = "[]", simplified])
  next
    case False
    with "2.prems" have s: "s < length src" and ne: "src ! s \<noteq> NUL"
      by (auto simp: c_string_nth)
    then have e: "length src - s = Suc (length src - Suc s)" by simp
    with "2.prems" "2.IH" [of "dst[d := src ! s]"] s ne show ?thesis
      by (simp add: char_at_def overwrite_update Cons_nth_drop_Suc [symmetric])
  qed
qed simp

lemma strlcpy_loop_truncates:
  assumes "c_string src" "s + n \<le> length src" "d + n \<le> length dst"
  shows "strlcpy_loop src dst d s n =
    Some (overwrite dst d (take n (drop s src)), d + n, s + n, 0)"
  using assms
proof (induction src dst d s n rule: strlcpy_loop.induct)
  case (2 src dst d s n)
  then have s: "s < length src" and ne: "src ! s \<noteq> NUL"
    by (auto simp: c_string_nth)
  with "2.prems" "2.IH" [of "dst[d := src ! s]"] show ?case
    by (simp add: s ne char_at_def overwrite_update Cons_nth_drop_Suc [symmetric])
qed simp

text \<open>\<open>strlcpy\<close> into an array of at least \<open>siz\<close> cells stays inside it, leaves the first
  \<open>siz - 1\<close> characters of the source there, NUL-terminated, touches nothing behind them and
  returns the length of the source, so that a result of at least \<open>siz\<close> tells of truncation.\<close>

theorem strlcpy_spec:
  assumes "c_string src" "0 < siz" "siz \<le> length dst"
  shows "strlcpy dst src siz = Some (overwrite dst 0 (take (siz - 1) src @ [NUL]), length src)"
proof (cases "length src < siz - 1")
  case True
  with assms show ?thesis
    by (auto simp: strlcpy_def strlcpy_loop_fits)
next
  case False
  then have len: "siz - 1 \<le> length src" by simp
  have "(overwrite dst 0 (take (siz - 1) src))[siz - 1 := NUL]
      = overwrite dst 0 (take (siz - 1) src @ [NUL])"
    using overwrite_snoc [of 0 "take (siz - 1) src" dst NUL] assms len by simp
  moreover have "(if siz \<noteq> 0 \<and> siz - 1 \<noteq> 0 then strlcpy_loop src dst 0 0 (siz - 1)
      else Some (dst, 0, 0, siz - 1)) = Some (overwrite dst 0 (take (siz - 1) src), siz - 1, siz - 1, 0)"
    using strlcpy_loop_truncates [of src 0 "siz - 1" 0 dst] assms len by (cases "siz = 1") auto
  ultimately show ?thesis
    unfolding strlcpy_def using past_nul_eq [of src "siz - 1"] assms len by simp
qed

theorem strlcpy_spec_witness:
  "strlcpy (replicate 4 (CHR ''x'')) ''hello'' 3 = Some (''he'' @ [NUL] @ ''x'', 5)"
proof -
  have "strlcpy (replicate 4 (CHR ''x'')) ''hello'' 3
      = Some (overwrite (replicate 4 (CHR ''x'')) 0 (take (3 - 1) ''hello'' @ [NUL]), length ''hello'')"
    by (rule strlcpy_spec) (simp_all add: c_string_def)
  then show ?thesis by (simp add: overwrite_def numeral_eq_Suc)
qed

lemma takeWhile_take_short:
  "length (takeWhile P xs) < n \<Longrightarrow> takeWhile P (take n xs) = takeWhile P xs"
  by (induction xs arbitrary: n) (auto simp: take_Cons' split: if_splits)

lemma strlcat_end_eq:
  "d + n \<le> length dst \<Longrightarrow>
   strlcat_end dst d n = Some (d + length (takeWhile (\<lambda>c. c \<noteq> NUL) (take n (drop d dst))))"
proof (induction dst d n rule: strlcat_end.induct)
  case (2 dst d n)
  then show ?case
    by (auto simp: Cons_nth_drop_Suc [symmetric])
qed simp

lemma strlcat_loop_eq:
  assumes "0 < n" "d + n \<le> length dst"
  shows "strlcat_loop dst src d n =
    Some (overwrite dst d (take (n - 1) src), d + min (n - 1) (length src))"
  using assms
proof (induction dst src d n rule: strlcat_loop.induct)
  case (2 dst c src d n)
  show ?case
  proof (cases "n = 1")
    case False
    with "2.prems" obtain m where n: "n = Suc (Suc m)"
      by (cases n; cases "n - 1") auto
    with "2.prems" "2.IH"(1) [of "dst[d := c]"] show ?thesis
      by (simp add: overwrite_update)
  qed (use 2 in simp)
qed simp

text \<open>\<open>strlcat\<close> appends as much of the source as leaves room for the NUL in \<open>siz\<close> cells,
  and returns the length of the string it tried to build.\<close>

theorem strlcat_spec:
  assumes "siz \<le> length dst" and "length (cstr_of dst) < siz"
  shows "strlcat dst src siz =
    Some (overwrite dst (length (cstr_of dst))
            (take (siz - length (cstr_of dst) - 1) src @ [NUL]),
          length (cstr_of dst) + length src)"
proof -
  let ?l = "length (cstr_of dst)"
  have l: "length (takeWhile (\<lambda>c. c \<noteq> NUL) (take siz dst)) = ?l"
    using assms(2) unfolding cstr_of_def by (simp add: takeWhile_take_short)
  have "strlcat_loop dst src ?l (siz - ?l) =
      Some (overwrite dst ?l (take (siz - ?l - 1) src), ?l + min (siz - ?l - 1) (length src))"
    using assms by (intro strlcat_loop_eq) auto
  moreover have "(overwrite dst ?l (take (siz - ?l - 1) src))
        [?l + length (take (siz - ?l - 1) src) := NUL]
      = overwrite dst ?l (take (siz - ?l - 1) src @ [NUL])"
    using assms by (intro overwrite_snoc) auto
  ultimately show ?thesis
    using assms l strlcat_end_eq [of 0 siz dst]
    by (auto simp: strlcat_def Let_def poke_def min_def split: if_splits)
qed


theorem strlcat_spec_witness:
  "strlcat (''ab'' @ NUL # ''xyz'') ''cdef'' 5 = Some (''abcd'' @ NUL # ''z'', 6)"
proof -
  have l: "length (cstr_of (''ab'' @ NUL # ''xyz'')) = 2"
    by (simp add: cstr_of_def)
  have "strlcat (''ab'' @ NUL # ''xyz'') ''cdef'' 5 =
    Some (overwrite (''ab'' @ NUL # ''xyz'') (length (cstr_of (''ab'' @ NUL # ''xyz'')))
            (take (5 - length (cstr_of (''ab'' @ NUL # ''xyz'')) - 1) ''cdef'' @ [NUL]),
          length (cstr_of (''ab'' @ NUL # ''xyz'')) + length ''cdef'')"
    by (rule strlcat_spec) (simp_all add: cstr_of_def)
  then show ?thesis unfolding l by (simp add: overwrite_def numeral_eq_Suc)
qed

text \<open>The replacements agree with the library functions they replace.\<close>

lemma toupper_char_at_Nil: "c_string s2 \<Longrightarrow> NUL = toupper (char_at s2 0) \<longleftrightarrow> s2 = []"
  by (cases s2) (auto simp: c_string_def dest: sym)

lemma strcasecmp_eq_0:
  "c_string s1 \<Longrightarrow> c_string s2 \<Longrightarrow> strcasecmp s1 s2 = 0 \<longleftrightarrow> strcaseeq s1 s2"
proof (induction s1 arbitrary: s2)
  case Nil
  then show ?case
    by (cases s2) (auto simp: strcasecmp.simps [of "[]"] strcaseeq_def c_string_def)
next
  case (Cons c s1)
  show ?case
  proof (cases s2)
    case Nil
    with Cons.prems show ?thesis
      by (auto simp: strcasecmp.simps [of "c # s1"] strcaseeq_def c_string_def)
  next
    case (Cons d s2')
    with Cons.prems Cons.IH [of s2'] show ?thesis
      by (auto simp: strcasecmp.simps [of "c # s1"] strcaseeq_def c_string_def)
  qed
qed

lemma strncasecmp_eq_0:
  "c_string s1 \<Longrightarrow> c_string s2 \<Longrightarrow>
   strncasecmp s1 s2 n = 0 \<longleftrightarrow> map toupper (take n s1) = map toupper (take n s2)"
proof (induction s1 s2 n rule: strncasecmp.induct)
  case (2 s1 s2 n)
  then show ?case
    by (cases s1; cases s2) (auto simp: c_string_def)
qed simp

lemma has_iprefix_iff: "has_iprefix s p \<longleftrightarrow> map toupper (take (length p) s) = map toupper p"
  by (induction s p rule: has_iprefix.induct) auto

lemma strncasecmp_has_iprefix:
  "c_string s \<Longrightarrow> c_string p \<Longrightarrow> strncasecmp p s (length p) = 0 \<longleftrightarrow> has_iprefix s p"
  by (auto simp: strncasecmp_eq_0 has_iprefix_iff)

lemma strstr_here_eq: "c_string sub \<Longrightarrow> strstr_here bp sub = has_prefix bp sub"
proof (induction bp sub rule: strstr_here.induct)
  case (2 bp c sub)
  then show ?case by (cases bp) (auto simp: c_string_def)
qed simp

lemma strstr_loop_eq:
  "c_string sub \<Longrightarrow> sub \<noteq> [] \<Longrightarrow> strstr_loop buf sub i = map_option ((+) i) (find_sub buf sub)"
proof (induction buf sub i rule: strstr_loop.induct)
  case (2 c buf sub i)
  then show ?case
    by (cases "find_sub buf sub") (auto simp: strstr_here_eq)
qed simp

text \<open>The repository's \<open>strcasecmp\<close>, \<open>strncasecmp\<close> and \<open>strstr\<close>, used where the host has none,
  decide equality up to case, prefixes up to case, and the first occurrence of a substring.\<close>

theorem string_replacements_agree:
  assumes "c_string s" and "c_string t"
  shows "(strcasecmp s t = 0 \<longleftrightarrow> strcaseeq s t)
    \<and> (strncasecmp t s (length t) = 0 \<longleftrightarrow> has_iprefix s t)
    \<and> strstr s t = find_sub s t"
proof -
  have "map_option ((+) 0) (find_sub s t) = find_sub s t"
    by (cases "find_sub s t") auto
  then show ?thesis
    using assms strcasecmp_eq_0 strncasecmp_has_iprefix strstr_loop_eq [of t s 0]
    by (auto simp: strstr_def)
qed

theorem string_replacements_agree_witness:
  "strcasecmp ''Content-TYPE'' ''content-type'' = 0 \<and> strstr ''a=?b'' ''=?'' = Some 1"
proof -
  have "strcaseeq ''Content-TYPE'' ''content-type''" by code_simp
  moreover have "strcasecmp ''Content-TYPE'' ''content-type'' = 0
      \<longleftrightarrow> strcaseeq ''Content-TYPE'' ''content-type''"
    using string_replacements_agree [of "''Content-TYPE''" "''content-type''"]
    by (simp add: c_string_def)
  moreover have "strstr ''a=?b'' ''=?'' = find_sub ''a=?b'' ''=?''"
    using string_replacements_agree [of "''a=?b''" "''=?''"] by (simp add: c_string_def)
  ultimately show ?thesis by simp
qed

lemma memmove_up_eq:
  assumes "dst + n \<le> length mem" "src + n \<le> length mem" "dst \<le> src \<or> src + n \<le> dst"
  shows "memmove_up mem dst src n = Some (overwrite mem dst (take n (drop src mem)))"
  using assms
proof (induction n arbitrary: mem dst src)
  case (Suc n)
  let ?mem = "mem[dst := mem ! src]"
  have "take n (drop (Suc src) ?mem) = take n (drop (Suc src) mem)"
    using Suc.prems by (intro nth_equalityI) (auto simp: nth_list_update)
  moreover have "memmove_up ?mem (Suc dst) (Suc src) n
      = Some (overwrite ?mem (Suc dst) (take n (drop (Suc src) ?mem)))"
    using Suc.prems by (intro Suc.IH) auto
  ultimately show ?case
    using Suc.prems by (simp add: overwrite_update Cons_nth_drop_Suc [symmetric, of src])
qed simp

lemma memmove_down_eq:
  assumes "dst + n \<le> length mem" "src < dst"
  shows "memmove_down mem dst src n = Some (overwrite mem dst (take n (drop src mem)))"
  using assms
proof (induction mem dst src n rule: memmove_down.induct)
  case (2 mem dst src n)
  let ?mem = "mem[dst + n := mem ! (src + n)]"
  have "memmove_down ?mem dst src n = Some (overwrite ?mem dst (take n (drop src ?mem)))"
    using 2 by simp
  moreover have "take n (drop src ?mem) = take n (drop src mem)"
    using "2.prems" by (intro nth_equalityI) (auto simp: nth_list_update)
  moreover have "overwrite ?mem dst (take n (drop src mem))
      = overwrite mem dst (take n (drop src mem) @ [mem ! (src + n)])"
    using "2.prems" overwrite_snoc [of dst "take n (drop src mem)" mem "mem ! (src + n)"]
    by (simp add: overwrite_def drop_update_swap list_update_append)
  ultimately show ?case
    using "2.prems" by (simp add: take_Suc_conv_app_nth)
qed simp

lemma memmove_eq:
  assumes "dst + n \<le> length mem" and "src + n \<le> length mem"
  shows "memmove mem dst src n = Some (overwrite mem dst (take n (drop src mem)))"
  using assms memmove_up_eq [of dst n mem src] memmove_down_eq [of dst n mem src]
  by (auto simp: memmove_def)

text \<open>\<open>memmove\<close> copies correctly even when source and destination overlap: the destination
  run receives the cells the source run held before the call, and nothing else changes.\<close>

theorem memmove_overlap:
  assumes "dst + n \<le> length mem" and "src + n \<le> length mem"
  shows "memmove mem dst src n = Some (overwrite mem dst (take n (drop src mem)))"
  by (rule memmove_eq [OF assms])

theorem memmove_overlap_witness:
  "memmove ''abcdef'' 2 0 4 = Some ''ababcd''"
  using memmove_overlap [of 2 4 "''abcdef''" 0] by (simp add: overwrite_def)

lemma store_prefix:
  assumes "i + length xs \<le> length buf"
  shows "\<exists>buf'. store buf i (xs) = Some buf' \<and> length buf' = length buf
    \<and> (\<forall>k \<le> i + length xs. take k buf' = take k (take i buf @ xs))"
  using assms by (cases "xs = []") (auto simp: store_eq overwrite_def min_def)

lemma length_sdump_char: "length (sdump_char c) = (if isprint c then 1 else 4)"
  by (simp add: sdump_char_def hex2_def)

lemma sdump_fill_eq:
  assumes "oi + sdump_outlen inp < length out"
  shows "\<exists>out'. sdump_fill out oi inp = Some (out', oi + sdump_outlen inp)
    \<and> length out' = length out
    \<and> take (oi + sdump_outlen inp) out' = take oi out @ concat (map sdump_char inp)"
  using assms
proof (induction inp arbitrary: out oi)
  case Nil
  then show ?case by (simp add: sdump_outlen_def)
next
  case (Cons c inp)
  define w where "w = (if isprint c then 1 else 4 :: nat)"
  have len: "sdump_outlen (c # inp) = w + sdump_outlen inp"
    by (simp add: sdump_outlen_def w_def)
  define written where "written = (if isprint c then [c] else sdump_char c @ [NUL])"
  have "oi + length written \<le> length out"
    using Cons.prems len
    by (auto simp: written_def sdump_char_def hex2_def w_def)
  from store_prefix [OF this] obtain out1 where out1: "store out oi written = Some out1"
      "length out1 = length out"
      "\<forall>k \<le> oi + length written. take k out1 = take k (take oi out @ written)" by blast
  have w: "take w written = sdump_char c" "w \<le> length written"
    by (simp_all add: written_def w_def sdump_char_def hex2_def)
  have pre: "take (oi + w) out1 = take oi out @ sdump_char c"
    using out1(3) w Cons.prems len by (simp add: min_def)
  have "sdump_fill out oi (c # inp) = store out oi written \<bind> (\<lambda>out'. sdump_fill out' (oi + w) inp)"
  proof (cases "isprint c")
    case False
    then show ?thesis
      by (simp add: written_def w_def sdump_char_def del: store.simps)
  qed (simp add: written_def w_def)
  then have "sdump_fill out oi (c # inp) = sdump_fill out1 (oi + w) inp"
    using out1(1) by simp
  with Cons.IH [of "oi + w" out1] out1(2) pre Cons.prems show ?case
    by (simp add: len add.assoc)
qed

text \<open>\<open>sdump\<close> needs exactly the memory it allocates: its two passes agree, no write leaves the
  array, and the array then holds the dump of each byte, NUL-terminated, with every unprintable
  byte (NUL included) escaped.\<close>

theorem sdump_fills_exactly:
  assumes "length (mem (sdump_outlen inp + 1)) = sdump_outlen inp + 1"
  shows "sdump mem inp = Some (concat (map sdump_char inp) @ [NUL])
    \<and> (\<forall>c \<in> set (concat (map sdump_char inp)). isprint c)"
proof
  from sdump_fill_eq [of 0 inp "mem (sdump_outlen inp + 1)"] assms obtain out' where
    out': "sdump_fill (mem (sdump_outlen inp + 1)) 0 inp = Some (out', sdump_outlen inp)"
      "length out' = sdump_outlen inp + 1"
      "take (sdump_outlen inp) out' = concat (map sdump_char inp)" by auto
  then have "out'[sdump_outlen inp := NUL] = concat (map sdump_char inp) @ [NUL]"
    using take_Suc_conv_app_nth [of "sdump_outlen inp" "out'[sdump_outlen inp := NUL]"]
    by simp
  with out' show "sdump mem inp = Some (concat (map sdump_char inp) @ [NUL])"
    by (simp add: sdump_def Let_def)
  have hex: "isprint (hexdigit n)" if "n < 16" for n
    using that by (auto simp: hexdigit_def isprint_def code_chr)
  have "isprint (hexdigit (code c div 16))" "isprint (hexdigit (code c mod 16))" for c
    using code_less [of c] by (simp_all add: hex less_mult_imp_div_less)
  moreover have "isprint BACKSLASH" "isprint (CHR ''x'')"
    by (simp_all add: isprint_def code_def)
  ultimately have "\<forall>d \<in> set (sdump_char c). isprint d" for c
    by (simp add: sdump_char_def hex2_def)
  then show "\<forall>c \<in> set (concat (map sdump_char inp)). isprint c" by auto
qed

theorem sdump_fills_exactly_witness:
  "sdump (\<lambda>n. replicate n SP) [CHR ''a'', NUL, LF] = Some (''a'' @ BACKSLASH # ''x00'' @ BACKSLASH # ''x0A'' @ [NUL])"
proof -
  let ?inp = "[CHR ''a'', NUL, LF]"
  have "sdump (\<lambda>n. replicate n SP) ?inp = Some (concat (map sdump_char ?inp) @ [NUL])"
    using sdump_fills_exactly [of "\<lambda>n. replicate n SP" ?inp] by simp
  also have "concat (map sdump_char ?inp) = ''a'' @ BACKSLASH # ''x00'' @ BACKSLASH # ''x0A''"
    by code_simp
  finally show ?thesis by simp
qed

end
