(* ===== verification/UidDb.thy ===== *)
theory UidDb
  imports Prelude
begin

section \<open>The UID database (uid_db.c, uid_db.h)\<close>

text \<open>
  The store is explicit: trie nodes and records live at addresses, and every pointer of the C
  structures is an address (\<open>None\<close> is the null pointer). A dereference of an address that is
  not allocated gives \<open>None\<close> in the option monad. \<open>xmalloc\<close> hands out the next unused
  address; it does not return when memory is exhausted, so that case does not show.

  A \<open>char\<close> is signed on the platforms considered, so that a character converted to
  \<open>unsigned\<close> is sign-extended (\<open>uchar_val\<close>); the code only looks at its low eight bits.
\<close>

type_synonym addr = nat

record uid_db_record =
  rec_id :: string
  rec_id_len :: nat
  rec_num :: u32
  rec_status :: u32
  rec_pos :: u32
  rec_next :: "addr option"

record pat_node =
  left :: "addr option"
  parent :: "addr option"
  right :: "addr option"
  bit_ndx :: u32
  bit_mask :: u32
  node_rec :: addr

text \<open>The array \<open>records\<close> of message numbers is a list of cells; the null pointer is \<open>[]\<close>.\<close>

record num_ndx =
  num_records :: "addr option list"
  pos_0_value :: u32
  end_value :: u32

record uid_db =
  pat_root :: "addr option"
  records :: "addr option list"
  records_max :: u32
  records_next :: u32
  num_index :: num_ndx

record heap =
  nodes :: "addr \<Rightarrow> pat_node option"
  recs :: "addr \<Rightarrow> uid_db_record option"
  next_node :: addr
  next_rec :: addr

definition MIN_RECORDS :: nat where
  "MIN_RECORDS = 16"

subsection \<open>Store access\<close>

definition upd_node :: "heap \<Rightarrow> addr \<Rightarrow> (pat_node \<Rightarrow> pat_node) \<Rightarrow> heap option" where
  "upd_node h a f = do { n \<leftarrow> nodes h a; Some (h\<lparr>nodes := (nodes h)(a \<mapsto> f n)\<rparr>) }"

definition upd_rec :: "heap \<Rightarrow> addr \<Rightarrow> (uid_db_record \<Rightarrow> uid_db_record) \<Rightarrow> heap option" where
  "upd_rec h a f = do { r \<leftarrow> recs h a; Some (h\<lparr>recs := (recs h)(a \<mapsto> f r)\<rparr>) }"

text \<open>\<open>ptrs(np)[-1]\<close> and \<open>ptrs(np)[1]\<close>: the side is the index.\<close>

datatype side = Lft | Rgt

fun child :: "side \<Rightarrow> pat_node \<Rightarrow> addr option" where
  "child Lft n = left n"
| "child Rgt n = right n"

fun set_child :: "side \<Rightarrow> addr option \<Rightarrow> pat_node \<Rightarrow> pat_node" where
  "set_child Lft p n = n\<lparr>left := p\<rparr>"
| "set_child Rgt p n = n\<lparr>right := p\<rparr>"

fun other :: "side \<Rightarrow> side" where
  "other Lft = Rgt"
| "other Rgt = Lft"

subsection \<open>Bits\<close>

definition bit_ofs :: "u32 \<Rightarrow> u32" where
  "bit_ofs ndx = drop_bit 3 ndx"

definition mask_of :: "u32 \<Rightarrow> u32" where
  "mask_of ndx = push_bit (unat (ndx AND 7)) 1"

definition uchar_val :: "char \<Rightarrow> u32" where
  "uchar_val c = scast (word_of_nat (code c) :: byte)"

text \<open>\<open>ofs < len ? id[ofs] : 0\<close>\<close>

definition key_char :: "string \<Rightarrow> nat \<Rightarrow> u32 \<Rightarrow> u32" where
  "key_char s len ofs = (if unat ofs < len then uchar_val (char_at s (unat ofs)) else 0)"

definition test :: "u32 \<Rightarrow> u32 \<Rightarrow> side" where
  "test v m = (if v AND m \<noteq> 0 then Rgt else Lft)"

subsection \<open>Walkers\<close>

text \<open>
  The loop of \<open>walk_down\<close>: the current node, \<open>ofs\<close> and \<open>v\<close>. It ends with the pointer it
  followed last, the edge (node and side) that holds this pointer, and the last \<open>v\<close> and
  \<open>bit_ndx\<close>. The bit index grows with every turn, so the loop ends on any store.
\<close>

definition ndx_of :: "heap \<Rightarrow> addr \<Rightarrow> nat" where
  "ndx_of h a = (case nodes h a of None \<Rightarrow> 0 | Some n \<Rightarrow> unat (bit_ndx n))"

function walk_down_loop ::
  "heap \<Rightarrow> uid_db_record \<Rightarrow> addr \<Rightarrow> u32 \<Rightarrow> u32 \<Rightarrow> (addr option \<times> addr \<times> side \<times> u32 \<times> u32) option" where
  "walk_down_loop h r cur ofs v =
     (case nodes h cur of None \<Rightarrow> None
      | Some n \<Rightarrow>
        let ndx = bit_ndx n;
            ofs' = bit_ofs ndx;
            v' = (if ofs' \<noteq> ofs then key_char (rec_id r) (rec_id_len r) ofs' else v);
            sd = test v' (bit_mask n) in
        (case child sd n of
           None \<Rightarrow> Some (None, cur, sd, v', ndx)
         | Some c \<Rightarrow>
             (case nodes h c of None \<Rightarrow> None
              | Some m \<Rightarrow>
                  if bit_ndx m > ndx then walk_down_loop h r c ofs' v'
                  else Some (Some c, cur, sd, v', ndx))))"
  by pat_completeness auto
termination
  by (relation "measure (\<lambda>(h, r, cur, ofs, v). 2 ^ 32 - ndx_of h cur)")
    (auto simp: ndx_of_def word_less_nat_alt intro!: diff_less_mono2
      less_le_trans [OF unsigned_less])

declare walk_down_loop.simps [simp del]

text \<open>
  The parent is computed from the edge by pointer arithmetic, with the offset chosen by testing
  \<open>v\<close> against \<open>bit_mask(bit_ndx)\<close>; this is the node only if that test agrees with the one
  that chose the side, and a stray pointer (\<open>None\<close>) otherwise.
\<close>

definition walk_down ::
  "heap \<Rightarrow> uid_db \<Rightarrow> uid_db_record \<Rightarrow> (addr option \<times> (addr \<times> side) \<times> addr) option" where
  "walk_down h db r = do {
     cur \<leftarrow> pat_root db;
     (closest, e, sd, v, ndx) \<leftarrow> walk_down_loop h r cur (-1) 0;
     if test v (mask_of ndx) = sd then Some (closest, (e, sd), e) else None
   }"

text \<open>\<open>walk_up\<close> returns the node reached and the new value of \<open>*parent\<close>.\<close>

partial_function (option) walk_up :: "heap \<Rightarrow> u32 \<Rightarrow> addr \<Rightarrow> (addr \<times> addr option) option" where
  "walk_up h diff_ndx np =
     (case nodes h np of None \<Rightarrow> None
      | Some n \<Rightarrow>
        (case parent n of
           None \<Rightarrow> Some (np, None)
         | Some p \<Rightarrow>
             (case nodes h p of None \<Rightarrow> None
              | Some m \<Rightarrow> if bit_ndx m > diff_ndx then walk_up h diff_ndx p else Some (np, Some p))))"

subsection \<open>Bit fiddling\<close>

definition ffs :: "u32 \<Rightarrow> int" where
  "ffs v = (case find (bit v) [0..<32] of None \<Rightarrow> 0 | Some i \<Rightarrow> int i + 1)"

definition first_set_bit_in_char :: "u32 \<Rightarrow> u32" where
  "first_set_bit_in_char v = word_of_int (ffs v - 1)"

text \<open>The loop over \<open>ofs\<close>: the last \<open>ofs\<close> and \<open>v\<close>.\<close>

definition char_xor :: "char \<Rightarrow> char \<Rightarrow> u32" where
  "char_xor c d = word_of_nat (code c XOR code d)"

function first_diff_loop :: "string \<Rightarrow> string \<Rightarrow> nat \<Rightarrow> nat \<Rightarrow> nat \<times> u32" where
  "first_diff_loop s0 s1 mx ofs =
     (let v = char_xor (char_at s0 ofs) (char_at s1 ofs) in
      if v = 0 \<and> Suc ofs < mx then first_diff_loop s0 s1 mx (Suc ofs)
      else (if v = 0 then Suc ofs else ofs, v))"
  by pat_completeness auto
termination
  by (relation "measure (\<lambda>(s0, s1, mx, ofs). mx - ofs)") auto

declare first_diff_loop.simps [simp del]

definition find_first_diff_bit :: "uid_db_record \<Rightarrow> uid_db_record \<Rightarrow> int" where
  "find_first_diff_bit r0 r1 =
     (let max0 = unat (word_of_nat (rec_id_len r0) :: u32);
          longer = (if max0 > rec_id_len r1 then r0 else r1);
          mx = (if max0 > rec_id_len r1 then rec_id_len r1 else max0);
          (ofs, v) = first_diff_loop (rec_id r0) (rec_id r1) mx 0 in
      if v = 0 then
        (if rec_id_len r0 = rec_id_len r1 then -1
         else sint (first_set_bit_in_char (word_of_nat (code (char_at (rec_id longer) ofs)))
                    + word_of_nat (ofs * 8)))
      else sint (first_set_bit_in_char v + word_of_nat (ofs * 8)))"

definition bit_set :: "u32 \<Rightarrow> uid_db_record \<Rightarrow> bool" where
  "bit_set ndx r = (key_char (rec_id r) (rec_id_len r) (bit_ofs ndx) AND mask_of ndx \<noteq> 0)"

subsection \<open>Node allocation\<close>

text \<open>The fields \<open>xmalloc\<close> leaves uninitialised hold null pointers and zeros here; all are
  assigned before they are read.\<close>

definition get_pat_node :: "heap \<Rightarrow> addr \<Rightarrow> (addr \<times> heap) option" where
  "get_pat_node h ra = do {
     let np = next_node h;
     let h1 = h\<lparr>nodes := (nodes h)(np \<mapsto>
       \<lparr>left = None, parent = None, right = None, bit_ndx = 0, bit_mask = 0, node_rec = ra\<rparr>),
       next_node := Suc np\<rparr>;
     h2 \<leftarrow> upd_rec h1 ra (\<lambda>r. r\<lparr>rec_next := None\<rparr>);
     Some (np, h2)
   }"

definition get_standalone_node :: "heap \<Rightarrow> addr \<Rightarrow> (addr \<times> heap) option" where
  "get_standalone_node h ra = do {
     (np, h1) \<leftarrow> get_pat_node h ra;
     r \<leftarrow> recs h1 ra;
     let ndx = first_set_bit_in_char (uchar_val (char_at (rec_id r) 0));
     h2 \<leftarrow> upd_node h1 np (\<lambda>n. n\<lparr>bit_ndx := ndx, bit_mask := mask_of ndx\<rparr>);
     Some (np, h2)
   }"

text \<open>The record at the end of the list that starts with record \<open>a\<close>.\<close>

partial_function (option) list_last :: "heap \<Rightarrow> addr \<Rightarrow> addr option" where
  "list_last h a =
     (case recs h a of None \<Rightarrow> None
      | Some r \<Rightarrow> (case rec_next r of None \<Rightarrow> Some a | Some b \<Rightarrow> list_last h b))"

definition append_to_list :: "heap \<Rightarrow> addr \<Rightarrow> addr \<Rightarrow> heap option" where
  "append_to_list h a ra = do {
     l \<leftarrow> list_last h a;
     h1 \<leftarrow> upd_rec h l (\<lambda>r. r\<lparr>rec_next := Some ra\<rparr>);
     upd_rec h1 ra (\<lambda>r. r\<lparr>rec_next := None\<rparr>)
   }"

subsection \<open>Insertion into the trie\<close>

text \<open>
  The second half of \<open>pat_insert\<close>: the new node \<open>np\<close> is hooked in, either on the edge
  that \<open>walk_down\<close> followed last or, when the new bit is tested further up, on the edge found
  by \<open>walk_up\<close>.
\<close>

definition pat_link ::
  "heap \<Rightarrow> uid_db \<Rightarrow> uid_db_record \<Rightarrow> addr \<Rightarrow> addr option \<Rightarrow> addr \<times> side \<Rightarrow> addr \<Rightarrow> (heap \<times> uid_db) option" where
  "pat_link h db r np closest edge prnt = do {
     nn \<leftarrow> nodes h np;
     pn \<leftarrow> nodes h prnt;
     (h1, db1, closest1, prnt1) \<leftarrow>
       (if bit_ndx pn > bit_ndx nn then do {
          (cl, prnt1) \<leftarrow> walk_up h (bit_ndx nn) prnt;
          h1 \<leftarrow> upd_node h cl (\<lambda>n. n\<lparr>parent := Some np\<rparr>);
          (case prnt1 of
             None \<Rightarrow> Some (h1, db\<lparr>pat_root := Some np\<rparr>, Some cl, prnt1)
           | Some p \<Rightarrow> do {
               ppn \<leftarrow> nodes h p;
               h2 \<leftarrow> upd_node h1 p (set_child (if left ppn = Some cl then Lft else Rgt) (Some np));
               Some (h2, db, Some cl, prnt1)
             })
        } else do {
          h1 \<leftarrow> upd_node h (fst edge) (set_child (snd edge) (Some np));
          Some (h1, db, closest, Some prnt)
        });
     let me = (if bit_set (bit_ndx nn) r then Rgt else Lft);
     h2 \<leftarrow> upd_node h1 np
       (\<lambda>n. set_child (other me) closest1 (set_child me (Some np) (n\<lparr>parent := prnt1\<rparr>)));
     Some (h2, db1)
   }"

definition pat_insert :: "heap \<Rightarrow> uid_db \<Rightarrow> addr \<Rightarrow> (heap \<times> uid_db) option" where
  "pat_insert h db ra =
     (if pat_root db = None then do {
        (np, h1) \<leftarrow> get_standalone_node h ra;
        h2 \<leftarrow> upd_node h1 np (\<lambda>n. n\<lparr>left := None, parent := None, right := Some np\<rparr>);
        Some (h2, db\<lparr>pat_root := Some np\<rparr>)
      } else do {
        r \<leftarrow> recs h ra;
        (closest, edge, prnt) \<leftarrow> walk_down h db r;
        (case closest of
           Some c \<Rightarrow> do {
             cn \<leftarrow> nodes h c;
             cr \<leftarrow> recs h (node_rec cn);
             let ndx = find_first_diff_bit cr r;
             if ndx < 0 then do {
               h1 \<leftarrow> append_to_list h (node_rec cn) ra;
               Some (h1, db)
             } else do {
               (np, h1) \<leftarrow> get_pat_node h ra;
               h2 \<leftarrow> upd_node h1 np
                 (\<lambda>n. n\<lparr>bit_ndx := word_of_int ndx, bit_mask := mask_of (word_of_int ndx)\<rparr>);
               pat_link h2 db r np closest edge prnt
             }
           }
         | None \<Rightarrow> do {
             (np, h1) \<leftarrow> get_standalone_node h ra;
             pat_link h1 db r np closest edge prnt
           })
      })"

subsection \<open>General insertion\<close>

definition get_uid_db_record :: "heap \<Rightarrow> string \<Rightarrow> u32 \<Rightarrow> addr \<times> heap" where
  "get_uid_db_record h s st =
     (let ra = next_rec h in
      (ra, h\<lparr>recs := (recs h)(ra \<mapsto>
         \<lparr>rec_id = s, rec_id_len = length s, rec_num = 0, rec_status = st, rec_pos = 0,
          rec_next = None\<rparr>),
       next_rec := Suc ra\<rparr>))"

definition resize :: "nat \<Rightarrow> 'a option list \<Rightarrow> 'a option list" where
  "resize n cells = take n cells @ replicate (n - length cells) None"

definition insert_into_records :: "heap \<Rightarrow> uid_db \<Rightarrow> addr \<Rightarrow> (heap \<times> uid_db) option" where
  "insert_into_records h db ra = do {
     let nxt = records_next db;
     let db1 =
       (if nxt = records_max db then
          (let want = records_max db * 2 in
           db\<lparr>records_max := want, records := resize (unat want) (records db)\<rparr>)
        else db);
     h1 \<leftarrow> upd_rec h ra (\<lambda>r. r\<lparr>rec_pos := nxt\<rparr>);
     cells \<leftarrow> poke (records db1) (unat nxt) (Some ra);
     Some (h1, db1\<lparr>records := cells, records_next := nxt + 1\<rparr>)
   }"

definition uid_db_insert :: "heap \<Rightarrow> uid_db \<Rightarrow> string \<Rightarrow> u32 \<Rightarrow> (addr \<times> heap \<times> uid_db) option" where
  "uid_db_insert h db s st = do {
     let (ra, h1) = get_uid_db_record h s st;
     (h2, db1) \<leftarrow> insert_into_records h1 db ra;
     (h3, db2) \<leftarrow> pat_insert h2 db1 ra;
     Some (ra, h3, db2)
   }"

subsection \<open>Message number index\<close>

definition uid_db_num_ofs :: "num_ndx \<Rightarrow> u32 \<Rightarrow> u32" where
  "uid_db_num_ofs ni n = pos_0_value ni - n"

text \<open>\<open>do records[--want] = NULL; while (want > have)\<close>\<close>

function clear_cells :: "addr option list \<Rightarrow> u32 \<Rightarrow> u32 \<Rightarrow> addr option list option" where
  "clear_cells cells want have =
     (if want = 0 then None
      else (case poke cells (unat (want - 1)) None of None \<Rightarrow> None
        | Some cells' \<Rightarrow>
            if want - 1 > have then clear_cells cells' (want - 1) have else Some cells'))"
  by pat_completeness auto
termination
  by (relation "measure (\<lambda>(cells, want, have). unat want)") (auto simp: unat_gt_0 unat_minus_one)

declare clear_cells.simps [simp del]

definition set_uid_db_num :: "uid_db \<Rightarrow> addr \<Rightarrow> u32 \<Rightarrow> uid_db option" where
  "set_uid_db_num db ra n = do {
     let ni = num_index db;
     ni1 \<leftarrow>
       (if end_value ni > n then do {
          let have = pos_0_value ni - end_value ni + 1;
          let want = pos_0_value ni - n + 1;
          cells \<leftarrow> clear_cells (resize (unat want) (num_records ni)) want have;
          Some (ni\<lparr>end_value := n, num_records := cells\<rparr>)
        } else Some ni);
     cells \<leftarrow> poke (num_records ni1) (unat (uid_db_num_ofs ni1 n)) (Some ra);
     Some (db\<lparr>num_index := ni1\<lparr>num_records := cells\<rparr>\<rparr>)
   }"

definition set_uid_db_num_pos_0 :: "uid_db \<Rightarrow> u32 \<Rightarrow> uid_db" where
  "set_uid_db_num_pos_0 db n =
     db\<lparr>num_index := (num_index db)\<lparr>pos_0_value := n, end_value := n + 1\<rparr>\<rparr>"

text \<open>The loop of \<open>reset_uid_db_nums\<close> over the cells below \<open>ndx\<close>.\<close>

fun reset_nums :: "heap \<Rightarrow> addr option list \<Rightarrow> nat \<Rightarrow> heap option" where
  "reset_nums h cells 0 = Some h"
| "reset_nums h cells (Suc ndx) = do {
     p \<leftarrow> peek cells ndx;
     h1 \<leftarrow> (case p of None \<Rightarrow> Some h | Some a \<Rightarrow> upd_rec h a (\<lambda>r. r\<lparr>rec_num := 0\<rparr>));
     reset_nums h1 cells ndx
   }"

definition reset_uid_db_nums :: "heap \<Rightarrow> uid_db \<Rightarrow> (heap \<times> uid_db) option" where
  "reset_uid_db_nums h db =
     (let ni = num_index db in
      if end_value ni < pos_0_value ni then do {
        h1 \<leftarrow> reset_nums h (num_records ni) (unat (pos_0_value ni - end_value ni));
        Some (h1, db\<lparr>num_index :=
          ni\<lparr>end_value := pos_0_value ni + 1, num_records := []\<rparr>\<rparr>)
      } else Some (h, db))"

definition find_uid_by_num :: "uid_db \<Rightarrow> u32 \<Rightarrow> addr option option" where
  "find_uid_by_num db n =
     (let ni = num_index db in
      if n \<ge> end_value ni then peek (num_records ni) (unat (uid_db_num_ofs ni n)) else Some None)"

subsection \<open>Search\<close>

text \<open>The loop of \<open>find_uid_by_id\<close>: the pointer it ends with.\<close>

function find_loop :: "heap \<Rightarrow> string \<Rightarrow> addr \<Rightarrow> u32 \<Rightarrow> u32 \<Rightarrow> addr option option" where
  "find_loop h s np ofs v =
     (case nodes h np of None \<Rightarrow> None
      | Some n \<Rightarrow>
        let ndx = bit_ndx n;
            ofs' = bit_ofs ndx;
            v' = (if ofs' \<noteq> ofs then key_char s (length s) ofs' else v) in
        (case child (test v' (bit_mask n)) n of
           None \<Rightarrow> Some None
         | Some c \<Rightarrow>
             (case nodes h c of None \<Rightarrow> None
              | Some m \<Rightarrow>
                  if bit_ndx m > ndx then find_loop h s c ofs' v' else Some (Some c))))"
  by pat_completeness auto
termination
  by (relation "measure (\<lambda>(h, s, np, ofs, v). 2 ^ 32 - ndx_of h np)")
    (auto simp: ndx_of_def word_less_nat_alt intro!: diff_less_mono2
      less_le_trans [OF unsigned_less])

declare find_loop.simps [simp del]

definition find_uid_by_id :: "heap \<Rightarrow> uid_db \<Rightarrow> string \<Rightarrow> addr option option" where
  "find_uid_by_id h db s =
     (case pat_root db of
        None \<Rightarrow> Some None
      | Some root \<Rightarrow> do {
          np \<leftarrow> find_loop h s root (-1) 0;
          (case np of
             None \<Rightarrow> Some None
           | Some a \<Rightarrow> do {
               n \<leftarrow> nodes h a;
               r \<leftarrow> recs h (node_rec n);
               Some (if rec_id_len r = length s \<and> rec_id r = s then Some (node_rec n) else None)
             })
        })"

definition last_uid_in_db :: "heap \<Rightarrow> uid_db \<Rightarrow> string \<Rightarrow> addr option option" where
  "last_uid_in_db h db s = do {
     p \<leftarrow> find_uid_by_id h db s;
     (case p of None \<Rightarrow> Some None | Some a \<Rightarrow> map_option Some (list_last h a))
   }"

definition find_uid_by_pos :: "uid_db \<Rightarrow> u32 \<Rightarrow> addr option option" where
  "find_uid_by_pos db p =
     (if p < records_next db then peek (records db) (unat p) else Some None)"

definition uid_db_n_records :: "uid_db \<Rightarrow> u32" where
  "uid_db_n_records db = records_next db"

subsection \<open>Destruction, initialisation, traversal\<close>

partial_function (option) free_uid_list :: "heap \<Rightarrow> addr option \<Rightarrow> heap option" where
  "free_uid_list h rp =
     (case rp of None \<Rightarrow> Some h
      | Some a \<Rightarrow>
        (case recs h a of None \<Rightarrow> None
         | Some r \<Rightarrow> do {
             h1 \<leftarrow> (if rec_next r \<noteq> None then free_uid_list h (rec_next r) else Some h);
             Some (h1\<lparr>recs := (recs h1)(a := None)\<rparr>)
           }))"

text \<open>One turn of \<open>free_pat_trie\<close>: clear a child edge and go down, or free the node and go up.\<close>

definition free_edge :: "heap \<Rightarrow> addr \<Rightarrow> side \<Rightarrow> (heap \<times> addr option) option" where
  "free_edge h np sd = do {
     n \<leftarrow> nodes h np;
     (case child sd n of
        None \<Rightarrow> Some (h, None)
      | Some c \<Rightarrow> do {
          h1 \<leftarrow> upd_node h np (set_child sd None);
          m \<leftarrow> nodes h1 c;
          Some (h1, if bit_ndx m > bit_ndx n then Some c else None)
        })
   }"

definition free_turn :: "heap \<Rightarrow> addr \<Rightarrow> (heap \<times> addr option) option" where
  "free_turn h np = do {
     (h1, down) \<leftarrow> free_edge h np Lft;
     if down \<noteq> None then Some (h1, down)
     else do {
       (h2, down) \<leftarrow> free_edge h1 np Rgt;
       if down \<noteq> None then Some (h2, down)
       else do {
         n \<leftarrow> nodes h2 np;
         h3 \<leftarrow> free_uid_list h2 (Some (node_rec n));
         Some (h3\<lparr>nodes := (nodes h3)(np := None)\<rparr>, parent n)
       }
     }
   }"

partial_function (option) free_pat_trie :: "heap \<Rightarrow> addr \<Rightarrow> heap option" where
  "free_pat_trie h np =
     (case free_turn h np of None \<Rightarrow> None
      | Some (h1, nxt) \<Rightarrow> (case nxt of None \<Rightarrow> Some h1 | Some p \<Rightarrow> free_pat_trie h1 p))"

definition free_uid_db :: "heap \<Rightarrow> uid_db \<Rightarrow> heap option" where
  "free_uid_db h db = (case pat_root db of None \<Rightarrow> Some h | Some root \<Rightarrow> free_pat_trie h root)"

definition init_uid_db :: uid_db where
  "init_uid_db =
     \<lparr>pat_root = None, records = replicate MIN_RECORDS None, records_max = of_nat MIN_RECORDS,
      records_next = 0,
      num_index = \<lparr>num_records = [], pos_0_value = -1, end_value = -1\<rparr>\<rparr>"

definition clear_uid_db :: "heap \<Rightarrow> uid_db \<Rightarrow> (heap \<times> uid_db) option" where
  "clear_uid_db h db = do { h1 \<leftarrow> free_uid_db h db; Some (h1, init_uid_db) }"

definition swap_uid_db_data :: "uid_db \<Rightarrow> uid_db \<Rightarrow> uid_db \<times> uid_db" where
  "swap_uid_db_data db0 db1 = (db1, db0)"

text \<open>
  The traversal routine gets the record's address and the state (the store and whatever \<open>arg\<close>
  points to) and gives its return code with the new state.
\<close>

function traverse_loop ::
  "addr option list \<Rightarrow> (addr \<Rightarrow> 's \<Rightarrow> (int \<times> 's) option) \<Rightarrow> nat \<Rightarrow> nat \<Rightarrow> 's \<Rightarrow> (int \<times> 's) option" where
  "traverse_loop cells r mx ndx s =
     (if ndx < mx then
        (case peek cells ndx of
           Some (Some a) \<Rightarrow>
             (case r a s of None \<Rightarrow> None
              | Some (rc, s') \<Rightarrow>
                  if rc = 0 then traverse_loop cells r mx (Suc ndx) s' else Some (rc, s'))
         | _ \<Rightarrow> None)
      else Some (0, s))"
  by pat_completeness auto
termination
  by (relation "measure (\<lambda>(cells, r, mx, ndx, s). mx - ndx)") auto

declare traverse_loop.simps [simp del]

definition traverse_uid_db ::
  "uid_db \<Rightarrow> (addr \<Rightarrow> 's \<Rightarrow> (int \<times> 's) option) \<Rightarrow> 's \<Rightarrow> (int \<times> 's) option" where
  "traverse_uid_db db r s = traverse_loop (records db) r (unat (records_next db)) 0 s"

end
