(* ===== verification/UidKey.thy ===== *)
theory UidKey
  imports UidDb
begin

section \<open>Identifiers as bit strings\<close>

text \<open>
  The trie sees an identifier as the infinite bit string of its bytes, least significant bit
  first, padded with zeros. A NUL-free string is determined by these bits.
\<close>

definition kbit :: "string \<Rightarrow> nat \<Rightarrow> bool" where
  "kbit s i \<longleftrightarrow> i div 8 < length s \<and> bit (code (s ! (i div 8))) (i mod 8)"

definition side_of :: "bool \<Rightarrow> side" where
  "side_of b = (if b then Rgt else Lft)"

lemma unat_bit_ofs [simp]: "unat (bit_ofs ndx) = unat ndx div 8"
proof -
  have "unat (bit_ofs ndx) = drop_bit 3 (unat ndx)"
    unfolding bit_ofs_def by (rule unat_drop_bit_eq)
  then show ?thesis by (simp add: drop_bit_eq_div)
qed

lemma mask_of_eq: "mask_of ndx = 2 ^ (unat ndx mod 8)"
proof -
  have "unat (ndx AND 7) = unat ndx mod 8"
  proof -
    have "ndx AND 7 = take_bit 3 ndx"
      by (simp add: take_bit_eq_mask mask_eq_exp_minus_1)
    then have "unat (ndx AND 7) = take_bit 3 (unat ndx)"
      by (simp only: unsigned_take_bit_eq)
    then show ?thesis by (simp add: take_bit_eq_mod)
  qed
  then show ?thesis by (simp add: mask_of_def push_bit_eq_mult)
qed

lemma bit_uchar_val: "i < 8 \<Longrightarrow> bit (uchar_val c) i \<longleftrightarrow> bit (code c) i"
  by (simp add: uchar_val_def bit_simps)

lemma test_mask: "test v (mask_of ndx) = side_of (bit v (unat ndx mod 8))"
  by (simp add: test_def side_of_def mask_of_eq and_exp_eq_0_iff_not_bit)

lemma test_key_char:
  "test (key_char s (length s) (bit_ofs ndx)) (mask_of ndx) = side_of (kbit s (unat ndx))"
  by (auto simp: test_mask key_char_def bit_uchar_val kbit_def side_of_def char_at_def)

lemma bit_set_kbit:
  assumes "rec_id_len r = length (rec_id r)"
  shows "bit_set ndx r \<longleftrightarrow> kbit (rec_id r) (unat ndx)"
  using test_key_char [of "rec_id r" ndx] assms
  by (auto simp: bit_set_def test_def side_of_def split: if_splits)

lemma code_bit_eqI: "(\<And>i. i < 8 \<Longrightarrow> bit (code c) i = bit (code d) i) \<Longrightarrow> c = d"
proof -
  assume *: "\<And>i. i < 8 \<Longrightarrow> bit (code c) i = bit (code d) i"
  have "take_bit 8 (code c) = take_bit 8 (code d)"
    by (rule bit_eqI) (auto simp: bit_take_bit_iff *)
  then show "c = d"
    by (simp add: take_bit_eq_mod)
qed

lemma kbit_eqD_length:
  assumes "c_string t" "\<And>i. kbit s i = kbit t i"
  shows "length t \<le> length s"
proof (rule ccontr)
  assume "\<not> length t \<le> length s"
  then have l: "length s < length t" by simp
  with assms(1) have "t ! length s \<noteq> NUL" by (simp add: c_string_nth)
  then obtain i where i: "i < 8" "bit (code (t ! length s)) i \<noteq> bit (code NUL) i"
    using code_bit_eqI [of "t ! length s" NUL] by blast
  then have "kbit t (8 * length s + i)"
    using l by (simp add: kbit_def code_def)
  moreover have "\<not> kbit s (8 * length s + i)"
    using i by (simp add: kbit_def)
  ultimately show False using assms(2) by blast
qed

lemma kbit_inject:
  assumes "c_string s" "c_string t" "\<And>i. kbit s i = kbit t i"
  shows "s = t"
proof (rule nth_equalityI)
  show l: "length s = length t"
    using kbit_eqD_length [of t s] kbit_eqD_length [of s t] assms by force
  fix j assume j: "j < length s"
  show "s ! j = t ! j"
  proof (rule code_bit_eqI)
    fix i :: nat assume "i < 8"
    then show "bit (code (s ! j)) i = bit (code (t ! j)) i"
      using assms(3) [of "8 * j + i"] j l by (simp add: kbit_def)
  qed
qed

lemma kbit_Nil [simp]: "kbit [] i = False"
  by (simp add: kbit_def)

subsection \<open>The first differing bit\<close>

definition first_diff :: "(nat \<Rightarrow> bool) \<Rightarrow> (nat \<Rightarrow> bool) \<Rightarrow> nat \<Rightarrow> bool" where
  "first_diff k0 k1 d \<longleftrightarrow> k0 d \<noteq> k1 d \<and> (\<forall>i < d. k0 i = k1 i)"

lemma ffs_spec:
  assumes "v \<noteq> 0"
  obtains i where "i < 32" "ffs v = int i + 1" "bit v i" "\<And>j. j < i \<Longrightarrow> \<not> bit v j"
proof -
  have "\<exists>i < 32. bit v i"
  proof (rule ccontr)
    assume "\<not> (\<exists>i < 32. bit v i)"
    then have "v = 0" by (intro bit_word_eqI) auto
    with assms show False by simp
  qed
  then have "find (bit v) [0..<32] \<noteq> None"
    by (auto simp: find_None_iff)
  then obtain i where i: "find (bit v) [0..<32] = Some i" by blast
  then have "i < 32 \<and> bit v i \<and> (\<forall>j < i. \<not> bit v j)"
    by (auto simp: find_Some_iff)
  with i that show ?thesis by (simp add: ffs_def)
qed


lemma bit_char_xor:
  "i < 8 \<Longrightarrow> bit (char_xor c d) i \<longleftrightarrow> bit (code c) i \<noteq> bit (code d) i"
  by (simp add: char_xor_def bit_simps)

lemma code_high_bits: "8 \<le> i \<Longrightarrow> \<not> bit (code c) i"
proof -
  assume "8 \<le> i"
  then have "take_bit 8 (code c) = code c" by (simp add: take_bit_eq_mod)
  with \<open>8 \<le> i\<close> show ?thesis by (metis bit_take_bit_iff not_less)
qed

lemma char_xor_0: "char_xor c d = 0 \<longleftrightarrow> c = d"
proof
  assume *: "char_xor c d = 0"
  show "c = d"
    by (rule code_bit_eqI) (use bit_char_xor [of _ c d] * in auto)
qed (simp add: char_xor_def)

lemma first_set_bit_xor:
  assumes "c \<noteq> d"
  obtains i where "i < 8" "ffs (char_xor c d) = int i + 1" "bit (code c) i \<noteq> bit (code d) i"
    "\<forall>j < i. bit (code c) j = bit (code d) j"
proof -
  from assms have "char_xor c d \<noteq> 0" by (simp add: char_xor_0)
  then obtain i where i: "ffs (char_xor c d) = int i + 1" "bit (char_xor c d) i"
      "\<forall>j < i. \<not> bit (char_xor c d) j"
    by (rule ffs_spec) auto
  have "i < 8"
  proof (rule ccontr)
    assume "\<not> i < 8"
    then have "\<not> bit (char_xor c d) i"
      by (simp add: char_xor_def bit_simps code_high_bits)
    with i show False by simp
  qed
  moreover from this i have "bit (code c) i \<noteq> bit (code d) i"
    by (simp add: bit_char_xor)
  moreover from \<open>i < 8\<close> i have "\<forall>j < i. bit (code c) j = bit (code d) j"
    using bit_char_xor [of _ c d] by (metis less_trans)
  ultimately show ?thesis using i that by blast
qed

lemma first_diff_loop_spec:
  assumes "first_diff_loop s0 s1 mx ofs = (o', v)" "ofs < mx" "\<forall>j < ofs. char_at s0 j = char_at s1 j"
  shows "(v \<noteq> 0 \<and> o' < mx \<and> (\<forall>j < o'. char_at s0 j = char_at s1 j)
      \<and> char_at s0 o' \<noteq> char_at s1 o' \<and> v = char_xor (char_at s0 o') (char_at s1 o'))
    \<or> (v = 0 \<and> o' = mx \<and> (\<forall>j < mx. char_at s0 j = char_at s1 j))"
  using assms
proof (induction s0 s1 mx ofs rule: first_diff_loop.induct)
  case (1 s0 s1 mx ofs)
  show ?case
  proof (cases "char_xor (char_at s0 ofs) (char_at s1 ofs) = 0 \<and> Suc ofs < mx")
    case True
    then have "char_at s0 ofs = char_at s1 ofs" by (simp add: char_xor_0)
    with "1.prems"(3) have "\<forall>j < Suc ofs. char_at s0 j = char_at s1 j"
      by (auto simp: less_Suc_eq)
    with True "1.prems"(1) show ?thesis
      by (intro "1.IH") (auto simp: first_diff_loop.simps [of s0 s1 mx ofs])
  next
    case False
    note loop = "1.prems"(1) [unfolded first_diff_loop.simps [of s0 s1 mx ofs] Let_def]
    show ?thesis
    proof (cases "char_at s0 ofs = char_at s1 ofs")
      case True
      with False have "mx = Suc ofs" using "1.prems"(2) by (simp add: char_xor_0)
      with True loop "1.prems"(3) show ?thesis
        by (auto simp: char_xor_0 less_Suc_eq)
    next
      case False
      with loop "1.prems" show ?thesis by (auto simp: char_xor_0)
    qed
  qed
qed

text \<open>Records as the database creates them.\<close>

definition rec_good :: "uid_db_record \<Rightarrow> bool" where
  "rec_good r \<longleftrightarrow> c_string (rec_id r) \<and> rec_id r \<noteq> [] \<and> rec_id_len r = length (rec_id r)
     \<and> length (rec_id r) < 2 ^ 28"

lemma kbit_char_at: "kbit s m \<longleftrightarrow> bit (code (char_at s (m div 8))) (m mod 8)"
  by (auto simp: kbit_def char_at_def code_def)

lemma first_diff_at_char:
  assumes "\<forall>j < n. char_at s j = char_at t j" "i < 8"
    "bit (code (char_at s n)) i \<noteq> bit (code (char_at t n)) i"
    "\<forall>j < i. bit (code (char_at s n)) j = bit (code (char_at t n)) j"
  shows "first_diff (kbit s) (kbit t) (8 * n + i)"
  unfolding first_diff_def
proof (intro conjI allI impI)
  show "kbit s (8 * n + i) \<noteq> kbit t (8 * n + i)"
    using assms by (simp add: kbit_char_at)
  fix m assume m: "m < 8 * n + i"
  show "kbit s m = kbit t m"
  proof (cases "m div 8 < n")
    case True
    with assms show ?thesis by (simp add: kbit_char_at)
  next
    case False
    with m \<open>i < 8\<close> have n: "m div 8 = n" by auto
    have "m = 8 * n + m mod 8" unfolding n [symmetric] by simp
    with m have "m mod 8 < i" by linarith
    note n this
    with assms show ?thesis by (simp add: kbit_char_at)
  qed
qed

lemma first_set_bit_in_char_id:
  assumes "rec_good r"
  obtains d where "d < 8" "first_set_bit_in_char (uchar_val (char_at (rec_id r) 0)) = word_of_nat d"
    "first_diff (\<lambda>_. False) (kbit (rec_id r)) d"
proof -
  let ?c = "char_at (rec_id r) 0"
  have "?c \<noteq> NUL"
    using assms by (simp add: rec_good_def char_at_NUL_iff)
  then obtain i where i: "i < 8" "bit (code ?c) i \<noteq> bit (code NUL) i"
      "\<forall>j < i. bit (code ?c) j = bit (code NUL) j"
    by (rule first_set_bit_xor)
  then have bits: "bit (uchar_val ?c) i" "\<forall>j < i. \<not> bit (uchar_val ?c) j"
    by (auto simp: bit_uchar_val code_def)
  then have "find (bit (uchar_val ?c)) [0..<32] = Some i"
    using i(1) by (auto simp: find_Some_iff intro!: exI [of _ i])
  then have "first_set_bit_in_char (uchar_val ?c) = word_of_nat i"
    by (simp add: first_set_bit_in_char_def ffs_def)
  moreover have "first_diff (\<lambda>_. False) (kbit (rec_id r)) i"
    using i by (auto simp: first_diff_def kbit_char_at code_def)
  ultimately show ?thesis using that i(1) by blast
qed

lemma sint_of_small: "n < 2 ^ 31 \<Longrightarrow> sint (word_of_nat n :: u32) = int n"
  by (simp add: signed_of_nat signed_take_bit_int_eq_self)

lemma find_first_diff_bit_same:
  assumes "rec_good r0" "rec_good r1" "rec_id r0 = rec_id r1"
  shows "find_first_diff_bit r0 r1 = -1"
proof -
  have "unat (word_of_nat (rec_id_len r0) :: u32) = length (rec_id r1)"
    using assms by (auto simp: rec_good_def unat_of_nat)
  then show ?thesis
    using assms first_diff_loop_spec [of "rec_id r1" "rec_id r1" "length (rec_id r1)" 0]
    by (auto simp: find_first_diff_bit_def rec_good_def Let_def split: prod.splits)
qed

lemma find_first_diff_bit_diff:
  assumes "rec_good r0" "rec_good r1" "rec_id r0 \<noteq> rec_id r1"
  obtains d where "d < 2 ^ 31" "find_first_diff_bit r0 r1 = int d"
    "first_diff (kbit (rec_id r0)) (kbit (rec_id r1)) d"
proof -
  let ?s = "rec_id r0" and ?t = "rec_id r1"
  define mx where "mx = min (length ?s) (length ?t)"
  obtain n v where loop: "first_diff_loop ?s ?t mx 0 = (n, v)" by force
  have mx: "0 < mx" using assms by (auto simp: mx_def rec_good_def)
  have len: "unat (word_of_nat (length ?s) :: u32) = length ?s"
    using assms by (auto simp: rec_good_def unat_of_nat)
  have cs: "c_string ?s" "c_string ?t" using assms by (auto simp: rec_good_def)
  have upto: "\<forall>j < n. char_at ?s j = char_at ?t j" and n: "n \<le> mx"
    and v: "v \<noteq> 0 \<Longrightarrow> v = char_xor (char_at ?s n) (char_at ?t n)"
    and v0: "v = 0 \<Longrightarrow> n = mx"
    using first_diff_loop_spec [OF loop] mx by auto
  have ne: "char_at ?s n \<noteq> char_at ?t n"
  proof (cases "v = 0")
    case False
    with v show ?thesis by (auto simp: char_xor_0)
  next
    case True
    have "length ?s \<noteq> length ?t"
    proof
      assume "length ?s = length ?t"
      then have "?s = ?t"
        using upto v0 [OF True] by (intro nth_equalityI) (auto simp: mx_def char_at_def)
      with assms show False by simp
    qed
    then show ?thesis
      using v0 [OF True] cs by (cases "length ?s < length ?t") (auto simp: mx_def char_at_def c_string_nth c_string_nth [symmetric] dest: sym)
  qed
  then obtain i where i: "i < 8" "ffs (char_xor (char_at ?s n) (char_at ?t n)) = int i + 1"
      "bit (code (char_at ?s n)) i \<noteq> bit (code (char_at ?t n)) i"
      "\<forall>j < i. bit (code (char_at ?s n)) j = bit (code (char_at ?t n)) j"
    by (rule first_set_bit_xor)
  show ?thesis
  proof (rule that)
    show "8 * n + i < 2 ^ 31"
      using i n assms by (auto simp: mx_def rec_good_def)
    show "first_diff (kbit ?s) (kbit ?t) (8 * n + i)"
      using first_diff_at_char [OF upto i(1) i(3) i(4)] .
    show "find_first_diff_bit r0 r1 = int (8 * n + i)"
    proof -
      have idl: "rec_id_len r0 = length ?s" "rec_id_len r1 = length ?t"
        using assms by (simp_all add: rec_good_def)
      have mx': "(if length ?s > length ?t then length ?t else length ?s) = mx"
        by (simp add: mx_def)
      have xor: "word_of_nat (code (char_at (rec_id (if length ?s > length ?t then r0 else r1)) n))
          = char_xor (char_at ?s n) (char_at ?t n)" if "v = 0"
        using v0 [OF that] by (auto simp: char_xor_def char_at_def mx_def code_def)
      have lens: "length ?s \<noteq> length ?t" if "v = 0"
      proof
        assume "length ?s = length ?t"
        then have "char_at ?s n = char_at ?t n"
          using v0 [OF that] by (simp add: char_at_def mx_def)
        with ne show False by simp
      qed
      have "find_first_diff_bit r0 r1 =
          sint (first_set_bit_in_char (char_xor (char_at ?s n) (char_at ?t n)) + word_of_nat (n * 8))"
        unfolding find_first_diff_bit_def Let_def idl len mx' loop
        using xor lens v by (cases "v = 0") auto
      also have "first_set_bit_in_char (char_xor (char_at ?s n) (char_at ?t n)) = word_of_nat i"
        using i by (simp add: first_set_bit_in_char_def)
      also have "word_of_nat i + word_of_nat (n * 8) = (word_of_nat (8 * n + i) :: u32)"
        by (simp add: ac_simps)
      finally show ?thesis
        using sint_of_small [OF \<open>8 * n + i < 2 ^ 31\<close>] by simp
    qed
  qed
qed

end
