(* ===== verification/UidTrie.thy ===== *)
theory UidTrie
  imports UidKey
begin

section \<open>The trie as a tree\<close>

text \<open>
  The tree a well-formed trie of nodes represents. \<open>Leaf a\<close> is a pointer back to node \<open>a\<close>
  (the node itself or one above it), \<open>Zero\<close> a null pointer. A null pointer stands for the
  key of zero bits only; this is the point of the "left edge" in uid_db.c. The operations are
  stated over two functions: \<open>bx\<close> gives the bit a node tests, \<open>ky\<close> the key of its record.
\<close>

datatype ptree = Zero | Leaf addr | Nd addr ptree ptree

fun leaves :: "ptree \<Rightarrow> addr option set" where
  "leaves Zero = {None}"
| "leaves (Leaf a) = {Some a}"
| "leaves (Nd a l r) = leaves l \<union> leaves r"

fun tnodes :: "ptree \<Rightarrow> addr list" where
  "tnodes Zero = []"
| "tnodes (Leaf a) = []"
| "tnodes (Nd a l r) = a # tnodes l @ tnodes r"

fun root_ptr :: "ptree \<Rightarrow> addr option" where
  "root_ptr Zero = None"
| "root_ptr (Leaf a) = Some a"
| "root_ptr (Nd a l r) = Some a"

definition lk :: "(addr \<Rightarrow> nat \<Rightarrow> bool) \<Rightarrow> addr option \<Rightarrow> nat \<Rightarrow> bool" where
  "lk ky x = (case x of None \<Rightarrow> (\<lambda>_. False) | Some a \<Rightarrow> ky a)"

lemma lk_simps [simp]: "lk ky None = (\<lambda>_. False)" "lk ky (Some a) = ky a"
  by (simp_all add: lk_def)

text \<open>Bits grow downwards; a back pointer goes to a node that does not test a later bit.\<close>

fun below :: "(addr \<Rightarrow> nat) \<Rightarrow> nat \<Rightarrow> ptree \<Rightarrow> bool" where
  "below bx b Zero = True"
| "below bx b (Leaf a) = (bx a \<le> b)"
| "below bx b (Nd a l r) = (b < bx a)"

definition agree :: "(addr \<Rightarrow> nat \<Rightarrow> bool) \<Rightarrow> nat \<Rightarrow> addr option set \<Rightarrow> bool" where
  "agree ky b X \<longleftrightarrow> (\<forall>x \<in> X. \<forall>y \<in> X. \<forall>i < b. lk ky x i = lk ky y i)"

fun wft :: "(addr \<Rightarrow> nat) \<Rightarrow> (addr \<Rightarrow> nat \<Rightarrow> bool) \<Rightarrow> ptree \<Rightarrow> bool" where
  "wft bx ky Zero = True"
| "wft bx ky (Leaf a) = True"
| "wft bx ky (Nd a l r) \<longleftrightarrow>
     below bx (bx a) l \<and> below bx (bx a) r
     \<and> (\<forall>x \<in> leaves l. \<not> lk ky x (bx a)) \<and> (\<forall>x \<in> leaves r. lk ky x (bx a))
     \<and> agree ky (bx a) (leaves l \<union> leaves r)
     \<and> wft bx ky l \<and> wft bx ky r"

fun srch :: "(addr \<Rightarrow> nat) \<Rightarrow> (nat \<Rightarrow> bool) \<Rightarrow> ptree \<Rightarrow> addr option" where
  "srch bx k Zero = None"
| "srch bx k (Leaf a) = Some a"
| "srch bx k (Nd a l r) = (if k (bx a) then srch bx k r else srch bx k l)"

lemma srch_in_leaves: "srch bx k t \<in> leaves t"
  by (induction t) auto

text \<open>A key that is in the trie is found.\<close>

lemma srch_complete:
  "wft bx ky t \<Longrightarrow> x \<in> leaves t \<Longrightarrow> (\<And>i. lk ky x i = k i) \<Longrightarrow> lk ky (srch bx k t) = k"
  by (induction t) (auto simp: fun_eq_iff)

text \<open>Insertion of a key that differs first in bit \<open>d\<close> from the one the search finds.\<close>

definition mk_node :: "addr \<Rightarrow> side \<Rightarrow> ptree \<Rightarrow> ptree \<Rightarrow> ptree" where
  "mk_node a sd t s = (case sd of Lft \<Rightarrow> Nd a t s | Rgt \<Rightarrow> Nd a s t)"

lemma mk_node_simps [simp]:
  "mk_node a Lft t s = Nd a t s" "mk_node a Rgt t s = Nd a s t"
  by (simp_all add: mk_node_def)

definition new_nd :: "addr \<Rightarrow> side \<Rightarrow> ptree \<Rightarrow> ptree" where
  "new_nd np me t = mk_node np (other me) t (Leaf np)"

fun tins :: "(addr \<Rightarrow> nat) \<Rightarrow> nat \<Rightarrow> addr \<Rightarrow> (nat \<Rightarrow> bool) \<Rightarrow> ptree \<Rightarrow> ptree" where
  "tins bx d np k (Nd a l r) =
     (if d < bx a then new_nd np (side_of (k d)) (Nd a l r)
      else if k (bx a) then Nd a l (tins bx d np k r) else Nd a (tins bx d np k l) r)"
| "tins bx d np k t = new_nd np (side_of (k d)) t"

lemma leaves_new_nd [simp]: "leaves (new_nd np me t) = insert (Some np) (leaves t)"
  by (cases me) (auto simp: new_nd_def)

lemma tnodes_new_nd [simp]: "set (tnodes (new_nd np me t)) = insert np (set (tnodes t))"
  by (cases me) (auto simp: new_nd_def)

lemma distinct_new_nd [simp]:
  "distinct (tnodes (new_nd np me t)) \<longleftrightarrow> np \<notin> set (tnodes t) \<and> distinct (tnodes t)"
  by (cases me) (auto simp: new_nd_def)

lemma leaves_tins [simp]: "leaves (tins bx d np k t) = insert (Some np) (leaves t)"
  by (induction t) auto

lemma tnodes_tins [simp]: "set (tnodes (tins bx d np k t)) = insert np (set (tnodes t))"
  by (induction t) auto

lemma distinct_tins:
  "distinct (tnodes t) \<Longrightarrow> np \<notin> set (tnodes t) \<Longrightarrow> distinct (tnodes (tins bx d np k t))"
  by (induction t) auto

lemma agreeI: "(\<And>y i. y \<in> X \<Longrightarrow> i < b \<Longrightarrow> lk ky y i = f i) \<Longrightarrow> agree ky b X"
  by (simp add: agree_def)

lemma agreeD: "agree ky b X \<Longrightarrow> x \<in> X \<Longrightarrow> y \<in> X \<Longrightarrow> i < b \<Longrightarrow> lk ky x i = lk ky y i"
  unfolding agree_def by blast

lemma agree_less: "agree ky b X \<Longrightarrow> c \<le> b \<Longrightarrow> agree ky c X"
  unfolding agree_def by (meson order_less_le_trans)

lemma agree_cong:
  "(\<And>x. x \<in> X \<Longrightarrow> lk ky' x = lk ky x) \<Longrightarrow> agree ky b X \<Longrightarrow> agree ky' b X"
  unfolding agree_def by metis

lemma agree_insert:
  assumes "agree ky b X" "x \<in> X" "\<And>i. i < b \<Longrightarrow> lk ky x i = ky np i"
  shows "agree ky b (insert (Some np) X)"
proof (rule agreeI [where f = "ky np"])
  fix y i assume "y \<in> insert (Some np) X" "i < b"
  then show "lk ky y i = ky np i"
    using assms(3) agreeD [OF assms(1) _ assms(2)] by auto
qed

lemma wft_agree: "wft bx ky (Nd a l r) \<Longrightarrow> agree ky (bx a) (leaves (Nd a l r))"
  by simp

lemma wft_new_nd:
  assumes wf: "wft bx ky t" and d: "first_diff (lk ky x) (ky np) d" and x: "x \<in> leaves t"
    and np: "bx np = d" and rt: "\<And>b. t = Leaf b \<Longrightarrow> bx b \<le> d"
    and ag: "agree ky (Suc d) (leaves t)" and nd: "\<And>a l r. t = Nd a l r \<Longrightarrow> d < bx a"
  shows "wft bx ky (new_nd np (side_of (ky np d)) t)"
proof -
  have "lk ky y d \<noteq> ky np d" if "y \<in> leaves t" for y
    using agreeD [OF ag that x, of d] d by (simp add: first_diff_def)
  moreover have "agree ky d (insert (Some np) (leaves t))"
    using d by (intro agree_insert [OF agree_less [OF ag] x]) (auto simp: first_diff_def)
  moreover have "below bx d t"
    using rt nd by (cases t) auto
  ultimately show ?thesis
    using wf np by (auto simp: new_nd_def side_of_def insert_commute)
qed

text \<open>The bit of the new node is not tested on the way to it.\<close>

lemma wft_tins:
  assumes "wft bx ky t" "first_diff (lk ky (srch bx (ky np) t)) (ky np) d"
    "bx np = d" "\<And>b. t = Leaf b \<Longrightarrow> bx b \<le> d"
  shows "wft bx ky (tins bx d np (ky np) t)"
  using assms
proof (induction t)
  case Zero
  then show ?case
    using wft_new_nd [of bx ky Zero None np d] by (simp add: agree_def)
next
  case (Leaf b)
  then show ?case
    using wft_new_nd [of bx ky "Leaf b" "Some b" np d] by (simp add: agree_def)
next
  case (Nd a l r)
  let ?x = "srch bx (ky np) (Nd a l r)" and ?t = "Nd a l r"
  have x: "?x \<in> leaves ?t" by (rule srch_in_leaves)
  show ?case
  proof (cases "d < bx a")
    case True
    have "agree ky (Suc d) (leaves ?t)"
      using wft_agree [OF Nd.prems(1)] True by (auto intro: agree_less)
    then show ?thesis
      using wft_new_nd [OF Nd.prems(1,2) x Nd.prems(3)] True by simp
  next
    case False
    have "lk ky ?x (bx a) = ky np (bx a)"
      using Nd.prems(1) srch_in_leaves [of bx "ky np" l] srch_in_leaves [of bx "ky np" r] by auto
    with Nd.prems(2) have "bx a \<noteq> d" by (auto simp: first_diff_def)
    with False have lt: "bx a < d" by simp
    have ag: "agree ky (bx a) (insert (Some np) (leaves l \<union> leaves r))"
    proof (rule agree_insert)
      show "agree ky (bx a) (leaves l \<union> leaves r)" using Nd.prems(1) by simp
      show "?x \<in> leaves l \<union> leaves r" using x by simp
      show "lk ky ?x i = ky np i" if "i < bx a" for i
        using Nd.prems(2) that lt by (auto simp: first_diff_def)
    qed
    have bel: "below bx (bx a) (tins bx d np (ky np) s)" if "below bx (bx a) s" for s
      using that lt Nd.prems(3) by (cases s; cases "ky np d") (auto simp: new_nd_def side_of_def)
    have lf: "bx b \<le> d" if "s = Leaf b" "below bx (bx a) s" for s b
      using that lt by auto
    show ?thesis
    proof (cases "ky np (bx a)")
      case True
      then have "wft bx ky (tins bx d np (ky np) r)"
        using Nd.prems lf by (intro Nd.IH(2)) auto
      with True False Nd.prems(1) ag bel show ?thesis by (simp add: insert_commute)
    next
      case False
      then have "wft bx ky (tins bx d np (ky np) l)"
        using Nd.prems lf by (intro Nd.IH(1)) auto
      with False \<open>\<not> d < bx a\<close> Nd.prems(1) ag bel show ?thesis by simp
    qed
  qed
qed

text \<open>Only the nodes of the tree and its back pointers matter.\<close>

lemma wft_cong:
  assumes "wft bx ky t" "\<And>a. a \<in> set (tnodes t) \<union> {a. Some a \<in> leaves t} \<Longrightarrow> bx' a = bx a \<and> ky' a = ky a"
  shows "wft bx' ky' t"
  using assms
proof (induction t)
  case (Nd a l r)
  have lk: "lk ky' x = lk ky x" if "x \<in> leaves l \<union> leaves r" for x
    using Nd.prems(2) that by (cases x) auto
  have "below bx' (bx a) s" if "below bx (bx a) s" "s = l \<or> s = r" for s
    using that Nd.prems(2) by (cases s) auto
  moreover have "agree ky' (bx a) (leaves l \<union> leaves r)"
    using Nd.prems(1) by (intro agree_cong [OF lk]) auto
  moreover have "wft bx' ky' l" "wft bx' ky' r"
    using Nd.prems by (auto intro!: Nd.IH)
  moreover have "bx' a = bx a" using Nd.prems(2) by simp
  ultimately show ?case
    using Nd.prems(1) by (simp add: lk)
qed auto

section \<open>Paths into the tree\<close>

text \<open>A path lists, innermost first, the nodes above a place, the side taken and the other subtree.\<close>

type_synonym frame = "addr \<times> side \<times> ptree"

fun plug :: "frame list \<Rightarrow> ptree \<Rightarrow> ptree" where
  "plug [] t = t"
| "plug ((a, sd, s) # fs) t = plug fs (mk_node a sd t s)"

lemma plug_append [simp]: "plug (fs @ gs) t = plug gs (plug fs t)"
  by (induction fs arbitrary: t) auto

definition follows :: "(addr \<Rightarrow> nat) \<Rightarrow> (nat \<Rightarrow> bool) \<Rightarrow> frame list \<Rightarrow> bool" where
  "follows bx k fs \<longleftrightarrow> (\<forall>(a, sd, s) \<in> set fs. sd = side_of (k (bx a)))"

lemma tins_mk_node:
  "bx a \<le> d \<Longrightarrow> sd = side_of (k (bx a)) \<Longrightarrow>
   tins bx d np k (mk_node a sd t s) = mk_node a sd (tins bx d np k t) s"
  by (cases "k (bx a)") (simp_all add: side_of_def)

lemma tins_plug:
  assumes "follows bx k fs" "\<forall>(a, sd, s) \<in> set fs. bx a \<le> d"
  shows "tins bx d np k (plug fs t) = plug fs (tins bx d np k t)"
  using assms
proof (induction fs arbitrary: t rule: rev_induct)
  case (snoc f fs)
  obtain a sd s where f: "f = (a, sd, s)" by (cases f)
  with snoc show ?case by (auto simp: tins_mk_node follows_def)
qed simp

lemma wft_plug: "wft bx ky (plug fs t) \<Longrightarrow> wft bx ky t"
proof (induction fs arbitrary: t)
  case (Cons f fs)
  obtain a sd s where f: "f = (a, sd, s)" by (cases f)
  with Cons.prems Cons.IH have "wft bx ky (mk_node a sd t s)" by auto
  then show ?case by (cases sd) auto
qed simp

lemma wft_plug_below:
  assumes "wft bx ky (plug ((a, sd, s) # fs) t)"
  shows "below bx (bx a) t \<and> below bx (bx a) s"
  using wft_plug [of bx ky fs "mk_node a sd t s"] assms by (cases sd) auto

text \<open>Going outwards, the tested bits decrease.\<close>

lemma wft_plug_decreasing:
  "wft bx ky (plug fs t) \<Longrightarrow> sorted_wrt (\<lambda>(a, _) (b, _). bx b < bx a) fs"
proof (induction fs arbitrary: t)
  case (Cons f fs)
  obtain a sd s where f: "f = (a, sd, s)" by (cases f)
  have IH: "sorted_wrt (\<lambda>(a, _) (b, _). bx b < bx a) fs"
    using Cons by (simp add: f)
  have "bx b < bx a" if "(b, sd', s') \<in> set fs" for b sd' s'
  proof (cases fs)
    case Nil
    with that show ?thesis by simp
  next
    case (Cons g gs)
    obtain b1 sd1 s1 where g: "g = (b1, sd1, s1)" by (cases g)
    have "below bx (bx b1) (mk_node a sd t s)"
      using wft_plug_below [of bx ky b1 sd1 s1 gs "mk_node a sd t s"] Cons.prems
      by (simp add: f Cons g)
    then have "bx b1 < bx a" by (cases sd) auto
    with that IH show ?thesis by (auto simp: Cons g)
  qed
  with IH show ?case by (auto simp: f)
qed simp

definition fnodes :: "frame list \<Rightarrow> addr list" where
  "fnodes fs = concat (map (\<lambda>(a, sd, s). a # tnodes s) fs)"

lemma fnodes_simps [simp]:
  "fnodes [] = []"
  "fnodes ((a, sd, s) # fs) = a # tnodes s @ fnodes fs"
  by (simp_all add: fnodes_def)

lemma set_tnodes_mk_node [simp]:
  "set (tnodes (mk_node a sd t s)) = insert a (set (tnodes t) \<union> set (tnodes s))"
  by (cases sd) auto

lemma distinct_mk_node [simp]:
  "distinct (tnodes (mk_node a sd t s)) \<longleftrightarrow>
     a \<notin> set (tnodes t) \<union> set (tnodes s) \<and> distinct (tnodes t) \<and> distinct (tnodes s)
     \<and> set (tnodes t) \<inter> set (tnodes s) = {}"
  by (cases sd) auto

lemma set_tnodes_plug: "set (tnodes (plug fs t)) = set (fnodes fs) \<union> set (tnodes t)"
  by (induction fs arbitrary: t) auto

lemma distinct_plug: "distinct (tnodes (plug fs t)) \<longleftrightarrow> distinct (fnodes fs @ tnodes t)"
  by (induction fs arbitrary: t) auto

section \<open>The tree in the store\<close>

text \<open>\<open>rep h p e t\<close>: the pointer \<open>e\<close>, held by node \<open>p\<close>, is the root of \<open>t\<close>.\<close>

fun rep :: "heap \<Rightarrow> addr option \<Rightarrow> addr option \<Rightarrow> ptree \<Rightarrow> bool" where
  "rep h p e Zero \<longleftrightarrow> e = None"
| "rep h p e (Leaf a) \<longleftrightarrow> e = Some a \<and> nodes h a \<noteq> None"
| "rep h p e (Nd a l r) \<longleftrightarrow> e = Some a \<and>
     (\<exists>n. nodes h a = Some n \<and> parent n = p \<and> bit_mask n = mask_of (bit_ndx n)
        \<and> rep h (Some a) (left n) l \<and> rep h (Some a) (right n) r)"

fun repc :: "heap \<Rightarrow> addr option \<Rightarrow> frame list \<Rightarrow> addr option \<Rightarrow> addr option \<Rightarrow> bool" where
  "repc h rt [] p e \<longleftrightarrow> p = None \<and> e = rt"
| "repc h rt ((a, sd, s) # fs) p e \<longleftrightarrow> p = Some a \<and>
     (\<exists>n. nodes h a = Some n \<and> bit_mask n = mask_of (bit_ndx n) \<and> child sd n = e
        \<and> rep h (Some a) (child (other sd) n) s \<and> repc h rt fs (parent n) (Some a))"

lemma rep_root_ptr: "rep h p e t \<Longrightarrow> e = root_ptr t"
  by (cases t) auto

lemma rep_mk_node:
  "rep h p e (mk_node a sd t s) \<longleftrightarrow> e = Some a \<and>
     (\<exists>n. nodes h a = Some n \<and> parent n = p \<and> bit_mask n = mask_of (bit_ndx n)
        \<and> rep h (Some a) (child sd n) t \<and> rep h (Some a) (child (other sd) n) s)"
  by (cases sd) auto

lemma rep_plug: "rep h None rt (plug fs t) \<longleftrightarrow> (\<exists>p e. repc h rt fs p e \<and> rep h p e t)"
proof (induction fs arbitrary: t)
  case (Cons f fs)
  obtain a sd s where f: "f = (a, sd, s)" by (cases f)
  show ?case by (simp add: f Cons.IH rep_mk_node) blast
qed simp

text \<open>Framing: a changed store represents the same tree when the nodes of the tree are untouched.\<close>

definition keeps :: "heap \<Rightarrow> heap \<Rightarrow> addr set \<Rightarrow> bool" where
  "keeps h h' A \<longleftrightarrow> (\<forall>a \<in> A. nodes h' a = nodes h a) \<and> (\<forall>a. nodes h a \<noteq> None \<longrightarrow> nodes h' a \<noteq> None)"

lemma keeps_subset: "keeps h h' A \<Longrightarrow> B \<subseteq> A \<Longrightarrow> keeps h h' B"
  by (auto simp: keeps_def)

lemma rep_keeps: "rep h p e t \<Longrightarrow> keeps h h' (set (tnodes t)) \<Longrightarrow> rep h' p e t"
proof (induction t arbitrary: p e)
  case (Nd a l r)
  from Nd.prems(1) obtain n where n: "nodes h a = Some n" "parent n = p"
      "bit_mask n = mask_of (bit_ndx n)"
      "rep h (Some a) (left n) l" "rep h (Some a) (right n) r" "e = Some a" by auto
  have "keeps h h' (set (tnodes l))" "keeps h h' (set (tnodes r))"
    using Nd.prems(2) by (auto intro: keeps_subset)
  with Nd.IH n have "rep h' (Some a) (left n) l" "rep h' (Some a) (right n) r" by blast+
  moreover have "nodes h' a = Some n" using Nd.prems(2) n by (simp add: keeps_def)
  ultimately show ?case using n by simp
qed (auto simp: keeps_def)

lemma repc_keeps: "repc h rt fs p e \<Longrightarrow> keeps h h' (set (fnodes fs)) \<Longrightarrow> repc h' rt fs p e"
proof (induction fs arbitrary: p e)
  case (Cons f fs)
  obtain a sd s where f: "f = (a, sd, s)" by (cases f)
  from Cons.prems(1) obtain n where n: "nodes h a = Some n" "bit_mask n = mask_of (bit_ndx n)"
      "child sd n = e" "rep h (Some a) (child (other sd) n) s" "repc h rt fs (parent n) (Some a)"
      "p = Some a" by (auto simp: f)
  have "keeps h h' (set (tnodes s))" "keeps h h' (set (fnodes fs))"
    using Cons.prems(2) by (auto simp: f intro: keeps_subset)
  with n Cons.IH have "rep h' (Some a) (child (other sd) n) s" "repc h' rt fs (parent n) (Some a)"
    by (auto intro: rep_keeps)
  moreover have "nodes h' a = Some n" using Cons.prems(2) n by (simp add: keeps_def f)
  ultimately show ?case using n by (simp add: f)
qed simp

text \<open>Replacing the pointer in the hole of a path.\<close>

lemma repc_set_child:
  assumes "repc h rt ((a, sd, s) # fs) p e" "distinct (fnodes ((a, sd, s) # fs))"
    "nodes h a = Some n" "nodes h' = (nodes h)(a \<mapsto> set_child sd e' n)"
  shows "repc h' rt ((a, sd, s) # fs) p e'"
proof -
  have k: "keeps h h' (set (tnodes s))" "keeps h h' (set (fnodes fs))"
    using assms by (auto simp: keeps_def)
  have "rep h (Some a) (child (other sd) n) s" "repc h rt fs (parent n) (Some a)" "p = Some a"
      "bit_mask n = mask_of (bit_ndx n)"
    using assms by auto
  with k have "rep h' (Some a) (child (other sd) n) s" "repc h' rt fs (parent n) (Some a)"
    by (auto intro: rep_keeps repc_keeps)
  then show ?thesis
    using assms(4) \<open>p = Some a\<close> \<open>bit_mask n = mask_of (bit_ndx n)\<close> by (cases sd) auto
qed

text \<open>Giving the root of a subtree a new parent.\<close>

lemma rep_reparent:
  assumes "rep h p (Some a) (Nd a l r)" "distinct (tnodes (Nd a l r))"
    "nodes h a = Some n" "nodes h' = (nodes h)(a \<mapsto> n\<lparr>parent := q\<rparr>)"
  shows "rep h' q (Some a) (Nd a l r)"
proof -
  have "keeps h h' (set (tnodes l))" "keeps h h' (set (tnodes r))"
    using assms by (auto simp: keeps_def)
  then show ?thesis using assms by (auto intro: rep_keeps)
qed

section \<open>The walkers\<close>

lemma ndx_of_eq: "nodes h a = Some n \<Longrightarrow> ndx_of h a = unat (bit_ndx n)"
  by (simp add: ndx_of_def)

text \<open>\<open>v\<close> is the character that holds the last tested bit.\<close>

definition v_ok :: "string \<Rightarrow> u32 \<Rightarrow> u32 \<Rightarrow> bool" where
  "v_ok s ofs v \<longleftrightarrow> ofs = -1 \<or> v = key_char s (length s) ofs"

lemma bit_ofs_not_minus_1: "bit_ofs ndx \<noteq> -1"
proof
  assume *: "bit_ofs ndx = -1"
  have "unat (bit_ofs ndx) < 2 ^ 29"
    using unsigned_less [of ndx, where 'a = nat] by (simp add: less_mult_imp_div_less)
  then show False unfolding * by (simp add: unsigned_minus_1_eq_mask mask_eq_exp_minus_1)
qed

lemma v_ok_step:
  assumes "v_ok s ofs v"
  shows "(if bit_ofs ndx \<noteq> ofs then key_char s (length s) (bit_ofs ndx) else v)
    = key_char s (length s) (bit_ofs ndx)"
  using assms bit_ofs_not_minus_1 [of ndx] by (auto simp: v_ok_def)

text \<open>
  \<open>walk_down\<close> ends at the place where the search for the record's key ends, with the edge and
  the parent that belong to this place.
\<close>

lemma walk_down_loop_spec:
  assumes "rep h p (Some cur) t" "t = Nd cur l r" "wft (ndx_of h) ky t" "v_ok (rec_id rr) ofs v"
    "rec_id_len rr = length (rec_id rr)"
  shows "\<exists>fs leaf a sd s v' n. walk_down_loop h rr cur ofs v = Some (root_ptr leaf, a, sd, v', bit_ndx n)
    \<and> t = plug ((a, sd, s) # fs) leaf \<and> tnodes leaf = []
    \<and> follows (ndx_of h) (kbit (rec_id rr)) ((a, sd, s) # fs)
    \<and> nodes h a = Some n \<and> test v' (mask_of (bit_ndx n)) = sd
    \<and> srch (ndx_of h) (kbit (rec_id rr)) t = root_ptr leaf"
  using assms
proof (induction t arbitrary: p cur l r ofs v)
  case (Nd a l' r')
  then have [simp]: "a = cur" "l' = l" "r' = r" by auto
  obtain n where n: "nodes h cur = Some n" "bit_mask n = mask_of (bit_ndx n)"
      "rep h (Some cur) (left n) l" "rep h (Some cur) (right n) r"
    using Nd.prems by auto
  define k where "k = kbit (rec_id rr)"
  define v' where "v' = key_char (rec_id rr) (length (rec_id rr)) (bit_ofs (bit_ndx n))"
  define sd where "sd = side_of (k (ndx_of h cur))"
  define c where "c = (if sd = Rgt then r else l)"
  define s where "s = (if sd = Rgt then l else r)"
  have sd: "test v' (mask_of (bit_ndx n)) = sd"
    by (simp add: v'_def sd_def k_def test_key_char ndx_of_eq [OF n(1)])
  have v': "(if bit_ofs (bit_ndx n) \<noteq> ofs
      then key_char (rec_id rr) (rec_id_len rr) (bit_ofs (bit_ndx n)) else v) = v'"
    unfolding v'_def Nd.prems(5) by (rule v_ok_step [OF Nd.prems(4)])
  have c: "child sd n = root_ptr c" "rep h (Some cur) (child sd n) c"
    using n by (cases sd; auto simp: c_def dest: rep_root_ptr)+
  have t: "Nd cur l r = mk_node cur sd c s" by (cases sd) (auto simp: c_def s_def)
  have below: "below (ndx_of h) (ndx_of h cur) c" and wfc: "wft (ndx_of h) ky c"
    using Nd.prems(3) by (auto simp: c_def)
  have srch: "srch (ndx_of h) k (Nd cur l r) = srch (ndx_of h) k c"
    by (simp add: c_def sd_def side_of_def)
  have unfold: "walk_down_loop h rr cur ofs v =
      (case root_ptr c of None \<Rightarrow> Some (None, cur, sd, v', bit_ndx n)
       | Some b \<Rightarrow> (case nodes h b of None \<Rightarrow> None
           | Some m \<Rightarrow> if bit_ndx m > bit_ndx n then walk_down_loop h rr b (bit_ofs (bit_ndx n)) v'
               else Some (Some b, cur, sd, v', bit_ndx n)))"
    unfolding walk_down_loop.simps [of h rr cur ofs v] n(1) option.case Let_def v' n(2) sd c(1)
    by (rule refl)
  have stop: ?case if "walk_down_loop h rr cur ofs v = Some (root_ptr c, cur, sd, v', bit_ndx n)"
      "tnodes c = []" "srch (ndx_of h) k c = root_ptr c"
    using that sd t srch n
    by (intro exI [of _ "[]"] exI [of _ c] exI [of _ cur] exI [of _ sd] exI [of _ s] exI [of _ v']
        exI [of _ n]) (auto simp: follows_def sd_def k_def)
  show ?case
  proof (cases c)
    case Zero
    then show ?thesis using stop unfold by simp
  next
    case (Leaf b)
    then obtain m where m: "nodes h b = Some m" using c(2) by auto
    have "\<not> bit_ndx m > bit_ndx n"
      using below Leaf m n by (simp add: ndx_of_eq word_less_nat_alt)
    then show ?thesis using stop unfold Leaf m by simp
  next
    case (Nd b l2 r2)
    then obtain m where m: "nodes h b = Some m" using c(2) by auto
    have gt: "bit_ndx m > bit_ndx n"
      using below Nd m n by (simp add: ndx_of_eq word_less_nat_alt)
    have v2: "v_ok (rec_id rr) (bit_ofs (bit_ndx n)) v'"
      by (simp add: v_ok_def v'_def)
    have repc: "rep h (Some cur) (Some b) c" using c Nd by simp
    have "\<exists>fs leaf a sd s v'' n'.
        walk_down_loop h rr b (bit_ofs (bit_ndx n)) v' = Some (root_ptr leaf, a, sd, v'', bit_ndx n')
        \<and> c = plug ((a, sd, s) # fs) leaf \<and> tnodes leaf = []
        \<and> follows (ndx_of h) (kbit (rec_id rr)) ((a, sd, s) # fs)
        \<and> nodes h a = Some n' \<and> test v'' (mask_of (bit_ndx n')) = sd
        \<and> srch (ndx_of h) (kbit (rec_id rr)) c = root_ptr leaf"
    proof (cases "sd = Rgt")
      case True
      then show ?thesis
        using Nd.IH(2) [of "Some cur" b l2 r2 "bit_ofs (bit_ndx n)" v'] repc Nd wfc v2
          Nd.prems(5) by (auto simp: c_def)
    next
      case False
      then show ?thesis
        using Nd.IH(1) [of "Some cur" b l2 r2 "bit_ofs (bit_ndx n)" v'] repc Nd wfc v2
          Nd.prems(5) by (auto simp: c_def)
    qed
    then obtain fs leaf a2 sd2 s2 v'' n' where IH:
        "walk_down_loop h rr b (bit_ofs (bit_ndx n)) v' = Some (root_ptr leaf, a2, sd2, v'', bit_ndx n')"
        "c = plug ((a2, sd2, s2) # fs) leaf" "tnodes leaf = []"
        "follows (ndx_of h) (kbit (rec_id rr)) ((a2, sd2, s2) # fs)"
        "nodes h a2 = Some n'" "test v'' (mask_of (bit_ndx n')) = sd2"
        "srch (ndx_of h) (kbit (rec_id rr)) c = root_ptr leaf" by blast
    have w: "walk_down_loop h rr cur ofs v = Some (root_ptr leaf, a2, sd2, v'', bit_ndx n')"
      using IH(1) unfold Nd m gt by simp
    have pl: "Nd cur l r = plug ((a2, sd2, s2) # fs @ [(cur, sd, s)]) leaf"
      using IH(2) t by simp
    have fo: "follows (ndx_of h) (kbit (rec_id rr)) ((a2, sd2, s2) # fs @ [(cur, sd, s)])"
      using IH(4) by (auto simp: follows_def sd_def k_def)
    have se: "srch (ndx_of h) (kbit (rec_id rr)) (Nd cur l r) = root_ptr leaf"
      using IH(7) srch by (simp only: k_def)
    show ?thesis
      unfolding \<open>a = cur\<close> \<open>l' = l\<close> \<open>r' = r\<close> using w pl fo se IH(3,5,6) by blast
  qed
qed auto

end
