(* ===== verification/UidLink.thy ===== *)
theory UidLink
  imports UidTrie
begin

section \<open>The other walkers\<close>

text \<open>
  The search loop and the way up, and what \<open>pat_link\<close> does to the represented tree: it is
  \<open>tins\<close>, the insertion of a node at the first differing bit (\<open>pat_link_spec\<close>).
\<close>

lemma find_loop_walk_down:
  assumes "rec_id rr = s" "rec_id_len rr = length s"
  shows "find_loop h s np ofs v = map_option fst (walk_down_loop h rr np ofs v)"
  using assms
proof (induction h s np ofs v rule: find_loop.induct)
  case (1 h s np ofs v)
  show ?case
    unfolding find_loop.simps [of h s np ofs v] walk_down_loop.simps [of h rr np ofs v]
    using 1(2,3) by (simp add: Let_def 1(1) split: option.split)
qed

definition head_ptr :: "frame list \<Rightarrow> addr option" where
  "head_ptr fs = (case fs of [] \<Rightarrow> None | f # _ \<Rightarrow> Some (fst f))"

lemma head_ptr_simps [simp]: "head_ptr [] = None" "head_ptr (f # fs) = Some (fst f)"
  by (simp_all add: head_ptr_def)

lemma repc_head_ptr: "repc h rt fs p e \<Longrightarrow> p = head_ptr fs"
  by (cases fs) auto

text \<open>\<open>walk_up\<close> climbs past the nodes that test a later bit than \<open>diff\<close>.\<close>

lemma walk_up_spec:
  assumes "repc h rt (f1 @ f2) p e" "f1 \<noteq> []"
    "\<forall>(a, _) \<in> set f1. unat diff < ndx_of h a" "f2 = [] \<or> ndx_of h (fst (hd f2)) \<le> unat diff"
  shows "walk_up h diff (fst (hd f1)) = Some (fst (last f1), head_ptr f2)"
  using assms
proof (induction f1 arbitrary: p e)
  case (Cons f f1)
  obtain a sd s where f: "f = (a, sd, s)" by (cases f)
  obtain n where n: "nodes h a = Some n" "repc h rt (f1 @ f2) (parent n) (Some a)"
    using Cons.prems(1) by (auto simp: f)
  show ?case
  proof (cases f1)
    case Nil
    show ?thesis
    proof (cases f2)
      case Nil
      with n \<open>f1 = []\<close> show ?thesis by (simp add: f walk_up.simps [of h diff a])
    next
      case (Cons g gs)
      obtain b sb t where g: "g = (b, sb, t)" by (cases g)
      obtain m where "nodes h b = Some m" "parent n = Some b"
        using n \<open>f1 = []\<close> by (auto simp: Cons g)
      moreover have "\<not> bit_ndx m > diff" if "nodes h b = Some m" for m
        using Cons.prems(4) that by (simp add: Cons g ndx_of_eq word_less_nat_alt)
      ultimately show ?thesis
        using n \<open>f1 = []\<close> by (simp add: f Cons g walk_up.simps [of h diff a])
    qed
  next
    case (Cons g gs)
    obtain b sb t where g: "g = (b, sb, t)" by (cases g)
    obtain m where m: "nodes h b = Some m" "parent n = Some b"
      using n by (auto simp: Cons g)
    have "bit_ndx m > diff"
      using Cons.prems(3) m by (simp add: Cons g ndx_of_eq word_less_nat_alt)
    then have "walk_up h diff a = walk_up h diff b"
      using n m by (simp add: walk_up.simps [of h diff a])
    also have "walk_up h diff b = Some (fst (last f1), head_ptr f2)"
      using Cons.IH [OF n(2)] Cons.prems by (simp add: Cons g)
    finally show ?thesis by (simp add: f Cons)
  qed
qed simp

section \<open>Hooking a node in\<close>

text \<open>Stores that differ in the links of nodes only.\<close>

definition same_core :: "heap \<Rightarrow> heap \<Rightarrow> bool" where
  "same_core h h' \<longleftrightarrow>
     (\<forall>x. map_option (\<lambda>n. (bit_ndx n, bit_mask n, node_rec n)) (nodes h' x)
        = map_option (\<lambda>n. (bit_ndx n, bit_mask n, node_rec n)) (nodes h x))
     \<and> recs h' = recs h \<and> next_node h' = next_node h \<and> next_rec h' = next_rec h"

lemma same_core_refl [simp]: "same_core h h"
  by (simp add: same_core_def)

lemma same_core_trans: "same_core h1 h2 \<Longrightarrow> same_core h2 h3 \<Longrightarrow> same_core h1 h3"
  by (simp add: same_core_def)

lemma set_child_fields [simp]:
  "bit_ndx (set_child sd p n) = bit_ndx n" "bit_mask (set_child sd p n) = bit_mask n"
  "node_rec (set_child sd p n) = node_rec n" "parent (set_child sd p n) = parent n"
  "child sd (set_child sd p n) = p" "child (other sd) (set_child sd p n) = child (other sd) n"
  "child sd (set_child (other sd) p n) = child sd n"
  by (cases sd; simp)+

lemma child_parent_update [simp]: "child sd (n\<lparr>parent := p\<rparr>) = child sd n"
  by (cases sd) auto

lemma upd_node_Some [simp]:
  "nodes h a = Some n \<Longrightarrow> upd_node h a f = Some (h\<lparr>nodes := (nodes h)(a \<mapsto> f n)\<rparr>)"
  by (simp add: upd_node_def)

lemma same_core_upd:
  "nodes h a = Some n \<Longrightarrow> bit_ndx m = bit_ndx n \<Longrightarrow> bit_mask m = bit_mask n \<Longrightarrow>
   node_rec m = node_rec n \<Longrightarrow> same_core h (h\<lparr>nodes := (nodes h)(a \<mapsto> m)\<rparr>)"
  by (simp add: same_core_def)

text \<open>A path to a leaf agrees with the leaf's key.\<close>

lemma wft_plug_leaf_side:
  "wft bx ky (plug fs t) \<Longrightarrow> x \<in> leaves t \<Longrightarrow> (b, sb, s) \<in> set fs \<Longrightarrow> sb = side_of (lk ky x (bx b))"
proof (induction fs arbitrary: t)
  case (Cons f fs)
  obtain a sd u where f: "f = (a, sd, u)" by (cases f)
  have w: "wft bx ky (mk_node a sd t u)"
    using Cons.prems(1) wft_plug [of bx ky fs] by (simp add: f)
  show ?case
  proof (cases "(b, sb, s) = f")
    case True
    with w Cons.prems(2) show ?thesis by (cases sd) (auto simp: f side_of_def)
  next
    case False
    have "x \<in> leaves (mk_node a sd t u)" using Cons.prems(2) by (cases sd) auto
    with False Cons show ?thesis by (auto simp: f)
  qed
qed simp

text \<open>The last assignments of \<open>pat_insert\<close>: the links of the new node.\<close>

lemma link_new_node:
  assumes "repc h1 rt fs q (Some np)" "rep h1 (Some np) (root_ptr S) S" "nodes h1 np = Some nn"
    "np \<notin> set (fnodes fs) \<union> set (tnodes S)" "bit_mask nn = mask_of (bit_ndx nn)"
    "nodes h2 = (nodes h1)(np \<mapsto>
       set_child (other me) (root_ptr S) (set_child me (Some np) (nn\<lparr>parent := q\<rparr>)))"
  shows "rep h2 None rt (plug fs (new_nd np me S))"
proof -
  have k: "keeps h1 h2 (set (fnodes fs))" "keeps h1 h2 (set (tnodes S))"
    using assms(3,4,6) by (auto simp: keeps_def)
  have "repc h2 rt fs q (Some np)" by (rule repc_keeps [OF assms(1) k(1)])
  moreover have "rep h2 (Some np) (root_ptr S) S" by (rule rep_keeps [OF assms(2) k(2)])
  then have "rep h2 q (Some np) (new_nd np me S)"
    unfolding new_nd_def rep_mk_node using assms(5,6) by (cases me) auto
  ultimately show ?thesis by (auto simp: rep_plug)
qed

lemma same_but_root [simp]: "\<exists>root. db = db\<lparr>pat_root := root\<rparr>"
  by (intro exI [of _ "pat_root db"]) simp

lemma pat_link_spec:
  assumes rep: "rep h None (pat_root db) t" and t: "t = plug ((a, sd, s) # fs') leaf"
    and leaf: "tnodes leaf = []" and dist: "distinct (tnodes t)"
    and np: "nodes h np = Some nn" "np \<notin> set (tnodes t)" "bit_mask nn = mask_of (bit_ndx nn)"
    and wf: "wft (ndx_of h) ky t"
    and fol: "follows (ndx_of h) (kbit (rec_id r)) ((a, sd, s) # fs')"
    and len: "rec_id_len r = length (rec_id r)"
    and fd: "first_diff (lk ky (root_ptr leaf)) (kbit (rec_id r)) (unat (bit_ndx nn))"
  shows "\<exists>h' db'. pat_link h db r np (root_ptr leaf) (a, sd) a = Some (h', db')
    \<and> rep h' None (pat_root db') (tins (ndx_of h) (unat (bit_ndx nn)) np (kbit (rec_id r)) t)
    \<and> same_core h h' \<and> (\<forall>x. x \<notin> insert np (set (tnodes t)) \<longrightarrow> nodes h' x = nodes h x)
    \<and> (\<exists>root. db' = db\<lparr>pat_root := root\<rparr>)"
proof -
  define k where "k = kbit (rec_id r)"
  define d where "d = unat (bit_ndx nn)"
  define bx where "bx = ndx_of h"
  define fs where "fs = (a, sd, s) # fs'"
  define f1 where "f1 = takeWhile (\<lambda>(b, _). d < bx b) fs"
  define f2 where "f2 = dropWhile (\<lambda>(b, _). d < bx b) fs"
  define me where "me = side_of (k d)"
  define S where "S = plug f1 leaf"
  have fs: "fs = f1 @ f2" by (simp add: f1_def f2_def)
  have tS: "t = plug f2 S" using t by (simp add: fs_def [symmetric] fs S_def)
  have leaf_in: "root_ptr leaf \<in> leaves leaf" using leaf by (cases leaf) auto
  obtain p e where repc: "repc h (pat_root db) fs p e" and repl: "rep h p e leaf"
    using rep unfolding t fs_def [symmetric] rep_plug by blast
  have p: "p = Some a" using repc by (auto simp: fs_def)
  have e: "e = root_ptr leaf" using repl by (rule rep_root_ptr)
  obtain an where an: "nodes h a = Some an" "child sd an = e" using repc by (auto simp: fs_def)
  have distf: "distinct (fnodes fs)" and npf: "np \<notin> set (fnodes fs)"
    using dist np(2) unfolding t fs_def [symmetric] by (auto simp: distinct_plug set_tnodes_plug)
  have f1: "\<forall>(b, _) \<in> set f1. d < bx b" by (auto simp: f1_def dest: set_takeWhileD)
  have ne: "bx b \<noteq> d" if "(b, sb, u) \<in> set fs" for b sb u
  proof
    assume "bx b = d"
    moreover have "sb = side_of (lk ky (root_ptr leaf) (bx b))"
      using wft_plug_leaf_side [of bx ky fs leaf "root_ptr leaf" b sb u] wf leaf_in that
      by (simp add: t fs_def bx_def)
    moreover have "sb = side_of (k (bx b))"
      using fol that by (auto simp: follows_def fs_def bx_def k_def)
    ultimately show False
      using fd by (auto simp: first_diff_def side_of_def d_def k_def split: if_splits)
  qed
  have sorted: "sorted_wrt (\<lambda>(a, _) (b, _). bx b < bx a) fs"
    using wft_plug_decreasing [of bx ky fs leaf] wf by (simp add: t fs_def bx_def)
  have f2: "\<forall>(b, _) \<in> set f2. bx b \<le> d"
  proof (cases f2)
    case (Cons g gs)
    have "\<not> d < bx (fst g)"
      using hd_dropWhile [of "\<lambda>(b, _). d < bx b" fs] unfolding f2_def [symmetric] Cons
      by (cases g) simp
    moreover have "sorted_wrt (\<lambda>(a, _) (b, _). bx b < bx a) (g # gs)"
      using sorted by (simp add: fs Cons sorted_wrt_append)
    ultimately show ?thesis by (auto simp: Cons)
  qed simp
  have S_new: "tins bx d np k S = new_nd np me S"
  proof (cases "f1 = []")
    case True
    then show ?thesis using leaf by (cases leaf) (auto simp: S_def me_def)
  next
    case False
    then obtain g b sb u where "f1 = g @ [(b, sb, u)]" by (cases f1 rule: rev_cases) auto
    with f1 show ?thesis by (cases sb) (auto simp: S_def me_def)
  qed
  have tins: "tins bx d np k t = plug f2 (new_nd np me S)"
    unfolding tS S_new [symmetric]
    by (rule tins_plug) (use fol f2 in \<open>auto simp: follows_def fs_def [symmetric] fs bx_def k_def\<close>)
  have bits: "bit_set (bit_ndx nn) r \<longleftrightarrow> k d"
    by (simp add: bit_set_kbit len k_def d_def)
  have meq: "(if bit_set (bit_ndx nn) r then Rgt else Lft) = me"
    by (simp add: bits me_def side_of_def)
  have cond: "bit_ndx an > bit_ndx nn \<longleftrightarrow> f1 \<noteq> []"
    using an by (simp add: f1_def fs_def bx_def ndx_of_eq d_def word_less_nat_alt)
  have npS: "np \<notin> set (fnodes f2) \<union> set (tnodes S)"
    using np(2) by (auto simp: tS set_tnodes_plug)
  have distS: "distinct (fnodes f2 @ tnodes S)"
    using dist by (simp only: tS distinct_plug)
  have npa: "np \<noteq> a" using npf by (auto simp: fs_def)
  show ?thesis
  proof (cases "f1 = []")
    case True
    then have f2fs: "f2 = fs" and Sl: "S = leaf" using fs by (auto simp: S_def)
    define h1 where "h1 = h\<lparr>nodes := (nodes h)(a \<mapsto> set_child sd (Some np) an)\<rparr>"
    define h2 where "h2 = h1\<lparr>nodes := (nodes h1)(np \<mapsto>
        set_child (other me) (root_ptr leaf) (set_child me (Some np) (nn\<lparr>parent := Some a\<rparr>)))\<rparr>"
    have np1: "nodes h1 np = Some nn" using np npa by (simp add: h1_def)
    have "pat_link h db r np (root_ptr leaf) (a, sd) a = Some (h2, db)"
      unfolding pat_link_def using np(1) an cond True np1
      by (simp add: h1_def [symmetric] meq Let_def h2_def)
    moreover have "repc h1 (pat_root db) fs p (Some np)"
      using repc_set_child [of h "pat_root db" a sd s fs' p e an h1 "Some np"] repc distf an
      by (simp add: fs_def h1_def)
    moreover have "rep h1 (Some np) (root_ptr leaf) leaf"
      using repl leaf by (cases leaf) (auto simp: h1_def e)
    ultimately have link: "rep h2 None (pat_root db) (plug f2 (new_nd np me S))"
      using link_new_node [of h1 "pat_root db" fs "Some a" np leaf nn h2 me] np1 npS np(3) p
      by (simp add: f2fs Sl h2_def)
    have "same_core h h1" unfolding h1_def by (rule same_core_upd [OF an(1)]) simp_all
    moreover have "same_core h1 h2" unfolding h2_def
      by (rule same_core_upd [OF np1]) simp_all
    moreover have "a \<in> set (tnodes t)" unfolding t set_tnodes_plug by simp
    ultimately show ?thesis
      using \<open>pat_link _ _ _ _ _ _ _ = _\<close> link tins
      by (intro exI [of _ h2] exI [of _ db])
        (auto simp: bx_def d_def k_def h1_def h2_def intro: same_core_trans)
  next
    case False
    then obtain g cl scl ucl where g: "f1 = g @ [(cl, scl, ucl)]"
      by (cases f1 rule: rev_cases) auto
    define l where "l = (case scl of Lft \<Rightarrow> plug g leaf | Rgt \<Rightarrow> ucl)"
    define rr where "rr = (case scl of Lft \<Rightarrow> ucl | Rgt \<Rightarrow> plug g leaf)"
    have S: "S = Nd cl l rr" by (cases scl) (auto simp: S_def g l_def rr_def)
    obtain q e2 where rc2: "repc h (pat_root db) f2 q e2" and rS: "rep h q e2 S"
      using rep unfolding tS rep_plug by blast
    have e2: "e2 = Some cl" using rS by (simp add: S)
    have q: "q = head_ptr f2" using rc2 by (rule repc_head_ptr)
    have up: "walk_up h (bit_ndx nn) a = Some (cl, q)"
    proof -
      have "f2 = [] \<or> ndx_of h (fst (hd f2)) \<le> unat (bit_ndx nn)"
        using f2 by (cases f2) (auto simp: d_def bx_def)
      then
      have "walk_up h (bit_ndx nn) (fst (hd f1)) = Some (fst (last f1), head_ptr f2)"
        using repc False f1 f2
        by (intro walk_up_spec [of h "pat_root db" _ _ p e])
          (auto simp: fs [symmetric] d_def bx_def neq_Nil_conv)
      moreover have "hd f1 = (a, sd, s)" using fs False by (cases f1) (auto simp: fs_def)
      ultimately show ?thesis by (simp add: g q)
    qed
    obtain cn where cn: "nodes h cl = Some cn" using rS by (auto simp: S)
    define h1 where "h1 = h\<lparr>nodes := (nodes h)(cl \<mapsto> cn\<lparr>parent := Some np\<rparr>)\<rparr>"
    have rS1: "rep h1 (Some np) (root_ptr S) S"
      using rep_reparent [of h q cl l rr cn h1 "Some np"] rS distS cn
      by (simp add: S e2 h1_def)
    have cl_np: "cl \<noteq> np" using npS by (auto simp: S)
    have clf2: "cl \<notin> set (fnodes f2)" using distS by (auto simp: S)
    have rc21: "repc h1 (pat_root db) f2 q (Some cl)"
      using rc2 unfolding e2 by (rule repc_keeps) (use clf2 in \<open>auto simp: keeps_def h1_def\<close>)
    have sc1: "same_core h h1" unfolding h1_def by (rule same_core_upd [OF cn]) simp_all
    have clt: "cl \<in> set (tnodes t)" by (simp add: tS set_tnodes_plug S)
    have "\<exists>h2 db1. rep h2 None (pat_root db1) (plug f2 (new_nd np me S))
        \<and> pat_link h db r np (root_ptr leaf) (a, sd) a = Some (h2, db1) \<and> same_core h h2
        \<and> (\<forall>x. x \<notin> insert np (set (tnodes t)) \<longrightarrow> nodes h2 x = nodes h x)
        \<and> (\<exists>root. db1 = db\<lparr>pat_root := root\<rparr>)"
    proof (cases f2)
      case Nil
      then have q0: "q = None" by (simp add: q)
      define db1 where "db1 = db\<lparr>pat_root := Some np\<rparr>"
      define h2 where "h2 = h1\<lparr>nodes := (nodes h1)(np \<mapsto>
        set_child (other me) (Some cl) (set_child me (Some np) (nn\<lparr>parent := q\<rparr>)))\<rparr>"
      have np1: "nodes h1 np = Some nn" using np cl_np by (simp add: h1_def)
      have pl: "pat_link h db r np (root_ptr leaf) (a, sd) a = Some (h2, db1)"
        unfolding pat_link_def using np(1) an cond False np1 up q0 cn
        by (simp add: h1_def [symmetric] meq Let_def h2_def db1_def)
      have "repc h1 (pat_root db1) f2 q (Some np)" by (simp add: Nil q0 db1_def)
      then have "rep h2 None (pat_root db1) (plug f2 (new_nd np me S))"
        by (rule link_new_node [OF _ rS1 np1 npS np(3)]) (simp add: h2_def S)
      moreover have "same_core h h2" unfolding h2_def
        by (rule same_core_trans [OF sc1 same_core_upd [OF np1]]) simp_all
      ultimately show ?thesis
        using pl clt by (intro exI [of _ h2] exI [of _ db1]) (auto simp: h1_def h2_def db1_def)
    next
      case (Cons fr f2')
      obtain pp sdp sp where fr: "fr = (pp, sdp, sp)" by (cases fr)
      have qp: "q = Some pp" by (simp add: q Cons fr)
      obtain ppn where ppn: "nodes h pp = Some ppn" "child sdp ppn = Some cl"
          "rep h (Some pp) (child (other sdp) ppn) sp"
        using rc2 by (auto simp: Cons fr e2)
      have pcl: "pp \<noteq> cl" using clf2 by (auto simp: Cons fr)
      have ppnp: "pp \<noteq> np" using npS by (auto simp: Cons fr)
      have bp: "bx pp < bx cl"
        using wft_plug_below [of bx ky pp sdp sp f2' S] wf
        by (simp add: tS Cons fr bx_def S)
      have side: "(if left ppn = Some cl then Lft else Rgt) = sdp"
      proof (cases sdp)
        case Lft
        then show ?thesis using ppn by simp
      next
        case Rgt
        have "left ppn \<noteq> Some cl"
        proof
          assume "left ppn = Some cl"
          then have "root_ptr sp = Some cl" using ppn(3) rep_root_ptr Rgt by fastforce
          moreover have "below bx (bx pp) sp"
            using wft_plug_below [of bx ky pp sdp sp f2' S] wf by (simp add: tS Cons fr bx_def)
          moreover have "cl \<notin> set (tnodes sp)" using clf2 by (auto simp: Cons fr)
          ultimately show False using bp by (cases sp) auto
        qed
        then show ?thesis using Rgt by simp
      qed
      define h1' where "h1' = h1\<lparr>nodes := (nodes h1)(pp \<mapsto> set_child sdp (Some np) ppn)\<rparr>"
      define h2 where "h2 = h1'\<lparr>nodes := (nodes h1')(np \<mapsto>
        set_child (other me) (Some cl) (set_child me (Some np) (nn\<lparr>parent := q\<rparr>)))\<rparr>"
      have ppn1: "nodes h1 pp = Some ppn" using ppn pcl by (simp add: h1_def)
      have np1: "nodes h1' np = Some nn" using np cl_np ppnp by (simp add: h1'_def h1_def)
      have pl: "pat_link h db r np (root_ptr leaf) (a, sd) a = Some (h2, db)"
        unfolding pat_link_def using np(1) an cond False np1 up qp cn ppn(1) ppn1
        by (simp add: h1_def [symmetric] h1'_def [symmetric] meq Let_def h2_def side)
      have "repc h1' (pat_root db) f2 q (Some np)"
        using repc_set_child [of h1 "pat_root db" pp sdp sp f2' q "Some cl" ppn h1' "Some np"]
          rc21 ppn1 distS by (auto simp: Cons fr h1'_def)
      moreover have "rep h1' (Some np) (root_ptr S) S"
        by (rule rep_keeps [OF rS1])
          (use distS in \<open>auto simp: keeps_def h1'_def Cons fr\<close>)
      ultimately have "rep h2 None (pat_root db) (plug f2 (new_nd np me S))"
        by (rule link_new_node [OF _ _ np1 npS np(3)]) (simp add: h2_def S)
      moreover have "same_core h1 h1'" unfolding h1'_def
        by (rule same_core_upd [OF ppn1]) simp_all
      then have "same_core h h2" unfolding h2_def
        by (intro same_core_trans [OF same_core_trans [OF sc1] same_core_upd [OF np1]]) simp_all
      moreover have "pp \<in> set (tnodes t)" by (simp add: tS set_tnodes_plug Cons fr)
      ultimately show ?thesis
        using pl clt by (intro exI [of _ h2] exI [of _ db]) (auto simp: h1_def h1'_def h2_def)
    qed
    then show ?thesis
      using tins by (auto simp: bx_def d_def k_def)
  qed
qed

end
