(* ===== verification/UidStore.thy ===== *)
theory UidStore
  imports UidLink
begin

section \<open>What the database holds\<close>

text \<open>
  The invariant that ties the store to the list \<open>rs\<close> of the records in order of insertion,
  and its preservation by the insertion.
\<close>

definition idof :: "heap \<Rightarrow> addr \<Rightarrow> string" where
  "idof h x = (case recs h x of None \<Rightarrow> [] | Some r \<Rightarrow> rec_id r)"

definition nid :: "heap \<Rightarrow> addr \<Rightarrow> string" where
  "nid h a = (case nodes h a of None \<Rightarrow> [] | Some n \<Rightarrow> idof h (node_rec n))"

definition nkey :: "heap \<Rightarrow> addr \<Rightarrow> nat \<Rightarrow> bool" where
  "nkey h a = kbit (nid h a)"

text \<open>The list a pointer is the head of.\<close>

fun linked :: "heap \<Rightarrow> addr option \<Rightarrow> addr list \<Rightarrow> bool" where
  "linked h p [] \<longleftrightarrow> p = None"
| "linked h p (x # xs) \<longleftrightarrow> p = Some x \<and> (\<exists>r. recs h x = Some r \<and> linked h (rec_next r) xs)"

definition same_id :: "heap \<Rightarrow> string \<Rightarrow> addr list \<Rightarrow> addr list" where
  "same_id h s rs = filter (\<lambda>x. idof h x = s) rs"

definition node_ok :: "heap \<Rightarrow> addr list \<Rightarrow> addr \<Rightarrow> bool" where
  "node_ok h rs a \<longleftrightarrow> (\<exists>n. nodes h a = Some n
     \<and> linked h (Some (node_rec n)) (same_id h (idof h (node_rec n)) rs))"

definition trie_inv :: "heap \<Rightarrow> addr option \<Rightarrow> addr list \<Rightarrow> ptree \<Rightarrow> bool" where
  "trie_inv h rt rs t \<longleftrightarrow> rep h None rt t \<and> distinct (tnodes t) \<and> wft (ndx_of h) (nkey h) t
     \<and> leaves t = insert None (Some ` set (tnodes t))
     \<and> (\<forall>a \<in> set (tnodes t). node_ok h rs a)
     \<and> (\<forall>x \<in> set rs. \<exists>a \<in> set (tnodes t). nid h a = idof h x)"

definition recs_ok :: "heap \<Rightarrow> addr list \<Rightarrow> bool" where
  "recs_ok h rs \<longleftrightarrow> distinct rs
     \<and> (\<forall>i < length rs. \<exists>r. recs h (rs ! i) = Some r \<and> rec_good r \<and> rec_pos r = of_nat i)"

definition array_ok :: "uid_db \<Rightarrow> addr list \<Rightarrow> bool" where
  "array_ok db rs \<longleftrightarrow> (\<exists>free. records db = map Some rs @ free)
     \<and> records_next db = of_nat (length rs) \<and> length (records db) = unat (records_max db)
     \<and> 0 < length (records db) \<and> length (records db) \<le> max MIN_RECORDS (2 * length rs)"

definition alloc_ok :: "heap \<Rightarrow> bool" where
  "alloc_ok h \<longleftrightarrow> (\<forall>a. nodes h a \<noteq> None \<longrightarrow> a < next_node h) \<and> (\<forall>a. recs h a \<noteq> None \<longrightarrow> a < next_rec h)"

definition db_inv :: "heap \<Rightarrow> uid_db \<Rightarrow> addr list \<Rightarrow> bool" where
  "db_inv h db rs \<longleftrightarrow> (\<exists>t. trie_inv h (pat_root db) rs t) \<and> recs_ok h rs \<and> array_ok db rs \<and> alloc_ok h"

lemma recs_okD: "recs_ok h rs \<Longrightarrow> x \<in> set rs \<Longrightarrow> \<exists>r. recs h x = Some r \<and> rec_good r \<and> idof h x = rec_id r"
  by (fastforce simp: recs_ok_def in_set_conv_nth idof_def)

lemma node_okD:
  assumes "node_ok h rs a"
  obtains n ys where "nodes h a = Some n" "nid h a = idof h (node_rec n)"
    "same_id h (nid h a) rs = node_rec n # ys" "linked h (Some (node_rec n)) (node_rec n # ys)"
    "node_rec n \<in> set rs"
proof -
  obtain n where n: "nodes h a = Some n" "linked h (Some (node_rec n)) (same_id h (idof h (node_rec n)) rs)"
    using assms by (auto simp: node_ok_def)
  have nid: "nid h a = idof h (node_rec n)" using n by (simp add: nid_def)
  obtain ys where ys: "same_id h (nid h a) rs = node_rec n # ys"
    using n nid by (cases "same_id h (nid h a) rs") auto
  then have "node_rec n \<in> set (same_id h (nid h a) rs)" by simp
  then have "node_rec n \<in> set rs" by (simp add: same_id_def)
  with n nid ys that show ?thesis by simp
qed

lemma find_same_id: "find (\<lambda>x. idof h x = s) rs = (case same_id h s rs of [] \<Rightarrow> None | x # _ \<Rightarrow> Some x)"
  unfolding same_id_def by (induction rs) auto

lemma trie_inv_root_None: "trie_inv h None rs t \<Longrightarrow> t = Zero \<and> rs = []"
  by (cases t; cases rs) (auto simp: trie_inv_def)

lemma trie_inv_root_Some:
  assumes "trie_inv h (Some a) rs t"
  obtains l r where "t = Nd a l r"
proof -
  have "None \<in> leaves t" using assms by (simp add: trie_inv_def)
  then show ?thesis using assms that by (cases t) (auto simp: trie_inv_def)
qed

section \<open>Search\<close>

text \<open>The search ends at a node with the key if there is one; the comparison settles the rest.\<close>

lemma srch_finds:
  assumes inv: "trie_inv h rt rs t" and rs: "recs_ok h rs" and s: "c_string s" "x \<in> set rs" "idof h x = s"
  obtains a where "srch (ndx_of h) (kbit s) t = Some a" "a \<in> set (tnodes t)" "nid h a = s"
proof -
  obtain r where r: "idof h x = rec_id r" "rec_good r" using recs_okD [OF rs s(2)] by blast
  obtain b where b: "b \<in> set (tnodes t)" "nid h b = s" using inv s by (auto simp: trie_inv_def)
  let ?y = "srch (ndx_of h) (kbit s) t"
  have key: "lk (nkey h) ?y = kbit s"
    using inv b by (intro srch_complete [of _ _ _ "Some b"]) (auto simp: trie_inv_def nkey_def)
  have "?y \<noteq> None"
  proof
    assume "?y = None"
    with key have "\<And>i. kbit s i = kbit [] i" by (auto simp: fun_eq_iff)
    with kbit_inject [of s "[]"] s(1) have "s = []" by (simp add: c_string_def)
    with r s show False by (simp add: rec_good_def)
  qed
  then obtain a where a: "?y = Some a" by blast
  with srch_in_leaves [of "ndx_of h" "kbit s" t] inv have at: "a \<in> set (tnodes t)"
    by (auto simp: trie_inv_def)
  with inv have "node_ok h rs a" by (simp add: trie_inv_def)
  then obtain n where "nodes h a = Some n" "nid h a = idof h (node_rec n)" "node_rec n \<in> set rs"
    by (rule node_okD)
  with recs_okD [OF rs, of "node_rec n"] have "c_string (nid h a)" by (auto simp: rec_good_def)
  moreover have "\<And>i. kbit (nid h a) i = kbit s i" using key a by (simp add: nkey_def)
  ultimately have "nid h a = s" using kbit_inject s(1) by blast
  with a at that show ?thesis by blast
qed

lemma find_loop_srch:
  assumes "trie_inv h (Some root) rs t"
  shows "find_loop h s root (-1) 0 = Some (srch (ndx_of h) (kbit s) t)"
proof -
  obtain l r where t: "t = Nd root l r" using assms by (rule trie_inv_root_Some)
  define rr where "rr = \<lparr>rec_id = s, rec_id_len = length s, rec_num = 0, rec_status = 0,
     rec_pos = 0, rec_next = None\<rparr>"
  show ?thesis
    using find_loop_walk_down [of rr s h root "-1" 0]
      walk_down_loop_spec [of h None root t l r "nkey h" rr "-1" 0] assms t
    by (auto simp: rr_def trie_inv_def v_ok_def)
qed

lemma find_uid_by_id_inv:
  assumes inv: "trie_inv h (pat_root db) rs t" and rs: "recs_ok h rs" and s: "c_string s"
  shows "find_uid_by_id h db s = Some (find (\<lambda>x. idof h x = s) rs)"
proof (cases "pat_root db")
  case None
  then show ?thesis using trie_inv_root_None [of h rs t] inv by (simp add: find_uid_by_id_def)
next
  case (Some root)
  let ?y = "srch (ndx_of h) (kbit s) t"
  have loop: "find_loop h s root (-1) 0 = Some ?y"
    using find_loop_srch inv by (simp add: Some)
  have nodey: "\<exists>n ys r. nodes h a = Some n \<and> same_id h (nid h a) rs = node_rec n # ys
      \<and> recs h (node_rec n) = Some r \<and> rec_id r = nid h a \<and> rec_id_len r = length (nid h a)"
    if "?y = Some a" for a
  proof -
    from that srch_in_leaves [of "ndx_of h" "kbit s" t] inv have "node_ok h rs a"
      by (auto simp: trie_inv_def)
    then obtain n ys where "nodes h a = Some n" "nid h a = idof h (node_rec n)"
      "same_id h (nid h a) rs = node_rec n # ys" "node_rec n \<in> set rs" by (rule node_okD)
    with recs_okD [OF rs, of "node_rec n"] show ?thesis by (auto simp: rec_good_def)
  qed
  show ?thesis
  proof (cases "\<exists>x \<in> set rs. idof h x = s")
    case True
    then obtain a where a: "?y = Some a" "nid h a = s" using srch_finds [OF inv rs s] by blast
    with nodey [OF a(1)] loop Some show ?thesis
      by (auto simp: find_uid_by_id_def find_same_id)
  next
    case False
    then have none: "same_id h s rs = []" by (auto simp: same_id_def filter_empty_conv)
    have "nid h a \<noteq> s" if "?y = Some a" for a using nodey [OF that] none by auto
    with nodey loop Some none show ?thesis
      by (cases ?y) (auto simp: find_uid_by_id_def find_same_id)
  qed
qed

text \<open>The last record of the list.\<close>

lemma list_last_linked:
  "linked h (Some x) (x # xs) \<Longrightarrow> list_last h x = Some (last (x # xs))"
proof (induction xs arbitrary: x)
  case Nil
  then show ?case by (auto simp: list_last.simps [of h x])
next
  case (Cons y ys)
  then show ?case by (auto simp: list_last.simps [of h x])
qed

end
