(* ===== verification/UidInsert.thy ===== *)
theory UidInsert
  imports UidStore
begin

section \<open>Insertion keeps the invariant\<close>

subsection \<open>Framing\<close>

definition same_list :: "heap \<Rightarrow> heap \<Rightarrow> addr list \<Rightarrow> bool" where
  "same_list h h' rs \<longleftrightarrow> (\<forall>x \<in> set rs. map_option (\<lambda>r. (rec_id r, rec_next r)) (recs h' x)
      = map_option (\<lambda>r. (rec_id r, rec_next r)) (recs h x))"

lemma same_list_idof: "same_list h h' rs \<Longrightarrow> x \<in> set rs \<Longrightarrow> idof h' x = idof h x"
  unfolding same_list_def idof_def by (drule (1) bspec) (auto split: option.splits)

lemma linked_same_list: "linked h p xs \<Longrightarrow> same_list h h' xs \<Longrightarrow> linked h' p xs"
proof (induction xs arbitrary: p)
  case (Cons x xs)
  then obtain r where r: "recs h x = Some r" "linked h (rec_next r) xs" "p = Some x" by auto
  moreover have "same_list h h' xs" using Cons.prems by (simp add: same_list_def)
  moreover obtain r' where "recs h' x = Some r'" "rec_next r' = rec_next r"
    using Cons.prems r by (auto simp: same_list_def)
  ultimately show ?case using Cons.IH by auto
qed simp

lemma same_id_same_list:
  "same_list h h' rs \<Longrightarrow> same_id h' s rs = same_id h s rs"
  unfolding same_id_def by (intro filter_cong refl) (simp add: same_list_idof)

lemma same_list_subset: "same_list h h' rs \<Longrightarrow> set xs \<subseteq> set rs \<Longrightarrow> same_list h h' xs"
  unfolding same_list_def by blast

lemma same_list_same_id: "same_list h h' rs \<Longrightarrow> same_list h h' (same_id h s rs)"
  by (erule same_list_subset) (auto simp: same_id_def)

lemma node_ok_frame:
  assumes "node_ok h rs a" "same_list h h' rs" "nodes h' a = nodes h a"
  shows "node_ok h' rs a \<and> nid h' a = nid h a"
proof -
  obtain n ys where n: "nodes h a = Some n" "nid h a = idof h (node_rec n)"
    "same_id h (nid h a) rs = node_rec n # ys" "linked h (Some (node_rec n)) (node_rec n # ys)"
    "node_rec n \<in> set rs"
    using assms(1) by (rule node_okD)
  have id: "idof h' (node_rec n) = idof h (node_rec n)" using assms(2) n(5) by (rule same_list_idof)
  have "linked h (Some (node_rec n)) (same_id h (nid h a) rs)" by (simp only: n(3,4))
  then have "linked h' (Some (node_rec n)) (same_id h (nid h a) rs)"
    by (rule linked_same_list [OF _ same_list_same_id [OF assms(2)]])
  then show ?thesis
    using assms n id by (auto simp: node_ok_def nid_def same_id_same_list)
qed

lemma trie_inv_frame:
  assumes inv: "trie_inv h rt rs t" and k: "keeps h h' (set (tnodes t))" and sl: "same_list h h' rs"
  shows "trie_inv h' rt rs t"
proof -
  have ok: "node_ok h rs a" "nodes h' a = nodes h a" if "a \<in> set (tnodes t)" for a
    using inv k that by (auto simp: trie_inv_def keeps_def)
  note fr = node_ok_frame [OF ok(1) sl ok(2)]
  have lv: "a \<in> set (tnodes t)" if "Some a \<in> leaves t" for a
    using inv that by (auto simp: trie_inv_def)
  have same: "ndx_of h' a = ndx_of h a \<and> nkey h' a = nkey h a" if "a \<in> set (tnodes t)" for a
    using fr [OF that that] ok(2) [OF that] by (simp add: nkey_def ndx_of_def)
  have "wft (ndx_of h) (nkey h) t" using inv by (simp add: trie_inv_def)
  then have "wft (ndx_of h') (nkey h') t"
    by (rule wft_cong) (use same lv in blast)
  moreover have "rep h' None rt t"
    using inv k by (auto simp: trie_inv_def intro: rep_keeps)
  moreover have "\<exists>a \<in> set (tnodes t). nid h' a = idof h' x" if "x \<in> set rs" for x
  proof -
    have "\<exists>a \<in> set (tnodes t). nid h a = idof h x" using inv that by (simp add: trie_inv_def)
    then obtain a where "a \<in> set (tnodes t)" "nid h a = idof h x" by blast
    then show ?thesis using same_list_idof [OF sl that] fr by force
  qed
  ultimately show ?thesis
    using inv fr unfolding trie_inv_def by blast
qed

lemma same_core_obs:
  assumes "same_core h h'"
  shows "ndx_of h' = ndx_of h" "nid h' = nid h" "nkey h' = nkey h" "idof h' = idof h"
    "node_ok h' rs a = node_ok h rs a"
proof -
  have n: "map_option (\<lambda>n. (bit_ndx n, bit_mask n, node_rec n)) (nodes h' x)
        = map_option (\<lambda>n. (bit_ndx n, bit_mask n, node_rec n)) (nodes h x)" for x
    using assms by (simp add: same_core_def)
  have id: "idof h' = idof h" using assms by (auto simp: same_core_def idof_def)
  have ndx: "ndx_of h' x = ndx_of h x" for x
    using n [of x] by (auto simp: ndx_of_def split: option.splits)
  have nid: "nid h' x = nid h x" for x
    using n [of x] by (auto simp: nid_def id split: option.splits)
  have lk: "linked h' p xs = linked h p xs" for p xs
    using assms by (induction xs arbitrary: p) (auto simp: same_core_def)
  show "node_ok h' rs a = node_ok h rs a"
    using n [of a] by (cases "nodes h a"; cases "nodes h' a") (auto simp: node_ok_def id lk same_id_def)
  show "ndx_of h' = ndx_of h" "nid h' = nid h" "nkey h' = nkey h" "idof h' = idof h"
    using id ndx nid by (auto simp: nkey_def)
qed

subsection \<open>A new node\<close>

lemma node_ok_snoc_other:
  assumes "node_ok h rs a" "nid h a \<noteq> idof h ra"
  shows "node_ok h (rs @ [ra]) a"
proof -
  obtain n ys where "nodes h a = Some n" "nid h a = idof h (node_rec n)"
    "same_id h (nid h a) rs = node_rec n # ys" "linked h (Some (node_rec n)) (node_rec n # ys)"
    "node_rec n \<in> set rs"
    using assms(1) by (rule node_okD)
  with assms(2) show ?thesis by (auto simp: node_ok_def same_id_def)
qed

lemma node_ok_new:
  assumes "nodes h a = Some n" "node_rec n = ra" "recs h ra = Some r" "rec_next r = None"
    "same_id h (idof h ra) rs = []"
  shows "node_ok h (rs @ [ra]) a \<and> nid h a = idof h ra"
  using assms by (auto simp: node_ok_def same_id_def nid_def)

lemma trie_inv_new:
  assumes inv: "trie_inv h rt rs t" and sc: "same_core h h'"
    and rep: "rep h' None rt' t'" and dist: "distinct (tnodes t')"
    and tn: "set (tnodes t') = insert np (set (tnodes t))" and lv: "leaves t' = insert (Some np) (leaves t)"
    and wf: "wft (ndx_of h) (nkey h) t'"
    and np: "nodes h np = Some n" "node_rec n = ra" "recs h ra = Some r" "rec_next r = None"
    and new: "same_id h (idof h ra) rs = []"
  shows "trie_inv h' rt' (rs @ [ra]) t'"
proof -
  note obs = same_core_obs [OF sc]
  have "node_ok h (rs @ [ra]) a" if "a \<in> set (tnodes t)" for a
  proof (rule node_ok_snoc_other)
    show ok: "node_ok h rs a" using inv that by (simp add: trie_inv_def)
    show "nid h a \<noteq> idof h ra" using new by (rule_tac node_okD [OF ok]) auto
  qed
  moreover note node_ok_new [OF np new]
  ultimately show ?thesis
    using inv rep dist tn lv wf by (auto simp: trie_inv_def obs)
qed

subsection \<open>One more record under a known identifier\<close>

lemma linked_snoc:
  assumes "linked h (Some x) (x # xs)" "distinct (x # xs)" "y \<notin> set (x # xs)"
    "recs h (last (x # xs)) = Some l" "recs h y = Some r"
    "h' = h\<lparr>recs := (recs h)(last (x # xs) \<mapsto> l\<lparr>rec_next := Some y\<rparr>, y \<mapsto> r\<lparr>rec_next := None\<rparr>)\<rparr>"
  shows "linked h' (Some x) (x # xs @ [y])"
  using assms
proof (induction xs arbitrary: x)
  case (Cons z zs)
  have "linked h' (Some z) (z # zs @ [y])" using Cons by (intro Cons.IH) auto
  moreover have "recs h' x = recs h x" using Cons.prems by auto
  ultimately show ?case using Cons.prems by auto
qed auto

lemma linked_last_in: "linked h p xs \<Longrightarrow> x \<in> set xs \<Longrightarrow> \<exists>r. recs h x = Some r"
  by (induction xs arbitrary: p) auto

lemma trie_inv_append:
  assumes inv: "trie_inv h rt rs t" and d: "distinct rs" "ra \<notin> set rs" and a: "a \<in> set (tnodes t)"
    and n: "nodes h a = Some n" and r: "recs h ra = Some r" and id: "nid h a = rec_id r"
  shows "\<exists>h'. append_to_list h (node_rec n) ra = Some h' \<and> trie_inv h' rt (rs @ [ra]) t
    \<and> nodes h' = nodes h \<and> next_node h' = next_node h \<and> next_rec h' = next_rec h
    \<and> (\<forall>x. map_option (rec_next_update (\<lambda>_. None)) (recs h' x)
        = map_option (rec_next_update (\<lambda>_. None)) (recs h x))"
proof -
  have "node_ok h rs a" using inv a by (simp add: trie_inv_def)
  then obtain n' ys where n': "nodes h a = Some n'" "nid h a = idof h (node_rec n')"
    "same_id h (nid h a) rs = node_rec n' # ys" "linked h (Some (node_rec n')) (node_rec n' # ys)"
    "node_rec n' \<in> set rs"
    by (rule node_okD)
  have [simp]: "n' = n" using n n'(1) by simp
  let ?xs = "node_rec n # ys"
  have xs: "same_id h (rec_id r) rs = ?xs" using n' id by simp
  have xsub: "set ?xs \<subseteq> set rs" unfolding xs [symmetric] by (auto simp: same_id_def)
  have dx: "distinct ?xs" unfolding xs [symmetric] using d by (simp add: same_id_def)
  let ?l = "last ?xs"
  have lin: "?l \<in> set ?xs" by (rule last_in_set) simp
  obtain l where l: "recs h ?l = Some l"
    using linked_last_in [OF n'(4)] lin by auto
  have lra: "?l \<noteq> ra" using lin xsub d by blast
  define h' where "h' = h\<lparr>recs := (recs h)(?l \<mapsto> l\<lparr>rec_next := Some ra\<rparr>, ra \<mapsto> r\<lparr>rec_next := None\<rparr>)\<rparr>"
  have app: "append_to_list h (node_rec n) ra = Some h'"
    using list_last_linked [of h "node_rec n" ys] n'(4) l r lra
    by (simp add: append_to_list_def upd_rec_def h'_def)
  have ids: "idof h' x = idof h x" for x using l r by (auto simp: h'_def idof_def)
  then have idf: "idof h' = idof h" by auto
  have nd: "nodes h' = nodes h" by (simp add: h'_def)
  have nids: "nid h' = nid h" and keys: "nkey h' = nkey h" and ndx: "ndx_of h' = ndx_of h"
    by (simp_all add: nid_def nkey_def ndx_of_def fun_eq_iff idf nd split: option.split)
  have idra: "idof h ra = rec_id r" using r by (simp add: idof_def)
  have "node_ok h' (rs @ [ra]) b" if "b \<in> set (tnodes t)" for b
  proof -
    have "node_ok h rs b" using inv that by (simp add: trie_inv_def)
    then obtain m zs where m: "nodes h b = Some m" "nid h b = idof h (node_rec m)"
      "same_id h (nid h b) rs = node_rec m # zs" "linked h (Some (node_rec m)) (node_rec m # zs)"
      "node_rec m \<in> set rs"
      by (rule node_okD)
    show ?thesis
    proof (cases "nid h b = rec_id r")
      case True
      then have "node_rec m # zs = ?xs" using m(3) xs by simp
      then have "linked h' (Some (node_rec m)) (node_rec m # zs @ [ra])"
        using linked_snoc [OF n'(4) [unfolded \<open>n' = n\<close>] dx _ l r h'_def] xsub d by auto
      moreover have "same_id h' (nid h b) (rs @ [ra]) = node_rec m # zs @ [ra]"
        using m(3) True by (simp add: same_id_def ids idra)
      ultimately show ?thesis
        using m(1) by (simp add: node_ok_def ids nd m(2) [symmetric])
    next
      case False
      have "?l \<notin> set (node_rec m # zs)"
        using False lin unfolding m(3) [symmetric] xs [symmetric] by (auto simp: same_id_def)
      moreover have "ra \<notin> set (node_rec m # zs)"
        unfolding m(3) [symmetric] using d by (auto simp: same_id_def)
      ultimately have "same_list h h' (node_rec m # zs)"
        by (auto simp: same_list_def h'_def)
      then have "linked h' (Some (node_rec m)) (node_rec m # zs)"
        using m(4) linked_same_list by blast
      moreover have "same_id h' (nid h b) (rs @ [ra]) = node_rec m # zs"
        using m(3) False by (simp add: same_id_def ids idra)
      ultimately show ?thesis
        using m(1) by (simp add: node_ok_def ids nd m(2) [symmetric])
    qed
  qed
  moreover have "rep h' None rt t"
    by (rule rep_keeps [of h]) (use inv in \<open>simp_all add: trie_inv_def keeps_def nd\<close>)
  moreover have "\<forall>x \<in> set (rs @ [ra]). \<exists>b \<in> set (tnodes t). nid h b = idof h x"
  proof
    fix x assume "x \<in> set (rs @ [ra])"
    then consider "x \<in> set rs" | "x = ra" by auto
    then show "\<exists>b \<in> set (tnodes t). nid h b = idof h x"
    proof cases
      case 1
      then show ?thesis using inv by (simp add: trie_inv_def)
    next
      case 2
      then show ?thesis using a id idra by (intro bexI [of _ a]) simp_all
    qed
  qed
  ultimately have "trie_inv h' rt (rs @ [ra]) t"
    using inv by (simp add: trie_inv_def nids keys ndx ids)
  with app l r show ?thesis
    by (intro exI [of _ h']) (auto simp: h'_def)
qed

end
