(* ===== verification/UidSpec.thy ===== *)
theory UidSpec
  imports UidInsert
begin

section \<open>The insertion into the trie\<close>

lemma get_pat_node_eq:
  assumes "recs h ra = Some r" "rec_next r = None"
  shows "get_pat_node h ra = Some (next_node h, h\<lparr>nodes := (nodes h)(next_node h \<mapsto>
     \<lparr>left = None, parent = None, right = None, bit_ndx = 0, bit_mask = 0, node_rec = ra\<rparr>),
     next_node := Suc (next_node h)\<rparr>)"
proof -
  have "r\<lparr>rec_next := None\<rparr> = r" using assms(2) by simp
  then have "(recs h)(ra \<mapsto> r\<lparr>rec_next := None\<rparr>) = recs h" using assms(1) by (simp add: map_upd_triv)
  then show ?thesis using assms(1) by (simp add: get_pat_node_def upd_rec_def Let_def)
qed

definition with_node :: "heap \<Rightarrow> pat_node \<Rightarrow> heap" where
  "with_node h n = h\<lparr>nodes := (nodes h)(next_node h \<mapsto> n), next_node := Suc (next_node h)\<rparr>"

lemma with_node_alt: "h\<lparr>next_node := Suc (next_node h), nodes := (nodes h)(next_node h \<mapsto> n)\<rparr> = with_node h n"
  by (simp add: with_node_def)

lemma get_standalone_node_eq:
  assumes "recs h ra = Some r" "rec_next r = None"
    "ndx = first_set_bit_in_char (uchar_val (char_at (rec_id r) 0))"
  shows "get_standalone_node h ra = Some (next_node h, with_node h
     \<lparr>left = None, parent = None, right = None, bit_ndx = ndx, bit_mask = mask_of ndx, node_rec = ra\<rparr>)"
  using assms by (simp add: get_standalone_node_def get_pat_node_eq with_node_def Let_def)

lemma walk_down_spec:
  assumes inv: "trie_inv h (pat_root db) rs t" and root: "pat_root db = Some root"
    and len: "rec_id_len r = length (rec_id r)"
  obtains fs leaf a sd s where "walk_down h db r = Some (root_ptr leaf, (a, sd), a)"
    "t = plug ((a, sd, s) # fs) leaf" "tnodes leaf = []"
    "follows (ndx_of h) (kbit (rec_id r)) ((a, sd, s) # fs)"
    "srch (ndx_of h) (kbit (rec_id r)) t = root_ptr leaf"
proof -
  obtain l rt where t: "t = Nd root l rt" using inv root trie_inv_root_Some by metis
  have wf: "wft (ndx_of h) (nkey h) t" "rep h None (Some root) t"
    using inv root by (simp_all add: trie_inv_def)
  have v: "v_ok (rec_id r) (-1) 0" by (simp add: v_ok_def)
  obtain fs leaf a sd s v' n where
    "walk_down_loop h r root (-1) 0 = Some (root_ptr leaf, a, sd, v', bit_ndx n)"
    "t = plug ((a, sd, s) # fs) leaf" "tnodes leaf = []"
    "follows (ndx_of h) (kbit (rec_id r)) ((a, sd, s) # fs)"
    "nodes h a = Some n" "test v' (mask_of (bit_ndx n)) = sd"
    "srch (ndx_of h) (kbit (rec_id r)) t = root_ptr leaf"
    using walk_down_loop_spec [OF wf(2) t wf(1) v len] by blast
  then show ?thesis
    using root by (intro that [of leaf a sd s fs]) (simp_all add: walk_down_def)
qed

lemma same_core_None: "same_core h h' \<Longrightarrow> nodes h' x = None \<longleftrightarrow> nodes h x = None"
  unfolding same_core_def by (elim conjE, drule spec [of _ x]) (cases "nodes h x"; cases "nodes h' x"; simp)

lemma srch_frame:
  "\<forall>x \<in> set (tnodes t). bx' x = bx x \<Longrightarrow> srch bx' k t = srch bx k t"
  by (induction t) auto

lemma follows_cong:
  "follows bx k fs \<Longrightarrow> \<forall>b \<in> set (map fst fs). bx' b = bx b \<Longrightarrow> follows bx' k fs"
  by (induction fs) (auto simp: follows_def)

lemma pat_add:
  assumes inv: "trie_inv h (pat_root db) rs t" and al: "alloc_ok h"
    and root: "pat_root db = Some root" and r: "recs h ra = Some r" "rec_good r" "rec_next r = None"
    and new: "same_id h (rec_id r) rs = []"
    and wd: "walk_down h db r = Some (closest, edge, prnt)"
    and nn: "node_rec nn = ra" "bit_mask nn = mask_of (bit_ndx nn)"
    and fd: "first_diff (lk (nkey h) closest) (kbit (rec_id r)) (unat (bit_ndx nn))"
  shows "\<exists>h' rt' t'. pat_link (with_node h nn) db r (next_node h) closest edge prnt = Some (h', db\<lparr>pat_root := rt'\<rparr>)
     \<and> trie_inv h' rt' (rs @ [ra]) t' \<and> alloc_ok h' \<and> recs h' = recs h \<and> next_rec h' = next_rec h"
proof -
  define np where "np = next_node h"
  define h1 where "h1 = with_node h nn"
  define d where "d = unat (bit_ndx nn)"
  have fresh: "nodes h np = None" using al unfolding alloc_ok_def np_def by blast
  have tin: "nodes h x \<noteq> None" if "x \<in> set (tnodes t)" for x
    using inv that by (auto simp: trie_inv_def node_ok_def)
  then have np: "np \<notin> set (tnodes t)" using fresh by blast
  have keeps: "keeps h h1 (set (tnodes t))"
    using np by (auto simp: keeps_def h1_def with_node_def np_def)
  have inv1: "trie_inv h1 (pat_root db) rs t"
    by (rule trie_inv_frame [OF inv keeps]) (simp add: same_list_def h1_def with_node_def)
  have len: "rec_id_len r = length (rec_id r)" using r(2) by (simp add: rec_good_def)
  obtain fs leaf a sd s where w: "walk_down h db r = Some (root_ptr leaf, (a, sd), a)"
    "t = plug ((a, sd, s) # fs) leaf" "tnodes leaf = []"
    "follows (ndx_of h) (kbit (rec_id r)) ((a, sd, s) # fs)"
    "srch (ndx_of h) (kbit (rec_id r)) t = root_ptr leaf"
    using walk_down_spec [OF inv root len] .
  have ed: "closest = root_ptr leaf" "edge = (a, sd)" "prnt = a" using w(1) wd by simp_all
  have obs: "ndx_of h1 x = ndx_of h x" "nkey h1 x = nkey h x" if "x \<noteq> np" for x
    using that by (auto simp: ndx_of_def nkey_def nid_def idof_def h1_def with_node_def np_def
      split: option.split)
  have np1: "nodes h1 np = Some nn" "ndx_of h1 np = d"
    by (auto simp: h1_def with_node_def np_def ndx_of_def d_def)
  have r1: "recs h1 ra = Some r" using r by (simp add: h1_def with_node_def)
  have id1: "idof h1 ra = rec_id r" using r1 by (simp add: idof_def)
  have knp: "nkey h1 np = kbit (rec_id r)" using np1 nn id1 by (simp add: nkey_def nid_def)
  have leafne: "closest \<noteq> Some np"
    using srch_in_leaves [of "ndx_of h" "kbit (rec_id r)" t] inv np w(5) ed by (auto simp: trie_inv_def)
  then have fd1: "first_diff (lk (nkey h1) closest) (kbit (rec_id r)) d"
    using fd obs(2) by (cases closest) (auto simp: d_def)
  have fnp: "np \<notin> set (map fst ((a, sd, s) # fs))"
    using np unfolding w(2) set_tnodes_plug fnodes_def by force
  have fol: "follows (ndx_of h1) (kbit (rec_id r)) ((a, sd, s) # fs)"
    by (rule follows_cong [OF w(4)]) (use fnp obs(1) in metis)
  have wf1: "wft (ndx_of h1) (nkey h1) t" and rep1: "rep h1 None (pat_root db) t"
    and dist: "distinct (tnodes t)" using inv1 by (simp_all add: trie_inv_def)
  have new1: "same_id h1 (idof h1 ra) rs = []"
    unfolding id1 using new by (simp add: same_id_def idof_def h1_def with_node_def)
  let ?t' = "tins (ndx_of h1) d np (kbit (rec_id r)) t"
  obtain h' db' where link: "pat_link h1 db r np (root_ptr leaf) (a, sd) a = Some (h', db')"
      "rep h' None (pat_root db') ?t'" "same_core h1 h'"
      "\<forall>x. x \<notin> insert np (set (tnodes t)) \<longrightarrow> nodes h' x = nodes h1 x"
      "\<exists>root. db' = db\<lparr>pat_root := root\<rparr>"
    using pat_link_spec [OF rep1 w(2) w(3) dist np1(1) np nn(2) wf1 fol len] fd1
    unfolding ed d_def by blast
  have se: "srch (ndx_of h1) (kbit (rec_id r)) t = closest"
    using srch_frame [of t "ndx_of h1" "ndx_of h" "kbit (rec_id r)"] obs(1) np w(5) ed by fastforce
  have "wft (ndx_of h1) (nkey h1) ?t'"
  proof -
    have "wft (ndx_of h1) (nkey h1) (tins (ndx_of h1) d np (nkey h1 np) t)"
    proof (rule wft_tins [OF wf1 _ np1(2)])
      show "first_diff (lk (nkey h1) (srch (ndx_of h1) (nkey h1 np) t)) (nkey h1 np) d"
        using fd1 se by (simp add: knp)
      show "ndx_of h1 b \<le> d" if "t = Leaf b" for b
        using inv that by (auto simp: trie_inv_def)
    qed
    then show ?thesis by (simp add: knp)
  qed
  with inv1 link(2,3) dist np np1 nn r1 r(3) new1
  have ti: "trie_inv h' (pat_root db') (rs @ [ra]) ?t'"
    by (intro trie_inv_new [of h1 "pat_root db" rs t h' _ _ np nn ra r]) (auto intro: distinct_tins)
  have "alloc_ok h'"
    unfolding alloc_ok_def
  proof (intro conjI allI impI)
    fix x
    show "x < next_node h'" if "nodes h' x \<noteq> None"
    proof -
      have "nodes h1 x \<noteq> None" using that same_core_None [OF link(3)] by simp
      then have "x = np \<or> nodes h x \<noteq> None" by (auto simp: h1_def with_node_def np_def split: if_splits)
      then show ?thesis using al link(3)
        by (auto simp: alloc_ok_def same_core_def h1_def with_node_def np_def less_Suc_eq)
    qed
    show "x < next_rec h'" if "recs h' x \<noteq> None"
      using that al link(3) by (auto simp: alloc_ok_def same_core_def h1_def with_node_def)
  qed
  moreover have "recs h' = recs h" "next_rec h' = next_rec h"
    using link(3) by (simp_all add: same_core_def h1_def with_node_def)
  moreover obtain rt' where "db' = db\<lparr>pat_root := rt'\<rparr>" using link(5) by blast
  ultimately show ?thesis
    using link(1) [unfolded h1_def np_def] ti ed by (intro exI [of _ h'] exI [of _ rt'] exI [of _ ?t']) simp
qed

text \<open>\<open>pat_insert\<close> never runs into a stray pointer and appends the record to what the trie holds.\<close>

lemma pat_insert_inv:
  assumes inv: "trie_inv h (pat_root db) rs t" and rs: "recs_ok h rs" and al: "alloc_ok h"
    and r: "recs h ra = Some r" "rec_good r" "rec_next r = None" and ra: "ra \<notin> set rs"
  shows "\<exists>h' rt' t'. pat_insert h db ra = Some (h', db\<lparr>pat_root := rt'\<rparr>)
     \<and> trie_inv h' rt' (rs @ [ra]) t' \<and> alloc_ok h' \<and> next_rec h' = next_rec h
     \<and> (\<forall>x. map_option (rec_next_update (\<lambda>_. None)) (recs h' x)
        = map_option (rec_next_update (\<lambda>_. None)) (recs h x))"
proof (cases "pat_root db")
  case None
  then have t: "t = Zero" "rs = []" using trie_inv_root_None [of h rs t] inv by auto
  obtain d where d: "d < 8" "first_set_bit_in_char (uchar_val (char_at (rec_id r) 0)) = word_of_nat d"
      "first_diff (\<lambda>_. False) (kbit (rec_id r)) d"
    using first_set_bit_in_char_id [OF r(2)] .
  define np where "np = next_node h"
  define n :: pat_node where "n = \<lparr>left = None, parent = None, right = Some np, bit_ndx = of_nat d,
    bit_mask = mask_of (of_nat d), node_rec = ra\<rparr>"
  have ins: "pat_insert h db ra = Some (with_node h n, db\<lparr>pat_root := Some np\<rparr>)"
    using get_standalone_node_eq [OF r(1,3) refl] None
    by (simp add: pat_insert_def d(2) with_node_def n_def np_def)
  have ndx: "ndx_of (with_node h n) np = d"
    using d(1) by (simp add: ndx_of_def with_node_def np_def n_def unat_of_nat)
  have id: "idof (with_node h n) ra = rec_id r" using r by (simp add: idof_def with_node_def)
  have np: "nodes (with_node h n) np = Some n" by (simp add: with_node_def np_def)
  have nk: "nkey (with_node h n) np = kbit (rec_id r)" using np id by (simp add: nkey_def nid_def n_def)
  have ok: "node_ok (with_node h n) [ra] np \<and> nid (with_node h n) np = rec_id r"
    using node_ok_new [of "with_node h n" np n ra r "[]"] np r id
    by (simp add: n_def same_id_def with_node_def)
  have "wft (ndx_of (with_node h n)) (nkey (with_node h n)) (Nd np Zero (Leaf np))"
    using d(3) by (simp add: ndx nk first_diff_def agree_def)
  then have "trie_inv (with_node h n) (Some np) [ra] (Nd np Zero (Leaf np))"
    using np ok id by (simp add: trie_inv_def n_def insert_commute)
  moreover have "alloc_ok (with_node h n)" using al by (auto simp: alloc_ok_def with_node_def less_Suc_eq)
  ultimately show ?thesis
    using ins t by (intro exI [of _ "with_node h n"] exI [of _ "Some np"] exI [of _ "Nd np Zero (Leaf np)"])
      (simp add: with_node_def)
next
  case (Some root)
  have len: "rec_id_len r = length (rec_id r)" and cs: "c_string (rec_id r)"
    using r(2) by (simp_all add: rec_good_def)
  obtain fs leaf a sd s where w: "walk_down h db r = Some (root_ptr leaf, (a, sd), a)"
    "t = plug ((a, sd, s) # fs) leaf" "tnodes leaf = []"
    "follows (ndx_of h) (kbit (rec_id r)) ((a, sd, s) # fs)"
    "srch (ndx_of h) (kbit (rec_id r)) t = root_ptr leaf"
    using walk_down_spec [OF inv Some len] .
  have new: "same_id h (rec_id r) rs = []" if "\<And>c. root_ptr leaf = Some c \<Longrightarrow> nid h c \<noteq> rec_id r"
  proof (rule ccontr)
    assume "same_id h (rec_id r) rs \<noteq> []"
    then obtain x where "x \<in> set rs" "idof h x = rec_id r" by (auto simp: same_id_def filter_empty_conv)
    then show False using srch_finds [OF inv rs cs] that w(5) by metis
  qed
  show ?thesis
  proof (cases "root_ptr leaf")
    case None
    obtain d where d: "d < 8" "first_set_bit_in_char (uchar_val (char_at (rec_id r) 0)) = word_of_nat d"
        "first_diff (\<lambda>_. False) (kbit (rec_id r)) d"
      using first_set_bit_in_char_id [OF r(2)] .
    define n :: pat_node where "n = \<lparr>left = None, parent = None, right = None, bit_ndx = of_nat d,
      bit_mask = mask_of (of_nat d), node_rec = ra\<rparr>"
    have "unat (of_nat d :: u32) = d" using d(1) by (simp add: unat_of_nat)
    then have "\<exists>h' rt' t'. pat_link (with_node h n) db r (next_node h) None (a, sd) a = Some (h', db\<lparr>pat_root := rt'\<rparr>)
       \<and> trie_inv h' rt' (rs @ [ra]) t' \<and> alloc_ok h' \<and> recs h' = recs h \<and> next_rec h' = next_rec h"
      using w(1) d(3) new None by (intro pat_add [OF inv al Some r]) (simp_all add: n_def)
    moreover have "pat_insert h db ra = pat_link (with_node h n) db r (next_node h) None (a, sd) a"
      using get_standalone_node_eq [OF r(1,3) refl] Some w(1) None r(1)
      by (simp add: pat_insert_def d(2) n_def)
    ultimately show ?thesis by metis
  next
    case (Some c)
    then have ct: "c \<in> set (tnodes t)"
      using srch_in_leaves [of "ndx_of h" "kbit (rec_id r)" t] w(5) inv by (auto simp: trie_inv_def)
    then have "node_ok h rs c" using inv by (simp add: trie_inv_def)
    then obtain n ys where n: "nodes h c = Some n" "nid h c = idof h (node_rec n)"
      "same_id h (nid h c) rs = node_rec n # ys" "node_rec n \<in> set rs"
      by (rule node_okD)
    obtain cr where cr: "recs h (node_rec n) = Some cr" "rec_good cr" "nid h c = rec_id cr"
      using recs_okD [OF rs n(4)] n(2) by auto
    have ins: "pat_insert h db ra =
       (let ndx = find_first_diff_bit cr r in
        if ndx < 0 then do { h1 \<leftarrow> append_to_list h (node_rec n) ra; Some (h1, db) }
        else do {
         (np, h1) \<leftarrow> get_pat_node h ra;
         h2 \<leftarrow> upd_node h1 np
           (\<lambda>n. n\<lparr>bit_ndx := word_of_int ndx, bit_mask := mask_of (word_of_int ndx)\<rparr>);
         pat_link h2 db r np (Some c) (a, sd) a })"
      using \<open>pat_root db = Some root\<close> w(1) Some r(1) n(1) cr(1)
      by (simp add: pat_insert_def Let_def)
    show ?thesis
    proof (cases "rec_id cr = rec_id r")
      case True
      then have "find_first_diff_bit cr r = -1" using find_first_diff_bit_same cr(2) r(2) by blast
      then have "pat_insert h db ra = do { h1 \<leftarrow> append_to_list h (node_rec n) ra; Some (h1, db) }"
        using ins by simp
      moreover obtain h' where "append_to_list h (node_rec n) ra = Some h'"
        "trie_inv h' (pat_root db) (rs @ [ra]) t"
        "nodes h' = nodes h" "next_node h' = next_node h" "next_rec h' = next_rec h"
        "\<forall>x. map_option (rec_next_update (\<lambda>_. None)) (recs h' x)
          = map_option (rec_next_update (\<lambda>_. None)) (recs h x)"
        using trie_inv_append [OF inv _ ra ct n(1) r(1)] rs cr(3) True by (auto simp: recs_ok_def)
      moreover have "recs h' x = None \<longleftrightarrow> recs h x = None" for x
        using \<open>\<forall>x. map_option _ (recs h' x) = _\<close> by (metis option.map_disc_iff)
      ultimately show ?thesis
        using al by (intro exI [of _ h'] exI [of _ "pat_root db"] exI [of _ t]) (simp add: alloc_ok_def)
    next
      case False
      obtain d where d: "d < 2 ^ 31" "find_first_diff_bit cr r = int d"
          "first_diff (kbit (rec_id cr)) (kbit (rec_id r)) d"
        using find_first_diff_bit_diff [OF cr(2) r(2) False] .
      define nn :: pat_node where "nn = \<lparr>left = None, parent = None, right = None, bit_ndx = of_nat d,
        bit_mask = mask_of (of_nat d), node_rec = ra\<rparr>"
      have "unat (of_nat d :: u32) = d" using d(1) by (simp add: unat_of_nat)
      then have "\<exists>h' rt' t'. pat_link (with_node h nn) db r (next_node h) (Some c) (a, sd) a = Some (h', db\<lparr>pat_root := rt'\<rparr>)
         \<and> trie_inv h' rt' (rs @ [ra]) t' \<and> alloc_ok h' \<and> recs h' = recs h \<and> next_rec h' = next_rec h"
        using w(1) d(3) new Some cr(3) False
        by (intro pat_add [OF inv al \<open>pat_root db = Some root\<close> r]) (simp_all add: nn_def nkey_def)
      moreover have "pat_insert h db ra = pat_link (with_node h nn) db r (next_node h) (Some c) (a, sd) a"
        using ins get_pat_node_eq [OF r(1,3)] d(2)
        by (simp add: Let_def nn_def with_node_alt)
      ultimately show ?thesis by metis
    qed
  qed
qed

end
