(* ===== verification/UidApi.thy ===== *)
theory UidApi
  imports UidSpec
begin

section \<open>What the UID database promises to its callers\<close>

text \<open>
  The properties of the functions declared in uid_db.h, over the invariant \<open>db_inv\<close>: the
  database is the list \<open>rs\<close> of its records in order of insertion.
\<close>

subsection \<open>The array of records\<close>

lemma MIN_RECORDS_pos: "0 < MIN_RECORDS" "MIN_RECORDS < 2 ^ 30"
  by (simp_all add: MIN_RECORDS_def)

lemma insert_into_records_ok:
  assumes ar: "array_ok db rs" and len: "length rs < 2 ^ 30" and r: "recs h ra = Some r"
  shows "\<exists>db1. insert_into_records h db ra =
      Some (h\<lparr>recs := (recs h)(ra \<mapsto> r\<lparr>rec_pos := of_nat (length rs)\<rparr>)\<rparr>, db1)
    \<and> array_ok db1 (rs @ [ra]) \<and> pat_root db1 = pat_root db \<and> num_index db1 = num_index db"
proof -
  obtain free where free: "records db = map Some rs @ free" using ar by (auto simp: array_ok_def)
  have nx: "records_next db = of_nat (length rs)" "length (records db) = unat (records_max db)"
      "0 < length (records db)" "length (records db) \<le> max MIN_RECORDS (2 * length rs)"
    using ar unfolding array_ok_def by blast+
  have un: "unat (of_nat (length rs) :: u32) = length rs" using len by (simp add: unat_of_nat)
  have suc: "records_next db + 1 = of_nat (length (rs @ [ra]))" by (simp add: nx)
  have mx: "max MIN_RECORDS (2 * length rs) < 2 ^ 31" using len MIN_RECORDS_pos by simp
  show ?thesis
  proof (cases "free = []")
    case True
    have ml: "unat (records_max db) = length rs" using nx(2) free True by simp
    then have full: "records_next db = records_max db"
      using nx(1) by (simp add: word_unat_eq_iff un)
    have "unat (records_max db * 2) = 2 * length rs"
      using ml len by (simp add: unat_word_ariths)
    moreover have "\<exists>free. (replicate (length rs) None)[0 := Some ra] = Some ra # free"
      using nx(3) free True by (cases rs) auto
    ultimately show ?thesis
      using r free True nx ml full un suc len
      by (auto simp: insert_into_records_def upd_rec_def Let_def resize_def array_ok_def list_update_append
        poke_def)
  next
    case False
    then obtain c fr where c: "free = c # fr" by (cases free) auto
    have nf: "records_next db \<noteq> records_max db"
    proof
      assume "records_next db = records_max db"
      then have "length (records db) = length rs" using nx un by metis
      then show False using free c by simp
    qed
    show ?thesis
      using r free c nx nf un suc
      by (auto simp: insert_into_records_def upd_rec_def Let_def array_ok_def list_update_append poke_def)
  qed
qed

subsection \<open>Insertion and search\<close>

definition content :: "heap \<Rightarrow> addr \<Rightarrow> (string \<times> u32 \<times> u32) option" where
  "content h x = map_option (\<lambda>r. (rec_id r, rec_status r, rec_pos r)) (recs h x)"

lemma idof_content: "content h' x = content h x \<Longrightarrow> idof h' x = idof h x"
  by (auto simp: content_def idof_def split: option.splits)

definition good_id :: "string \<Rightarrow> bool" where
  "good_id s \<longleftrightarrow> c_string s \<and> s \<noteq> [] \<and> length s < 2 ^ 28"

lemma array_ok_root [simp]: "array_ok (db\<lparr>pat_root := x\<rparr>) rs = array_ok db rs"
  by (simp add: array_ok_def)

lemma rec_next_only:
  "a\<lparr>rec_next := None\<rparr> = b\<lparr>rec_next := None\<rparr> \<Longrightarrow> rec_id a = rec_id b \<and> rec_id_len a = rec_id_len b
   \<and> rec_status a = rec_status b \<and> rec_pos a = rec_pos b" for a b :: uid_db_record
  by (cases a; cases b) simp

lemma uid_db_insert_inv:
  assumes inv: "db_inv h db rs" and s: "good_id s" and len: "length rs < 2 ^ 30"
  shows "\<exists>ra h' db'. uid_db_insert h db s st = Some (ra, h', db') \<and> db_inv h' db' (rs @ [ra])
    \<and> content h' ra = Some (s, st, of_nat (length rs)) \<and> (\<forall>x \<in> set rs. content h' x = content h x)
    \<and> num_index db' = num_index db"
proof -
  obtain t where t: "trie_inv h (pat_root db) rs t" and rs: "recs_ok h rs"
    and ar: "array_ok db rs" and al: "alloc_ok h"
    using inv by (auto simp: db_inv_def)
  define ra where "ra = next_rec h"
  define r0 where "r0 = \<lparr>rec_id = s, rec_id_len = length s, rec_num = 0, rec_status = st, rec_pos = 0,
    rec_next = None\<rparr>"
  define r where "r = r0\<lparr>rec_pos := of_nat (length rs)\<rparr>"
  define h1 where "h1 = h\<lparr>recs := (recs h)(ra \<mapsto> r0), next_rec := Suc ra\<rparr>"
  define h2 where "h2 = h1\<lparr>recs := (recs h1)(ra \<mapsto> r)\<rparr>"
  have fresh: "recs h ra = None" using al unfolding alloc_ok_def ra_def by blast
  have ra: "ra \<notin> set rs" using recs_okD [OF rs, of ra] fresh by auto
  have r1: "recs h1 ra = Some r0" by (simp add: h1_def)
  obtain db1 where db1: "insert_into_records h1 db ra = Some (h2, db1)" "array_ok db1 (rs @ [ra])"
      "pat_root db1 = pat_root db" "num_index db1 = num_index db"
    using insert_into_records_ok [OF ar len r1] by (auto simp: h2_def r_def)
  have other: "recs h2 x = recs h x" if "x \<noteq> ra" for x using that by (simp add: h2_def h1_def)
  have nd: "nodes h2 = nodes h" "next_node h2 = next_node h" "next_rec h2 = Suc ra"
    by (simp_all add: h2_def h1_def)
  have r2: "recs h2 ra = Some r" by (simp add: h2_def)
  have sl: "same_list h h2 rs" using ra other unfolding same_list_def by metis
  have t2: "trie_inv h2 (pat_root db1) rs t"
    using trie_inv_frame [OF t _ sl] by (simp add: db1(3) keeps_def nd)
  have rs2: "recs_ok h2 rs"
    using rs ra other unfolding recs_ok_def by (metis nth_mem)
  have al2: "alloc_ok h2"
    using al unfolding alloc_ok_def nd h2_def h1_def ra_def by (auto simp: less_Suc_eq)
  have good: "rec_good r" "rec_next r = None" using s by (auto simp: r_def r0_def rec_good_def good_id_def)
  obtain h' rt' t' where ins: "pat_insert h2 db1 ra = Some (h', db1\<lparr>pat_root := rt'\<rparr>)"
      "trie_inv h' rt' (rs @ [ra]) t'" "alloc_ok h'"
      "\<forall>x. map_option (rec_next_update (\<lambda>_. None)) (recs h' x)
        = map_option (rec_next_update (\<lambda>_. None)) (recs h2 x)"
    using pat_insert_inv [OF t2 rs2 al2 r2 good ra] by blast
  have same: "map_option (\<lambda>r. (rec_id r, rec_id_len r, rec_status r, rec_pos r)) (recs h' x)
      = map_option (\<lambda>r. (rec_id r, rec_id_len r, rec_status r, rec_pos r)) (recs h2 x)" for x
    using ins(4) [rule_format, of x]
    by (cases "recs h' x"; cases "recs h2 x") (auto dest: rec_next_only)
  have get: "uid_db_insert h db s st = Some (ra, h', db1\<lparr>pat_root := rt'\<rparr>)"
    using db1(1) ins(1) by (simp add: uid_db_insert_def get_uid_db_record_def ra_def h1_def r0_def Let_def)
  have "recs_ok h' (rs @ [ra])"
    unfolding recs_ok_def
  proof (intro conjI allI impI)
    show "distinct (rs @ [ra])" using rs ra by (simp add: recs_ok_def)
    fix i assume i: "i < length (rs @ [ra])"
    have "\<exists>r. recs h2 ((rs @ [ra]) ! i) = Some r \<and> rec_good r \<and> rec_pos r = of_nat i"
      using i rs2 r2 good by (auto simp: recs_ok_def nth_append r_def less_Suc_eq)
    then show "\<exists>r. recs h' ((rs @ [ra]) ! i) = Some r \<and> rec_good r \<and> rec_pos r = of_nat i"
      using same [of "(rs @ [ra]) ! i"] by (auto simp: rec_good_def)
  qed
  moreover have "array_ok (db1\<lparr>pat_root := rt'\<rparr>) (rs @ [ra])" using db1(2) by simp
  ultimately have "db_inv h' (db1\<lparr>pat_root := rt'\<rparr>) (rs @ [ra])"
    using ins(2,3) by (auto simp: db_inv_def)
  moreover have cont: "content h' x = content h2 x" for x
    using same [of x] by (cases "recs h' x"; cases "recs h2 x") (auto simp: content_def)
  moreover have "content h2 x = content h x" if "x \<in> set rs" for x
  proof -
    have "x \<noteq> ra" using that ra by blast
    then show ?thesis by (simp add: content_def other)
  qed
  moreover have "content h2 ra = Some (s, st, of_nat (length rs))"
    using r2 by (simp add: content_def r_def r0_def)
  ultimately show ?thesis
    using get db1(4)
    by (intro exI [of _ ra] exI [of _ h'] exI [of _ "db1\<lparr>pat_root := rt'\<rparr>"])
      simp
qed

lemma db_inv_init: "alloc_ok h \<Longrightarrow> db_inv h init_uid_db []"
  unfolding db_inv_def
  by (auto intro!: exI [of _ Zero]
    simp: trie_inv_def recs_ok_def array_ok_def init_uid_db_def MIN_RECORDS_def)

definition empty_heap :: heap where
  "empty_heap = \<lparr>nodes = Map.empty, recs = Map.empty, next_node = 0, next_rec = 0\<rparr>"

lemma alloc_ok_empty [simp]: "alloc_ok empty_heap"
  by (simp add: alloc_ok_def empty_heap_def)

lemma find_uid_by_id_db_inv:
  "db_inv h db rs \<Longrightarrow> c_string s \<Longrightarrow> find_uid_by_id h db s = Some (find (\<lambda>x. idof h x = s) rs)"
  unfolding db_inv_def using find_uid_by_id_inv by blast

lemma last_same_id: "last (x # xs) = y \<Longrightarrow> same_id h s rs = x # xs \<Longrightarrow> find (\<lambda>x. idof h x = s) (rev rs) = Some y"
proof -
  assume *: "last (x # xs) = y" "same_id h s rs = x # xs"
  have "same_id h s (rev rs) = rev (x # xs)" using *(2) by (simp add: same_id_def rev_filter [symmetric])
  then show ?thesis using *(1) by (cases xs rule: rev_cases) (auto simp: find_same_id)
qed

lemma last_uid_in_db_db_inv:
  assumes inv: "db_inv h db rs" and s: "c_string s"
  shows "last_uid_in_db h db s = Some (find (\<lambda>x. idof h x = s) (rev rs))"
proof (cases "same_id h s rs")
  case Nil
  then have "find (\<lambda>x. idof h x = s) rs = None" "find (\<lambda>x. idof h x = s) (rev rs) = None"
    by (auto simp: find_None_iff same_id_def filter_empty_conv)
  then show ?thesis using find_uid_by_id_db_inv [OF assms] by (simp add: last_uid_in_db_def)
next
  case (Cons x xs)
  then have f: "find (\<lambda>x. idof h x = s) rs = Some x" by (simp add: find_same_id)
  obtain t where t: "trie_inv h (pat_root db) rs t" using inv by (auto simp: db_inv_def)
  have x: "x \<in> set rs" "idof h x = s"
    using Cons by (auto simp: same_id_def filter_eq_Cons_iff)
  have "\<exists>a \<in> set (tnodes t). nid h a = idof h x" using t x(1) unfolding trie_inv_def by blast
  then obtain a where a: "a \<in> set (tnodes t)" "nid h a = s" using x by auto
  then have "node_ok h rs a" using t by (simp add: trie_inv_def)
  then obtain n ys where "nodes h a = Some n" "same_id h (nid h a) rs = node_rec n # ys"
    "linked h (Some (node_rec n)) (node_rec n # ys)" by (rule node_okD)
  then have "linked h (Some x) (x # xs)" using a Cons by simp
  then have "list_last h x = Some (last (x # xs))" by (rule list_last_linked)
  then show ?thesis
    using find_uid_by_id_db_inv [OF assms] f last_same_id [OF refl Cons]
    by (simp add: last_uid_in_db_def)
qed

end
