(* ===== verification/UidProps.thy ===== *)
theory UidProps
  imports UidApi
begin

section \<open>The interface of the UID store and the properties of its implementation\<close>

text \<open>
  The message number index, the traversal and the positions; the interface \<open>id_store\<close> with
  its interpretation by the trie; the properties of uid_db.c.
\<close>

subsection \<open>The message number index\<close>

definition num_ok :: "num_ndx \<Rightarrow> bool" where
  "num_ok ni \<longleftrightarrow> unat (pos_0_value ni) < 2 ^ 32 - 1 \<and> unat (end_value ni) \<le> Suc (unat (pos_0_value ni))
     \<and> Suc (unat (pos_0_value ni)) - unat (end_value ni) \<le> length (num_records ni)"

lemma clear_cells_spec:
  assumes "unat have < unat want" "unat want \<le> length cells"
  shows "\<exists>cells'. clear_cells cells want have = Some cells' \<and> length cells' = length cells
    \<and> (\<forall>i < length cells. cells' ! i = (if unat have \<le> i \<and> i < unat want then None else cells ! i))"
  using assms
proof (induction cells want "have" rule: clear_cells.induct)
  case (1 cells want "have")
  have w0: "want \<noteq> 0" using "1.prems"(1) by auto
  have w: "unat (want - 1) = unat want - 1" "want \<noteq> 0"
    using w0 by (simp_all add: unat_minus_one)
  let ?c = "cells[unat want - 1 := None]"
  have poke: "poke cells (unat (want - 1)) None = Some ?c"
    using "1.prems" w by simp
  show ?case
  proof (cases "want - 1 > have")
    case True
    then have lt: "unat have < unat (want - 1)" by (simp add: word_less_nat_alt)
    obtain cells' where "clear_cells ?c (want - 1) have = Some cells'" "length cells' = length cells"
      "\<forall>i < length cells. cells' ! i = (if unat have \<le> i \<and> i < unat want - 1 then None else ?c ! i)"
    proof -
      have "unat (want - 1) \<le> length ?c" using "1.prems"(2) w(1) by simp
      with "1.IH" [OF w(2) poke True lt] that show ?thesis by (auto simp: w(1))
    qed
    then show ?thesis
      using True w poke lt
      by (intro exI [of _ cells']) (auto simp: clear_cells.simps [of cells want "have"] nth_list_update)
  next
    case False
    then have "unat want = Suc (unat have)" using w "1.prems" by (simp add: word_less_nat_alt)
    with False w poke "1.prems" show ?thesis
      by (auto simp: clear_cells.simps [of cells want "have"] nth_list_update)
  qed
qed

lemma find_uid_by_num_in:
  assumes "num_ok (num_index db)" "n \<le> pos_0_value (num_index db)"
  shows "find_uid_by_num db n = Some (if unat (end_value (num_index db)) \<le> unat n
    then num_records (num_index db) ! (unat (pos_0_value (num_index db)) - unat n) else None)"
proof -
  have "unat (uid_db_num_ofs (num_index db) n) = unat (pos_0_value (num_index db)) - unat n"
    using assms(2) by (simp add: uid_db_num_ofs_def unat_sub)
  moreover have "unat n \<le> unat (pos_0_value (num_index db))" using assms(2) by (simp add: word_le_nat_alt)
  ultimately show ?thesis
    using assms(1) by (auto simp: find_uid_by_num_def Let_def word_le_nat_alt num_ok_def peek_def)
qed

lemma set_uid_db_num_grow:
  assumes ok: "num_ok ni" and n: "n \<le> pos_0_value ni" and gt: "end_value ni > n"
    and "have": "have = pos_0_value ni - end_value ni + 1" and want: "want = pos_0_value ni - n + 1"
  shows "\<exists>cells. clear_cells (resize (unat want) (num_records ni)) want have = Some cells
    \<and> length cells = Suc (unat (pos_0_value ni) - unat n)
    \<and> (\<forall>i < length cells. cells ! i =
        (if i < Suc (unat (pos_0_value ni)) - unat (end_value ni) then num_records ni ! i else None))"
proof -
  have p: "unat (pos_0_value ni) < 2 ^ 32 - 1" "unat (end_value ni) \<le> Suc (unat (pos_0_value ni))"
    "unat n \<le> unat (pos_0_value ni)" "unat n < unat (end_value ni)"
    "Suc (unat (pos_0_value ni)) - unat (end_value ni) \<le> length (num_records ni)"
    using ok n gt by (auto simp: num_ok_def word_le_nat_alt word_less_nat_alt)
  have uw: "unat want = Suc (unat (pos_0_value ni) - unat n)"
  proof -
    have "unat (pos_0_value ni - n) = unat (pos_0_value ni) - unat n" using n by (simp add: unat_sub)
    then show ?thesis unfolding want using p(1) by (simp add: unat_word_ariths)
  qed
  have uh: "unat have = Suc (unat (pos_0_value ni)) - unat (end_value ni)"
  proof (cases "end_value ni \<le> pos_0_value ni")
    case True
    then have "unat (pos_0_value ni - end_value ni) = unat (pos_0_value ni) - unat (end_value ni)"
      by (simp add: unat_sub)
    then show ?thesis unfolding "have" using p(1) True by (simp add: unat_word_ariths word_le_nat_alt Suc_diff_le)
  next
    case False
    then have e: "unat (end_value ni) = Suc (unat (pos_0_value ni))" using p(2) by (simp add: word_le_nat_alt)
    then have "end_value ni = pos_0_value ni + 1"
      using p(1) by (simp add: word_unat_eq_iff unat_word_ariths)
    then show ?thesis unfolding "have" using e by simp
  qed
  let ?c = "resize (unat want) (num_records ni)"
  have lc: "length ?c = unat want" by (simp add: resize_def)
  obtain cells where c: "clear_cells ?c want have = Some cells" "length cells = unat want"
    "\<forall>i < unat want. cells ! i = (if unat have \<le> i \<and> i < unat want then None else ?c ! i)"
  proof -
    have "unat have < unat want" unfolding uw uh using p(2-4) by linarith
    then show ?thesis using clear_cells_spec [of "have" want ?c] that lc by (metis order_refl)
  qed
  moreover have "?c ! i = num_records ni ! i" if "i < unat have" for i
  proof -
    have "i < unat want" "i < length (num_records ni)" using that uh uw p by linarith+
    then show ?thesis by (simp add: resize_def nth_append)
  qed
  ultimately show ?thesis
    using uw uh by (intro exI [of _ cells]) auto
qed

text \<open>
  Recording a message number in the index stores exactly this entry: afterwards the number
  finds the record, every other number up to the highest one finds what it found before, and
  growing the array never writes or reads outside it.
\<close>

theorem set_uid_db_num_find:
  assumes "num_ok (num_index db)" "n \<le> pos_0_value (num_index db)"
  shows "\<exists>db'. set_uid_db_num db a n = Some db' \<and> num_ok (num_index db')
    \<and> (\<forall>m \<le> pos_0_value (num_index db).
         find_uid_by_num db' m = (if m = n then Some (Some a) else find_uid_by_num db m))"
proof -
  define ni where "ni = num_index db"
  define P E N where "P = unat (pos_0_value ni)" and "E = unat (end_value ni)" and "N = unat n"
  have p: "P < 2 ^ 32 - 1" "E \<le> Suc P" "N \<le> P" "Suc P - E \<le> length (num_records ni)"
    using assms by (auto simp: num_ok_def ni_def P_def E_def N_def word_le_nat_alt)
  have ofs: "unat (pos_0_value ni - n) = P - N"
    using assms by (simp add: P_def N_def ni_def unat_sub)
  obtain ni1 where ni1: "pos_0_value ni1 = pos_0_value ni" "unat (end_value ni1) = min E N"
      "P - N < length (num_records ni1)" "Suc P - min E N \<le> length (num_records ni1)"
      "\<forall>i < Suc P - min E N. num_records ni1 ! i = (if i < Suc P - E then num_records ni ! i else None)"
      "set_uid_db_num db a n = Some (db\<lparr>num_index := ni1\<lparr>num_records := (num_records ni1)[P - N := Some a]\<rparr>\<rparr>)"
  proof (cases "end_value ni > n")
    case True
    then have lt: "N < E" by (simp add: N_def E_def word_less_nat_alt)
    obtain cells where c: "clear_cells (resize (unat (pos_0_value ni - n + 1)) (num_records ni))
        (pos_0_value ni - n + 1) (pos_0_value ni - end_value ni + 1) = Some cells"
      "length cells = Suc (P - N)"
      "\<forall>i < length cells. cells ! i = (if i < Suc P - E then num_records ni ! i else None)"
      using set_uid_db_num_grow [OF _ _ True refl refl] assms by (auto simp: ni_def P_def N_def E_def)
    show ?thesis
      by (rule that [of "ni\<lparr>end_value := n, num_records := cells\<rparr>"])
        (use c p lt True ofs in \<open>auto simp: set_uid_db_num_def ni_def [symmetric] Let_def N_def [symmetric]
           uid_db_num_ofs_def Suc_diff_le\<close>)
  next
    case False
    then have le: "E \<le> N" by (simp add: N_def E_def word_less_nat_alt)
    show ?thesis
      by (rule that [of ni])
        (use p le False ofs in \<open>auto simp: set_uid_db_num_def ni_def [symmetric] Let_def P_def [symmetric]
           E_def [symmetric] uid_db_num_ofs_def Suc_diff_le\<close>)
  qed
  define db' where "db' = db\<lparr>num_index := ni1\<lparr>num_records := (num_records ni1)[P - N := Some a]\<rparr>\<rparr>"
  have ok': "num_ok (num_index db')"
    using p ni1 by (auto simp: num_ok_def db'_def P_def [symmetric])
  have "find_uid_by_num db' m = (if m = n then Some (Some a) else find_uid_by_num db m)"
    if m: "m \<le> pos_0_value ni" for m
  proof -
    define M where "M = unat m"
    have mp: "M \<le> P" using m by (simp add: M_def P_def word_le_nat_alt)
    have eq: "m = n \<longleftrightarrow> M = N" by (simp add: M_def N_def word_unat_eq_iff)
    have f': "find_uid_by_num db' m = Some (if min E N \<le> M
        then ((num_records ni1)[P - N := Some a]) ! (P - M) else None)"
      using find_uid_by_num_in [OF ok', of m] m ni1(1,2) by (simp add: db'_def M_def P_def)
    have f: "find_uid_by_num db m = Some (if E \<le> M then num_records ni ! (P - M) else None)"
      using find_uid_by_num_in [OF assms(1), of m] m by (simp add: ni_def M_def P_def E_def)
    have cell: "num_records ni1 ! (P - M) = (if E \<le> M then num_records ni ! (P - M) else None)"
      if "min E N \<le> M"
      using ni1(5) [rule_format, of "P - M"] that mp p by (auto split: if_splits)
    show ?thesis
      unfolding f f' eq using cell ni1(3) mp p by (auto simp: nth_list_update)
  qed
  with ok' ni1(6) show ?thesis
    by (auto simp: db'_def [symmetric] ni_def)
qed


text \<open>Which entries \<open>reset_uid_db_nums\<close> visits.\<close>

lemma reset_nums_spec:
  assumes "n \<le> length cells" "\<forall>i < n. \<forall>b. cells ! i = Some b \<longrightarrow> recs h b \<noteq> None"
  shows "\<exists>h'. reset_nums h cells n = Some h'
    \<and> (\<forall>x. recs h' x = (if Some x \<in> set (take n cells) then map_option (rec_num_update (\<lambda>_. 0)) (recs h x)
        else recs h x))"
  using assms
proof (induction n arbitrary: h)
  case (Suc n)
  have n: "n < length cells" using Suc.prems by simp
  have tk: "set (take (Suc n) cells) = insert (cells ! n) (set (take n cells))"
    using n by (simp add: take_Suc_conv_app_nth)
  show ?case
  proof (cases "cells ! n")
    case None
    then obtain h' where "reset_nums h cells n = Some h'"
      "\<forall>x. recs h' x = (if Some x \<in> set (take n cells) then map_option (rec_num_update (\<lambda>_. 0)) (recs h x)
        else recs h x)"
    proof -
      have "n \<le> length cells" "\<forall>i < n. \<forall>b. cells ! i = Some b \<longrightarrow> recs h b \<noteq> None"
        using Suc.prems(1) less_SucI Suc.prems(2) by (simp, metis)
      from Suc.IH [OF this] that show ?thesis by blast
    qed
    then show ?thesis using None n tk by auto
  next
    case (Some a)
    then obtain r where r: "recs h a = Some r" using Suc.prems(2) by fastforce
    define h1 where "h1 = h\<lparr>recs := (recs h)(a \<mapsto> r\<lparr>rec_num := 0\<rparr>)\<rparr>"
    have "\<forall>i < n. \<forall>b. cells ! i = Some b \<longrightarrow> recs h1 b \<noteq> None"
      using Suc.prems(2) by (simp add: h1_def less_Suc_eq)
    then obtain h' where h': "reset_nums h1 cells n = Some h'"
      "\<forall>x. recs h' x = (if Some x \<in> set (take n cells) then map_option (rec_num_update (\<lambda>_. 0)) (recs h1 x)
        else recs h1 x)"
      using Suc.IH [of h1] n by auto
    have "reset_nums h cells (Suc n) = Some h'"
      using Some n h'(1) r by (simp add: upd_rec_def h1_def)
    then show ?thesis using h'(2) Some tk r by (auto simp: h1_def)
  qed
qed simp

text \<open>
  \<open>reset_uid_db_nums\<close> does not reset all records of the index: it clears the message
  numbers of those recorded under the numbers above the lowest one and leaves the record under
  the lowest number as it is (the comment in uid_db.c promises all of them).
\<close>

theorem reset_uid_db_nums_misses_lowest:
  assumes "num_ok (num_index db)" "end_value (num_index db) < pos_0_value (num_index db)"
    "\<forall>x \<in> set (num_records (num_index db)). \<forall>b. x = Some b \<longrightarrow> recs h b \<noteq> None"
    "find_uid_by_num db (end_value (num_index db)) = Some (Some a)"
    "\<forall>n. end_value (num_index db) < n \<and> n \<le> pos_0_value (num_index db) \<longrightarrow> find_uid_by_num db n \<noteq> Some (Some a)"
  shows "\<exists>h' db'. reset_uid_db_nums h db = Some (h', db') \<and> recs h' a = recs h a
    \<and> (\<forall>n b. end_value (num_index db) < n \<and> n \<le> pos_0_value (num_index db) \<and> find_uid_by_num db n = Some (Some b)
         \<longrightarrow> (\<exists>r. recs h' b = Some r \<and> rec_num r = 0))"
proof -
  define ni where "ni = num_index db"
  define k where "k = unat (pos_0_value ni - end_value ni)"
  have lt: "unat (end_value ni) < unat (pos_0_value ni)" using assms(2) by (simp add: ni_def word_less_nat_alt)
  have k: "k = unat (pos_0_value ni) - unat (end_value ni)"
    unfolding k_def using lt by (simp add: unat_sub word_le_nat_alt)
  have kl: "k < length (num_records ni)" using assms(1) lt k by (auto simp: num_ok_def ni_def)
  have cell: "find_uid_by_num db n = Some (num_records ni ! (unat (pos_0_value ni) - unat n))"
    if "end_value ni \<le> n" "n \<le> pos_0_value ni" for n
    using find_uid_by_num_in [OF assms(1), of n] that by (simp add: ni_def word_le_nat_alt)
  have in_take: "Some b \<in> set (take k (num_records ni)) \<longleftrightarrow>
      (\<exists>n. end_value ni < n \<and> n \<le> pos_0_value ni \<and> find_uid_by_num db n = Some (Some b))" for b
  proof
    assume "Some b \<in> set (take k (num_records ni))"
    then obtain i where i: "i < k" "num_records ni ! i = Some b" by (auto simp: in_set_conv_nth)
    define n where "n = pos_0_value ni - of_nat i"
    have ui: "unat (of_nat i :: u32) = i" using i(1) k unsigned_less [of "pos_0_value ni", where 'a = nat] by (simp add: unat_of_nat)
    have un: "unat n = unat (pos_0_value ni) - i"
      unfolding n_def using i(1) k by (subst unat_sub) (auto simp: word_le_nat_alt ui)
    have "end_value ni < n" "n \<le> pos_0_value ni"
      using un i(1) k by (auto simp: word_le_nat_alt word_less_nat_alt)
    moreover have "unat (pos_0_value ni) - unat n = i" using un i(1) k by simp
    ultimately show "\<exists>n. end_value ni < n \<and> n \<le> pos_0_value ni \<and> find_uid_by_num db n = Some (Some b)"
      using cell [of n] i(2) by (intro exI [of _ n]) auto
  next
    assume "\<exists>n. end_value ni < n \<and> n \<le> pos_0_value ni \<and> find_uid_by_num db n = Some (Some b)"
    then obtain n where n: "end_value ni < n" "n \<le> pos_0_value ni" "find_uid_by_num db n = Some (Some b)" by blast
    then have "num_records ni ! (unat (pos_0_value ni) - unat n) = Some b" using cell [of n] by simp
    moreover have "unat (pos_0_value ni) - unat n < k"
      using n k by (auto simp: word_le_nat_alt word_less_nat_alt)
    ultimately show "Some b \<in> set (take k (num_records ni))"
      using kl by (auto simp: in_set_conv_nth intro!: exI [of _ "unat (pos_0_value ni) - unat n"])
  qed
  obtain h' where h': "reset_nums h (num_records ni) k = Some h'"
    "\<forall>x. recs h' x = (if Some x \<in> set (take k (num_records ni))
        then map_option (rec_num_update (\<lambda>_. 0)) (recs h x) else recs h x)"
  proof -
    have "\<forall>i < k. \<forall>b. num_records ni ! i = Some b \<longrightarrow> recs h b \<noteq> None"
      using assms(3) kl unfolding ni_def by (metis less_trans nth_mem)
    with reset_nums_spec [of k "num_records ni" h] kl that show ?thesis by auto
  qed
  have r: "\<exists>db'. reset_uid_db_nums h db = Some (h', db')"
    using h'(1) assms(2) by (simp add: reset_uid_db_nums_def ni_def k_def Let_def)
  have "recs h' a = recs h a"
    using h'(2) in_take [of a] assms(5) by (auto simp: ni_def)
  moreover have "\<exists>r. recs h' b = Some r \<and> rec_num r = 0"
    if "Some b \<in> set (take k (num_records ni))" for b
  proof -
    have "recs h b \<noteq> None" using that assms(3) by (auto simp: ni_def dest: in_set_takeD)
    then show ?thesis using h'(2) that by auto
  qed
  ultimately show ?thesis using r in_take by (auto simp: ni_def)
qed

subsection \<open>Records by position, traversal\<close>

text \<open>
  The position array enumerates the records in order of insertion: a position below the
  count finds the record inserted there, any other position finds nothing.
\<close>

theorem find_uid_by_pos_order:
  assumes "db_inv h db rs" "length rs < 2 ^ 32"
  shows "find_uid_by_pos db p = Some (if unat p < length rs then Some (rs ! unat p) else None)
    \<and> unat (uid_db_n_records db) = length rs"
proof -
  obtain free where "records db = map Some rs @ free" "records_next db = of_nat (length rs)"
    using assms(1) by (auto simp: db_inv_def array_ok_def)
  moreover have "unat (of_nat (length rs) :: u32) = length rs" using assms(2) by (simp add: unat_of_nat)
  ultimately show ?thesis
    by (auto simp: find_uid_by_pos_def uid_db_n_records_def word_less_nat_alt peek_def nth_append)
qed

fun visit :: "(addr \<Rightarrow> 's \<Rightarrow> (int \<times> 's) option) \<Rightarrow> addr list \<Rightarrow> 's \<Rightarrow> (int \<times> 's) option" where
  "visit r [] s = Some (0, s)"
| "visit r (x # xs) s = do { (rc, s') \<leftarrow> r x s; if rc = 0 then visit r xs s' else Some (rc, s') }"

lemma traverse_loop_visit:
  "ndx \<le> length rs \<Longrightarrow>
   traverse_loop (map Some rs @ free) r (length rs) ndx s = visit r (drop ndx rs) s"
proof (induction "map Some rs @ free" r "length rs" ndx s rule: traverse_loop.induct)
  case (1 r ndx s)
  show ?case
  proof (cases "ndx < length rs")
    case True
    then have cell: "peek (map Some rs @ free) ndx = Some (Some (rs ! ndx))"
      by (simp add: peek_def nth_append)
    have d: "drop ndx rs = rs ! ndx # drop (Suc ndx) rs" using True by (simp add: Cons_nth_drop_Suc)
    show ?thesis
      unfolding traverse_loop.simps [of _ r _ ndx s] d using True cell "1.hyps" [OF True cell refl]
      by (auto split: option.split)
  next
    case False
    then show ?thesis using "1.prems" by (subst traverse_loop.simps) simp
  qed
qed

text \<open>
  \<open>traverse_uid_db\<close> calls the routine on the records in order of insertion, each once,
  stops at the first return code that is not zero and returns this code, and 0 after the last
  record.
\<close>

theorem traverse_uid_db_visits:
  assumes "db_inv h db rs" "length rs < 2 ^ 32"
  shows "traverse_uid_db db r s = visit r rs s"
proof -
  obtain free where "records db = map Some rs @ free" "records_next db = of_nat (length rs)"
    using assms(1) by (auto simp: db_inv_def array_ok_def)
  moreover have "unat (of_nat (length rs) :: u32) = length rs" using assms(2) by (simp add: unat_of_nat)
  ultimately show ?thesis
    using traverse_loop_visit [of 0 rs free r s] by (simp add: traverse_uid_db_def)
qed


section \<open>The store of identifiers as an interface\<close>

text \<open>
  What the callers in uid.c and pop3.c rely on: insertion appends a record, a search finds the
  oldest record with the identifier.
\<close>

locale id_store =
  fixes repr :: "'s \<Rightarrow> 'a list \<Rightarrow> bool" and ident :: "'s \<Rightarrow> 'a \<Rightarrow> string"
    and ins :: "'s \<Rightarrow> string \<Rightarrow> ('a \<times> 's) option" and look :: "'s \<Rightarrow> string \<Rightarrow> 'a option option"
    and valid :: "string \<Rightarrow> bool" and room :: nat
  assumes ins_ok: "repr s xs \<Longrightarrow> valid k \<Longrightarrow> length xs < room \<Longrightarrow>
      \<exists>a s'. ins s k = Some (a, s') \<and> repr s' (xs @ [a]) \<and> ident s' a = k \<and> (\<forall>x \<in> set xs. ident s' x = ident s x)"
    and look_ok: "repr s xs \<Longrightarrow> valid k \<Longrightarrow> look s k = Some (find (\<lambda>x. ident s x = k) xs)"

text \<open>Inserting one identifier after the other, as \<open>initialize_saved_lists\<close> and \<open>pop3_getuidl\<close> do.\<close>

fun insert_all :: "('s \<Rightarrow> string \<Rightarrow> ('a \<times> 's) option) \<Rightarrow> 's \<Rightarrow> string list \<Rightarrow> ('a list \<times> 's) option" where
  "insert_all ins s [] = Some ([], s)"
| "insert_all ins s (k # ks) = do {
     (a, s1) \<leftarrow> ins s k;
     (as, s2) \<leftarrow> insert_all ins s1 ks;
     Some (a # as, s2)
   }"

lemma find_map_of:
  "length ks = length as \<Longrightarrow> (\<And>i. i < length as \<Longrightarrow> f (as ! i) = ks ! i) \<Longrightarrow>
   find (\<lambda>x. f x = k) as = map_of (zip ks as) k"
proof (induction ks as rule: list_induct2)
  case (Cons y ys x xs)
  have "f x = y" using Cons.prems [of 0] by simp
  moreover have "find (\<lambda>x. f x = k) xs = map_of (zip ys xs) k"
    using Cons.prems [of "Suc _"] by (intro Cons.IH) auto
  ultimately show ?case by auto
qed simp

context id_store
begin

lemma insert_all_ok:
  "repr s xs \<Longrightarrow> \<forall>k \<in> set ks. valid k \<Longrightarrow> length xs + length ks \<le> room \<Longrightarrow>
   \<exists>as s'. insert_all ins s ks = Some (as, s') \<and> repr s' (xs @ as) \<and> map (ident s') as = ks
     \<and> (\<forall>x \<in> set xs. ident s' x = ident s x)"
proof (induction ks arbitrary: s xs)
  case (Cons k ks)
  obtain a s1 where a: "ins s k = Some (a, s1)" "repr s1 (xs @ [a])" "ident s1 a = k"
      "\<forall>x \<in> set xs. ident s1 x = ident s x"
    using ins_ok [of s xs k] Cons.prems by auto
  obtain as s2 where "insert_all ins s1 ks = Some (as, s2)" "repr s2 ((xs @ [a]) @ as)"
      "map (ident s2) as = ks" "\<forall>x \<in> set (xs @ [a]). ident s2 x = ident s1 x"
    using Cons.IH [OF a(2)] Cons.prems by auto
  with a show ?case by auto
qed simp

lemma insert_all_look:
  assumes "repr s []" "\<forall>k \<in> set ks. valid k" "length ks \<le> room" "valid k"
  shows "\<exists>as s'. insert_all ins s ks = Some (as, s') \<and> repr s' as \<and> map (ident s') as = ks
    \<and> look s' k = Some (map_of (zip ks as) k)"
proof -
  obtain as s' where *: "insert_all ins s ks = Some (as, s')" "repr s' as" "map (ident s') as = ks"
    using insert_all_ok [of s "[]" ks] assms by auto
  moreover have "find (\<lambda>x. ident s' x = k) as = map_of (zip ks as) k"
    using *(3) by (intro find_map_of) auto
  ultimately show ?thesis using look_ok assms(4) by auto
qed

end

definition ins_uid :: "u32 \<Rightarrow> heap \<times> uid_db \<Rightarrow> string \<Rightarrow> (addr \<times> heap \<times> uid_db) option" where
  "ins_uid st s k = uid_db_insert (fst s) (snd s) k st"

definition look_uid :: "heap \<times> uid_db \<Rightarrow> string \<Rightarrow> addr option option" where
  "look_uid s k = find_uid_by_id (fst s) (snd s) k"

definition uid_repr :: "heap \<times> uid_db \<Rightarrow> addr list \<Rightarrow> bool" where
  "uid_repr s rs \<longleftrightarrow> db_inv (fst s) (snd s) rs"

definition uid_ident :: "heap \<times> uid_db \<Rightarrow> addr \<Rightarrow> string" where
  "uid_ident s x = idof (fst s) x"

interpretation uids: id_store uid_repr uid_ident "ins_uid st" look_uid good_id "2 ^ 30" for st
proof
  fix s xs k
  assume *: "uid_repr s xs" "good_id k"
  show "look_uid s k = Some (find (\<lambda>x. uid_ident s x = k) xs)"
    using find_uid_by_id_db_inv [of "fst s" "snd s" xs k] *
    by (simp add: look_uid_def uid_repr_def uid_ident_def good_id_def)
  assume "length xs < 2 ^ 30"
  then obtain ra h' db' where "uid_db_insert (fst s) (snd s) k st = Some (ra, h', db')"
      "db_inv h' db' (xs @ [ra])" "content h' ra = Some (k, st, of_nat (length xs))"
      "\<forall>x \<in> set xs. content h' x = content (fst s) x"
    using uid_db_insert_inv [of "fst s" "snd s" xs k st] * by (auto simp: uid_repr_def)
  moreover from this have "idof h' ra = k" by (auto simp: content_def idof_def)
  ultimately show "\<exists>a s'. ins_uid st s k = Some (a, s') \<and> uid_repr s' (xs @ [a]) \<and> uid_ident s' a = k
      \<and> (\<forall>x \<in> set xs. uid_ident s' x = uid_ident s x)"
    by (auto simp: ins_uid_def uid_repr_def uid_ident_def intro: idof_content)
qed

section \<open>Properties\<close>

text \<open>
  C18. Insertion into the UID database always succeeds (no stray pointer, no access outside the
  array, also when the array must grow) and appends one record with the given identifier and
  status at the next position; the other records keep their contents.
\<close>

theorem uid_db_insert_appends:
  assumes "db_inv h db rs" "good_id s" "length rs < 2 ^ 30"
  shows "\<exists>ra h' db'. uid_db_insert h db s st = Some (ra, h', db') \<and> db_inv h' db' (rs @ [ra])
    \<and> content h' ra = Some (s, st, of_nat (length rs)) \<and> (\<forall>x \<in> set rs. content h' x = content h x)"
  using uid_db_insert_inv [OF assms] by blast

theorem uid_db_insert_appends_witness:
  "\<exists>ra h' db'. uid_db_insert empty_heap init_uid_db ''ab'' 3 = Some (ra, h', db') \<and> db_inv h' db' [ra]
    \<and> content h' ra = Some (''ab'', 3, 0)"
  using uid_db_insert_appends [OF db_inv_init [OF alloc_ok_empty], of "''ab''" 3]
  by (auto simp: good_id_def c_string_def)

text \<open>
  \<open>find_uid_by_id\<close> returns the oldest record with the identifier, and the null pointer
  when no record has it: the PATRICIA trie implements a search through the list of records.
\<close>

theorem find_uid_by_id_oldest:
  assumes "db_inv h db rs" "c_string s"
  shows "find_uid_by_id h db s = Some (find (\<lambda>x. idof h x = s) rs)"
  by (rule find_uid_by_id_db_inv [OF assms])

theorem find_uid_by_id_oldest_witness:
  "\<exists>ra h' db'. uid_db_insert empty_heap init_uid_db ''ab'' 3 = Some (ra, h', db')
    \<and> find_uid_by_id h' db' ''ab'' = Some (Some ra)"
proof -
  obtain ra h' db' where u: "uid_db_insert empty_heap init_uid_db ''ab'' 3 = Some (ra, h', db')"
    "db_inv h' db' [ra]" "content h' ra = Some (''ab'', 3, 0)"
    using uid_db_insert_inv [OF db_inv_init [OF alloc_ok_empty], of "''ab''" 3]
    by (auto simp: good_id_def c_string_def)
  moreover have "idof h' ra = ''ab''" using u(3) by (auto simp: content_def idof_def)
  ultimately show ?thesis
    using find_uid_by_id_oldest [OF u(2), of "''ab''"] by (auto simp: c_string_def)
qed

text \<open>\<open>last_uid_in_db\<close> returns the newest record with the identifier.\<close>

theorem last_uid_in_db_newest:
  assumes "db_inv h db rs" "c_string s"
  shows "last_uid_in_db h db s = Some (find (\<lambda>x. idof h x = s) (rev rs))"
  by (rule last_uid_in_db_db_inv [OF assms])

theorem last_uid_in_db_newest_witness:
  "last_uid_in_db empty_heap init_uid_db ''ab'' = Some None"
  using last_uid_in_db_newest [OF db_inv_init [OF alloc_ok_empty], of "''ab''"]
  by (simp add: c_string_def)

text \<open>
  C1. A list of identifiers put into an empty database is remembered: all insertions succeed,
  and a search finds the record of the first occurrence of the identifier, or nothing when the
  identifier is not in the list.
\<close>

theorem uid_db_remembers:
  assumes "list_all good_id ks" "length ks \<le> 2 ^ 30" "good_id k"
  shows "\<exists>as s. insert_all (ins_uid st) (empty_heap, init_uid_db) ks = Some (as, s)
    \<and> map (uid_ident s) as = ks \<and> find_uid_by_id (fst s) (snd s) k = Some (map_of (zip ks as) k)"
proof -
  have "uid_repr (empty_heap, init_uid_db) []" by (simp add: uid_repr_def db_inv_init)
  then show ?thesis
    using uids.insert_all_look [of "(empty_heap, init_uid_db)" ks k st] assms
    by (auto simp: list_all_iff look_uid_def)
qed

theorem uid_db_remembers_witness:
  "\<exists>as s. insert_all (ins_uid 1) (empty_heap, init_uid_db) [''a'', ''ab'', ''a''] = Some (as, s)
    \<and> find_uid_by_id (fst s) (snd s) ''ab'' = Some (map_of (zip [''a'', ''ab'', ''a''] as) ''ab'')"
  using uid_db_remembers [of "[''a'', ''ab'', ''a'']" "''ab''" 1] by (auto simp: good_id_def c_string_def)

text \<open>
  The empty identifier is lost: inserted into an empty database it is stored as a record,
  but the search for it finds nothing (its node tests bit 4294967295).
\<close>

theorem empty_uid_is_lost:
  "(case uid_db_insert empty_heap init_uid_db [] 1 of
      None \<Rightarrow> False
    | Some (ra, h, db) \<Rightarrow> recs h ra \<noteq> None \<and> find_uid_by_pos db 0 = Some (Some ra)
        \<and> find_uid_by_id h db [] = Some None)"
proof -
  have ffs: "first_set_bit_in_char (uchar_val (char_at [] 0)) = -1"
  proof -
    have "find bot [0..<32] = None" by (simp add: find_None_iff)
    then show ?thesis by (simp add: first_set_bit_in_char_def ffs_def uchar_val_def code_def)
  qed
  have ins: "uid_db_insert empty_heap init_uid_db [] 1 = Some (0,
     \<lparr>nodes = Map.empty(0 \<mapsto> \<lparr>left = None, parent = None, right = Some 0, bit_ndx = -1,
        bit_mask = mask_of (-1), node_rec = 0\<rparr>),
      recs = Map.empty(0 \<mapsto> \<lparr>rec_id = [], rec_id_len = 0, rec_num = 0, rec_status = 1, rec_pos = 0,
        rec_next = None\<rparr>), next_node = 1, next_rec = 1\<rparr>,
     init_uid_db\<lparr>pat_root := Some 0, records := (replicate 16 None)[0 := Some 0], records_next := 1\<rparr>)"
    by (simp add: uid_db_insert_def get_uid_db_record_def empty_heap_def init_uid_db_def MIN_RECORDS_def
        insert_into_records_def upd_rec_def upd_node_def pat_insert_def get_standalone_node_def
        get_pat_node_def Let_def ffs [simplified])
  have test: "test (key_char [] 0 x) m = Lft" for x m by (simp add: key_char_def test_def)
  show ?thesis
    unfolding ins
    by (simp add: find_uid_by_pos_def find_uid_by_id_def find_loop.simps [of _ "[]" 0] test Let_def
        bit_ofs_not_minus_1 peek_def)
qed


subsection \<open>The properties at concrete values\<close>

theorem set_uid_db_num_find_witness:
  "\<exists>db'. set_uid_db_num (set_uid_db_num_pos_0 init_uid_db 3) 7 2 = Some db'
    \<and> find_uid_by_num db' 2 = Some (Some 7)"
proof -
  let ?db = "set_uid_db_num_pos_0 init_uid_db 3"
  have "num_ok (num_index ?db)" "2 \<le> pos_0_value (num_index ?db)"
    by (simp_all add: num_ok_def set_uid_db_num_pos_0_def init_uid_db_def)
  from set_uid_db_num_find [OF this, of 7] show ?thesis
    by (auto simp: set_uid_db_num_pos_0_def init_uid_db_def)
qed

definition two_recs :: heap where
  "two_recs = empty_heap\<lparr>recs :=
     (let r = \<lparr>rec_id = ''a'', rec_id_len = 1, rec_num = 5, rec_status = 0, rec_pos = 0, rec_next = None\<rparr> in
      Map.empty(0 \<mapsto> r, 1 \<mapsto> r))\<rparr>"

definition two_nums :: uid_db where
  "two_nums = init_uid_db\<lparr>num_index := \<lparr>num_records = [Some 0, Some 1], pos_0_value = 2, end_value = 1\<rparr>\<rparr>"

theorem reset_uid_db_nums_misses_lowest_witness:
  "\<exists>h' db'. reset_uid_db_nums two_recs two_nums = Some (h', db') \<and> recs h' 1 = recs two_recs 1"
proof -
  have 1: "num_ok (num_index two_nums)" "end_value (num_index two_nums) < pos_0_value (num_index two_nums)"
    by (simp_all add: num_ok_def two_nums_def)
  have 2: "\<forall>x \<in> set (num_records (num_index two_nums)). \<forall>b. x = Some b \<longrightarrow> recs two_recs b \<noteq> None"
    by (simp add: two_nums_def two_recs_def Let_def)
  have 3: "find_uid_by_num two_nums (end_value (num_index two_nums)) = Some (Some 1)"
    by (simp add: two_nums_def find_uid_by_num_def uid_db_num_ofs_def Let_def peek_def)
  have "n = 2" if "1 < n" "n \<le> 2" for n :: u32
    using that by (simp add: word_less_nat_alt word_le_nat_alt word_unat_eq_iff)
  then have 4: "\<forall>n. end_value (num_index two_nums) < n \<and> n \<le> pos_0_value (num_index two_nums)
      \<longrightarrow> find_uid_by_num two_nums n \<noteq> Some (Some 1)"
    by (fastforce simp: two_nums_def find_uid_by_num_def uid_db_num_ofs_def Let_def peek_def)
  show ?thesis using reset_uid_db_nums_misses_lowest [OF 1 2 3 4] by blast
qed

theorem find_uid_by_pos_order_witness: "find_uid_by_pos init_uid_db 0 = Some None"
  using find_uid_by_pos_order [OF db_inv_init [OF alloc_ok_empty], of 0] by simp

theorem traverse_uid_db_visits_witness:
  "traverse_uid_db init_uid_db (\<lambda>x s. Some (1, s)) (5 :: nat) = Some (0, 5)"
  using traverse_uid_db_visits [OF db_inv_init [OF alloc_ok_empty], of "\<lambda>x s. Some (1, s)" "5 :: nat"]
  by simp

end
