(* ===== verification/Idlist.thy ===== *)
theory Idlist
  imports Prelude
begin

section \<open>Lists of strings (idlist.c)\<close>

text \<open>
  The store is explicit, as the lists share: a copied list shares the strings of the original, and
  an appended list shares its elements. Elements and strings live at addresses. The value of an
  element is a union; reading the member that was not written is \<open>None\<close>, as is every access to
  memory that is not allocated, and freeing what is not allocated. A variable of type
  \<open>struct idlist *\<close> is passed by value and returned when the code changes it. The walks over a list
  need not end, as a list may be a cycle: they are partial functions.
\<close>

type_synonym iaddr = nat

datatype id_val = Status (val_num: int) (val_mark: int) | Id2 "iaddr option"

record idnode =
  id_str :: "iaddr option"
  id_val :: id_val
  id_next :: "iaddr option"

record idheap =
  strs :: "iaddr \<Rightarrow> string option"
  cells :: "iaddr \<Rightarrow> idnode option"
  next_str :: iaddr
  next_cell :: iaddr

definition UID_UNSEEN :: int where "UID_UNSEEN = 0"
definition UID_SEEN :: int where "UID_SEEN = 1"
definition UID_DELETED :: int where "UID_DELETED = 2"
definition UID_EXPUNGED :: int where "UID_EXPUNGED = 3"

subsection \<open>The store\<close>

definition new_str :: "idheap \<Rightarrow> string \<Rightarrow> iaddr \<times> idheap" where
  "new_str h s = (next_str h, h\<lparr>strs := (strs h)(next_str h \<mapsto> s), next_str := next_str h + 1\<rparr>)"

definition new_cell :: "idheap \<Rightarrow> idnode \<Rightarrow> iaddr \<times> idheap" where
  "new_cell h n = (next_cell h, h\<lparr>cells := (cells h)(next_cell h \<mapsto> n), next_cell := next_cell h + 1\<rparr>)"

definition xstrdup :: "idheap \<Rightarrow> string option \<Rightarrow> iaddr option \<times> idheap" where
  "xstrdup h s = (case s of None \<Rightarrow> (None, h) | Some t \<Rightarrow> (let (a, h1) = new_str h t in (Some a, h1)))"

definition upd_cell :: "idheap \<Rightarrow> iaddr \<Rightarrow> (idnode \<Rightarrow> idnode) \<Rightarrow> idheap option" where
  "upd_cell h a f = (case cells h a of None \<Rightarrow> None | Some n \<Rightarrow> Some (h\<lparr>cells := (cells h)(a \<mapsto> f n)\<rparr>))"

definition free_str :: "idheap \<Rightarrow> iaddr option \<Rightarrow> idheap option" where
  "free_str h p =
     (case p of None \<Rightarrow> Some h
      | Some a \<Rightarrow> if strs h a = None then None else Some (h\<lparr>strs := (strs h)(a := None)\<rparr>))"

definition free_cell :: "idheap \<Rightarrow> iaddr \<Rightarrow> idheap option" where
  "free_cell h a = (if cells h a = None then None else Some (h\<lparr>cells := (cells h)(a := None)\<rparr>))"

text \<open>The string of an element.\<close>

definition str_of :: "idheap \<Rightarrow> idnode \<Rightarrow> string option" where
  "str_of h n = id_str n \<bind> strs h"

subsection \<open>Adding and freeing\<close>

text \<open>The last element of a list that is not empty.\<close>

partial_function (option) last_cell :: "idheap \<Rightarrow> iaddr \<Rightarrow> iaddr option" where
  "last_cell h a =
     (case cells h a of None \<Rightarrow> None
      | Some n \<Rightarrow> (case id_next n of None \<Rightarrow> Some a | Some b \<Rightarrow> last_cell h b))"

text \<open>\<open>*end = new\<close> for the pointer \<open>end\<close> at the end of the list.\<close>

definition link_end :: "idheap \<Rightarrow> iaddr option \<Rightarrow> iaddr \<Rightarrow> (iaddr option \<times> idheap) option" where
  "link_end h idl a =
     (case idl of
        None \<Rightarrow> Some (Some a, h)
      | Some p \<Rightarrow> do {
          l \<leftarrow> last_cell h p;
          h1 \<leftarrow> upd_cell h l (\<lambda>n. n\<lparr>id_next := Some a\<rparr>);
          Some (idl, h1)
        })"

definition save_str_quick :: "idheap \<Rightarrow> iaddr option \<Rightarrow> iaddr option \<Rightarrow> int \<Rightarrow> (iaddr \<times> iaddr option \<times> idheap) option" where
  "save_str_quick h idl str status = do {
     let (a, h1) = new_cell h \<lparr>id_str = str, id_val = Status 0 status, id_next = None\<rparr>;
     (idl1, h2) \<leftarrow> link_end h1 idl a;
     Some (a, idl1, h2)
   }"

definition save_str :: "idheap \<Rightarrow> iaddr option \<Rightarrow> string option \<Rightarrow> int \<Rightarrow> (iaddr \<times> iaddr option \<times> idheap) option" where
  "save_str h idl str status = (let (s, h1) = xstrdup h str in save_str_quick h1 idl s status)"

definition save_str_pair :: "idheap \<Rightarrow> iaddr option \<Rightarrow> string option \<Rightarrow> string option \<Rightarrow> (iaddr option \<times> idheap) option" where
  "save_str_pair h idl str1 str2 =
     (let (s1, h1) = xstrdup h str1; (s2, h2) = xstrdup h1 str2;
          (a, h3) = new_cell h2 \<lparr>id_str = s1, id_val = Id2 s2, id_next = None\<rparr> in
      link_end h3 idl a)"

partial_function (option) free_str_list :: "idheap \<Rightarrow> iaddr option \<Rightarrow> idheap option" where
  "free_str_list h i =
     (case i of
        None \<Rightarrow> Some h
      | Some a \<Rightarrow>
          (case cells h a of
             None \<Rightarrow> None
           | Some n \<Rightarrow>
               (case free_str h (id_str n) of
                  None \<Rightarrow> None
                | Some h1 \<Rightarrow>
                    (case free_cell h1 a of None \<Rightarrow> None | Some h2 \<Rightarrow> free_str_list h2 (id_next n)))))"

subsection \<open>Searching\<close>

text \<open>The result is the element or the null pointer.\<close>

partial_function (option) str_in_list :: "idheap \<Rightarrow> iaddr option \<Rightarrow> string \<Rightarrow> bool \<Rightarrow> iaddr option option" where
  "str_in_list h walk str caseblind =
     (case walk of
        None \<Rightarrow> Some None
      | Some a \<Rightarrow>
          (case cells h a of
             None \<Rightarrow> None
           | Some n \<Rightarrow>
               (case str_of h n of
                  None \<Rightarrow> None
                | Some t \<Rightarrow>
                    if (if caseblind then strcaseeq str t else str = t) then Some (Some a)
                    else str_in_list h (id_next n) str caseblind)))"

partial_function (option) nr_loop :: "idheap \<Rightarrow> iaddr option \<Rightarrow> string \<Rightarrow> int \<Rightarrow> int option" where
  "nr_loop h walk str nr =
     (case walk of
        None \<Rightarrow> Some (-1)
      | Some a \<Rightarrow>
          (case cells h a of
             None \<Rightarrow> None
           | Some n \<Rightarrow>
               (case str_of h n of
                  None \<Rightarrow> None
                | Some t \<Rightarrow> if str = t then Some nr else nr_loop h (id_next n) str (nr + 1))))"

definition str_nr_in_list :: "idheap \<Rightarrow> iaddr option \<Rightarrow> string option \<Rightarrow> int option" where
  "str_nr_in_list h idl str = (case str of None \<Rightarrow> Some (-1) | Some s \<Rightarrow> nr_loop h idl s 0)"

partial_function (option) nr_last_loop :: "idheap \<Rightarrow> iaddr option \<Rightarrow> string \<Rightarrow> int \<Rightarrow> int \<Rightarrow> int option" where
  "nr_last_loop h walk str nr ret =
     (case walk of
        None \<Rightarrow> Some ret
      | Some a \<Rightarrow>
          (case cells h a of
             None \<Rightarrow> None
           | Some n \<Rightarrow>
               (case str_of h n of
                  None \<Rightarrow> None
                | Some t \<Rightarrow> nr_last_loop h (id_next n) str (nr + 1) (if str = t then nr else ret))))"

definition str_nr_last_in_list :: "idheap \<Rightarrow> iaddr option \<Rightarrow> string option \<Rightarrow> int option" where
  "str_nr_last_in_list h idl str = (case str of None \<Rightarrow> Some (-1) | Some s \<Rightarrow> nr_last_loop h idl s 0 (-1))"

text \<open>Writing the mark makes \<open>status\<close> the member of the union that can be read.\<close>

definition set_mark :: "int \<Rightarrow> idnode \<Rightarrow> idnode option" where
  "set_mark val n =
     (case id_val n of Status num mark \<Rightarrow> Some (n\<lparr>id_val := Status num val\<rparr>) | Id2 _ \<Rightarrow> None)"

partial_function (option) set_mark_loop :: "idheap \<Rightarrow> iaddr option \<Rightarrow> string \<Rightarrow> int \<Rightarrow> idheap option" where
  "set_mark_loop h walk str val =
     (case walk of
        None \<Rightarrow> Some h
      | Some a \<Rightarrow>
          (case cells h a of
             None \<Rightarrow> None
           | Some n \<Rightarrow>
               (case str_of h n of
                  None \<Rightarrow> None
                | Some t \<Rightarrow>
                    if str = t then
                      (case set_mark val n of
                         None \<Rightarrow> None
                       | Some n1 \<Rightarrow> set_mark_loop (h\<lparr>cells := (cells h)(a \<mapsto> n1)\<rparr>) (id_next n) str val)
                    else set_mark_loop h (id_next n) str val)))"

definition str_set_mark :: "idheap \<Rightarrow> iaddr option \<Rightarrow> string option \<Rightarrow> int \<Rightarrow> idheap option" where
  "str_set_mark h idl str val = (case str of None \<Rightarrow> Some h | Some s \<Rightarrow> set_mark_loop h idl s val)"

partial_function (option) count_loop :: "idheap \<Rightarrow> iaddr option \<Rightarrow> int \<Rightarrow> int option" where
  "count_loop h it i =
     (case it of
        None \<Rightarrow> Some i
      | Some a \<Rightarrow> (case cells h a of None \<Rightarrow> None | Some n \<Rightarrow> count_loop h (id_next n) (i + 1)))"

definition count_list :: "idheap \<Rightarrow> iaddr option \<Rightarrow> int option" where
  "count_list h idl = count_loop h idl 0"

text \<open>The result is the address of the string, or the null pointer.\<close>

partial_function (option) str_from_nr_list :: "idheap \<Rightarrow> iaddr option \<Rightarrow> int \<Rightarrow> iaddr option option" where
  "str_from_nr_list h idl number =
     (case idl of
        None \<Rightarrow> Some None
      | Some a \<Rightarrow>
          if number < 0 then Some None
          else
            (case cells h a of
               None \<Rightarrow> None
             | Some n \<Rightarrow> if number = 0 then Some (id_str n) else str_from_nr_list h (id_next n) (number - 1)))"

partial_function (option) id_find :: "idheap \<Rightarrow> iaddr option \<Rightarrow> int \<Rightarrow> iaddr option option" where
  "id_find h idp number =
     (case idp of
        None \<Rightarrow> Some None
      | Some a \<Rightarrow>
          (case cells h a of
             None \<Rightarrow> None
           | Some n \<Rightarrow>
               (case id_val n of
                  Id2 _ \<Rightarrow> None
                | Status num mark \<Rightarrow> if num = number then Some (Some a) else id_find h (id_next n) number)))"

partial_function (option) str_find :: "idheap \<Rightarrow> iaddr option \<Rightarrow> int \<Rightarrow> iaddr option option" where
  "str_find h idl number =
     (case idl of
        None \<Rightarrow> Some None
      | Some a \<Rightarrow>
          (case cells h a of
             None \<Rightarrow> None
           | Some n \<Rightarrow>
               (case id_val n of
                  Id2 _ \<Rightarrow> None
                | Status num mark \<Rightarrow> if number = num then Some (id_str n) else str_find h (id_next n) number)))"

partial_function (option) idpair_find :: "idheap \<Rightarrow> iaddr option \<Rightarrow> string \<Rightarrow> iaddr option option" where
  "idpair_find h idl s =
     (case idl of
        None \<Rightarrow> Some None
      | Some a \<Rightarrow>
          (case cells h a of
             None \<Rightarrow> None
           | Some n \<Rightarrow>
               (case str_of h n of
                  None \<Rightarrow> None
                | Some t \<Rightarrow>
                    if strcaseeq s t then
                      (case id_val n of
                         Status _ _ \<Rightarrow> None
                       | Id2 id2 \<Rightarrow> Some (if id2 \<noteq> None then id2 else id_str n))
                    else idpair_find h (id_next n) s)))"

partial_function (option) delete_str :: "idheap \<Rightarrow> iaddr option \<Rightarrow> int \<Rightarrow> (int \<times> idheap) option" where
  "delete_str h idp num =
     (case idp of
        None \<Rightarrow> Some (0, h)
      | Some a \<Rightarrow>
          (case cells h a of
             None \<Rightarrow> None
           | Some n \<Rightarrow>
               (case id_val n of
                  Id2 _ \<Rightarrow> None
                | Status k mark \<Rightarrow>
                    if k = num then Some (1, h\<lparr>cells := (cells h)(a \<mapsto> n\<lparr>id_val := Status k UID_DELETED\<rparr>)\<rparr>)
                    else delete_str h (id_next n) num)))"

subsection \<open>Copying and appending\<close>

text \<open>The new element is allocated before the rest is copied, and its \<open>next\<close> is set after.\<close>

partial_function (option) copy_str_list :: "idheap \<Rightarrow> iaddr option \<Rightarrow> (iaddr option \<times> idheap) option" where
  "copy_str_list h idl =
     (case idl of
        None \<Rightarrow> Some (None, h)
      | Some a \<Rightarrow>
          (case cells h a of
             None \<Rightarrow> None
           | Some n \<Rightarrow>
               (case new_cell h n of
                  (newnode, h1) \<Rightarrow>
                    copy_str_list h1 (id_next n) \<bind> (\<lambda>(rest, h2).
                      map_option (\<lambda>h3. (Some newnode, h3)) (upd_cell h2 newnode (\<lambda>m. m\<lparr>id_next := rest\<rparr>))))))"

text \<open>\<open>append_str_list\<close> from the element \<open>a\<close> on, for an appended list that is not empty.\<close>

partial_function (option) append_loop :: "idheap \<Rightarrow> iaddr \<Rightarrow> iaddr \<Rightarrow> idheap option" where
  "append_loop h a nidl =
     (if nidl = a then Some h
      else
        (case cells h a of
           None \<Rightarrow> None
         | Some n \<Rightarrow>
             (case id_next n of
                None \<Rightarrow> Some (h\<lparr>cells := (cells h)(a \<mapsto> n\<lparr>id_next := Some nidl\<rparr>)\<rparr>)
              | Some b \<Rightarrow> if b \<noteq> nidl then append_loop h b nidl else Some h)))"

definition append_str_list :: "idheap \<Rightarrow> iaddr option \<Rightarrow> iaddr option \<Rightarrow> (iaddr option \<times> idheap) option" where
  "append_str_list h idl nidl =
     (case nidl of
        None \<Rightarrow> Some (idl, h)
      | Some b \<Rightarrow>
          (case idl of
             None \<Rightarrow> Some (Some b, h)
           | Some a \<Rightarrow> map_option (\<lambda>h1. (idl, h1)) (append_loop h a b)))"

declare last_cell.simps [code] free_str_list.simps [code] str_in_list.simps [code] nr_loop.simps [code]
  nr_last_loop.simps [code] set_mark_loop.simps [code] count_loop.simps [code] str_from_nr_list.simps [code]
  id_find.simps [code] str_find.simps [code] idpair_find.simps [code] delete_str.simps [code]
  copy_str_list.simps [code] append_loop.simps [code]

end
