(* ===== verification/IdlistSpec.thy ===== *)
theory IdlistSpec
  imports Idlist
begin

section \<open>What the lists of strings hold\<close>

text \<open>
  A list in the store stands for the list of its entries. The operations are proved to do on the
  store what they mean on the entries, and what sharing makes of a copied and an appended list.
\<close>

subsection \<open>Chains\<close>

primrec chain :: "idheap \<Rightarrow> iaddr option \<Rightarrow> iaddr list \<Rightarrow> bool" where
  "chain h p [] \<longleftrightarrow> p = None"
| "chain h p (a # as) \<longleftrightarrow> p = Some a \<and> (\<exists>n. cells h a = Some n \<and> chain h (id_next n) as)"

lemma chain_None [simp]: "chain h None as \<longleftrightarrow> as = []"
  by (cases as) auto

lemma chain_cells: "chain h p as \<Longrightarrow> a \<in> set as \<Longrightarrow> cells h a \<noteq> None"
  by (induction as arbitrary: p) auto

lemma chain_frame: "\<forall>a\<in>set as. cells h' a = cells h a \<Longrightarrow> chain h' p as = chain h p as"
  by (induction as arbitrary: p) auto

lemma chain_unique: "chain h p as \<Longrightarrow> chain h p bs \<Longrightarrow> as = bs"
proof (induction as arbitrary: p bs)
  case Nil
  then show ?case by (cases bs) auto
next
  case (Cons a as)
  then show ?case by (cases bs) auto
qed

lemma chain_append: "chain h p (as @ b # bs) \<Longrightarrow> chain h (Some b) (b # bs)"
  by (induction as arbitrary: p) auto

lemma chain_distinct: "chain h p as \<Longrightarrow> distinct as"
proof (induction as arbitrary: p)
  case (Cons a as)
  then obtain n where n: "cells h a = Some n" "chain h (id_next n) as" by auto
  have "a \<notin> set as"
  proof
    assume "a \<in> set as"
    then obtain bs cs where as: "as = bs @ a # cs" by (metis split_list)
    then have "chain h (Some a) (a # cs)" using n(2) chain_append by blast
    moreover have "chain h (Some a) (a # as)" using n by simp
    ultimately have "a # cs = a # as" by (rule chain_unique)
    then show False using as by simp
  qed
  with Cons n show ?case by simp
qed simp

lemma last_cell_chain: "chain h (Some a) as \<Longrightarrow> last_cell h a = Some (last as) \<and> as \<noteq> []"
proof (induction as arbitrary: a)
  case (Cons b as)
  then obtain n where "b = a" "cells h a = Some n" "chain h (id_next n) as" by auto
  with Cons.IH show ?case by (cases "id_next n") (auto simp: last_cell.simps [of h a])
qed simp

lemma chain_link:
  "chain h (Some b) (as @ [l]) \<Longrightarrow> a \<notin> set (as @ [l]) \<Longrightarrow> cells h a = Some n \<Longrightarrow> id_next n = None \<Longrightarrow>
     cells h l = Some m \<Longrightarrow> chain (h\<lparr>cells := (cells h)(l \<mapsto> m\<lparr>id_next := Some a\<rparr>)\<rparr>) (Some b) (as @ [l, a])"
proof (induction as arbitrary: b)
  case Nil
  then show ?case by auto
next
  case (Cons c as)
  have "distinct (c # as @ [l])" using chain_distinct [OF Cons.prems(1)] by simp
  moreover obtain k where k: "c = b" "cells h c = Some k" "chain h (id_next k) (as @ [l])" using Cons.prems(1) by auto
  moreover obtain d where "id_next k = Some d" using k(3) by (cases "id_next k") auto
  ultimately show ?case using Cons.IH [of d] Cons.prems by auto
qed

subsection \<open>Entries\<close>

definition entry :: "idheap \<Rightarrow> iaddr \<Rightarrow> (string \<times> id_val) option" where
  "entry h a = (case cells h a of None \<Rightarrow> None | Some n \<Rightarrow> map_option (\<lambda>s. (s, id_val n)) (str_of h n))"

definition chain_of :: "idheap \<Rightarrow> iaddr option \<Rightarrow> iaddr list \<Rightarrow> (string \<times> id_val) list \<Rightarrow> bool" where
  "chain_of h p as es \<longleftrightarrow> chain h p as \<and> map (entry h) as = map Some es"

lemma chain_of_Nil [simp]: "chain_of h p [] es \<longleftrightarrow> p = None \<and> es = []"
  by (auto simp: chain_of_def)

lemma chain_of_Cons: "chain_of h p (a # as) es \<longleftrightarrow> p = Some a
    \<and> (\<exists>n s es'. cells h a = Some n \<and> str_of h n = Some s \<and> es = (s, id_val n) # es' \<and> chain_of h (id_next n) as es')"
  by (auto simp: chain_of_def entry_def split: option.splits)

lemma chain_of_length: "chain_of h p as es \<Longrightarrow> length as = length es"
  unfolding chain_of_def by (metis length_map)

definition wf_heap :: "idheap \<Rightarrow> bool" where
  "wf_heap h \<longleftrightarrow> (\<forall>a. cells h a \<noteq> None \<longrightarrow> a < next_cell h) \<and> (\<forall>a. strs h a \<noteq> None \<longrightarrow> a < next_str h)"

text \<open>The list at \<open>p\<close> holds the entries \<open>es\<close>.\<close>

definition is_list :: "idheap \<Rightarrow> iaddr option \<Rightarrow> (string \<times> id_val) list \<Rightarrow> bool" where
  "is_list h p es \<longleftrightarrow> (\<exists>as. chain_of h p as es)"

subsection \<open>Adding\<close>

lemma save_str_list:
  assumes w: "wf_heap h" and l: "is_list h p es"
  obtains a p' h' where "save_str h p (Some s) st = Some (a, p', h')" "wf_heap h'"
    "is_list h' p' (es @ [(s, Status 0 st)])" "entry h' a = Some (s, Status 0 st)"
proof -
  obtain as where as: "chain_of h p as es" using l unfolding is_list_def by blast
  define sa where "sa = next_str h"
  define a where "a = next_cell h"
  define nd where "nd = \<lparr>id_str = Some sa, id_val = Status 0 st, id_next = None\<rparr>"
  define h2 where "h2 = h\<lparr>strs := (strs h)(sa \<mapsto> s), next_str := sa + 1, cells := (cells h)(a \<mapsto> nd), next_cell := a + 1\<rparr>"
  have r: "save_str h p (Some s) st = map_option (\<lambda>(p', h'). (a, p', h')) (link_end h2 p a)"
    by (auto simp: save_str_def xstrdup_def new_str_def save_str_quick_def new_cell_def Let_def h2_def nd_def a_def sa_def
        split: bind_splits)
  have fresh: "cells h a = None" "strs h sa = None" using w unfolding wf_heap_def a_def sa_def by blast+
  have old: "a \<notin> set as" "\<forall>b\<in>set as. cells h2 b = cells h b" "\<forall>b\<in>set as. entry h2 b = entry h b"
  proof -
    have c: "chain h p as" using as by (simp add: chain_of_def)
    then show n: "a \<notin> set as" using chain_cells fresh(1) by blast
    then show e: "\<forall>b\<in>set as. cells h2 b = cells h b" by (auto simp: h2_def)
    have "map (entry h) as = map Some es" using as by (simp add: chain_of_def)
    then have "\<forall>b\<in>set as. entry h b \<noteq> None" by (metis in_set_conv_nth length_map nth_map option.distinct(1))
    then show "\<forall>b\<in>set as. entry h2 b = entry h b"
      using e fresh(2) by (auto simp: entry_def str_of_def h2_def Option.bind_eq_Some_conv split: option.splits bind_splits)
  qed
  have c2: "chain h2 p as" using chain_frame [OF old(2)] as by (simp add: chain_of_def)
  have ent: "entry h2 a = Some (s, Status 0 st)" by (simp add: entry_def str_of_def h2_def nd_def)
  have w2: "wf_heap h2" using w by (auto simp: wf_heap_def h2_def a_def sa_def less_SucI)
  show ?thesis
  proof (cases p)
    case None
    then have "as = []" "es = []" using as by (auto simp: chain_of_def)
    then show ?thesis
      using r w2 ent None
      by (intro that [of a "Some a" h2]) (auto simp: link_end_def is_list_def chain_of_Cons h2_def nd_def entry_def
          intro!: exI [of _ "[a]"] split: option.splits)
  next
    case (Some b)
    obtain as' l where l: "as = as' @ [l]" "last_cell h2 b = Some l"
      using last_cell_chain [of h2 b as] c2 Some by (metis append_butlast_last_id)
    obtain m where m: "cells h2 l = Some m" using chain_cells [OF c2, of l] l(1) by auto
    define h3 where "h3 = h2\<lparr>cells := (cells h2)(l \<mapsto> m\<lparr>id_next := Some a\<rparr>)\<rparr>"
    have "link_end h2 p a = Some (p, h3)" by (simp add: Some link_end_def l(2) upd_cell_def m h3_def)
    moreover have "chain h3 p (as @ [a])"
      using chain_link [of h2 b as' l a nd m] c2 old(1) m Some l(1) by (simp add: h3_def h2_def nd_def)
    moreover have e3: "entry h3 c = entry h2 c" for c
      using m by (auto simp: entry_def h3_def str_of_def split: option.splits)
    moreover have "map (entry h3) as = map (entry h) as" using old(3) e3 by auto
    then have "map (entry h3) as = map Some es" using as unfolding chain_of_def by (simp only:)
    moreover have "wf_heap h3" using w2 m by (auto simp: wf_heap_def h3_def)
    ultimately show ?thesis
      using r as old(3) ent
      by (intro that [of a p h3]) (auto simp: is_list_def chain_of_def simp del: map_eq_conv intro!: exI [of _ "as @ [a]"])
  qed
qed

subsection \<open>Searching\<close>

definition matches :: "bool \<Rightarrow> string \<Rightarrow> string \<Rightarrow> bool" where
  "matches caseblind str t = (if caseblind then strcaseeq str t else str = t)"

lemma str_in_list_eq:
  "chain_of h p as es \<Longrightarrow>
     str_in_list h p str cb = Some (map_option fst (List.find (\<lambda>(a, t, v). matches cb str t) (zip as es)))"
proof (induction as arbitrary: p es)
  case Nil
  then show ?case by (simp add: str_in_list.simps [of h None])
next
  case (Cons a as)
  then show ?case by (auto simp: chain_of_Cons str_in_list.simps [of h "Some a"] matches_def)
qed

lemma chain_of_ConsE:
  assumes "chain_of h p (a # as) es"
  obtains n s es' where "p = Some a" "cells h a = Some n" "str_of h n = Some s" "es = (s, id_val n) # es'"
    "chain_of h (id_next n) as es'"
  using assms by (auto simp: chain_of_Cons)

definition first_pos :: "string \<Rightarrow> string list \<Rightarrow> int" where
  "first_pos str ts = (if str \<in> set ts then int (length (takeWhile (\<lambda>t. t \<noteq> str) ts)) else -1)"

lemma nr_loop_eq:
  "chain_of h p as es \<Longrightarrow> nr_loop h p str nr =
     Some (if str \<in> set (map fst es) then nr + int (length (takeWhile (\<lambda>t. t \<noteq> str) (map fst es))) else -1)"
proof (induction as arbitrary: p es nr)
  case Nil
  then show ?case by (simp add: nr_loop.simps [of h None])
next
  case (Cons a as)
  obtain n s es' where c: "p = Some a" "cells h a = Some n" "str_of h n = Some s" "es = (s, id_val n) # es'"
    "chain_of h (id_next n) as es'" by (rule chain_of_ConsE [OF Cons.prems(1)])
  show ?case
    using Cons.IH [OF c(5)] c by (cases "str = s") (simp_all add: nr_loop.simps [of h "Some a"])
qed

definition last_pos :: "string \<Rightarrow> string list \<Rightarrow> nat" where
  "last_pos str ts = length ts - 1 - length (takeWhile (\<lambda>t. t \<noteq> str) (rev ts))"

lemma takeWhile_less: "x \<in> set xs \<Longrightarrow> \<not> P x \<Longrightarrow> length (takeWhile P xs) < length xs"
  by (induction xs) auto

lemma last_pos_Cons:
  "last_pos str (t # ts) = (if str \<in> set ts then last_pos str ts + 1 else if str = t then 0 else last_pos str (t # ts))"
proof (cases "str \<in> set ts")
  case True
  then have "length (takeWhile (\<lambda>t. t \<noteq> str) (rev ts)) < length ts"
    using takeWhile_less [of str "rev ts" "\<lambda>t. t \<noteq> str"] by simp
  with True show ?thesis by (simp add: last_pos_def)
next
  case False
  then have "takeWhile (\<lambda>t. t \<noteq> str) (rev ts @ [str]) = rev ts" by (subst takeWhile_append2) auto
  then have "str = t \<Longrightarrow> last_pos str (t # ts) = 0" by (simp add: last_pos_def)
  with False show ?thesis by (cases "str = t") simp_all
qed

lemma nr_last_loop_eq:
  "chain_of h p as es \<Longrightarrow> nr_last_loop h p str nr ret =
     Some (if str \<in> set (map fst es) then nr + int (last_pos str (map fst es)) else ret)"
proof (induction as arbitrary: p es nr ret)
  case Nil
  then show ?case by (simp add: nr_last_loop.simps [of h None])
next
  case (Cons a as)
  obtain n s es' where c: "p = Some a" "cells h a = Some n" "str_of h n = Some s" "es = (s, id_val n) # es'"
    "chain_of h (id_next n) as es'" by (rule chain_of_ConsE [OF Cons.prems(1)])
  show ?case
    using Cons.IH [OF c(5)] c last_pos_Cons [of str s "map fst es'"]
    by (cases "str \<in> set (map fst es')"; cases "str = s") (simp_all add: nr_last_loop.simps [of h "Some a"])
qed

lemma str_from_nr_list_eq:
  "chain_of h p as es \<Longrightarrow> 0 \<le> k \<Longrightarrow> nat k < length es \<Longrightarrow>
     \<exists>sa. str_from_nr_list h p k = Some (Some sa) \<and> strs h sa = Some (fst (es ! nat k))"
proof (induction as arbitrary: p es k)
  case (Cons a as)
  then obtain n s es' where c: "p = Some a" "cells h a = Some n" "str_of h n = Some s" "es = (s, id_val n) # es'"
    "chain_of h (id_next n) as es'" by (auto simp: chain_of_Cons)
  show ?case
  proof (cases "k = 0")
    case True
    then show ?thesis using c by (auto simp: str_from_nr_list.simps [of h "Some a"] str_of_def Option.bind_eq_Some_conv)
  next
    case False
    then have "nat k = Suc (nat (k - 1))" using Cons.prems(2) by simp
    then show ?thesis using Cons.IH [OF c(5), of "k - 1"] Cons.prems False c
      by (auto simp: str_from_nr_list.simps [of h "Some a"])
  qed
qed simp

lemma count_loop_eq: "chain_of h p as es \<Longrightarrow> count_loop h p i = Some (i + int (length es))"
proof (induction as arbitrary: p es i)
  case Nil
  then show ?case by (simp add: count_loop.simps [of h None])
next
  case (Cons a as)
  then show ?case by (auto simp: chain_of_Cons count_loop.simps [of h "Some a"])
qed

subsection \<open>Copies\<close>

definition str_addr :: "idheap \<Rightarrow> iaddr \<Rightarrow> iaddr option" where
  "str_addr h a = cells h a \<bind> id_str"

lemma str_of_cong: "strs h' = strs h \<Longrightarrow> str_of h' = str_of h"
  by (rule ext) (simp add: str_of_def)

lemma entry_frame: "cells h' a = cells h a \<Longrightarrow> strs h' = strs h \<Longrightarrow> entry h' a = entry h a"
  using str_of_cong [of h' h] by (simp add: entry_def split: option.splits)

lemma chain_of_frame: "\<forall>a\<in>set as. cells h' a = cells h a \<Longrightarrow> strs h' = strs h \<Longrightarrow> chain_of h p as es \<Longrightarrow> chain_of h' p as es"
  using chain_frame [of as h' h p] entry_frame [of h' _ h] unfolding chain_of_def by (metis map_cong)

lemma copy_list:
  "chain_of h p as es \<Longrightarrow> wf_heap h \<Longrightarrow> \<exists>q h' bs. copy_str_list h p = Some (q, h') \<and> chain_of h' q bs es \<and> wf_heap h'
     \<and> (\<forall>a<next_cell h. cells h' a = cells h a) \<and> strs h' = strs h \<and> next_cell h \<le> next_cell h'
     \<and> (\<forall>b\<in>set bs. next_cell h \<le> b) \<and> map (str_addr h') bs = map (str_addr h) as"
proof (induction as arbitrary: h p es)
  case Nil
  then show ?case by (auto simp: copy_str_list.simps [of h None])
next
  case (Cons a as)
  obtain n s es' where c: "p = Some a" "cells h a = Some n" "str_of h n = Some s" "es = (s, id_val n) # es'"
    "chain_of h (id_next n) as es'" by (rule chain_of_ConsE [OF Cons.prems(1)])
  define v where "v = next_cell h"
  define h1 where "h1 = h\<lparr>cells := (cells h)(v \<mapsto> n), next_cell := v + 1\<rparr>"
  have fresh: "cells h v = None" using Cons.prems(2) unfolding wf_heap_def v_def by blast
  have w1: "wf_heap h1" using Cons.prems(2) by (auto simp: wf_heap_def h1_def v_def less_SucI)
  have as: "chain h (id_next n) as" using c(5) by (simp add: chain_of_def)
  then have out: "v \<notin> set as" "\<forall>b\<in>set as. b < v"
    using chain_cells [OF as] Cons.prems(2) fresh unfolding wf_heap_def v_def by (blast, blast)
  then have c1: "chain_of h1 (id_next n) as es'"
    using chain_of_frame [OF _ _ c(5), of h1] by (auto simp: h1_def)
  obtain q h2 bs where IH: "copy_str_list h1 (id_next n) = Some (q, h2)" "chain_of h2 q bs es'" "wf_heap h2"
    "\<forall>a<next_cell h1. cells h2 a = cells h1 a" "strs h2 = strs h1" "next_cell h1 \<le> next_cell h2"
    "\<forall>b\<in>set bs. next_cell h1 \<le> b" "map (str_addr h2) bs = map (str_addr h1) as"
    using Cons.IH [OF c1 w1] by blast
  have v2: "cells h2 v = Some n" using IH(4) by (simp add: h1_def)
  define h3 where "h3 = h2\<lparr>cells := (cells h2)(v \<mapsto> n\<lparr>id_next := q\<rparr>)\<rparr>"
  have nc: "new_cell h n = (v, h1)" by (simp add: new_cell_def v_def h1_def)
  have "copy_str_list h p = Some (Some v, h3)"
    unfolding c(1) h3_def by (subst copy_str_list.simps) (simp add: c(2) nc IH(1) upd_cell_def v2)
  moreover have vb: "v \<notin> set bs" using IH(7) by (auto simp: h1_def)
  then have "chain_of h3 q bs es'" using chain_of_frame [OF _ _ IH(2), of h3] by (auto simp: h3_def)
  then have "chain_of h3 (Some v) (v # bs) es"
    using c(3,4) IH(5) by (simp add: chain_of_Cons h3_def h1_def str_of_def)
  moreover have "wf_heap h3" using IH(3) v2 by (auto simp: wf_heap_def h3_def)
  moreover have "\<forall>a<next_cell h. cells h3 a = cells h a" using IH(4) by (simp add: h3_def h1_def v_def)
  moreover have "map (str_addr h3) (v # bs) = map (str_addr h) (a # as)"
  proof -
    have "map (str_addr h3) bs = map (str_addr h2) bs" using vb by (auto simp: str_addr_def h3_def)
    moreover have "map (str_addr h1) as = map (str_addr h) as" using out by (auto simp: str_addr_def h1_def)
    ultimately show ?thesis using IH(8) c(2) by (simp add: str_addr_def h3_def)
  qed
  moreover have "\<forall>b\<in>set (v # bs). next_cell h \<le> b" using IH(7) by (auto simp: h1_def v_def)
  ultimately show ?case
    using IH(5,6) by (intro exI [of _ "Some v"] exI [of _ h3] exI [of _ "v # bs"]) (simp add: h3_def h1_def v_def)
qed

subsection \<open>Freeing\<close>

lemma free_str_eq: "free_str h p = Some h1 \<Longrightarrow> cells h1 = cells h
  \<and> (\<forall>sa. p = Some sa \<longrightarrow> strs h1 sa = None) \<and> (\<forall>x. strs h x = None \<longrightarrow> strs h1 x = None)"
  by (auto simp: free_str_def split: option.splits if_splits)

lemma free_list_effect:
  "free_str_list h p = Some h' \<Longrightarrow> chain h p as \<Longrightarrow>
     (\<forall>a\<in>set as. \<forall>sa. str_addr h a = Some sa \<longrightarrow> strs h' sa = None)
     \<and> (\<forall>b. b \<notin> set as \<longrightarrow> cells h' b = cells h b) \<and> (\<forall>b\<in>set as. cells h' b = None) \<and> (\<forall>x. strs h x = None \<longrightarrow> strs h' x = None)"
proof (induction as arbitrary: h p)
  case Nil
  then show ?case by (simp add: free_str_list.simps [of h None])
next
  case (Cons a as)
  then obtain n where n: "p = Some a" "cells h a = Some n" "chain h (id_next n) as" by auto
  obtain h1 where h1: "free_str h (id_str n) = Some h1" "free_str_list (h1\<lparr>cells := (cells h1)(a := None)\<rparr>) (id_next n) = Some h'"
    using Cons.prems(1) n by (auto simp: free_str_list.simps [of h "Some a"] free_cell_def split: option.splits if_splits)
  note f = free_str_eq [OF h1(1)]
  have d: "a \<notin> set as" using chain_distinct [OF Cons.prems(2)] by simp
  define h2 where "h2 = h1\<lparr>cells := (cells h1)(a := None)\<rparr>"
  have "chain h2 (id_next n) as" using chain_frame [of as h2 h] d f n(3) by (auto simp: h2_def)
  note IH = Cons.IH [OF h1(2) [folded h2_def] this]
  have "str_addr h2 b = str_addr h b" if "b \<in> set as" for b using that d f by (auto simp: str_addr_def h2_def)
  moreover have "strs h' sa = None" if "str_addr h a = Some sa" for sa
    using that n(2) f IH by (auto simp: str_addr_def h2_def)
  ultimately show ?case using IH f d by (auto simp: h2_def)
qed

lemma copy_shares:
  assumes "chain_of h p as es" "es \<noteq> []" "wf_heap h" "copy_str_list h p = Some (q, h1)" "free_str_list h1 p = Some h2"
  shows "free_str_list h2 q = None"
proof -
  obtain bs where b: "chain_of h1 q bs es" "\<forall>a<next_cell h. cells h1 a = cells h a" "strs h1 = strs h"
    "\<forall>b\<in>set bs. next_cell h \<le> b" "map (str_addr h1) bs = map (str_addr h) as"
    using copy_list [OF assms(1,3)] assms(4) by auto
  have c: "chain h p as" using assms(1) by (simp add: chain_of_def)
  have old: "\<forall>a\<in>set as. a < next_cell h" using chain_cells [OF c] assms(3) by (auto simp: wf_heap_def)
  then have c1: "chain h1 p as" using chain_frame [of as h1 h p] c b(2) by auto
  obtain a0 as' b0 bs' where l: "as = a0 # as'" "bs = b0 # bs'"
    using chain_of_length [OF assms(1)] chain_of_length [OF b(1)] assms(2) by (cases as; cases bs) auto
  obtain n s es' where n: "q = Some b0" "cells h1 b0 = Some n" "str_of h1 n = Some s"
    using chain_of_ConsE [OF b(1) [unfolded l(2)]] by metis
  then obtain sa where sa: "id_str n = Some sa" by (auto simp: str_of_def Option.bind_eq_Some_conv)
  have "str_addr h1 a0 = Some sa" using b(2,5) old n(2) sa by (simp add: l str_addr_def)
  moreover have "b0 \<notin> set as" "a0 \<in> set as" using old b(4) by (auto simp: l)
  ultimately have "strs h2 sa = None" "cells h2 b0 = Some n"
    using free_list_effect [OF assms(5) c1] n(2) by auto
  then show ?thesis unfolding n(1) by (subst free_str_list.simps) (simp add: sa free_str_def)
qed

subsection \<open>Appending\<close>

lemma append_loop_again: "chain h (Some a) (as @ b # bs) \<Longrightarrow> as \<noteq> [] \<Longrightarrow> append_loop h a b = Some h"
proof (induction as arbitrary: a)
  case (Cons c as)
  have d: "distinct (c # as @ b # bs)" using chain_distinct [OF Cons.prems(1)] by simp
  obtain n where n: "c = a" "cells h a = Some n" "chain h (id_next n) (as @ b # bs)" using Cons.prems(1) by auto
  show ?case
  proof (cases as)
    case Nil
    then have "id_next n = Some b" using n(3) by simp
    then show ?thesis using n(2) by (subst append_loop.simps) simp
  next
    case as: (Cons e as')
    then have e: "id_next n = Some e" "e \<noteq> b" "a \<noteq> b" using n d by auto
    have "append_loop h e b = Some h" using Cons.IH [of e] n(3) e(1) as by simp
    then show ?thesis using n(2) e by (subst append_loop.simps) simp
  qed
qed simp

lemma append_loop_link:
  "chain h (Some a) (as @ [l]) \<Longrightarrow> b \<notin> set (as @ [l]) \<Longrightarrow> cells h l = Some m \<Longrightarrow>
     append_loop h a b = Some (h\<lparr>cells := (cells h)(l \<mapsto> m\<lparr>id_next := Some b\<rparr>)\<rparr>)"
proof (induction as arbitrary: a)
  case Nil
  then have "a = l" "id_next m = None" "l \<noteq> b" by auto
  with Nil.prems(3) show ?case by (subst append_loop.simps) simp
next
  case (Cons c as)
  obtain n where n: "c = a" "cells h a = Some n" "chain h (id_next n) (as @ [l])" using Cons.prems(1) by auto
  obtain e where e: "id_next n = Some e" using n(3) by (cases "id_next n") auto
  have "e \<in> set (as @ [l])" using n(3) e by (cases as) auto
  then have nb: "e \<noteq> b" "a \<noteq> b" using Cons.prems(2) n(1) by auto
  have "append_loop h e b = Some (h\<lparr>cells := (cells h)(l \<mapsto> m\<lparr>id_next := Some b\<rparr>)\<rparr>)"
    using Cons.IH [of e] n(3) e Cons.prems(2,3) by (simp del: fun_upd_apply)
  then show ?case using n(2) e nb by (subst append_loop.simps) simp
qed

lemma chain_linked:
  "chain h (Some a) (as @ [l]) \<Longrightarrow> chain h (Some b) bs \<Longrightarrow> set bs \<inter> set (as @ [l]) = {} \<Longrightarrow> cells h l = Some m \<Longrightarrow>
     chain (h\<lparr>cells := (cells h)(l \<mapsto> m\<lparr>id_next := Some b\<rparr>)\<rparr>) (Some a) (as @ l # bs)"
proof (induction as arbitrary: a)
  case Nil
  have "chain (h\<lparr>cells := (cells h)(l \<mapsto> m\<lparr>id_next := Some b\<rparr>)\<rparr>) (Some b) bs = chain h (Some b) bs"
    using Nil.prems(3) by (intro chain_frame) auto
  with Nil show ?case by (auto simp del: fun_upd_apply simp: fun_upd_same)
next
  case (Cons c as)
  have "distinct (c # as @ [l])" using chain_distinct [OF Cons.prems(1)] by simp
  then have cl: "c \<noteq> l" by auto
  obtain k where k: "c = a" "cells h c = Some k" "chain h (id_next k) (as @ [l])" using Cons.prems(1) by auto
  obtain e where e: "id_next k = Some e" using k(3) by (cases "id_next k") auto
  have "chain (h\<lparr>cells := (cells h)(l \<mapsto> m\<lparr>id_next := Some b\<rparr>)\<rparr>) (Some e) (as @ l # bs)"
    using Cons.IH [of e] k(3) e Cons.prems(2,3,4) by (simp del: fun_upd_apply)
  then show ?case using k(1,2) cl e by (simp del: fun_upd_apply add: fun_upd_other)
qed

lemma append_list:
  assumes p: "chain_of h (Some a) as es" and q: "chain_of h (Some b) bs fs" and dis: "set as \<inter> set bs = {}"
  obtains h' where "append_str_list h (Some a) (Some b) = Some (Some a, h')" "chain_of h' (Some a) (as @ bs) (es @ fs)"
    "append_str_list h' (Some a) (Some b) = Some (Some a, h')"
proof -
  have c: "chain h (Some a) as" "chain h (Some b) bs" using p q by (simp_all add: chain_of_def)
  obtain as' l where l: "as = as' @ [l]" using last_cell_chain [OF c(1)] by (metis append_butlast_last_id)
  obtain bs' where bs: "bs = b # bs'" using c(2) by (cases bs) auto
  obtain m where m: "cells h l = Some m" using chain_cells [OF c(1), of l] l by auto
  define h' where "h' = h\<lparr>cells := (cells h)(l \<mapsto> m\<lparr>id_next := Some b\<rparr>)\<rparr>"
  have "append_loop h a b = Some h'"
    unfolding h'_def using c(1) dis bs m unfolding l by (intro append_loop_link) auto
  moreover have ch: "chain h' (Some a) (as @ bs)"
    using chain_linked [of h a as' l b bs m] c dis m unfolding l h'_def by auto
  moreover have "entry h' x = entry h x" for x using m by (auto simp: entry_def h'_def str_of_def split: option.splits)
  then have "map (entry h') xs = map (entry h) xs" for xs by simp
  then have "chain_of h' (Some a) (as @ bs) (es @ fs)" using ch p q by (simp add: chain_of_def del: map_eq_conv)
  moreover have "append_loop h' a b = Some h'" using append_loop_again [of h' a as b bs'] ch bs l by simp
  ultimately show ?thesis by (intro that [of h']) (simp_all add: append_str_list_def)
qed

subsection \<open>The lists of the program\<close>

definition heap0 :: idheap where
  "heap0 = \<lparr>strs = (\<lambda>_. None), cells = (\<lambda>_. None), next_str = 0, next_cell = 0\<rparr>"

text \<open>Saving the strings \<open>ss\<close> with their marks one after the other.\<close>

fun save_all :: "idheap \<Rightarrow> iaddr option \<Rightarrow> (string \<times> int) list \<Rightarrow> (iaddr option \<times> idheap) option" where
  "save_all h p [] = Some (p, h)"
| "save_all h p ((s, st) # ss) = save_str h p (Some s) st \<bind> (\<lambda>(a, p1, h1). save_all h1 p1 ss)"

lemma wf_heap0 [simp]: "wf_heap heap0"
  by (simp add: wf_heap_def heap0_def)

lemma is_list_None [simp]: "is_list h None es \<longleftrightarrow> es = []"
  by (auto simp: is_list_def chain_of_def)

lemma save_all_list:
  "wf_heap h \<Longrightarrow> is_list h p es \<Longrightarrow>
     \<exists>p' h'. save_all h p ss = Some (p', h') \<and> wf_heap h' \<and> is_list h' p' (es @ map (\<lambda>(s, st). (s, Status 0 st)) ss)"
proof (induction ss arbitrary: h p es)
  case (Cons x ss)
  obtain s st where x: "x = (s, st)" by (cases x)
  obtain a p1 h1 where 1: "save_str h p (Some s) st = Some (a, p1, h1)" "wf_heap h1"
    "is_list h1 p1 (es @ [(s, Status 0 st)])"
    using save_str_list [OF Cons.prems, of s st] by metis
  show ?case using Cons.IH [OF 1(2,3)] 1(1) by (auto simp: x)
qed auto

lemma save_all_search:
  assumes "save_all heap0 None ss = Some (p, h)"
  shows "count_list h p = Some (int (length ss))"
    "str_nr_in_list h p (Some s) = Some (first_pos s (map fst ss))"
    "k < length ss \<Longrightarrow> \<exists>sa. str_from_nr_list h p (int k) = Some (Some sa) \<and> strs h sa = Some (fst (ss ! k))"
proof -
  let ?es = "map (\<lambda>(s, st). (s, Status 0 st)) ss"
  have "is_list h p ?es" using save_all_list [of heap0 None "[]" ss] assms by simp
  then obtain as where as: "chain_of h p as ?es" unfolding is_list_def by blast
  have m: "map fst ?es = map fst ss" by (auto simp: case_prod_beta)
  show "count_list h p = Some (int (length ss))"
    using count_loop_eq [OF as] by (simp add: count_list_def)
  show "str_nr_in_list h p (Some s) = Some (first_pos s (map fst ss))"
    using nr_loop_eq [OF as, of s 0] unfolding m by (simp add: str_nr_in_list_def first_pos_def)
  show "\<exists>sa. str_from_nr_list h p (int k) = Some (Some sa) \<and> strs h sa = Some (fst (ss ! k))" if "k < length ss"
    using str_from_nr_list_eq [OF as, of "int k"] that by (simp add: case_prod_beta)
qed

subsection \<open>Properties\<close>

text \<open>\<open>save_str\<close> always returns, and what it does to a list is to append one entry with the status
  given and a copy of the string; the list before it is kept entry by entry, wherever it lies.\<close>

theorem save_str_appends:
  "wf_heap h \<Longrightarrow> is_list h p es \<Longrightarrow>
     \<exists>a p' h'. save_str h p (Some s) st = Some (a, p', h') \<and> wf_heap h' \<and> is_list h' p' (es @ [(s, Status 0 st)])
       \<and> entry h' a = Some (s, Status 0 st)"
  by (metis save_str_list)

theorem save_str_appends_witness:
  "\<exists>a p' h'. save_str heap0 None (Some ''uid'') UID_SEEN = Some (a, p', h') \<and> wf_heap h'
     \<and> is_list h' p' ([] @ [(''uid'', Status 0 UID_SEEN)]) \<and> entry h' a = Some (''uid'', Status 0 UID_SEEN)"
  by (rule save_str_appends) simp_all

text \<open>In a list that the code has built by saving the strings of \<open>ss\<close>, \<open>count_list\<close> is their number,
  \<open>str_nr_in_list\<close> is the position of the first occurrence of a string, or -1 for a string that was
  not saved, and \<open>str_from_nr_list\<close> gives back the string of a position.\<close>

theorem saved_positions:
  "case save_all heap0 None ss of
     None \<Rightarrow> False
   | Some (p, h) \<Rightarrow>
       count_list h p = Some (int (length ss))
       \<and> str_nr_in_list h p (Some s) = Some (first_pos s (map fst ss))
       \<and> list_all (\<lambda>k. (str_from_nr_list h p (int k) \<bind> (\<lambda>q. q) \<bind> strs h) = Some (fst (ss ! k))) [0..<length ss]"
proof -
  obtain p h where r: "save_all heap0 None ss = Some (p, h)"
    using save_all_list [of heap0 None "[]" ss] by auto
  have "list_all (\<lambda>k. (str_from_nr_list h p (int k) \<bind> (\<lambda>q. q) \<bind> strs h) = Some (fst (ss ! k))) [0..<length ss]"
    using save_all_search(3) [OF r] by (fastforce simp: list_all_iff)
  then show ?thesis using save_all_search(1,2) [OF r] r by simp
qed

text \<open>\<open>copy_str_list\<close> copies the elements of a list and shares their strings: after it, freeing the
  original with \<open>free_str_list\<close> makes the strings of the copy unusable, and freeing the copy too is a
  double free.\<close>

theorem copy_and_free_both:
  "chain_of h p as es \<Longrightarrow> es \<noteq> [] \<Longrightarrow> wf_heap h \<Longrightarrow> copy_str_list h p = Some (q, h1) \<Longrightarrow>
     free_str_list h1 p = Some h2 \<Longrightarrow> free_str_list h2 q = None"
  by (rule copy_shares)

definition heap1 :: idheap where
  "heap1 = \<lparr>strs = [0 \<mapsto> ''a''], cells = [0 \<mapsto> \<lparr>id_str = Some 0, id_val = Status 0 0, id_next = None\<rparr>],
     next_str = 1, next_cell = 1\<rparr>"

theorem copy_and_free_both_witness:
  "free_str_list (the (free_str_list (snd (the (copy_str_list heap1 (Some 0)))) (Some 0)))
     (fst (the (copy_str_list heap1 (Some 0)))) = None"
proof -
  note [simp] = copy_str_list.simps free_str_list.simps new_cell_def upd_cell_def heap1_def free_str_def free_cell_def
  show ?thesis
    by (rule copy_and_free_both [of heap1 "Some 0" "[0]" "[(''a'', Status 0 0)]" _ "snd (the (copy_str_list heap1 (Some 0)))"])
      (simp_all add: chain_of_Cons str_of_def wf_heap_def)
qed

text \<open>\<open>append_str_list\<close> of two lists that share no element makes the first list hold the entries of both,
  in order, and the second keep its own; appending the same list again changes nothing, where a naive
  append would make a cycle.\<close>

theorem append_str_list_idempotent:
  "chain_of h (Some a) as es \<Longrightarrow> chain_of h (Some b) bs fs \<Longrightarrow> set as \<inter> set bs = {} \<Longrightarrow>
     \<exists>h'. append_str_list h (Some a) (Some b) = Some (Some a, h') \<and> chain_of h' (Some a) (as @ bs) (es @ fs)
       \<and> append_str_list h' (Some a) (Some b) = Some (Some a, h')"
  by (metis append_list)

definition heap2 :: idheap where
  "heap2 = \<lparr>strs = [0 \<mapsto> ''a'', 1 \<mapsto> ''b''],
     cells = [0 \<mapsto> \<lparr>id_str = Some 0, id_val = Status 0 0, id_next = None\<rparr>,
              1 \<mapsto> \<lparr>id_str = Some 1, id_val = Id2 None, id_next = None\<rparr>], next_str = 2, next_cell = 2\<rparr>"

theorem append_str_list_idempotent_witness:
  "\<exists>h'. append_str_list heap2 (Some 0) (Some 1) = Some (Some 0, h')
     \<and> chain_of h' (Some 0) ([0] @ [1]) ([(''a'', Status 0 0)] @ [(''b'', Id2 None)])
     \<and> append_str_list h' (Some 0) (Some 1) = Some (Some 0, h')"
  by (rule append_str_list_idempotent) (simp_all add: chain_of_Cons str_of_def heap2_def)

end
