(* ===== verification/Stdio.thy ===== *)
theory Stdio
  imports Prelude
begin

section \<open>Reading lines and numbers\<close>

text \<open>
  What the program uses of stdio: \<open>fgets\<close> of the C library on the rest of a file, with the buffer of \<open>POPBUFSIZE\<close> cells the readers of
  netrc.c and uid.c give it, and the lines it cuts a file into.
\<close>

definition POPBUFSIZE :: nat where "POPBUFSIZE = 512"

text \<open>\<open>fgets\<close> with a buffer of \<open>n\<close> cells: the line with its line feed and the rest of the file.\<close>

definition fgets :: "nat \<Rightarrow> string \<Rightarrow> string \<times> string" where
  "fgets n s =
     (let cut = (if LF \<in> set s then length (takeWhile (\<lambda>c. c \<noteq> LF) s) + 1 else length s);
          k = min (n - 1) cut in (take k s, drop k s))"

function file_lines :: "string \<Rightarrow> string list" where
  "file_lines s = (if s = [] then [] else fst (fgets POPBUFSIZE s) # file_lines (snd (fgets POPBUFSIZE s)))"
  by pat_completeness auto
termination
  by (relation "measure length") (auto simp: fgets_def POPBUFSIZE_def Let_def min_def)

declare file_lines.simps [simp del]

lemma file_lines_Nil [simp]: "file_lines [] = []"
  by (simp add: file_lines.simps)

lemma takeWhile_line: "c \<notin> set l \<Longrightarrow> takeWhile (\<lambda>d. d \<noteq> c) (l @ c # s) = l"
  by (induction l) auto

lemma file_lines_step:
  assumes "LF \<notin> set l" "length l < 511"
  shows "file_lines (l @ LF # s) = (l @ [LF]) # file_lines s"
proof -
  have "fgets POPBUFSIZE (l @ LF # s) = (l @ [LF], s)"
    using assms(2) takeWhile_line [OF assms(1)] by (simp add: fgets_def POPBUFSIZE_def Let_def min_absorb2)
  then show ?thesis by (simp add: file_lines.simps [of "l @ _"])
qed

text \<open>No line is empty and together they are the file.\<close>

lemma concat_file_lines: "concat (file_lines s) = s"
proof (induction s rule: file_lines.induct)
  case (1 s)
  then show ?case by (cases "s = []") (simp_all add: file_lines.simps [of s] fgets_def Let_def)
qed

subsection \<open>Numbers\<close>

text \<open>
  \<open>strtoul\<close> with base 10 on a text without leading white space, for an \<open>unsigned long\<close> of 64 bits: the
  value, whether it was out of range, and the rest of the text; \<open>None\<close> when there is no digit. The
  conversions \<open>%d\<close> and \<open>%u\<close> of \<open>sscanf\<close> read a number after white space; one that does not fit is
  cut to 64 bits and then to 32, as the GNU library does (the standard leaves it undefined).
\<close>

definition digits_val :: "string \<Rightarrow> nat" where
  "digits_val ds = foldl (\<lambda>n c. 10 * n + (code c - 48)) 0 ds"

definition sign_split :: "string \<Rightarrow> bool \<times> string" where
  "sign_split s = (if s \<noteq> [] \<and> hd s = CHR ''-'' then (True, tl s)
     else if s \<noteq> [] \<and> hd s = CHR ''+'' then (False, tl s) else (False, s))"

definition scan_number :: "string \<Rightarrow> (bool \<times> nat \<times> string) option" where
  "scan_number s =
     (let (neg, s1) = sign_split s; ds = takeWhile isdigit s1 in
      if ds = [] then None else Some (neg, digits_val ds, dropWhile isdigit s1))"

definition strtoul :: "string \<Rightarrow> (64 word \<times> bool \<times> string) option" where
  "strtoul s =
     (case scan_number s of
        None \<Rightarrow> None
      | Some (neg, n, r) \<Rightarrow>
          Some (if n \<ge> 2 ^ 64 then (-1, True, r) else (if neg then - of_nat n else of_nat n, False, r)))"

definition scan_d :: "string \<Rightarrow> (int \<times> string) option" where
  "scan_d s =
     (case scan_number (dropWhile isspace s) of
        None \<Rightarrow> None
      | Some (neg, n, r) \<Rightarrow>
          let v = max (- (2 ^ 63)) (min (2 ^ 63 - 1) (if neg then - int n else int n)) in
          Some (sint (word_of_int v :: u32), r))"

definition scan_u :: "string \<Rightarrow> (u32 \<times> string) option" where
  "scan_u s =
     (case strtoul (dropWhile isspace s) of None \<Rightarrow> None | Some (v, _, r) \<Rightarrow> Some (ucast v, r))"

end
