(* ===== verification/Uid.thy ===== *)
theory Uid
  imports UidApi IdlistSpec Stdio
begin

section \<open>The saved identifiers of the hosts (uid.c)\<close>

text \<open>
  A query keeps two databases, each with the store its pointers point to, as no record is shared
  between databases; \<open>scratchlist\<close> is a list in the store of the lists of strings. The file is the
  string of its content. What the system can refuse (opening, writing, flushing and renaming a file,
  removing one) is an argument of the model. The reports at debug level are left out.
\<close>

type_synonym uid_store = "heap \<times> uid_db"

record query =
  queryname :: string
  remotename :: string
  skipped :: "iaddr option"
  oldsaved :: uid_store
  newsaved :: uid_store

record uid_lists =
  scratchlist :: "iaddr option"
  scratch_heap :: idheap

definition PS_IOERR :: int where "PS_IOERR = 6"

subsection \<open>Reading the file\<close>

text \<open>The walk of \<open>delimp1\<close> back from the blank at \<open>i\<close> over blanks: the offset behind the token.\<close>

fun delim_end :: "string \<Rightarrow> nat \<Rightarrow> nat" where
  "delim_end s 0 = (if char_at s 0 \<noteq> SP \<and> char_at s 0 \<noteq> TAB then 1 else 0)"
| "delim_end s (Suc i) =
     (if char_at s (Suc i) \<noteq> SP \<and> char_at s (Suc i) \<noteq> TAB then Suc (Suc i) else delim_end s i)"

text \<open>
  One line split into the user, the host and the identifier. The inner \<open>None\<close> is a line without
  them; the outer one would be the null pointer that \<open>strrchr\<close> can give. The line itself is restored
  before it is saved, so that it is not changed here.
\<close>

definition split_saved :: "string \<Rightarrow> (string \<times> string \<times> string) option option" where
  "split_saved buf =
     (let user = drop (strspn buf ('' '' @ [TAB])) buf in
      case strchr user CHR ''@'' of
        None \<Rightarrow> Some None
      | Some at \<Rightarrow>
          (case strchr (drop at user) SP of
             None \<Rightarrow> Some None
           | Some k \<Rightarrow>
               let sp = at + k;
                   delimp1 = delim_end user sp;
                   id = drop (sp + strspn (drop sp user) '' '') user;
                   token = take delimp1 user;
                   id = take (strcspn id ('' '' @ [TAB, LF])) id in
               (case strrchr token CHR ''@'' of
                  None \<Rightarrow> None
                | Some atsign \<Rightarrow> Some (Some (take atsign token, drop (Suc atsign) token, id)))))"

definition db_insert :: "uid_store \<Rightarrow> string \<Rightarrow> int \<Rightarrow> uid_store option" where
  "db_insert st ident status =
     (case st of (h, db) \<Rightarrow> map_option (\<lambda>(a, h1, db1). (h1, db1)) (uid_db_insert h db ident (of_int status)))"

text \<open>The search for the query of a line; \<open>Some None\<close> when the walk reaches the end of the list.\<close>

fun insert_saved :: "query list \<Rightarrow> string \<Rightarrow> string \<Rightarrow> string \<Rightarrow> query list option option" where
  "insert_saved [] user host ident = Some None"
| "insert_saved (ctl # qs) user host ident =
     (if strcaseeq host (queryname ctl) \<and> strcaseeq user (remotename ctl) then
        map_option (\<lambda>st. Some (ctl\<lparr>oldsaved := st\<rparr> # qs)) (db_insert (oldsaved ctl) ident UID_SEEN)
      else map_option (map_option (\<lambda>qs1. ctl # qs1)) (insert_saved qs user host ident))"

definition saved_line :: "string \<Rightarrow> query list \<times> uid_lists \<Rightarrow> (query list \<times> uid_lists) option" where
  "saved_line line = (\<lambda>(hosts, ls).
     let buf = cstr_of line in
     case split_saved buf of
       None \<Rightarrow> None
     | Some None \<Rightarrow> Some (hosts, ls)
     | Some (Some (user, host, ident)) \<Rightarrow>
         (case insert_saved hosts user host ident of
            None \<Rightarrow> None
          | Some (Some hosts1) \<Rightarrow> Some (hosts1, ls)
          | Some None \<Rightarrow> do {
              (a, sl, h) \<leftarrow> save_str (scratch_heap ls) (scratchlist ls) (Some buf) UID_SEEN;
              Some (hosts, ls\<lparr>scratchlist := sl, scratch_heap := h\<rparr>)
            }))"

function saved_lines :: "string \<Rightarrow> query list \<times> uid_lists \<Rightarrow> (query list \<times> uid_lists) option" where
  "saved_lines s st =
     (if s = [] then Some st
      else
        let (line, r) = fgets POPBUFSIZE s in
        (case saved_line line st of None \<Rightarrow> None | Some st1 \<Rightarrow> saved_lines r st1))"
  by pat_completeness auto
termination
  by (relation "measure (\<lambda>(s, st). length s)") (auto simp: fgets_def POPBUFSIZE_def Let_def min_def)

declare saved_lines.simps [simp del]

text \<open>
  \<open>file\<close> is the content of the file, \<open>None\<close> when it cannot be opened; \<open>notdir\<close> says that \<open>lstat\<close>
  fails with \<open>ENOTDIR\<close>. The left result is the code of \<open>exit\<close>.
\<close>

definition initialize_saved_lists ::
  "query list \<Rightarrow> bool \<Rightarrow> string option \<Rightarrow> uid_lists \<Rightarrow> (int + query list \<times> uid_lists) option" where
  "initialize_saved_lists hostlist notdir file ls =
     (let hosts = map (\<lambda>ctl. ctl\<lparr>skipped := None, oldsaved := (fst (oldsaved ctl), init_uid_db),
                               newsaved := (fst (newsaved ctl), init_uid_db)\<rparr>) hostlist in
      if notdir then Some (Inl PS_IOERR)
      else
        (case file of
           None \<Rightarrow> Some (Inr (hosts, ls))
         | Some s \<Rightarrow> map_option Inr (saved_lines s (hosts, ls))))"

subsection \<open>Operations on the lists of a query\<close>

definition mark_as_expunged_if :: "addr \<Rightarrow> heap \<Rightarrow> (int \<times> heap) option" where
  "mark_as_expunged_if a h =
     (case recs h a of
        None \<Rightarrow> None
      | Some r \<Rightarrow>
          Some (0, if rec_status r = of_int UID_DELETED then
                     h\<lparr>recs := (recs h)(a \<mapsto> r\<lparr>rec_status := of_int UID_EXPUNGED\<rparr>)\<rparr> else h))"

definition expunge_store :: "uid_store \<Rightarrow> uid_store option" where
  "expunge_store st =
     (case st of (h, db) \<Rightarrow> map_option (\<lambda>(rc, h1). (h1, db)) (traverse_uid_db db mark_as_expunged_if h))"

definition expunge_uids :: "bool \<Rightarrow> query \<Rightarrow> query option" where
  "expunge_uids dofastuidl ctl =
     (if dofastuidl then map_option (\<lambda>st. ctl\<lparr>oldsaved := st\<rparr>) (expunge_store (oldsaved ctl))
      else map_option (\<lambda>st. ctl\<lparr>newsaved := st\<rparr>) (expunge_store (newsaved ctl)))"

definition clear_store :: "uid_store \<Rightarrow> uid_store option" where
  "clear_store st = (case st of (h, db) \<Rightarrow> clear_uid_db h db)"

text \<open>The stores go with the databases that are swapped.\<close>

definition uid_swap_lists :: "query \<Rightarrow> query option" where
  "uid_swap_lists ctl =
     (if uid_db_n_records (snd (newsaved ctl)) \<noteq> 0 then do {
        let ctl1 = ctl\<lparr>newsaved := oldsaved ctl, oldsaved := newsaved ctl\<rparr>;
        st \<leftarrow> clear_store (newsaved ctl1);
        Some (ctl1\<lparr>newsaved := st\<rparr>)
      } else Some ctl)"

definition uid_discard_new_list :: "query \<Rightarrow> query option" where
  "uid_discard_new_list ctl =
     (if uid_db_n_records (snd (newsaved ctl)) \<noteq> 0 then do {
        st \<leftarrow> clear_store (newsaved ctl);
        Some (ctl\<lparr>newsaved := st\<rparr>)
      } else Some ctl)"

definition uid_reset_num :: "query \<Rightarrow> query option" where
  "uid_reset_num ctl =
     (case oldsaved ctl of (h, db) \<Rightarrow> map_option (\<lambda>st. ctl\<lparr>oldsaved := st\<rparr>) (reset_uid_db_nums h db))"

definition str_uidmark :: "(int \<Rightarrow> string) \<Rightarrow> int \<Rightarrow> string" where
  "str_uidmark show_mark mark =
     (if mark = UID_UNSEEN then ''UNSEEN'' else if mark = UID_SEEN then ''SEEN''
      else if mark = UID_EXPUNGED then ''EXPUNGED'' else if mark = UID_DELETED then ''DELETED''
      else show_mark mark)"

subsection \<open>Writing the file\<close>

text \<open>
  A stream holds what is written and the flag \<open>ferror\<close> reads. What the system refuses: \<open>can_write\<close> is
  given what was written before and what is to be written, \<open>can_flush\<close> all that was written.
\<close>

record stream =
  written :: string
  failed :: bool

record system =
  can_unlink :: "string \<Rightarrow> bool"
  can_open :: "string \<Rightarrow> bool"
  can_write :: "string \<Rightarrow> string \<Rightarrow> bool"
  can_flush :: "string \<Rightarrow> bool"
  can_rename :: "string \<Rightarrow> string \<Rightarrow> bool"

datatype uid_report = ErrorDeleting | WriteError | OldFileKept | CannotRename | CannotOpen

type_synonym files = "string \<Rightarrow> string option"

definition emit :: "system \<Rightarrow> string \<Rightarrow> stream \<Rightarrow> int \<times> stream" where
  "emit sys s fp =
     (if can_write sys (written fp) s then (int (length s), fp\<lparr>written := written fp @ s\<rparr>)
      else (-1, fp\<lparr>failed := True\<rparr>))"

definition to_be_saved :: "uid_db_record \<Rightarrow> bool" where
  "to_be_saved r \<longleftrightarrow> rec_status r = of_int UID_SEEN \<or> rec_status r = of_int UID_DELETED"

definition count_seen_deleted :: "heap \<Rightarrow> addr \<Rightarrow> int \<Rightarrow> (int \<times> int) option" where
  "count_seen_deleted h a n =
     (case recs h a of None \<Rightarrow> None | Some r \<Rightarrow> Some (0, if to_be_saved r then n + 1 else n))"

fun count_hosts :: "query list \<Rightarrow> int \<Rightarrow> int option" where
  "count_hosts [] n = Some n"
| "count_hosts (ctl # qs) n =
     (case traverse_uid_db (snd (oldsaved ctl)) (count_seen_deleted (fst (oldsaved ctl))) n of
        None \<Rightarrow> None | Some (rc, n1) \<Rightarrow> count_hosts qs n1)"

definition write_uid_db_record :: "system \<Rightarrow> query \<Rightarrow> addr \<Rightarrow> stream \<Rightarrow> (int \<times> stream) option" where
  "write_uid_db_record sys ctl a fp =
     (case recs (fst (oldsaved ctl)) a of
        None \<Rightarrow> None
      | Some r \<Rightarrow>
          Some (if \<not> to_be_saved r then (0, fp)
                else (case emit sys (remotename ctl @ ''@'' @ queryname ctl @ '' '' @ rec_id r @ [LF]) fp of
                        (rc, fp1) \<Rightarrow> (if rc < 0 then -1 else 0, fp1))))"

text \<open>The first result says that the code goes to \<open>bailout\<close>.\<close>

fun write_hosts :: "system \<Rightarrow> query list \<Rightarrow> stream \<Rightarrow> (bool \<times> stream) option" where
  "write_hosts sys [] fp = Some (False, fp)"
| "write_hosts sys (ctl # qs) fp =
     (case traverse_uid_db (snd (oldsaved ctl)) (write_uid_db_record sys ctl) fp of
        None \<Rightarrow> None
      | Some (rc, fp1) \<Rightarrow> if rc < 0 then Some (True, fp1) else write_hosts sys qs fp1)"

partial_function (option) write_scratch :: "system \<Rightarrow> idheap \<Rightarrow> iaddr option \<Rightarrow> stream \<Rightarrow> (bool \<times> stream) option" where
  "write_scratch sys h idp fp =
     (case idp of
        None \<Rightarrow> Some (False, fp)
      | Some a \<Rightarrow>
          (case cells h a of
             None \<Rightarrow> None
           | Some n \<Rightarrow>
               (case str_of h n of
                  None \<Rightarrow> None
                | Some s \<Rightarrow>
                    (case emit sys s fp of
                       (rc, fp1) \<Rightarrow> if rc < 0 then Some (True, fp1) else write_scratch sys h (id_next n) fp1))))"

declare write_scratch.simps [code]

definition unlink :: "system \<Rightarrow> files \<Rightarrow> string \<Rightarrow> files" where
  "unlink sys fs name = (if can_unlink sys name then fs(name := None) else fs)"

text \<open>The stream is flushed and closed, and the new file takes the place of the old one, or is removed.\<close>

definition finish_saved :: "system \<Rightarrow> files \<Rightarrow> string \<Rightarrow> string \<Rightarrow> bool \<Rightarrow> stream \<Rightarrow> uid_report list \<times> files" where
  "finish_saved sys fs newnam idfile errflg fp =
     (let fp1 = (if can_flush sys (written fp) then fp else fp\<lparr>failed := True\<rparr>);
          fs1 = fs(newnam \<mapsto> written fp1) in
      if errflg \<or> failed fp1 then ([OldFileKept], unlink sys fs1 newnam)
      else if can_rename sys newnam idfile then ([], (fs1(newnam := None))(idfile := fs1 newnam))
      else ([CannotRename], fs1))"

definition write_saved_lists ::
  "system \<Rightarrow> files \<Rightarrow> query list \<Rightarrow> uid_lists \<Rightarrow> string \<Rightarrow> (uid_report list \<times> files) option" where
  "write_saved_lists sys fs hostlist ls idfile = do {
     idcount \<leftarrow> count_hosts hostlist 0;
     if idcount = 0 \<and> scratchlist ls = None then
       Some (if \<not> can_unlink sys idfile \<and> fs idfile \<noteq> None then [ErrorDeleting] else [], unlink sys fs idfile)
     else do {
       let newnam = idfile @ ''_'';
       let fs1 = unlink sys fs newnam;
       if can_open sys newnam then do {
         (errflg, fp) \<leftarrow> write_hosts sys hostlist \<lparr>written = [], failed = False\<rparr>;
         (errflg, fp) \<leftarrow> (if errflg then Some (errflg, fp)
                          else write_scratch sys (scratch_heap ls) (scratchlist ls) fp);
         let (reports, fs2) = finish_saved sys fs1 newnam idfile errflg fp;
         Some ((if errflg then [WriteError] else []) @ reports, fs2)
       } else Some ([CannotOpen], fs1)
     }
   }"

end
