(* ===== verification/UidFile.thy ===== *)
theory UidFile
  imports Uid UidProps
begin

section \<open>The file of saved identifiers: what is written is read back\<close>

text \<open>
  The parser of a line inverts the line that is written, the databases are seen as lists of
  identifiers with their status, and the file replaces the old one as a whole or not at all.
\<close>

subsection \<open>One line\<close>

definition good_user :: "string \<Rightarrow> bool" where
  "good_user u \<longleftrightarrow> c_string u \<and> LF \<notin> set u \<and> (u = [] \<or> hd u \<notin> set ('' '' @ [TAB]))
     \<and> SP \<notin> set (dropWhile (\<lambda>c. c \<noteq> CHR ''@'') u)"

definition good_name :: "string \<Rightarrow> bool" where
  "good_name s \<longleftrightarrow> c_string s \<and> set s \<inter> {CHR ''@'', SP, TAB, LF} = {}"

definition good_ident :: "string \<Rightarrow> bool" where
  "good_ident s \<longleftrightarrow> c_string s \<and> set s \<inter> {SP, TAB, LF} = {}"

definition saved_text :: "string \<Rightarrow> string \<Rightarrow> string \<Rightarrow> string" where
  "saved_text user host ident = user @ ''@'' @ host @ '' '' @ ident @ [LF]"

lemma delim_end_stop: "char_at s i \<noteq> SP \<Longrightarrow> char_at s i \<noteq> TAB \<Longrightarrow> delim_end s i = Suc i"
  by (cases i) simp_all

lemma strchr_at: "c \<notin> set l \<Longrightarrow> strchr (l @ c # s) c = Some (length l)"
  by (simp add: strchr_def takeWhile_line)

lemma strrchr_at: "c \<notin> set r \<Longrightarrow> strrchr (l @ c # r) c = Some (length l)"
  using takeWhile_line [of c "rev r" "rev l"] by (simp add: strrchr_def)

lemma split_saved_text:
  assumes "good_user u" "good_name h" "good_ident i"
  shows "split_saved (saved_text u h i) = Some (Some (u, h, i))"
proof -
  define a where "a = takeWhile (\<lambda>c. c \<noteq> CHR ''@'') u"
  define b where "b = dropWhile (\<lambda>c. c \<noteq> CHR ''@'') u"
  have u: "u = a @ b" by (simp add: a_def b_def)
  have a: "CHR ''@'' \<notin> set a" by (auto simp: a_def dest: set_takeWhileD)
  have b: "SP \<notin> set b" using assms(1) by (simp add: good_user_def b_def)
  let ?s = "saved_text u h i" and ?sp = "Suc (length u + length h)"
  have s: "?s = u @ CHR ''@'' # h @ SP # i @ [LF]" by (simp add: saved_text_def)
  have 1: "strspn ?s ('' '' @ [TAB]) = 0"
    using assms(1) unfolding s by (cases u) (auto simp: strspn_def good_user_def)
  have 2: "strchr ?s CHR ''@'' = Some (length a)"
  proof -
    have "b = [] \<or> b = CHR ''@'' # tl b"
      using hd_dropWhile [of "\<lambda>c. c \<noteq> CHR ''@''" u] unfolding b_def [symmetric] by (cases b) auto
    then obtain t where "b @ CHR ''@'' # h @ SP # i @ [LF] = CHR ''@'' # t" by (metis append_Cons append_Nil)
    then have "?s = a @ CHR ''@'' # t" unfolding s by (simp add: u)
    then show ?thesis using strchr_at [OF a] by simp
  qed
  have d: "drop (length a) ?s = (b @ CHR ''@'' # h) @ SP # i @ [LF]" unfolding s by (simp add: u)
  have 3: "strchr (drop (length a) ?s) SP = Some (length b + 1 + length h)"
    unfolding d using b assms(2) by (subst strchr_at) (auto simp: good_name_def)
  have sp: "length a + (length b + 1 + length h) = ?sp" by (simp add: u)
  have 4: "delim_end ?s ?sp = ?sp"
  proof -
    have "char_at ?s ?sp = SP" by (simp add: s char_at_def nth_append)
    moreover have "char_at ?s (length u + length h) = last (CHR ''@'' # h)"
      by (cases h rule: rev_cases) (simp_all add: saved_text_def char_at_def nth_append)
    moreover have "last (CHR ''@'' # h) \<notin> {SP, TAB}"
      using assms(2) by (cases h rule: rev_cases) (auto simp: good_name_def)
    ultimately show ?thesis using delim_end_stop [of ?s "length u + length h"] by simp
  qed
  have 5: "drop ?sp ?s = SP # i @ [LF]" by (simp add: s)
  have 6: "strspn (SP # i @ [LF]) '' '' = 1"
    using assms(3) by (cases i) (auto simp: strspn_def good_ident_def)
  have 7: "drop (?sp + 1) ?s = i @ [LF]" by (simp add: s)
  have 8: "strcspn (i @ [LF]) ('' '' @ [TAB, LF]) = length i"
  proof -
    have "takeWhile (\<lambda>c. c \<notin> set ('' '' @ [TAB, LF])) (i @ [LF]) = i"
      using assms(3) by (subst takeWhile_append2) (auto simp: good_ident_def)
    then show ?thesis unfolding strcspn_def by (simp only:)
  qed
  have 9: "take ?sp ?s = u @ CHR ''@'' # h" by (simp add: s)
  have 10: "strrchr (u @ CHR ''@'' # h) CHR ''@'' = Some (length u)"
    using assms(2) by (intro strrchr_at) (auto simp: good_name_def)
  show ?thesis
    unfolding split_saved_def Let_def 1 drop_0 2 option.case 3 sp 4 5 6 7 8 9 10 by simp
qed

text \<open>Every line is split without an access through the null pointer.\<close>

lemma strchr_Some: "strchr s c = Some k \<Longrightarrow> c \<noteq> NUL \<Longrightarrow> k < length s \<and> s ! k = c"
proof -
  assume *: "strchr s c = Some k" "c \<noteq> NUL"
  then have c: "c \<in> set s" "k = length (takeWhile (\<lambda>d. d \<noteq> c) s)" by (auto simp: strchr_def split: if_splits)
  then have "k < length s" using takeWhile_less [of c s "\<lambda>d. d \<noteq> c"] by simp
  then show ?thesis using c(2) nth_length_takeWhile [of "\<lambda>d. d \<noteq> c" s] by simp
qed

lemma delim_end_keeps: "j \<le> i \<Longrightarrow> char_at s j \<noteq> SP \<Longrightarrow> char_at s j \<noteq> TAB \<Longrightarrow> j < delim_end s i"
  by (induction i) (auto simp: le_Suc_eq)

lemma split_saved_total: "split_saved buf \<noteq> None"
proof -
  define user where "user = drop (strspn buf ('' '' @ [TAB])) buf"
  have "strrchr (take (delim_end user (at + k)) user) CHR ''@'' \<noteq> None"
    if "strchr user CHR ''@'' = Some at" "strchr (drop at user) SP = Some k" for at k
  proof -
    have at: "at < length user" "user ! at = CHR ''@''" using strchr_Some [OF that(1)] by auto
    then have "at < delim_end user (at + k)" by (intro delim_end_keeps) (simp_all add: char_at_def)
    then have "CHR ''@'' \<in> set (take (delim_end user (at + k)) user)"
      using at by (force simp: in_set_conv_nth)
    then show ?thesis by (simp add: strrchr_def)
  qed
  note * = this
  show ?thesis
  proof (cases "strchr user CHR ''@''")
    case (Some at)
    then show ?thesis
      unfolding split_saved_def Let_def user_def [symmetric] using * [OF Some]
      by (cases "strchr (drop at user) SP") (auto split: option.split)
  next
    case None
    then show ?thesis unfolding split_saved_def Let_def user_def [symmetric] by simp
  qed
qed

subsection \<open>Databases as lists of identifiers\<close>

definition id_status :: "heap \<Rightarrow> addr \<Rightarrow> (string \<times> u32) option" where
  "id_status h x = map_option (\<lambda>r. (rec_id r, rec_status r)) (recs h x)"

definition store_has :: "uid_store \<Rightarrow> (string \<times> u32) list \<Rightarrow> bool" where
  "store_has st es \<longleftrightarrow> (\<exists>rs. db_inv (fst st) (snd st) rs \<and> map (id_status (fst st)) rs = map Some es)"

lemma id_status_content: "content h' x = content h x \<Longrightarrow> id_status h' x = id_status h x"
  by (cases "recs h' x"; cases "recs h x") (auto simp: content_def id_status_def)

lemma store_has_init: "store_has st es \<Longrightarrow> store_has (fst st, init_uid_db) []"
  by (auto simp: store_has_def db_inv_def intro!: db_inv_init [unfolded db_inv_def])

lemma store_has_empty: "store_has (empty_heap, init_uid_db) []"
  using db_inv_init [OF alloc_ok_empty] by (auto simp: store_has_def)

lemma db_insert_has:
  assumes "store_has st es" "good_id s" "length es < 2 ^ 30"
  shows "\<exists>st'. db_insert st s v = Some st' \<and> store_has st' (es @ [(s, of_int v)])"
proof -
  obtain rs where rs: "db_inv (fst st) (snd st) rs" "map (id_status (fst st)) rs = map Some es"
    using assms(1) unfolding store_has_def by blast
  then have len: "length rs < 2 ^ 30" using assms(3) by (metis length_map)
  obtain ra h' db' where i: "uid_db_insert (fst st) (snd st) s (of_int v) = Some (ra, h', db')"
    "db_inv h' db' (rs @ [ra])" "content h' ra = Some (s, of_int v, of_nat (length rs))"
    "\<forall>x\<in>set rs. content h' x = content (fst st) x"
    using uid_db_insert_inv [OF rs(1) assms(2) len, of "of_int v"] by (elim exE conjE) (rule that; assumption)
  have "map (id_status h') rs = map (id_status (fst st)) rs"
    using i(4) id_status_content by (intro map_cong refl) blast
  moreover have "id_status h' ra = Some (s, of_int v)" using i(3) by (auto simp: id_status_def content_def)
  ultimately have "map (id_status h') (rs @ [ra]) = map Some (es @ [(s, of_int v)])" using rs(2) by (simp only: map_append list.map)
  then have "store_has (h', db') (es @ [(s, of_int v)])" 
    using i(2) unfolding store_has_def fst_conv snd_conv by (intro exI [of _ "rs @ [ra]"] conjI) assumption+
  then show ?thesis using i(1) by (cases st) (simp add: db_insert_def)
qed

lemma traverse_store:
  assumes "db_inv h db rs" "length rs < 2 ^ 32"
  shows "traverse_uid_db db r s = visit r rs s"
proof -
  obtain free where "records db = map Some rs @ free" "records_next db = of_nat (length rs)"
    using assms(1) by (auto simp: db_inv_def array_ok_def)
  moreover have "unat (of_nat (length rs) :: u32) = length rs" using assms(2) by (simp add: unat_of_nat)
  ultimately show ?thesis
    using traverse_loop_visit [of 0 rs free r s] by (simp add: traverse_uid_db_def)
qed

lemma small_len: "map f rs = map Some es \<Longrightarrow> length es < 2 ^ 30 \<Longrightarrow> length rs < 2 ^ 32"
  by (drule map_eq_imp_length_eq) simp

definition kept :: "string \<times> u32 \<Rightarrow> bool" where
  "kept e \<longleftrightarrow> snd e = of_int UID_SEEN \<or> snd e = of_int UID_DELETED"

lemma visit_count:
  "map (id_status h) rs = map Some es \<Longrightarrow> visit (count_seen_deleted h) rs n = Some (0, n + int (length (filter kept es)))"
proof (induction rs arbitrary: es n)
  case (Cons x rs)
  then obtain e es' where "es = e # es'" by (cases es) auto
  with Cons show ?case
    by (auto simp: count_seen_deleted_def id_status_def to_be_saved_def kept_def simp del: map_eq_conv split: option.splits)
qed simp

definition host_lines :: "query \<Rightarrow> (string \<times> u32) list \<Rightarrow> string list" where
  "host_lines ctl es = map (\<lambda>e. saved_text (remotename ctl) (queryname ctl) (fst e)) (filter kept es)"

definition willing :: "system \<Rightarrow> bool" where
  "willing sys \<longleftrightarrow> (\<forall>n. can_unlink sys n \<and> can_open sys n \<and> can_flush sys n) \<and> (\<forall>n m. can_write sys n m \<and> can_rename sys n m)"

lemma visit_write:
  "map (id_status (fst (oldsaved ctl))) rs = map Some es \<Longrightarrow> willing sys \<Longrightarrow>
     visit (write_uid_db_record sys ctl) rs fp = Some (0, fp\<lparr>written := written fp @ concat (host_lines ctl es)\<rparr>)"
proof (induction rs arbitrary: es fp)
  case Nil
  then show ?case by (simp add: host_lines_def)
next
  case (Cons x rs)
  then obtain e es' where es: "es = e # es'" by (cases es) auto
  then obtain r where "recs (fst (oldsaved ctl)) x = Some r" "e = (rec_id r, rec_status r)"
    "map (id_status (fst (oldsaved ctl))) rs = map Some es'"
    using Cons.prems(1) by (auto simp: id_status_def [of _ x] simp del: map_eq_conv)
  with es Cons.IH Cons.prems(2) show ?case
    by (auto simp: write_uid_db_record_def to_be_saved_def kept_def emit_def willing_def host_lines_def saved_text_def)
qed

lemma count_hosts_eq:
  "list_all2 (\<lambda>ctl es. store_has (oldsaved ctl) es \<and> length es < 2 ^ 30) hosts ess \<Longrightarrow>
     count_hosts hosts n = Some (n + int (length (filter kept (concat ess))))"
proof (induction arbitrary: n rule: list_all2_induct)
  case (Cons ctl hosts es ess)
  then obtain rs where "db_inv (fst (oldsaved ctl)) (snd (oldsaved ctl)) rs" "map (id_status (fst (oldsaved ctl))) rs = map Some es"
    unfolding store_has_def by blast
  moreover from this(2) have "length rs < 2 ^ 32" by (rule small_len) (use Cons(1) in simp)
  ultimately show ?case using Cons(3) visit_count by (simp add: traverse_store)
qed simp

lemma write_hosts_eq:
  "list_all2 (\<lambda>ctl es. store_has (oldsaved ctl) es \<and> length es < 2 ^ 30) hosts ess \<Longrightarrow> willing sys \<Longrightarrow>
     write_hosts sys hosts fp = Some (False, fp\<lparr>written := written fp @ concat (concat (map2 host_lines hosts ess))\<rparr>)"
proof (induction arbitrary: fp rule: list_all2_induct)
  case (Cons ctl hosts es ess)
  then obtain rs where "db_inv (fst (oldsaved ctl)) (snd (oldsaved ctl)) rs" "map (id_status (fst (oldsaved ctl))) rs = map Some es"
    unfolding store_has_def by blast
  moreover from this(2) have "length rs < 2 ^ 32" by (rule small_len) (use Cons(1) in simp)
  ultimately show ?case using Cons by (simp add: traverse_store visit_write)
qed simp

lemma write_scratch_eq:
  "chain_of h p as es \<Longrightarrow> willing sys \<Longrightarrow>
     write_scratch sys h p fp = Some (False, fp\<lparr>written := written fp @ concat (map fst es)\<rparr>)"
proof (induction as arbitrary: p es fp)
  case Nil
  then show ?case by (simp add: write_scratch.simps [of sys h None])
next
  case (Cons a as)
  obtain n s es' where c: "p = Some a" "cells h a = Some n" "str_of h n = Some s" "es = (s, id_val n) # es'"
    "chain_of h (id_next n) as es'" by (rule chain_of_ConsE [OF Cons.prems(1)])
  show ?case using Cons.IH [OF c(5) Cons.prems(2)] Cons.prems(2) c
    by (simp add: write_scratch.simps [of sys h "Some a"] emit_def willing_def)
qed

subsection \<open>Reading the lines back\<close>

primrec run_lines :: "string list \<Rightarrow> query list \<times> uid_lists \<Rightarrow> (query list \<times> uid_lists) option" where
  "run_lines [] st = Some st"
| "run_lines (l # ls) st = saved_line l st \<bind> run_lines ls"

lemma saved_lines_eq: "saved_lines s st = run_lines (file_lines s) st"
proof (induction s st rule: saved_lines.induct)
  case (1 s st)
  then show ?case
    by (cases "fgets POPBUFSIZE s") (simp add: saved_lines.simps [of s] file_lines.simps [of s] split: option.split)
qed

lemma run_lines_append: "run_lines (as @ bs) st = run_lines as st \<bind> run_lines bs"
  by (induction as arbitrary: st) (auto simp: Option.bind_assoc intro!: Option.bind_cong)

text \<open>What the lines can be: one for a host of the list, or one kept for a host that is not queried.\<close>

definition host_key :: "query \<Rightarrow> string \<times> string" where
  "host_key ctl = (map toupper (queryname ctl), map toupper (remotename ctl))"

definition good_host :: "query \<Rightarrow> bool" where
  "good_host ctl \<longleftrightarrow> good_name (queryname ctl) \<and> good_user (remotename ctl)"

lemma insert_saved_host:
  "distinct (map host_key hosts) \<Longrightarrow> k < length hosts \<Longrightarrow> db_insert (oldsaved (hosts ! k)) i UID_SEEN = Some st \<Longrightarrow>
     insert_saved hosts (remotename (hosts ! k)) (queryname (hosts ! k)) i
       = Some (Some (hosts[k := (hosts ! k)\<lparr>oldsaved := st\<rparr>]))"
proof (induction hosts arbitrary: k)
  case (Cons ctl hosts)
  show ?case
  proof (cases k)
    case 0
    with Cons.prems show ?thesis by (simp add: strcaseeq_def)
  next
    case (Suc j)
    then have "host_key ctl \<noteq> host_key (hosts ! j)" using Cons.prems(1,2) by auto
    then have "\<not> (strcaseeq (queryname (hosts ! j)) (queryname ctl) \<and> strcaseeq (remotename (hosts ! j)) (remotename ctl))"
      by (auto simp: strcaseeq_def host_key_def)
    then show ?thesis using Cons.IH [of j] Cons.prems Suc by (simp del: de_Morgan_conj)
  qed
qed simp

lemma insert_saved_none:
  "(map toupper host, map toupper user) \<notin> set (map host_key hosts) \<Longrightarrow> insert_saved hosts user host i = Some None"
  by (induction hosts) (auto simp: strcaseeq_def host_key_def)

lemma c_string_saved_text:
  "good_user u \<Longrightarrow> good_name h \<Longrightarrow> good_ident i \<Longrightarrow> cstr_of (saved_text u h i) = saved_text u h i"
  unfolding cstr_of_def takeWhile_eq_all_conv
  by (auto simp: saved_text_def good_user_def good_name_def good_ident_def c_string_def)

definition holds_all :: "query list \<Rightarrow> (string \<times> u32) list list \<Rightarrow> bool" where
  "holds_all hosts ess \<longleftrightarrow> list_all2 (\<lambda>ctl es. store_has (oldsaved ctl) es) hosts ess"

definition same_hosts :: "query list \<Rightarrow> query list \<Rightarrow> bool" where
  "same_hosts hosts' hosts \<longleftrightarrow> map (\<lambda>c. (queryname c, remotename c)) hosts' = map (\<lambda>c. (queryname c, remotename c)) hosts"

lemma same_hosts_keys: "same_hosts hosts' hosts \<Longrightarrow> map host_key hosts' = map host_key hosts \<and> length hosts' = length hosts"
proof -
  have k: "map host_key hs = map (map_prod (map toupper) (map toupper)) (map (\<lambda>c. (queryname c, remotename c)) hs)" for hs
    by (simp add: host_key_def)
  assume "same_hosts hosts' hosts"
  then show ?thesis unfolding k same_hosts_def by (metis length_map)
qed

lemma same_hosts_nth: "same_hosts hosts' hosts \<Longrightarrow> k < length hosts \<Longrightarrow>
    queryname (hosts' ! k) = queryname (hosts ! k) \<and> remotename (hosts' ! k) = remotename (hosts ! k)"
  unfolding same_hosts_def by (metis (no_types, lifting) length_map nth_map prod.inject)

text \<open>One line of a host appends one identifier to its database and to no other.\<close>

lemma saved_line_host:
  assumes h: "holds_all hosts ess" "distinct (map host_key hosts)" "k < length hosts" "good_host (hosts ! k)"
    and i: "good_ident i" "good_id i" and len: "length (ess ! k) < 2 ^ 30"
  obtains hosts' where
    "saved_line (saved_text (remotename (hosts ! k)) (queryname (hosts ! k)) i) (hosts, ls) = Some (hosts', ls)"
    "holds_all hosts' (ess[k := ess ! k @ [(i, of_int UID_SEEN)]])" "same_hosts hosts' hosts"
proof -
  have "store_has (oldsaved (hosts ! k)) (ess ! k)" using h(1,3) by (simp add: holds_all_def list_all2_conv_all_nth)
  then obtain st where st: "db_insert (oldsaved (hosts ! k)) i UID_SEEN = Some st"
    "store_has st (ess ! k @ [(i, of_int UID_SEEN)])" using db_insert_has [OF _ i(2) len] by blast
  let ?h = "hosts[k := (hosts ! k)\<lparr>oldsaved := st\<rparr>]"
  have "saved_line (saved_text (remotename (hosts ! k)) (queryname (hosts ! k)) i) (hosts, ls) = Some (?h, ls)"
    using h(4) i(1) insert_saved_host [OF h(2,3) st(1)]
    by (simp add: saved_line_def c_string_saved_text split_saved_text good_host_def)
  moreover have "holds_all ?h (ess[k := ess ! k @ [(i, of_int UID_SEEN)]])"
    using h(1) st(2) by (auto simp: holds_all_def intro!: list_all2_update_cong)
  moreover have "same_hosts ?h hosts"
    unfolding same_hosts_def using h(3) by (intro nth_equalityI) (auto simp: nth_list_update)
  ultimately show ?thesis by (rule that)
qed

text \<open>The lines of one host.\<close>

lemma run_host_lines:
  "holds_all hosts ess \<Longrightarrow> distinct (map host_key hosts) \<Longrightarrow> k < length hosts \<Longrightarrow> good_host (hosts ! k) \<Longrightarrow>
   \<forall>i\<in>set ids. good_ident i \<and> good_id i \<Longrightarrow> length (ess ! k) + length ids < 2 ^ 30 \<Longrightarrow>
   \<exists>hosts'. run_lines (map (saved_text (remotename (hosts ! k)) (queryname (hosts ! k))) ids) (hosts, ls) = Some (hosts', ls)
     \<and> holds_all hosts' (ess[k := ess ! k @ map (\<lambda>i. (i, of_int UID_SEEN)) ids]) \<and> same_hosts hosts' hosts"
proof (induction ids arbitrary: hosts ess)
  case Nil
  then show ?case by (auto simp: same_hosts_def)
next
  case (Cons i ids)
  obtain h1 where 1: "saved_line (saved_text (remotename (hosts ! k)) (queryname (hosts ! k)) i) (hosts, ls) = Some (h1, ls)"
    "holds_all h1 (ess[k := ess ! k @ [(i, of_int UID_SEEN)]])" "same_hosts h1 hosts"
    using saved_line_host [OF Cons.prems(1-4), of i ls] Cons.prems(5,6) by auto
  have k: "k < length ess" using Cons.prems(1,3) by (simp add: holds_all_def list_all2_lengthD)
  note s = same_hosts_keys [OF 1(3)] same_hosts_nth [OF 1(3) Cons.prems(3)]
  have g: "good_host (h1 ! k)" using Cons.prems(4) s by (simp add: good_host_def)
  have "\<exists>hosts'. run_lines (map (saved_text (remotename (h1 ! k)) (queryname (h1 ! k))) ids) (h1, ls) = Some (hosts', ls)
     \<and> holds_all hosts' ((ess[k := ess ! k @ [(i, of_int UID_SEEN)]])[k := (ess[k := ess ! k @ [(i, of_int UID_SEEN)]]) ! k
         @ map (\<lambda>i. (i, of_int UID_SEEN)) ids]) \<and> same_hosts hosts' h1"
    using Cons.prems k s g by (intro Cons.IH 1(2)) auto
  then show ?case using 1 s k by (auto simp: same_hosts_def)
qed

text \<open>All the lines of the hosts that are queried, one host after the other.\<close>

definition ids_of :: "(string \<times> u32) list \<Rightarrow> string list" where
  "ids_of es = map fst (filter kept es)"

definition seen :: "string list \<Rightarrow> (string \<times> u32) list" where
  "seen ids = map (\<lambda>i. (i, of_int UID_SEEN)) ids"

definition good_ids :: "string list \<Rightarrow> bool" where
  "good_ids ids \<longleftrightarrow> length ids < 2 ^ 30 \<and> (\<forall>i\<in>set ids. good_ident i \<and> good_id i)"

lemma host_lines_ids: "host_lines ctl es = map (saved_text (remotename ctl) (queryname ctl)) (ids_of es)"
  by (simp add: host_lines_def ids_of_def)

lemma run_all_lines:
  assumes "distinct (map host_key hosts)" "\<forall>ctl\<in>set hosts. good_host ctl" "length idss = length hosts"
    "\<forall>ids\<in>set idss. good_ids ids"
    and "same_hosts hosts0 hosts" "holds_all hosts0 (replicate (length hosts) [])"
  shows "n \<le> length hosts \<Longrightarrow>
   \<exists>hosts'. run_lines (concat (map2 (\<lambda>ctl ids. map (saved_text (remotename ctl) (queryname ctl)) ids) (take n hosts) (take n idss))) (hosts0, ls)
       = Some (hosts', ls)
     \<and> holds_all hosts' (map seen (take n idss) @ replicate (length hosts - n) []) \<and> same_hosts hosts' hosts"
proof (induction n)
  case 0
  then show ?case using assms(5,6) by auto
next
  case (Suc n)
  define done1 where "done1 = map seen (take n idss) @ replicate (length hosts - n) []"
  obtain h1 where 1: "run_lines (concat (map2 (\<lambda>ctl ids. map (saved_text (remotename ctl) (queryname ctl)) ids) (take n hosts) (take n idss))) (hosts0, ls)
      = Some (h1, ls)" "holds_all h1 done1" "same_hosts h1 hosts"
    using Suc unfolding done1_def by auto
  note s = same_hosts_keys [OF 1(3)] same_hosts_nth [OF 1(3), of n]
  have n: "n < length hosts" "n < length idss" using Suc.prems assms(3) by auto
  have dn: "done1 ! n = []" using n assms(3) by (simp add: done1_def nth_append)
  have g: "good_host (h1 ! n)" "good_ids (idss ! n)" using assms(2,4) n s by (auto simp: good_host_def)
  obtain h2 where 2: "run_lines (map (saved_text (remotename (h1 ! n)) (queryname (h1 ! n))) (idss ! n)) (h1, ls) = Some (h2, ls)"
    "holds_all h2 (done1[n := done1 ! n @ map (\<lambda>i. (i, of_int UID_SEEN)) (idss ! n)])" "same_hosts h2 h1"
    using run_host_lines [OF 1(2) _ _ g(1), of "idss ! n" ls] assms(1) s n g(2) dn unfolding good_ids_def by auto
  have "done1[n := done1 ! n @ map (\<lambda>i. (i, of_int UID_SEEN)) (idss ! n)]
      = map seen (take (Suc n) idss) @ replicate (length hosts - Suc n) []"
  proof -
    have "replicate (length hosts - n) ([] :: (string \<times> u32) list) = [] # replicate (length hosts - Suc n) []"
      using n(1) by (metis Suc_diff_Suc replicate_Suc)
    then show ?thesis using n dn assms(3)
      by (simp add: done1_def take_Suc_conv_app_nth list_update_append seen_def del: replicate_Suc)
  qed
  moreover have "same_hosts h2 hosts" using 1(3) 2(3) by (simp add: same_hosts_def)
  ultimately show ?case
    using 1(1) 2(1,2) s n by (intro exI [of _ h2]) (simp add: take_Suc_conv_app_nth run_lines_append zip_append)
qed

text \<open>The lines of hosts that are not queried go to the scratch list as they are.\<close>

definition foreign :: "query list \<Rightarrow> string \<Rightarrow> bool" where
  "foreign hosts l \<longleftrightarrow> c_string l \<and> (\<exists>t. l = t @ [LF] \<and> LF \<notin> set t \<and> length t < 511) \<and>
     (\<exists>user host i. split_saved l = Some (Some (user, host, i))
        \<and> (map toupper host, map toupper user) \<notin> set (map host_key hosts))"

definition scratch_has :: "uid_lists \<Rightarrow> string list \<Rightarrow> bool" where
  "scratch_has ls ts \<longleftrightarrow> wf_heap (scratch_heap ls)
     \<and> is_list (scratch_heap ls) (scratchlist ls) (map (\<lambda>t. (t, Status 0 UID_SEEN)) ts)"

lemma cstr_of_c_string: "c_string s \<Longrightarrow> cstr_of s = s"
  unfolding cstr_of_def takeWhile_eq_all_conv by (auto simp: c_string_def)

lemma run_foreign_lines:
  "\<forall>l\<in>set fs. foreign hosts l \<Longrightarrow> map host_key hs = map host_key hosts \<Longrightarrow> scratch_has ls ts \<Longrightarrow>
     \<exists>ls'. run_lines fs (hs, ls) = Some (hs, ls') \<and> scratch_has ls' (ts @ fs)"
proof (induction fs arbitrary: ls ts)
  case (Cons l fs)
  obtain user host i where l: "split_saved l = Some (Some (user, host, i))" "c_string l"
    "(map toupper host, map toupper user) \<notin> set (map host_key hs)"
    using Cons.prems(1,2) by (auto simp: foreign_def)
  obtain a p h where s: "save_str (scratch_heap ls) (scratchlist ls) (Some l) UID_SEEN = Some (a, p, h)" "wf_heap h"
    "is_list h p (map (\<lambda>t. (t, Status 0 UID_SEEN)) ts @ [(l, Status 0 UID_SEEN)])"
    using save_str_list [of "scratch_heap ls" "scratchlist ls" "map (\<lambda>t. (t, Status 0 UID_SEEN)) ts" l UID_SEEN] Cons.prems(3)
    unfolding scratch_has_def by metis
  let ?ls = "ls\<lparr>scratchlist := p, scratch_heap := h\<rparr>"
  have "saved_line l (hs, ls) = Some (hs, ?ls)"
    using l s(1) insert_saved_none [OF l(3)] by (simp add: saved_line_def cstr_of_c_string)
  moreover have "scratch_has ?ls (ts @ [l])" using s(2,3) by (simp add: scratch_has_def)
  ultimately show ?case using Cons.IH [of ?ls "ts @ [l]"] Cons.prems(1,2) by simp
qed simp

subsection \<open>The whole file\<close>

definition is_line :: "string \<Rightarrow> bool" where
  "is_line l \<longleftrightarrow> (\<exists>t. l = t @ [LF] \<and> LF \<notin> set t \<and> length t < 511)"

lemma file_lines_concat: "\<forall>l\<in>set ls. is_line l \<Longrightarrow> file_lines (concat ls) = ls"
  by (induction ls) (auto simp: is_line_def file_lines_step)

definition short_ids :: "query \<Rightarrow> string list \<Rightarrow> bool" where
  "short_ids ctl ids \<longleftrightarrow> (\<forall>i\<in>set ids. length (remotename ctl) + length (queryname ctl) + length i < 509)"

lemma host_lines_lines:
  "good_host ctl \<Longrightarrow> good_ids ids \<Longrightarrow> short_ids ctl ids \<Longrightarrow> \<forall>l\<in>set (map (saved_text (remotename ctl) (queryname ctl)) ids). is_line l"
  by (auto simp: is_line_def saved_text_def good_host_def good_user_def good_name_def good_ids_def good_ident_def short_ids_def
      intro!: exI [of _ "remotename ctl @ ''@'' @ queryname ctl @ '' '' @ _"])

text \<open>The state that can be written and read back.\<close>

definition saved_state :: "query list \<Rightarrow> (string \<times> u32) list list \<Rightarrow> uid_lists \<Rightarrow> string list \<Rightarrow> bool" where
  "saved_state hosts ess ls fs \<longleftrightarrow>
     holds_all hosts ess \<and> distinct (map host_key hosts) \<and> (\<forall>ctl\<in>set hosts. good_host ctl)
     \<and> (\<forall>es\<in>set ess. length es < 2 ^ 30 \<and> good_ids (ids_of es)) \<and> list_all2 (\<lambda>ctl es. short_ids ctl (ids_of es)) hosts ess
     \<and> scratch_has ls fs \<and> (\<forall>l\<in>set fs. foreign hosts l)"

definition file_text :: "query list \<Rightarrow> (string \<times> u32) list list \<Rightarrow> string list \<Rightarrow> string" where
  "file_text hosts ess fs = concat (concat (map2 host_lines hosts ess)) @ concat fs"

definition fresh_hosts :: "query list \<Rightarrow> query list" where
  "fresh_hosts hosts = map (\<lambda>ctl. ctl\<lparr>skipped := None, oldsaved := (fst (oldsaved ctl), init_uid_db),
     newsaved := (fst (newsaved ctl), init_uid_db)\<rparr>) hosts"

definition no_scratch :: uid_lists where
  "no_scratch = \<lparr>scratchlist = None, scratch_heap = heap0\<rparr>"

lemma fresh_hosts_ok:
  "holds_all hosts ess \<Longrightarrow> holds_all (fresh_hosts hosts) (replicate (length hosts) []) \<and> same_hosts (fresh_hosts hosts) hosts"
  unfolding holds_all_def fresh_hosts_def same_hosts_def list_all2_conv_all_nth
  by (auto dest!: spec intro: store_has_init)

lemma read_back:
  assumes "saved_state hosts ess ls fs"
  shows "\<exists>hosts' ls'. initialize_saved_lists hosts False (Some (file_text hosts ess fs)) no_scratch = Some (Inr (hosts', ls'))
    \<and> holds_all hosts' (map (\<lambda>es. seen (ids_of es)) ess) \<and> scratch_has ls' fs"
proof -
  note a = assms [unfolded saved_state_def]
  have len: "length ess = length hosts" using a unfolding holds_all_def by (metis list_all2_lengthD)
  let ?lines = "\<lambda>ctl ids. map (saved_text (remotename ctl) (queryname ctl)) ids"
  let ?hl = "concat (map2 ?lines hosts (map ids_of ess))"
  have m: "map2 host_lines hosts ess = map2 ?lines hosts (map ids_of ess)"
    by (simp add: host_lines_ids map2_map_map zip_map2 case_prod_beta)
  have "is_line l" if l: "l \<in> set ?hl" for l
  proof -
    obtain ctl ids where c: "(ctl, ids) \<in> set (zip hosts (map ids_of ess))" "l \<in> set (?lines ctl ids)"
      using l by auto
    then obtain k where "k < length hosts" "ctl = hosts ! k" "ids = ids_of (ess ! k)"
      using len by (auto simp: set_zip)
    then have k: "k < length hosts" "l \<in> set (?lines (hosts ! k) (ids_of (ess ! k)))" using c(2) by auto
    then have "short_ids (hosts ! k) (ids_of (ess ! k))" using a by (simp add: list_all2_conv_all_nth)
    then show ?thesis using host_lines_lines [of "hosts ! k" "ids_of (ess ! k)"] k a len by auto
  qed
  moreover have "\<forall>l\<in>set fs. is_line l" using a by (auto simp: foreign_def is_line_def)
  ultimately have "\<forall>l\<in>set (?hl @ fs). is_line l" unfolding set_append by blast
  then have "file_lines (concat (?hl @ fs)) = ?hl @ fs" by (rule file_lines_concat)
  then have "file_lines (file_text hosts ess fs) = ?hl @ fs" unfolding file_text_def m concat_append .
  moreover obtain h1 where h1: "run_lines ?hl (fresh_hosts hosts, no_scratch) = Some (h1, no_scratch)"
    "holds_all h1 (map seen (map ids_of ess))" "same_hosts h1 hosts"
    using run_all_lines [of hosts "map ids_of ess" "fresh_hosts hosts" "length hosts" no_scratch]
      fresh_hosts_ok [of hosts ess] a len by auto
  moreover obtain ls' where "run_lines fs (h1, no_scratch) = Some (h1, ls')" "scratch_has ls' ([] @ fs)"
    using run_foreign_lines [of fs hosts h1 no_scratch "[]"] a same_hosts_keys [OF h1(3)]
    by (auto simp: no_scratch_def scratch_has_def)
  ultimately show ?thesis
    unfolding initialize_saved_lists_def Let_def fresh_hosts_def [symmetric]
    by (auto simp: saved_lines_eq run_lines_append comp_def)
qed

lemma write_out:
  assumes "saved_state hosts ess ls fs" "willing sys"
  shows "\<exists>files'. write_saved_lists sys files hosts ls idfile = Some ([], files')
    \<and> files' idfile = (if filter kept (concat ess) = [] \<and> fs = [] then None else Some (file_text hosts ess fs))"
proof -
  note a = assms(1) [unfolded saved_state_def]
  have h: "list_all2 (\<lambda>ctl es. store_has (oldsaved ctl) es \<and> length es < 2 ^ 30) hosts ess"
    using a by (auto simp: holds_all_def list_all2_conv_all_nth)
  obtain as where as: "chain_of (scratch_heap ls) (scratchlist ls) as (map (\<lambda>t. (t, Status 0 UID_SEEN)) fs)"
    using a unfolding scratch_has_def is_list_def by blast
  have sc: "scratchlist ls = None \<longleftrightarrow> fs = []"
    using as by (cases as; cases "scratchlist ls") (auto simp: chain_of_def)
  have sys: "can_unlink sys n" "can_open sys n" "can_flush sys n" "can_rename sys n m" for n m
    using assms(2) by (auto simp: willing_def)
  show ?thesis
    using count_hosts_eq [OF h, of 0] write_hosts_eq [OF h assms(2), of "\<lparr>written = [], failed = False\<rparr>"]
      write_scratch_eq [OF as assms(2)] sc sys
    by (auto simp: write_saved_lists_def unlink_def finish_saved_def file_text_def comp_def Let_def)
qed

lemma write_read:
  assumes "saved_state hosts ess ls fs" "willing sys"
  shows "\<exists>files' hosts' ls'. write_saved_lists sys files hosts ls idfile = Some ([], files')
    \<and> initialize_saved_lists hosts False (files' idfile) no_scratch = Some (Inr (hosts', ls'))
    \<and> holds_all hosts' (map (\<lambda>es. seen (ids_of es)) ess) \<and> scratch_has ls' fs"
proof -
  obtain files' where w: "write_saved_lists sys files hosts ls idfile = Some ([], files')"
    "files' idfile = (if filter kept (concat ess) = [] \<and> fs = [] then None else Some (file_text hosts ess fs))"
    using write_out [OF assms] by blast
  show ?thesis
  proof (cases "filter kept (concat ess) = [] \<and> fs = []")
    case True
    have "length ess = length hosts" using assms(1) unfolding saved_state_def holds_all_def by (metis list_all2_lengthD)
    moreover have "seen (ids_of es) = []" if "es \<in> set ess" for es
      using True that by (auto simp: seen_def ids_of_def filter_empty_conv)
    then have "map (\<lambda>es. seen (ids_of es)) ess = replicate (length ess) []"
      by (simp add: map_replicate_const [symmetric] cong: map_cong)
    ultimately have "holds_all (fresh_hosts hosts) (map (\<lambda>es. seen (ids_of es)) ess)"
      using fresh_hosts_ok [of hosts ess] assms(1) by (simp add: saved_state_def)
    moreover have "initialize_saved_lists hosts False None no_scratch = Some (Inr (fresh_hosts hosts, no_scratch))"
      by (simp add: initialize_saved_lists_def fresh_hosts_def)
    moreover have "scratch_has no_scratch fs" using True by (simp add: scratch_has_def no_scratch_def)
    ultimately show ?thesis using w True by auto
  next
    case False
    then have "files' idfile = Some (file_text hosts ess fs)" using w(2) by presburger
    with w(1) read_back [OF assms(1)] show ?thesis by metis
  qed
qed

subsection \<open>When the system refuses\<close>

lemma traverse_loop_sim:
  assumes "\<And>x s rc s'. r x s = Some (rc, s') \<Longrightarrow> rc < 0 \<or> rc = 0 \<and> r' x s = Some (0, s')"
  shows "traverse_loop arr r mx ndx s = Some (rc, s') \<Longrightarrow> rc < 0 \<or> rc = 0 \<and> traverse_loop arr r' mx ndx s = Some (0, s')"
proof (induction "mx - ndx" arbitrary: ndx s)
  case 0
  then show ?case by (simp add: traverse_loop.simps [of arr _ mx ndx])
next
  case (Suc n)
  then have lt: "ndx < mx" by simp
  then obtain a rc1 s1 where a: "peek arr ndx = Some (Some a)" "r a s = Some (rc1, s1)"
    using Suc.prems by (subst (asm) traverse_loop.simps) (auto split: option.splits)
  show ?case
  proof (cases "rc1 = 0")
    case True
    then have "traverse_loop arr r mx (Suc ndx) s1 = Some (rc, s')"
      using Suc.prems lt a by (simp add: traverse_loop.simps [of arr r mx ndx])
    then have "rc < 0 \<or> rc = 0 \<and> traverse_loop arr r' mx (Suc ndx) s1 = Some (0, s')"
      using Suc.hyps(1) [of "Suc ndx" s1] Suc.hyps(2) by simp
    then show ?thesis using assms [OF a(2)] True lt a(1) by (auto simp: traverse_loop.simps [of arr r' mx ndx])
  next
    case False
    then have "rc = rc1" using Suc.prems lt a by (simp add: traverse_loop.simps [of arr r mx ndx])
    then show ?thesis using assms [OF a(2)] False by simp
  qed
qed

text \<open>A writer that did not fail wrote what it writes to a system that refuses nothing.\<close>

definition all_willing :: system where
  "all_willing = \<lparr>can_unlink = (\<lambda>_. True), can_open = (\<lambda>_. True), can_write = (\<lambda>_ _. True),
     can_flush = (\<lambda>_. True), can_rename = (\<lambda>_ _. True)\<rparr>"

lemma emit_sim: "emit sys s fp = (rc, fp1) \<Longrightarrow> rc < 0 \<or> emit all_willing s fp = (rc, fp1)"
  by (auto simp: emit_def all_willing_def split: if_splits)

lemma write_hosts_sim: "write_hosts sys hosts fp = Some (False, fp') \<Longrightarrow> write_hosts all_willing hosts fp = Some (False, fp')"
proof (induction hosts arbitrary: fp)
  case (Cons ctl hosts)
  have cb: "rc < 0 \<or> rc = 0 \<and> write_uid_db_record all_willing ctl x s = Some (0, s')"
    if w: "write_uid_db_record sys ctl x s = Some (rc, s')" for x s rc s'
  proof -
    obtain r where r: "recs (fst (oldsaved ctl)) x = Some r"
      using w by (auto simp: write_uid_db_record_def split: option.splits)
    let ?l = "remotename ctl @ ''@'' @ queryname ctl @ '' '' @ rec_id r @ [LF]"
    obtain rc1 fp1 where e: "emit sys ?l s = (rc1, fp1)" by (cases "emit sys ?l s")
    show ?thesis using w r e emit_sim [OF e] by (auto simp: write_uid_db_record_def split: if_splits)
  qed
  obtain rc fp1 where t: "traverse_uid_db (snd (oldsaved ctl)) (write_uid_db_record sys ctl) fp = Some (rc, fp1)"
    "\<not> rc < 0" "write_hosts sys hosts fp1 = Some (False, fp')"
    using Cons.prems by (auto split: option.splits if_splits)
  then have "traverse_uid_db (snd (oldsaved ctl)) (write_uid_db_record all_willing ctl) fp = Some (0, fp1)"
    using traverse_loop_sim [where r = "write_uid_db_record sys ctl" and r' = "write_uid_db_record all_willing ctl", OF cb]
    unfolding traverse_uid_db_def by blast
  then show ?case using Cons.IH [OF t(3)] by simp
qed simp

lemma write_scratch_sim:
  assumes "write_scratch sys h p fp = Some r"
  shows "\<not> fst r \<longrightarrow> write_scratch all_willing h p fp = Some r"
proof (rule write_scratch.raw_induct
    [where P = "\<lambda>sys h p fp r. \<not> fst r \<longrightarrow> write_scratch all_willing h p fp = Some r", OF _ assms], goal_cases)
  case (1 f sys h p fp r)
  show ?case
  proof (cases p)
    case None
    then show ?thesis using 1(2) by (simp add: write_scratch.simps [of _ h None])
  next
    case (Some a)
    then obtain n s where n: "cells h a = Some n" "str_of h n = Some s" using 1(2) by (auto split: option.splits)
    obtain rc fp1 where e: "emit sys s fp = (rc, fp1)" by (cases "emit sys s fp")
    show ?thesis
    proof (cases "rc < 0")
      case True
      then show ?thesis using 1(2) Some n e by auto
    next
      case False
      then have "f sys h (id_next n) fp1 = Some r" using 1(2) Some n e by simp
      then show ?thesis using 1(1) [of sys h "id_next n" fp1 r] False Some n emit_sim [OF e]
        by (simp add: write_scratch.simps [of all_willing h "Some a"])
    qed
  qed
qed

lemma all_willing: "willing all_willing"
  by (simp add: willing_def all_willing_def)

lemma finish_saved_eq:
  assumes "finish_saved sys fs (idfile @ ''_'') idfile err fp = (reps, files')"
  shows "reps = [] \<Longrightarrow> files' idfile = Some (written fp)"
    and "reps \<noteq> [] \<Longrightarrow> files' idfile = fs idfile"
    and "g \<noteq> idfile \<Longrightarrow> g \<noteq> idfile @ ''_'' \<Longrightarrow> files' g = fs g"
    and "err \<Longrightarrow> reps \<noteq> []"
  using assms by (auto simp: finish_saved_def unlink_def Let_def split: if_splits)

lemma finish_saved_willing:
  "\<not> failed fp \<Longrightarrow> \<exists>files2. finish_saved all_willing fs (idfile @ ''_'') idfile False fp = ([], files2)
     \<and> files2 idfile = Some (written fp)"
  by (auto simp: finish_saved_def all_willing_def)

lemma write_saved_lists_cases:
  assumes "write_saved_lists sys files hosts ls idfile = Some (reports, files')"
  obtains (none) "count_hosts hosts 0 = Some 0" "scratchlist ls = None"
      "reports = (if \<not> can_unlink sys idfile \<and> files idfile \<noteq> None then [ErrorDeleting] else [])" "files' = unlink sys files idfile"
  | (closed) "reports = [CannotOpen]" "files' = unlink sys files (idfile @ ''_'')"
  | (some) n e1 fp1 e2 fp2 reps where "count_hosts hosts 0 = Some n" "\<not> (n = 0 \<and> scratchlist ls = None)"
      "write_hosts sys hosts \<lparr>written = [], failed = False\<rparr> = Some (e1, fp1)"
      "(if e1 then Some (e1, fp1) else write_scratch sys (scratch_heap ls) (scratchlist ls) fp1) = Some (e2, fp2)"
      "finish_saved sys (unlink sys files (idfile @ ''_'')) (idfile @ ''_'') idfile e2 fp2 = (reps, files')"
      "reports = (if e2 then [WriteError] else []) @ reps"
proof -
  obtain n where n: "count_hosts hosts 0 = Some n" using assms by (auto simp: write_saved_lists_def split: bind_splits)
  show ?thesis
  proof (cases "n = 0 \<and> scratchlist ls = None")
    case True
    then show ?thesis using assms n by (intro none) (simp_all add: write_saved_lists_def)
  next
    case f: False
    show ?thesis
    proof (cases "can_open sys (idfile @ ''_'')")
      case True
      then obtain e1 fp1 where 1: "write_hosts sys hosts \<lparr>written = [], failed = False\<rparr> = Some (e1, fp1)"
        using assms n f by (cases "write_hosts sys hosts \<lparr>written = [], failed = False\<rparr>") (auto simp: write_saved_lists_def Let_def)
      define w where "w = (if e1 then Some (e1, fp1) else write_scratch sys (scratch_heap ls) (scratchlist ls) fp1)"
      obtain q where "w = Some q"
        using assms n f True 1 by (cases w) (simp_all add: write_saved_lists_def Let_def w_def [symmetric])
      then obtain e2 fp2 where 2: "w = Some (e2, fp2)" by (cases q) simp
      obtain reps fs2 where 3: "finish_saved sys (unlink sys files (idfile @ ''_'')) (idfile @ ''_'') idfile e2 fp2 = (reps, fs2)"
        by fastforce
      then have "Some ((if e2 then [WriteError] else []) @ reps, fs2) = Some (reports, files')"
        using assms n f True 1 2 by (simp add: write_saved_lists_def Let_def w_def [symmetric])
      then show ?thesis using n f 1 2 3 by (intro some [of n e1 fp1 e2 fp2 reps]) (auto simp: w_def)
    next
      case False
      then show ?thesis using assms n f by (intro closed) (simp_all add: write_saved_lists_def Let_def)
    qed
  qed
qed

lemma write_saved_lists_run:
  assumes "count_hosts hosts 0 = Some n" "(n = 0 \<and> scratchlist ls = None) = False" "can_open sys (idfile @ ''_'') = True"
    "write_hosts sys hosts \<lparr>written = [], failed = False\<rparr> = Some (False, fp1)"
    "write_scratch sys (scratch_heap ls) (scratchlist ls) fp1 = Some (False, fp2)"
    "finish_saved sys (unlink sys files (idfile @ ''_'')) (idfile @ ''_'') idfile False fp2 = (reps, fs2)"
  shows "write_saved_lists sys files hosts ls idfile = Some (reps, fs2)"
  unfolding write_saved_lists_def Let_def
  by (simp only: assms Option.bind.bind_lunit if_False if_True prod.case append_Nil)

lemma write_saved_lists_all_or_nothing:
  assumes "write_saved_lists sys files hosts ls idfile = Some (reports, files')"
  shows "(reports \<noteq> [] \<and> files' idfile = files idfile
       \<or> (\<exists>files2. write_saved_lists all_willing files hosts ls idfile = Some ([], files2) \<and> files' idfile = files2 idfile))
    \<and> (g = idfile \<or> g = idfile @ ''_'' \<or> files' g = files g)"
  using assms
proof (cases rule: write_saved_lists_cases)
  case none
  then show ?thesis by (auto simp: write_saved_lists_def unlink_def all_willing_def)
next
  case closed
  then show ?thesis by (auto simp: unlink_def)
next
  case (some n e1 fp1 e2 fp2 reps)
  let ?fs = "unlink sys files (idfile @ ''_'')" and ?fs' = "unlink all_willing files (idfile @ ''_'')"
  note f = finish_saved_eq [OF some(5)]
  have "unlink sys files (idfile @ ''_'') g = files g" if "g \<noteq> idfile @ ''_''" using that by (simp add: unlink_def)
  then have g: "g = idfile \<or> g = idfile @ ''_'' \<or> files' g = files g"
    using f(3) [of g] by (cases "g = idfile"; cases "g = idfile @ ''_''") simp_all
  show ?thesis
  proof (cases "reports = []")
    case False
    then have "reps \<noteq> []" using some(6) f(4) by (auto split: if_splits)
    then show ?thesis using False f(2) g by (simp add: unlink_def)
  next
    case True
    then have r: "reps = []" "\<not> e2" using some(6) by (auto split: if_splits)
    then have e1: "\<not> e1" using some(4) by (auto split: if_splits)
    then have w: "write_hosts all_willing hosts \<lparr>written = [], failed = False\<rparr> = Some (False, fp1)"
      "write_scratch all_willing (scratch_heap ls) (scratchlist ls) fp1 = Some (False, fp2)"
      using some(3,4) r(2) write_hosts_sim [of sys] write_scratch_sim [of sys] by auto
    have "\<not> failed fp2" using some(5) r by (auto simp: finish_saved_def Let_def split: if_splits)
    then obtain files2 where "finish_saved all_willing ?fs' (idfile @ ''_'') idfile False fp2 = ([], files2)"
      "files2 idfile = Some (written fp2)" using finish_saved_willing by blast
    then have "write_saved_lists all_willing files hosts ls idfile = Some ([], files2)"
      using some(2) by (intro write_saved_lists_run [OF some(1) _ _ w]) (simp_all add: all_willing_def)
    moreover have "files' idfile = files2 idfile"
      using f(1) [OF r(1)] \<open>files2 idfile = Some (written fp2)\<close> by simp
    ultimately have "write_saved_lists all_willing files hosts ls idfile = Some ([], files2) \<and> files' idfile = files2 idfile" ..
    then show ?thesis using g by blast
  qed
qed

subsection \<open>Properties\<close>

text \<open>C7. What \<open>write_saved_lists\<close> writes is what \<open>initialize_saved_lists\<close> reads in the next run: when the
  system refuses nothing, every host of the list gets back its identifiers that were seen or deleted, in
  their order and marked as seen, and the lines of hosts that are not queried are in the scratch list
  again. User names may hold \<open>@\<close>, but no blank behind it.\<close>

theorem saved_lists_roundtrip:
  "saved_state hosts ess ls fs \<Longrightarrow> willing sys \<Longrightarrow>
     \<exists>files' hosts' ls'. write_saved_lists sys files hosts ls idfile = Some ([], files')
       \<and> initialize_saved_lists hosts False (files' idfile) no_scratch = Some (Inr (hosts', ls'))
       \<and> holds_all hosts' (map (\<lambda>es. seen (ids_of es)) ess) \<and> scratch_has ls' fs"
  by (rule write_read)

definition sample_host :: query where
  "sample_host = \<lparr>queryname = ''mail.example.org'', remotename = ''jo@home'', skipped = None,
     oldsaved = the (db_insert (empty_heap, init_uid_db) ''uid7'' UID_DELETED), newsaved = (empty_heap, init_uid_db)\<rparr>"

theorem saved_lists_roundtrip_witness:
  "\<exists>files' hosts' ls'. write_saved_lists all_willing (\<lambda>_. None) [sample_host] no_scratch ''.fetchids'' = Some ([], files')
     \<and> initialize_saved_lists [sample_host] False (files' ''.fetchids'') no_scratch = Some (Inr (hosts', ls'))
     \<and> holds_all hosts' (map (\<lambda>es. seen (ids_of es)) [[(''uid7'', of_int UID_DELETED)]]) \<and> scratch_has ls' []"
proof (rule saved_lists_roundtrip)
  have "store_has (oldsaved sample_host) [(''uid7'', of_int UID_DELETED)]"
    using db_insert_has [OF store_has_empty, of "''uid7''" UID_DELETED]
    by (auto simp: sample_host_def good_id_def c_string_def)
  then show "saved_state [sample_host] [[(''uid7'', of_int UID_DELETED)]] no_scratch []"
    by (simp add: saved_state_def holds_all_def scratch_has_def no_scratch_def good_host_def good_name_def good_user_def
        good_ids_def good_ident_def good_id_def short_ids_def ids_of_def kept_def c_string_def sample_host_def)
qed (rule all_willing)

text \<open>C10. The file of identifiers is replaced as a whole or not at all, whatever the system refuses and
  wherever: either an error is reported and the old file is left as it was, or nothing is reported and the
  file is the one that is written when nothing is refused. No file besides it and the new one that takes
  its place is touched.\<close>

theorem write_saved_lists_atomic:
  "write_saved_lists sys files hosts ls idfile = Some (reports, files') \<Longrightarrow>
     (reports \<noteq> [] \<and> files' idfile = files idfile
       \<or> (\<exists>files2. write_saved_lists all_willing files hosts ls idfile = Some ([], files2) \<and> files' idfile = files2 idfile))
     \<and> (g = idfile \<or> g = idfile @ ''_'' \<or> files' g = files g)"
  by (rule write_saved_lists_all_or_nothing)

definition full_disk :: system where
  "full_disk = all_willing\<lparr>can_flush := (\<lambda>_. False)\<rparr>"

definition sample_lists :: uid_lists where
  "sample_lists = \<lparr>scratchlist = Some 0, scratch_heap = heap1\<rparr>"

theorem write_saved_lists_atomic_witness:
  "([OldFileKept] \<noteq> [] \<and> [''ids'' \<mapsto> ''old''] ''ids'' = [''ids'' \<mapsto> ''old''] ''ids''
     \<or> (\<exists>files2. write_saved_lists all_willing [''ids'' \<mapsto> ''old''] [] sample_lists ''ids'' = Some ([], files2)
         \<and> [''ids'' \<mapsto> ''old''] ''ids'' = files2 ''ids''))
   \<and> (''other'' = ''ids'' \<or> ''other'' = ''ids'' @ ''_'' \<or> [''ids'' \<mapsto> ''old''] ''other'' = [''ids'' \<mapsto> ''old''] ''other'')"
proof (rule write_saved_lists_atomic)
  have "write_scratch full_disk heap1 (Some 0) fp = Some (False, fp\<lparr>written := written fp @ ''a''\<rparr>)" for fp
    by (simp add: write_scratch.simps heap1_def str_of_def emit_def full_disk_def all_willing_def)
  then show "write_saved_lists full_disk [''ids'' \<mapsto> ''old''] [] sample_lists ''ids'' = Some ([OldFileKept], [''ids'' \<mapsto> ''old''])"
    by (auto simp: write_saved_lists_def sample_lists_def finish_saved_def unlink_def full_disk_def all_willing_def Let_def)
qed

text \<open>Every line of the file is split without an access through the null pointer, as \<open>strrchr\<close> finds an \<open>@\<close>
  in the token whenever the code looks for it.\<close>

theorem split_saved_safe: "split_saved buf \<noteq> None"
  by (rule split_saved_total)

end
