(* ===== verification/Socket.thy ===== *)
theory Socket
  imports Strings
begin

section \<open>Line input and output (socket.c)\<close>

text \<open>
  A connection without TLS. \<open>inp\<close> is what the peer will have sent; \<open>avail\<close> and \<open>wroom\<close>
  say, call by call, how much the operating system hands out for a peek and takes for a write
  (as much as possible when the list has run out; a zero in \<open>wroom\<close> is a failed write). The
  peeked bytes are in the receive queue, so the read that follows returns all of them.
\<close>

record sock =
  inp :: string
  avail :: "nat list"
  wroom :: "nat list"
  outp :: string

definition fm_peek :: "sock \<Rightarrow> nat \<Rightarrow> string" where
  "fm_peek s len =
     (let n = (case avail s of [] \<Rightarrow> len | a # _ \<Rightarrow> min len (Suc a)) in take n (inp s))"

definition fm_read :: "sock \<Rightarrow> nat \<Rightarrow> sock" where
  "fm_read s n = s\<lparr>inp := drop n (inp s), avail := tl (avail s)\<rparr>"

text \<open>
  One turn of the loop of \<open>SockRead\<close>: the bytes read and whether a newline ended them;
  \<open>None\<close> is the return value -1.
\<close>

definition read_turn :: "sock \<Rightarrow> nat \<Rightarrow> (string \<times> bool \<times> sock) option" where
  "read_turn s len =
     (let b = fm_peek s len in
      if b = [] then None
      else
        let newline = strchr b LF;
            n = (case newline of Some i \<Rightarrow> i + 1 | None \<Rightarrow> length b) in
        Some (take n b, newline \<noteq> None, fm_read s n))"

lemma read_turn_nonempty: "read_turn s len = Some (b, nl, s') \<Longrightarrow> b \<noteq> []"
  by (auto simp: read_turn_def Let_def split: if_splits option.splits)

text \<open>
  The text read so far is \<open>acc\<close>; \<open>len\<close> is what the buffer still holds. The result is the
  return value, the bytes stored in the buffer and the new state; the terminator is stored behind
  the bytes only if the return value is not -1.
\<close>

function read_loop :: "sock \<Rightarrow> nat \<Rightarrow> string \<Rightarrow> int \<times> string \<times> sock" where
  "read_loop s len acc =
     (case read_turn s len of
        None \<Rightarrow> (-1, acc, s)
      | Some (b, newline, s') \<Rightarrow>
          if newline \<or> len - length b = 0 then (int (length (acc @ b)), acc @ b, s')
          else read_loop s' (len - length b) (acc @ b))"
  by pat_completeness auto
termination
  by (relation "measure (\<lambda>(s, len, acc). len)") (auto dest: read_turn_nonempty)

declare read_loop.simps [simp del]

definition SockRead :: "sock \<Rightarrow> nat \<Rightarrow> int \<times> string \<times> sock" where
  "SockRead s len = (if len - 1 < 1 then (-1, [], s) else read_loop s (len - 1) [])"

function SockWrite :: "sock \<Rightarrow> string \<Rightarrow> int \<times> sock" where
  "SockWrite s buf =
     (if buf = [] then (0, s)
      else
        let n = (case wroom s of [] \<Rightarrow> length buf | r # _ \<Rightarrow> min r (length buf));
            s1 = s\<lparr>wroom := tl (wroom s), outp := outp s @ take n buf\<rparr> in
        if n = 0 then (-1, s1)
        else
          let (wrlen, s2) = SockWrite s1 (drop n buf) in
          (if wrlen < 0 then -1 else int n + wrlen, s2))"
  by pat_completeness auto
termination
  by (relation "measure (\<lambda>(s, buf). length buf)") auto

declare SockWrite.simps [simp del]

text \<open>\<open>vsnprintf\<close> into a buffer of 8192 bytes; the formatted text is the argument.\<close>

definition SockPrintf :: "sock \<Rightarrow> string \<Rightarrow> int \<times> sock" where
  "SockPrintf s t = SockWrite s (take 8191 (cstr_of t))"

section \<open>Lines\<close>

text \<open>The line a reader with a buffer for \<open>len\<close> bytes gets from a stream.\<close>

definition line_of :: "nat \<Rightarrow> string \<Rightarrow> string option" where
  "line_of len s =
     (case strchr (take len s) LF of
        Some i \<Rightarrow> Some (take (i + 1) s)
      | None \<Rightarrow> if length s < len then None else Some (take len s))"

lemma strchr_take_Some: "strchr (take n s) LF = Some i \<Longrightarrow> n \<le> m \<Longrightarrow> strchr (take m s) LF = Some i"
proof -
  assume i: "strchr (take n s) LF = Some i" and "n \<le> m"
  then have "take m s = take n s @ take (m - n) (drop n s)" by (metis le_add_diff_inverse take_add)
  then show ?thesis using i strchr_append [of LF "take n s"] by simp
qed

lemma line_of_step:
  assumes "strchr (take n s) LF = None" "n < len" "n \<le> length s"
  shows "line_of len s = map_option ((@) (take n s)) (line_of (len - n) (drop n s))"
proof -
  have "take len s = take n s @ take (len - n) (drop n s)" using assms(2) by (metis le_add_diff_inverse less_imp_le take_add)
  then have c: "strchr (take len s) LF = map_option ((+) n) (strchr (take (len - n) (drop n s)) LF)"
    using strchr_append [of LF "take n s" "take (len - n) (drop n s)"] assms by (simp add: min_def)
  have t: "take (n + k) s = take n s @ take k (drop n s)" for k by (rule take_add)
  show ?thesis
  proof (cases "strchr (take (len - n) (drop n s)) LF")
    case (Some i)
    then show ?thesis using t [of "i + 1"] by (simp add: line_of_def c)
  next
    case None
    then have n: "strchr (take len s) LF = None" using c by simp
    have "length s < len \<longleftrightarrow> length (drop n s) < len - n" using assms(2,3) by auto
    then show ?thesis unfolding line_of_def n None option.case using t [of "len - n"] assms(2) by auto
  qed
qed

lemma read_loop_eq:
  assumes "0 < len"
  shows "case line_of len (inp s) of
      None \<Rightarrow> fst (read_loop s len acc) = -1
    | Some l \<Rightarrow> \<exists>s'. read_loop s len acc = (int (length (acc @ l)), acc @ l, s') \<and> inp s' = drop (length l) (inp s)
        \<and> outp s' = outp s \<and> wroom s' = wroom s"
  using assms
proof (induction s len acc rule: read_loop.induct)
  case (1 s len acc)
  define k where "k = (case avail s of [] \<Rightarrow> len | a # _ \<Rightarrow> min len (Suc a))"
  have k: "0 < k" "k \<le> len" using "1.prems" by (auto simp: k_def split: list.split)
  have peek: "fm_peek s len = take k (inp s)" by (simp add: fm_peek_def k_def)
  show ?case
  proof (cases "inp s = []")
    case True
    then have "read_turn s len = None" by (simp add: read_turn_def peek)
    then show ?thesis using True "1.prems" by (simp add: read_loop.simps [of s len acc] line_of_def strchr_def)
  next
    case ne: False
    show ?thesis
    proof (cases "strchr (take k (inp s)) LF")
      case (Some i)
      have i: "i < k" "i < length (inp s)" using strchr_split [OF Some] by simp_all
      have "read_turn s len = Some (take (i + 1) (inp s), True, fm_read s (i + 1))"
        using ne k(1) Some i by (simp add: read_turn_def peek min_def)
      moreover have "line_of len (inp s) = Some (take (i + 1) (inp s))"
        using strchr_take_Some [OF Some k(2)] by (simp add: line_of_def)
      ultimately show ?thesis using i by (simp add: read_loop.simps [of s len acc] fm_read_def min_def)
    next
      case None
      define n where "n = min k (length (inp s))"
      have n: "0 < n" "n \<le> len" "n \<le> length (inp s)" "take k (inp s) = take n (inp s)" "length (take n (inp s)) = n"
        using k ne by (auto simp: n_def min_def)
      have turn: "read_turn s len = Some (take n (inp s), False, fm_read s n)"
        using ne k(1) None n by (simp add: read_turn_def peek Let_def)
      show ?thesis
      proof (cases "len - n = 0")
        case True
        then have "len = n" using n by simp
        then have "line_of len (inp s) = Some (take n (inp s))" using None n by (simp add: line_of_def)
        moreover have "read_loop s len acc = (int (length (acc @ take n (inp s))), acc @ take n (inp s), fm_read s n)"
          using True turn n by (subst read_loop.simps) simp
        ultimately show ?thesis using n by (simp add: fm_read_def)
      next
        case False
        have rec: "read_loop s len acc = read_loop (fm_read s n) (len - n) (acc @ take n (inp s))"
          using turn False n by (simp add: read_loop.simps [of s len acc])
        have "\<not> (False \<or> len - length (take n (inp s)) = 0)" using False n by simp
        note ih = "1.IH" [OF turn refl refl this]
        have "strchr (take n (inp s)) LF = None" using None n by simp
        note st = line_of_step [OF this _ n(3), of len]
        show ?thesis
          using ih st False n unfolding rec
          by (auto simp: fm_read_def add.commute split: option.splits)
      qed
    qed
  qed
qed

lemma SockRead_eq:
  assumes "2 \<le> len"
  shows "case line_of (len - 1) (inp s) of
      None \<Rightarrow> fst (SockRead s len) = -1
    | Some l \<Rightarrow> \<exists>s'. SockRead s len = (int (length l), l, s') \<and> inp s' = drop (length l) (inp s)
        \<and> outp s' = outp s \<and> wroom s' = wroom s"
  using read_loop_eq [of "len - 1" s "[]"] assms by (auto simp: SockRead_def split: option.splits)

lemma SockRead_consumes: "SockRead s len = (r, b, s') \<Longrightarrow> r \<noteq> -1 \<Longrightarrow> length (inp s') < length (inp s)"
proof -
  assume r: "SockRead s len = (r, b, s')" "r \<noteq> -1"
  have l: "2 \<le> len" using r by (auto simp: SockRead_def split: if_splits)
  then obtain l where l: "line_of (len - 1) (inp s) = Some l" "inp s' = drop (length l) (inp s)"
    using SockRead_eq [OF l, of s] r by (auto split: option.splits)
  have "take (len - 1) (inp s) \<noteq> []" if "inp s \<noteq> []" using that \<open>2 \<le> len\<close> by simp
  then have "l \<noteq> []" "inp s \<noteq> []"
    using l(1) \<open>2 \<le> len\<close> by (auto simp: line_of_def strchr_def split: option.splits if_splits)
  then show ?thesis using l(2) by simp
qed

lemma SockWrite_eq:
  "0 \<notin> set (wroom s) \<Longrightarrow> \<exists>s'. SockWrite s buf = (int (length buf), s') \<and> outp s' = outp s @ buf \<and> inp s' = inp s
     \<and> avail s' = avail s \<and> 0 \<notin> set (wroom s')"
proof (induction s buf rule: SockWrite.induct)
  case (1 s buf)
  show ?case
  proof (cases "buf = []")
    case True
    with "1.prems" show ?thesis by (subst SockWrite.simps) simp
  next
    case False
    define n where "n = (case wroom s of [] \<Rightarrow> length buf | r # _ \<Rightarrow> min r (length buf))"
    have n: "n \<noteq> 0" "n \<le> length buf" using False "1.prems" by (auto simp: n_def split: list.splits)
    define s1 where "s1 = s\<lparr>wroom := tl (wroom s), outp := outp s @ take n buf\<rparr>"
    have "0 \<notin> set (wroom s1)" using "1.prems" by (cases "wroom s") (auto simp: s1_def)
    from "1.IH" [OF False n_def s1_def n(1) this] obtain s' where
      "SockWrite s1 (drop n buf) = (int (length (drop n buf)), s')" "outp s' = outp s1 @ drop n buf" "inp s' = inp s1"
      "avail s' = avail s1" "0 \<notin> set (wroom s')" by blast
    then show ?thesis
      using False n by (subst SockWrite.simps) (simp add: n_def [symmetric] s1_def [symmetric], simp add: s1_def)
  qed
qed

section \<open>Properties\<close>

text \<open>
  \<open>SockRead\<close> delivers the next line of the stream, or as much of it as the buffer holds,
  no matter how the operating system splits the stream, and leaves exactly the rest of the stream
  to the next call. When the stream ends before the line does, the result is -1.
\<close>

theorem SockRead_line:
  assumes "2 \<le> len"
  shows "case line_of (len - 1) (inp s) of
      None \<Rightarrow> fst (SockRead s len) = -1
    | Some l \<Rightarrow> \<exists>s'. SockRead s len = (int (length l), l, s') \<and> inp s' = drop (length l) (inp s)"
  using SockRead_eq [OF assms, of s] by (auto split: option.splits)

theorem SockRead_line_witness:
  "\<exists>s'. SockRead \<lparr>inp = ''ab'' @ [LF] @ ''cd'', avail = [0, 5], wroom = [], outp = []\<rparr> 10 = (3, ''ab'' @ [LF], s')
   \<and> inp s' = ''cd''"
proof -
  have "line_of 9 (''ab'' @ [LF] @ ''cd'') = Some (''ab'' @ [LF])" by code_simp
  then show ?thesis
    using SockRead_line [of 10 "\<lparr>inp = ''ab'' @ [LF] @ ''cd'', avail = [0, 5], wroom = [], outp = []\<rparr>"] by simp
qed

text \<open>
  \<open>SockWrite\<close> sends all of its buffer, once and in order, however little the operating
  system takes at a time, as long as no write fails; its result is the length of the buffer.
\<close>

theorem SockWrite_all:
  assumes "0 \<notin> set (wroom s)"
  shows "fst (SockWrite s buf) = int (length buf) \<and> outp (snd (SockWrite s buf)) = outp s @ buf"
  using SockWrite_eq [OF assms, of buf] by auto

theorem SockWrite_all_witness:
  "fst (SockWrite \<lparr>inp = [], avail = [], wroom = [2, 1], outp = ''x''\<rparr> ''hello'') = 5
   \<and> outp (snd (SockWrite \<lparr>inp = [], avail = [], wroom = [2, 1], outp = ''x''\<rparr> ''hello'')) = ''xhello''"
  using SockWrite_all [of "\<lparr>inp = [], avail = [], wroom = [2, 1], outp = ''x''\<rparr>" "''hello''"] by simp

end
