(* ===== verification/Md5.thy ===== *)
theory Md5
  imports Prelude
begin

section \<open>MD5 (md5c.c, md5ify.c)\<close>

text \<open>
  The union of the context is its 64 bytes; reading it as words uses the byte order of a
  little-endian machine, on which \<open>byteReverse\<close> is harmless, as its comment says
  (\<open>byteReverse_id\<close>). A \<open>memmove\<close> into the context is an overwrite of its cells.
\<close>

record md5ctx =
  hbuf :: "u32 \<times> u32 \<times> u32 \<times> u32"
  bits0 :: u32
  bits1 :: u32
  inb :: "byte list"

subsection \<open>Words and bytes\<close>

definition le_word :: "byte list \<Rightarrow> u32" where
  "le_word b =
     push_bit 16 (push_bit 8 (ucast (b ! 3)) OR ucast (b ! 2)) OR (push_bit 8 (ucast (b ! 1)) OR ucast (b ! 0))"

definition le_bytes :: "u32 \<Rightarrow> byte list" where
  "le_bytes w = [ucast w, ucast (drop_bit 8 w), ucast (drop_bit 16 w), ucast (drop_bit 24 w)]"

fun byteReverse :: "byte list \<Rightarrow> nat \<Rightarrow> byte list" where
  "byteReverse buf 0 = buf"
| "byteReverse buf (Suc longs) = le_bytes (le_word buf) @ byteReverse (drop 4 buf) longs"

text \<open>The member \<open>in32\<close> of the union.\<close>

fun words_of :: "byte list \<Rightarrow> nat \<Rightarrow> u32 list" where
  "words_of buf 0 = []"
| "words_of buf (Suc n) = le_word buf # words_of (drop 4 buf) n"

subsection \<open>The transformation\<close>

datatype md5fun = F1 | F2 | F3 | F4

fun md5f :: "md5fun \<Rightarrow> u32 \<Rightarrow> u32 \<Rightarrow> u32 \<Rightarrow> u32" where
  "md5f F1 x y z = z XOR (x AND (y XOR z))"
| "md5f F2 x y z = y XOR (z AND (x XOR y))"
| "md5f F3 x y z = x XOR y XOR z"
| "md5f F4 x y z = y XOR (x OR NOT z)"

definition rotl :: "nat \<Rightarrow> u32 \<Rightarrow> u32" where
  "rotl s w = push_bit s w OR drop_bit (32 - s) w"

text \<open>
  \<open>MD5STEP\<close> updates its second argument; from one call to the next the four registers move on
  by one place, so the step returns them in the order of the next call.
\<close>

definition MD5STEP ::
  "md5fun \<Rightarrow> u32 \<times> u32 \<times> u32 \<times> u32 \<Rightarrow> u32 \<Rightarrow> nat \<Rightarrow> u32 \<times> u32 \<times> u32 \<times> u32" where
  "MD5STEP f = (\<lambda>(w, x, y, z) data s. (z, rotl s (w + (md5f f x y z + data)) + x, x, y))"

text \<open>The 64 calls: the function, the index into \<open>in\<close>, the constant and the shift.\<close>

definition md5_steps :: "(md5fun \<times> nat \<times> u32 \<times> nat) list" where
  "md5_steps = [
    (F1, 0, 0xd76aa478, 7), (F1, 1, 0xe8c7b756, 12),
    (F1, 2, 0x242070db, 17), (F1, 3, 0xc1bdceee, 22),
    (F1, 4, 0xf57c0faf, 7), (F1, 5, 0x4787c62a, 12),
    (F1, 6, 0xa8304613, 17), (F1, 7, 0xfd469501, 22),
    (F1, 8, 0x698098d8, 7), (F1, 9, 0x8b44f7af, 12),
    (F1, 10, 0xffff5bb1, 17), (F1, 11, 0x895cd7be, 22),
    (F1, 12, 0x6b901122, 7), (F1, 13, 0xfd987193, 12),
    (F1, 14, 0xa679438e, 17), (F1, 15, 0x49b40821, 22),
    (F2, 1, 0xf61e2562, 5), (F2, 6, 0xc040b340, 9),
    (F2, 11, 0x265e5a51, 14), (F2, 0, 0xe9b6c7aa, 20),
    (F2, 5, 0xd62f105d, 5), (F2, 10, 0x02441453, 9),
    (F2, 15, 0xd8a1e681, 14), (F2, 4, 0xe7d3fbc8, 20),
    (F2, 9, 0x21e1cde6, 5), (F2, 14, 0xc33707d6, 9),
    (F2, 3, 0xf4d50d87, 14), (F2, 8, 0x455a14ed, 20),
    (F2, 13, 0xa9e3e905, 5), (F2, 2, 0xfcefa3f8, 9),
    (F2, 7, 0x676f02d9, 14), (F2, 12, 0x8d2a4c8a, 20),
    (F3, 5, 0xfffa3942, 4), (F3, 8, 0x8771f681, 11),
    (F3, 11, 0x6d9d6122, 16), (F3, 14, 0xfde5380c, 23),
    (F3, 1, 0xa4beea44, 4), (F3, 4, 0x4bdecfa9, 11),
    (F3, 7, 0xf6bb4b60, 16), (F3, 10, 0xbebfbc70, 23),
    (F3, 13, 0x289b7ec6, 4), (F3, 0, 0xeaa127fa, 11),
    (F3, 3, 0xd4ef3085, 16), (F3, 6, 0x04881d05, 23),
    (F3, 9, 0xd9d4d039, 4), (F3, 12, 0xe6db99e5, 11),
    (F3, 15, 0x1fa27cf8, 16), (F3, 2, 0xc4ac5665, 23),
    (F4, 0, 0xf4292244, 6), (F4, 7, 0x432aff97, 10),
    (F4, 14, 0xab9423a7, 15), (F4, 5, 0xfc93a039, 21),
    (F4, 12, 0x655b59c3, 6), (F4, 3, 0x8f0ccc92, 10),
    (F4, 10, 0xffeff47d, 15), (F4, 1, 0x85845dd1, 21),
    (F4, 8, 0x6fa87e4f, 6), (F4, 15, 0xfe2ce6e0, 10),
    (F4, 6, 0xa3014314, 15), (F4, 13, 0x4e0811a1, 21),
    (F4, 4, 0xf7537e82, 6), (F4, 11, 0xbd3af235, 10),
    (F4, 2, 0x2ad7d2bb, 15), (F4, 9, 0xeb86d391, 21)]"

fun run_steps ::
  "u32 list \<Rightarrow> (md5fun \<times> nat \<times> u32 \<times> nat) list \<Rightarrow> u32 \<times> u32 \<times> u32 \<times> u32 \<Rightarrow> u32 \<times> u32 \<times> u32 \<times> u32" where
  "run_steps ins [] r = r"
| "run_steps ins ((f, i, k, s) # steps) r = run_steps ins steps (MD5STEP f r (ins ! i + k) s)"

definition MD5Transform :: "u32 \<times> u32 \<times> u32 \<times> u32 \<Rightarrow> u32 list \<Rightarrow> u32 \<times> u32 \<times> u32 \<times> u32" where
  "MD5Transform = (\<lambda>(b0, b1, b2, b3) ins.
     let (a, b, c, d) = run_steps ins md5_steps (b0, b1, b2, b3) in (b0 + a, b1 + b, b2 + c, b3 + d))"

subsection \<open>Init, update, final\<close>

definition MD5Init :: "md5ctx \<Rightarrow> md5ctx" where
  "MD5Init ctx =
     ctx\<lparr>hbuf := (0x67452301, 0xefcdab89, 0x98badcfe, 0x10325476), bits0 := 0, bits1 := 0\<rparr>"

text \<open>The block in the context is full: \<open>byteReverse\<close> and \<open>MD5Transform\<close>.\<close>

definition full_block :: "md5ctx \<Rightarrow> md5ctx" where
  "full_block ctx =
     (let b = byteReverse (inb ctx) 16 in ctx\<lparr>inb := b, hbuf := MD5Transform (hbuf ctx) (words_of b 16)\<rparr>)"

function md5_blocks :: "md5ctx \<Rightarrow> byte list \<Rightarrow> md5ctx" where
  "md5_blocks ctx buf =
     (if length buf \<ge> 64
      then md5_blocks (full_block (ctx\<lparr>inb := overwrite (inb ctx) 0 (take 64 buf)\<rparr>)) (drop 64 buf)
      else ctx\<lparr>inb := overwrite (inb ctx) 0 buf\<rparr>)"
  by pat_completeness auto
termination
  by (relation "measure (\<lambda>(ctx, buf). length buf)") auto

declare md5_blocks.simps [simp del]

definition count_bits :: "md5ctx \<Rightarrow> u32 \<Rightarrow> md5ctx" where
  "count_bits ctx len =
     (let t = bits0 ctx; b0 = t + push_bit 3 len;
          b1 = (if b0 < t then bits1 ctx + 1 else bits1 ctx) in
      ctx\<lparr>bits0 := b0, bits1 := b1 + drop_bit 29 len\<rparr>)"

definition MD5Update :: "md5ctx \<Rightarrow> byte list \<Rightarrow> md5ctx" where
  "MD5Update ctx buf =
     (let len = length buf;
          ctx1 = count_bits ctx (word_of_nat len);
          t = unat (drop_bit 3 (bits0 ctx) AND 0x3f) in
      if t \<noteq> 0 then
        (if len < 64 - t then ctx1\<lparr>inb := overwrite (inb ctx1) t buf\<rparr>
         else
           md5_blocks (full_block (ctx1\<lparr>inb := overwrite (inb ctx1) t (take (64 - t) buf)\<rparr>))
             (drop (64 - t) buf))
      else md5_blocks ctx1 buf)"

text \<open>The digest; the context, which is cleared afterwards, is not returned.\<close>

definition hash_bytes :: "u32 \<times> u32 \<times> u32 \<times> u32 \<Rightarrow> byte list" where
  "hash_bytes = (\<lambda>(a, b, c, d). byteReverse (le_bytes a @ le_bytes b @ le_bytes c @ le_bytes d) 4)"

definition MD5Final :: "md5ctx \<Rightarrow> byte list" where
  "MD5Final ctx =
     (let count = unat (drop_bit 3 (bits0 ctx) AND 0x3f);
          in1 = overwrite (inb ctx) count [0x80];
          p = count + 1;
          count1 = 64 - 1 - count;
          ctx2 =
            (if count1 < 8 then
               (let ctx1 = full_block (ctx\<lparr>inb := overwrite in1 p (replicate count1 0)\<rparr>) in
                ctx1\<lparr>inb := overwrite (inb ctx1) 0 (replicate 56 0)\<rparr>)
             else ctx\<lparr>inb := overwrite in1 p (replicate (count1 - 8) 0)\<rparr>);
          in3 = byteReverse (inb ctx2) 14;
          in4 = overwrite (overwrite in3 56 (le_bytes (bits0 ctx2))) 60 (le_bytes (bits1 ctx2)) in
      hash_bytes (MD5Transform (hbuf ctx2) (words_of in4 16)))"

text \<open>\<open>"%02x"\<close>\<close>

definition hexdigit_lower :: "nat \<Rightarrow> char" where
  "hexdigit_lower n = (if n < 10 then chr (48 + n) else chr (87 + n))"

definition hex2_lower :: "byte \<Rightarrow> string" where
  "hex2_lower b = [hexdigit_lower (unat b div 16), hexdigit_lower (unat b mod 16)]"

text \<open>The context as \<open>MD5Digest\<close> and \<open>hmac_md5\<close> declare it: not initialised.\<close>

definition MD5Digest :: "md5ctx \<Rightarrow> byte list \<Rightarrow> string" where
  "MD5Digest ctx s =
     (let digest = MD5Final (MD5Update (MD5Init ctx) s) in
      concat (map hex2_lower digest))"

end
