(* ===== verification/Md5Spec.thy ===== *)
theory Md5Spec
  imports Md5
begin

section \<open>MD5 as a hash of the whole message\<close>

text \<open>
  The specification is the one of RFC 1321: the message is padded and its blocks are absorbed in
  turn. The streaming implementation is proved to compute it, for any split of the message into
  updates; the locale \<open>hash_stream\<close> is the interface a client of such an implementation needs.
\<close>

subsection \<open>Bytes and words\<close>

lemma le_bytes_le_word: "length b \<ge> 4 \<Longrightarrow> le_bytes (le_word b) = take 4 b"
proof -
  assume l: "length b \<ge> 4"
  have no: "\<not> bit (x :: byte) n" if "n \<ge> 8" for x n using that by (auto dest: bit_imp_le_length)
  have "ucast (le_word b) = b ! 0" "ucast (drop_bit 8 (le_word b)) = b ! 1"
    "ucast (drop_bit 16 (le_word b)) = b ! 2" "ucast (drop_bit 24 (le_word b)) = b ! 3"
    by (rule bit_word_eqI; auto simp: le_word_def bit_simps no)+
  moreover have "take 4 b = [b ! 0, b ! 1, b ! 2, b ! 3]"
    using l by (simp add: list_eq_iff_nth_eq less_Suc_eq numeral_eq_Suc)
  ultimately show ?thesis by (simp add: le_bytes_def)
qed

lemma length_le_bytes [simp]: "length (le_bytes w) = 4"
  by (simp add: le_bytes_def)

lemma byteReverse_id [simp]: "4 * n \<le> length buf \<Longrightarrow> byteReverse buf n = buf"
proof (induction buf n rule: byteReverse.induct)
  case (2 buf longs)
  then have "byteReverse (drop 4 buf) longs = drop 4 buf" by simp
  then show ?case using 2(2) le_bytes_le_word [of buf] by simp
qed simp

lemma words_of_append: "length buf = 4 * n \<Longrightarrow> words_of (buf @ r) n = words_of buf n"
proof (induction buf n rule: words_of.induct)
  case (2 buf n)
  then have "le_word (buf @ r) = le_word buf" by (simp add: le_word_def nth_append)
  with 2 show ?case by simp
qed simp

subsection \<open>Blocks\<close>

function absorb :: "u32 \<times> u32 \<times> u32 \<times> u32 \<Rightarrow> byte list \<Rightarrow> u32 \<times> u32 \<times> u32 \<times> u32" where
  "absorb h m = (if length m \<ge> 64 then absorb (MD5Transform h (words_of (take 64 m) 16)) (drop 64 m) else h)"
  by pat_completeness auto
termination
  by (relation "measure (\<lambda>(h, m). length m)") auto

declare absorb.simps [simp del]

definition rest64 :: "byte list \<Rightarrow> byte list" where
  "rest64 m = drop (64 * (length m div 64)) m"

lemma length_rest64: "length (rest64 m) = length m mod 64"
  by (simp add: rest64_def minus_mult_div_eq_mod [symmetric])

lemma length_rest64_less [simp]: "length (rest64 m) < 64"
  by (simp add: length_rest64)

lemma absorb_short [simp]: "length m < 64 \<Longrightarrow> absorb h m = h"
  by (simp add: absorb.simps)

lemma rest64_short [simp]: "length m < 64 \<Longrightarrow> rest64 m = m"
  by (simp add: rest64_def)

lemma absorb_block: "length b = 64 \<Longrightarrow> absorb h (b @ m) = absorb (MD5Transform h (words_of b 16)) m"
  by (simp add: absorb.simps [of h "b @ m"])

lemma rest64_block: "length b = 64 \<Longrightarrow> rest64 (b @ m) = rest64 m"
proof -
  assume "length b = 64"
  then have "64 * (length (b @ m) div 64) = length b + 64 * (length m div 64)"
    using div_add_self1 [of "64::nat" "length m"] by simp
  then have "rest64 (b @ m) = drop (length b + 64 * (length m div 64)) (b @ m)" unfolding rest64_def by (rule arg_cong)
  then show ?thesis by (simp add: rest64_def)
qed

lemma absorb_append: "absorb h (m @ b) = absorb (absorb h m) (rest64 m @ b) \<and> rest64 (m @ b) = rest64 (rest64 m @ b)"
proof (induction h m rule: absorb.induct)
  case (1 h m)
  show ?case
  proof (cases "length m \<ge> 64")
    case False
    then show ?thesis by simp
  next
    case True
    let ?h = "MD5Transform h (words_of (take 64 m) 16)"
    have t: "length (take 64 m) = 64" using True by simp
    have m: "m = take 64 m @ drop 64 m" by simp
    have "m @ b = take 64 m @ (drop 64 m @ b)" by simp
    then have "absorb h (m @ b) = absorb ?h (drop 64 m @ b)" "rest64 (m @ b) = rest64 (drop 64 m @ b)"
      using absorb_block [OF t] rest64_block [OF t] by metis+
    moreover have "absorb h m = absorb ?h (drop 64 m)" "rest64 m = rest64 (drop 64 m)"
      using absorb_block [OF t] rest64_block [OF t] m by metis+
    ultimately show ?thesis using "1.IH" [OF True] by simp
  qed
qed

subsection \<open>The context\<close>

lemma full_block_eq:
  "length (inb ctx) = 64 \<Longrightarrow> full_block ctx = ctx\<lparr>hbuf := MD5Transform (hbuf ctx) (words_of (inb ctx) 16)\<rparr>"
  by (simp add: full_block_def Let_def)

lemma overwrite_all: "length b = length buf \<Longrightarrow> overwrite buf 0 b = b"
  by (simp add: overwrite_def)

lemma take_overwrite: "i + length b \<le> length buf \<Longrightarrow> take (i + length b) (overwrite buf i b) = take i buf @ b"
  by (simp add: overwrite_def)

lemma md5_blocks_spec:
  "length (inb ctx) = 64 \<Longrightarrow> hbuf (md5_blocks ctx b) = absorb (hbuf ctx) b \<and> length (inb (md5_blocks ctx b)) = 64
     \<and> take (length (rest64 b)) (inb (md5_blocks ctx b)) = rest64 b
     \<and> bits0 (md5_blocks ctx b) = bits0 ctx \<and> bits1 (md5_blocks ctx b) = bits1 ctx"
proof (induction ctx b rule: md5_blocks.induct)
  case (1 ctx b)
  show ?case
  proof (cases "length b \<ge> 64")
    case False
    then show ?thesis
      using "1.prems" take_overwrite [of 0 b "inb ctx"] by (simp add: md5_blocks.simps [of ctx b])
  next
    case True
    let ?c = "full_block (ctx\<lparr>inb := overwrite (inb ctx) 0 (take 64 b)\<rparr>)"
    have t: "length (take 64 b) = 64" using True by simp
    have c: "?c = ctx\<lparr>inb := take 64 b, hbuf := MD5Transform (hbuf ctx) (words_of (take 64 b) 16)\<rparr>"
      using True "1.prems" by (simp add: full_block_eq overwrite_all)
    have l: "length (inb ?c) = 64" unfolding c using t by simp
    have e: "md5_blocks ctx b = md5_blocks ?c (drop 64 b)" using True by (simp add: md5_blocks.simps [of ctx b])
    have "absorb (hbuf ctx) b = absorb (hbuf ?c) (drop 64 b)" "rest64 b = rest64 (drop 64 b)"
      using absorb_block [OF t, of "hbuf ctx" "drop 64 b"] rest64_block [OF t, of "drop 64 b"] by (simp_all add: c)
    then show ?thesis
      using "1.IH" [OF True l] unfolding e by (simp add: c)
  qed
qed

text \<open>The context after the message \<open>m\<close>.\<close>

definition md5_iv :: "u32 \<times> u32 \<times> u32 \<times> u32" where
  "md5_iv = (0x67452301, 0xefcdab89, 0x98badcfe, 0x10325476)"

definition md5_rep :: "byte list \<Rightarrow> md5ctx \<Rightarrow> bool" where
  "md5_rep m ctx \<longleftrightarrow> length (inb ctx) = 64 \<and> hbuf ctx = absorb md5_iv m
     \<and> take (length (rest64 m)) (inb ctx) = rest64 m
     \<and> bits0 ctx = word_of_nat (8 * length m) \<and> bits1 ctx = word_of_nat (8 * length m div 2 ^ 32)"

lemma md5_rep_Init: "length (inb ctx) = 64 \<Longrightarrow> md5_rep [] (MD5Init ctx)"
  by (simp add: md5_rep_def MD5Init_def md5_iv_def)

lemma count_mod: "unat (drop_bit 3 (word_of_nat (8 * n) :: u32) AND 0x3f) = n mod 64"
proof -
  have "drop_bit 3 (word_of_nat (8 * n) :: u32) AND mask 6 = take_bit 6 (drop_bit 3 (word_of_nat (8 * n)))"
    by (simp add: take_bit_eq_mask and.commute)
  also have "unat \<dots> = unat (word_of_nat (8 * n) :: u32) div 8 mod 64"
    by (simp only: unsigned_take_bit_eq unat_drop_bit_eq, simp only: take_bit_eq_mod drop_bit_eq_div) simp
  also have "\<dots> = (8 * n) mod 2 ^ 32 div 8 mod 64" by (simp only: unat_of_nat) simp
  also have "\<dots> = n mod 64"
  proof -
    have "(8 * n) mod (8 * 2 ^ 29) = 8 * (n mod 2 ^ 29)" by (rule mult_mod_right [symmetric])
    then have "(8 * n) mod 2 ^ 32 div 8 = n mod 2 ^ 29" by simp
    moreover have "n mod 2 ^ 29 mod 64 = n mod 64" by (rule mod_mod_cancel) simp
    ultimately show ?thesis by simp
  qed
  finally show ?thesis by (simp add: mask_eq_exp_minus_1)
qed

lemma count_bits_spec:
  assumes "bits0 ctx = word_of_nat (8 * M)" "bits1 ctx = word_of_nat (8 * M div 2 ^ 32)" "B < 2 ^ 32"
  shows "bits0 (count_bits ctx (word_of_nat B)) = word_of_nat (8 * (M + B))"
    "bits1 (count_bits ctx (word_of_nat B)) = word_of_nat (8 * (M + B) div 2 ^ 32)"
    "inb (count_bits ctx (word_of_nat B)) = inb ctx" "hbuf (count_bits ctx (word_of_nat B)) = hbuf ctx"
proof -
  have p: "push_bit 3 (word_of_nat B :: u32) = word_of_nat (8 * B)" by (simp add: push_bit_eq_mult)
  have b0: "word_of_nat (8 * M) + push_bit 3 (word_of_nat B) = (word_of_nat (8 * (M + B)) :: u32)"
    unfolding p by simp
  have d: "drop_bit 29 (word_of_nat B :: u32) = word_of_nat (B div 2 ^ 29)"
  proof -
    have "unat (drop_bit 29 (word_of_nat B :: u32)) = B div 2 ^ 29"
      using assms(3) by (simp only: unat_drop_bit_eq, simp only: drop_bit_eq_div unat_of_nat) simp
    from arg_cong [OF this, of "word_of_nat :: nat \<Rightarrow> u32"] show ?thesis by (simp only: of_nat_unat ucast_id)
  qed
  define r where "r = 8 * M mod 2 ^ 32"
  define s where "s = 8 * B mod 2 ^ 32"
  have less: "(word_of_nat (8 * (M + B)) :: u32) < word_of_nat (8 * M) \<longleftrightarrow> r + s \<ge> 2 ^ 32"
  proof -
    have "8 * (M + B) mod 2 ^ 32 = (r + s) mod 2 ^ 32" by (simp add: r_def s_def mod_add_eq distrib_left)
    moreover have "r < 2 ^ 32" "s < 2 ^ 32" by (simp_all add: r_def s_def)
    ultimately have "8 * (M + B) mod 2 ^ 32 < r \<longleftrightarrow> r + s \<ge> 2 ^ 32"
      by (cases "r + s < 2 ^ 32") (auto simp: mod_if)
    then show ?thesis by (simp only: word_less_nat_alt unat_of_nat r_def) simp
  qed
  have dv: "8 * (M + B) div 2 ^ 32 = 8 * M div 2 ^ 32 + (if r + s \<ge> 2 ^ 32 then 1 else 0) + B div 2 ^ 29"
  proof -
    have "8 * M = 2 ^ 32 * (8 * M div 2 ^ 32) + r" by (simp only: r_def mult_div_mod_eq)
    moreover have "8 * B = 2 ^ 32 * (B div 2 ^ 29) + s"
    proof -
      have "8 * B div 2 ^ 32 = B div 2 ^ 29" by (simp add: div_mult2_eq [of _ 8, simplified, symmetric])
      then show ?thesis using mult_div_mod_eq [of "2 ^ 32" "8 * B"] by (simp only: s_def)
    qed
    ultimately have e: "8 * (M + B) = (r + s) + 2 ^ 32 * (8 * M div 2 ^ 32 + B div 2 ^ 29)" by (simp only: distrib_left)
    have "r < 2 ^ 32" "s < 2 ^ 32" by (simp_all add: r_def s_def)
    then have "(r + s) div 2 ^ 32 = (if r + s \<ge> 2 ^ 32 then 1 else 0)" by (auto simp: div_if)
    then show ?thesis unfolding e by simp
  qed
  show "bits0 (count_bits ctx (word_of_nat B)) = word_of_nat (8 * (M + B))"
    "inb (count_bits ctx (word_of_nat B)) = inb ctx" "hbuf (count_bits ctx (word_of_nat B)) = hbuf ctx"
    using b0 by (simp_all add: count_bits_def Let_def assms)
  show "bits1 (count_bits ctx (word_of_nat B)) = word_of_nat (8 * (M + B) div 2 ^ 32)"
    unfolding dv by (simp only: count_bits_def Let_def assms b0 less d md5ctx.simps) (simp add: less)
qed

lemma rep_t: "md5_rep m ctx \<Longrightarrow> unat (drop_bit 3 (bits0 ctx) AND 0x3f) = length (rest64 m)"
  using count_mod [of "length m"] by (simp add: md5_rep_def length_rest64)

lemma md5_rep_Update:
  assumes rep: "md5_rep m ctx" and l: "length b < 2 ^ 32"
  shows "md5_rep (m @ b) (MD5Update ctx b)"
proof -
  define r where "r = rest64 m"
  define c1 where "c1 = count_bits ctx (word_of_nat (length b))"
  have r64: "length r < 64" by (simp add: r_def)
  have c: "length (inb ctx) = 64" "hbuf ctx = absorb md5_iv m" "take (length r) (inb ctx) = r"
    using rep by (simp_all add: md5_rep_def r_def)
  have c1: "inb c1 = inb ctx" "hbuf c1 = hbuf ctx" "bits0 c1 = word_of_nat (8 * length (m @ b))"
    "bits1 c1 = word_of_nat (8 * length (m @ b) div 2 ^ 32)"
    using count_bits_spec [of ctx "length m" "length b"] rep l by (simp_all add: c1_def md5_rep_def)
  have goal: "md5_rep (m @ b) d"
    if "length (inb d) = 64" "hbuf d = absorb (hbuf ctx) (r @ b)" "take (length (rest64 (r @ b))) (inb d) = rest64 (r @ b)"
      "bits0 d = bits0 c1" "bits1 d = bits1 c1" for d
    using that absorb_append [of md5_iv m b] c c1 by (simp add: md5_rep_def r_def)
  have u: "MD5Update ctx b = (if length r \<noteq> 0 then
        (if length b < 64 - length r then c1\<lparr>inb := overwrite (inb c1) (length r) b\<rparr>
         else md5_blocks (full_block (c1\<lparr>inb := overwrite (inb c1) (length r) (take (64 - length r) b)\<rparr>)) (drop (64 - length r) b))
      else md5_blocks c1 b)"
    by (simp only: MD5Update_def Let_def rep_t [OF rep] r_def [symmetric] c1_def [symmetric])
  show ?thesis
  proof (cases "length r = 0")
    case True
    then show ?thesis
      unfolding u using md5_blocks_spec [of c1 b] c c1 by (auto intro!: goal)
  next
    case r0: False
    show ?thesis
    proof (cases "length b < 64 - length r")
      case True
      then have fit: "length r + length b \<le> length (inb ctx)" using c(1) by simp
      have "take (length r + length b) (overwrite (inb ctx) (length r) b) = r @ b"
        using take_overwrite [OF fit] c(3) by simp
      then show ?thesis
        unfolding u using True r0 c c1 fit r64 by (auto intro!: goal)
    next
      case False
      define k where "k = 64 - length r"
      define blk where "blk = r @ take k b"
      have k: "k \<le> length b" "length r + k = 64" using False r64 by (auto simp: k_def)
      then have lb: "length blk = 64" by (simp add: blk_def)
      have "overwrite (inb ctx) (length r) (take k b) = take (length r) (inb ctx) @ take k b"
        using k c(1) by (simp add: overwrite_def)
      then have ov: "overwrite (inb c1) (length r) (take k b) = blk" using c(3) c1(1) by (simp add: blk_def)
      have fb: "full_block (c1\<lparr>inb := blk\<rparr>) = c1\<lparr>inb := blk, hbuf := MD5Transform (hbuf c1) (words_of blk 16)\<rparr>"
        using lb by (simp add: full_block_eq)
      have rb: "r @ b = blk @ drop k b" by (simp add: blk_def)
      have "absorb (hbuf ctx) (r @ b) = absorb (MD5Transform (hbuf c1) (words_of blk 16)) (drop k b)"
        "rest64 (r @ b) = rest64 (drop k b)"
        unfolding rb absorb_block [OF lb] rest64_block [OF lb] using c1(2) by simp_all
      then show ?thesis
        unfolding u k_def [symmetric] ov fb
        using md5_blocks_spec [of "c1\<lparr>inb := blk, hbuf := MD5Transform (hbuf c1) (words_of blk 16)\<rparr>" "drop k b"] False r0 lb
        by (auto intro!: goal simp: k_def)
    qed
  qed
qed

subsection \<open>The final block\<close>

text \<open>The padding of RFC 1321 and the digest of a message.\<close>

definition md5_pad :: "byte list \<Rightarrow> byte list" where
  "md5_pad m = m @ [0x80] @ replicate ((119 - length m mod 64) mod 64) 0
     @ le_bytes (word_of_nat (8 * length m)) @ le_bytes (word_of_nat (8 * length m div 2 ^ 32))"

definition md5_spec :: "byte list \<Rightarrow> byte list" where
  "md5_spec m = (case absorb md5_iv (md5_pad m) of (a, b, c, d) \<Rightarrow> le_bytes a @ le_bytes b @ le_bytes c @ le_bytes d)"

lemma hash_bytes_eq: "hash_bytes h = (case h of (a, b, c, d) \<Rightarrow> le_bytes a @ le_bytes b @ le_bytes c @ le_bytes d)"
  by (cases h) (simp add: hash_bytes_def)

lemma overwrite_snoc_eq:
  "take i buf = b \<Longrightarrow> i = length b \<Longrightarrow> i + length c \<le> length buf \<Longrightarrow> overwrite buf i c = b @ c @ drop (i + length c) buf"
  by (simp add: overwrite_def)

lemma MD5Final_rep:
  assumes rep: "md5_rep m ctx"
  shows "MD5Final ctx = md5_spec m"
proof -
  define r where "r = rest64 m"
  define t where "t = length r"
  define lens where "lens = le_bytes (bits0 ctx) @ le_bytes (bits1 ctx)"
  have t64: "t < 64" by (simp add: t_def r_def)
  have c: "length (inb ctx) = 64" "hbuf ctx = absorb md5_iv m" "take t (inb ctx) = r"
    using rep by (simp_all add: md5_rep_def r_def t_def)
  have ll: "length lens = 8" by (simp add: lens_def)
  have pad: "md5_pad m = m @ [0x80] @ replicate ((119 - t) mod 64) 0 @ lens"
    using rep by (simp add: md5_pad_def lens_def md5_rep_def t_def r_def length_rest64)
  define in1 where "in1 = overwrite (inb ctx) t [0x80]"
  have in1: "in1 = r @ [0x80] @ drop (t + 1) (inb ctx)" "length in1 = 64"
    using overwrite_snoc_eq [OF c(3), of "[0x80]"] c(1) t64 by (simp_all add: in1_def t_def)
  have pre1: "take (t + 1) in1 = r @ [0x80]" using in1 by (simp add: t_def)
  have zeros: "overwrite in1 (t + 1) (replicate n 0) = r @ [0x80] @ replicate n 0 @ drop (t + 1 + n) in1"
    if "t + 1 + n \<le> 64" for n
    using overwrite_snoc_eq [OF pre1, of "replicate n 0"] that in1(2) t_def by simp
  have tail: "hash_bytes (MD5Transform h (words_of (overwrite (overwrite (byteReverse p 14) 56 (le_bytes (bits0 ctx))) 60 (le_bytes (bits1 ctx))) 16))
      = hash_bytes (absorb h (take 56 p @ lens))" if "length p = 64" for h p
  proof -
    have "overwrite (overwrite p 56 (le_bytes (bits0 ctx))) 60 (le_bytes (bits1 ctx)) = take 56 p @ lens"
      using that by (simp add: overwrite_def lens_def)
    moreover have "absorb h (take 56 p @ lens) = MD5Transform h (words_of (take 56 p @ lens) 16)"
      using that ll absorb_block [of "take 56 p @ lens" h "[]"] by simp
    ultimately show ?thesis using that by simp
  qed
  have spec: "md5_spec m = hash_bytes (absorb (hbuf ctx) (r @ [0x80] @ replicate ((119 - t) mod 64) 0 @ lens))"
    using absorb_append [of md5_iv m "[0x80] @ replicate ((119 - t) mod 64) 0 @ lens"] c(2)
    by (simp add: md5_spec_def pad hash_bytes_eq r_def)
  show ?thesis
  proof (cases "63 - t < 8")
    case True
    define blk where "blk = r @ [0x80] @ replicate (63 - t) 0"
    have lb: "length blk = 64" using t64 by (simp add: blk_def t_def)
    have ov: "overwrite in1 (Suc t) (replicate (63 - t) 0) = blk"
      using zeros [of "63 - t"] t64 in1(2) by (simp add: blk_def)
    have fb: "full_block (ctx\<lparr>inb := blk\<rparr>) = ctx\<lparr>inb := blk, hbuf := MD5Transform (hbuf ctx) (words_of blk 16)\<rparr>"
      using lb by (simp add: full_block_eq)
    define p where "p = overwrite blk 0 (replicate 56 0)"
    have p: "length p = 64" "take 56 p = replicate 56 0" using lb by (simp_all add: p_def overwrite_def)
    have m: "(119 - t) mod 64 = (63 - t) + 56" using True t64 by (simp add: mod_if)
    have "MD5Final ctx = hash_bytes (absorb (MD5Transform (hbuf ctx) (words_of blk 16)) (take 56 p @ lens))"
      unfolding MD5Final_def Let_def rep_t [OF rep, folded r_def, folded t_def] in1_def [symmetric]
      using True t64 tail [OF p(1)] by (simp add: ov fb p_def)
    moreover have "r @ [0x80] @ replicate ((119 - t) mod 64) 0 @ lens = blk @ (take 56 p @ lens)"
      unfolding m replicate_add p(2) by (simp add: blk_def)
    ultimately show ?thesis unfolding spec using absorb_block [OF lb, of "hbuf ctx" "take 56 p @ lens"] by metis
  next
    case False
    define p where "p = overwrite in1 (t + 1) (replicate (55 - t) 0)"
    have t55: "56 - length r = Suc (55 - length r)" using False by (simp add: t_def)
    have p: "length p = 64" "take 56 p = r @ [0x80] @ replicate (55 - t) 0"
      using zeros [of "55 - t"] False in1(2) t_def t55 by (simp_all add: p_def)
    have m: "(119 - t) mod 64 = 55 - t" using False by (simp add: mod_if)
    have e: "63 - t - 8 = 55 - t" by simp
    have "MD5Final ctx = hash_bytes (absorb (hbuf ctx) (take 56 p @ lens))"
      unfolding MD5Final_def Let_def rep_t [OF rep, folded r_def, folded t_def] in1_def [symmetric]
      using False tail [OF p(1)] by (simp add: p_def e)
    then show ?thesis unfolding spec m p(2) by simp
  qed
qed

section \<open>The interface of a streaming hash\<close>

text \<open>
  A client sets up a context, feeds it pieces of a message and takes the digest. \<open>rep m c\<close>
  says that the context has consumed the message \<open>m\<close>.
\<close>

locale hash_stream =
  fixes init :: "'c \<Rightarrow> 'c" and upd :: "'c \<Rightarrow> byte list \<Rightarrow> 'c" and fin :: "'c \<Rightarrow> byte list"
    and fresh :: "'c \<Rightarrow> bool" and rep :: "byte list \<Rightarrow> 'c \<Rightarrow> bool" and hash :: "byte list \<Rightarrow> byte list"
  assumes rep_init: "fresh c \<Longrightarrow> rep [] (init c)"
    and rep_upd: "rep m c \<Longrightarrow> length b < 2 ^ 32 \<Longrightarrow> rep (m @ b) (upd c b)"
    and fin_rep: "rep m c \<Longrightarrow> fin c = hash m"
begin

lemma rep_pieces: "rep m c \<Longrightarrow> \<forall>b \<in> set bs. length b < 2 ^ 32 \<Longrightarrow> rep (m @ concat bs) (fold (\<lambda>b c. upd c b) bs c)"
proof (induction bs arbitrary: m c)
  case (Cons b bs)
  then have "rep (m @ b) (upd c b)" by (simp add: rep_upd)
  from Cons.IH [OF this] Cons.prems show ?case by simp
qed simp

lemma hash_pieces:
  "fresh c \<Longrightarrow> \<forall>b \<in> set bs. length b < 2 ^ 32 \<Longrightarrow> fin (fold (\<lambda>b c. upd c b) bs (init c)) = hash (concat bs)"
  using rep_pieces [OF rep_init, of c bs] by (simp add: fin_rep)

lemma hash_one: "fresh c \<Longrightarrow> length b < 2 ^ 32 \<Longrightarrow> fin (upd (init c) b) = hash b"
  using hash_pieces [of c "[b]"] by simp

lemma hash_two:
  "fresh c \<Longrightarrow> length a < 2 ^ 32 \<Longrightarrow> length b < 2 ^ 32 \<Longrightarrow> fin (upd (upd (init c) a) b) = hash (a @ b)"
  using hash_pieces [of c "[a, b]"] by simp

end

definition md5_fresh :: "md5ctx \<Rightarrow> bool" where
  "md5_fresh ctx \<longleftrightarrow> length (inb ctx) = 64"

interpretation md5: hash_stream MD5Init MD5Update MD5Final md5_fresh md5_rep md5_spec
  by unfold_locales (simp_all add: md5_fresh_def md5_rep_Init md5_rep_Update MD5Final_rep)

section \<open>Properties\<close>

text \<open>
  C33. MD5 over any split of a message into pieces is the hash of the whole message as RFC 1321
  defines it: padded to whole blocks with a one bit, zeros and the 64-bit count of its bits, and
  absorbed block by block. The 64-bit count is kept right over the carry between its halves.
\<close>

theorem MD5_streams:
  assumes "length (inb ctx) = 64" and "\<forall>b \<in> set pieces. length b < 2 ^ 32"
  shows "MD5Final (fold (\<lambda>b c. MD5Update c b) pieces (MD5Init ctx)) = md5_spec (concat pieces)"
  using md5.hash_pieces assms by (simp add: md5_fresh_def)

theorem MD5_streams_witness:
  "MD5Final (MD5Update (MD5Update (MD5Init \<lparr>hbuf = (0, 0, 0, 0), bits0 = 5, bits1 = 7, inb = replicate 64 1\<rparr>) [97])
     [98, 99]) = md5_spec [97, 98, 99]"
  using MD5_streams [of "\<lparr>hbuf = (0, 0, 0, 0), bits0 = 5, bits1 = 7, inb = replicate 64 1\<rparr>" "[[97], [98, 99]]"]
  by simp

text \<open>The rounds of RFC 1321: the auxiliary function, the word of the block and the shift of step \<open>j\<close>.\<close>

definition rfc_step :: "nat \<Rightarrow> md5fun \<times> nat \<times> nat" where
  "rfc_step j =
     (let n = j mod 4 in
      if j < 16 then (F1, j, [7, 12, 17, 22] ! n)
      else if j < 32 then (F2, (1 + 5 * (j - 16)) mod 16, [5, 9, 14, 20] ! n)
      else if j < 48 then (F3, (5 + 3 * (j - 32)) mod 16, [4, 11, 16, 23] ! n)
      else (F4, (7 * (j - 48)) mod 16, [6, 10, 15, 21] ! n))"

fun rfc_f :: "md5fun \<Rightarrow> u32 \<Rightarrow> u32 \<Rightarrow> u32 \<Rightarrow> u32" where
  "rfc_f F1 x y z = (x AND y) OR (NOT x AND z)"
| "rfc_f F2 x y z = (x AND z) OR (y AND NOT z)"
| "rfc_f F3 x y z = x XOR y XOR z"
| "rfc_f F4 x y z = y XOR (x OR NOT z)"

text \<open>
  The unrolled transformation follows RFC 1321: in each of its 64 steps it uses the auxiliary
  function, the word of the block and the shift the RFC gives, and the optimised forms of the
  auxiliary functions compute the same values as the ones in the RFC.
\<close>

theorem MD5Transform_rfc:
  "map (\<lambda>(f, i, k, s). (f, i, s)) md5_steps = map rfc_step [0..<64] \<and> md5f f x y z = rfc_f f x y z"
proof
  show "map (\<lambda>(f, i, k, s). (f, i, s)) md5_steps = map rfc_step [0..<64]" by code_simp
  show "md5f f x y z = rfc_f f x y z"
    by (cases f; simp; rule bit_word_eqI; auto simp: bit_simps)
qed

end
