(* ===== verification/Cram.thy ===== *)
theory Cram
  imports Base64 Strings Md5Spec
begin

section \<open>CRAM-MD5 authentication (cram.c)\<close>

text \<open>
  \<open>hmac_md5\<close> works on bytes. A result for a response buffer that is not 16 bytes long is the
  unchanged buffer. Between two hashes the context is the one \<open>MD5Final\<close> cleared.
\<close>

definition cleared :: md5ctx where
  "cleared = \<lparr>hbuf = (0, 0, 0, 0), bits0 = 0, bits1 = 0, inb = replicate 64 0\<rparr>"

definition hmac_md5 :: "md5ctx \<Rightarrow> byte list \<Rightarrow> byte list \<Rightarrow> byte list \<Rightarrow> byte list" where
  "hmac_md5 ctx0 password challenge response =
     (if length response \<noteq> 16 then response
      else
        let (key, ctx1) =
              (if length password > 64
               then (MD5Final (MD5Update (MD5Init ctx0) password), cleared) else (password, ctx0));
            ipad = map (\<lambda>b. b XOR 0x36) (overwrite (replicate 64 0) 0 key);
            opad = map (\<lambda>b. b XOR 0x5c) (overwrite (replicate 64 0) 0 key);
            response1 = MD5Final (MD5Update (MD5Update (MD5Init ctx1) ipad) challenge) in
        MD5Final (MD5Update (MD5Update (MD5Init cleared) opad) response1))"

definition PS_SUCCESS :: int where "PS_SUCCESS = 0"
definition PS_AUTHFAIL :: int where "PS_AUTHFAIL = 3"

definition bytes_of :: "string \<Rightarrow> byte list" where
  "bytes_of s = map (\<lambda>c. word_of_nat (code c)) s"

definition string_of :: "byte list \<Rightarrow> string" where
  "string_of bs = map (\<lambda>b. chr (unat b)) bs"

text \<open>The C string in \<open>msg_id\<close>.\<close>

definition msg_id_of :: "byte list \<Rightarrow> string" where
  "msg_id_of bs = cstr_of (string_of (if length bs < 768 then bs else take 767 bs))"

text \<open>
  \<open>do_cram_md5\<close> with its connection as parameters: what \<open>gen_recv\<close> delivers (its result and
  the line in \<open>buf1\<close>) and the result of \<open>gen_transact\<close> for a line. It gives the return value
  and the lines sent. An encoded reply that does not fit into \<open>buf1\<close> is an access outside it.
\<close>

definition do_cram_md5 ::
  "md5ctx \<Rightarrow> string \<Rightarrow> string \<Rightarrow> string \<Rightarrow> string option \<Rightarrow> int \<times> string \<Rightarrow> (string \<Rightarrow> int) \<Rightarrow> (int \<times> string list) option" where
  "do_cram_md5 ctx command remotename password strip recv transact =
     (let hello = command @ '' CRAM-MD5''; (result, buf1) = recv in
      if result \<noteq> 0 then Some (result, [hello])
      else
        let respdata = (case strip of
              Some p \<Rightarrow> if has_prefix buf1 p then drop (length p) buf1 else buf1 | None \<Rightarrow> buf1) in
        (case from64tobits respdata 768 of
           None \<Rightarrow> Some (PS_AUTHFAIL, [hello])
         | Some bs \<Rightarrow>
             let response = hmac_md5 ctx (bytes_of password) (bytes_of (msg_id_of bs)) (replicate 16 0);
                 reply = take 1023 (remotename @ [SP] @ concat (map hex2_lower response));
                 out = to64frombits (bytes_of reply) in
             if length out \<ge> 1024 then None
             else
               let r = transact out in
               Some (if r \<noteq> 0 then r else PS_SUCCESS, [hello, out])))"

section \<open>The keyed hash\<close>

text \<open>HMAC as RFC 2104 defines it, over any hash function with blocks of 64 bytes.\<close>

definition hmac_spec :: "(byte list \<Rightarrow> byte list) \<Rightarrow> byte list \<Rightarrow> byte list \<Rightarrow> byte list" where
  "hmac_spec H key text =
     (let k = (if length key > 64 then H key else key);
          k0 = k @ replicate (64 - length k) 0 in
      H (map (\<lambda>b. b XOR 0x5c) k0 @ H (map (\<lambda>b. b XOR 0x36) k0 @ text)))"

lemma length_md5_spec [simp]: "length (md5_spec m) = 16"
  by (simp add: md5_spec_def split: prod.split)

lemma overwrite_zeros: "length k \<le> 64 \<Longrightarrow> overwrite (replicate 64 0) 0 k = k @ replicate (64 - length k) 0"
  by (simp add: overwrite_def)

lemma hmac_md5_eq:
  assumes "length (inb ctx) = 64" "length password < 2 ^ 32" "length challenge < 2 ^ 32" "length response = 16"
  shows "hmac_md5 ctx password challenge response = hmac_spec md5_spec password challenge"
proof -
  define key where "key = (if length password > 64 then md5_spec password else password)"
  define ctx1 where "ctx1 = (if length password > 64 then cleared else ctx)"
  define pad where "pad x = map (\<lambda>b. b XOR x) (key @ replicate (64 - length key) 0)" for x :: byte
  have fresh: "md5_fresh ctx" "md5_fresh cleared" "md5_fresh ctx1"
    using assms(1) by (simp_all add: md5_fresh_def cleared_def ctx1_def)
  have key: "length key \<le> 64" by (simp add: key_def)
  then have pad: "length (pad x) < 2 ^ 32" for x by (simp add: pad_def)
  have k1: "(if length password > 64 then (MD5Final (MD5Update (MD5Init ctx) password), cleared) else (password, ctx))
      = (key, ctx1)"
    using md5.hash_one [OF fresh(1) assms(2)] by (simp add: key_def ctx1_def)
  have "hmac_md5 ctx password challenge response
      = MD5Final (MD5Update (MD5Update (MD5Init cleared) (pad 0x5c))
          (MD5Final (MD5Update (MD5Update (MD5Init ctx1) (pad 0x36)) challenge)))"
    unfolding hmac_md5_def k1 using assms(4) overwrite_zeros [OF key] by (simp add: pad_def)
  also have "\<dots> = md5_spec (pad 0x5c @ md5_spec (pad 0x36 @ challenge))"
    using md5.hash_two [OF fresh(3) pad assms(3)] md5.hash_two [OF fresh(2) pad, of "md5_spec (pad 0x36 @ challenge)"] by simp
  finally show ?thesis by (simp add: hmac_spec_def pad_def key_def Let_def)
qed

section \<open>Properties\<close>

text \<open>
  C35. \<open>hmac_md5\<close> computes HMAC-MD5 as RFC 2104 defines it, for keys of any length: a key longer
  than a block is hashed first, and what an earlier use left in the context has no influence.
\<close>

theorem hmac_md5_rfc2104:
  assumes "length (inb ctx) = 64" and "length password < 2 ^ 32" and "length challenge < 2 ^ 32"
    and "length response = 16"
  shows "hmac_md5 ctx password challenge response = hmac_spec md5_spec password challenge"
  by (rule hmac_md5_eq [OF assms])

theorem hmac_md5_rfc2104_witness:
  "hmac_md5 cleared (replicate 80 0xaa) [0x41, 0x42] (replicate 16 0) = hmac_spec md5_spec (replicate 80 0xaa) [0x41, 0x42]"
  by (rule hmac_md5_rfc2104) (simp_all add: cleared_def)

lemma length_hex2: "length (concat (map hex2_lower bs)) = 2 * length bs"
  by (induction bs) (simp_all add: hex2_lower_def)

lemma length_hmac: "length (hmac_spec md5_spec k t) = 16"
  by (simp add: hmac_spec_def Let_def)

lemma length_bytes_of [simp]: "length (bytes_of s) = length s"
  by (simp add: bytes_of_def)

lemma length_msg_id_of: "length (msg_id_of bs) \<le> length bs"
  using length_cstr_of_le [of "string_of bs"] length_cstr_of_le [of "string_of (take 767 bs)"]
  by (simp add: msg_id_of_def string_of_def)

text \<open>The answer to a challenge, as text.\<close>

definition cram_answer :: "string \<Rightarrow> string \<Rightarrow> string \<Rightarrow> string" where
  "cram_answer name password challenge =
     name @ [SP] @ concat (map hex2_lower (hmac_spec md5_spec (bytes_of password) (bytes_of challenge)))"

lemma length_cram_answer: "length (cram_answer name password challenge) = length name + 33"
  by (simp add: cram_answer_def length_hex2 length_hmac)

lemma code_chr_byte: "code (chr (unat (b :: byte))) = unat b"
proof -
  have "unat b < 2 ^ LENGTH(8)" by (rule unsigned_less)
  then show ?thesis by (simp add: code_chr)
qed

lemma string_of_c_string: "0 \<notin> set bs \<Longrightarrow> cstr_of (string_of bs) = string_of bs"
proof (induction bs)
  case (Cons b bs)
  have "code (chr (unat b)) = unat b" by (rule code_chr_byte)
  moreover have "code NUL = 0" by (simp add: code_def)
  moreover have "unat b \<noteq> 0" using Cons.prems by (auto simp: unat_eq_0)
  ultimately have "chr (unat b) \<noteq> NUL" by metis
  then show ?case using Cons by (simp add: cstr_of_def string_of_def)
qed (simp add: cstr_of_def string_of_def)

lemma do_cram_md5_reply:
  assumes "length (inb ctx) = 64" and "length password < 2 ^ 32"
    and "from64tobits (case strip of Some p \<Rightarrow> if has_prefix buf1 p then drop (length p) buf1 else buf1 | None \<Rightarrow> buf1) 768 = Some bs"
  shows "do_cram_md5 ctx command name password strip (0, buf1) transact =
    (let out = to64frombits (bytes_of (take 1023 (cram_answer name password (msg_id_of bs)))) in
     if length out \<ge> 1024 then None
     else Some (if transact out \<noteq> 0 then transact out else PS_SUCCESS, [command @ '' CRAM-MD5'', out]))"
proof -
  have "length bs \<le> 768" using from64tobits_room(1) [OF assms(3)] by simp
  then have "length (bytes_of (msg_id_of bs)) < 2 ^ 32" using length_msg_id_of [of bs] by simp
  then have "hmac_md5 ctx (bytes_of password) (bytes_of (msg_id_of bs)) (replicate 16 0)
      = hmac_spec md5_spec (bytes_of password) (bytes_of (msg_id_of bs))"
    using assms(1,2) by (intro hmac_md5_eq) simp_all
  then show ?thesis
    unfolding do_cram_md5_def Let_def prod.case assms(3) option.case cram_answer_def by simp
qed

text \<open>
  The answer to a CRAM-MD5 challenge: from the encoded challenge, behind the prefix to strip
  if the line has it, the client computes user name and keyed hash and sends them encoded; the
  server that decodes the line gets exactly the answer RFC 2195 prescribes, and the result is the
  server's verdict. This holds for user names of up to 732 characters.
\<close>

theorem do_cram_md5_answers:
  assumes "length (inb ctx) = 64" and "length password < 2 ^ 32" and "length name \<le> 732"
    and "challenge \<noteq> []" and "length challenge < 768" and "0 \<notin> set challenge"
    and "buf1 = prefix @ to64frombits challenge" and "strip = (if prefix = [] then None else Some prefix)"
  shows "\<exists>out. do_cram_md5 ctx command name password strip (0, buf1) transact
      = Some (transact out, [command @ '' CRAM-MD5'', out])
    \<and> from64tobits out 0 = Some (bytes_of (cram_answer name password (string_of challenge)))"
proof -
  define out where "out = to64frombits (bytes_of (cram_answer name password (string_of challenge)))"
  have d: "from64tobits (case strip of Some p \<Rightarrow> if has_prefix buf1 p then drop (length p) buf1 else buf1 | None \<Rightarrow> buf1) 768
      = Some challenge"
    using assms(4,5,7,8) b64_inverse [of challenge 768] by (cases "prefix = []") simp_all
  have m: "msg_id_of challenge = string_of challenge"
    using assms(5) string_of_c_string [OF assms(6)] by (simp add: msg_id_of_def)
  have t: "take 1023 (cram_answer name password (string_of challenge)) = cram_answer name password (string_of challenge)"
    using assms(3) by (simp add: length_cram_answer)
  have "(length name + 33 + 2) div 3 \<le> 767 div 3" using assms(3) by (intro div_le_mono) simp
  then have "length out < 1024" by (simp add: out_def length_to64frombits length_cram_answer)
  moreover have "from64tobits out 0 = Some (bytes_of (cram_answer name password (string_of challenge)))"
    unfolding out_def by (rule b64_inverse) (simp_all add: bytes_of_def cram_answer_def)
  ultimately show ?thesis
    using do_cram_md5_reply [OF assms(1,2) d, of command name transact]
    by (simp add: m t out_def [symmetric] PS_SUCCESS_def Let_def)
qed

theorem do_cram_md5_answers_witness:
  "\<exists>out. do_cram_md5 cleared ''AUTHENTICATE'' ''tim'' ''tanstaaftanstaaf'' (Some ''+ '') (0, ''+ '' @ to64frombits [0x3c, 0x31, 0x3e]) (\<lambda>out. 0)
      = Some (0, [''AUTHENTICATE CRAM-MD5'', out])
    \<and> from64tobits out 0 = Some (bytes_of (cram_answer ''tim'' ''tanstaaftanstaaf'' (string_of [0x3c, 0x31, 0x3e])))"
  using do_cram_md5_answers [of cleared "''tanstaaftanstaaf''" "''tim''" "[0x3c, 0x31, 0x3e]"
      "''+ '' @ to64frombits [0x3c, 0x31, 0x3e]" "''+ ''" "Some ''+ ''" "''AUTHENTICATE''" "\<lambda>out. 0"]
  by (simp add: cleared_def)

text \<open>
  With a longer user name the encoded answer is written past the end of the 1024 bytes of
  \<open>buf1\<close>: the text of up to 1023 characters that \<open>snprintf\<close> makes grows by a third.
\<close>

theorem do_cram_md5_overflow:
  assumes "length (inb ctx) = 64" and "length password < 2 ^ 32" and "length name > 732"
    and "from64tobits buf1 768 = Some bs"
  shows "do_cram_md5 ctx command name password None (0, buf1) transact = None"
proof -
  let ?n = "length (take 1023 (cram_answer name password (msg_id_of bs)))"
  have "768 div 3 \<le> (?n + 2) div 3" using assms(3) by (intro div_le_mono) (simp add: length_cram_answer)
  then have "length (to64frombits (bytes_of (take 1023 (cram_answer name password (msg_id_of bs))))) \<ge> 1024"
    by (simp add: length_to64frombits)
  then show ?thesis
    using do_cram_md5_reply [OF assms(1,2), of buf1 None bs command name transact] assms(4) by (simp add: Let_def)
qed

theorem do_cram_md5_overflow_witness:
  "do_cram_md5 cleared ''AUTH'' (replicate 733 (CHR ''u'')) ''secret'' None (0, ''PD4='') (\<lambda>out. 0) = None"
proof -
  have "from64tobits ''PD4='' 768 = Some [0x3c, 0x3e]" by code_simp
  then show ?thesis
    by (intro do_cram_md5_overflow) (simp_all add: cleared_def)
qed

end
