(* ===== verification/Transport.thy ===== *)
theory Transport
  imports Socket Stdio Cram
begin

section \<open>Commands and replies (transact.c)\<close>

text \<open>
  The connection to the mail server: the socket, whether TLS protects it, and what was written to it
  in clear before. The tag is the counter \<open>tagnum\<close> with the flags that turn tags on. Timeouts and the
  trace output are left out; formatted text is the argument of the functions that print it.
\<close>

record channel =
  sck :: sock
  tls :: bool
  clear :: string
  tagged :: bool
  suppress_tags :: bool
  tagnum :: nat

definition PS_SOCKET :: int where "PS_SOCKET = 2"
definition PS_PROTOCOL :: int where "PS_PROTOCOL = 4"
definition PS_SYNTAX :: int where "PS_SYNTAX = 5"
definition PS_ERROR :: int where "PS_ERROR = 7"
definition PS_LOCKBUSY :: int where "PS_LOCKBUSY = 9"
definition PS_SERVBUSY :: int where "PS_SERVBUSY = 14"
definition PS_TRANSIENT :: int where "PS_TRANSIENT = 24"
definition PS_REPOLL :: int where "PS_REPOLL = 28"

lemmas PS_defs = PS_SUCCESS_def PS_AUTHFAIL_def PS_SOCKET_def PS_PROTOCOL_def PS_SYNTAX_def PS_ERROR_def PS_LOCKBUSY_def
  PS_SERVBUSY_def PS_TRANSIENT_def PS_REPOLL_def

definition MAXLINE :: nat where "MAXLINE = 8192"
definition TAGMOD :: nat where "TAGMOD = 10000"

text \<open>Everything that was written in clear.\<close>

definition clear_text :: "channel \<Rightarrow> string" where
  "clear_text ch = (if tls ch then clear ch else outp (sck ch))"

text \<open>\<open>%d\<close> and \<open>%04d\<close>\<close>

definition digit :: "nat \<Rightarrow> char" where
  "digit d = chr (48 + d)"

fun show_nat :: "nat \<Rightarrow> string" where
  "show_nat n = (if n < 10 then [digit n] else show_nat (n div 10) @ [digit (n mod 10)])"

declare show_nat.simps [simp del]

definition show_int :: "int \<Rightarrow> string" where
  "show_int i = (if i < 0 then CHR ''-'' # show_nat (nat (- i)) else show_nat (nat i))"

definition show4 :: "nat \<Rightarrow> string" where
  "show4 n = map (\<lambda>k. digit (n div 10 ^ k mod 10)) [3, 2, 1, 0]"

text \<open>\<open>GENSYM\<close> and the line with its tag, cut to the size of the buffer.\<close>

definition tag_of :: "nat \<Rightarrow> string" where
  "tag_of n = CHR ''A'' # show4 (n mod TAGMOD)"

definition gen_line :: "channel \<Rightarrow> string \<Rightarrow> string \<times> channel" where
  "gen_line ch text =
     (if tagged ch \<and> \<not> suppress_tags ch then
        (let n = tagnum ch + 1 in (take (MAXLINE - 2) (tag_of n @ '' '' @ text) @ [CR, LF], ch\<lparr>tagnum := n\<rparr>))
      else (take (MAXLINE - 2) text @ [CR, LF], ch))"

definition sock_write :: "channel \<Rightarrow> string \<Rightarrow> int \<times> channel" where
  "sock_write ch buf = (let (r, s) = SockWrite (sck ch) buf in (r, ch\<lparr>sck := s\<rparr>))"

definition gen_send :: "channel \<Rightarrow> string \<Rightarrow> channel" where
  "gen_send ch text = (let (buf, ch1) = gen_line ch text in snd (sock_write ch1 buf))"

definition strip_lf :: "string \<Rightarrow> string" where
  "strip_lf s = (if s \<noteq> [] \<and> last s = LF then butlast s else s)"

definition strip_cr :: "string \<Rightarrow> string" where
  "strip_cr s = (if s \<noteq> [] \<and> last s = CR then butlast s else s)"

text \<open>\<open>gen_recv\<close>: the return value, the line in the buffer (when the return value is 0) and the channel.\<close>

definition gen_recv :: "channel \<Rightarrow> nat \<Rightarrow> int \<times> string \<times> channel" where
  "gen_recv ch sz =
     (case SockRead (sck ch) sz of
        (r, b, s) \<Rightarrow>
          if r = -1 then (PS_SOCKET, [], ch\<lparr>sck := s\<rparr>)
          else (0, strip_cr (strip_lf (cstr_of b)), ch\<lparr>sck := s\<rparr>))"

text \<open>\<open>parse\<close> is \<open>protocol->parse_response\<close>.\<close>

definition gen_transact :: "(channel \<Rightarrow> int \<times> channel) \<Rightarrow> channel \<Rightarrow> string \<Rightarrow> int \<times> channel" where
  "gen_transact parse ch text =
     (let (buf, ch1) = gen_line ch text; (ok, ch2) = sock_write ch1 buf in
      if ok = -1 \<or> ok \<noteq> int (length buf) then (PS_SOCKET, ch2) else parse ch2)"

subsection \<open>Long replies\<close>

text \<open>
  The reply is split at blanks when it does not fit into the buffer; the rest of the last word is kept in
  \<open>rs_buf\<close>. \<open>None\<close> is a failed assertion or the call of \<open>abort\<close> in \<open>overrun\<close>.
\<close>

record recv_split =
  rs_prefix :: string
  rs_cached :: bool
  rs_buf :: string

definition gen_recv_split_init :: "string \<Rightarrow> recv_split option" where
  "gen_recv_split_init prefix =
     (if length prefix > 100 then None else Some \<lparr>rs_prefix = take 99 prefix, rs_cached = False, rs_buf = []\<rparr>)"

definition gen_recv_split :: "channel \<Rightarrow> nat \<Rightarrow> recv_split \<Rightarrow> (int \<times> string \<times> channel \<times> recv_split) option" where
  "gen_recv_split ch sz rs =
     (if sz = 0 \<or> rs_cached rs \<and> \<not> length (rs_prefix rs) + length (rs_buf rs) + 1 \<le> sz then None
      else
        let start = (if rs_cached rs then rs_prefix rs @ rs_buf rs else []);
            rs1 = (if rs_cached rs then rs\<lparr>rs_cached := False, rs_buf := []\<rparr> else rs) in
        (case SockRead (sck ch) (sz - length start) of
           (r, b, s) \<Rightarrow>
             let ch1 = ch\<lparr>sck := s\<rparr> in
             if r = -1 then Some (PS_SOCKET, start, ch1, rs1)
             else
               let t = start @ cstr_of b;
                   found = (t \<noteq> [] \<and> last t = LF);
                   t = strip_cr (strip_lf t) in
               (case strrchr t SP of
                  None \<Rightarrow> Some (0, t, ch1, rs1)
                | Some p \<Rightarrow>
                    if found \<or> \<not> has_iprefix t (rs_prefix rs) \<or> p < length (rs_prefix rs) then Some (0, t, ch1, rs1)
                    else if length (drop p t) \<ge> MAXLINE then None
                    else Some (0, take p t, ch1, rs1\<lparr>rs_cached := True, rs_buf := drop p t\<rparr>))))"

subsection \<open>CRAM-MD5 on the connection\<close>

text \<open>The dialogue of cram.c with \<open>gen_send\<close>, \<open>gen_recv\<close> and \<open>gen_transact\<close> of this connection.\<close>

definition cram_auth ::
  "(channel \<Rightarrow> int \<times> channel) \<Rightarrow> md5ctx \<Rightarrow> channel \<Rightarrow> string \<Rightarrow> string \<Rightarrow> string \<Rightarrow> string option \<Rightarrow> (int \<times> channel) option" where
  "cram_auth parse ctx ch command user pw strip =
     (let ch1 = gen_send ch (command @ '' CRAM-MD5'');
          (r, line, ch2) = gen_recv ch1 1024 in
      map_option (\<lambda>(ok, sent). (ok, case sent of [_, out] \<Rightarrow> snd (gen_transact parse ch2 out) | _ \<Rightarrow> ch2))
        (do_cram_md5 ctx command user pw strip (r, line) (\<lambda>out. fst (gen_transact parse ch2 out))))"

subsection \<open>Facts\<close>

definition same_link :: "channel \<Rightarrow> channel \<Rightarrow> bool" where
  "same_link a b \<longleftrightarrow> tls a = tls b \<and> clear a = clear b \<and> tagged a = tagged b \<and> suppress_tags a = suppress_tags b"

lemma same_link_refl [simp]: "same_link a a"
  by (simp add: same_link_def)

lemma same_link_trans: "same_link a b \<Longrightarrow> same_link b c \<Longrightarrow> same_link a c"
  by (simp add: same_link_def)

lemma SockRead_keeps: "SockRead s n = (r, b, s') \<Longrightarrow> outp s' = outp s \<and> wroom s' = wroom s"
proof -
  have "outp (snd (snd (read_loop s n acc))) = outp s \<and> wroom (snd (snd (read_loop s n acc))) = wroom s" for n acc
  proof (induction s n acc rule: read_loop.induct)
    case (1 s len acc)
    have t: "outp s' = outp s \<and> wroom s' = wroom s" if "read_turn s len = Some (b, nl, s')" for b nl s'
      using that by (auto simp: read_turn_def fm_read_def Let_def split: if_splits)
    show ?case using "1.IH" t by (subst (1 2) read_loop.simps) (auto split: option.split)
  qed
  then show "SockRead s n = (r, b, s') \<Longrightarrow> outp s' = outp s \<and> wroom s' = wroom s"
    unfolding SockRead_def by (metis snd_conv)
qed

lemma gen_recv_keeps: "gen_recv ch n = (r, b, ch') \<Longrightarrow> outp (sck ch') = outp (sck ch) \<and> same_link ch' ch \<and> tagnum ch' = tagnum ch"
  by (auto simp: gen_recv_def same_link_def dest: SockRead_keeps split: prod.splits if_splits)

lemma gen_recv_consumes: "gen_recv ch n = (r, b, ch') \<Longrightarrow> r = 0 \<Longrightarrow> length (inp (sck ch')) < length (inp (sck ch))"
  by (auto simp: gen_recv_def PS_SOCKET_def dest: SockRead_consumes split: prod.splits if_splits)

text \<open>A write puts a prefix of the text on the line.\<close>

lemma SockWrite_prefix: "\<exists>k. outp (snd (SockWrite s buf)) = outp s @ take k buf \<and> (fst (SockWrite s buf) = int (length buf) \<longrightarrow> k = length buf)
    \<and> (fst (SockWrite s buf) \<noteq> -1 \<longrightarrow> fst (SockWrite s buf) = int (length buf))"
proof (induction s buf rule: SockWrite.induct)
  case (1 s buf)
  define n where "n = (case wroom s of [] \<Rightarrow> length buf | r # _ \<Rightarrow> min r (length buf))"
  define s1 where "s1 = s\<lparr>wroom := tl (wroom s), outp := outp s @ take n buf\<rparr>"
  show ?case
  proof (cases "buf = [] \<or> n = 0")
    case True
    then have "SockWrite s buf = (if buf = [] then (0, s) else (-1, s1))"
      by (subst SockWrite.simps) (auto simp: n_def [symmetric] s1_def Let_def)
    then show ?thesis using True by (auto simp: s1_def intro: exI [of _ 0])
  next
    case False
    then obtain k where k: "outp (snd (SockWrite s1 (drop n buf))) = outp s1 @ take k (drop n buf)"
      "fst (SockWrite s1 (drop n buf)) = int (length (drop n buf)) \<longrightarrow> k = length (drop n buf)"
      "fst (SockWrite s1 (drop n buf)) \<noteq> -1 \<longrightarrow> fst (SockWrite s1 (drop n buf)) = int (length (drop n buf))"
      using "1.IH" [OF _ n_def s1_def] by blast
    have nl: "n \<le> length buf" by (auto simp: n_def split: list.splits)
    obtain w s2 where w: "SockWrite s1 (drop n buf) = (w, s2)" by fastforce
    have eq: "SockWrite s buf = (if w < 0 then -1 else int n + w, s2)"
      using False w by (subst SockWrite.simps) (simp add: n_def [symmetric] s1_def [symmetric])
    have "outp s2 = outp s @ take (n + k) buf" using k(1) w by (simp add: s1_def take_add)
    moreover have "w = int (length buf - n) \<or> w = -1" using k(3) w by auto
    ultimately show ?thesis using eq k(2,3) w nl by (intro exI [of _ "n + k"]) auto
  qed
qed

end
