(* ===== verification/Msgid.thy ===== *)
theory Msgid
  imports Prelude
begin

section \<open>Validation of message ids (rfc822valid.c)\<close>

text \<open>
  The parsing functions move the pointer \<open>*x\<close> forward and return 0 or 1. Here the argument
  is the rest of the string, and the result is the new rest, or \<open>None\<close> for the return
  value 0 (every caller gives up then).
\<close>

definition atomchar :: string where
  "atomchar = ''!#$%&'' @ [CHR 0x27]
     @ ''*+-/0123456789=?ABCDEFGHIJKLMNOPQRSTUVWXYZ^_'' @ [CHR 0x60]
     @ ''abcdefghijklmnopqrstuvwxyz{|}~''"

definition quotedpair :: "string \<Rightarrow> string option" where
  "quotedpair x =
     (if char_at x 0 \<noteq> BACKSLASH then None
      else if code (char_at x 1) > 127 \<or> char_at x 1 = NUL then None
      else Some (drop 2 x))"

text \<open>The loops of \<open>quotedstring\<close> and \<open>domain_literal\<close> behind the opening character.\<close>

lemma quotedpair_shorter: "quotedpair x = Some y \<Longrightarrow> length y < length x"
  by (cases x) (auto simp: quotedpair_def split: if_splits)

function quotedstring_loop :: "string \<Rightarrow> string option" where
  "quotedstring_loop x =
     (if x = [] then None
      else if hd x = DQUOTE then Some (tl x)
      else if hd x = BACKSLASH then
        (case quotedpair x of None \<Rightarrow> None | Some y \<Rightarrow> quotedstring_loop y)
      else if hd x = CR \<or> hd x = NUL then None
      else if code (hd x) \<ge> 128 then None
      else quotedstring_loop (tl x))"
  by pat_completeness auto
termination
  by (relation "measure length") (auto dest: quotedpair_shorter)

definition quotedstring :: "string \<Rightarrow> string option" where
  "quotedstring x = (if char_at x 0 \<noteq> DQUOTE then None else quotedstring_loop (drop 1 x))"

text \<open>\<open>strchr\<close> also finds the terminator of \<open>atomchar\<close>, hence the first condition for NUL.\<close>

definition atom :: "string \<Rightarrow> string option" where
  "atom x = (if strchr atomchar (char_at x 0) \<noteq> None then Some (drop (strspn x atomchar) x) else None)"

definition word :: "string \<Rightarrow> string option" where
  "word x = (if char_at x 0 = DQUOTE then quotedstring x else atom x)"

function domain_literal_loop :: "string \<Rightarrow> string option" where
  "domain_literal_loop x =
     (if x = [] then None
      else if hd x = NUL \<or> hd x = CR \<or> hd x = CHR ''['' then None
      else if hd x = CHR '']'' then Some (tl x)
      else if hd x = BACKSLASH then
        (case quotedpair x of None \<Rightarrow> None | Some y \<Rightarrow> domain_literal_loop y)
      else if code (hd x) > 127 then None
      else domain_literal_loop (tl x))"
  by pat_completeness auto
termination
  by (relation "measure length") (auto dest: quotedpair_shorter)

declare quotedstring_loop.simps [simp del] domain_literal_loop.simps [simp del]

definition domain_literal :: "string \<Rightarrow> string option" where
  "domain_literal x = (if char_at x 0 \<noteq> CHR ''['' then None else domain_literal_loop (drop 1 x))"

definition subdomain :: "string \<Rightarrow> string option" where
  "subdomain x = (if char_at x 0 = CHR ''['' then domain_literal x else atom x)"

section \<open>The grammar\<close>

text \<open>What follows the opening character of a quoted string and of a domain literal.\<close>

definition is_quotable :: "char \<Rightarrow> bool" where
  "is_quotable c \<longleftrightarrow> code c < 128 \<and> c \<noteq> NUL"

inductive qtail :: "string \<Rightarrow> bool" where
  qtail_end: "qtail [DQUOTE]"
| qtail_text: "c \<notin> {DQUOTE, BACKSLASH, CR, NUL} \<Longrightarrow> code c < 128 \<Longrightarrow> qtail s \<Longrightarrow> qtail (c # s)"
| qtail_pair: "is_quotable d \<Longrightarrow> qtail s \<Longrightarrow> qtail (BACKSLASH # d # s)"

inductive dtail :: "string \<Rightarrow> bool" where
  dtail_end: "dtail [CHR '']'']"
| dtail_text: "c \<notin> {NUL, CR, CHR ''['', CHR '']'', BACKSLASH} \<Longrightarrow> code c < 128 \<Longrightarrow> dtail s \<Longrightarrow> dtail (c # s)"
| dtail_pair: "is_quotable d \<Longrightarrow> dtail s \<Longrightarrow> dtail (BACKSLASH # d # s)"

lemma quotedpair_Some_iff:
  "quotedpair x = Some y \<longleftrightarrow> (\<exists>d. x = BACKSLASH # d # y \<and> is_quotable d)"
proof (cases x)
  case (Cons c s)
  then show ?thesis by (cases s) (auto simp: quotedpair_def is_quotable_def)
qed (simp add: quotedpair_def)

lemma quotedstring_loop_sound: "quotedstring_loop x = Some y \<Longrightarrow> \<exists>p. x = p @ y \<and> qtail p"
proof (induction x rule: quotedstring_loop.induct)
  case (1 x)
  show ?case
  proof (cases x)
    case Nil
    with 1 show ?thesis by (simp add: quotedstring_loop.simps)
  next
    case (Cons c s)
    consider "c = DQUOTE" | "c = BACKSLASH" | "c \<notin> {DQUOTE, BACKSLASH}" by blast
    then show ?thesis
    proof cases
      case 1
      then have "quotedstring_loop x = Some s" using Cons by (subst quotedstring_loop.simps) simp
      then have "x = [DQUOTE] @ y" using "1.prems" Cons 1 by simp
      then show ?thesis using qtail_end by blast
    next
      case 2
      then obtain z where z: "quotedpair x = Some z" "quotedstring_loop z = Some y"
        using "1.prems" Cons by (subst (asm) quotedstring_loop.simps) (auto split: option.splits)
      obtain d where d: "x = BACKSLASH # d # z" "is_quotable d" using z(1) quotedpair_Some_iff by blast
      obtain p where "z = p @ y" "qtail p" using "1.IH"(1) [OF _ _ _ z] Cons 2 by auto
      with d show ?thesis by (auto intro!: exI [of _ "BACKSLASH # d # p"] qtail_pair)
    next
      case 3
      then have "quotedstring_loop s = Some y" "c \<noteq> CR" "c \<noteq> NUL" "code c < 128"
        using "1.prems" Cons by (subst (asm) quotedstring_loop.simps; simp split: if_splits)+
      moreover from this obtain p where "s = p @ y" "qtail p" using "1.IH"(2) Cons 3 by auto
      ultimately show ?thesis using Cons 3 by (auto intro!: exI [of _ "c # p"] qtail_text)
    qed
  qed
qed

lemma quotedstring_loop_complete: "qtail p \<Longrightarrow> quotedstring_loop (p @ y) = Some y"
proof (induction rule: qtail.induct)
  case (qtail_pair d s)
  then have "quotedpair (BACKSLASH # d # s @ y) = Some (s @ y)" by (auto simp: quotedpair_Some_iff)
  with qtail_pair show ?case by (subst quotedstring_loop.simps) simp
qed (subst quotedstring_loop.simps; simp)+

lemma domain_literal_loop_sound: "domain_literal_loop x = Some y \<Longrightarrow> \<exists>p. x = p @ y \<and> dtail p"
proof (induction x rule: domain_literal_loop.induct)
  case (1 x)
  show ?case
  proof (cases x)
    case Nil
    with 1 show ?thesis by (simp add: domain_literal_loop.simps)
  next
    case (Cons c s)
    consider "c = CHR '']''" | "c = BACKSLASH" | "c \<notin> {CHR '']'', BACKSLASH}" by blast
    then show ?thesis
    proof cases
      case 1
      then have "domain_literal_loop x = Some s" using Cons by (subst domain_literal_loop.simps) simp
      then have "x = [CHR '']''] @ y" using "1.prems" Cons 1 by simp
      then show ?thesis using dtail_end by blast
    next
      case 2
      then obtain z where z: "quotedpair x = Some z" "domain_literal_loop z = Some y"
        using "1.prems" Cons by (subst (asm) domain_literal_loop.simps) (auto split: option.splits)
      obtain d where d: "x = BACKSLASH # d # z" "is_quotable d" using z(1) quotedpair_Some_iff by blast
      obtain p where "z = p @ y" "dtail p" using "1.IH"(1) [OF _ _ _ _ z] Cons 2 by auto
      with d show ?thesis by (auto intro!: exI [of _ "BACKSLASH # d # p"] dtail_pair)
    next
      case 3
      then have "domain_literal_loop s = Some y" "c \<noteq> CR" "c \<noteq> NUL" "c \<noteq> CHR ''[''" "code c < 128"
        using "1.prems" Cons by (subst (asm) domain_literal_loop.simps; simp split: if_splits)+
      moreover from this obtain p where "s = p @ y" "dtail p" using "1.IH"(2) Cons 3 by auto
      ultimately show ?thesis using Cons 3 by (auto intro!: exI [of _ "c # p"] dtail_text)
    qed
  qed
qed

lemma domain_literal_loop_complete: "dtail p \<Longrightarrow> domain_literal_loop (p @ y) = Some y"
proof (induction rule: dtail.induct)
  case (dtail_pair d s)
  then have "quotedpair (BACKSLASH # d # s @ y) = Some (s @ y)" by (auto simp: quotedpair_Some_iff)
  with dtail_pair show ?case by (subst domain_literal_loop.simps) simp
qed (subst domain_literal_loop.simps; simp)+

definition is_atom :: "string \<Rightarrow> bool" where
  "is_atom p \<longleftrightarrow> p \<noteq> [] \<and> set p \<subseteq> set atomchar"

definition is_word :: "string \<Rightarrow> bool" where
  "is_word p \<longleftrightarrow> is_atom p \<or> (\<exists>q. p = DQUOTE # q \<and> qtail q)"

definition is_subdomain :: "string \<Rightarrow> bool" where
  "is_subdomain p \<longleftrightarrow> is_atom p \<or> (\<exists>q. p = CHR ''['' # q \<and> dtail q)"

lemma atomchar_NUL: "NUL \<notin> set atomchar"
  by (simp add: atomchar_def)

lemma c_string_append [simp]: "c_string (s @ t) \<longleftrightarrow> c_string s \<and> c_string t"
  by (auto simp: c_string_def)

declare c_string_Cons [simp]

lemma atom_sound:
  assumes "atom x = Some y" "c_string x" "x \<noteq> []"
  shows "\<exists>p. x = p @ y \<and> is_atom p"
proof -
  have "char_at x 0 \<noteq> NUL" using assms by (simp add: char_at_NUL_iff)
  then have y: "y = drop (strspn x atomchar) x" and c: "hd x \<in> set atomchar"
    using assms by (auto simp: atom_def strchr_def char_at_def hd_conv_nth split: if_splits)
  let ?p = "takeWhile (\<lambda>c. c \<in> set atomchar) x"
  have x: "x = ?p @ y" unfolding y strspn_def by (metis dropWhile_eq_drop takeWhile_dropWhile_id)
  have "?p \<noteq> []" using c assms(3) by (cases x) auto
  then have "is_atom ?p" by (auto simp: is_atom_def dest: set_takeWhileD)
  with x show ?thesis by blast
qed

lemma atom_Nil: "atom [] = Some []"
  by (simp add: atom_def strchr_def)

lemma atom_complete:
  assumes "is_atom p" "c \<notin> set atomchar"
  shows "atom (p @ c # y) = Some (c # y)"
proof -
  obtain d q where p: "p = d # q" "d \<in> set atomchar" using assms(1) by (cases p) (auto simp: is_atom_def)
  have "takeWhile (\<lambda>c. c \<in> set atomchar) (p @ c # y) = p"
    using assms by (subst takeWhile_append2) (auto simp: is_atom_def)
  then have "strspn (p @ c # y) atomchar = length p" by (simp add: strspn_def)
  then show ?thesis using p by (simp add: atom_def strchr_def)
qed

lemma word_sound:
  assumes "word x = Some y" "c_string x" "x \<noteq> []"
  shows "\<exists>p. x = p @ y \<and> is_word p"
proof (cases "char_at x 0 = DQUOTE")
  case True
  then obtain s where x: "x = DQUOTE # s" by (cases x) auto
  with True assms obtain q where "s = q @ y" "qtail q"
    using quotedstring_loop_sound [of s y] by (auto simp: word_def quotedstring_def)
  then show ?thesis using x by (auto simp: is_word_def intro!: exI [of _ "DQUOTE # q"])
next
  case False
  then show ?thesis using assms atom_sound by (fastforce simp: word_def is_word_def)
qed

lemma subdomain_sound:
  assumes "subdomain x = Some y" "c_string x" "x \<noteq> []"
  shows "\<exists>p. x = p @ y \<and> is_subdomain p"
proof (cases "char_at x 0 = CHR ''[''")
  case True
  then obtain s where x: "x = CHR ''['' # s" by (cases x) auto
  with True assms obtain q where "s = q @ y" "dtail q"
    using domain_literal_loop_sound [of s y] by (auto simp: subdomain_def domain_literal_def)
  then show ?thesis using x by (auto simp: is_subdomain_def intro!: exI [of _ "CHR ''['' # q"])
next
  case False
  then show ?thesis using assms atom_sound by (fastforce simp: subdomain_def is_subdomain_def)
qed

lemma is_atom_hd: "is_atom p \<Longrightarrow> \<exists>c q. p = c # q \<and> c \<noteq> DQUOTE \<and> c \<noteq> CHR ''[''"
  by (cases p) (auto simp: is_atom_def atomchar_def)

lemma word_complete:
  assumes "is_word p" "c \<notin> set atomchar"
  shows "word (p @ c # y) = Some (c # y)"
proof (cases "is_atom p")
  case True
  then have "char_at (p @ c # y) 0 \<noteq> DQUOTE" using is_atom_hd by fastforce
  then show ?thesis using atom_complete [OF True assms(2)] by (simp add: word_def)
next
  case False
  then obtain q where "p = DQUOTE # q" "qtail q" using assms(1) by (auto simp: is_word_def)
  then show ?thesis using quotedstring_loop_complete by (simp add: word_def quotedstring_def)
qed

lemma subdomain_complete:
  assumes "is_subdomain p" "c \<notin> set atomchar"
  shows "subdomain (p @ c # y) = Some (c # y)"
proof (cases "is_atom p")
  case True
  then have "char_at (p @ c # y) 0 \<noteq> CHR ''[''" using is_atom_hd by fastforce
  then show ?thesis using atom_complete [OF True assms(2)] by (simp add: subdomain_def)
next
  case False
  then obtain q where "p = CHR ''['' # q" "dtail q" using assms(1) by (auto simp: is_subdomain_def)
  then show ?thesis using domain_literal_loop_complete by (simp add: subdomain_def domain_literal_def)
qed

section \<open>The message id\<close>

text \<open>An item never makes the string longer, the dot behind it makes it shorter.\<close>

lemma atom_not_longer: "atom x = Some y \<Longrightarrow> length y \<le> length x"
  by (auto simp: atom_def split: if_splits)

lemma word_not_longer: "word x = Some y \<Longrightarrow> length y \<le> length x"
  by (auto simp: word_def quotedstring_def atom_not_longer dest!: quotedstring_loop_sound
    split: if_splits) (metis diff_le_self length_append length_drop trans_le_add2 le_trans le_add2)

lemma subdomain_not_longer: "subdomain x = Some y \<Longrightarrow> length y \<le> length x"
  by (auto simp: subdomain_def domain_literal_def atom_not_longer dest!: domain_literal_loop_sound
    split: if_splits) (metis diff_le_self length_append length_drop trans_le_add2 le_trans le_add2)

function local_part :: "string \<Rightarrow> string option" where
  "local_part x =
     (case word x of
        None \<Rightarrow> None
      | Some y \<Rightarrow>
          if y = [] then None
          else if hd y = CHR ''.'' then local_part (tl y)
          else if hd y = CHR ''@'' then Some y
          else None)"
  by pat_completeness auto
termination
  by (relation "measure length") (auto dest!: word_not_longer simp: neq_Nil_conv)

function domain_part :: "string \<Rightarrow> string option" where
  "domain_part x =
     (case subdomain x of
        None \<Rightarrow> None
      | Some y \<Rightarrow>
          if y = [] then None
          else if hd y = CHR ''.'' then domain_part (tl y)
          else if hd y = CHR ''>'' then Some y
          else None)"
  by pat_completeness auto
termination
  by (relation "measure length") (auto dest!: subdomain_not_longer simp: neq_Nil_conv)

declare local_part.simps [simp del] domain_part.simps [simp del]

definition rfc822_valid_msgid :: "string \<Rightarrow> bool" where
  "rfc822_valid_msgid x =
     (if char_at x 0 \<noteq> CHR ''<'' then False
      else (case local_part (drop 1 x) of
              None \<Rightarrow> False
            | Some y \<Rightarrow>
                if char_at y 0 \<noteq> CHR ''@'' then False
                else (case domain_part (drop 1 y) of
                        None \<Rightarrow> False
                      | Some z \<Rightarrow> char_at z 0 = CHR ''>'')))"

text \<open>Items with dots between them.\<close>

fun dotted :: "string list \<Rightarrow> string" where
  "dotted [] = []"
| "dotted [w] = w"
| "dotted (w # v # ws) = w @ CHR ''.'' # dotted (v # ws)"

lemma dotted_Cons: "ws \<noteq> [] \<Longrightarrow> dotted (w # ws) = w @ CHR ''.'' # dotted ws"
  by (cases ws) auto

lemma special_not_atomchar: "CHR ''.'' \<notin> set atomchar" "CHR ''@'' \<notin> set atomchar" "CHR ''>'' \<notin> set atomchar"
  by (simp_all add: atomchar_def)

lemma local_part_sound:
  "local_part x = Some y \<Longrightarrow> c_string x \<Longrightarrow>
   \<exists>ws r. ws \<noteq> [] \<and> list_all is_word ws \<and> x = dotted ws @ y \<and> y = CHR ''@'' # r"
proof (induction x rule: local_part.induct)
  case (1 x)
  then obtain z where z: "word x = Some z" "z \<noteq> []"
    by (subst (asm) (2) local_part.simps) (auto split: option.splits if_splits)
  have "x \<noteq> []" using z by (auto simp: word_def atom_Nil)
  then obtain p where p: "x = p @ z" "is_word p" using word_sound z(1) "1.prems"(2) by blast
  show ?case
  proof (cases "hd z = CHR ''.''")
    case True
    then have "local_part (tl z) = Some y"
      using "1.prems"(1) z by (subst (asm) local_part.simps) simp
    moreover have "c_string (tl z)" using "1.prems"(2) p z(2) by (cases z) auto
    ultimately obtain ws r where "ws \<noteq> []" "list_all is_word ws" "tl z = dotted ws @ y" "y = CHR ''@'' # r"
      using "1.IH" [OF z True] by blast
    then show ?thesis
      using p True z(2) by (cases z) (auto intro!: exI [of _ "p # ws"] simp: dotted_Cons)
  next
    case False
    then have "hd z = CHR ''@''" "y = z"
      using "1.prems"(1) z by (subst (asm) local_part.simps; simp split: if_splits)+
    then show ?thesis using p z(2) by (cases z) (auto intro!: exI [of _ "[p]"])
  qed
qed

lemma local_part_complete:
  "ws \<noteq> [] \<Longrightarrow> list_all is_word ws \<Longrightarrow> local_part (dotted ws @ CHR ''@'' # r) = Some (CHR ''@'' # r)"
proof (induction ws rule: dotted.induct)
  case (2 w)
  then have "word (w @ CHR ''@'' # r) = Some (CHR ''@'' # r)"
    using word_complete special_not_atomchar by simp
  then show ?case by (subst local_part.simps) simp
next
  case (3 w v ws)
  then have "word (w @ CHR ''.'' # dotted (v # ws) @ CHR ''@'' # r) = Some (CHR ''.'' # dotted (v # ws) @ CHR ''@'' # r)"
    using word_complete special_not_atomchar by simp
  with 3 show ?case by (subst local_part.simps) simp
qed simp

lemma domain_part_sound:
  "domain_part x = Some y \<Longrightarrow> c_string x \<Longrightarrow>
   \<exists>ws r. ws \<noteq> [] \<and> list_all is_subdomain ws \<and> x = dotted ws @ y \<and> y = CHR ''>'' # r"
proof (induction x rule: domain_part.induct)
  case (1 x)
  then obtain z where z: "subdomain x = Some z" "z \<noteq> []"
    by (subst (asm) (2) domain_part.simps) (auto split: option.splits if_splits)
  have "x \<noteq> []" using z by (auto simp: subdomain_def atom_Nil)
  then obtain p where p: "x = p @ z" "is_subdomain p" using subdomain_sound z(1) "1.prems"(2) by blast
  show ?case
  proof (cases "hd z = CHR ''.''")
    case True
    then have "domain_part (tl z) = Some y"
      using "1.prems"(1) z by (subst (asm) domain_part.simps) simp
    moreover have "c_string (tl z)" using "1.prems"(2) p z(2) by (cases z) auto
    ultimately obtain ws r where "ws \<noteq> []" "list_all is_subdomain ws" "tl z = dotted ws @ y" "y = CHR ''>'' # r"
      using "1.IH" [OF z True] by blast
    then show ?thesis
      using p True z(2) by (cases z) (auto intro!: exI [of _ "p # ws"] simp: dotted_Cons)
  next
    case False
    then have "hd z = CHR ''>''" "y = z"
      using "1.prems"(1) z by (subst (asm) domain_part.simps; simp split: if_splits)+
    then show ?thesis using p z(2) by (cases z) (auto intro!: exI [of _ "[p]"])
  qed
qed

lemma domain_part_complete:
  "ws \<noteq> [] \<Longrightarrow> list_all is_subdomain ws \<Longrightarrow> domain_part (dotted ws @ CHR ''>'' # r) = Some (CHR ''>'' # r)"
proof (induction ws rule: dotted.induct)
  case (2 w)
  then have "subdomain (w @ CHR ''>'' # r) = Some (CHR ''>'' # r)"
    using subdomain_complete special_not_atomchar by simp
  then show ?case by (subst domain_part.simps) simp
next
  case (3 w v ws)
  then have "subdomain (w @ CHR ''.'' # dotted (v # ws) @ CHR ''>'' # r) = Some (CHR ''.'' # dotted (v # ws) @ CHR ''>'' # r)"
    using subdomain_complete special_not_atomchar by simp
  with 3 show ?case by (subst domain_part.simps) simp
qed simp

text \<open>
  C40. \<open>rfc822_valid_msgid\<close> accepts exactly the strings that begin with a message id of RFC 822:
  dotted words (atoms or quoted strings), \<open>@\<close>, dotted subdomains (atoms or domain literals) in
  angle brackets. What follows the closing bracket is not looked at.
\<close>

theorem rfc822_valid_msgid_iff:
  assumes "c_string x"
  shows "rfc822_valid_msgid x \<longleftrightarrow>
    (\<exists>ws ds rest. ws \<noteq> [] \<and> ds \<noteq> [] \<and> list_all is_word ws \<and> list_all is_subdomain ds
       \<and> x = ''<'' @ dotted ws @ ''@'' @ dotted ds @ ''>'' @ rest)"
proof
  assume v: "rfc822_valid_msgid x"
  then obtain s where x: "x = CHR ''<'' # s"
    by (cases x) (auto simp: rfc822_valid_msgid_def split: if_splits)
  with v obtain y z where yz: "local_part s = Some y" "domain_part (drop 1 y) = Some z"
    by (auto simp: rfc822_valid_msgid_def split: option.splits if_splits)
  have s: "c_string s" using assms x by simp
  obtain ws r where ws: "ws \<noteq> []" "list_all is_word ws" "s = dotted ws @ y" "y = CHR ''@'' # r"
    using local_part_sound [OF yz(1) s] by blast
  have "c_string r" "domain_part r = Some z" using s ws yz(2) by simp_all
  then obtain ds t where "ds \<noteq> []" "list_all is_subdomain ds" "r = dotted ds @ z" "z = CHR ''>'' # t"
    using domain_part_sound by blast
  with ws x show "\<exists>ws ds rest. ws \<noteq> [] \<and> ds \<noteq> [] \<and> list_all is_word ws \<and> list_all is_subdomain ds
       \<and> x = ''<'' @ dotted ws @ ''@'' @ dotted ds @ ''>'' @ rest"
    by (intro exI [of _ ws] exI [of _ ds] exI [of _ t]) simp
next
  assume "\<exists>ws ds rest. ws \<noteq> [] \<and> ds \<noteq> [] \<and> list_all is_word ws \<and> list_all is_subdomain ds
       \<and> x = ''<'' @ dotted ws @ ''@'' @ dotted ds @ ''>'' @ rest"
  then show "rfc822_valid_msgid x"
    by (auto simp: rfc822_valid_msgid_def local_part_complete domain_part_complete)
qed

theorem rfc822_valid_msgid_iff_witness: "rfc822_valid_msgid ''<a.b@c>''"
proof -
  have "list_all is_word [''a'', ''b'']" "list_all is_subdomain [''c'']"
    by (simp_all add: is_word_def is_subdomain_def is_atom_def atomchar_def)
  then have "\<exists>ws ds rest. ws \<noteq> [] \<and> ds \<noteq> [] \<and> list_all is_word ws \<and> list_all is_subdomain ds
       \<and> ''<a.b@c>'' = ''<'' @ dotted ws @ ''@'' @ dotted ds @ ''>'' @ rest"
    by (intro exI [of _ "[''a'', ''b'']"] exI [of _ "[''c'']"] exI [of _ "[]"]) simp
  then show ?thesis by (subst rfc822_valid_msgid_iff) (simp_all add: c_string_def)
qed

end
