(* ===== verification/Pop3.thy ===== *)
theory Pop3
  imports Transport Uid Msgid
begin

section \<open>The POP3 methods (pop3.c, starttls.c)\<close>

text \<open>
  A session is the connection, the query with its UID databases, the options of the query and the
  static variables of pop3.c. The program is the one configured with TLS and without Kerberos, GSSAPI,
  OPIE, NTLM, RPA and SDPS. An access through a null pointer or outside an array, and a failure inside
  the UID database, is \<open>None\<close>. The reports are left out.
\<close>

datatype protocol = P_POP3 | P_APOP | P_RPOP

datatype authenticate =
  A_ANY | A_PASSWORD | A_NTLM | A_CRAM_MD5 | A_OTP | A_KERBEROS_V4 | A_KERBEROS_V5 | A_GSSAPI | A_SSH | A_MSN | A_EXTERNAL

record options =
  password :: string
  protocol :: protocol
  authenticate :: authenticate
  service :: "string option"
  sslproto :: "string option"
  use_ssl :: bool
  sslcertck :: bool
  sslfingerprint :: "string option"
  wehaveauthed :: bool
  uidl :: bool
  fetchall :: bool
  keep :: bool
  flush :: bool
  fastuidl :: int
  fastuidlcount :: int

record pop3 =
  chan :: channel
  ctl :: query
  opts :: options
  stage :: int
  done_capa :: bool
  has_cram :: bool
  has_stls :: bool
  last_nr :: int
  dofastuidl :: bool
  peek_capable :: bool

definition STAGE_GETAUTH :: int where "STAGE_GETAUTH = 0"
definition STAGE_FETCH :: int where "STAGE_FETCH = 3"
definition IDLEN :: nat where "IDLEN = 128"

definition KPOP_PORT :: string where "KPOP_PORT = ''kpop''"

definition POSIX_space :: string where
  "POSIX_space = [TAB, LF, CHR 0x0B, CHR 0x0C, CR, SP]"

subsection \<open>Replies\<close>

definition isalpha :: "char \<Rightarrow> bool" where
  "isalpha c \<longleftrightarrow> isupper c \<or> islower c"

definition DOTLINE :: "string \<Rightarrow> bool" where
  "DOTLINE s \<longleftrightarrow> char_at s 0 = CHR ''.'' \<and> char_at s 1 \<in> {CR, LF, NUL}"

definition contains :: "string \<Rightarrow> string \<Rightarrow> bool" where
  "contains s t \<longleftrightarrow> find_sub s t \<noteq> None"

definition err_code :: "int \<Rightarrow> string \<Rightarrow> int" where
  "err_code st bufp =
     (if st = STAGE_FETCH then PS_TRANSIENT
      else if st > STAGE_GETAUTH then PS_PROTOCOL
      else if contains bufp ''lock'' \<or> contains bufp ''Lock'' \<or> contains bufp ''LOCK'' \<or> contains bufp ''wait''
        \<or> contains bufp ''[IN-USE]'' \<or> contains bufp ''[LOGIN-DELAY]'' then PS_LOCKBUSY
      else if (contains bufp ''Service'' \<or> contains bufp ''service'') \<and> contains bufp ''unavailable'' then PS_SERVBUSY
      else PS_AUTHFAIL)"

text \<open>The text is the one that is copied to \<open>argbuf\<close>.\<close>

definition pop3_ok :: "int \<Rightarrow> channel \<Rightarrow> int \<times> string \<times> channel" where
  "pop3_ok st ch =
     (let (ok, buf, ch1) = gen_recv ch (POPBUFSIZE + 1) in
      if ok \<noteq> 0 then (ok, [], ch1)
      else if char_at buf 0 \<noteq> CHR ''+'' \<and> char_at buf 0 \<noteq> CHR ''-'' then (PS_PROTOCOL, [], ch1)
      else
        let status = hd buf # takeWhile isalpha (tl buf);
            bufp = drop (length status + 1) buf in
        if status = ''+OK'' then (0, bufp, ch1)
        else if has_prefix status ''-ERR'' then (err_code st bufp, bufp, ch1)
        else (PS_PROTOCOL, bufp, ch1))"

definition parse_ok :: "int \<Rightarrow> channel \<Rightarrow> int \<times> channel" where
  "parse_ok st c = (let (ok, t, c1) = pop3_ok st c in (ok, c1))"

definition transact :: "pop3 \<Rightarrow> string \<Rightarrow> int \<times> pop3" where
  "transact s cmd =
     (let (ok, ch) = gen_transact (parse_ok (stage s)) (chan s) cmd in
      (ok, s\<lparr>chan := ch\<rparr>))"

definition send_cmd :: "pop3 \<Rightarrow> string \<Rightarrow> pop3" where
  "send_cmd s cmd = s\<lparr>chan := gen_send (chan s) cmd\<rparr>"

definition reply :: "pop3 \<Rightarrow> int \<times> string \<times> pop3" where
  "reply s = (let (ok, buf, ch) = pop3_ok (stage s) (chan s) in (ok, buf, s\<lparr>chan := ch\<rparr>))"

text \<open>The lines of a reply up to the dot, each given to \<open>f\<close>; the code of the read that ended it.\<close>

function recv_lines :: "nat \<Rightarrow> (string \<Rightarrow> 'a \<Rightarrow> 'a option) \<Rightarrow> channel \<Rightarrow> 'a \<Rightarrow> (int \<times> channel \<times> 'a) option" where
  "recv_lines sz f ch a =
     (case gen_recv ch sz of
        (ok, buf, ch1) \<Rightarrow>
          if ok \<noteq> 0 then Some (ok, ch1, a)
          else if DOTLINE buf then Some (0, ch1, a)
          else (case f buf a of None \<Rightarrow> None | Some a1 \<Rightarrow> recv_lines sz f ch1 a1))"
  by pat_completeness auto
termination
  by (relation "measure (\<lambda>(sz, f, ch, a). length (inp (sck ch)))") (auto dest: gen_recv_consumes [OF sym])

declare recv_lines.simps [simp del]

subsection \<open>Capabilities and TLS\<close>

definition maybe_starttls :: "options \<Rightarrow> bool" where
  "maybe_starttls q \<longleftrightarrow> sslproto q \<noteq> Some [] \<and> \<not> use_ssl q"

definition must_starttls :: "options \<Rightarrow> bool" where
  "must_starttls q \<longleftrightarrow> maybe_starttls q
     \<and> (sslfingerprint q \<noteq> None \<or> sslcertck q \<or> (case sslproto q of None \<Rightarrow> False | Some p \<Rightarrow> strcaseeq p ''tls1''))"

definition capa_line :: "string \<Rightarrow> bool \<times> bool \<Rightarrow> (bool \<times> bool) option" where
  "capa_line buffer = (\<lambda>(stls, cram). Some (stls \<or> contains buffer ''STLS'', cram \<or> contains buffer ''CRAM-MD5''))"

definition capa_probe :: "pop3 \<Rightarrow> (int \<times> pop3) option" where
  "capa_probe s0 =
     (if done_capa s0 then Some (PS_SUCCESS, s0)
      else
        let (ok, s) = transact (s0\<lparr>has_cram := False\<rparr>) ''CAPA'' in
        if ok \<noteq> PS_SUCCESS then Some (ok, s\<lparr>done_capa := True\<rparr>)
        else do {
          (ok, ch, (stls, cram)) \<leftarrow> recv_lines 64 capa_line (chan s) (has_stls s, has_cram s);
          Some (ok, s\<lparr>chan := ch, has_stls := stls, has_cram := cram, done_capa := True\<rparr>)
        })"

definition set_peek_capable :: "pop3 \<Rightarrow> pop3" where
  "set_peek_capable s = s\<lparr>peek_capable := \<not> fetchall (opts s) \<and> (\<not> keep (opts s) \<or> uidl (opts s))\<rparr>"

text \<open>
  \<open>ssl\<close> is \<open>SSLOpen\<close>: whether it succeeds, and the connection it leaves. What is written in clear before is
  kept; the bytes of the handshake are not text of this program.
\<close>

definition start_tls :: "(sock \<Rightarrow> bool \<times> sock) \<Rightarrow> pop3 \<Rightarrow> bool \<times> pop3" where
  "start_tls ssl s =
     (let ch = chan s; (good, sk) = ssl (sck ch) in
      if good then (True, s\<lparr>chan := ch\<lparr>sck := sk\<lparr>outp := []\<rparr>, tls := True, clear := clear_text ch\<rparr>\<rparr>)
      else (False, s\<lparr>chan := ch\<lparr>sck := sk\<lparr>outp := outp (sck ch)\<rparr>\<rparr>\<rparr>))"

subsection \<open>Authentication\<close>

text \<open>
  The steps of \<open>pop3_getauth\<close> for \<open>P_POP3\<close>. A step gives \<open>Some r\<close> when the function returns \<open>r\<close> there, and
  \<open>None\<close> when it goes on.
\<close>

definition wants_capa :: "options \<Rightarrow> bool" where
  "wants_capa q \<longleftrightarrow> authenticate q \<in> {A_ANY, A_GSSAPI, A_KERBEROS_V4, A_KERBEROS_V5, A_OTP, A_CRAM_MD5} \<or> maybe_starttls q"

definition capa_step :: "pop3 \<Rightarrow> (int option \<times> pop3) option" where
  "capa_step s =
     (if \<not> wants_capa (opts s) then Some (None, s)
      else do {
        (ok, s1) \<leftarrow> capa_probe s;
        Some
          (if ok \<noteq> PS_SUCCESS \<and> (ok = PS_AUTHFAIL \<or> ok = PS_SOCKET \<and> \<not> wehaveauthed (opts s1)) then
             if must_starttls (opts s1) then (Some ok, s1)
             else
               let s2 = (if maybe_starttls (opts s1) then s1\<lparr>opts := (opts s1)\<lparr>sslproto := Some []\<rparr>\<rparr> else s1) in
               (case authenticate (opts s2) of
                  A_ANY \<Rightarrow> (Some PS_REPOLL, s2\<lparr>opts := (opts s2)\<lparr>authenticate := A_PASSWORD\<rparr>\<rparr>)
                | A_PASSWORD \<Rightarrow> (Some PS_REPOLL, s2)
                | _ \<Rightarrow> (Some PS_AUTHFAIL, s2))
           else (None, s1))
      })"

text \<open>The flag is \<open>connection_may_have_tls_errors\<close>.\<close>

definition stls_step :: "(sock \<Rightarrow> bool \<times> sock) \<Rightarrow> pop3 \<Rightarrow> (int option \<times> bool \<times> pop3) option" where
  "stls_step ssl s =
     (if maybe_starttls (opts s) \<and> (has_stls s \<or> must_starttls (opts s)) then do {
        let (r, s1) = transact s ''STLS'';
        let (good, s2) = (if r = PS_SUCCESS then start_tls ssl s1 else (False, s1));
        if good then do {
          (ok, s3) \<leftarrow> capa_probe (s2\<lparr>done_capa := False\<rparr>);
          Some (if ok \<noteq> PS_SUCCESS then Some ok else None, False, s3)
        }
        else if must_starttls (opts s2) then Some (Some PS_SOCKET, False, s2)
        else Some (None, True, s2)
      } else Some (None, False, s))"

text \<open>The rest of the case \<open>P_POP3\<close>: the code of the method that was tried last.\<close>

definition plain_login :: "pop3 \<Rightarrow> int \<times> pop3" where
  "plain_login s =
     (let (ok, s1) = transact s (''USER '' @ remotename (ctl s)) in
      if ok \<noteq> 0 then (ok, s1)
      else if authenticate (opts s) \<in> {A_ANY, A_KERBEROS_V4, A_KERBEROS_V5} \<and> service (opts s) = Some KPOP_PORT
      then transact s1 ''PASS krb_ticket''
      else if authenticate (opts s) \<in> {A_ANY, A_PASSWORD} then transact s1 (''PASS '' @ password (opts s))
      else (PS_AUTHFAIL, s1))"

definition login_step :: "md5ctx \<Rightarrow> pop3 \<Rightarrow> (int \<times> pop3) option" where
  "login_step ctx s =
     (if authenticate (opts s) = A_CRAM_MD5 \<or> has_cram s \<and> authenticate (opts s) = A_ANY then do {
        (ok, ch) \<leftarrow> cram_auth (parse_ok (stage s)) ctx (chan s) ''AUTH''
                     (remotename (ctl s)) (password (opts s)) None;
        let s1 = s\<lparr>chan := ch\<rparr>;
        Some (if ok = PS_SUCCESS \<or> authenticate (opts s) \<noteq> A_ANY then (ok, s1) else plain_login s1)
      } else Some (plain_login s))"

definition auth_pop3 :: "(sock \<Rightarrow> bool \<times> sock) \<Rightarrow> md5ctx \<Rightarrow> pop3 \<Rightarrow> (int \<times> pop3) option" where
  "auth_pop3 ssl ctx s = do {
     (r, s1) \<leftarrow> capa_step s;
     (case r of
        Some ok \<Rightarrow> Some (ok, s1)
      | None \<Rightarrow> do {
          (r, tls_errors, s2) \<leftarrow> stls_step ssl s1;
          (case r of
             Some ok \<Rightarrow> Some (ok, s2)
           | None \<Rightarrow> do {
               (ok, s3) \<leftarrow> login_step ctx s2;
               Some (if tls_errors \<and> (ok = PS_SOCKET \<or> ok = PS_PROTOCOL)
                     then (PS_REPOLL, s3\<lparr>opts := (opts s3)\<lparr>sslproto := Some []\<rparr>\<rparr>) else (ok, s3))
             })
        })
   }"

text \<open>The timestamp of the greeting with its angle brackets.\<close>

definition apop_stamp :: "string \<Rightarrow> string option" where
  "apop_stamp greeting =
     (let start = dropWhile (\<lambda>c. c \<noteq> CHR ''<'') greeting; body = takeWhile (\<lambda>c. c \<noteq> CHR ''>'') start in
      if start = [] \<or> body = start \<or> length body = 1 then None
      else
        let stamp = body @ ''>'' in if rfc822_valid_msgid stamp then Some stamp else None)"

definition auth_apop :: "md5ctx \<Rightarrow> pop3 \<Rightarrow> string \<Rightarrow> int \<times> pop3" where
  "auth_apop ctx s greeting =
     (case apop_stamp greeting of
        None \<Rightarrow> (PS_AUTHFAIL, s)
      | Some stamp \<Rightarrow>
          transact s (''APOP '' @ remotename (ctl s) @ '' '' @ MD5Digest ctx (bytes_of (stamp @ password (opts s)))))"

definition auth_rpop :: "pop3 \<Rightarrow> int \<times> pop3" where
  "auth_rpop s =
     (let (ok, s1) = transact s (''USER '' @ remotename (ctl s)) in
      if ok = 0 then transact s1 (''RPOP '' @ password (opts s)) else (ok, s1))"

definition pop3_getauth :: "(sock \<Rightarrow> bool \<times> sock) \<Rightarrow> md5ctx \<Rightarrow> bool \<Rightarrow> pop3 \<Rightarrow> string \<Rightarrow> (int \<times> pop3) option" where
  "pop3_getauth ssl ctx force_retr s0 greeting =
     (let s1 = set_peek_capable (s0\<lparr>done_capa := False, has_cram := False, has_stls := False\<rparr>);
          s = s1\<lparr>peek_capable := peek_capable s1 \<and> \<not> force_retr \<and> \<not> contains greeting ''Maillennium POP3''\<rparr> in
      if authenticate (opts s) = A_SSH then Some (PS_SUCCESS, s)
      else
        (case protocol (opts s) of
           P_POP3 \<Rightarrow> auth_pop3 ssl ctx s
         | P_APOP \<Rightarrow> Some (auth_apop ctx s greeting)
         | P_RPOP \<Rightarrow> Some (auth_rpop s)))"

subsection \<open>Identifiers of messages\<close>

definition trim :: "string \<Rightarrow> string" where
  "trim s = take (strcspn s POSIX_space) s"

text \<open>The state is \<open>got_it\<close> and the identifier.\<close>

definition topid_line :: "nat \<Rightarrow> string \<Rightarrow> bool \<times> string \<Rightarrow> (bool \<times> string) option" where
  "topid_line idsize buf = (\<lambda>(got_it, id).
     Some (if \<not> got_it \<and> has_iprefix buf ''Message-Id:'' then
             (True, trim (take (idsize - 1) (let p = drop 11 buf in drop (strspn p POSIX_space) p)))
           else (got_it, id)))"

definition pop3_gettopid :: "pop3 \<Rightarrow> int \<Rightarrow> string \<Rightarrow> nat \<Rightarrow> (int \<times> string \<times> pop3) option" where
  "pop3_gettopid s num id0 idsize = do {
     let (ok, s1) = transact s (''TOP '' @ show_int num @ '' 1'');
     if ok \<noteq> 0 then Some (ok, id0, s1)
     else do {
       (ok, ch, (got_it, ident)) \<leftarrow> recv_lines (POPBUFSIZE + 1) (topid_line idsize) (chan s1) (False, id0);
       Some (0, ident, s1\<lparr>chan := ch\<rparr>)
     }
   }"

text \<open>The number and the identifier; \<open>None\<close> is \<open>PS_PROTOCOL\<close>.\<close>

definition parseuid :: "string \<Rightarrow> nat \<Rightarrow> (64 word \<times> string) option" where
  "parseuid buf idsize =
     (case strtoul (drop (strspn buf POSIX_space) buf) of
        None \<Rightarrow> None
      | Some (gotnum, range_error, j) \<Rightarrow>
          if j = [] \<or> range_error \<or> hd j \<notin> set POSIX_space then None
          else Some (gotnum, trim (take (idsize - 1) (drop (strspn j POSIX_space) j))))"

definition pop3_getuidl :: "pop3 \<Rightarrow> int \<Rightarrow> nat \<Rightarrow> int \<times> string \<times> pop3" where
  "pop3_getuidl s num idsize =
     (let (ok, buf, s1) = reply (send_cmd s (''UIDL '' @ show_int num)) in
      if ok \<noteq> 0 then (ok, [], s1)
      else
        (case parseuid buf idsize of
           None \<Rightarrow> (PS_PROTOCOL, [], s1)
         | Some (gotnum, ident) \<Rightarrow>
             if gotnum \<noteq> word_of_int num then (PS_PROTOCOL, [], s1) else (0, ident, s1)))"

end
