(* ===== verification/Pop3Uid.thy ===== *)
theory Pop3Uid
  imports Pop3
begin

section \<open>The mailbox of a POP3 session (pop3.c)\<close>

text \<open>
  The range of messages, the searches for the first new one, the sizes, and what is fetched, marked and
  deleted. A message count that \<open>STAT\<close> gives is an \<open>int\<close>; the binary search counts in \<open>nat\<close>, as its
  bounds stay below the count.
\<close>

subsection \<open>Records of the databases\<close>

definition st_find :: "uid_store \<Rightarrow> string \<Rightarrow> addr option option" where
  "st_find st ident = find_uid_by_id (fst st) (snd st) ident"

definition st_status :: "uid_store \<Rightarrow> addr \<Rightarrow> int option" where
  "st_status st a = map_option (\<lambda>r. uint (rec_status r)) (recs (fst st) a)"

definition st_set_status :: "uid_store \<Rightarrow> addr \<Rightarrow> int \<Rightarrow> uid_store option" where
  "st_set_status st a v = map_option (\<lambda>h. (h, snd st)) (upd_rec (fst st) a (\<lambda>r. r\<lparr>rec_status := of_int v\<rparr>))"

definition st_insert :: "uid_store \<Rightarrow> string \<Rightarrow> int \<Rightarrow> (addr \<times> uid_store) option" where
  "st_insert st ident v = map_option (\<lambda>(a, h, db). (a, (h, db))) (uid_db_insert (fst st) (snd st) ident (of_int v))"

definition st_set_num :: "uid_store \<Rightarrow> addr \<Rightarrow> u32 \<Rightarrow> uid_store option" where
  "st_set_num st a n = map_option (\<lambda>db. (fst st, db)) (set_uid_db_num (snd st) a n)"

definition st_by_num :: "uid_store \<Rightarrow> u32 \<Rightarrow> addr option option" where
  "st_by_num st n = find_uid_by_num (snd st) n"

definition set_old :: "pop3 \<Rightarrow> uid_store \<Rightarrow> pop3" where
  "set_old s st = s\<lparr>ctl := (ctl s)\<lparr>oldsaved := st\<rparr>\<rparr>"

definition set_new :: "pop3 \<Rightarrow> uid_store \<Rightarrow> pop3" where
  "set_new s st = s\<lparr>ctl := (ctl s)\<lparr>newsaved := st\<rparr>\<rparr>"

abbreviation old_st :: "pop3 \<Rightarrow> uid_store" where "old_st s \<equiv> oldsaved (ctl s)"
abbreviation new_st :: "pop3 \<Rightarrow> uid_store" where "new_st s \<equiv> newsaved (ctl s)"

subsection \<open>The binary search\<close>

text \<open>A message that was to be deleted but is still there counts as seen from now on.\<close>

definition still_there :: "uid_store \<Rightarrow> addr \<Rightarrow> (int \<times> uid_store) option" where
  "still_there st a = do {
     mark \<leftarrow> st_status st a;
     if mark = UID_DELETED \<or> mark = UID_EXPUNGED then do { st1 \<leftarrow> st_set_status st a UID_SEEN; Some (UID_SEEN, st1) }
     else Some (mark, st)
   }"

text \<open>The message \<open>nr\<close> with the identifier \<open>ident\<close>: whether it is unseen, and the database with its number.\<close>

definition classify :: "uid_store \<Rightarrow> string \<Rightarrow> nat \<Rightarrow> (bool \<times> uid_store) option" where
  "classify st ident nr = do {
     p \<leftarrow> st_find st ident;
     (case p of
        Some a \<Rightarrow> do {
          (mark, st1) \<leftarrow> still_there st a;
          st2 \<leftarrow> st_set_num st1 a (of_nat nr);
          Some (mark = UID_UNSEEN, st2)
        }
      | None \<Rightarrow> do {
          (a, st1) \<leftarrow> st_insert st ident UID_UNSEEN;
          st2 \<leftarrow> st_set_num st1 a (of_nat nr);
          Some (True, st2)
        })
   }"

text \<open>The first result is the code and the second the last value of \<open>first_nr\<close>.\<close>

function fast_loop :: "pop3 \<Rightarrow> nat \<Rightarrow> nat \<Rightarrow> (int \<times> nat \<times> pop3) option" where
  "fast_loop s first_nr end_nr =
     (if first_nr < end_nr - 1 then
        let try_nr = (first_nr + end_nr) div 2;
            (ok, ident, s1) = pop3_getuidl s (int try_nr) (IDLEN + 1) in
        if ok \<noteq> 0 then Some (ok, first_nr, s1)
        else
          (case classify (old_st s1) ident try_nr of
             None \<Rightarrow> None
           | Some (unseen, st) \<Rightarrow>
               if unseen then fast_loop (set_old s1 st) first_nr try_nr
               else fast_loop (set_old s1 st) try_nr end_nr)
      else Some (0, first_nr, s))"
  by pat_completeness auto
termination
  by (relation "measure (\<lambda>(s, first_nr, end_nr). end_nr - first_nr)") auto

declare fast_loop.simps [simp del]

text \<open>The code and \<open>*newp\<close>.\<close>

definition pop3_fastuidl :: "pop3 \<Rightarrow> nat \<Rightarrow> (int \<times> int \<times> pop3) option" where
  "pop3_fastuidl s n = do {
     (ok, first_nr, s1) \<leftarrow> fast_loop s 0 (n + 1);
     Some (if ok \<noteq> 0 then (ok, -1, s1) else (0, int n - int first_nr, s1\<lparr>last_nr := int first_nr\<rparr>))
   }"

subsection \<open>The search by Message-Id\<close>

definition pos_of :: "uid_store \<Rightarrow> addr option \<Rightarrow> int option" where
  "pos_of st p = (case p of None \<Rightarrow> Some (-1) | Some a \<Rightarrow> map_option (\<lambda>r. sint (rec_pos r)) (recs (fst st) a))"

text \<open>\<open>add_id\<close> is a power of two or zero, and halved in every turn. The code is that of \<open>pop3_gettopid\<close>.\<close>

function slow_loop :: "pop3 \<Rightarrow> string \<Rightarrow> nat \<Rightarrow> int \<Rightarrow> int \<Rightarrow> (int \<times> int \<times> int \<times> string \<times> pop3) option" where
  "slow_loop s ident add_id try_id try_nr =
     (if add_id = 0 then Some (0, try_id, try_nr, ident, s)
      else if try_nr = -1 \<and> try_id - int add_id \<le> 1 then slow_loop s ident (add_id div 2) try_id try_nr
      else
        let try_id = (if try_nr = -1 then try_id - int add_id else try_id + int add_id) in
        (case pop3_gettopid s try_id ident (IDLEN + 1) of
           None \<Rightarrow> None
         | Some (ok, ident1, s1) \<Rightarrow>
             if ok \<noteq> 0 then Some (ok, try_id, try_nr, ident1, s1)
             else
               (case st_find (old_st s1) ident1 of
                  None \<Rightarrow> None
                | Some p \<Rightarrow>
                    (case pos_of (old_st s1) p of
                       None \<Rightarrow> None
                     | Some nr \<Rightarrow> slow_loop s1 ident1 (add_id div 2) try_id nr))))"
  by pat_completeness auto
termination
  by (relation "measure (\<lambda>(s, ident, add_id, try_id, try_nr). add_id)") auto

declare slow_loop.simps [simp del]

fun first_add :: "nat \<Rightarrow> int \<Rightarrow> nat" where
  "first_add add_id bound = (if int add_id > bound \<and> add_id \<noteq> 0 then first_add (add_id div 2) bound else add_id)"

declare first_add.simps [simp del]

text \<open>The known messages from \<open>num\<close> on are copied to the new list.\<close>

function copy_known :: "uid_store \<Rightarrow> uid_store \<Rightarrow> nat \<Rightarrow> nat \<Rightarrow> nat \<Rightarrow> uid_store option" where
  "copy_known old new first_nr num n_recs =
     (if num < n_recs then
        (case find_uid_by_pos (snd old) (of_nat num) of
           Some (Some a) \<Rightarrow>
             (case recs (fst old) a of
                None \<Rightarrow> None
              | Some r \<Rightarrow>
                  (case st_insert new (rec_id r) (uint (rec_status r)) of
                     None \<Rightarrow> None
                   | Some (b, new1) \<Rightarrow>
                       (case st_set_num new1 b (of_nat (num - first_nr + 1)) of
                          None \<Rightarrow> None
                        | Some new2 \<Rightarrow> copy_known old new2 first_nr (num + 1) n_recs)))
         | _ \<Rightarrow> None)
      else Some new)"
  by pat_completeness auto
termination
  by (relation "measure (\<lambda>(old, new, first_nr, num, n_recs). n_recs - num)") auto

declare copy_known.simps [simp del]

text \<open>
  \<open>ident0\<close> is what the array \<open>id\<close> on the stack holds at first. The middle part gives the code (0 to go on),
  \<open>try_id\<close> and \<open>nolinear\<close>.
\<close>

definition slow_middle :: "pop3 \<Rightarrow> string \<Rightarrow> int \<Rightarrow> int \<Rightarrow> int \<Rightarrow> (int \<times> int \<times> bool \<times> pop3) option" where
  "slow_middle s ident try_id n n_recs =
     (if try_id > 1 then do {
        (ok, try_id, try_nr, ident, s) \<leftarrow>
          (if try_id \<le> n then do {
             (ok, ident, s1) \<leftarrow> pop3_gettopid s try_id ident (IDLEN + 1);
             if ok \<noteq> 0 then Some (ok, try_id, -1, ident, s1)
             else do {
               p \<leftarrow> last_uid_in_db (fst (old_st s1)) (snd (old_st s1)) ident;
               nr \<leftarrow> pos_of (old_st s1) p;
               Some (0, try_id, nr, ident, s1)
             }
           } else Some (0, n + 1, -1, ident, s));
        if ok \<noteq> 0 then Some (ok, try_id, False, s)
        else if try_nr \<noteq> n_recs - 1 then
          if try_nr = -1 then do {
            (ok, try_id, try_nr, ident, s) \<leftarrow> slow_loop s ident (first_add (2 ^ 30) (try_id - 1)) try_id try_nr;
            Some (ok, if ok = 0 \<and> try_nr = -1 then try_id - 1 else try_id, True, s)
          } else Some (-1, try_id, False, s)
        else Some (0, try_id, False, s)
      } else Some (0, try_id, False, s))"

definition pop3_slowuidl :: "pop3 \<Rightarrow> string \<Rightarrow> int \<Rightarrow> (int \<times> int \<times> pop3) option" where
  "pop3_slowuidl s ident0 n = do {
     (ok, ident, s) \<leftarrow> pop3_gettopid s 1 ident0 (IDLEN + 1);
     if ok \<noteq> 0 then Some (ok, -1, s)
     else do {
       p \<leftarrow> st_find (old_st s) ident;
       (case p of
          None \<Rightarrow> Some (0, n, s)
        | Some a \<Rightarrow> do {
            first_nr \<leftarrow> pos_of (old_st s) (Some a);
            let n_recs = sint (uid_db_n_records (snd (old_st s)));
            (ok, try_id, nolinear, s) \<leftarrow> slow_middle s ident (n_recs - first_nr) n n_recs;
            if ok \<noteq> 0 then Some (ok, -1, s)
            else do {
              new \<leftarrow> copy_known (old_st s) (new_st s) (nat first_nr) (nat first_nr) (nat n_recs);
              let s = set_new s new;
              if nolinear then do {
                old \<leftarrow> clear_store (old_st s);
                Some (0, n - try_id, (set_old s old)\<lparr>last_nr := try_id\<rparr>)
              } else Some (0, n - try_id, s)
            }
          })
     }
   }"

subsection \<open>The range of messages\<close>

text \<open>One line of the reply to \<open>UIDL\<close>.\<close>

definition uidl_item :: "pop3 \<Rightarrow> int \<Rightarrow> 64 word \<Rightarrow> string \<Rightarrow> (int \<times> pop3) option" where
  "uidl_item s newp unum ident = do {
     (new_rec, new) \<leftarrow> st_insert (new_st s) ident UID_UNSEEN;
     p \<leftarrow> st_find (old_st s) ident;
     (newp, old_rec, old, new) \<leftarrow>
       (case p of
          Some a \<Rightarrow> do {
            (mark, old) \<leftarrow> still_there (old_st s) a;
            new \<leftarrow> st_set_status new new_rec mark;
            Some (if mark = UID_UNSEEN then newp + 1 else newp, a, old, new)
          }
        | None \<Rightarrow> do {
            (a, old) \<leftarrow> st_insert (old_st s) ident UID_UNSEEN;
            Some (newp + 1, a, old, new)
          });
     status \<leftarrow> st_status new new_rec;
     if status = UID_UNSEEN \<or> flush (opts s) then do {
       old \<leftarrow> st_set_num old old_rec (ucast unum);
       new \<leftarrow> st_set_num new new_rec (ucast unum);
       Some (newp, set_new (set_old s old) new)
     } else Some (newp, set_new (set_old s old) new)
   }"

function uidl_loop :: "pop3 \<Rightarrow> int \<Rightarrow> (int \<times> int \<times> pop3) option" where
  "uidl_loop s newp =
     (case gen_recv (chan s) (POPBUFSIZE + 1) of
        (ok, buf, ch) \<Rightarrow>
          let s1 = s\<lparr>chan := ch\<rparr> in
          if ok \<noteq> 0 then Some (PS_SUCCESS, newp, s1)
          else if DOTLINE buf then Some (PS_SUCCESS, newp, s1)
          else
            (case parseuid buf (IDLEN + 1) of
               None \<Rightarrow> Some (PS_ERROR, newp, s1)
             | Some (unum, ident) \<Rightarrow>
                 (case uidl_item s1 newp unum ident of
                    None \<Rightarrow> None
                  | Some (newp1, s2) \<Rightarrow> uidl_loop s2 newp1)))"
  by pat_completeness auto
termination
proof (relation "measure (\<lambda>(s, newp). length (inp (sck (chan s))))", goal_cases)
  case (2 s newp ok x buf ch s1 u unum ident i newp1 s2)
  have "chan s2 = chan s1"
    using 2 by (auto simp: uidl_item_def set_old_def set_new_def split: bind_splits option.splits if_splits)
  then show ?case using 2 by (auto dest: gen_recv_consumes [OF sym])
qed simp

declare uidl_loop.simps [simp del]

text \<open>The result of \<open>sscanf(buf, "%d", &v)\<close>: \<open>None\<close> is 0, and \<open>v\<close> is kept at the end of the input.\<close>

definition sscanf_d :: "string \<Rightarrow> int \<Rightarrow> int option" where
  "sscanf_d buf v = (if dropWhile isspace buf = [] then Some v else map_option fst (scan_d buf))"

definition sscanf_dd :: "string \<Rightarrow> (int \<times> int) option" where
  "sscanf_dd buf = do { (a, r) \<leftarrow> scan_d buf; (b, r) \<leftarrow> scan_d r; Some (a, b) }"

definition choose_fastuidl :: "options \<Rightarrow> int \<Rightarrow> bool" where
  "choose_fastuidl q n \<longleftrightarrow> n > 7 \<and> \<not> fetchall q \<and> \<not> flush q \<and> fastuidl q > 0 \<and> (fastuidl q = 1 \<or> fastuidlcount q \<noteq> 0)"

definition st_pos_0 :: "uid_store \<Rightarrow> int \<Rightarrow> uid_store" where
  "st_pos_0 st n = (fst st, set_uid_db_num_pos_0 (snd st) (word_of_int n))"

text \<open>The part that looks for the new messages: the code, \<open>*newp\<close> and the session.\<close>

definition find_new :: "pop3 \<Rightarrow> string \<Rightarrow> int \<Rightarrow> (int \<times> int \<times> pop3) option" where
  "find_new s0 ident0 n =
     (let s = (set_new (set_old s0 (st_pos_0 (old_st s0) n)) (st_pos_0 (new_st s0) n))\<lparr>dofastuidl := choose_fastuidl (opts s0) n\<rparr>;
          (ok, buf, s) = (if \<not> uidl (opts s) then reply (send_cmd s ''LAST'') else (1, [], s)) in
      if ok = 0 then
        (case sscanf_d buf (last_nr s) of
           None \<Rightarrow> Some (PS_ERROR, -1, s)
         | Some l \<Rightarrow> Some (PS_SUCCESS, n - l, s\<lparr>last_nr := l\<rparr>))
      else if dofastuidl s then pop3_fastuidl s (nat n)
      else
        (case transact s ''UIDL'' of
           (ok, s) \<Rightarrow>
             if ok \<noteq> 0 then
               (case pop3_slowuidl s ident0 n of
                  None \<Rightarrow> None
                | Some (ok, newp, s) \<Rightarrow> Some (if ok \<noteq> 0 then PS_ERROR else PS_SUCCESS, newp, s))
             else uidl_loop s 0))"

text \<open>The code, \<open>*countp\<close>, \<open>*newp\<close>, \<open>*bytes\<close>; they mean something when the code is 0.\<close>

definition pop3_getrange :: "pop3 \<Rightarrow> string \<Rightarrow> (int \<times> int \<times> int \<times> int \<times> pop3) option" where
  "pop3_getrange s0 ident0 = do {
     new \<leftarrow> clear_store (new_st s0);
     let (ok, buf, s) = reply (send_cmd (set_new s0 new) ''STAT'');
     if ok \<noteq> 0 then Some (ok, 0, 0, 0, s)
     else
       (case sscanf_dd buf of
          None \<Rightarrow> Some (PS_PROTOCOL, 0, 0, 0, s)
        | Some (n, bytes) \<Rightarrow>
            let s = s\<lparr>last_nr := 0\<rparr> in
            if n > 0 \<and> (\<not> fetchall (opts s) \<or> uidl (opts s)) then
              (case find_new s ident0 n of
                 None \<Rightarrow> None
               | Some (ok, newp, s) \<Rightarrow> Some (ok, n, newp, bytes, s))
            else Some (PS_SUCCESS, n, -1, bytes, s))
   }"

subsection \<open>Sizes\<close>

text \<open>An array of \<open>int\<close>; a size is converted from \<open>unsigned\<close>.\<close>

fun partial_loop :: "pop3 \<Rightarrow> int \<Rightarrow> int \<Rightarrow> nat \<Rightarrow> int list \<Rightarrow> (int \<times> int list \<times> pop3) option" where
  "partial_loop s first i 0 sizes = Some (0, sizes, s)"
| "partial_loop s first i (Suc k) sizes =
     (case reply (send_cmd s (''LIST '' @ show_int i)) of
        (ok, buf, s1) \<Rightarrow>
          if ok \<noteq> 0 then Some (ok, sizes, s1)
          else
            (case scan_d buf of
               None \<Rightarrow> partial_loop s1 first (i + 1) k sizes
             | Some (num, r) \<Rightarrow>
                 (case scan_u r of
                    None \<Rightarrow> partial_loop s1 first (i + 1) k sizes
                  | Some (sz, r) \<Rightarrow>
                      if num \<noteq> i then partial_loop s1 first (i + 1) k sizes
                      else
                        (case poke sizes (nat (i - first)) (sint sz) of
                           None \<Rightarrow> None
                         | Some sizes1 \<Rightarrow> partial_loop s1 first (i + 1) k sizes1))))"

definition pop3_getpartialsizes :: "pop3 \<Rightarrow> int \<Rightarrow> int \<Rightarrow> int list \<Rightarrow> (int \<times> int list \<times> pop3) option" where
  "pop3_getpartialsizes s first lst sizes = partial_loop s first first (nat (lst - first + 1)) sizes"

definition size_line :: "int \<Rightarrow> string \<Rightarrow> int list \<Rightarrow> int list option" where
  "size_line n buf sizes =
     (case scan_u buf of
        None \<Rightarrow> Some sizes
      | Some (num, r) \<Rightarrow>
          (case scan_u r of
             None \<Rightarrow> Some sizes
           | Some (sz, r) \<Rightarrow>
               if num > 0 \<and> num \<le> word_of_int n then poke sizes (unat (num - 1)) (sint sz) else Some sizes))"

definition pop3_getsizes :: "pop3 \<Rightarrow> int \<Rightarrow> int list \<Rightarrow> (int \<times> int list \<times> pop3) option" where
  "pop3_getsizes s n sizes =
     (case transact s ''LIST'' of
        (ok, s1) \<Rightarrow>
          if ok \<noteq> 0 then Some (ok, sizes, s1)
          else map_option (\<lambda>(ok, ch, sizes1). (ok, sizes1, s1\<lparr>chan := ch\<rparr>))
                 (recv_lines (POPBUFSIZE + 1) (size_line n) (chan s1) sizes))"

subsection \<open>Messages\<close>

definition pop3_is_old :: "pop3 \<Rightarrow> int \<Rightarrow> (bool \<times> pop3) option" where
  "pop3_is_old s num =
     (if uid_db_n_records (snd (old_st s)) = 0 then Some (num \<le> last_nr s, s)
      else if dofastuidl s then
        if num \<le> last_nr s then Some (True, s)
        else do {
          p \<leftarrow> st_by_num (old_st s) (word_of_int num);
          (case p of
             Some a \<Rightarrow> map_option (\<lambda>v. (v \<noteq> UID_UNSEEN, s)) (st_status (old_st s) a)
           | None \<Rightarrow> do {
               let (ok, ident, s) = pop3_getuidl s num (IDLEN + 1);
               if ok \<noteq> PS_SUCCESS then Some (True, s)
               else do {
                 p \<leftarrow> st_find (old_st s) ident;
                 (case p of
                    Some a \<Rightarrow> do {
                      st \<leftarrow> st_set_num (old_st s) a (word_of_int num);
                      v \<leftarrow> st_status st a;
                      Some (v \<noteq> UID_UNSEEN, set_old s st)
                    }
                  | None \<Rightarrow> do {
                      (a, st) \<leftarrow> st_insert (old_st s) ident UID_UNSEEN;
                      st \<leftarrow> st_set_num st a (word_of_int num);
                      Some (False, set_old s st)
                    })
               }
             })
        }
      else do {
        p \<leftarrow> st_by_num (new_st s) (word_of_int num);
        (case p of None \<Rightarrow> Some (True, s)
         | Some a \<Rightarrow> map_option (\<lambda>v. (v \<noteq> UID_UNSEEN, s)) (st_status (new_st s) a))
      })"

text \<open>The sizes come from \<open>LIST\<close>, so that \<open>*lenp\<close> is -1.\<close>

definition pop3_fetch :: "pop3 \<Rightarrow> int \<Rightarrow> int \<times> pop3" where
  "pop3_fetch s number =
     (let (ok, buf, s1) = reply (send_cmd s (if \<not> peek_capable s then ''RETR '' @ show_int number
                                             else ''TOP '' @ show_int number @ '' 99999999'')) in
      (if ok \<noteq> 0 then ok else PS_SUCCESS, s1))"

definition mark_if_there :: "uid_store \<Rightarrow> int \<Rightarrow> int \<Rightarrow> uid_store option" where
  "mark_if_there st number v = do {
     p \<leftarrow> st_by_num st (word_of_int number);
     (case p of None \<Rightarrow> Some st | Some a \<Rightarrow> st_set_status st a v)
   }"

definition mark_uid_seen :: "pop3 \<Rightarrow> int \<Rightarrow> pop3 option" where
  "mark_uid_seen s number = do {
     new \<leftarrow> mark_if_there (new_st s) number UID_SEEN;
     old \<leftarrow> mark_if_there (old_st s) number UID_SEEN;
     Some (set_old (set_new s new) old)
   }"

text \<open>The record that is found is written to, whether there is one or not.\<close>

definition mark_deleted :: "uid_store \<Rightarrow> int \<Rightarrow> uid_store option" where
  "mark_deleted st number = do {
     p \<leftarrow> st_by_num st (word_of_int number);
     (case p of None \<Rightarrow> None | Some a \<Rightarrow> st_set_status st a UID_DELETED)
   }"

definition pop3_delete :: "pop3 \<Rightarrow> int \<Rightarrow> (int \<times> pop3) option" where
  "pop3_delete s0 number = do {
     s \<leftarrow> mark_uid_seen s0 number;
     (case transact s (''DELE '' @ show_int number) of
        (ok, s1) \<Rightarrow>
          if ok \<noteq> PS_SUCCESS then Some (ok, s1)
          else if dofastuidl s1 then map_option (\<lambda>st. (PS_SUCCESS, set_old s1 st)) (mark_deleted (old_st s1) number)
          else map_option (\<lambda>st. (PS_SUCCESS, set_new s1 st)) (mark_deleted (new_st s1) number))
   }"

definition pop3_mark_seen :: "pop3 \<Rightarrow> int \<Rightarrow> (int \<times> pop3) option" where
  "pop3_mark_seen s number = map_option (\<lambda>s1. (PS_SUCCESS, s1)) (mark_uid_seen s number)"

definition pop3_logout :: "pop3 \<Rightarrow> (int \<times> pop3) option" where
  "pop3_logout s =
     (case transact s ''QUIT'' of
        (ok, s1) \<Rightarrow>
          if ok \<noteq> 0 then Some (ok, s1)
          else map_option (\<lambda>q. (ok, s1\<lparr>ctl := q\<rparr>)) (expunge_uids (dofastuidl s1) (ctl s1)))"

end
