(* ===== verification/Pop3Spec.thy ===== *)
theory Pop3Spec
  imports Pop3Uid UidFile
begin

section \<open>What a POP3 session does for every server\<close>

subsection \<open>What is written\<close>

lemma gen_line_untagged: "\<not> tagged ch \<Longrightarrow> gen_line ch t = (take (MAXLINE - 2) t @ [CR, LF], ch)"
  by (simp add: gen_line_def)

lemma gen_line_keeps: "gen_line ch t = (buf, ch1) \<Longrightarrow> same_link ch1 ch \<and> sck ch1 = sck ch"
  by (auto simp: gen_line_def same_link_def Let_def split: if_splits)

lemma sock_write_keeps: "sock_write ch buf = (r, ch1) \<Longrightarrow> same_link ch1 ch"
  by (auto simp: sock_write_def same_link_def split: prod.splits)

lemma sock_write_prefix:
  "sock_write ch buf = (r, ch1) \<Longrightarrow> \<exists>k. outp (sck ch1) = outp (sck ch) @ take k buf \<and> (r = int (length buf) \<longrightarrow> k = length buf)"
proof -
  assume w: "sock_write ch buf = (r, ch1)"
  obtain k where "outp (snd (SockWrite (sck ch) buf)) = outp (sck ch) @ take k buf"
    "fst (SockWrite (sck ch) buf) = int (length buf) \<longrightarrow> k = length buf" using SockWrite_prefix by blast
  then show ?thesis using w by (intro exI [of _ k]) (auto simp: sock_write_def split: prod.splits)
qed

lemma gen_send_keeps: "same_link (gen_send ch t) ch"
  unfolding gen_send_def
  by (auto split: prod.split dest!: gen_line_keeps intro: same_link_trans dest: sock_write_keeps)
    (metis prod.collapse same_link_trans sock_write_keeps)

lemma pop3_ok_keeps: "pop3_ok st ch = (ok, t, ch1) \<Longrightarrow> same_link ch1 ch \<and> outp (sck ch1) = outp (sck ch)"
  by (auto simp: pop3_ok_def Let_def dest!: gen_recv_keeps split: prod.splits if_splits)

lemma gen_transact_keeps:
  assumes "\<And>c r c1. parse c = (r, c1) \<Longrightarrow> same_link c1 c"
  shows "gen_transact parse ch t = (ok, ch1) \<Longrightarrow> same_link ch1 ch"
  using assms unfolding gen_transact_def
  by (auto split: prod.splits if_splits dest!: gen_line_keeps sock_write_keeps intro: same_link_trans)
    (meson same_link_trans)

lemma parse_keeps: "parse_ok st c = (r, ch1) \<Longrightarrow> same_link ch1 c"
  by (auto simp: parse_ok_def dest: pop3_ok_keeps split: prod.splits)

lemma transact_keeps: "transact s t = (ok, s1) \<Longrightarrow> s1 = s\<lparr>chan := chan s1\<rparr> \<and> same_link (chan s1) (chan s)"
  using gen_transact_keeps [of "parse_ok (stage s)", OF parse_keeps] by (auto simp: transact_def split: prod.splits)

lemma transact_same: "transact s t = (ok, s1) \<Longrightarrow> opts s1 = opts s \<and> ctl s1 = ctl s \<and> stage s1 = stage s
    \<and> dofastuidl s1 = dofastuidl s \<and> has_stls s1 = has_stls s \<and> has_cram s1 = has_cram s"
  by (auto simp: transact_def split: prod.splits)

lemma transact_writes:
  assumes "\<not> tagged (chan s)" "length t \<le> MAXLINE - 2" "transact s t = (ok, s1)"
  obtains k where "outp (sck (chan s1)) = outp (sck (chan s)) @ take k (t @ [CR, LF])"
proof -
  obtain r ch1 where w: "sock_write (chan s) (t @ [CR, LF]) = (r, ch1)" by fastforce
  obtain k where k: "outp (sck ch1) = outp (sck (chan s)) @ take k (t @ [CR, LF])"
    using sock_write_prefix [OF w] by blast
  have "outp (sck (chan s1)) = outp (sck ch1)"
    using assms w by (auto simp: transact_def gen_transact_def parse_ok_def gen_line_untagged dest!: pop3_ok_keeps split: prod.splits if_splits)
  with k that show ?thesis by metis
qed

lemma recv_lines_keeps: "recv_lines n f ch a = Some (ok, ch1, b) \<Longrightarrow> same_link ch1 ch \<and> outp (sck ch1) = outp (sck ch)"
proof (induction n f ch a rule: recv_lines.induct)
  case (1 n f ch a)
  obtain r buf c where g: "gen_recv ch n = (r, buf, c)" by (cases "gen_recv ch n") auto
  note k = gen_recv_keeps [OF g]
  show ?case
  proof (cases "r \<noteq> 0 \<or> DOTLINE buf")
    case True
    then have "ch1 = c" using "1.prems" g by (subst (asm) recv_lines.simps) (auto split: if_splits)
    then show ?thesis using k by simp
  next
    case False
    then obtain a1 where "f buf a = Some a1" "recv_lines n f c a1 = Some (ok, ch1, b)"
      using "1.prems" g by (subst (asm) recv_lines.simps) (auto split: option.splits)
    then show ?thesis using "1.IH" [OF g [symmetric] refl] False k by (auto intro: same_link_trans)
  qed
qed

text \<open>What a probe for the capabilities can change.\<close>

lemma capa_probe_writes:
  assumes "capa_probe s = Some (ok, s1)" "\<not> tagged (chan s)"
  obtains k where "outp (sck (chan s1)) = outp (sck (chan s)) @ take k (''CAPA'' @ [CR, LF])"
    "same_link (chan s1) (chan s)" "opts s1 = opts s" "ctl s1 = ctl s"
proof (cases "done_capa s")
  case True
  then show ?thesis using assms that [of 0] by (auto simp: capa_probe_def)
next
  case False
  obtain r s2 where t: "transact (s\<lparr>has_cram := False\<rparr>) ''CAPA'' = (r, s2)" by fastforce
  obtain k where k: "outp (sck (chan s2)) = outp (sck (chan s)) @ take k (''CAPA'' @ [CR, LF])"
    using transact_writes [OF _ _ t] assms(2) by (auto simp: MAXLINE_def)
  note e = transact_keeps [OF t, THEN conjunct2] transact_same [OF t]
  have "\<exists>ch. s1 = s1\<lparr>chan := ch\<rparr> \<and> chan s1 = ch \<and> same_link ch (chan s2) \<and> outp (sck ch) = outp (sck (chan s2))
      \<and> opts s1 = opts s2 \<and> ctl s1 = ctl s2"
    using assms(1) False t by (auto simp: capa_probe_def dest!: recv_lines_keeps split: if_splits bind_splits)
  then show ?thesis using k e by (intro that [of k]) (auto intro: same_link_trans)
qed

lemma cram_auth_keeps:
  assumes "\<And>c r c1. parse c = (r, c1) \<Longrightarrow> same_link c1 c"
  shows "cram_auth parse ctx ch command user pw strip = Some (ok, ch1) \<Longrightarrow> same_link ch1 ch"
proof -
  assume c: "cram_auth parse ctx ch command user pw strip = Some (ok, ch1)"
  obtain r line ch2 where g: "gen_recv (gen_send ch (command @ '' CRAM-MD5'')) 1024 = (r, line, ch2)"
    by (metis prod_cases3)
  have 2: "same_link ch2 ch" using same_link_trans [OF gen_recv_keeps [OF g, THEN conjunct2, THEN conjunct1] gen_send_keeps] .
  have t: "same_link (snd (gen_transact parse ch2 out)) ch2" for out
    by (rule gen_transact_keeps [of parse ch2 out "fst (gen_transact parse ch2 out)"]) (auto intro: assms)
  obtain sent where "ch1 = (case sent of [_, out] \<Rightarrow> snd (gen_transact parse ch2 out) | _ \<Rightarrow> ch2)"
    using c g by (auto simp: cram_auth_def Let_def)
  then have "ch1 = ch2 \<or> (\<exists>out. ch1 = snd (gen_transact parse ch2 out))" by (auto split: list.splits)
  then show ?thesis using 2 t same_link_trans by blast
qed

lemma plain_login_keeps: "plain_login s = (ok, s1) \<Longrightarrow> same_link (chan s1) (chan s)"
  by (auto simp: plain_login_def Let_def dest!: transact_keeps split: prod.splits if_splits intro: same_link_trans)

lemma login_step_keeps:
  assumes "login_step ctx s = Some (ok, s1)"
  shows "same_link (chan s1) (chan s)"
proof (cases "authenticate (opts s) = A_CRAM_MD5 \<or> has_cram s \<and> authenticate (opts s) = A_ANY")
  case False
  then show ?thesis using assms plain_login_keeps by (auto simp: login_step_def)
next
  case True
  then obtain r ch where c: "cram_auth (parse_ok (stage s)) ctx (chan s) ''AUTH'' (remotename (ctl s)) (password (opts s)) None = Some (r, ch)"
    "(if r = PS_SUCCESS \<or> authenticate (opts s) \<noteq> A_ANY then (r, s\<lparr>chan := ch\<rparr>) else plain_login (s\<lparr>chan := ch\<rparr>)) = (ok, s1)"
    using assms unfolding login_step_def by (auto simp: Let_def split: bind_splits)
  have "same_link ch (chan s)" using cram_auth_keeps [of "parse_ok (stage s)", OF parse_keeps c(1)] .
  then show ?thesis using c(2) plain_login_keeps [of "s\<lparr>chan := ch\<rparr>" ok s1] by (auto split: if_splits intro: same_link_trans)
qed

lemma clear_text_tls: "same_link a b \<Longrightarrow> tls b \<Longrightarrow> clear_text a = clear_text b"
  by (simp add: same_link_def clear_text_def)

lemma stls_step_must:
  assumes "must_starttls (opts s)" "\<not> tagged (chan s)" "\<not> tls (chan s)" "stls_step ssl s = Some (r, errs, s1)"
  shows "\<exists>j. clear_text (chan s1) = clear_text (chan s) @ take j (''STLS'' @ [CR, LF])" "r = None \<Longrightarrow> tls (chan s1)"
proof -
  have m: "maybe_starttls (opts s)" using assms(1) by (simp add: must_starttls_def)
  obtain ok s2 where t: "transact s ''STLS'' = (ok, s2)" by fastforce
  obtain j where j: "outp (sck (chan s2)) = outp (sck (chan s)) @ take j (''STLS'' @ [CR, LF])"
    using transact_writes [OF assms(2) _ t] by (auto simp: MAXLINE_def)
  note k = transact_keeps [OF t, THEN conjunct2] transact_same [OF t]
  have c2: "clear_text (chan s2) = clear_text (chan s) @ take j (''STLS'' @ [CR, LF])"
    using j k assms(3) by (simp add: clear_text_def same_link_def)
  define gs where "gs = (if ok = PS_SUCCESS then start_tls ssl s2 else (False, s2))"
  obtain good s3 where g: "gs = (good, s3)" by fastforce
  have o3: "opts s3 = opts s" "clear_text (chan s3) = clear_text (chan s2)" "good \<Longrightarrow> tls (chan s3) \<and> \<not> tagged (chan s3)"
    using g k assms(2,3) by (auto simp: gs_def start_tls_def clear_text_def same_link_def Let_def split: if_splits prod.splits)
  have "(\<exists>j. clear_text (chan s1) = clear_text (chan s) @ take j (''STLS'' @ [CR, LF])) \<and> (r = None \<longrightarrow> tls (chan s1))"
  proof (cases good)
    case False
    then have "r = Some PS_SOCKET" "s1 = s3"
      using assms(1,4) m t g o3(1) unfolding stls_step_def Let_def by (auto simp: gs_def)
    then show ?thesis using o3 c2 by auto
  next
    case True
    then obtain ok4 s4 where c: "capa_probe (s3\<lparr>done_capa := False\<rparr>) = Some (ok4, s4)" "s1 = s4" "r = None \<or> r = Some ok4"
      using assms(1,4) m t g unfolding stls_step_def Let_def by (auto simp: gs_def split: bind_splits if_splits)
    have "same_link (chan s4) (chan s3)"
      using capa_probe_writes [OF c(1)] True o3(3) by auto
    then show ?thesis using c2 o3 c(2) True by (auto simp: same_link_def clear_text_def)
  qed
  then show "\<exists>j. clear_text (chan s1) = clear_text (chan s) @ take j (''STLS'' @ [CR, LF])" "r = None \<Longrightarrow> tls (chan s1)" by auto
qed

lemma capa_step_must:
  assumes "must_starttls (opts s)" "\<not> tagged (chan s)" "\<not> tls (chan s)" "capa_step s = Some (r, s1)"
  shows "\<exists>i. clear_text (chan s1) = clear_text (chan s) @ take i (''CAPA'' @ [CR, LF])"
    "r \<noteq> Some PS_SUCCESS" "opts s1 = opts s" "same_link (chan s1) (chan s)"
proof -
  have w: "wants_capa (opts s)" using assms(1) by (simp add: wants_capa_def must_starttls_def)
  then obtain ok s2 where c: "capa_probe s = Some (ok, s2)" using assms(4) by (auto simp: capa_step_def split: bind_splits)
  obtain i where i: "outp (sck (chan s2)) = outp (sck (chan s)) @ take i (''CAPA'' @ [CR, LF])"
    "same_link (chan s2) (chan s)" "opts s2 = opts s" using capa_probe_writes [OF c assms(2)] by blast
  have "s1 = s2 \<and> (r = None \<or> r = Some ok \<and> ok \<noteq> PS_SUCCESS)"
    using assms(1,4) w c i(3) by (auto simp: capa_step_def split: if_splits)
  then show "\<exists>i. clear_text (chan s1) = clear_text (chan s) @ take i (''CAPA'' @ [CR, LF])"
    "r \<noteq> Some PS_SUCCESS" "opts s1 = opts s" "same_link (chan s1) (chan s)"
    using i assms(3) by (auto simp: clear_text_def same_link_def)
qed

lemma auth_pop3_must:
  assumes "must_starttls (opts s)" "\<not> tagged (chan s)" "\<not> tls (chan s)" "auth_pop3 ssl ctx s = Some (ok, s1)"
  shows "\<exists>i j. clear_text (chan s1) = clear_text (chan s) @ take i (''CAPA'' @ [CR, LF]) @ take j (''STLS'' @ [CR, LF])"
    "tls (chan s1) \<or> ok \<noteq> PS_SUCCESS"
proof -
  obtain r1 s2 where 1: "capa_step s = Some (r1, s2)" using assms(4) by (auto simp: auth_pop3_def split: bind_splits)
  note c = capa_step_must [OF assms(1-3) 1]
  obtain i where i: "clear_text (chan s2) = clear_text (chan s) @ take i (''CAPA'' @ [CR, LF])" using c(1) by blast
  have "(\<exists>i j. clear_text (chan s1) = clear_text (chan s) @ take i (''CAPA'' @ [CR, LF]) @ take j (''STLS'' @ [CR, LF]))
      \<and> (tls (chan s1) \<or> ok \<noteq> PS_SUCCESS)"
  proof (cases r1)
    case (Some x)
    then have "s1 = s2" "ok = x" using 1 assms(4) by (auto simp: auth_pop3_def)
    then show ?thesis using i c(2) Some by (intro conjI exI [of _ i] exI [of _ 0]) auto
  next
    case None
    obtain r2 e s3 where 2: "stls_step ssl s2 = Some (r2, e, s3)"
      using 1 None assms(4) by (auto simp: auth_pop3_def split: bind_splits)
    have pre: "must_starttls (opts s2)" "\<not> tagged (chan s2)" "\<not> tls (chan s2)"
      using assms(1-3) c(3,4) by (auto simp: same_link_def)
    note m = stls_step_must [OF pre 2]
    obtain j where j: "clear_text (chan s3) = clear_text (chan s2) @ take j (''STLS'' @ [CR, LF])" using m(1) by blast
    have r2: "r2 = Some y \<Longrightarrow> y \<noteq> PS_SUCCESS" for y
      using 2 pre(1) by (auto simp: stls_step_def must_starttls_def PS_SOCKET_def PS_SUCCESS_def split: if_splits bind_splits prod.splits)
    have "clear_text (chan s1) = clear_text (chan s3) \<and> (tls (chan s1) \<or> ok \<noteq> PS_SUCCESS)"
    proof (cases r2)
      case (Some y)
      then show ?thesis using 1 2 None assms(4) r2 by (auto simp: auth_pop3_def)
    next
      case n: None
      then obtain ok4 s4 where l: "login_step ctx s3 = Some (ok4, s4)"
        "chan s1 = chan s4" using 1 2 None assms(4) by (auto simp: auth_pop3_def split: bind_splits if_splits)
      have "same_link (chan s4) (chan s3)" by (rule login_step_keeps [OF l(1)])
      then show ?thesis using l(2) m(2) [OF n] by (auto simp: same_link_def clear_text_def)
    qed
    then show ?thesis using i j by (intro conjI exI [of _ i] exI [of _ j]) auto
  qed
  then show "\<exists>i j. clear_text (chan s1) = clear_text (chan s) @ take i (''CAPA'' @ [CR, LF]) @ take j (''STLS'' @ [CR, LF])"
    "tls (chan s1) \<or> ok \<noteq> PS_SUCCESS" by auto
qed

lemma getauth_must:
  assumes "must_starttls (opts s)" "protocol (opts s) = P_POP3" "authenticate (opts s) \<noteq> A_SSH"
    "\<not> tagged (chan s)" "\<not> tls (chan s)" "pop3_getauth ssl ctx force s greeting = Some (ok, s1)"
  shows "(\<exists>i j. clear_text (chan s1) = clear_text (chan s) @ take i (''CAPA'' @ [CR, LF]) @ take j (''STLS'' @ [CR, LF]))
    \<and> (ok = PS_SUCCESS \<longrightarrow> tls (chan s1))"
proof -
  define s' where "s' = (set_peek_capable (s\<lparr>done_capa := False, has_cram := False, has_stls := False\<rparr>))
      \<lparr>peek_capable := peek_capable (set_peek_capable (s\<lparr>done_capa := False, has_cram := False, has_stls := False\<rparr>))
        \<and> \<not> force \<and> \<not> contains greeting ''Maillennium POP3''\<rparr>"
  have "auth_pop3 ssl ctx s' = Some (ok, s1)" "opts s' = opts s" "chan s' = chan s"
    using assms(2,3,6) by (simp_all add: pop3_getauth_def Let_def s'_def set_peek_capable_def)
  then show ?thesis using auth_pop3_must [of s' ssl ctx ok s1] assms(1,4,5) by auto
qed

end
