(* ===== verification/Pop3Props.thy ===== *)
theory Pop3Props
  imports Pop3Spec
begin

section \<open>The search, the sizes and the errors of a POP3 session\<close>

subsection \<open>The binary search\<close>

text \<open>
  A run of the search lists the messages that were asked for, each with the verdict of the code on the
  identifier the server gave: unseen or not.
\<close>

inductive search_run :: "pop3 \<Rightarrow> (nat \<times> bool) list \<Rightarrow> pop3 \<Rightarrow> bool" where
  run_end: "search_run s [] s"
| run_ask: "pop3_getuidl s (int nr) (IDLEN + 1) = (0, ident, s1) \<Longrightarrow> classify (old_st s1) ident nr = Some (unseen, st) \<Longrightarrow>
     search_run (set_old s1 st) vs s2 \<Longrightarrow> search_run s ((nr, unseen) # vs) s2"

lemma half_bounds: "a + 1 < b \<Longrightarrow> a < (a + b) div 2 \<and> (a + b) div 2 < b" for a b :: nat
  by auto

lemma half_small: "b - a \<le> 2 ^ Suc m \<Longrightarrow> (a + b) div 2 - a \<le> 2 ^ m \<and> b - (a + b) div 2 \<le> 2 ^ m" for a b :: nat
  by auto

lemma fast_loop_run:
  "fast_loop s a b = Some (0, f, s2) \<Longrightarrow> a < b \<Longrightarrow>
     \<exists>vs. search_run s vs s2 \<and> a \<le> f \<and> f < b \<and> (f = a \<or> (f, False) \<in> set vs) \<and> (f + 1 = b \<or> (f + 1, True) \<in> set vs)
       \<and> (b - a \<le> 2 ^ m \<longrightarrow> length vs \<le> m) \<and> (\<forall>(nr, v)\<in>set vs. a < nr \<and> nr < b)"
proof (induction s a b arbitrary: m rule: fast_loop.induct)
  case (1 s a b)
  show ?case
  proof (cases "a < b - 1")
    case False
    then show ?thesis using "1.prems" by (subst (asm) fast_loop.simps) (auto intro: run_end exI [of _ "[]"])
  next
    case True
    define t where "t = (a + b) div 2"
    have t: "a < t" "t < b" using half_bounds [of a b] True by (auto simp: t_def)
    obtain ok ident s1 where g: "pop3_getuidl s (int t) (IDLEN + 1) = (ok, ident, s1)" by (metis prod_cases3)
    have ok: "ok = 0" using "1.prems"(1) True g by (subst (asm) fast_loop.simps) (auto simp: t_def [symmetric] Let_def split: if_splits)
    obtain unseen st where c: "classify (old_st s1) ident t = Some (unseen, st)"
      "fast_loop (set_old s1 st) (if unseen then a else t) (if unseen then t else b) = Some (0, f, s2)"
      using "1.prems"(1) True g ok by (subst (asm) fast_loop.simps) (auto simp: t_def [symmetric] Let_def split: option.splits if_splits)
    have half: "b - a \<le> 2 ^ Suc k \<Longrightarrow> (if unseen then t - a else b - t) \<le> 2 ^ k" for k
      using half_small [of b a k] by (simp add: t_def)
    have step: "\<exists>vs. search_run (set_old s1 st) vs s2 \<and> (if unseen then a else t) \<le> f \<and> f < (if unseen then t else b)
        \<and> (f = (if unseen then a else t) \<or> (f, False) \<in> set vs) \<and> (f + 1 = (if unseen then t else b) \<or> (f + 1, True) \<in> set vs)
        \<and> ((if unseen then t - a else b - t) \<le> 2 ^ k \<longrightarrow> length vs \<le> k)
        \<and> (\<forall>(nr, v)\<in>set vs. (if unseen then a else t) < nr \<and> nr < (if unseen then t else b))" for k
      using "1.IH" [OF True t_def refl g [symmetric] refl _ c(1) refl] c(2) t ok by (cases unseen) auto
    have m: "b - a \<le> 2 ^ m \<Longrightarrow> \<exists>k. m = Suc k"
      using True by (cases m) auto
    obtain vs where vs: "search_run (set_old s1 st) vs s2" "(if unseen then a else t) \<le> f" "f < (if unseen then t else b)"
        "f = (if unseen then a else t) \<or> (f, False) \<in> set vs" "f + 1 = (if unseen then t else b) \<or> (f + 1, True) \<in> set vs"
        "(if unseen then t - a else b - t) \<le> 2 ^ (m - 1) \<longrightarrow> length vs \<le> m - 1"
        "\<forall>(nr, v)\<in>set vs. (if unseen then a else t) < nr \<and> nr < (if unseen then t else b)"
      using step [of "m - 1"] by blast
    have "search_run s ((t, unseen) # vs) s2" using g ok by (intro run_ask [OF _ c(1) vs(1)]) simp
    moreover have "b - a \<le> 2 ^ m \<longrightarrow> length ((t, unseen) # vs) \<le> m" using m half vs(6) by (cases m) fastforce+
    moreover have "f = a \<or> (f, False) \<in> set ((t, unseen) # vs)" "f + 1 = b \<or> (f + 1, True) \<in> set ((t, unseen) # vs)"
      using vs(4,5) by (auto split: if_splits)
    moreover have "a \<le> f" "f < b" using vs(2,3) t by (auto split: if_splits)
    moreover have "\<forall>(nr, v)\<in>set ((t, unseen) # vs). a < nr \<and> nr < b" using vs(7) t by (fastforce split: if_splits)
    ultimately show ?thesis by blast
  qed
qed

text \<open>With the messages that were seen before all others, the search finds how many they are.\<close>

lemma fastuidl_run:
  assumes "pop3_fastuidl s n = Some (0, newp, s1)"
  shows "\<exists>vs s2. search_run s vs s2 \<and> 0 \<le> newp \<and> newp \<le> int n \<and> last_nr s1 = int n - newp
    \<and> (newp = int n \<or> (n - nat newp, False) \<in> set vs) \<and> (newp = 0 \<or> (n - nat newp + 1, True) \<in> set vs)
    \<and> (n < 2 ^ m \<longrightarrow> length vs \<le> m) \<and> (\<forall>(nr, v)\<in>set vs. 1 \<le> nr \<and> nr \<le> n)"
proof -
  obtain f s2 where f: "fast_loop s 0 (n + 1) = Some (0, f, s2)" "newp = int n - int f" "s1 = s2\<lparr>last_nr := int f\<rparr>"
    using assms by (auto simp: pop3_fastuidl_def split: bind_splits if_splits)
  obtain vs where vs: "search_run s vs s2" "f \<le> n" "f = 0 \<or> (f, False) \<in> set vs" "f = n \<or> (f + 1, True) \<in> set vs"
    "n + 1 \<le> 2 ^ m \<longrightarrow> length vs \<le> m" "\<forall>(nr, v)\<in>set vs. 0 < nr \<and> nr < n + 1"
    using fast_loop_run [OF f(1), of m] by auto
  have "n - nat newp = f" using f(2) vs(2) by simp
  then show ?thesis using vs f(2,3) by (intro exI [of _ vs] exI [of _ s2]) auto
qed

subsection \<open>Sizes\<close>

lemma recv_lines_inv:
  assumes "\<And>buf a. P a \<Longrightarrow> \<exists>a1. f buf a = Some a1 \<and> P a1"
  shows "P a \<Longrightarrow> \<exists>ok ch1 a1. recv_lines n f ch a = Some (ok, ch1, a1) \<and> P a1"
proof (induction "length (inp (sck ch))" arbitrary: ch a rule: less_induct)
  case less
  obtain r buf c where g: "gen_recv ch n = (r, buf, c)" by (cases "gen_recv ch n") auto
  show ?case
  proof (cases "r \<noteq> 0 \<or> DOTLINE buf")
    case True
    then show ?thesis using less.prems g by (subst recv_lines.simps) auto
  next
    case False
    obtain a1 where a1: "f buf a = Some a1" "P a1" using assms [OF less.prems] by blast
    have "length (inp (sck c)) < length (inp (sck ch))" using gen_recv_consumes [OF g] False by simp
    then obtain ok ch1 a2 where "recv_lines n f c a1 = Some (ok, ch1, a2)" "P a2" using less.hyps a1(2) by blast
    then show ?thesis using False g a1(1) by (subst recv_lines.simps) simp
  qed
qed

lemma size_line_safe:
  assumes "length sizes < 2 ^ 31"
  shows "\<exists>sizes1. size_line (int (length sizes)) buf sizes = Some sizes1 \<and> length sizes1 = length sizes"
proof -
  have "unat (num - 1) < length sizes" if "0 < num" "num \<le> word_of_int (int (length sizes))" for num :: u32
  proof -
    have "unat num \<le> length sizes"
      using that(2) assms by (simp add: word_le_nat_alt unat_of_nat)
    moreover have "num \<noteq> 0" using that(1) by auto
    then have "unat (num - 1) = unat num - 1" "0 < unat num" by (simp_all add: unat_minus_one unat_gt_0)
    ultimately show ?thesis by linarith
  qed
  then show ?thesis by (auto simp: size_line_def poke_def split: option.split)
qed

lemma getsizes_safe:
  assumes "length sizes < 2 ^ 31"
  shows "\<exists>ok sizes1 s1. pop3_getsizes s (int (length sizes)) sizes = Some (ok, sizes1, s1) \<and> length sizes1 = length sizes"
proof -
  obtain ok s1 where t: "transact s ''LIST'' = (ok, s1)" by fastforce
  have "\<exists>r ch1 a1. recv_lines (POPBUFSIZE + 1) (size_line (int (length sizes))) (chan s1) sizes = Some (r, ch1, a1)
      \<and> length a1 = length sizes"
    by (rule recv_lines_inv [where P = "\<lambda>a. length a = length sizes"]) (use assms size_line_safe in \<open>metis, simp\<close>)
  then show ?thesis using t by (auto simp: pop3_getsizes_def)
qed

lemma partial_safe:
  "int k \<le> first + int (length sizes) - i \<Longrightarrow> first \<le> i \<Longrightarrow>
     \<exists>ok sizes1 s1. partial_loop s first i k sizes = Some (ok, sizes1, s1) \<and> length sizes1 = length sizes"
proof (induction k arbitrary: s i sizes)
  case (Suc k)
  obtain ok buf s1 where r: "reply (send_cmd s (''LIST '' @ show_int i)) = (ok, buf, s1)" by (metis prod_cases3)
  have skip: "\<exists>ok sizes1 s2. partial_loop s1 first (i + 1) k sz = Some (ok, sizes1, s2) \<and> length sizes1 = length sizes"
    if "length sz = length sizes" for sz using Suc.IH [of sz "i + 1" s1] Suc.prems that by auto
  have "nat (i - first) < length sizes" using Suc.prems by linarith
  then show ?case using skip r by (auto split: option.split prod.split)
qed simp

subsection \<open>Deletion\<close>

lemma by_num_fresh:
  "n < 2 ^ 32 - 1 \<Longrightarrow> num_index db = num_index init_uid_db \<Longrightarrow> find_uid_by_num db (of_nat n) = Some None"
proof -
  assume n: "n < 2 ^ 32 - 1" and d: "num_index db = num_index init_uid_db"
  have "unat (of_nat n :: u32) = n" using n by (simp add: unat_of_nat)
  moreover have "unat (-1 :: u32) = 2 ^ 32 - 1" by (simp add: unsigned_minus_1_eq_mask mask_eq_exp_minus_1)
  ultimately have "\<not> (of_nat n :: u32) \<ge> -1" using n by (simp add: word_le_nat_alt)
  then show ?thesis using d by (simp add: find_uid_by_num_def init_uid_db_def Let_def)
qed

lemma clear_store_fresh: "clear_store st = Some st1 \<Longrightarrow> num_index (snd st1) = num_index init_uid_db"
  by (auto simp: clear_store_def clear_uid_db_def split: prod.splits bind_splits)

lemma reply_same: "reply s = (ok, buf, s1) \<Longrightarrow> \<exists>c. s1 = s\<lparr>chan := c\<rparr>"
  by (auto simp: reply_def split: prod.splits)

lemma delete_after_fetchall:
  assumes r: "pop3_getrange s ident0 = Some (PS_SUCCESS, n, newp, bytes, s1)" and q: "fetchall (opts s)" "\<not> uidl (opts s)"
    and "\<not> dofastuidl s" "num_index (snd (old_st s)) = num_index init_uid_db" "number < 2 ^ 32 - 1"
    and ok: "fst (transact s1 (''DELE '' @ show_int (int number))) = PS_SUCCESS"
  shows "pop3_delete s1 (int number) = None"
proof -
  obtain new where new: "clear_store (new_st s) = Some new" using r by (auto simp: pop3_getrange_def split: bind_splits)
  obtain k buf s2 where rep: "reply (send_cmd (set_new s new) ''STAT'') = (k, buf, s2)" by (metis prod_cases3)
  have s2: "opts s2 = opts s" "old_st s2 = old_st s" "new_st s2 = new" "dofastuidl s2 = dofastuidl s"
    using reply_same [OF rep] by (auto simp: send_cmd_def set_new_def)
  have s1: "opts s1 = opts s" "old_st s1 = old_st s" "new_st s1 = new" "dofastuidl s1 = dofastuidl s"
    using r new rep q s2 by (auto simp: pop3_getrange_def PS_defs split: if_splits option.splits)
  have none: "st_by_num (new_st s1) (word_of_int (int number)) = Some None" "st_by_num (old_st s1) (word_of_int (int number)) = Some None"
    using by_num_fresh [OF assms(6)] clear_store_fresh [OF new] assms(5) s1 by (simp_all add: st_by_num_def)
  have m: "mark_uid_seen s1 (int number) = Some s1"
    using none by (simp add: mark_uid_seen_def mark_if_there_def set_old_def set_new_def)
  obtain s3 where t: "transact s1 (''DELE '' @ show_int (int number)) = (PS_SUCCESS, s3)" using ok by (metis prod.collapse)
  then show ?thesis
    using m none s1 assms(4) transact_same [OF t] by (simp add: pop3_delete_def mark_deleted_def)
qed

subsection \<open>Numbers out of range\<close>

lemma set_num_out_of_range:
  assumes "pos_0_value (num_index db) = of_nat c" "end_value (num_index db) \<le> of_nat c + 1" "length (num_records (num_index db)) \<le> c + 1"
    and "c < n" "n < 2 ^ 32"
  shows "set_uid_db_num db a (of_nat n) = None"
proof -
  have u: "unat (of_nat n :: u32) = n" "unat (of_nat c :: u32) = c" "unat (of_nat c + 1 :: u32) = c + 1"
    using assms(4,5) by (simp_all add: unat_of_nat unat_word_ariths)
  have "(end_value (num_index db) > of_nat n) = False"
    using assms(2,4) u by (simp add: word_less_nat_alt word_le_nat_alt)
  moreover have "unat (of_nat c - of_nat n :: u32) = 2 ^ 32 - (n - c)"
    using assms(4,5) u by (simp add: unat_sub_if_size word_size word_le_nat_alt)
  moreover have "\<not> 2 ^ 32 - (n - c) < length (num_records (num_index db))"
    using assms(3,4,5) by linarith
  ultimately show ?thesis
    using assms(1) by (simp add: set_uid_db_num_def uid_db_num_ofs_def Let_def poke_def)
qed

text \<open>
  An identifier that is not known, with a number beyond the count of messages, makes the code write outside
  the array of numbers.
\<close>

lemma uidl_item_out_of_range:
  assumes inv: "db_inv (fst (old_st s)) (snd (old_st s)) rs" "db_inv (fst (new_st s)) (snd (new_st s)) ns"
    and len: "length rs < 2 ^ 30" "length ns < 2 ^ 30" and i: "good_id ident" "st_find (old_st s) ident = Some None"
    and num: "pos_0_value (num_index (snd (old_st s))) = of_nat c" "end_value (num_index (snd (old_st s))) \<le> of_nat c + 1"
      "length (num_records (num_index (snd (old_st s)))) \<le> c + 1" "c < n" "n < 2 ^ 32"
  shows "uidl_item s newp (of_nat n) ident = None"
proof -
  obtain ra h db where new: "uid_db_insert (fst (new_st s)) (snd (new_st s)) ident (of_int UID_UNSEEN) = Some (ra, h, db)"
    "content h ra = Some (ident, of_int UID_UNSEEN, of_nat (length ns))"
    using uid_db_insert_inv [OF inv(2) i(1) len(2), of "of_int UID_UNSEEN"] by (elim exE conjE) (rule that; assumption)
  obtain a h' db' where old: "uid_db_insert (fst (old_st s)) (snd (old_st s)) ident (of_int UID_UNSEEN) = Some (a, h', db')"
    "num_index db' = num_index (snd (old_st s))"
    using uid_db_insert_inv [OF inv(1) i(1) len(1), of "of_int UID_UNSEEN"] by (elim exE conjE) (rule that; assumption)
  have "st_insert (new_st s) ident UID_UNSEEN = Some (ra, (h, db))" "st_insert (old_st s) ident UID_UNSEEN = Some (a, (h', db'))"
    using new(1) old(1) by (simp_all add: st_insert_def)
  moreover have "st_status (h, db) ra = Some UID_UNSEEN"
    using new(2) by (auto simp: st_status_def content_def UID_UNSEEN_def)
  moreover have "set_uid_db_num db' a (ucast (of_nat n :: 64 word)) = None"
  proof -
    have "ucast (of_nat n :: 64 word) = (of_nat n :: u32)" using num(5) by (subst of_nat_unat [symmetric]) (simp add: unat_of_nat)
    then show ?thesis using set_num_out_of_range [of db' c n a] num old(2) by simp
  qed
  ultimately show ?thesis using i(2) by (simp add: uidl_item_def st_set_num_def)
qed

subsection \<open>Properties\<close>


definition sample_query :: query where
  "sample_query = \<lparr>queryname = ''h'', remotename = ''u'', skipped = None, oldsaved = (empty_heap, init_uid_db), newsaved = (empty_heap, init_uid_db)\<rparr>"

definition sample_options :: options where
  "sample_options = \<lparr>password = ''pw'', protocol = P_POP3, authenticate = A_ANY, service = None, sslproto = None, use_ssl = False,
     sslcertck = True, sslfingerprint = None, wehaveauthed = False, uidl = False, fetchall = True, keep = False, flush = False,
     fastuidl = 0, fastuidlcount = 0\<rparr>"

definition sample_session :: "string \<Rightarrow> pop3" where
  "sample_session text = \<lparr>chan = \<lparr>sck = \<lparr>inp = text, avail = [], wroom = [], outp = []\<rparr>, tls = False, clear = [], tagged = False,
       suppress_tags = False, tagnum = 0\<rparr>, ctl = sample_query, opts = sample_options, stage = 0, done_capa = False, has_cram = False,
     has_stls = False, last_nr = 0, dofastuidl = False, peek_capable = False\<rparr>"

definition refused_login :: "int \<times> pop3" where
  "refused_login = the (pop3_getauth (\<lambda>s. (False, s)) cleared False (sample_session (''-ERR'' @ [CR, LF])) ''+OK'')"


definition one_of_one :: "string \<Rightarrow> pop3" where
  "one_of_one input = set_old (sample_session input) (st_pos_0 (empty_heap, init_uid_db) 1)"

lemma db_inv_pos_0: "db_inv h db rs \<Longrightarrow> db_inv h (set_uid_db_num_pos_0 db n) rs"
  by (simp add: db_inv_def set_uid_db_num_pos_0_def array_ok_def del: length_greater_0_conv)

lemma one_of_one_inv: "db_inv (fst (old_st (one_of_one input))) (snd (old_st (one_of_one input))) []"
  using db_inv_pos_0 [OF db_inv_init [OF alloc_ok_empty]] by (simp add: one_of_one_def set_old_def st_pos_0_def)

lemma one_of_one_unknown: "st_find (old_st (one_of_one input)) ''ab'' = Some None"
  using find_uid_by_id_db_inv [OF one_of_one_inv, of "''ab''" input] by (simp add: st_find_def c_string_def)

lemma one_of_one_num: "num_index (snd (old_st (one_of_one input))) = \<lparr>num_records = [], pos_0_value = 1, end_value = 2\<rparr>"
  by (simp add: one_of_one_def set_old_def st_pos_0_def set_uid_db_num_pos_0_def init_uid_db_def)

lemma one_of_one_new: "\<exists>st. classify (old_st (one_of_one input)) ''ab'' 1 = Some (True, st)"
proof -
  have g: "good_id ''ab''" "length ([] :: addr list) < 2 ^ 30" by (simp_all add: good_id_def c_string_def)
  obtain a h db where "uid_db_insert (fst (old_st (one_of_one input))) (snd (old_st (one_of_one input))) ''ab'' (of_int UID_UNSEEN) = Some (a, h, db)"
    "num_index db = num_index (snd (old_st (one_of_one input)))"
    using uid_db_insert_inv [OF one_of_one_inv g, of input "of_int UID_UNSEEN"] by (elim exE conjE) (rule that; assumption)
  then show ?thesis
    by (simp add: classify_def one_of_one_unknown st_insert_def st_set_num_def one_of_one_num set_uid_db_num_def Let_def
        clear_cells.simps resize_def poke_def uid_db_num_ofs_def)
qed

text \<open>C9. The binary search of \<open>pop3_fastuidl\<close> against any server: when it succeeds, the last message it counts as
  old was judged seen and the first one it counts as new was judged unseen, by the identifiers the server gave,
  and it has asked for at most \<open>m\<close> identifiers of less than \<open>2 ^ m\<close> messages.\<close>

theorem fastuidl_finds_boundary:
  "pop3_fastuidl s n = Some (0, newp, s1) \<Longrightarrow>
     \<exists>vs s2. search_run s vs s2 \<and> 0 \<le> newp \<and> newp \<le> int n \<and> last_nr s1 = int n - newp
       \<and> (newp = int n \<or> (n - nat newp, False) \<in> set vs) \<and> (newp = 0 \<or> (n - nat newp + 1, True) \<in> set vs)
       \<and> (n < 2 ^ m \<longrightarrow> length vs \<le> m) \<and> (\<forall>(nr, v)\<in>set vs. 1 \<le> nr \<and> nr \<le> n)"
  by (rule fastuidl_run)

theorem fastuidl_finds_boundary_witness:
  "\<exists>vs s2. search_run (one_of_one (''+OK 1 ab'' @ [CR, LF])) vs s2 \<and> (1, True) \<in> set vs \<and> length vs \<le> 1"
proof -
  let ?s = "one_of_one (''+OK 1 ab'' @ [CR, LF])"
  have "(case reply (send_cmd ?s ''UIDL 1'') of (ok, buf, s1) \<Rightarrow> ok = 0 \<and> buf = ''1 ab'')" by code_simp
  moreover have "show_int 1 = ''1''" by code_simp
  moreover have "parseuid ''1 ab'' (IDLEN + 1) = Some (1, ''ab'')"
    by (simp add: parseuid_def strtoul_def scan_number_def sign_split_def digits_val_def IDLEN_def trim_def strspn_def strcspn_def
        POSIX_space_def isdigit_def code_def)
  ultimately obtain s1 where s1: "pop3_getuidl ?s 1 (IDLEN + 1) = (0, ''ab'', s1)"
    by (auto simp: pop3_getuidl_def split: prod.splits)
  then have "old_st s1 = old_st ?s"
    by (auto simp: pop3_getuidl_def Let_def send_cmd_def dest!: reply_same split: prod.splits option.splits if_splits)
  then obtain st where "classify (old_st s1) ''ab'' 1 = Some (True, st)" using one_of_one_new by metis
  then have "pop3_fastuidl ?s 1 = Some (0, 1, (set_old s1 st)\<lparr>last_nr := 0\<rparr>)"
    using s1 by (simp add: pop3_fastuidl_def fast_loop.simps)
  from fastuidl_finds_boundary [OF this, of 1] show ?thesis by auto
qed

text \<open>\<open>pop3_getsizes\<close> never writes outside the array of sizes, whatever message numbers the server lists, and
  always returns.\<close>

theorem getsizes_in_bounds:
  "length sizes < 2 ^ 31 \<Longrightarrow>
     \<exists>ok sizes1 s1. pop3_getsizes s (int (length sizes)) sizes = Some (ok, sizes1, s1) \<and> length sizes1 = length sizes"
  by (rule getsizes_safe)

theorem getsizes_in_bounds_witness:
  "\<exists>ok sizes1 s1. pop3_getsizes (sample_session (''+OK'' @ [LF] @ ''9 9'' @ [LF])) (int (length [0, 0 :: int])) [0, 0] = Some (ok, sizes1, s1)
     \<and> length sizes1 = length [0, 0 :: int]"
  by (rule getsizes_in_bounds) simp

text \<open>After a range that was taken with \<open>fetchall\<close> and without \<open>uidl\<close>, no identifiers are known, and the first
  deletion that the server accepts writes through a null pointer.\<close>

theorem delete_after_fetchall_crashes:
  "pop3_getrange s ident0 = Some (PS_SUCCESS, n, newp, bytes, s1) \<Longrightarrow> fetchall (opts s) \<Longrightarrow> \<not> uidl (opts s) \<Longrightarrow>
     \<not> dofastuidl s \<Longrightarrow> num_index (snd (old_st s)) = num_index init_uid_db \<Longrightarrow> number < 2 ^ 32 - 1 \<Longrightarrow>
     fst (transact s1 (''DELE '' @ show_int (int number))) = PS_SUCCESS \<Longrightarrow> pop3_delete s1 (int number) = None"
  by (rule delete_after_fetchall)

definition fetchall_range :: "int \<times> int \<times> int \<times> int \<times> pop3" where
  "fetchall_range = the (pop3_getrange (sample_session (''+OK 1 100'' @ [CR, LF] @ ''+OK'' @ [CR, LF])) [])"

theorem delete_after_fetchall_crashes_witness:
  "pop3_delete (snd (snd (snd (snd fetchall_range)))) (int 1) = None"
proof -
  let ?s = "sample_session (''+OK 1 100'' @ [CR, LF] @ ''+OK'' @ [CR, LF])"
  have "(case pop3_getrange ?s [] of None \<Rightarrow> False | Some (ok, n, newp, bytes, s1) \<Rightarrow>
      ok = PS_SUCCESS \<and> fst (transact s1 (''DELE '' @ show_int (int 1))) = PS_SUCCESS)" by code_simp
  then obtain n newp bytes s1 where e: "pop3_getrange ?s [] = Some (PS_SUCCESS, n, newp, bytes, s1)"
    "fst (transact s1 (''DELE '' @ show_int (int 1))) = PS_SUCCESS" by (auto split: option.splits)
  have "pop3_delete s1 (int 1) = None"
    by (rule delete_after_fetchall_crashes [OF e(1) _ _ _ _ _ e(2)])
      (simp_all add: sample_session_def sample_options_def sample_query_def)
  then show ?thesis using e(1) by (simp add: fetchall_range_def)
qed

text \<open>A server that lists an unknown identifier with a number beyond the count it gave makes the code write
  outside the array of message numbers: the number of the \<open>UIDL\<close> reply is not checked.\<close>

theorem uidl_number_unchecked:
  "db_inv (fst (old_st s)) (snd (old_st s)) rs \<Longrightarrow> db_inv (fst (new_st s)) (snd (new_st s)) ns \<Longrightarrow>
     length rs < 2 ^ 30 \<Longrightarrow> length ns < 2 ^ 30 \<Longrightarrow> good_id ident \<Longrightarrow> st_find (old_st s) ident = Some None \<Longrightarrow>
     pos_0_value (num_index (snd (old_st s))) = of_nat c \<Longrightarrow> end_value (num_index (snd (old_st s))) \<le> of_nat c + 1 \<Longrightarrow>
     length (num_records (num_index (snd (old_st s)))) \<le> c + 1 \<Longrightarrow> c < n \<Longrightarrow> n < 2 ^ 32 \<Longrightarrow>
     uidl_item s newp (of_nat n) ident = None"
  by (rule uidl_item_out_of_range)

theorem uidl_number_unchecked_witness: "uidl_item (one_of_one []) 0 (of_nat 2) ''ab'' = None"
proof (rule uidl_number_unchecked [where c = 1 and rs = "[]" and ns = "[]", OF one_of_one_inv])
  show "db_inv (fst (new_st (one_of_one []))) (snd (new_st (one_of_one []))) []"
    using db_inv_init [OF alloc_ok_empty] by (simp add: one_of_one_def set_old_def sample_session_def sample_query_def)
qed (simp_all add: one_of_one_num one_of_one_unknown good_id_def c_string_def)

end
