(* ===== verification/Imap.thy ===== *)
theory Imap
  imports Pop3
begin

section \<open>The IMAP methods (imap.c)\<close>

text \<open>
  A session is the connection, the options of the query, the global variables \<open>stage\<close>, \<open>tag\<close>,
  \<open>mytimeout\<close>, \<open>pass\<close> and \<open>check_only\<close>, and the static variables of imap.c. The program is configured
  with TLS and without GSSAPI, Kerberos, OPIE and NTLM. Two things depend on the time while the client
  is idling: \<open>alarms\<close> says, for each line it waits for, whether the timer ends the wait before the line
  arrives, and \<open>elapsed\<close> how many seconds have passed since the IDLE began at each look at the clock. An
  access outside an array or behind the end of a string is \<open>None\<close>. The reports are left out.
\<close>

record imap_options =
  ruser :: string
  pwd :: string
  auth :: authenticate
  pollname :: string
  via :: "string option"
  opt :: options
  idle :: bool
  expunge :: int

record imap =
  conn :: channel
  iopts :: imap_options
  istage :: int
  tag :: string
  mytimeout :: int
  poll_pass :: int
  check_only :: bool
  alarms :: "bool list"
  elapsed :: "int list"
  preauth :: bool
  capabilities :: string
  imap_version :: int
  do_idle :: bool
  has_idle :: bool
  imap_peek_capable :: bool
  expunge_period :: int
  msgcount :: int
  oldcount :: int
  recentcount :: int
  unseen :: int
  deletions :: int
  startcount :: u32
  expunged :: int
  unseen_messages :: "u32 list"
  actual_deletions :: int
  saved_timeout :: int
  idle_timeout :: int

definition IMAP2 :: int where "IMAP2 = -1"
definition IMAP4 :: int where "IMAP4 = 0"
definition IMAP4rev1 :: int where "IMAP4rev1 = 1"

definition STAGE_GETRANGE :: int where "STAGE_GETRANGE = 1"
definition STAGE_GETSIZES :: int where "STAGE_GETSIZES = 2"
definition STAGE_IDLE :: int where "STAGE_IDLE = 4"
definition STAGE_LOGOUT :: int where "STAGE_LOGOUT = 5"

definition PS_IDLETIMEOUT :: int where "PS_IDLETIMEOUT = 29"
definition PS_UNTAGGED :: int where "PS_UNTAGGED = 30"

definition MSGBUF :: nat where "MSGBUF = 8192"

lemmas STAGE_defs = STAGE_GETAUTH_def STAGE_GETRANGE_def STAGE_GETSIZES_def STAGE_FETCH_def STAGE_IDLE_def STAGE_LOGOUT_def
lemmas iPS_defs = PS_defs PS_IDLETIMEOUT_def PS_UNTAGGED_def

subsection \<open>Sending\<close>

text \<open>\<open>gen_send\<close> and the first half of \<open>gen_transact\<close>; both leave the tag they used in \<open>tag\<close>.\<close>

definition new_tag :: "imap \<Rightarrow> string" where
  "new_tag s = (if tagged (conn s) \<and> \<not> suppress_tags (conn s) then tag_of (tagnum (conn s) + 1) else tag s)"

definition imap_send :: "imap \<Rightarrow> string \<Rightarrow> imap" where
  "imap_send s cmd = s\<lparr>conn := gen_send (conn s) cmd, tag := new_tag s\<rparr>"

definition raw_write :: "imap \<Rightarrow> string \<Rightarrow> imap" where
  "raw_write s t = s\<lparr>conn := snd (sock_write (conn s) t)\<rparr>"

subsection \<open>Untagged responses\<close>

definition ul_arg :: "string \<Rightarrow> (64 word \<times> bool \<times> string) option" where
  "ul_arg buf = strtoul (dropWhile isspace (drop 2 buf))"

definition set_recent :: "imap \<Rightarrow> imap" where
  "set_recent s = s\<lparr>recentcount := max 0 (msgcount s - oldcount s)\<rparr>"

definition exists_response :: "imap \<Rightarrow> 64 word \<Rightarrow> imap" where
  "exists_response s u =
     (let s1 = set_recent (s\<lparr>msgcount := uint u\<rparr>) in
      if istage s1 = STAGE_IDLE then
        let s2 = (if has_idle s1 then raw_write s1 (''DONE'' @ [CR, LF]) else s1) in
        s2\<lparr>mytimeout := saved_timeout s2, istage := STAGE_GETRANGE\<rparr>
      else s1)"

definition expunge_response :: "imap \<Rightarrow> 64 word \<Rightarrow> imap" where
  "expunge_response s u =
     (if u > 0 then
        let s1 = (if msgcount s > 0 then s\<lparr>msgcount := msgcount s - 1\<rparr> else s);
            s2 = (if oldcount s1 > 0 then s1\<lparr>oldcount := oldcount s1 - 1\<rparr> else s1);
            s3 = set_recent s2 in
        s3\<lparr>actual_deletions := actual_deletions s3 + 1\<rparr>
      else s)"

definition imap_untagged_response :: "imap \<Rightarrow> string \<Rightarrow> int \<times> imap" where
  "imap_untagged_response s buf =
     (if istage s = STAGE_GETAUTH \<and> has_prefix buf ''* CAPABILITY'' then
        (PS_SUCCESS, s\<lparr>capabilities := take MSGBUF (drop 12 buf)\<rparr>)
      else if istage s = STAGE_GETAUTH \<and> has_prefix buf ''* PREAUTH'' then (PS_SUCCESS, s\<lparr>preauth := True\<rparr>)
      else if istage s \<noteq> STAGE_LOGOUT \<and> has_prefix buf ''* BYE'' then (PS_SUCCESS, s)
      else if contains buf '' EXISTS'' then
        (case ul_arg buf of
           None \<Rightarrow> (PS_PROTOCOL, s)
         | Some (u, range_error, t) \<Rightarrow>
             if range_error \<or> u > 536870911 then (PS_PROTOCOL, s) else (PS_SUCCESS, exists_response s u))
      else if contains buf '' EXPUNGE'' then
        (case ul_arg buf of
           None \<Rightarrow> (PS_PROTOCOL, s)
         | Some (u, range_error, t) \<Rightarrow>
             if range_error then (PS_PROTOCOL, s) else (PS_SUCCESS, expunge_response s u))
      else if istage s = STAGE_GETRANGE \<and> \<not> check_only s \<and> contains buf ''[READ-ONLY]'' then (PS_LOCKBUSY, s)
      else (PS_UNTAGGED, s))"

subsection \<open>Responses\<close>

text \<open>One line, from \<open>gen_recv\<close> or, with \<open>rs\<close>, from \<open>gen_recv_split\<close>, in capital letters.\<close>

definition imap_recv :: "imap \<Rightarrow> recv_split option \<Rightarrow> (int \<times> string \<times> imap \<times> recv_split option) option" where
  "imap_recv s rs =
     (if istage s = STAGE_IDLE \<and> alarms s \<noteq> [] \<and> hd (alarms s) then
        Some (PS_IDLETIMEOUT, [], s\<lparr>alarms := tl (alarms s)\<rparr>, rs)
      else
        let s1 = (if istage s = STAGE_IDLE then s\<lparr>alarms := tl (alarms s)\<rparr> else s) in
        (case rs of
           None \<Rightarrow> (case gen_recv (conn s1) (MSGBUF + 1) of
             (ok, buf, ch) \<Rightarrow> Some (ok, map toupper buf, s1\<lparr>conn := ch\<rparr>, None))
         | Some r \<Rightarrow> (case gen_recv_split (conn s1) (MSGBUF + 1) r of
             None \<Rightarrow> None
           | Some (ok, buf, ch, r1) \<Rightarrow> Some (ok, map toupper buf, s1\<lparr>conn := ch\<rparr>, Some r1))))"

text \<open>The clock is read only while the stage is that of the idling.\<close>

definition idle_check :: "imap \<Rightarrow> bool \<times> imap" where
  "idle_check s =
     (if istage s = STAGE_IDLE then
        let now = (case elapsed s of [] \<Rightarrow> 0 | e # _ \<Rightarrow> e); t = idle_timeout s - now in
        (t \<le> 0, s\<lparr>mytimeout := t, elapsed := tl (elapsed s)\<rparr>)
      else (False, s))"

text \<open>
  The line that ends a command, behind its tag: the code and the text for \<open>argbuf\<close>. The loop that skips
  the tag looks for white space and knows no end of the string.
\<close>

definition tagged_response :: "int \<Rightarrow> string \<Rightarrow> (int \<times> string option) option" where
  "tagged_response st buf =
     (let r = dropWhile (\<lambda>c. \<not> isspace c) buf; cp = dropWhile isspace r in
      if r = [] then None
      else if has_iprefix cp ''OK'' then Some (PS_SUCCESS, Some cp)
      else if has_iprefix cp ''BAD'' then Some (PS_ERROR, None)
      else if has_iprefix cp ''NO'' then
        Some (if st = STAGE_GETAUTH then PS_AUTHFAIL else if st = STAGE_GETSIZES then PS_SUCCESS else PS_ERROR, None)
      else Some (PS_PROTOCOL, None))"

text \<open>What one turn of the loop does with a line: go on, return, or leave the loop.\<close>

datatype reaction = More | Return int "string option" | Final

definition response_turn :: "bool \<Rightarrow> imap \<Rightarrow> string \<Rightarrow> reaction \<times> imap" where
  "response_turn argbuf s buf =
     (let (ok, s1) = (if char_at buf 0 = CHR ''*'' \<and> char_at buf 1 = SP then imap_untagged_response s buf else (PS_SUCCESS, s)) in
      if ok = PS_UNTAGGED \<and> argbuf \<and> istage s1 \<noteq> STAGE_IDLE \<and> tag s1 \<noteq> [] then (Return PS_UNTAGGED (Some buf), s1)
      else if ok \<noteq> PS_UNTAGGED \<and> ok \<noteq> PS_SUCCESS then (Return ok None, s1)
      else
        let (late, s2) = idle_check s1 in
        if late then (Return PS_IDLETIMEOUT None, s2)
        else if tag s2 \<noteq> [] \<and> \<not> has_prefix buf (tag s2) then (More, s2)
        else (Final, s2))"

text \<open>Every line that is read makes the input shorter, and writing leaves it alone.\<close>

abbreviation left :: "imap \<Rightarrow> nat" where "left s \<equiv> length (inp (sck (conn s)))"

lemma SockWrite_inp: "inp (snd (SockWrite s buf)) = inp s"
proof (induction s buf rule: SockWrite.induct)
  case (1 s buf)
  then show ?case by (subst SockWrite.simps) (auto simp: Let_def split: prod.splits list.splits if_splits)
qed

lemma sock_write_inp [simp]: "inp (sck (snd (sock_write ch buf))) = inp (sck ch)"
  using SockWrite_inp [of "sck ch" buf] by (cases "SockWrite (sck ch) buf") (simp add: sock_write_def)

lemma untagged_left: "imap_untagged_response s buf = (ok, s1) \<Longrightarrow> left s1 = left s"
  by (auto simp: imap_untagged_response_def exists_response_def expunge_response_def set_recent_def raw_write_def Let_def
      split: if_splits option.splits)

lemma idle_check_left: "idle_check s = (late, s1) \<Longrightarrow> left s1 = left s"
  by (auto simp: idle_check_def Let_def split: if_splits)

lemma response_turn_left: "response_turn a s buf = (t, s1) \<Longrightarrow> left s1 = left s"
  by (auto simp: response_turn_def Let_def dest!: untagged_left idle_check_left split: prod.splits if_splits)

lemma gen_recv_split_consumes:
  "gen_recv_split ch n rs = Some (0, buf, ch1, rs1) \<Longrightarrow> length (inp (sck ch1)) < length (inp (sck ch))"
  by (auto simp: gen_recv_split_def PS_SOCKET_def Let_def dest!: SockRead_consumes split: if_splits prod.splits option.splits)

lemma imap_recv_consumes: "imap_recv s rs = Some (0, buf, s1, rs1) \<Longrightarrow> left s1 < left s"
  by (auto simp: imap_recv_def Let_def PS_IDLETIMEOUT_def dest: gen_recv_consumes gen_recv_split_consumes
      split: if_splits option.splits prod.splits)

function imap_response :: "bool \<Rightarrow> imap \<Rightarrow> recv_split option \<Rightarrow> (int \<times> string option \<times> imap \<times> recv_split option) option" where
  "imap_response argbuf s rs =
     (case imap_recv s rs of
        None \<Rightarrow> None
      | Some (ok, buf, s1, rs1) \<Rightarrow>
          if ok \<noteq> 0 then Some (ok, None, s1, rs1)
          else
            (case response_turn argbuf s1 buf of
               (More, s2) \<Rightarrow> imap_response argbuf s2 rs1
             | (Return r t, s2) \<Rightarrow> Some (r, t, s2, rs1)
             | (Final, s2) \<Rightarrow>
                 if tag s2 = [] then Some (PS_SUCCESS, Some buf, s2, rs1)
                 else map_option (\<lambda>(r, t). (r, t, s2, rs1)) (tagged_response (istage s2) buf)))"
  by pat_completeness auto
termination
  by (relation "measure (\<lambda>(argbuf, s, rs). left s)")
    (auto dest!: imap_recv_consumes response_turn_left [OF sym])

declare imap_response.simps [simp del]

text \<open>Every response but the reports of errors has taken a line from the input.\<close>

lemma tagged_response_code: "tagged_response st buf = Some (r, t) \<Longrightarrow> r \<noteq> PS_UNTAGGED"
  by (auto simp: tagged_response_def iPS_defs Let_def split: if_splits)

lemma imap_recv_code: "imap_recv s rs = Some (ok, buf, s1, rs1) \<Longrightarrow> ok \<in> {0, PS_SOCKET, PS_IDLETIMEOUT}"
  by (auto simp: imap_recv_def gen_recv_def gen_recv_split_def Let_def iPS_defs split: if_splits option.splits prod.splits)

lemma imap_recv_left: "imap_recv s rs = Some (ok, buf, s1, rs1) \<Longrightarrow> ok = PS_UNTAGGED \<or> ok = 0 \<Longrightarrow> left s1 < left s"
  using imap_recv_consumes imap_recv_code by (fastforce simp: iPS_defs)

lemma imap_response_consumes:
  "imap_response argbuf s rs = Some (r, t, s1, rs1) \<Longrightarrow> r = PS_UNTAGGED \<or> r = 0 \<Longrightarrow> left s1 < left s"
proof (induction argbuf s rs rule: imap_response.induct)
  case (1 argbuf s rs)
  obtain ok buf s2 rs2 where r: "imap_recv s rs = Some (ok, buf, s2, rs2)"
    using "1.prems"(1) by (subst (asm) imap_response.simps) (auto split: option.splits)
  show ?case
  proof (cases "ok = 0")
    case False
    then show ?thesis using "1.prems" r imap_recv_left [OF r] by (subst (asm) imap_response.simps) auto
  next
    case True
    then have l: "left s2 < left s" using imap_recv_left [OF r] by simp
    obtain tn s3 where t: "response_turn argbuf s2 buf = (tn, s3)" by fastforce
    note l3 = response_turn_left [OF t]
    show ?thesis
    proof (cases tn)
      case More
      then have "imap_response argbuf s3 rs2 = Some (r, t, s1, rs1)"
        using "1.prems"(1) r True t by (subst (asm) imap_response.simps) simp
      then show ?thesis using "1.IH" [OF r refl refl refl _ t [symmetric] More] True l l3 "1.prems"(2) by auto
    next
      case (Return a b)
      then have "s1 = s3" using "1.prems"(1) r True t by (subst (asm) imap_response.simps) simp
      then show ?thesis using l l3 by simp
    next
      case Final
      then have "s1 = s3" using "1.prems"(1) r True t by (subst (asm) imap_response.simps) (auto split: if_splits)
      then show ?thesis using l l3 by simp
    qed
  qed
qed

text \<open>The function that parses the response to a command.\<close>

function imap_ok :: "bool \<Rightarrow> imap \<Rightarrow> (int \<times> string option \<times> imap) option" where
  "imap_ok argbuf s =
     (case imap_response argbuf s None of
        None \<Rightarrow> None
      | Some (ok, t, s1, _) \<Rightarrow> if ok = PS_UNTAGGED then imap_ok argbuf s1 else Some (ok, t, s1))"
  by pat_completeness auto
termination
  by (relation "measure (\<lambda>(argbuf, s). left s)") (auto dest: imap_response_consumes)

declare imap_ok.simps [simp del]

lemma imap_ok_consumes: "imap_ok argbuf s = Some (0, t, s1) \<Longrightarrow> left s1 < left s"
proof (induction argbuf s rule: imap_ok.induct)
  case (1 argbuf s)
  obtain ok t2 s2 r2 where r: "imap_response argbuf s None = Some (ok, t2, s2, r2)"
    using "1.prems" by (subst (asm) imap_ok.simps) (auto split: option.splits)
  show ?case
  proof (cases "ok = PS_UNTAGGED")
    case True
    then have "imap_ok argbuf s2 = Some (0, t, s1)" using "1.prems" r by (subst (asm) imap_ok.simps) simp
    then show ?thesis using "1.IH" [OF r refl refl refl True] imap_response_consumes [OF r] True by simp
  next
    case False
    then show ?thesis using "1.prems" r imap_response_consumes [OF r] by (subst (asm) imap_ok.simps) auto
  qed
qed

text \<open>A command and its response; the buffer of the command takes the text of the response.\<close>

definition imap_transact :: "imap \<Rightarrow> string \<Rightarrow> (int \<times> imap) option" where
  "imap_transact s cmd =
     (let (buf, ch1) = gen_line (conn s) cmd; (ok, ch2) = sock_write ch1 buf; s1 = s\<lparr>conn := ch2, tag := new_tag s\<rparr> in
      if ok = -1 \<or> ok \<noteq> int (length buf) then Some (PS_SOCKET, s1)
      else map_option (\<lambda>(r, t, s2). (r, s2)) (imap_ok True s1))"

end
