(* ===== verification/ImapAuth.thy ===== *)
theory ImapAuth
  imports Imap Base64
begin

section \<open>Authentication of an IMAP session (imap.c)\<close>

subsection \<open>Quoted strings\<close>

text \<open>The first argument is the buffer \<open>result\<close>, the second the index \<open>j\<close>, the last one \<open>maxlen - i\<close>.\<close>

fun canon_loop :: "string \<Rightarrow> nat \<Rightarrow> string \<Rightarrow> nat \<Rightarrow> string option" where
  "canon_loop result j (c # raw) (Suc m) =
     (if c = BACKSLASH \<or> c = DQUOTE then do {
        r1 \<leftarrow> poke result j BACKSLASH;
        r2 \<leftarrow> poke r1 (j + 1) c;
        canon_loop r2 (j + 2) raw m
      }
      else do { r1 \<leftarrow> poke result j c; canon_loop r1 (j + 1) raw m })"
| "canon_loop result j raw m = poke result j NUL"

definition imap_canonicalize :: "string \<Rightarrow> string \<Rightarrow> nat \<Rightarrow> string option" where
  "imap_canonicalize result raw maxlen = canon_loop result 0 raw maxlen"

subsection \<open>Capabilities\<close>

definition imap_capa_probe :: "imap \<Rightarrow> (int \<times> imap) option" where
  "imap_capa_probe s0 = do {
     (ok, s) \<leftarrow> imap_transact (s0\<lparr>capabilities := []\<rparr>) ''CAPABILITY'';
     if ok \<noteq> PS_SUCCESS \<and> ok \<noteq> PS_ERROR then Some (ok, s)
     else
       let s1 = (if ok = PS_SUCCESS then
                   let caps = map toupper (capabilities s) in
                   s\<lparr>capabilities := caps, imap_version := (if contains caps ''IMAP4REV1'' then IMAP4rev1 else IMAP4)\<rparr>
                 else s\<lparr>imap_version := IMAP2\<rparr>);
           s2 = s1\<lparr>do_idle := idle (iopts s1)\<rparr>;
           s3 = (if idle (iopts s2) then s2\<lparr>has_idle := contains (capabilities s2) ''IDLE''\<rparr> else s2) in
       Some (PS_SUCCESS, s3\<lparr>imap_peek_capable := imap_version s3 \<ge> IMAP4\<rparr>)
   }"

subsection \<open>TLS\<close>

definition imap_start_tls :: "(sock \<Rightarrow> bool \<times> sock) \<Rightarrow> imap \<Rightarrow> bool \<times> imap" where
  "imap_start_tls ssl s =
     (let ch = conn s; (good, sk) = ssl (sck ch) in
      if good then (True, s\<lparr>conn := ch\<lparr>sck := sk\<lparr>outp := []\<rparr>, tls := True, clear := clear_text ch\<rparr>\<rparr>)
      else (False, s\<lparr>conn := ch\<lparr>sck := sk\<lparr>outp := outp (sck ch)\<rparr>\<rparr>\<rparr>))"

definition clear_sslproto :: "imap \<Rightarrow> imap" where
  "clear_sslproto s = s\<lparr>iopts := (iopts s)\<lparr>opt := (opt (iopts s))\<lparr>sslproto := Some []\<rparr>\<rparr>\<rparr>"

text \<open>The steps of \<open>imap_getauth\<close>: \<open>Some r\<close> when it returns \<open>r\<close> there, \<open>None\<close> when it goes on.\<close>

definition starttls_step :: "(sock \<Rightarrow> bool \<times> sock) \<Rightarrow> imap \<Rightarrow> (int option \<times> imap) option" where
  "starttls_step ssl s =
     (let q = opt (iopts s) in
      if maybe_starttls q \<and> (contains (capabilities s) ''STARTTLS'' \<or> must_starttls q) then do {
        (r, s1) \<leftarrow> imap_transact s ''STARTTLS'';
        let (good, s2) = (if r = PS_SUCCESS then imap_start_tls ssl s1 else (False, s1));
        if good then do {
          (ok, s3) \<leftarrow> imap_capa_probe s2;
          Some (if ok \<noteq> 0 then Some ok else None, s3)
        }
        else if must_starttls q then Some (Some PS_SOCKET, s2)
        else do {
          (r, s3) \<leftarrow> imap_transact s2 ''NOOP'';
          Some (if r \<noteq> PS_SUCCESS then (Some PS_REPOLL, clear_sslproto s3) else (None, s3))
        }
      } else Some (None, s))"

subsection \<open>The methods\<close>

text \<open>The encoded name is written to a buffer of 256 cells.\<close>

definition do_authcert :: "imap \<Rightarrow> string \<Rightarrow> string \<Rightarrow> (int \<times> imap) option" where
  "do_authcert s command name =
     (if name = [] then imap_transact s (command @ '' EXTERNAL '')
      else
        let len = length name in
        if len div 3 + (if len mod 3 \<noteq> 0 then 4 else 0) < 256 then
          let out = to64frombits (bytes_of name) in
          if length out + 1 > 256 then None else imap_transact s (command @ '' EXTERNAL '' @ out)
        else Some (PS_AUTHFAIL, s))"

definition imap_cram :: "md5ctx \<Rightarrow> imap \<Rightarrow> (int \<times> imap) option" where
  "imap_cram ctx s =
     (let s1 = imap_send s ''AUTHENTICATE CRAM-MD5''; (r, line, ch) = gen_recv (conn s1) 1024; s2 = s1\<lparr>conn := ch\<rparr> in
      (case do_cram_md5 ctx ''AUTHENTICATE'' (ruser (iopts s)) (pwd (iopts s)) None (r, line) (\<lambda>out. 0) of
         None \<Rightarrow> None
       | Some (ok, sent) \<Rightarrow>
           (case sent of
              [hello, out] \<Rightarrow> do {
                (r, s3) \<leftarrow> imap_transact (s2\<lparr>conn := (conn s2)\<lparr>suppress_tags := True\<rparr>\<rparr>) out;
                Some (r, s3\<lparr>conn := (conn s3)\<lparr>suppress_tags := False\<rparr>\<rparr>)
              }
            | _ \<Rightarrow> Some (ok, s2))))"

definition isalnum :: "char \<Rightarrow> bool" where
  "isalnum c \<longleftrightarrow> isalpha c \<or> isdigit c"

definition yahoo_step :: "imap \<Rightarrow> imap option" where
  "yahoo_step s =
     (let host = (case via (iopts s) of Some h \<Rightarrow> h | None \<Rightarrow> pollname (iopts s)) in
      (case find_sub (capabilities s) '' ID'' of
         Some i \<Rightarrow>
           if \<not> isalnum (char_at (capabilities s) (i + 3)) \<and> contains host ''yahoo.com''
           then map_option snd (imap_transact s (''ID ('' @ [DQUOTE] @ ''guid'' @ [DQUOTE, SP, DQUOTE] @ ''1'' @ [DQUOTE] @ '')''))
           else Some s
       | None \<Rightarrow> Some s))"

definition external_step :: "imap \<Rightarrow> (int option \<times> int \<times> imap) option" where
  "external_step s =
     (if auth (iopts s) \<in> {A_ANY, A_EXTERNAL} \<and> contains (capabilities s) ''AUTH=EXTERNAL'' then do {
        (ok, s1) \<leftarrow> do_authcert s ''AUTHENTICATE'' (ruser (iopts s));
        Some
          (if ok \<noteq> 0 then
             let s2 = imap_send s1 ''*'' in
             (if auth (iopts s2) \<noteq> A_ANY then Some ok else None, ok, s2)
           else (Some ok, ok, s1))
      } else Some (None, PS_AUTHFAIL, s))"

definition cram_step :: "md5ctx \<Rightarrow> imap \<Rightarrow> int \<Rightarrow> (int option \<times> int \<times> imap) option" where
  "cram_step ctx s ok0 =
     (if auth (iopts s) = A_ANY \<and> contains (capabilities s) ''AUTH=CRAM-MD5'' \<or> auth (iopts s) = A_CRAM_MD5 then do {
        (ok, s1) \<leftarrow> imap_cram ctx s;
        Some (if ok \<noteq> 0 \<and> auth (iopts s1) = A_ANY then None else Some ok, ok, s1)
      } else Some (None, ok0, s))"

definition quoted_arg :: "string \<Rightarrow> string option" where
  "quoted_arg raw = map_option (\<lambda>b. [DQUOTE] @ cstr_of b @ [DQUOTE])
     (imap_canonicalize (replicate (2 * length raw + 1) NUL) raw (2 * length raw + 1))"

definition imap_login_step :: "imap \<Rightarrow> int \<Rightarrow> (int \<times> imap) option" where
  "imap_login_step s ok0 =
     (if auth (iopts s) = A_ANY \<and> \<not> contains (capabilities s) ''LOGINDISABLED'' \<or> auth (iopts s) = A_PASSWORD then do {
        name \<leftarrow> quoted_arg (ruser (iopts s));
        word \<leftarrow> quoted_arg (pwd (iopts s));
        imap_transact s (''LOGIN '' @ name @ [SP] @ word)
      } else Some (ok0, s))"

definition imap_methods :: "md5ctx \<Rightarrow> imap \<Rightarrow> (int \<times> imap) option" where
  "imap_methods ctx s = do {
     s1 \<leftarrow> yahoo_step s;
     (r, ok, s2) \<leftarrow> external_step s1;
     (case r of
        Some x \<Rightarrow> Some (x, s2)
      | None \<Rightarrow> do {
          (r, ok, s3) \<leftarrow> cram_step ctx s2 ok;
          (case r of Some x \<Rightarrow> Some (x, s3) | None \<Rightarrow> imap_login_step s3 ok)
        })
   }"

definition imap_getauth :: "(sock \<Rightarrow> bool \<times> sock) \<Rightarrow> md5ctx \<Rightarrow> imap \<Rightarrow> (int \<times> imap) option" where
  "imap_getauth ssl ctx s0 = do {
     let period = (if expunge (iopts s0) \<noteq> 0 then max 0 (expunge (iopts s0)) else 1);
     (ok, s1) \<leftarrow> imap_capa_probe (s0\<lparr>expunge_period := period\<rparr>);
     if ok \<noteq> 0 then Some (ok, s1)
     else if preauth s1 \<or> auth (iopts s1) = A_SSH then Some (PS_SUCCESS, s1\<lparr>preauth := False\<rparr>)
     else do {
       (r, s2) \<leftarrow> starttls_step ssl s1;
       (case r of Some x \<Rightarrow> Some (x, s2) | None \<Rightarrow> imap_methods ctx s2)
     }
   }"

end
