(* ===== verification/ImapBox.thy ===== *)
theory ImapBox
  imports Imap
begin

section \<open>The mailbox of an IMAP session (imap.c)\<close>

subsection \<open>Expunging and idling\<close>

definition internal_expunge :: "imap \<Rightarrow> (int \<times> imap) option" where
  "internal_expunge s0 = do {
     (ok, s) \<leftarrow> imap_transact (s0\<lparr>actual_deletions := 0\<rparr>) ''EXPUNGE'';
     Some
       (if ok \<noteq> 0 then (ok, s)
        else if deletions s > 0 \<and> deletions s \<noteq> actual_deletions s then (PS_ERROR, s\<lparr>deletions := 0\<rparr>)
        else (PS_SUCCESS, s\<lparr>expunged := expunged s + deletions s, deletions := 0\<rparr>))
   }"

text \<open>\<open>time\<close> is read into \<open>idle_start_time\<close>, from where \<open>elapsed\<close> counts.\<close>

definition imap_idle :: "imap \<Rightarrow> (int \<times> imap) option" where
  "imap_idle s0 = do {
     let s = s0\<lparr>saved_timeout := mytimeout s0\<rparr>;
     (ok, s1) \<leftarrow>
       (if has_idle s then do {
          (ok, s1) \<leftarrow> imap_transact (s\<lparr>mytimeout := 1680, idle_timeout := 1680, istage := STAGE_IDLE\<rparr>) ''IDLE'';
          if ok = PS_IDLETIMEOUT then do {
            let s2 = raw_write s1 (''DONE'' @ [CR, LF]);
            (ok, t, s3) \<leftarrow> imap_ok False (s2\<lparr>mytimeout := saved_timeout s2, istage := STAGE_GETRANGE\<rparr>);
            Some (ok, s3)
          }
          else Some (ok, s1)
        }
        else do {
          (ok, s1) \<leftarrow> imap_transact s ''NOOP'';
          if ok = PS_SUCCESS \<and> recentcount s1 = 0 then do {
            (ok, t, s2) \<leftarrow> imap_ok False (s1\<lparr>mytimeout := 28, idle_timeout := 28, istage := STAGE_IDLE, tag := []\<rparr>);
            Some (if ok = PS_IDLETIMEOUT then PS_SUCCESS else ok, s2)
          }
          else Some (ok, s1)
        });
     Some (ok, s1\<lparr>mytimeout := saved_timeout s1, istage := STAGE_GETRANGE\<rparr>)
   }"

subsection \<open>The search\<close>

text \<open>\<open>unseen_messages[unseen++] = um\<close> and the first unseen message.\<close>

definition add_unseen :: "imap \<Rightarrow> u32 \<Rightarrow> imap option" where
  "add_unseen s um =
     (if unseen s < 0 then None
      else do {
        ms \<leftarrow> poke (unseen_messages s) (nat (unseen s)) um;
        Some (s\<lparr>unseen_messages := ms, unseen := unseen s + 1,
                startcount := (if startcount s > um then um else startcount s)\<rparr>)
      })"

text \<open>
  The numbers of a reply. A word that is no number is not skipped: \<open>strtoul\<close> leaves \<open>ep\<close> at \<open>cp\<close>, and the
  loop does not end, which is the value \<open>None\<close> of a partial function.
\<close>

partial_function (option) search_numbers :: "imap \<Rightarrow> int \<Rightarrow> string \<Rightarrow> imap option" where
  "search_numbers s n cp =
     (if cp = [] \<or> \<not> unseen s < n then Some s
      else
        let c = dropWhile isspace cp in
        if c = [] then search_numbers s n c
        else
          (case strtoul c of
             None \<Rightarrow> search_numbers s n c
           | Some (um, range_error, ep) \<Rightarrow>
               if \<not> range_error \<and> uint um \<le> 2147483647 \<and> uint um \<le> n
               then Option.bind (add_unseen s (ucast um)) (\<lambda>s1. search_numbers s1 n ep)
               else search_numbers s n ep))"

definition search_line :: "imap \<Rightarrow> int \<Rightarrow> string \<Rightarrow> imap option" where
  "search_line s n buf =
     (case find_sub buf ''* SEARCH'' of None \<Rightarrow> Some s | Some i \<Rightarrow> search_numbers s n (drop (i + 8) buf))"

text \<open>The untagged lines of a command, each given to \<open>f\<close>; the response of the command ends them.\<close>

partial_function (option) untagged_lines ::
  "(string \<Rightarrow> imap \<Rightarrow> 'a \<Rightarrow> (imap \<times> 'a) option) \<Rightarrow> imap \<Rightarrow> recv_split option \<Rightarrow> 'a \<Rightarrow> (int \<times> imap \<times> 'a) option" where
  "untagged_lines f s rs a =
     (case imap_response True s rs of
        None \<Rightarrow> None
      | Some (ok, t, s1, rs1) \<Rightarrow>
          if ok = PS_UNTAGGED then
            (case f (case t of None \<Rightarrow> [] | Some buf \<Rightarrow> buf) s1 a of
               None \<Rightarrow> None
             | Some (s2, b) \<Rightarrow> untagged_lines f s2 rs1 b)
          else Some (ok, s1, a))"

text \<open>\<open>sscanf(buf, "* %d %n", ...)\<close> and its variant with \<open>%u\<close>: the number and the text behind it.\<close>

definition scan_star_d :: "string \<Rightarrow> (int \<times> string) option" where
  "scan_star_d buf =
     (if char_at buf 0 \<noteq> CHR ''*'' then None
      else map_option (\<lambda>(v, r). (v, dropWhile isspace r)) (scan_d (tl buf)))"

definition scan_star_u :: "string \<Rightarrow> (u32 \<times> string) option" where
  "scan_star_u buf =
     (if char_at buf 0 \<noteq> CHR ''*'' then None
      else map_option (\<lambda>(v, r). (v, dropWhile isspace r)) (scan_u (tl buf)))"

definition is_fetch :: "string \<Rightarrow> bool" where
  "is_fetch r \<longleftrightarrow> has_iprefix r ''FETCH'' \<and> isspace (char_at r 5)"

definition flags_line :: "int \<Rightarrow> string \<Rightarrow> imap \<Rightarrow> unit \<Rightarrow> (imap \<times> unit) option" where
  "flags_line n buf s _ =
     (case scan_star_u buf of
        Some (num, r) \<Rightarrow>
          if unseen s < n \<and> is_fetch r \<and> num \<ge> 1 \<and> uint num \<le> n \<and> contains buf ''FLAGS ''
             \<and> \<not> contains buf (BACKSLASH # ''SEEN'') \<and> \<not> contains buf (BACKSLASH # ''DELETED'')
          then map_option (\<lambda>s1. (s1, ())) (add_unseen s num) else Some (s, ())
      | None \<Rightarrow> Some (s, ()))"

definition search_cmd :: "bool \<Rightarrow> string" where
  "search_cmd skipdeleted = ''SEARCH UNSEEN'' @ (if skipdeleted then '' UNDELETED'' else [])"

text \<open>One turn of the loop of \<open>imap_search\<close>.\<close>

definition search_try :: "imap \<Rightarrow> int \<Rightarrow> bool \<Rightarrow> (int \<times> imap) option" where
  "search_try s n skipdeleted = do {
     rs \<leftarrow> gen_recv_split_init ''* SEARCH'';
     (ok, s1, _) \<leftarrow> untagged_lines (\<lambda>buf s (_::unit). map_option (\<lambda>s1. (s1, ())) (search_line s n buf))
                      (imap_send s (search_cmd skipdeleted)) (Some rs) ();
     Some (ok, s1)
   }"

definition imap_search :: "imap \<Rightarrow> int \<Rightarrow> (int \<times> imap) option" where
  "imap_search s0 n = do {
     let skipdeleted = (imap_version s0 \<ge> IMAP4 \<and> keep (opt (iopts s0)));
     (ok, s1) \<leftarrow> search_try (s0\<lparr>startcount := word_of_int n + 1\<rparr>) n skipdeleted;
     (ok, s2) \<leftarrow> (if ok = PS_ERROR \<and> skipdeleted then search_try s1 n False else Some (ok, s1));
     if ok \<noteq> PS_ERROR then Some (ok, s2)
     else do {
       (ok, s3, _) \<leftarrow> untagged_lines (flags_line n)
         (imap_send s2 (if n = 1 then ''FETCH '' @ show_int n @ '' FLAGS'' else ''FETCH 1:'' @ show_int n @ '' FLAGS'')) None ();
       Some (ok, s3)
     }
   }"

subsection \<open>The range of messages\<close>

lemma gen_line_left: "gen_line ch t = (buf, ch1) \<Longrightarrow> sck ch1 = sck ch"
  by (auto simp: gen_line_def Let_def split: if_splits)

lemma imap_transact_consumes: "imap_transact s cmd = Some (0, s1) \<Longrightarrow> left s1 < left s"
proof -
  assume t: "imap_transact s cmd = Some (0, s1)"
  obtain buf ch1 where l: "gen_line (conn s) cmd = (buf, ch1)" by fastforce
  obtain ok ch2 where w: "sock_write ch1 buf = (ok, ch2)" by fastforce
  have "inp (sck ch2) = inp (sck (conn s))" using sock_write_inp [of ch1 buf] w gen_line_left [OF l] by simp
  moreover obtain x where "imap_ok True (s\<lparr>conn := ch2, tag := new_tag s\<rparr>) = Some (0, x, s1)"
    using t l w by (cases "imap_ok True (s\<lparr>conn := ch2, tag := new_tag s\<rparr>)")
      (auto simp: imap_transact_def PS_SOCKET_def Let_def split: if_splits)
  ultimately show ?thesis using imap_ok_consumes by fastforce
qed

lemma SockRead_left: "SockRead s n = (r, b, s1) \<Longrightarrow> length (inp s1) \<le> length (inp s)"
proof -
  have "length (inp (snd (snd (read_loop s n acc)))) \<le> length (inp s)" for n acc
  proof (induction s n acc rule: read_loop.induct)
    case (1 s len acc)
    have t: "length (inp s') \<le> length (inp s)" if "read_turn s len = Some (b, nl, s')" for b nl s'
      using that by (auto simp: read_turn_def fm_read_def Let_def split: if_splits)
    show ?case using "1.IH" t by (subst read_loop.simps) (fastforce split: option.split)
  qed
  then show "SockRead s n = (r, b, s1) \<Longrightarrow> length (inp s1) \<le> length (inp s)"
    unfolding SockRead_def by (metis order_refl snd_conv)
qed

lemma imap_recv_left_le: "imap_recv s rs = Some (ok, buf, s1, rs1) \<Longrightarrow> left s1 \<le> left s"
  by (auto simp: imap_recv_def gen_recv_def gen_recv_split_def Let_def dest!: SockRead_left
      split: if_splits option.splits prod.splits)

lemma imap_response_left: "imap_response a s rs = Some (r, t, s1, rs1) \<Longrightarrow> left s1 \<le> left s"
proof (induction a s rs rule: imap_response.induct)
  case (1 a s rs)
  obtain ok buf s2 rs2 where r: "imap_recv s rs = Some (ok, buf, s2, rs2)"
    using "1.prems"(1) by (subst (asm) imap_response.simps) (auto split: option.splits)
  obtain tn s3 where t: "response_turn a s2 buf = (tn, s3)" by fastforce
  note l = imap_recv_left_le [OF r] response_turn_left [OF t]
  show ?case
  proof (cases "ok = 0 \<and> tn = More")
    case True
    then have "imap_response a s3 rs2 = Some (r, t, s1, rs1)"
      using "1.prems"(1) r t by (subst (asm) imap_response.simps) simp
    then show ?thesis using "1.IH" [OF r refl refl refl _ t [symmetric]] True l by auto
  next
    case False
    then have "s1 = s2 \<or> s1 = s3"
      using "1.prems" r t by (subst (asm) imap_response.simps) (auto split: if_splits reaction.splits)
    then show ?thesis using l by auto
  qed
qed

lemma imap_ok_left: "imap_ok a s = Some (r, t, s1) \<Longrightarrow> left s1 \<le> left s"
proof (induction a s rule: imap_ok.induct)
  case (1 a s)
  obtain ok t2 s2 r2 where r: "imap_response a s None = Some (ok, t2, s2, r2)"
    using "1.prems" by (subst (asm) imap_ok.simps) (auto split: option.splits)
  show ?case
  proof (cases "ok = PS_UNTAGGED")
    case True
    then have "imap_ok a s2 = Some (r, t, s1)" using "1.prems" r by (subst (asm) imap_ok.simps) simp
    then show ?thesis using "1.IH" [OF r refl refl refl True] imap_response_left [OF r] by simp
  next
    case False
    then show ?thesis using "1.prems" r imap_response_left [OF r] by (subst (asm) imap_ok.simps) auto
  qed
qed

lemma imap_transact_left: "imap_transact s cmd = Some (r, s1) \<Longrightarrow> left s1 \<le> left s"
proof -
  assume t: "imap_transact s cmd = Some (r, s1)"
  obtain buf ch1 where l: "gen_line (conn s) cmd = (buf, ch1)" by fastforce
  obtain ok ch2 where w: "sock_write ch1 buf = (ok, ch2)" by fastforce
  have "inp (sck ch2) = inp (sck (conn s))" using sock_write_inp [of ch1 buf] w gen_line_left [OF l] by simp
  moreover have "s1 = s\<lparr>conn := ch2, tag := new_tag s\<rparr> \<or> (\<exists>x. imap_ok True (s\<lparr>conn := ch2, tag := new_tag s\<rparr>) = Some (r, x, s1))"
    using t l w by (auto simp: imap_transact_def Let_def split: if_splits)
  ultimately show ?thesis using imap_ok_left by fastforce
qed

lemma raw_write_left [simp]: "left (raw_write s t) = left s"
  by (simp add: raw_write_def)

lemma imap_idle_consumes:
  assumes "imap_idle s = Some (0, s1)"
  shows "left s1 < left s"
proof (cases "has_idle s")
  case True
  define s2 where "s2 = s\<lparr>saved_timeout := mytimeout s, mytimeout := 1680, idle_timeout := 1680, istage := STAGE_IDLE\<rparr>"
  obtain ok s3 where t: "imap_transact s2 ''IDLE'' = Some (ok, s3)"
    using assms True by (auto simp: imap_idle_def Let_def s2_def split: bind_splits)
  have l: "left s3 \<le> left s" using imap_transact_left [OF t] by (simp add: s2_def)
  show ?thesis
  proof (cases "ok = PS_IDLETIMEOUT")
    case False
    then have "ok = 0" "left s1 = left s3" using assms True t by (auto simp: imap_idle_def Let_def s2_def split: bind_splits)
    then show ?thesis using imap_transact_consumes [of s2 _ s3] t by (simp add: s2_def)
  next
    case True': True
    define s4 where "s4 = (raw_write s3 (''DONE'' @ [CR, LF]))\<lparr>mytimeout := saved_timeout s3, istage := STAGE_GETRANGE\<rparr>"
    have s4: "(raw_write s3 (''DONE'' @ [CR, LF]))\<lparr>mytimeout := saved_timeout (raw_write s3 (''DONE'' @ [CR, LF])), istage := STAGE_GETRANGE\<rparr> = s4"
      by (simp add: s4_def raw_write_def)
    obtain x s5 where o: "imap_ok False s4 = Some (0, x, s5)" "left s1 = left s5"
      using assms True True' t s4 by (auto simp: imap_idle_def Let_def s2_def split: bind_splits)
    moreover have "left s4 = left s3" using raw_write_left [of s3] by (simp add: s4_def)
    ultimately show ?thesis using imap_ok_consumes [OF o(1)] l by simp
  qed
next
  case False
  define s2 where "s2 = s\<lparr>saved_timeout := mytimeout s\<rparr>"
  obtain ok s3 where t: "imap_transact s2 ''NOOP'' = Some (ok, s3)"
    using assms False by (auto simp: imap_idle_def Let_def s2_def split: bind_splits)
  have "ok = 0 \<and> left s1 \<le> left s3"
    using assms False t
    by (auto simp: imap_idle_def Let_def s2_def PS_SUCCESS_def dest!: imap_ok_left split: bind_splits if_splits)
  then show ?thesis using imap_transact_consumes [of s2 "''NOOP''" s3] t by (simp add: s2_def)
qed

function idle_while :: "(imap \<Rightarrow> bool) \<Rightarrow> imap \<Rightarrow> (int \<times> imap) option" where
  "idle_while p s =
     (if \<not> p s then Some (0, s)
      else
        (case imap_idle s of
           None \<Rightarrow> None
         | Some (ok, s1) \<Rightarrow> if ok \<noteq> 0 then Some (ok, s1) else idle_while p s1))"
  by pat_completeness auto
termination
  by (relation "measure (\<lambda>(p, s). left s)") (auto dest: imap_idle_consumes)

declare idle_while.simps [simp del]

text \<open>\<open>SELECT\<close> and the messages that are there; the result is the code with which the function returns, or 0.\<close>

definition select_cmd :: "imap \<Rightarrow> string option \<Rightarrow> string" where
  "select_cmd s folder = (if check_only s then ''EXAMINE '' else ''SELECT '') @ [DQUOTE]
     @ (case folder of None \<Rightarrow> ''INBOX'' | Some f \<Rightarrow> f) @ [DQUOTE]"

definition first_poll :: "imap \<Rightarrow> string option \<Rightarrow> (int \<times> imap) option" where
  "first_poll s0 folder = do {
     (ok, s1) \<leftarrow> imap_transact (s0\<lparr>oldcount := 0, msgcount := 0\<rparr>) (select_cmd s0 folder);
     let q = opt (iopts s1);
     let ok = (if ok = PS_LOCKBUSY \<and> fetchall q \<and> keep q then 0 else ok);
     if ok \<noteq> 0 then Some (ok, s1)
     else do {
       (ok, s2) \<leftarrow> (if \<not> check_only s1 \<and> \<not> keep q \<and> msgcount s1 > 0 then internal_expunge s1 else Some (0, s1));
       if ok \<noteq> 0 then Some (ok, s2)
       else if msgcount s2 = 0 \<and> do_idle s2 then idle_while (\<lambda>s. msgcount s = 0) s2
       else Some (0, s2)
     }
   }"

definition later_poll :: "imap \<Rightarrow> (int \<times> imap) option" where
  "later_poll s0 = do {
     (ok, s1) \<leftarrow> idle_while (\<lambda>s. recentcount s = 0 \<and> do_idle s) s0;
     Some (if ok \<noteq> 0 then (ok, s1) else (0, if recentcount s1 = 0 then s1\<lparr>msgcount := 0\<rparr> else s1))
   }"

text \<open>The code, \<open>*countp\<close> and \<open>*newp\<close>; \<open>*bytes\<close> is always -1.\<close>

definition imap_getrange :: "imap \<Rightarrow> string option \<Rightarrow> (int \<times> int \<times> int \<times> imap) option" where
  "imap_getrange s0 folder = do {
     (ok, s1) \<leftarrow> (if poll_pass s0 > 1 then later_poll s0 else first_poll s0 folder);
     if ok \<noteq> 0 then Some (ok, 0, 0, s1)
     else
       let s2 = s1\<lparr>oldcount := msgcount s1, recentcount := 0, startcount := 1\<rparr>; n = msgcount s2 in
       if \<not> fetchall (opt (iopts s2)) \<and> n > 0 then do {
         (ok, s3) \<leftarrow> imap_search (s2\<lparr>unseen_messages := replicate (nat n) 0, unseen := 0\<rparr>) n;
         Some (if ok \<noteq> 0 then (ok, n, 0, s3) else (PS_SUCCESS, n, unseen s3, s3\<lparr>expunged := 0, deletions := 0\<rparr>))
       }
       else Some (PS_SUCCESS, n, -1, s2\<lparr>unseen := -1, expunged := 0, deletions := 0\<rparr>)
   }"

subsection \<open>Sizes\<close>

definition put_cell :: "int list \<Rightarrow> int \<Rightarrow> int \<Rightarrow> int list option" where
  "put_cell xs i x = (if i < 0 then None else poke xs (nat i) x)"

definition imap_size_line :: "int \<Rightarrow> int \<Rightarrow> string \<Rightarrow> imap \<Rightarrow> int list \<Rightarrow> (imap \<times> int list) option" where
  "imap_size_line lo hi buf s sizes =
     (case scan_star_d buf of
        Some (num, r) \<Rightarrow>
          (case find_sub buf ''RFC822.SIZE '' of
             Some i \<Rightarrow>
               (case scan_u (drop (i + 11) buf) of
                  Some (sz, _) \<Rightarrow>
                    if is_fetch r \<and> lo \<le> num \<and> num \<le> hi
                    then map_option (\<lambda>xs. (s, xs)) (put_cell sizes (num - lo) (sint sz))
                    else Some (s, sizes)
                | None \<Rightarrow> Some (s, sizes))
           | None \<Rightarrow> Some (s, sizes))
      | None \<Rightarrow> Some (s, sizes))"

definition imap_getpartialsizes :: "imap \<Rightarrow> int \<Rightarrow> int \<Rightarrow> int list \<Rightarrow> (int \<times> imap \<times> int list) option" where
  "imap_getpartialsizes s lo0 hi0 sizes =
     (let lo = lo0 - expunged s; hi = hi0 - expunged s in
      if hi < lo then Some (PS_SUCCESS, s, sizes)
      else
        untagged_lines (imap_size_line lo hi)
          (imap_send s (if hi = lo then ''FETCH '' @ show_int hi @ '' RFC822.SIZE''
             else ''FETCH '' @ show_int lo @ '':'' @ show_int hi @ '' RFC822.SIZE'')) None sizes)"

definition imap_getsizes :: "imap \<Rightarrow> int \<Rightarrow> int list \<Rightarrow> (int \<times> imap \<times> int list) option" where
  "imap_getsizes s n sizes = imap_getpartialsizes s 1 n sizes"

text \<open>\<open>None\<close> is a read outside the array.\<close>

definition imap_is_old :: "imap \<Rightarrow> int \<Rightarrow> bool option" where
  "imap_is_old s number =
     (let k = nat (unseen s); cells = take k (unseen_messages s) in
      if word_of_int number \<in> set cells then Some False
      else if k > length (unseen_messages s) then None
      else Some True)"

subsection \<open>Fetching\<close>

text \<open>
  \<open>sscanf(ptr, "RFC822.HEADER {%d}%n", ...)\<close>: the length it stores, and where it stopped when the brace
  is there; \<open>consumed\<close> keeps the value of the scan before otherwise.
\<close>

definition scan_header_len :: "string \<Rightarrow> nat \<Rightarrow> (int \<times> nat) option" where
  "scan_header_len ptr before =
     (let r = dropWhile isspace (drop 13 ptr) in
      if char_at r 0 \<noteq> CHR ''{'' then None
      else
        (case scan_d (tl r) of
           None \<Rightarrow> None
         | Some (len, t) \<Rightarrow> Some (len, if char_at t 0 = CHR ''}'' then length ptr - length t + 1 else before)))"

text \<open>Whether the line is the expected one, and the length in \<open>*lenp\<close> if one was stored.\<close>

definition header_response :: "string \<Rightarrow> int \<Rightarrow> (bool \<times> int option) option" where
  "header_response buf number =
     (case scan_star_d buf of
        None \<Rightarrow> Some (False, None)
      | Some (num, r) \<Rightarrow>
          if is_fetch r \<and> num = number then
            (case find_sub buf ''RFC822.HEADER'' of
               None \<Rightarrow> Some (False, None)
             | Some i \<Rightarrow>
                 let ptr = drop i buf in
                 (case scan_header_len ptr (length buf - length r) of
                    None \<Rightarrow> Some (False, None)
                  | Some (len, consumed) \<Rightarrow>
                      if consumed - 1 > length ptr then None
                      else Some (char_at ptr (consumed - 1) = CHR ''}'', Some len)))
          else Some (False, None))"

text \<open>The code and the new value of \<open>*lenp\<close>, if any.\<close>

definition imap_fetch_headers :: "imap \<Rightarrow> int \<Rightarrow> (int \<times> int option \<times> imap) option" where
  "imap_fetch_headers s0 number0 = do {
     let number = number0 - expunged s0;
     (ok, t, s, _) \<leftarrow> imap_response True (imap_send s0 (''FETCH '' @ show_int number @ '' RFC822.HEADER'')) None;
     if ok = PS_UNTAGGED then do {
       let buf = (case t of None \<Rightarrow> [] | Some b \<Rightarrow> b);
       (good, len) \<leftarrow> header_response buf number;
       if good then Some (PS_SUCCESS, len, s)
       else do {
         (_, _, s1) \<leftarrow> imap_ok False s;
         Some (if has_prefix buf ''* NO'' \<or> has_prefix buf ''* BAD'' \<or> contains buf ''FETCH ()''
               then PS_TRANSIENT else PS_ERROR, len, s1)
       }
     }
     else Some (if ok = PS_SUCCESS then PS_TRANSIENT else ok, None, s)
   }"

text \<open>
  The lines up to the response, which are not in capitals. \<open>buf + 4\<close> of a line with less than four
  characters points behind its end.
\<close>

function body_response :: "channel \<Rightarrow> (int \<times> int \<times> string \<times> channel) option" where
  "body_response ch =
     (case gen_recv ch (MSGBUF + 1) of
        (ok, buf, ch1) \<Rightarrow>
          if ok \<noteq> 0 then Some (ok, 0, [], ch1)
          else if length buf < 4 then None
          else if contains (drop 4 buf) ''FETCH'' then
            (case scan_d (drop 2 buf) of
               Some (num, _) \<Rightarrow> Some (0, num, buf, ch1)
             | None \<Rightarrow> body_response ch1)
          else body_response ch1)"
  by pat_completeness auto
termination
  by (relation "measure (\<lambda>ch. length (inp (sck ch)))") (auto dest: gen_recv_consumes [OF sym])

declare body_response.simps [simp del]

text \<open>\<open>strtol\<close> behind the brace; -1 when there is no length.\<close>

definition body_length :: "string \<Rightarrow> int" where
  "body_length buf =
     (case strchr buf (CHR 0x7B) of
        None \<Rightarrow> -1
      | Some i \<Rightarrow>
          (case scan_number (dropWhile isspace (drop (i + 1) buf)) of
             None \<Rightarrow> -1
           | Some (neg, n, t) \<Rightarrow>
               let l = (if neg then - int n else int n) in
               if CHR 0x7D \<notin> set t \<or> l < 0 \<or> l > 2147483647 then -1 else l))"

definition fetch_text_cmd :: "int \<Rightarrow> int \<Rightarrow> string" where
  "fetch_text_cmd version number = ''FETCH '' @ show_int number @
     (if version = IMAP4rev1 then '' BODY.PEEK[TEXT]'' else if version = IMAP4 then '' RFC822.TEXT.PEEK'' else '' RFC822.TEXT'')"

definition imap_fetch_body :: "imap \<Rightarrow> int \<Rightarrow> (int \<times> int option \<times> imap) option" where
  "imap_fetch_body s0 number0 = do {
     let number = number0 - expunged s0;
     let s = imap_send s0 (fetch_text_cmd (imap_version s0) number);
     (ok, num, buf, ch) \<leftarrow> body_response (conn s);
     let s1 = s\<lparr>conn := ch\<rparr>;
     if ok \<noteq> 0 then Some (ok, None, s1)
     else if num \<noteq> number then Some (PS_ERROR, None, s1)
     else if length buf < 10 then None
     else if contains (drop 10 buf) ''NIL)'' \<or> contains (drop 10 buf) [DQUOTE, DQUOTE, CHR '')''] then Some (PS_SUCCESS, Some 0, s1)
     else Some (PS_SUCCESS, Some (body_length buf), s1)
   }"

definition imap_trail :: "imap \<Rightarrow> (int \<times> imap) option" where
  "imap_trail s = map_option (\<lambda>(ok, t, s1). (ok, s1)) (imap_ok False s)"

subsection \<open>Marking and leaving\<close>

definition flags_cmd :: "imap \<Rightarrow> int \<Rightarrow> string \<Rightarrow> string" where
  "flags_cmd s number flags = ''STORE '' @ show_int number @
     (if imap_version s = IMAP4 then '' +FLAGS.SILENT ('' else '' +FLAGS ('') @ flags @ '')''"

definition imap_delete :: "imap \<Rightarrow> int \<Rightarrow> (int \<times> imap) option" where
  "imap_delete s0 number0 = do {
     (ok, s) \<leftarrow> imap_transact s0
       (flags_cmd s0 (number0 - expunged s0) (BACKSLASH # ''Seen '' @ BACKSLASH # ''Deleted''));
     if ok \<noteq> 0 then Some (ok, s)
     else
       let s1 = s\<lparr>deletions := deletions s + 1\<rparr> in
       if expunge_period s1 > 0 \<and> deletions s1 mod expunge_period s1 = 0 then internal_expunge s1
       else Some (PS_SUCCESS, s1)
   }"

definition imap_mark_seen :: "imap \<Rightarrow> int \<Rightarrow> (int \<times> imap) option" where
  "imap_mark_seen s number = imap_transact s (flags_cmd s (number - expunged s) (BACKSLASH # ''Seen''))"

definition imap_end_mailbox_poll :: "imap \<Rightarrow> (int \<times> imap) option" where
  "imap_end_mailbox_poll s =
     (if deletions s \<noteq> 0 then map_option (\<lambda>(ok, s1). (PS_SUCCESS, s1)) (internal_expunge s) else Some (PS_SUCCESS, s))"

definition imap_logout :: "imap \<Rightarrow> (int \<times> imap) option" where
  "imap_logout s = do {
     s1 \<leftarrow> (if deletions s \<noteq> 0 then map_option snd (internal_expunge s) else Some s);
     imap_transact s1 ''LOGOUT''
   }"

end
