(* ===== verification/ImapSpec.thy ===== *)
theory ImapSpec
  imports ImapAuth ImapBox Pop3Spec
begin

section \<open>What an IMAP session keeps\<close>

text \<open>
  A relation between the state before and after that holds for every step of the dialogue holds for
  the responses and the commands made of them.
\<close>

locale response_steps =
  fixes R :: "imap \<Rightarrow> imap \<Rightarrow> bool"
  assumes R_refl: "R s s"
    and R_trans: "R s t \<Longrightarrow> R t u \<Longrightarrow> R s u"
    and R_recv: "imap_recv s rs = Some (ok, buf, s1, rs1) \<Longrightarrow> R s s1"
    and R_turn: "response_turn a s buf = (tn, s1) \<Longrightarrow> R s s1"
begin

lemma response: "imap_response a s rs = Some (r, t, s1, rs1) \<Longrightarrow> R s s1"
proof (induction a s rs rule: imap_response.induct)
  case (1 a s rs)
  obtain ok buf s2 rs2 where r: "imap_recv s rs = Some (ok, buf, s2, rs2)"
    using "1.prems"(1) by (subst (asm) imap_response.simps) (auto split: option.splits)
  obtain tn s3 where t: "response_turn a s2 buf = (tn, s3)" by fastforce
  note l = R_recv [OF r] R_turn [OF t]
  show ?case
  proof (cases "ok = 0 \<and> tn = More")
    case True
    then have "imap_response a s3 rs2 = Some (r, t, s1, rs1)"
      using "1.prems"(1) r t by (subst (asm) imap_response.simps) simp
    then have "R s3 s1" using "1.IH" [OF r refl refl refl _ t [symmetric]] True by auto
    then show ?thesis using l R_trans by blast
  next
    case False
    then have "s1 = s2 \<or> s1 = s3"
      using "1.prems" r t by (subst (asm) imap_response.simps) (auto split: if_splits reaction.splits)
    then show ?thesis using l R_trans by blast
  qed
qed

lemma ok: "imap_ok a s = Some (r, t, s1) \<Longrightarrow> R s s1"
proof (induction a s rule: imap_ok.induct)
  case (1 a s)
  obtain ok t2 s2 r2 where r: "imap_response a s None = Some (ok, t2, s2, r2)"
    using "1.prems" by (subst (asm) imap_ok.simps) (auto split: option.splits)
  show ?case
  proof (cases "ok = PS_UNTAGGED")
    case True
    then have "imap_ok a s2 = Some (r, t, s1)" using "1.prems" r by (subst (asm) imap_ok.simps) simp
    then show ?thesis using "1.IH" [OF r refl refl refl True] response [OF r] R_trans by blast
  next
    case False
    then show ?thesis using "1.prems" r response [OF r] by (subst (asm) imap_ok.simps) auto
  qed
qed

text \<open>The lines of a reply, when the function that takes them keeps the relation too.\<close>

lemma lines:
  assumes "untagged_lines f s rs a = Some (r, s1, b)" and "\<And>buf s a s1 b. f buf s a = Some (s1, b) \<Longrightarrow> R s s1"
  shows "R s s1"
proof -
  have "(\<forall>buf s a s1 b. f buf s a = Some (s1, b) \<longrightarrow> R s s1) \<longrightarrow> R s (fst (snd (r, s1, b)))"
  proof (rule untagged_lines.raw_induct [where P = "\<lambda>f s rs a y. (\<forall>buf s a s1 b. f buf s a = Some (s1, b) \<longrightarrow> R s s1) \<longrightarrow> R s (fst (snd y))",
        OF _ assms(1)], goal_cases)
    case (1 lines f s rs a y)
    obtain ok t s2 rs2 where r: "imap_response True s rs = Some (ok, t, s2, rs2)" using 1(2) by (auto split: option.splits)
    note rel = response [OF r]
    show ?case
    proof (cases "ok = PS_UNTAGGED")
      case False
      then show ?thesis using 1(2) r rel by auto
    next
      case True
      define buf where "buf = (case t of None \<Rightarrow> [] | Some buf \<Rightarrow> buf)"
      obtain s3 c where f: "f buf s2 a = Some (s3, c)" "lines f s3 rs2 c = Some y"
        using 1(2) r True unfolding buf_def by (auto split: option.splits)
      show ?thesis using 1(1) [OF f(2)] f(1) rel R_trans by blast
    qed
  qed
  then show ?thesis using assms(2) by auto
qed

end

text \<open>The same with the commands.\<close>

locale session_steps = response_steps +
  assumes R_write: "gen_line (conn s) cmd = (buf, ch1) \<Longrightarrow> sock_write ch1 buf = (ok, ch2) \<Longrightarrow> R s (s\<lparr>conn := ch2, tag := new_tag s\<rparr>)"
begin

lemma transact: "imap_transact s cmd = Some (r, s1) \<Longrightarrow> R s s1"
proof -
  assume t: "imap_transact s cmd = Some (r, s1)"
  obtain buf ch1 where l: "gen_line (conn s) cmd = (buf, ch1)" by fastforce
  obtain w ch2 where w: "sock_write ch1 buf = (w, ch2)" by fastforce
  have "s1 = s\<lparr>conn := ch2, tag := new_tag s\<rparr> \<or> (\<exists>x. imap_ok True (s\<lparr>conn := ch2, tag := new_tag s\<rparr>) = Some (r, x, s1))"
    using t l w by (auto simp: imap_transact_def Let_def split: if_splits)
  then show ?thesis using R_write [OF l w] ok R_trans by blast
qed

lemma send: "R s (imap_send s cmd)"
proof -
  obtain buf ch1 where l: "gen_line (conn s) cmd = (buf, ch1)" by fastforce
  obtain w ch2 where w: "sock_write ch1 buf = (w, ch2)" by fastforce
  show ?thesis using R_write [OF l w] l w by (simp add: imap_send_def gen_send_def)
qed

end

subsection \<open>What no response changes\<close>

definition same_session :: "imap \<Rightarrow> imap \<Rightarrow> bool" where
  "same_session s s1 \<longleftrightarrow> same_link (conn s1) (conn s) \<and> iopts s1 = iopts s \<and> (preauth s \<longrightarrow> preauth s1)
     \<and> check_only s1 = check_only s \<and> poll_pass s1 = poll_pass s \<and> imap_version s1 = imap_version s
     \<and> do_idle s1 = do_idle s \<and> has_idle s1 = has_idle s \<and> expunge_period s1 = expunge_period s
     \<and> unseen s1 = unseen s \<and> unseen_messages s1 = unseen_messages s \<and> startcount s1 = startcount s
     \<and> deletions s1 = deletions s \<and> expunged s1 = expunged s \<and> saved_timeout s1 = saved_timeout s
     \<and> idle_timeout s1 = idle_timeout s
     \<and> (istage s1 = istage s \<or> istage s = STAGE_IDLE \<and> istage s1 = STAGE_GETRANGE)"

lemma same_session_refl: "same_session s s"
  by (simp add: same_session_def)

lemma same_session_trans: "same_session s t \<Longrightarrow> same_session t u \<Longrightarrow> same_session s u"
  by (auto simp: same_session_def STAGE_defs intro: same_link_trans)

lemma same_link_sck: "same_link (c\<lparr>sck := x\<rparr>) c"
  by (simp add: same_link_def)

lemma gen_recv_split_keeps:
  "gen_recv_split ch n rs = Some (r, buf, ch1, rs1) \<Longrightarrow> outp (sck ch1) = outp (sck ch) \<and> same_link ch1 ch"
  by (auto simp: gen_recv_split_def same_link_sck Let_def dest!: SockRead_keeps split: if_splits prod.splits option.splits)

lemma imap_recv_keeps:
  assumes "imap_recv s rs = Some (ok, buf, s1, rs1)"
  obtains c al where "s1 = s\<lparr>conn := c, alarms := al\<rparr>" "outp (sck c) = outp (sck (conn s))" "same_link c (conn s)"
proof -
  define s2 where "s2 = (if istage s = STAGE_IDLE then s\<lparr>alarms := tl (alarms s)\<rparr> else s)"
  have k: "outp (sck c) = outp (sck (conn s)) \<and> same_link c (conn s)"
    if "gen_recv (conn s) n = (r, b, c)" for n r b c using gen_recv_keeps [OF that] by simp
  have k2: "outp (sck c) = outp (sck (conn s)) \<and> same_link c (conn s)"
    if "gen_recv_split (conn s) n x = Some (r, b, c, y)" for n x r b c y using gen_recv_split_keeps [OF that] by simp
  have c2: "conn s2 = conn s" "s2 = s\<lparr>alarms := alarms s2\<rparr>" by (simp_all add: s2_def)
  have "s1 = s\<lparr>alarms := tl (alarms s)\<rparr> \<or> (\<exists>c. s1 = s2\<lparr>conn := c\<rparr> \<and> outp (sck c) = outp (sck (conn s)) \<and> same_link c (conn s))"
    using assms k k2 unfolding imap_recv_def s2_def [symmetric] Let_def c2(1)
    by (auto split: if_splits option.splits prod.splits)
  then have "\<exists>c al. s1 = s\<lparr>conn := c, alarms := al\<rparr> \<and> outp (sck c) = outp (sck (conn s)) \<and> same_link c (conn s)"
  proof
    assume "s1 = s\<lparr>alarms := tl (alarms s)\<rparr>"
    then show ?thesis by (intro exI [of _ "conn s"] exI [of _ "tl (alarms s)"]) simp
  next
    assume "\<exists>c. s1 = s2\<lparr>conn := c\<rparr> \<and> outp (sck c) = outp (sck (conn s)) \<and> same_link c (conn s)"
    then obtain c where "s1 = s2\<lparr>conn := c\<rparr>" "outp (sck c) = outp (sck (conn s))" "same_link c (conn s)" by blast
    then show ?thesis by (intro exI [of _ c] exI [of _ "alarms s2"]) (simp add: s2_def)
  qed
  then show thesis using that by blast
qed

lemma untagged_keeps:
  assumes "imap_untagged_response s buf = (ok, s1)"
  shows "same_session s s1" "istage s \<noteq> STAGE_IDLE \<Longrightarrow> outp (sck (conn s1)) = outp (sck (conn s))"
proof -
  have w: "same_link (conn (raw_write t x)) (conn t)" for t x
    unfolding raw_write_def by (cases "sock_write (conn t) x") (simp add: sock_write_keeps)
  have r: "same_session (set_recent (s\<lparr>msgcount := n\<rparr>)) (raw_write (set_recent (s\<lparr>msgcount := n\<rparr>)) x)" for n x
    using w [of "set_recent (s\<lparr>msgcount := n\<rparr>)" x] by (simp add: same_session_def set_recent_def raw_write_def)
  have e: "same_session s (exists_response s u)" for u
    using r [of "uint u" "''DONE'' @ [CR, LF]"]
    by (auto simp: exists_response_def Let_def same_session_def set_recent_def raw_write_def)
  show "same_session s s1"
    using assms e
    by (auto simp: imap_untagged_response_def same_session_refl split: if_splits option.splits)
      (auto simp: same_session_def expunge_response_def set_recent_def Let_def)
  show "outp (sck (conn s1)) = outp (sck (conn s))" if "istage s \<noteq> STAGE_IDLE"
    using assms that
    by (auto simp: imap_untagged_response_def exists_response_def expunge_response_def set_recent_def Let_def
        split: if_splits option.splits)
qed

lemma idle_check_keeps: "idle_check s = (late, s1) \<Longrightarrow> s1 = s\<lparr>mytimeout := mytimeout s1, elapsed := elapsed s1\<rparr>"
  by (auto simp: idle_check_def Let_def split: if_splits)

lemma response_turn_keeps:
  assumes "response_turn a s buf = (tn, s1)"
  obtains ok s2 t e where "imap_untagged_response s buf = (ok, s2)" "s1 = s2\<lparr>mytimeout := t, elapsed := e\<rparr>"
    | t e where "s1 = s\<lparr>mytimeout := t, elapsed := e\<rparr>"
proof -
  define us where "us = (if char_at buf 0 = CHR ''*'' \<and> char_at buf 1 = SP then imap_untagged_response s buf else (PS_SUCCESS, s))"
  obtain ok s2 where u: "us = (ok, s2)" by fastforce
  obtain late s3 where i: "idle_check s2 = (late, s3)" by fastforce
  have "s1 = s2 \<or> s1 = s3"
    using assms u i unfolding response_turn_def us_def [symmetric] Let_def by (auto split: if_splits)
  then have "s1 = s2\<lparr>mytimeout := mytimeout s1, elapsed := elapsed s1\<rparr>"
    using idle_check_keeps [OF i] by (cases "s1 = s2") simp_all
  moreover have "imap_untagged_response s buf = (ok, s2) \<or> s2 = s" using u by (auto simp: us_def split: if_splits)
  ultimately show thesis using that(1) [of ok s2] that(2) by metis
qed

interpretation link: session_steps same_session
proof
  fix s s1 rs ok buf rs1
  assume "imap_recv s rs = Some (ok, buf, s1, rs1)"
  then show "same_session s s1" by (rule imap_recv_keeps) (simp add: same_session_def)
next
  fix a s buf tn s1
  assume "response_turn a s buf = (tn, s1)"
  then show "same_session s s1"
    by (rule response_turn_keeps) (auto simp: same_session_def dest: untagged_keeps(1))
next
  fix s :: imap and cmd buf ch1 ok ch2
  assume "gen_line (conn s) cmd = (buf, ch1)" "sock_write ch1 buf = (ok, ch2)"
  then show "same_session s (s\<lparr>conn := ch2, tag := new_tag s\<rparr>)"
    using same_link_trans [OF sock_write_keeps] gen_line_keeps by (simp add: same_session_def)
qed (auto intro: same_session_refl same_session_trans)

subsection \<open>Nothing is written while a response is read\<close>

definition silent :: "imap \<Rightarrow> imap \<Rightarrow> bool" where
  "silent s s1 \<longleftrightarrow> (istage s \<noteq> STAGE_IDLE \<longrightarrow> outp (sck (conn s1)) = outp (sck (conn s)) \<and> istage s1 = istage s)"

interpretation quiet: response_steps silent
proof
  fix s s1 rs ok buf rs1
  assume "imap_recv s rs = Some (ok, buf, s1, rs1)"
  then show "silent s s1" by (rule imap_recv_keeps) (simp add: silent_def)
next
  fix a s buf tn s1
  assume "response_turn a s buf = (tn, s1)"
  then show "silent s s1"
    by (rule response_turn_keeps) (auto simp: silent_def same_session_def dest: untagged_keeps)
qed (auto simp: silent_def)

subsection \<open>The counters\<close>

text \<open>An array of \<open>int\<close> for all messages has fewer bytes than \<open>INT_MAX\<close>, so its size does not wrap around.\<close>

definition counts_ok :: "imap \<Rightarrow> bool" where
  "counts_ok s \<longleftrightarrow> 0 \<le> msgcount s \<and> msgcount s \<le> 536870911 \<and> 0 \<le> oldcount s \<and> 0 \<le> recentcount s"

definition counts_kept :: "imap \<Rightarrow> imap \<Rightarrow> bool" where
  "counts_kept s s1 \<longleftrightarrow> (counts_ok s \<longrightarrow> counts_ok s1)"

lemma exists_bound: "\<not> u > (536870911 :: 64 word) \<Longrightarrow> uint u \<le> 536870911"
  by (simp add: word_less_def not_less)

lemma untagged_counts:
  assumes "imap_untagged_response s buf = (ok, s1)" "counts_ok s"
  shows "counts_ok s1"
proof -
  have e: "counts_ok (exists_response s u)" if "\<not> u > 536870911" for u
    using assms(2) exists_bound [OF that] by (auto simp: counts_ok_def exists_response_def set_recent_def raw_write_def Let_def)
  show ?thesis
    using assms e unfolding imap_untagged_response_def
    by (auto split: if_splits option.splits) (auto simp: counts_ok_def expunge_response_def set_recent_def Let_def)
qed

interpretation counts: session_steps counts_kept
proof
  fix s s1 rs ok buf rs1
  assume "imap_recv s rs = Some (ok, buf, s1, rs1)"
  then show "counts_kept s s1" by (rule imap_recv_keeps) (simp add: counts_kept_def counts_ok_def)
next
  fix a s buf tn s1
  assume "response_turn a s buf = (tn, s1)"
  then show "counts_kept s s1"
    by (rule response_turn_keeps) (simp_all add: counts_kept_def counts_ok_def untagged_counts [unfolded counts_ok_def])
qed (auto simp: counts_kept_def counts_ok_def)

end
