(* ===== verification/ImapSearch.thy ===== *)
theory ImapSearch
  imports ImapSpec
begin

section \<open>The search for unseen messages\<close>

subsection \<open>The array\<close>

text \<open>The array of unseen messages has a cell for every message, and its first cells are numbers of messages.\<close>

definition found_ok :: "int \<Rightarrow> imap \<Rightarrow> bool" where
  "found_ok n s \<longleftrightarrow> 0 \<le> unseen s \<and> unseen s \<le> n \<and> length (unseen_messages s) = nat n
     \<and> (\<forall>i < nat (unseen s). uint (unseen_messages s ! i) \<le> n)"

definition found_kept :: "int \<Rightarrow> imap \<Rightarrow> imap \<Rightarrow> bool" where
  "found_kept n s s1 \<longleftrightarrow> (found_ok n s \<longrightarrow> found_ok n s1)"

lemma same_session_found: "same_session s s1 \<Longrightarrow> found_kept n s s1"
  by (simp add: same_session_def found_kept_def found_ok_def)

interpretation found: session_steps "found_kept n" for n
proof
  fix s s1 rs ok buf rs1 assume "imap_recv s rs = Some (ok, buf, s1, rs1)"
  then show "found_kept n s s1" using link.R_recv same_session_found by blast
next
  fix a s buf tn s1 assume "response_turn a s buf = (tn, s1)"
  then show "found_kept n s s1" using link.R_turn same_session_found by blast
next
  fix s :: imap and cmd buf ch1 ok ch2 assume "gen_line (conn s) cmd = (buf, ch1)" "sock_write ch1 buf = (ok, ch2)"
  then show "found_kept n s (s\<lparr>conn := ch2, tag := new_tag s\<rparr>)" using link.R_write same_session_found by blast
qed (auto simp: found_kept_def)

text \<open>A message that is stored is stored inside the array.\<close>

lemma add_unseen_ok:
  assumes "found_ok n s" "unseen s < n" "uint um \<le> n"
  shows "\<exists>s1. add_unseen s um = Some s1 \<and> found_ok n s1 \<and> unseen s1 = unseen s + 1
    \<and> unseen_messages s1 = (unseen_messages s)[nat (unseen s) := um]"
proof -
  have "nat (unseen s) < length (unseen_messages s)" "nat (unseen s + 1) = Suc (nat (unseen s))"
    using assms by (auto simp: found_ok_def)
  then show ?thesis using assms by (auto simp: add_unseen_def found_ok_def nth_list_update less_Suc_eq)
qed

lemma uint_ucast_small: "uint u \<le> 2147483647 \<Longrightarrow> uint (ucast (u :: 64 word) :: u32) = uint u"
  by (simp add: uint_up_ucast unsigned_ucast_eq take_bit_int_eq_self)

lemma found_number:
  assumes "found_ok n s" "unseen s < n" "uint u \<le> 2147483647 \<and> uint u \<le> n"
  shows "\<exists>s1. add_unseen s (ucast (u :: 64 word)) = Some s1 \<and> found_ok n s1 \<and> unseen s1 = unseen s + 1
    \<and> unseen_messages s1 = (unseen_messages s)[nat (unseen s) := ucast u]"
  using add_unseen_ok [OF assms(1,2), of "ucast u"] assms(3) by (simp add: uint_ucast_small)

text \<open>What every step and every stored number keeps, the search keeps.\<close>

locale search_steps = session_steps +
  fixes n :: int
  assumes R_add: "unseen s < n \<Longrightarrow> uint um \<le> n \<Longrightarrow> add_unseen s um = Some s1 \<Longrightarrow> R s s1"
    and R_start: "R s (s\<lparr>startcount := c\<rparr>)"
begin

lemma add_number: "unseen s < n \<Longrightarrow> uint u \<le> 2147483647 \<and> uint u \<le> n \<Longrightarrow> add_unseen s (ucast (u :: 64 word)) = Some s1 \<Longrightarrow> R s s1"
  by (rule R_add [of s "ucast u"]) (simp_all add: uint_ucast_small)

lemma numbers:
  assumes "search_numbers s n cp = Some s1"
  shows "R s s1"
proof -
  have "m = n \<longrightarrow> R s s1" if "search_numbers s m cp = Some s1" for m
  proof (rule search_numbers.raw_induct [where P = "\<lambda>s m cp s1. m = n \<longrightarrow> R s s1", OF _ that], goal_cases)
    case (1 rec s m cp s1)
    define c where "c = dropWhile isspace cp"
    show ?case
    proof (cases "cp = [] \<or> \<not> unseen s < m \<or> c = [] \<or> strtoul c = None")
      case True
      then show ?thesis using 1 R_refl by (auto simp: c_def [symmetric] Let_def split: if_splits)
    next
      case False
      then obtain um e ep where u: "strtoul c = Some (um, e, ep)" by (cases "strtoul c") auto
      show ?thesis
      proof (cases "\<not> e \<and> uint um \<le> 2147483647 \<and> uint um \<le> m")
        case True
        then obtain s2 where "add_unseen s (ucast um) = Some s2" "rec s2 m ep = Some s1"
          using 1(2) False u by (auto simp: c_def [symmetric] Let_def split: bind_splits)
        then show ?thesis using 1(1) [of s2 m ep] add_number [of s um s2] True False R_trans by blast
      next
        case False': False
        then have "rec s m ep = Some s1" using 1(2) False u by (auto simp: c_def [symmetric] Let_def)
        then show ?thesis using 1(1) by simp
      qed
    qed
  qed
  then show ?thesis using assms by blast
qed

lemma line: "search_line s n buf = Some s1 \<Longrightarrow> R s s1"
  using R_refl by (auto simp: search_line_def split: option.splits dest!: numbers)

lemma flags: "flags_line n buf s x = Some (s1, b) \<Longrightarrow> R s s1"
proof -
  assume f: "flags_line n buf s x = Some (s1, b)"
  show ?thesis
  proof (cases "s1 = s")
    case False
    then obtain num r where "unseen s < n" "uint num \<le> n" "add_unseen s num = Some s1"
      using f by (auto simp: flags_line_def split: option.splits if_splits)
    then show ?thesis by (rule R_add)
  qed (simp add: R_refl)
qed

lemma search_try: "search_try s n b = Some (ok, s1) \<Longrightarrow> R s s1"
proof -
  assume t: "search_try s n b = Some (ok, s1)"
  define f where "f = (\<lambda>buf s (_::unit). map_option (\<lambda>s1. (s1, ())) (search_line s n buf))"
  obtain rs u where l: "untagged_lines f (imap_send s (search_cmd b)) (Some rs) () = Some (ok, s1, u)"
    using t by (auto simp: search_try_def f_def split: bind_splits)
  have "R (imap_send s (search_cmd b)) s1"
    by (rule lines [OF l]) (auto simp: f_def dest: line)
  then show ?thesis using send R_trans by blast
qed

lemma search:
  assumes "imap_search s n = Some (ok, s1)"
  shows "R s s1"
proof -
  define s0 where "s0 = s\<lparr>startcount := word_of_int n + 1\<rparr>"
  obtain ok2 s2 where 2: "search_try s0 n (imap_version s \<ge> IMAP4 \<and> keep (opt (iopts s))) = Some (ok2, s2)"
    using assms by (auto simp: imap_search_def s0_def Let_def split: bind_splits)
  obtain ok3 s3 where 3: "(if ok2 = PS_ERROR \<and> imap_version s \<ge> IMAP4 \<and> keep (opt (iopts s)) then search_try s2 n False
      else Some (ok2, s2)) = Some (ok3, s3)"
    using assms 2 by (auto simp: imap_search_def s0_def Let_def split: bind_splits)
  have s3: "R s2 s3" using 3 search_try R_refl by (auto split: if_splits)
  have e: "(if ok3 \<noteq> PS_ERROR then Some (ok3, s3) else do {
       (ok, s4, _) \<leftarrow> untagged_lines (flags_line n)
         (imap_send s3 (if n = 1 then ''FETCH '' @ show_int n @ '' FLAGS'' else ''FETCH 1:'' @ show_int n @ '' FLAGS'')) None ();
       Some (ok, s4)
     }) = Some (ok, s1)"
    using assms 2 3 unfolding imap_search_def s0_def Let_def by simp
  have "R s3 s1"
  proof (cases "ok3 = PS_ERROR")
    case True
    then obtain cmd u where l: "untagged_lines (flags_line n) (imap_send s3 cmd) None () = Some (ok, s1, u)"
      using e by (auto split: bind_splits)
    have "R (imap_send s3 cmd) s1" by (rule lines [OF l]) (rule flags)
    then show ?thesis using send R_trans by blast
  qed (use e in \<open>simp add: R_refl\<close>)
  moreover have "R s s0" unfolding s0_def by (rule R_start)
  ultimately show ?thesis using search_try [OF 2] s3 R_trans by blast
qed

end

interpretation finding: search_steps "found_kept n" n for n
  using add_unseen_ok by unfold_locales (fastforce simp: found_kept_def, simp add: found_kept_def found_ok_def)

interpretation counting: search_steps counts_kept n for n
  by unfold_locales (auto simp: counts_kept_def counts_ok_def add_unseen_def split: if_splits bind_splits)

text \<open>The fallback never stores a message outside the array, whatever the lines are.\<close>

lemma flags_line_total: "found_ok n s \<Longrightarrow> flags_line n buf s x \<noteq> None"
  using add_unseen_ok by (fastforce simp: flags_line_def split: option.splits)

subsection \<open>Reading the numbers\<close>

definition number :: "string \<Rightarrow> bool" where
  "number w \<longleftrightarrow> w \<noteq> [] \<and> list_all isdigit w"

definition words_text :: "string list \<Rightarrow> string" where
  "words_text ws = concat (map (\<lambda>w. SP # w) ws)"

text \<open>The numbers that can be messages of a mailbox with \<open>n\<close> of them.\<close>

definition listed :: "int \<Rightarrow> string list \<Rightarrow> nat list" where
  "listed n ws = filter (\<lambda>v. v \<le> 2147483647 \<and> int v \<le> n) (map digits_val ws)"

lemma digit_char: "isdigit c \<Longrightarrow> \<not> isspace c \<and> c \<noteq> CHR ''-'' \<and> c \<noteq> CHR ''+''"
  by (auto simp: ctype code_def)

lemma strtoul_number:
  assumes "number w" "r = [] \<or> \<not> isdigit (hd r)"
  shows "strtoul (w @ r) = Some (if digits_val w \<ge> 2 ^ 64 then (-1, True, r) else (of_nat (digits_val w), False, r))"
proof -
  have t: "takeWhile isdigit (w @ r) = w" "dropWhile isdigit (w @ r) = r"
    using assms by (auto simp: number_def list_all_iff takeWhile_append dropWhile_append) (cases r; simp)+
  have "sign_split (w @ r) = (False, w @ r)"
    using assms(1) digit_char by (cases w) (auto simp: sign_split_def number_def)
  then show ?thesis using t assms(1) by (simp add: strtoul_def scan_number_def number_def)
qed

lemma drop_space: "number w \<Longrightarrow> dropWhile isspace (SP # w @ r) = w @ r"
  using digit_char by (cases w) (auto simp: number_def isspace_def)

lemma small_number:
  assumes "v \<le> 2147483647"
  shows "uint (of_nat v :: 64 word) = int v" "ucast (of_nat v :: 64 word) = (of_nat v :: u32)"
proof -
  have "int v mod 2 ^ 64 = int v" using assms by simp
  then show "uint (of_nat v :: 64 word) = int v" by (simp add: unsigned_of_nat take_bit_nat_eq_self take_bit_eq_mod)
  then show "ucast (of_nat v :: 64 word) = (of_nat v :: u32)" by (simp add: unsigned_of_nat take_bit_nat_eq_self take_bit_eq_mod)
qed

text \<open>The condition for a number that is read.\<close>

lemma listed_cond:
  assumes "strtoul (w @ r) = Some (u, e, r)" "number w" "r = [] \<or> \<not> isdigit (hd r)"
  shows "(\<not> e \<and> uint u \<le> 2147483647 \<and> uint u \<le> n) \<longleftrightarrow> digits_val w \<le> 2147483647 \<and> int (digits_val w) \<le> n"
    "digits_val w \<le> 2147483647 \<Longrightarrow> ucast u = (of_nat (digits_val w) :: u32)"
proof -
  note v = strtoul_number [OF assms(2,3)]
  show "ucast u = (of_nat (digits_val w) :: u32)" if "digits_val w \<le> 2147483647"
    using v assms(1) small_number [OF that] that by (simp split: if_splits)
  show "(\<not> e \<and> uint u \<le> 2147483647 \<and> uint u \<le> n) \<longleftrightarrow> digits_val w \<le> 2147483647 \<and> int (digits_val w) \<le> n"
  proof (cases "digits_val w \<ge> 2 ^ 64")
    case True
    then show ?thesis using v assms(1) by simp
  next
    case False
    then have "uint u = int (digits_val w)" using v assms(1) by (auto simp: uint_nat unat_of_nat take_bit_nat_eq_self)
    then show ?thesis using False v assms(1) by simp
  qed
qed

lemma search_numbers_reads:
  assumes "found_ok n s" "list_all number ws" "int (length (listed n ws)) \<le> n - unseen s" "r = [] \<or> \<not> isdigit (hd r)"
  shows "\<exists>s1. search_numbers s n (words_text ws @ r) = search_numbers s1 n r \<and> found_ok n s1
    \<and> unseen s1 = unseen s + int (length (listed n ws))
    \<and> unseen_messages s1 = overwrite (unseen_messages s) (nat (unseen s)) (map of_nat (listed n ws))"
  using assms(1-3)
proof (induction ws arbitrary: s)
  case Nil
  then show ?case by (intro exI [of _ s]) (simp add: words_text_def listed_def)
next
  case (Cons w ws)
  define t where "t = words_text ws @ r"
  have line: "words_text (w # ws) @ r = SP # w @ t" by (simp add: words_text_def t_def)
  have w: "number w" "list_all number ws" "w @ t \<noteq> []" using Cons.prems(2) by (simp_all, simp add: number_def)
  have t: "t = [] \<or> \<not> isdigit (hd t)"
    using assms(4) by (cases ws) (auto simp: t_def words_text_def isdigit_def code_def)
  obtain u e where u: "strtoul (w @ t) = Some (u, e, t)" using strtoul_number [OF w(1) t] by (simp split: if_splits)
  note cond = listed_cond [OF u w(1) t]
  show ?case
  proof (cases "unseen s < n")
    case False
    then have "unseen s = n" using Cons.prems(1) by (simp add: found_ok_def)
    with Cons.prems(3) have full: "unseen s = n" "listed n (w # ws) = []" by simp_all
    then have "search_numbers s n (words_text (w # ws) @ r) = Some s" "search_numbers s n r = Some s"
      by (simp_all add: search_numbers.simps [of s n "words_text _ @ r"] search_numbers.simps [of s n r])
    then show ?thesis using Cons.prems(1) full by (intro exI [of _ s]) simp
  next
    case True
    have step: "search_numbers s n (SP # w @ t) =
        (if digits_val w \<le> 2147483647 \<and> int (digits_val w) \<le> n
         then Option.bind (add_unseen s (ucast u)) (\<lambda>s1. search_numbers s1 n t) else search_numbers s n t)"
      using True w(1,3) u
      by (subst search_numbers.simps)
        (simp add: Let_def drop_space [OF w(1)] cond(1) number_def del: append_is_Nil_conv dropWhile.simps)
    show ?thesis
    proof (cases "digits_val w \<le> 2147483647 \<and> int (digits_val w) \<le> n")
      case False
      then have "listed n (w # ws) = listed n ws" by (auto simp: listed_def)
      then show ?thesis using Cons.IH [OF Cons.prems(1) w(2)] Cons.prems(3) step False unfolding line t_def by simp
    next
      case True': True
      have l: "listed n (w # ws) = digits_val w # listed n ws" using True' by (auto simp: listed_def)
      have "\<not> e \<and> uint u \<le> 2147483647 \<and> uint u \<le> n" using cond(1) True' by blast
      then obtain s2 where s2: "add_unseen s (ucast u) = Some s2" "found_ok n s2" "unseen s2 = unseen s + 1"
        "unseen_messages s2 = (unseen_messages s)[nat (unseen s) := of_nat (digits_val w)]"
        using found_number [OF Cons.prems(1) True, of u] cond(2) True' by auto
      have "int (length (listed n ws)) \<le> n - unseen s2" using Cons.prems(3) l s2(3) by simp
      from Cons.IH [OF s2(2) w(2) this] obtain s3 where s3: "search_numbers s2 n t = search_numbers s3 n r" "found_ok n s3"
        "unseen s3 = unseen s2 + int (length (listed n ws))"
        "unseen_messages s3 = overwrite (unseen_messages s2) (nat (unseen s2)) (map of_nat (listed n ws))"
        unfolding t_def by blast
      have i: "nat (unseen s) < length (unseen_messages s)" "nat (unseen s2) = Suc (nat (unseen s))"
        using Cons.prems(1) True s2(3) by (auto simp: found_ok_def)
      show ?thesis using s2 s3 step True' l overwrite_update [OF i(1)] i(2) unfolding line by (intro exI [of _ s3]) simp
    qed
  qed
qed

text \<open>A word that is no number, with a free cell left, is never passed.\<close>

lemma search_numbers_stuck:
  assumes "unseen s < n" "dropWhile isspace cp \<noteq> []" "strtoul (dropWhile isspace cp) = None"
  shows "search_numbers s n cp = None"
proof (rule ccontr)
  assume "search_numbers s n cp \<noteq> None"
  then obtain y where y: "search_numbers s n cp = Some y" by blast
  have "\<not> (unseen s < n \<and> dropWhile isspace cp \<noteq> [] \<and> strtoul (dropWhile isspace cp) = None)"
  proof (rule search_numbers.raw_induct [where P = "\<lambda>s n cp y. \<not> (unseen s < n \<and> dropWhile isspace cp \<noteq> []
        \<and> strtoul (dropWhile isspace cp) = None)", OF _ y], goal_cases)
    case (1 rec s n cp y)
    show ?case
    proof
      assume a: "unseen s < n \<and> dropWhile isspace cp \<noteq> [] \<and> strtoul (dropWhile isspace cp) = None"
      then have "rec s n (dropWhile isspace cp) = Some y" using 1(2) by (auto simp: Let_def split: if_splits)
      then show False using 1(1) a by fastforce
    qed
  qed
  then show False using assms by blast
qed

end
