(* ===== verification/ImapMail.thy ===== *)
theory ImapMail
  imports ImapSearch
begin

section \<open>The range of messages and the deletions of an IMAP session\<close>

subsection \<open>Expunging\<close>

lemma internal_expunge_run:
  assumes "internal_expunge s = Some (ok, s1)"
  obtains r s2 where "same_session s s2" "counts_kept s s2"
    "ok = 0 \<Longrightarrow> r = 0 \<and> s1 = s2\<lparr>expunged := expunged s + deletions s, deletions := 0\<rparr>
        \<and> (deletions s > 0 \<longrightarrow> actual_deletions s1 = deletions s)"
    "\<exists>e d. s1 = s2\<lparr>expunged := e, deletions := d\<rparr>"
proof -
  obtain r s2 where t: "imap_transact (s\<lparr>actual_deletions := 0\<rparr>) ''EXPUNGE'' = Some (r, s2)"
    "(ok, s1) = (if r \<noteq> 0 then (r, s2)
        else if deletions s2 > 0 \<and> deletions s2 \<noteq> actual_deletions s2 then (PS_ERROR, s2\<lparr>deletions := 0\<rparr>)
        else (PS_SUCCESS, s2\<lparr>expunged := expunged s2 + deletions s2, deletions := 0\<rparr>))"
    using assms by (auto simp: internal_expunge_def split: bind_splits)
  have l: "same_session s s2" "counts_kept s s2"
    using link.transact [OF t(1)] counts.transact [OF t(1)] by (simp_all add: same_session_def counts_kept_def counts_ok_def)
  have "deletions s2 = deletions s" "expunged s2 = expunged s" using l(1) by (simp_all add: same_session_def)
  then have "ok = 0 \<Longrightarrow> r = 0 \<and> s1 = s2\<lparr>expunged := expunged s + deletions s, deletions := 0\<rparr>
        \<and> (deletions s > 0 \<longrightarrow> actual_deletions s1 = deletions s)"
    using t(2) by (auto simp: PS_ERROR_def split: if_splits)
  moreover have "\<exists>e d. s1 = s2\<lparr>expunged := e, deletions := d\<rparr>"
    using t(2) by (intro exI [of _ "expunged s1"] exI [of _ "deletions s1"]) (auto split: if_splits)
  ultimately show thesis using that l by blast
qed

lemma internal_expunge_counts: "internal_expunge s = Some (ok, s1) \<Longrightarrow> counts_kept s s1"
  by (erule internal_expunge_run) (auto simp: counts_kept_def counts_ok_def)

lemma delete_run:
  assumes "imap_delete s nr = Some (0, s1)"
  shows "expunged s1 + deletions s1 = expunged s + deletions s + 1"
    and "expunge_period s > 0 \<Longrightarrow> deletions s1 mod expunge_period s1 = 0 \<Longrightarrow> deletions s1 = 0"
proof -
  obtain ok s2 where t: "imap_transact s (flags_cmd s (nr - expunged s) (BACKSLASH # ''Seen '' @ BACKSLASH # ''Deleted'')) = Some (ok, s2)"
    using assms by (auto simp: imap_delete_def Let_def split: bind_splits)
  define s3 where "s3 = s2\<lparr>deletions := deletions s2 + 1\<rparr>"
  have e: "(if expunge_period s3 > 0 \<and> deletions s3 mod expunge_period s3 = 0 then internal_expunge s3 else Some (0, s3)) = Some (0, s1)"
    using assms t by (auto simp: imap_delete_def Let_def s3_def PS_SUCCESS_def split: if_splits)
  have same: "deletions s2 = deletions s" "expunged s2 = expunged s" "expunge_period s2 = expunge_period s"
    using link.transact [OF t] by (simp_all add: same_session_def)
  have x: "expunged s1 + deletions s1 = expunged s3 + deletions s3 \<and> expunge_period s1 = expunge_period s3 \<and> deletions s1 = 0"
    if "internal_expunge s3 = Some (0, s1)"
    using that by (rule internal_expunge_run) (auto simp: same_session_def)
  show "expunged s1 + deletions s1 = expunged s + deletions s + 1"
    using e x same by (auto simp: s3_def split: if_splits)
  show "deletions s1 = 0" if "expunge_period s > 0" "deletions s1 mod expunge_period s1 = 0"
    using e x same that by (auto split: if_splits) (auto simp: s3_def split: if_splits)
qed

subsection \<open>Idling\<close>

lemma imap_idle_run:
  assumes "imap_idle s = Some (ok, s1)"
  shows "istage s1 = STAGE_GETRANGE \<and> mytimeout s1 = mytimeout s \<and> counts_kept s s1"
proof -
  define s0 where "s0 = s\<lparr>saved_timeout := mytimeout s\<rparr>"
  have body: "counts_kept s t \<and> saved_timeout t = mytimeout s"
    if "same_session s0' t'" "counts_kept s0' t'" "saved_timeout s0' = mytimeout s" "counts_kept s s0'" "t = t'" for s0' t' t
    using that by (auto simp: same_session_def counts_kept_def)
  obtain s2 where s2: "s1 = s2\<lparr>mytimeout := saved_timeout s2, istage := STAGE_GETRANGE\<rparr>"
    "counts_kept s s2" "saved_timeout s2 = mytimeout s"
  proof (cases "has_idle s")
    case True
    define i where "i = s0\<lparr>mytimeout := 1680, idle_timeout := 1680, istage := STAGE_IDLE\<rparr>"
    obtain r s3 where t: "imap_transact i ''IDLE'' = Some (r, s3)"
      using assms True by (auto simp: imap_idle_def Let_def s0_def i_def split: bind_splits)
    have b3: "counts_kept s s3 \<and> saved_timeout s3 = mytimeout s"
      by (rule body [OF link.transact [OF t] counts.transact [OF t] _ _ refl])
        (simp_all add: i_def s0_def counts_kept_def counts_ok_def)
    show thesis
    proof (cases "r = PS_IDLETIMEOUT")
      case False
      then show thesis using assms True t b3 that [of s3] by (auto simp: imap_idle_def Let_def s0_def i_def)
    next
      case to: True
      define d where "d = raw_write s3 (''DONE'' @ [CR, LF])"
      define d1 where "d1 = d\<lparr>mytimeout := saved_timeout d, istage := STAGE_GETRANGE\<rparr>"
      obtain x s4 where o: "imap_ok False d1 = Some (ok, x, s4)" "s1 = s4\<lparr>mytimeout := saved_timeout s4, istage := STAGE_GETRANGE\<rparr>"
        using assms True t to by (auto simp: imap_idle_def Let_def s0_def i_def d_def d1_def split: bind_splits)
      have "counts_kept s s4 \<and> saved_timeout s4 = mytimeout s"
        by (rule body [OF link.ok [OF o(1)] counts.ok [OF o(1)] _ _ refl])
          (use b3 in \<open>simp_all add: d1_def d_def raw_write_def counts_kept_def counts_ok_def\<close>)
      then show thesis using that o(2) by blast
    qed
  next
    case False
    obtain r s3 where t: "imap_transact s0 ''NOOP'' = Some (r, s3)"
      using assms False by (auto simp: imap_idle_def Let_def s0_def split: bind_splits)
    have b3: "counts_kept s s3 \<and> saved_timeout s3 = mytimeout s"
      by (rule body [OF link.transact [OF t] counts.transact [OF t] _ _ refl])
        (simp_all add: s0_def counts_kept_def counts_ok_def)
    show thesis
    proof (cases "r = PS_SUCCESS \<and> recentcount s3 = 0")
      case False': False
      then have "s1 = s3\<lparr>mytimeout := saved_timeout s3, istage := STAGE_GETRANGE\<rparr>"
        using assms False t by (auto simp: imap_idle_def Let_def s0_def)
      then show thesis using b3 that by blast
    next
      case True
      define d1 where "d1 = s3\<lparr>mytimeout := 28, idle_timeout := 28, istage := STAGE_IDLE, tag := []\<rparr>"
      obtain r2 x s4 where o: "imap_ok False d1 = Some (r2, x, s4)" "s1 = s4\<lparr>mytimeout := saved_timeout s4, istage := STAGE_GETRANGE\<rparr>"
        using assms False t True by (auto simp: imap_idle_def Let_def s0_def d1_def split: bind_splits)
      have "counts_kept s s4 \<and> saved_timeout s4 = mytimeout s"
        by (rule body [OF link.ok [OF o(1)] counts.ok [OF o(1)] _ _ refl])
          (use b3 in \<open>simp_all add: d1_def counts_kept_def counts_ok_def\<close>)
      then show thesis using that o(2) by blast
    qed
  qed
  then show ?thesis by (simp add: counts_kept_def counts_ok_def)
qed

text \<open>The loop that waits for mail ends only when there is some, or with an error.\<close>

lemma idle_while_run: "idle_while p s = Some (ok, s1) \<Longrightarrow> counts_kept s s1 \<and> (ok = 0 \<longrightarrow> \<not> p s1)"
proof (induction p s rule: idle_while.induct)
  case (1 p s)
  show ?case
  proof (cases "p s")
    case False
    then show ?thesis using "1.prems" by (subst (asm) idle_while.simps) (auto simp: counts_kept_def)
  next
    case True
    then obtain r s2 where i: "imap_idle s = Some (r, s2)"
      using "1.prems" by (subst (asm) idle_while.simps) (auto split: option.splits)
    note k = imap_idle_run [OF i]
    show ?thesis
    proof (cases "r = 0")
      case True'': True
      then have "idle_while p s2 = Some (ok, s1)" using "1.prems" True i by (subst (asm) idle_while.simps) simp
      then show ?thesis using "1.IH" [OF _ i refl] True True'' k by (auto simp: counts_kept_def)
    next
      case False
      then show ?thesis using "1.prems" True i k by (subst (asm) idle_while.simps) auto
    qed
  qed
qed

subsection \<open>The range\<close>

lemma first_poll_run:
  assumes "first_poll s folder = Some (ok, s1)" "counts_ok s"
  shows "counts_ok s1" "ok = 0 \<Longrightarrow> msgcount s1 = 0 \<Longrightarrow> \<not> do_idle s1"
proof -
  have start: "counts_ok (s\<lparr>oldcount := 0, msgcount := 0\<rparr>)" using assms(2) by (simp add: counts_ok_def)
  obtain r s2 where t: "imap_transact (s\<lparr>oldcount := 0, msgcount := 0\<rparr>) (select_cmd s folder) = Some (r, s2)"
    using assms(1) by (auto simp: first_poll_def split: bind_splits)
  have c2: "counts_ok s2" using counts.transact [OF t] start by (simp add: counts_kept_def)
  define r' where "r' = (if r = PS_LOCKBUSY \<and> fetchall (opt (iopts s2)) \<and> keep (opt (iopts s2)) then 0 else r)"
  have *: "(if r' \<noteq> 0 then Some (r', s2) else do {
       (ok, s3) \<leftarrow> (if \<not> check_only s2 \<and> \<not> keep (opt (iopts s2)) \<and> msgcount s2 > 0 then internal_expunge s2 else Some (0, s2));
       if ok \<noteq> 0 then Some (ok, s3)
       else if msgcount s3 = 0 \<and> do_idle s3 then idle_while (\<lambda>s. msgcount s = 0) s3
       else Some (0, s3)
     }) = Some (ok, s1)"
    using assms(1) t unfolding first_poll_def r'_def Let_def by simp
  have "counts_ok s1 \<and> (ok = 0 \<longrightarrow> msgcount s1 = 0 \<longrightarrow> \<not> do_idle s1)"
  proof (cases "r' = 0")
    case False
    then show ?thesis using * c2 by auto
  next
    case True
    then obtain r3 s3 where e: "(if \<not> check_only s2 \<and> \<not> keep (opt (iopts s2)) \<and> msgcount s2 > 0 then internal_expunge s2
        else Some (0, s2)) = Some (r3, s3)" "(if r3 \<noteq> 0 then Some (r3, s3)
       else if msgcount s3 = 0 \<and> do_idle s3 then idle_while (\<lambda>s. msgcount s = 0) s3 else Some (0, s3)) = Some (ok, s1)"
      using * by (auto split: bind_splits)
    have "counts_ok s3" using e(1) c2 internal_expunge_counts by (auto simp: counts_kept_def split: if_splits)
    then show ?thesis using e(2) idle_while_run [of "\<lambda>s. msgcount s = 0" s3 ok s1] by (auto simp: counts_kept_def split: if_splits)
  qed
  then show "counts_ok s1" "ok = 0 \<Longrightarrow> msgcount s1 = 0 \<Longrightarrow> \<not> do_idle s1" by auto
qed

lemma later_poll_run: "later_poll s = Some (ok, s1) \<Longrightarrow> counts_ok s \<Longrightarrow> counts_ok s1"
  by (auto simp: later_poll_def counts_kept_def counts_ok_def dest!: idle_while_run split: bind_splits if_splits)

lemma getrange_run:
  assumes "imap_getrange s folder = Some (0, n, new, s1)" "counts_ok s"
  shows "counts_ok s1" "0 \<le> n" "n \<le> 536870911" "unseen s1 = new" "new = -1 \<or> found_ok n s1"
    "expunged s1 = 0" "deletions s1 = 0"
    "poll_pass s \<le> 1 \<Longrightarrow> n = 0 \<Longrightarrow> \<exists>s2. first_poll s folder = Some (0, s2) \<and> \<not> do_idle s2"
proof -
  obtain r s2 where p: "(if poll_pass s > 1 then later_poll s else first_poll s folder) = Some (r, s2)"
    using assms(1) by (auto simp: imap_getrange_def split: bind_splits)
  then have c2: "counts_ok s2" using first_poll_run(1) later_poll_run assms(2) by (auto split: if_splits)
  define s3 where "s3 = s2\<lparr>oldcount := msgcount s2, recentcount := 0, startcount := 1\<rparr>"
  define u where "u = s3\<lparr>unseen_messages := replicate (nat (msgcount s2)) 0, unseen := 0\<rparr>"
  have r: "r = 0" using assms(1) p by (auto simp: imap_getrange_def split: if_splits)
  have c: "counts_ok u" "counts_ok s3" "found_ok (msgcount s2) u"
    using c2 by (auto simp: u_def s3_def counts_ok_def found_ok_def)
  have "counts_ok s1 \<and> n = msgcount s2 \<and> unseen s1 = new \<and> (new = -1 \<or> found_ok n s1) \<and> expunged s1 = 0 \<and> deletions s1 = 0"
  proof (cases "\<not> fetchall (opt (iopts s3)) \<and> msgcount s2 > 0")
    case False
    then show ?thesis using assms(1) p r c by (auto simp: imap_getrange_def Let_def s3_def counts_ok_def)
  next
    case True
    then obtain s4 where s4: "imap_search u (msgcount s2) = Some (0, s4)" "n = msgcount s2" "new = unseen s4"
      "s1 = s4\<lparr>expunged := 0, deletions := 0\<rparr>"
      using assms(1) p r by (auto simp: imap_getrange_def Let_def s3_def u_def PS_SUCCESS_def split: bind_splits if_splits)
    then show ?thesis using c finding.search [OF s4(1)] counting.search [OF s4(1)]
      by (auto simp: counts_kept_def found_kept_def counts_ok_def found_ok_def)
  qed
  then show "counts_ok s1" "0 \<le> n" "n \<le> 536870911" "unseen s1 = new" "new = -1 \<or> found_ok n s1" "expunged s1 = 0" "deletions s1 = 0"
    using c2 by (auto simp: counts_ok_def)
  show "\<exists>s2. first_poll s folder = Some (0, s2) \<and> \<not> do_idle s2" if "poll_pass s \<le> 1" "n = 0"
    using that p r first_poll_run(2) [of s folder 0 s2] assms(2)
      \<open>counts_ok s1 \<and> n = msgcount s2 \<and> unseen s1 = new \<and> (new = -1 \<or> found_ok n s1) \<and> expunged s1 = 0 \<and> deletions s1 = 0\<close> by auto
qed

text \<open>A message is old exactly when the search has not found it, and all cells that are read are there.\<close>

lemma is_old_found: "found_ok n s \<Longrightarrow> imap_is_old s nr = Some (word_of_int nr \<notin> set (take (nat (unseen s)) (unseen_messages s)))"
  by (auto simp: imap_is_old_def Let_def found_ok_def)

end
