(* ===== verification/ImapLogin.thy ===== *)
theory ImapLogin
  imports ImapSpec
begin

section \<open>What the login of an IMAP session sends\<close>

subsection \<open>Quoted strings\<close>

definition quote_chars :: "string \<Rightarrow> string" where
  "quote_chars raw = concat (map (\<lambda>c. if c = BACKSLASH \<or> c = DQUOTE then [BACKSLASH, c] else [c]) raw)"

text \<open>The reader of a quoted string of RFC 1730: the string and the text behind the closing quote.\<close>

fun read_chars :: "string \<Rightarrow> (string \<times> string) option" where
  "read_chars [] = None"
| "read_chars (c # s) =
     (if c = DQUOTE then Some ([], s)
      else if c = BACKSLASH then
        (case s of [] \<Rightarrow> None | d # t \<Rightarrow> map_option (\<lambda>(w, r). (d # w, r)) (read_chars t))
      else map_option (\<lambda>(w, r). (c # w, r)) (read_chars s))"

definition read_quoted :: "string \<Rightarrow> (string \<times> string) option" where
  "read_quoted s = (case s of [] \<Rightarrow> None | c # t \<Rightarrow> if c = DQUOTE then read_chars t else None)"

lemma quote_chars_simps [simp]:
  "quote_chars [] = []"
  "quote_chars (c # raw) = (if c = BACKSLASH \<or> c = DQUOTE then [BACKSLASH, c] else [c]) @ quote_chars raw"
  by (simp_all add: quote_chars_def)

lemma length_quote_chars: "length (quote_chars raw) \<le> 2 * length raw"
  by (induction raw) auto

lemma quote_chars_c_string: "c_string raw \<Longrightarrow> c_string (quote_chars raw)"
  by (induction raw) (auto simp: c_string_def)

lemma read_quote_chars: "read_chars (quote_chars raw @ DQUOTE # r) = Some (raw, r)"
  by (induction raw) auto

lemma canon_loop_eq:
  "length raw \<le> m \<Longrightarrow> j + length (quote_chars raw) < length result \<Longrightarrow>
     canon_loop result j raw m = Some (overwrite result j (quote_chars raw @ [NUL]))"
proof (induction raw arbitrary: result j m)
  case Nil
  then show ?case using overwrite_update [of j result NUL "[]"] by simp
next
  case (Cons c raw)
  obtain k where m: "m = Suc k" "length raw \<le> k" using Cons.prems(1) by (cases m) auto
  define w where "w = (if c = BACKSLASH \<or> c = DQUOTE then [BACKSLASH, c] else [c])"
  define r1 where "r1 = overwrite result j w"
  have wl: "j + length w + length (quote_chars raw) < length result" using Cons.prems(2) by (auto simp: w_def)
  then have l1: "length r1 = length result" by (simp add: r1_def)
  have "canon_loop result j (c # raw) m = canon_loop r1 (j + length w) raw k"
  proof (cases "c = BACKSLASH \<or> c = DQUOTE")
    case True
    then have "(result[j := BACKSLASH])[Suc j := c] = r1"
      using wl overwrite_update [of j result BACKSLASH "[c]"] overwrite_update [of "Suc j" "result[j := BACKSLASH]" c "[]"]
      by (simp add: r1_def w_def)
    then show ?thesis using True wl m(1) by (simp add: w_def)
  next
    case False
    then have "result[j := c] = r1" using wl overwrite_update [of j result c "[]"] by (simp add: r1_def w_def)
    then show ?thesis using False wl m(1) by (simp add: w_def)
  qed
  also have "\<dots> = Some (overwrite r1 (j + length w) (quote_chars raw @ [NUL]))"
    using Cons.IH [OF m(2)] wl l1 by simp
  also have "overwrite r1 (j + length w) (quote_chars raw @ [NUL]) = overwrite result j (quote_chars (c # raw) @ [NUL])"
    using wl by (simp add: r1_def overwrite_def w_def [symmetric] min_def ac_simps)
  finally show ?case .
qed

lemma quoted_eq:
  assumes "c_string raw"
  shows "quoted_arg raw = Some (DQUOTE # quote_chars raw @ [DQUOTE])"
proof -
  have "length (quote_chars raw) < length (replicate (2 * length raw + 1) NUL)" using length_quote_chars [of raw] by simp
  then have "imap_canonicalize (replicate (2 * length raw + 1) NUL) raw (2 * length raw + 1)
      = Some (overwrite (replicate (2 * length raw + 1) NUL) 0 (quote_chars raw @ [NUL]))"
    using canon_loop_eq [of raw "2 * length raw + 1" 0 "replicate (2 * length raw + 1) NUL"]
    unfolding imap_canonicalize_def by simp
  then show ?thesis using quote_chars_c_string [OF assms] by (simp add: quoted_arg_def cstr_of_overwrite_0)
qed

lemma login_eq:
  assumes "auth (iopts s) = A_PASSWORD" "c_string (ruser (iopts s))" "c_string (pwd (iopts s))"
  shows "imap_login_step s ok0 = imap_transact s (''LOGIN '' @ (DQUOTE # quote_chars (ruser (iopts s)) @ [DQUOTE]) @ [SP]
      @ (DQUOTE # quote_chars (pwd (iopts s)) @ [DQUOTE]))"
  using assms by (simp add: imap_login_step_def quoted_eq)

subsection \<open>The certificate\<close>

text \<open>The check of the length is that of the encoded text divided by four.\<close>

lemma authcert_run:
  assumes "name \<noteq> []" "length name \<le> 755"
  shows "do_authcert s cmd name =
    (if length name \<le> 189 then imap_transact s (cmd @ '' EXTERNAL '' @ to64frombits (bytes_of name)) else None)"
proof -
  have "length name div 3 + (if length name mod 3 \<noteq> 0 then 4 else 0) < 256" using assms(2) by auto
  moreover have "length (to64frombits (bytes_of name)) + 1 > 256 \<longleftrightarrow> \<not> length name \<le> 189"
    unfolding length_to64frombits length_bytes_of by presburger
  ultimately show ?thesis using assms(1) by (simp add: do_authcert_def Let_def)
qed

subsection \<open>What is written in clear\<close>

definition tagged_line :: "nat \<Rightarrow> string \<Rightarrow> string" where
  "tagged_line t cmd = tag_of t @ SP # cmd @ [CR, LF]"

text \<open>The connection at the start of a session that is to be protected.\<close>

definition plain_link :: "imap \<Rightarrow> bool" where
  "plain_link s \<longleftrightarrow> tagged (conn s) \<and> \<not> suppress_tags (conn s) \<and> \<not> tls (conn s)"

lemma transact_clear:
  assumes "imap_transact s cmd = Some (r, s1)" "plain_link s" "istage s \<noteq> STAGE_IDLE" "length cmd \<le> 100"
  shows "\<exists>t k. clear_text (conn s1) = clear_text (conn s) @ take k (tagged_line t cmd)"
    "same_session s s1" "plain_link s1"
proof -
  have ll: "length (tag_of n) = 5" for n by (simp add: tag_of_def show4_def)
  define ch1 where "ch1 = (conn s)\<lparr>tagnum := tagnum (conn s) + 1\<rparr>"
  define buf where "buf = tagged_line (tagnum (conn s) + 1) cmd"
  have l: "gen_line (conn s) cmd = (buf, ch1)"
    using assms(2,4) ll by (simp add: gen_line_def plain_link_def ch1_def buf_def tagged_line_def MAXLINE_def Let_def)
  obtain w ch2 where w: "sock_write ch1 buf = (w, ch2)" by fastforce
  obtain k where k: "outp (sck ch2) = outp (sck (conn s)) @ take k buf" using sock_write_prefix [OF w] by (auto simp: ch1_def)
  define s2 where "s2 = s\<lparr>conn := ch2, tag := new_tag s\<rparr>"
  have "s1 = s2 \<or> (\<exists>x. imap_ok True s2 = Some (r, x, s1))"
    using assms(1) l w by (auto simp: imap_transact_def Let_def s2_def split: if_splits)
  then have o: "outp (sck (conn s1)) = outp (sck ch2)"
    using quiet.ok assms(3) by (auto simp: silent_def s2_def)
  show same: "same_session s s1" by (rule link.transact [OF assms(1)])
  then show "plain_link s1" using assms(2) by (simp add: same_session_def same_link_def plain_link_def)
  then show "\<exists>t k. clear_text (conn s1) = clear_text (conn s) @ take k (tagged_line t cmd)"
    using o k assms(2) by (auto simp: clear_text_def plain_link_def buf_def)
qed

text \<open>TLS stays, and what was sent before it stays the same.\<close>

definition same_tls :: "imap \<Rightarrow> imap \<Rightarrow> bool" where
  "same_tls s s1 \<longleftrightarrow> (tls (conn s) \<longrightarrow> tls (conn s1) \<and> clear_text (conn s1) = clear_text (conn s))"

lemma same_tls_trans: "same_tls s t \<Longrightarrow> same_tls t u \<Longrightarrow> same_tls s u"
  by (auto simp: same_tls_def)

lemma same_tls_session: "same_session s s1 \<Longrightarrow> same_tls s s1"
  by (auto simp: same_session_def same_tls_def same_link_def clear_text_def)

lemma transact_tls: "imap_transact s cmd = Some (r, s1) \<Longrightarrow> same_tls s s1"
  by (rule same_tls_session) (rule link.transact)

lemma send_tls: "same_tls s (imap_send s cmd)"
  by (rule same_tls_session) (rule link.send)

lemma probe_tls: "imap_capa_probe s = Some (ok, s1) \<Longrightarrow> same_tls s s1"
proof -
  assume p: "imap_capa_probe s = Some (ok, s1)"
  then obtain r s2 where t: "imap_transact (s\<lparr>capabilities := []\<rparr>) ''CAPABILITY'' = Some (r, s2)" "conn s1 = conn s2"
    by (auto simp: imap_capa_probe_def Let_def split: bind_splits if_splits)
  then show ?thesis using transact_tls [OF t(1)] by (simp add: same_tls_def)
qed

lemma probe_clear:
  assumes "imap_capa_probe s = Some (ok, s1)" "plain_link s" "istage s \<noteq> STAGE_IDLE"
  shows "\<exists>t k. clear_text (conn s1) = clear_text (conn s) @ take k (tagged_line t ''CAPABILITY'')"
    "plain_link s1" "iopts s1 = iopts s" "istage s1 = istage s" "preauth s \<longrightarrow> preauth s1"
proof -
  obtain r s2 where t: "imap_transact (s\<lparr>capabilities := []\<rparr>) ''CAPABILITY'' = Some (r, s2)"
    "conn s1 = conn s2" "iopts s1 = iopts s2" "istage s1 = istage s2" "preauth s1 = preauth s2"
    using assms(1) by (auto simp: imap_capa_probe_def Let_def split: bind_splits if_splits)
  note c = transact_clear [OF t(1)]
  show "\<exists>t k. clear_text (conn s1) = clear_text (conn s) @ take k (tagged_line t ''CAPABILITY'')"
    "plain_link s1" "iopts s1 = iopts s" "istage s1 = istage s" "preauth s \<longrightarrow> preauth s1"
    using c t(2-) assms(2,3) by (auto simp: plain_link_def same_session_def)
qed

lemma authcert_tls: "do_authcert s cmd name = Some (r, s1) \<Longrightarrow> same_tls s s1"
  by (auto simp: do_authcert_def Let_def same_tls_def dest: transact_tls [unfolded same_tls_def] split: if_splits)

lemma cram_tls: "imap_cram ctx s = Some (r, s1) \<Longrightarrow> same_tls s s1"
proof -
  assume c: "imap_cram ctx s = Some (r, s1)"
  define s2 where "s2 = imap_send s ''AUTHENTICATE CRAM-MD5''"
  obtain x line ch where g: "gen_recv (conn s2) 1024 = (x, line, ch)" by (metis prod_cases3)
  define s3 where "s3 = s2\<lparr>conn := ch\<rparr>"
  have 3: "same_tls s s3"
    using send_tls [of s "''AUTHENTICATE CRAM-MD5''"] gen_recv_keeps [OF g]
    by (auto simp: same_tls_def s2_def [symmetric] s3_def same_link_def clear_text_def)
  obtain ok sent where d: "do_cram_md5 ctx ''AUTHENTICATE'' (ruser (iopts s)) (pwd (iopts s)) None (x, line) (\<lambda>out. 0) = Some (ok, sent)"
    using c g by (auto simp: imap_cram_def s2_def Let_def split: option.splits)
  show ?thesis
  proof (cases "\<exists>hello out. sent = [hello, out]")
    case True
    then obtain out s4 where t: "imap_transact (s3\<lparr>conn := (conn s3)\<lparr>suppress_tags := True\<rparr>\<rparr>) out = Some (r, s4)"
      "s1 = s4\<lparr>conn := (conn s4)\<lparr>suppress_tags := False\<rparr>\<rparr>"
      using c g d by (auto simp: imap_cram_def s2_def [symmetric] s3_def Let_def split: bind_splits)
    have "same_tls s3 s1" using transact_tls [OF t(1)] t(2) by (auto simp: same_tls_def clear_text_def)
    then show ?thesis using 3 same_tls_trans by blast
  next
    case False
    then have "s1 = s3" using c g d by (auto simp: imap_cram_def s2_def [symmetric] s3_def Let_def split: list.splits)
    then show ?thesis using 3 by simp
  qed
qed

lemma methods_tls: "imap_methods ctx s = Some (r, s1) \<Longrightarrow> same_tls s s1"
proof -
  assume m: "imap_methods ctx s = Some (r, s1)"
  obtain s2 where y: "yahoo_step s = Some s2" using m by (auto simp: imap_methods_def split: bind_splits)
  obtain x ok s3 where e: "external_step s2 = Some (x, ok, s3)" using m y by (auto simp: imap_methods_def split: bind_splits)
  have 2: "same_tls s s2" using y transact_tls by (auto simp: yahoo_step_def Let_def same_tls_def split: option.splits if_splits)
  have 3: "same_tls s2 s3"
    using e by (auto simp: external_step_def Let_def dest!: authcert_tls split: bind_splits if_splits
        intro: same_tls_trans send_tls) (use send_tls in \<open>auto simp: same_tls_def\<close>)
  have l: "same_tls s' s1" if "imap_login_step s' k = Some (r, s1)" for s' k
    using that transact_tls by (auto simp: imap_login_step_def same_tls_def split: bind_splits if_splits)
  have "same_tls s3 s1"
  proof (cases x)
    case (Some v)
    then show ?thesis using m y e by (auto simp: imap_methods_def same_tls_def)
  next
    case None
    obtain x2 ok2 s4 where c: "cram_step ctx s3 ok = Some (x2, ok2, s4)"
      using m y e None by (auto simp: imap_methods_def split: bind_splits)
    have "same_tls s3 s4" using c cram_tls by (auto simp: cram_step_def same_tls_def split: bind_splits if_splits)
    moreover have "same_tls s4 s1" using m y e None c l by (cases x2) (auto simp: imap_methods_def same_tls_def)
    ultimately show ?thesis by (rule same_tls_trans)
  qed
  then show ?thesis using 2 3 same_tls_trans by blast
qed

lemma starttls_must:
  assumes "starttls_step ssl s = Some (r, s1)" "must_starttls (opt (iopts s))" "plain_link s" "istage s \<noteq> STAGE_IDLE"
  shows "\<exists>t k. clear_text (conn s1) = clear_text (conn s) @ take k (tagged_line t ''STARTTLS'')"
    "r = None \<or> r = Some 0 \<Longrightarrow> tls (conn s1)"
proof -
  have m: "maybe_starttls (opt (iopts s))" using assms(2) by (simp add: must_starttls_def)
  obtain ok s2 where t: "imap_transact s ''STARTTLS'' = Some (ok, s2)"
    using assms(1,2) m by (auto simp: starttls_step_def Let_def split: bind_splits)
  note c = transact_clear [OF t assms(3,4), simplified]
  obtain n k where k: "clear_text (conn s2) = clear_text (conn s) @ take k (tagged_line n ''STARTTLS'')" using c(1) by blast
  obtain good s3 where g: "(if ok = PS_SUCCESS then imap_start_tls ssl s2 else (False, s2)) = (good, s3)" by fastforce
  have 3: "clear_text (conn s3) = clear_text (conn s2)" "good \<Longrightarrow> tls (conn s3)"
    using g c(3) by (auto simp: imap_start_tls_def clear_text_def plain_link_def Let_def split: if_splits prod.splits)
  have "(\<exists>t k. clear_text (conn s1) = clear_text (conn s) @ take k (tagged_line t ''STARTTLS''))
      \<and> (r = None \<or> r = Some 0 \<longrightarrow> tls (conn s1))"
  proof (cases good)
    case False
    then have "r = Some PS_SOCKET" "s1 = s3" using assms(1,2) m t g by (auto simp: starttls_step_def Let_def)
    then show ?thesis using 3 k by (auto simp: PS_SOCKET_def)
  next
    case True
    then obtain ok2 where "imap_capa_probe s3 = Some (ok2, s1)"
      using assms(1,2) m t g by (auto simp: starttls_step_def Let_def split: bind_splits)
    then have "same_tls s3 s1" by (rule probe_tls)
    then show ?thesis using 3 True k by (auto simp: same_tls_def)
  qed
  then show "\<exists>t k. clear_text (conn s1) = clear_text (conn s) @ take k (tagged_line t ''STARTTLS'')"
    "r = None \<or> r = Some 0 \<Longrightarrow> tls (conn s1)" by auto
qed

text \<open>With mandatory TLS nothing but these two commands is sent in clear; only a PREAUTH ends without it.\<close>

lemma imap_getauth_must:
  assumes "must_starttls (opt (iopts s))" "auth (iopts s) \<noteq> A_SSH" "plain_link s" "istage s = STAGE_GETAUTH"
    "imap_getauth ssl ctx s = Some (ok, s1)"
  shows "\<exists>t u i j. clear_text (conn s1) = clear_text (conn s) @ take i (tagged_line t ''CAPABILITY'') @ take j (tagged_line u ''STARTTLS'')"
    "ok = 0 \<Longrightarrow> tls (conn s1) \<or> (\<exists>s2. imap_capa_probe (s\<lparr>expunge_period := expunge_period s2\<rparr>) = Some (0, s2) \<and> preauth s2)"
proof -
  define p where "p = (if expunge (iopts s) \<noteq> 0 then max 0 (expunge (iopts s)) else 1)"
  define s0 where "s0 = s\<lparr>expunge_period := p\<rparr>"
  have s0: "plain_link s0" "istage s0 \<noteq> STAGE_IDLE" "conn s0 = conn s" "iopts s0 = iopts s"
    using assms(3,4) by (simp_all add: s0_def plain_link_def STAGE_defs)
  obtain r s2 where pr: "imap_capa_probe s0 = Some (r, s2)"
    using assms(5) by (auto simp: imap_getauth_def s0_def p_def Let_def split: bind_splits)
  note c = probe_clear [OF pr s0(1,2)]
  obtain t i where ti: "clear_text (conn s2) = clear_text (conn s) @ take i (tagged_line t ''CAPABILITY'')"
    using c(1) s0(3) by auto
  have per: "expunge_period s2 = p"
  proof -
    obtain x s3 where "imap_transact (s0\<lparr>capabilities := []\<rparr>) ''CAPABILITY'' = Some (x, s3)" "expunge_period s2 = expunge_period s3"
      using pr by (auto simp: imap_capa_probe_def Let_def split: bind_splits if_splits)
    then show ?thesis using link.transact [of "s0\<lparr>capabilities := []\<rparr>"] by (auto simp: same_session_def s0_def)
  qed
  have "(\<exists>t u i j. clear_text (conn s1) = clear_text (conn s) @ take i (tagged_line t ''CAPABILITY'') @ take j (tagged_line u ''STARTTLS''))
      \<and> (ok = 0 \<longrightarrow> tls (conn s1) \<or> r = 0 \<and> preauth s2)"
  proof (cases "r \<noteq> 0 \<or> preauth s2")
    case True
    then have "conn s1 = conn s2 \<and> (ok = 0 \<longrightarrow> r = 0 \<and> preauth s2)"
      using assms(5) pr by (auto simp: imap_getauth_def s0_def p_def Let_def split: if_splits)
    then show ?thesis using ti by (intro conjI exI [of _ t] exI [of _ i] exI [of _ 0]) auto
  next
    case False
    then obtain x s3 where st: "starttls_step ssl s2 = Some (x, s3)" "x = Some ok \<and> s1 = s3 \<or> x = None \<and> imap_methods ctx s3 = Some (ok, s1)"
      using assms(2,5) pr c(3) s0(4)
      by (auto simp: imap_getauth_def s0_def p_def Let_def split: bind_splits if_splits option.splits)
    have "must_starttls (opt (iopts s2))" "istage s2 \<noteq> STAGE_IDLE" using assms(1) c(3,4) s0(2,4) by simp_all
    note m = starttls_must [OF st(1) this(1) c(2) this(2)]
    obtain u j where uj: "clear_text (conn s3) = clear_text (conn s2) @ take j (tagged_line u ''STARTTLS'')" using m(1) by blast
    have "clear_text (conn s1) = clear_text (conn s3) \<and> (ok = 0 \<longrightarrow> tls (conn s1))"
      using st(2) m(2) methods_tls [of ctx s3 ok s1] by (auto simp: same_tls_def)
    then show ?thesis using ti uj by (intro conjI exI [of _ t] exI [of _ u] exI [of _ i] exI [of _ j]) auto
  qed
  then show "\<exists>t u i j. clear_text (conn s1) = clear_text (conn s) @ take i (tagged_line t ''CAPABILITY'') @ take j (tagged_line u ''STARTTLS'')"
    "ok = 0 \<Longrightarrow> tls (conn s1) \<or> (\<exists>s2. imap_capa_probe (s\<lparr>expunge_period := expunge_period s2\<rparr>) = Some (0, s2) \<and> preauth s2)"
    using pr per unfolding s0_def by auto
qed

text \<open>With PREAUTH the function returns before it looks at TLS.\<close>

lemma imap_getauth_preauth:
  assumes "preauth s" "imap_capa_probe (s\<lparr>expunge_period := (if expunge (iopts s) \<noteq> 0 then max 0 (expunge (iopts s)) else 1)\<rparr>) = Some (0, s1)"
  shows "imap_getauth ssl ctx s = Some (PS_SUCCESS, s1\<lparr>preauth := False\<rparr>)" "tls (conn s1) = tls (conn s)"
proof -
  define s0 where "s0 = s\<lparr>expunge_period := (if expunge (iopts s) \<noteq> 0 then max 0 (expunge (iopts s)) else 1)\<rparr>"
  obtain r s2 where t: "imap_transact (s0\<lparr>capabilities := []\<rparr>) ''CAPABILITY'' = Some (r, s2)" "conn s1 = conn s2" "preauth s1 = preauth s2"
    using assms(2) by (auto simp: imap_capa_probe_def s0_def [symmetric] Let_def split: bind_splits if_splits)
  have "same_session (s0\<lparr>capabilities := []\<rparr>) s2" by (rule link.transact [OF t(1)])
  then have "preauth s1" "tls (conn s1) = tls (conn s)" using assms(1) t(2,3) by (auto simp: same_session_def same_link_def s0_def)
  then show "imap_getauth ssl ctx s = Some (PS_SUCCESS, s1\<lparr>preauth := False\<rparr>)" "tls (conn s1) = tls (conn s)"
    using assms(2) by (simp_all add: imap_getauth_def)
qed

end
