(* ===== verification/ImapProps.thy ===== *)
theory ImapProps
  imports ImapMail ImapLogin
begin

section \<open>Properties of an IMAP session\<close>

subsection \<open>Reading a line in one piece\<close>

text \<open>When the system hands out all that is there, a line is read at once; an equation to evaluate sessions with.\<close>

lemma dropWhile_line: "c \<notin> set l \<Longrightarrow> dropWhile (\<lambda>d. d \<noteq> c) (l @ c # s) = c # s"
  by (induction l) auto

lemma SockRead_one:
  assumes "avail s = []" "inp s = l @ LF # r" "LF \<notin> set l" "length l + 2 < n"
  shows "SockRead s n = (int (length l + 1), l @ [LF], s\<lparr>inp := r\<rparr>)"
proof -
  obtain k where "n = length l + 3 + k" using assms(4) le_Suc_ex [of "length l + 3" n] by auto
  then obtain m where m: "n - Suc 0 = length l + Suc m" by simp
  have t: "take (n - Suc 0) (inp s) = l @ LF # take m r" by (simp add: m assms(2))
  have c: "strchr (l @ LF # x) LF = Some (length l)" for x
    using takeWhile_line [OF assms(3), of x] by (simp add: strchr_def)
  have "read_turn s (n - Suc 0) = Some (l @ [LF], True, fm_read s (length l + 1))"
    using assms(1) by (simp add: read_turn_def fm_peek_def t c Let_def)
  moreover have "s\<lparr>inp := r, avail := []\<rparr> = s\<lparr>inp := r\<rparr>" using assms(1) by (cases s) simp
  ultimately show ?thesis
    using assms(1,2) m by (simp add: SockRead_def fm_read_def) (subst read_loop.simps, simp)
qed

lemma SockRead_code [code]:
  "SockRead s n =
     (let l = takeWhile (\<lambda>c. c \<noteq> LF) (inp s) in
      if avail s = [] \<and> LF \<in> set (inp s) \<and> length l + 2 < n
      then (int (length l + 1), l @ [LF], s\<lparr>inp := tl (dropWhile (\<lambda>c. c \<noteq> LF) (inp s))\<rparr>)
      else if n - 1 < 1 then (-1, [], s) else read_loop s (n - 1) [])"
proof (cases "avail s = [] \<and> LF \<in> set (inp s) \<and> length (takeWhile (\<lambda>c. c \<noteq> LF) (inp s)) + 2 < n")
  case True
  then obtain l r where i: "inp s = l @ LF # r" "LF \<notin> set l" using split_list_first [of LF "inp s"] by blast
  have w: "takeWhile (\<lambda>c. c \<noteq> LF) (inp s) = l" "dropWhile (\<lambda>c. c \<noteq> LF) (inp s) = LF # r"
    using i by (simp_all add: takeWhile_line dropWhile_line)
  then show ?thesis using True SockRead_one [of s l r n] i by (simp add: Let_def)
qed (auto simp: SockRead_def Let_def)

lemma strtoul_code [code]:
  "strtoul s =
     (case scan_number s of
        None \<Rightarrow> None
      | Some (neg, n, r) \<Rightarrow>
          Some (if n \<ge> 1000 \<and> n \<ge> 2 ^ 64 then (-1, True, r) else (if neg then - of_nat n else of_nat n, False, r)))"
  by (auto simp: strtoul_def split: option.split)

declare search_numbers.simps [code] untagged_lines.simps [code]

subsection \<open>The codes of responses\<close>

definition untagged_text :: "string option \<Rightarrow> bool" where
  "untagged_text t = (case t of None \<Rightarrow> False | Some buf \<Rightarrow> char_at buf 0 = CHR ''*'' \<and> char_at buf 1 = SP)"

lemma turn_codes:
  assumes "response_turn a s buf = (Return r t, s1)"
  shows "r \<in> {PS_UNTAGGED, PS_PROTOCOL, PS_LOCKBUSY, PS_IDLETIMEOUT}" "r = PS_UNTAGGED \<Longrightarrow> a \<and> untagged_text t"
    "r \<noteq> PS_UNTAGGED \<Longrightarrow> t = None"
proof -
  define us where "us = (if char_at buf 0 = CHR ''*'' \<and> char_at buf 1 = SP then imap_untagged_response s buf else (PS_SUCCESS, s))"
  obtain ok s2 where u: "us = (ok, s2)" by fastforce
  have c: "ok \<in> {PS_SUCCESS, PS_UNTAGGED, PS_PROTOCOL, PS_LOCKBUSY}"
    "ok = PS_UNTAGGED \<Longrightarrow> char_at buf 0 = CHR ''*'' \<and> char_at buf 1 = SP"
    using u by (auto simp: us_def imap_untagged_response_def iPS_defs split: if_splits option.splits)
  have "(r = PS_UNTAGGED \<and> a \<and> t = Some buf \<and> ok = PS_UNTAGGED) \<or> (r = ok \<and> t = None \<and> ok \<noteq> PS_UNTAGGED \<and> ok \<noteq> PS_SUCCESS)
      \<or> (r = PS_IDLETIMEOUT \<and> t = None)"
    using assms u unfolding response_turn_def us_def [symmetric] by (auto simp: Let_def split: if_splits prod.splits)
  then show "r \<in> {PS_UNTAGGED, PS_PROTOCOL, PS_LOCKBUSY, PS_IDLETIMEOUT}" "r = PS_UNTAGGED \<Longrightarrow> a \<and> untagged_text t"
    "r \<noteq> PS_UNTAGGED \<Longrightarrow> t = None"
    using c by (auto simp: untagged_text_def iPS_defs)
qed

definition response_codes :: "int set" where
  "response_codes = {PS_SUCCESS, PS_SOCKET, PS_AUTHFAIL, PS_PROTOCOL, PS_ERROR, PS_LOCKBUSY, PS_IDLETIMEOUT}"

lemma untagged_no_code: "PS_UNTAGGED \<notin> response_codes"
  by (simp add: response_codes_def iPS_defs)

lemma response_typed:
  "imap_response a s rs = Some (r, t, s1, rs1) \<Longrightarrow>
     r \<in> insert PS_UNTAGGED response_codes \<and> (r = PS_UNTAGGED \<longrightarrow> a \<and> untagged_text t) \<and> (t \<noteq> None \<longrightarrow> r \<in> {PS_SUCCESS, PS_UNTAGGED})"
proof (induction a s rs rule: imap_response.induct)
  case (1 a s rs)
  obtain ok buf s2 rs2 where r: "imap_recv s rs = Some (ok, buf, s2, rs2)"
    using "1.prems" by (subst (asm) imap_response.simps) (auto split: option.splits)
  obtain tn s3 where t: "response_turn a s2 buf = (tn, s3)" by fastforce
  show ?case
  proof (cases "ok = 0")
    case False
    then have "r = ok \<and> t = None" using "1.prems" r by (subst (asm) imap_response.simps) simp
    then show ?thesis using imap_recv_code [OF r] False by (auto simp: response_codes_def iPS_defs)
  next
    case True
    show ?thesis
    proof (cases tn)
      case More
      then have "imap_response a s3 rs2 = Some (r, t, s1, rs1)" using "1.prems" r True t by (subst (asm) imap_response.simps) simp
      then show ?thesis using "1.IH" [OF r refl refl refl _ t [symmetric] More] True by simp
    next
      case (Return q v)
      then have "q = r \<and> v = t" using "1.prems" r True t by (subst (asm) imap_response.simps) simp
      then show ?thesis using turn_codes [OF t [unfolded Return]] by (auto simp: response_codes_def)
    next
      case Final
      show ?thesis
      proof (cases "tag s3 = []")
        case True'': True
        then have "r = PS_SUCCESS" using "1.prems" r True t Final by (subst (asm) imap_response.simps) simp
        then show ?thesis by (simp add: response_codes_def iPS_defs)
      next
        case False
        then have "tagged_response (istage s3) buf = Some (r, t)"
          using "1.prems" r True t Final by (subst (asm) imap_response.simps) auto
        then show ?thesis by (auto simp: tagged_response_def Let_def response_codes_def iPS_defs split: if_splits)
      qed
    qed
  qed
qed

lemma ok_typed: "imap_ok a s = Some (r, t, s1) \<Longrightarrow> r \<in> response_codes"
proof (induction a s rule: imap_ok.induct)
  case (1 a s)
  obtain ok t2 s2 r2 where r: "imap_response a s None = Some (ok, t2, s2, r2)"
    using "1.prems" by (subst (asm) imap_ok.simps) (auto split: option.splits)
  show ?case
  proof (cases "ok = PS_UNTAGGED")
    case True
    then have "imap_ok a s2 = Some (r, t, s1)" using "1.prems" r by (subst (asm) imap_ok.simps) simp
    then show ?thesis using "1.IH" [OF r refl refl refl True] by simp
  next
    case False
    then show ?thesis using "1.prems" r response_typed [OF r] by (subst (asm) imap_ok.simps) auto
  qed
qed

lemma transact_typed: "imap_transact s cmd = Some (r, s1) \<Longrightarrow> r \<in> response_codes"
  by (auto simp: imap_transact_def Let_def response_codes_def dest!: ok_typed split: if_splits prod.splits)

subsection \<open>Waiting for mail\<close>

lemma first_poll_waits:
  assumes "first_poll s folder = Some (0, s1)" "do_idle s"
  shows "msgcount s1 \<noteq> 0"
proof -
  obtain r s2 where t: "imap_transact (s\<lparr>oldcount := 0, msgcount := 0\<rparr>) (select_cmd s folder) = Some (r, s2)"
    using assms(1) by (auto simp: first_poll_def split: bind_splits)
  have d2: "do_idle s2" using link.transact [OF t] assms(2) by (simp add: same_session_def)
  obtain r3 s3 where e: "(if \<not> check_only s2 \<and> \<not> keep (opt (iopts s2)) \<and> msgcount s2 > 0 then internal_expunge s2
        else Some (0, s2)) = Some (r3, s3)" "(if r3 \<noteq> 0 then Some (r3, s3)
       else if msgcount s3 = 0 \<and> do_idle s3 then idle_while (\<lambda>s. msgcount s = 0) s3 else Some (0, s3)) = Some (0, s1)"
    using assms(1) t by (auto simp: first_poll_def Let_def split: bind_splits if_splits)
  have "do_idle s3"
    using e(1) d2 by (auto split: if_splits elim!: internal_expunge_run simp: same_session_def)
  then show ?thesis using e(2) idle_while_run [of "\<lambda>s. msgcount s = 0" s3 0 s1] by (auto split: if_splits)
qed

lemma getrange_waits:
  assumes "imap_getrange s folder = Some (0, n, new, s1)" "counts_ok s" "poll_pass s \<le> 1" "do_idle s"
  shows "n > 0"
proof -
  obtain r s2 where p: "first_poll s folder = Some (r, s2)" "r = 0 \<longrightarrow> n = msgcount s2" "r = 0"
    using assms(1,3) by (auto simp: imap_getrange_def Let_def split: bind_splits if_splits)
  then show ?thesis using first_poll_waits [of s folder s2] getrange_run(2) [OF assms(1,2)] assms(4) by auto
qed

subsection \<open>The command of the login\<close>

lemma login_line:
  assumes "auth (iopts s) = A_PASSWORD" "c_string (ruser (iopts s))" "c_string (pwd (iopts s))"
    "length (ruser (iopts s)) + length (pwd (iopts s)) \<le> 4000" "plain_link s"
  shows "\<exists>line. imap_login_step s ok0 = imap_transact s (''LOGIN '' @ line)
    \<and> fst (gen_line (conn s) (''LOGIN '' @ line)) = tagged_line (tagnum (conn s) + 1) (''LOGIN '' @ line)
    \<and> (\<exists>r. read_quoted line = Some (ruser (iopts s), SP # r) \<and> read_quoted r = Some (pwd (iopts s), []))"
proof -
  define q where "q w = DQUOTE # quote_chars w @ [DQUOTE]" for w
  define line where "line = q (ruser (iopts s)) @ [SP] @ q (pwd (iopts s))"
  have ll: "length (tag_of n) = 5" for n by (simp add: tag_of_def show4_def)
  have "length line \<le> 8010"
    using length_quote_chars [of "ruser (iopts s)"] length_quote_chars [of "pwd (iopts s)"] assms(4) by (simp add: line_def q_def)
  then have "fst (gen_line (conn s) (''LOGIN '' @ line)) = tagged_line (tagnum (conn s) + 1) (''LOGIN '' @ line)"
    using assms(5) ll by (simp add: gen_line_def plain_link_def tagged_line_def MAXLINE_def Let_def)
  moreover have "read_quoted line = Some (ruser (iopts s), SP # q (pwd (iopts s)))"
    using read_quote_chars [of "ruser (iopts s)" "SP # q (pwd (iopts s))"] by (simp add: read_quoted_def line_def q_def)
  moreover have "read_quoted (q (pwd (iopts s))) = Some (pwd (iopts s), [])"
    using read_quote_chars [of "pwd (iopts s)" "[]"] by (simp add: read_quoted_def q_def)
  ultimately show ?thesis using login_eq [OF assms(1-3)] unfolding line_def q_def by (intro exI [of _ line]) (simp add: line_def q_def)
qed

lemma search_hangs:
  assumes "found_ok n s" "list_all number ws" "int (length (listed n ws)) < n - unseen s"
    and "w \<noteq> []" "\<not> isspace (hd w)" "\<not> isdigit (hd w)" "hd w \<noteq> CHR ''+''" "hd w \<noteq> CHR ''-''"
  shows "search_line s n (''* SEARCH'' @ words_text ws @ SP # w) = None"
proof -
  obtain c v where w: "w = c # v" using assms(4) by (cases w) auto
  have f: "find_sub (''* SEARCH'' @ t) ''* SEARCH'' = Some 0" for t by simp
  obtain s1 where s1: "search_numbers s n (words_text ws @ SP # w) = search_numbers s1 n (SP # w)" "unseen s1 < n"
    using search_numbers_reads [OF assms(1,2), of "SP # w"] assms(3) by (auto simp: isdigit_def code_def)
  have d: "dropWhile isspace (SP # w) = w" using assms(5) w by (simp add: isspace_def)
  have "strtoul w = None" using assms(6-8) w by (simp add: strtoul_def scan_number_def sign_split_def)
  then have "search_numbers s1 n (SP # w) = None" using search_numbers_stuck [of s1 n "SP # w"] s1(2) d assms(4) by simp
  then show ?thesis using s1(1) f by (simp add: search_line_def)
qed

lemma search_reads:
  assumes "found_ok n s" "list_all number ws" "int (length (listed n ws)) \<le> n - unseen s"
  shows "\<exists>s1. search_line s n (''* SEARCH'' @ words_text ws) = Some s1 \<and> unseen s1 = unseen s + int (length (listed n ws))
    \<and> unseen_messages s1 = overwrite (unseen_messages s) (nat (unseen s)) (map of_nat (listed n ws))"
proof -
  have f: "find_sub (''* SEARCH'' @ t) ''* SEARCH'' = Some 0" for t by simp
  have "search_numbers s1 n [] = Some s1" for s1 by (simp add: search_numbers.simps)
  then show ?thesis using search_numbers_reads [OF assms, of "[]"] f by (auto simp: search_line_def)
qed

subsection \<open>Properties\<close>

definition mail_options :: imap_options where
  "mail_options = \<lparr>ruser = ''me'', pwd = [DQUOTE], auth = A_PASSWORD, pollname = ''h'', via = None,
     opt = \<lparr>password = [DQUOTE], protocol = P_POP3, authenticate = A_PASSWORD, service = None, sslproto = None, use_ssl = False,
       sslcertck = True, sslfingerprint = None, wehaveauthed = False, uidl = False, fetchall = False, keep = True, flush = False,
       fastuidl = 0, fastuidlcount = 0\<rparr>, idle = True, expunge = 0\<rparr>"

definition mail_session :: "string \<Rightarrow> int \<Rightarrow> imap" where
  "mail_session input st = \<lparr>conn = \<lparr>sck = \<lparr>inp = input, avail = [], wroom = [], outp = []\<rparr>, tls = False, clear = [], tagged = True,
       suppress_tags = False, tagnum = 0\<rparr>, iopts = mail_options, istage = st, tag = [], mytimeout = 300, poll_pass = 1,
     check_only = False, alarms = [], elapsed = [], preauth = False, capabilities = [], imap_version = IMAP4, do_idle = True,
     has_idle = True, imap_peek_capable = False, expunge_period = 1, msgcount = 0, oldcount = 0, recentcount = 0, unseen = 0,
     deletions = 0, startcount = 1, expunged = 0, unseen_messages = [], actual_deletions = 0, saved_timeout = 0, idle_timeout = 0\<rparr>"


definition cut_login :: "int \<times> imap" where
  "cut_login = the (imap_getauth (\<lambda>s. (False, s)) cleared (mail_session (''A0001 OK'' @ [CR, LF]) STAGE_GETAUTH))"


text \<open>
  A server that greets with PREAUTH, or anyone who can change its greeting, turns mandatory TLS off: the login
  succeeds at once and the session goes on without TLS.
\<close>

theorem preauth_skips_mandatory_tls:
  "preauth s \<Longrightarrow> must_starttls (opt (iopts s)) \<Longrightarrow> \<not> tls (conn s) \<Longrightarrow>
     imap_capa_probe (s\<lparr>expunge_period := (if expunge (iopts s) \<noteq> 0 then max 0 (expunge (iopts s)) else 1)\<rparr>) = Some (0, s1) \<Longrightarrow>
     \<exists>s2. imap_getauth ssl ctx s = Some (PS_SUCCESS, s2) \<and> \<not> tls (conn s2)"
  using imap_getauth_preauth by auto

definition greeted :: imap where
  "greeted = snd (snd (the (imap_ok False (mail_session (''* PREAUTH hi'' @ [CR, LF] @ ''A0001 OK'' @ [CR, LF]) STAGE_GETAUTH))))"

definition probed :: imap where
  "probed = snd (the (imap_capa_probe (greeted\<lparr>expunge_period := 1\<rparr>)))"

theorem preauth_skips_mandatory_tls_witness:
  "\<exists>s2. imap_getauth (\<lambda>s. (True, s)) cleared greeted = Some (PS_SUCCESS, s2) \<and> \<not> tls (conn s2)"
proof -
  have g: "preauth greeted" "must_starttls (opt (iopts greeted))" "\<not> tls (conn greeted)" "expunge (iopts greeted) = 0"
    by code_simp+
  have "map_option fst (imap_capa_probe (greeted\<lparr>expunge_period := 1\<rparr>)) = Some 0" by code_simp
  then have "imap_capa_probe (greeted\<lparr>expunge_period := 1\<rparr>) = Some (0, probed)" by (auto simp: probed_def)
  then show ?thesis using preauth_skips_mandatory_tls [OF g(1-3), of probed] g(4) by simp
qed

text \<open>
  The reply to SEARCH: the numbers in it that can be messages of the mailbox are stored in their order behind the
  ones that are there, and nothing else is, whatever values the server sends.
\<close>

theorem search_reply_read:
  "found_ok n s \<Longrightarrow> list_all number ws \<Longrightarrow> int (length (listed n ws)) \<le> n - unseen s \<Longrightarrow>
     \<exists>s1. search_line s n (''* SEARCH'' @ words_text ws) = Some s1 \<and> unseen s1 = unseen s + int (length (listed n ws))
       \<and> unseen_messages s1 = overwrite (unseen_messages s) (nat (unseen s)) (map of_nat (listed n ws))"
  by (rule search_reads)

definition three_mails :: imap where
  "three_mails = (mail_session [] STAGE_GETRANGE)\<lparr>unseen_messages := [0, 0, 0]\<rparr>"

theorem search_reply_read_witness:
  "\<exists>s1. search_line three_mails 3 (''* SEARCH'' @ words_text [''2'', ''17'', ''3'']) = Some s1 \<and> unseen_messages s1 = [2, 3, 0]"
proof -
  have "found_ok 3 three_mails" by (simp add: found_ok_def three_mails_def mail_session_def)
  moreover have "list_all number [''2'', ''17'', ''3'']" by code_simp
  moreover have "listed 3 [''2'', ''17'', ''3''] = [2, 3]" by (simp add: listed_def digits_val_def code_def)
  ultimately show ?thesis
    using search_reply_read [of 3 three_mails "[''2'', ''17'', ''3'']"]
    by (auto simp: three_mails_def mail_session_def overwrite_def)
qed

text \<open>
  A word in that reply that is no number makes the client loop without end: the function does not return.
\<close>

theorem search_reply_hangs:
  "found_ok n s \<Longrightarrow> list_all number ws \<Longrightarrow> int (length (listed n ws)) < n - unseen s \<Longrightarrow>
     w \<noteq> [] \<Longrightarrow> \<not> isspace (hd w) \<Longrightarrow> \<not> isdigit (hd w) \<Longrightarrow> hd w \<noteq> CHR ''+'' \<Longrightarrow> hd w \<noteq> CHR ''-'' \<Longrightarrow>
     search_line s n (''* SEARCH'' @ words_text ws @ SP # w) = None"
  by (rule search_hangs)

theorem search_reply_hangs_witness: "search_line three_mails 3 (''* SEARCH'' @ words_text [''2''] @ SP # ''NIL'') = None"
proof (rule search_reply_hangs)
  show "found_ok 3 three_mails" by (simp add: found_ok_def three_mails_def mail_session_def)
  show "list_all number [''2'']" by code_simp
  show "int (length (listed 3 [''2''])) < 3 - unseen three_mails"
    by (simp add: listed_def digits_val_def code_def three_mails_def mail_session_def)
qed (simp_all add: isspace_def isdigit_def code_def)

text \<open>
  C14. After a successful search for the range of messages, whatever the server sent, the count is one whose array of
  \<open>int\<close> has less than \<open>INT_MAX\<close> bytes, the array of unseen messages has as many cells, its used cells hold numbers
  up to the count, and the test whether a message is old never reads outside it.
\<close>

theorem imap_range_in_bounds:
  "counts_ok s \<Longrightarrow> imap_getrange s folder = Some (0, n, new, s1) \<Longrightarrow>
     0 \<le> n \<and> n * 4 \<le> 2147483647 \<and> counts_ok s1 \<and> unseen s1 = new \<and> imap_is_old s1 nr \<noteq> None
     \<and> (new = -1 \<or> 0 \<le> new \<and> new \<le> n \<and> length (unseen_messages s1) = nat n \<and> (\<forall>i < nat new. uint (unseen_messages s1 ! i) \<le> n))"
proof -
  assume a: "counts_ok s" "imap_getrange s folder = Some (0, n, new, s1)"
  note g = getrange_run [OF a(2,1)]
  have "imap_is_old s1 nr \<noteq> None" using g(4,5) is_old_found by (auto simp: imap_is_old_def)
  then show ?thesis using g by (auto simp: found_ok_def)
qed

definition first_mail :: string where
  "first_mail = ''* 1 EXISTS'' @ [CR, LF] @ ''A0001 OK'' @ [CR, LF] @ ''* SEARCH 1'' @ [CR, LF] @ ''A0002 OK'' @ [CR, LF]"

definition first_range :: "int \<times> int \<times> int \<times> imap" where
  "first_range = the (imap_getrange (mail_session first_mail STAGE_GETRANGE) None)"

theorem imap_range_in_bounds_witness:
  "0 \<le> fst (snd first_range) \<and> unseen (snd (snd (snd first_range))) = fst (snd (snd first_range))"
proof -
  let ?s = "mail_session first_mail STAGE_GETRANGE"
  have "map_option fst (imap_getrange ?s None) = Some 0" by code_simp
  then have e: "imap_getrange ?s None = Some (0, fst (snd first_range), fst (snd (snd first_range)), snd (snd (snd first_range)))"
    by (auto simp: first_range_def)
  have "counts_ok ?s" by (simp add: counts_ok_def mail_session_def)
  from imap_range_in_bounds [OF this e, of 1] show ?thesis by simp
qed





text \<open>
  For the certificate login the check of the name's length is wrong: a name of up to 189 characters is sent
  encoded, but a name of 190 to 755 characters passes the check and its encoding overruns the buffer of 256 cells.
\<close>

theorem authcert_overruns:
  "name \<noteq> [] \<Longrightarrow> length name \<le> 755 \<Longrightarrow>
     do_authcert s cmd name =
       (if length name \<le> 189 then imap_transact s (cmd @ '' EXTERNAL '' @ to64frombits (bytes_of name)) else None)"
  by (rule authcert_run)

theorem authcert_overruns_witness:
  "do_authcert (mail_session [] 0) ''AUTHENTICATE'' (replicate 190 CR) = None"
  using authcert_overruns [of "replicate 190 CR" "mail_session [] 0" "''AUTHENTICATE''"] by simp

text \<open>
  Every deletion that succeeds is counted once, as expunged or still to be, so that the numbers of later messages
  are corrected by the right amount; with a period for expunges no full period of deletions is left over.
\<close>

theorem imap_delete_counts:
  "imap_delete s nr = Some (0, s1) \<Longrightarrow>
     expunged s1 + deletions s1 = expunged s + deletions s + 1
     \<and> (expunge_period s > 0 \<longrightarrow> deletions s1 mod expunge_period s1 = 0 \<longrightarrow> deletions s1 = 0)"
  using delete_run [of s nr s1] by simp

definition one_deleted :: "int \<times> imap" where
  "one_deleted = the (imap_delete ((mail_session (''A0001 OK'' @ [CR, LF]) STAGE_FETCH)\<lparr>expunge_period := 2\<rparr>) 1)"

theorem imap_delete_counts_witness: "expunged (snd one_deleted) + deletions (snd one_deleted) = 1"
proof -
  let ?s = "(mail_session (''A0001 OK'' @ [CR, LF]) STAGE_FETCH)\<lparr>expunge_period := 2\<rparr>"
  have "map_option fst (imap_delete ?s 1) = Some 0" by code_simp
  then have "imap_delete ?s 1 = Some (0, snd one_deleted)" by (auto simp: one_deleted_def)
  then show ?thesis using imap_delete_counts [of ?s 1 "snd one_deleted"] by (simp add: mail_session_def)
qed

lemma imap_codes_typed:
  "case imap_response a s rs of
     None \<Rightarrow> True
   | Some (r, t, s1, rs1) \<Rightarrow> r \<in> insert PS_UNTAGGED response_codes \<and> (r = PS_UNTAGGED \<longrightarrow> a \<and> untagged_text t)"
proof (cases "imap_response a s rs")
  case (Some p)
  then show ?thesis using response_typed [of a s rs] by (cases p) simp
qed simp


end
