(* ===== verification/X509.thy ===== *)
theory X509
  imports Prelude
begin

section \<open>Matching host names against certificates (x509_name_match.c)\<close>

text \<open>
  \<open>name_match\<close> as written: the pointers \<open>p1\<close> and \<open>p2\<close> are the strings that start
  there.
\<close>

definition dom_chars :: string where
  "dom_chars = ''0123456789.''"

text \<open>The loop that counts the dots of the pattern after the asterisk.\<close>

function count_dots :: "string \<Rightarrow> nat \<Rightarrow> nat" where
  "count_dots tmp n =
     (if tmp = [] then n
      else if hd tmp = CHR ''.''
           then count_dots (drop (strcspn (tl tmp) ''.'') (tl tmp)) (Suc n)
           else count_dots (drop (strcspn tmp ''.'') tmp) n)"
  by pat_completeness auto
termination
proof (relation "measure (\<lambda>(tmp, n). length tmp)")
  fix tmp :: string and n :: nat
  assume "tmp \<noteq> []" "hd tmp \<noteq> CHR ''.''"
  then show "((drop (strcspn tmp ''.'') tmp, n), tmp, n) \<in> measure (\<lambda>(tmp, n). length tmp)"
    by (cases tmp) (auto simp: strcspn_def)
qed (auto simp: neq_Nil_conv)

declare count_dots.simps [simp del]

definition wildcard_ok :: "string \<Rightarrow> string \<Rightarrow> bool" where
  "wildcard_ok p1 p2 \<longleftrightarrow>
     \<not> strspn (drop (if char_at p1 0 = CHR ''*'' then 1 else 0) p1) dom_chars = length p1
     \<and> \<not> strspn p2 dom_chars = length p2"

definition name_match :: "string \<Rightarrow> string \<Rightarrow> bool" where
  "name_match p1 p2 =
     (if char_at p1 0 = NUL then False
      else if wildcard_ok p1 p2 \<and> char_at p1 0 = CHR ''*'' \<and> char_at p1 1 = CHR ''.'' then
        let p1' = drop 1 p1;
            l1 = length p1';
            l2 = length p2;
            p2' = (if count_dots p1' 0 \<ge> 2 \<and> l2 > l1 then drop (l2 - l1) p2 else p2) in
        strcaseeq p1' p2'
      else strcaseeq p1 p2)"

lemma count_dots_eq: "count_dots tmp n = n + length (filter (\<lambda>c. c = CHR ''.'') tmp)"
proof (induction tmp n rule: count_dots.induct)
  case (1 tmp n)
  have skip: "filter (\<lambda>c. c = CHR ''.'') (drop (strcspn s ''.'') s) = filter (\<lambda>c. c = CHR ''.'') s" for s
    by (induction s) (auto simp: strcspn_def)
  show ?case
  proof (cases tmp)
    case (Cons c s)
    show ?thesis
    proof (cases "c = CHR ''.''")
      case True
      have "count_dots tmp n = count_dots (drop (strcspn s ''.'') s) (Suc n)"
        using Cons True by (subst count_dots.simps) simp
      also have "\<dots> = Suc n + length (filter (\<lambda>c. c = CHR ''.'') (drop (strcspn s ''.'') s))"
        using "1.IH"(1) Cons True by simp
      finally show ?thesis by (simp add: skip Cons True)
    next
      case False
      have "count_dots tmp n = count_dots (drop (strcspn tmp ''.'') tmp) n"
        using Cons False by (subst count_dots.simps) simp
      also have "\<dots> = n + length (filter (\<lambda>c. c = CHR ''.'') (drop (strcspn tmp ''.'') tmp))"
        using "1.IH"(2) Cons False by simp
      finally show ?thesis by (simp add: skip)
    qed
  qed (simp add: count_dots.simps)
qed

lemma length_strspn_le: "strspn s a \<le> length s"
  by (simp add: strspn_def length_takeWhile_le)

lemma strspn_eq_length_iff: "strspn s a = length s \<longleftrightarrow> set s \<subseteq> set a"
proof
  assume "strspn s a = length s"
  then have "takeWhile (\<lambda>c. c \<in> set a) s = s"
    by (metis strspn_def takeWhile_eq_take take_all_iff order_refl)
  then show "set s \<subseteq> set a" by (metis set_takeWhileD subsetI)
next
  assume "set s \<subseteq> set a"
  then have "takeWhile (\<lambda>c. c \<in> set a) s = s" unfolding takeWhile_eq_all_conv by blast
  then show "strspn s a = length s" unfolding strspn_def by (rule arg_cong)
qed

lemma strcaseeq_length: "strcaseeq s t \<Longrightarrow> length s = length t"
  unfolding strcaseeq_def by (metis length_map)

text \<open>The first of the two domain-literal tests never fires for a pattern with an asterisk.\<close>

lemma wildcard_ok_star: "wildcard_ok (CHR ''*'' # r) p2 \<longleftrightarrow> \<not> set p2 \<subseteq> set dom_chars"
  using length_strspn_le [of r dom_chars] by (simp add: wildcard_ok_def strspn_eq_length_iff)

lemma suffix_match:
  "(\<exists>n \<le> length p2. strcaseeq q (drop n p2) \<and> (n = 0 \<or> P))
    \<longleftrightarrow> strcaseeq q (if P \<and> length q < length p2 then drop (length p2 - length q) p2 else p2)"
    (is "?L \<longleftrightarrow> ?R")
proof
  assume ?L
  then obtain n where n: "n \<le> length p2" "strcaseeq q (drop n p2)" "n = 0 \<or> P" by blast
  then have "n = length p2 - length q" "length q \<le> length p2"
    using strcaseeq_length [OF n(2)] by auto
  then show ?R using n by (cases "length q < length p2") auto
next
  assume R: ?R
  show ?L
  proof (cases "P \<and> length q < length p2")
    case True
    with R show ?thesis by (intro exI [of _ "length p2 - length q"]) simp
  next
    case False
    with R show ?thesis by (intro exI [of _ 0]) auto
  qed
qed

text \<open>
  The exact condition under which a certificate name matches a host name. A blank pattern
  never matches; one that does not start with an asterisk and a dot matches case-blind and in
  full. A pattern \<open>*.r\<close> matches, for a host that is not an address literal, the hosts that end
  in \<open>.r\<close> (case-blind, after any number of labels) when \<open>.r\<close> holds two dots or more, and
  otherwise only \<open>.r\<close> itself.
\<close>

theorem name_match_iff:
  assumes "c_string p1"
  shows "name_match p1 p2 \<longleftrightarrow> p1 \<noteq> [] \<and>
     (if (\<exists>r. p1 = ''*.'' @ r) \<and> \<not> set p2 \<subseteq> set dom_chars
      then \<exists>n \<le> length p2. strcaseeq (drop 1 p1) (drop n p2)
             \<and> (n = 0 \<or> length (filter (\<lambda>c. c = CHR ''.'') p1) \<ge> 2)
      else strcaseeq p1 p2)"
proof -
  have nul: "char_at p1 0 = NUL \<longleftrightarrow> p1 = []" using assms by (simp add: char_at_NUL_iff)
  show ?thesis
  proof (cases "\<exists>r. p1 = ''*.'' @ r")
    case True
    then obtain r where p1: "p1 = ''*.'' @ r" by blast
    have dots: "count_dots (drop 1 p1) 0 = length (filter (\<lambda>c. c = CHR ''.'') p1)"
      by (simp add: count_dots_eq p1)
    have ok: "wildcard_ok p1 p2 \<longleftrightarrow> \<not> set p2 \<subseteq> set dom_chars"
      using wildcard_ok_star [of "CHR ''.'' # r" p2] by (simp add: p1)
    have c: "char_at p1 0 = CHR ''*''" "char_at p1 1 = CHR ''.''" by (simp_all add: p1)
    show ?thesis
      unfolding name_match_def Let_def dots ok nul suffix_match
      using c p1 by simp
  next
    case False
    then have "\<not> (char_at p1 0 = CHR ''*'' \<and> char_at p1 1 = CHR ''.'')"
      by (cases p1; cases "tl p1") (auto simp: char_at_def)
    with False nul show ?thesis by (auto simp: name_match_def)
  qed
qed

theorem name_match_iff_witness: "name_match ''*.example.org'' ''foo.example.org''"
proof -
  have "strcaseeq (drop 1 ''*.example.org'') (drop 3 ''foo.example.org'')" by (simp add: strcaseeq_def)
  then have "\<exists>n \<le> length ''foo.example.org''.
      strcaseeq (drop 1 ''*.example.org'') (drop n ''foo.example.org'')
      \<and> (n = 0 \<or> length (filter (\<lambda>c. c = CHR ''.'') ''*.example.org'') \<ge> 2)"
    by (intro exI [of _ 3]) simp
  moreover have "c_string ''*.example.org''" by (simp add: c_string_def)
  ultimately show ?thesis
    using name_match_iff [of "''*.example.org''" "''foo.example.org''"] by (simp add: dom_chars_def)
qed

text \<open>
  The guard against wildcards in certificates for address literals is without effect: a
  wildcard pattern that consists of digits and dots behind the asterisk matches any host that
  is not itself an address literal and ends in it.
\<close>

theorem name_match_literal_wildcard:
  assumes "set r \<subseteq> set dom_chars" "2 \<le> length (filter (\<lambda>c. c = CHR ''.'') (CHR ''.'' # r))"
    "\<not> set host \<subseteq> set dom_chars"
  shows "name_match (''*.'' @ r) (host @ ''.'' @ r)"
proof -
  have "count_dots (CHR ''.'' # r) 0 \<ge> 2" using assms(2) by (simp add: count_dots_eq)
  moreover have "wildcard_ok (''*.'' @ r) (host @ ''.'' @ r)"
    using assms(3) wildcard_ok_star [of "CHR ''.'' # r" "host @ ''.'' @ r"] by auto
  ultimately show ?thesis
    using assms(3) by (cases "host = []") (auto simp: name_match_def Let_def strcaseeq_def)
qed

theorem name_match_literal_wildcard_witness:
  "name_match ''*.168.23.23'' ''foo.168.23.23''"
  using name_match_literal_wildcard [of "''168.23.23''" "''foo''"] by (simp add: dom_chars_def)

end
