(* ===== verification/Rfc822.thy ===== *)
theory Rfc822
  imports Prelude
begin

section \<open>Addresses in RFC 822 headers (rfc822.c)\<close>

text \<open>
  \<open>reply_hack\<close> and \<open>nxtaddr\<close>. The text of a header is split at the pointer that walks over
  it: \<open>pre\<close> is the part before the pointer, the argument of the loop the rest.
\<close>

definition HEADER_END :: "string \<Rightarrow> bool" where
  "HEADER_END p \<longleftrightarrow> char_at p 0 = LF \<and> char_at p 1 \<noteq> SP \<and> char_at p 1 \<noteq> TAB"

subsection \<open>reply_hack\<close>

text \<open>
  The local variables. \<open>parens_from\<close> is an index into \<open>pre\<close>. The buffer has \<open>cap\<close> bytes;
  an insertion that does not fit, or a scan to the left that runs out of the buffer, gives
  \<open>None\<close>.
\<close>

record rh =
  pre :: string
  parendepth :: int
  rstate :: nat
  has_host :: bool
  has_bare :: bool
  last_nws :: char
  parens_from :: "nat option"

definition rewritten_headers :: "string list" where
  "rewritten_headers =
     [''From:'', ''To:'', ''Reply-To:'', ''Return-Path:'', ''Cc:'', ''Bcc:'', ''Resent-From:'',
      ''Resent-To:'', ''Resent-Cc:'', ''Resent-Bcc:'', ''Apparently-From:'', ''Apparently-To:'',
      ''Sender:'', ''Resent-Sender:'']"

definition addresscount :: "string \<Rightarrow> nat" where
  "addresscount buf = 1 + length (filter (\<lambda>c. c = CHR '','' \<or> isspace c) buf)"

text \<open>\<open>while (isspace(*from) || *from == ',') --from\<close>\<close>

fun scan_back :: "string \<Rightarrow> nat \<Rightarrow> nat option" where
  "scan_back text i =
     (if isspace (char_at text i) \<or> char_at text i = CHR '',''
      then (case i of 0 \<Rightarrow> None | Suc j \<Rightarrow> scan_back text j)
      else Some i)"

declare scan_back.simps [simp del]

definition insert_host :: "nat \<Rightarrow> string \<Rightarrow> string \<Rightarrow> nat \<Rightarrow> rh \<Rightarrow> rh option" where
  "insert_host cap host rest i st =
     (if length (pre st @ rest) + length host + 2 \<le> cap
      then Some (st\<lparr>pre := take i (pre st) @ ''@'' @ host @ drop i (pre st), has_host := True\<rparr>)
      else None)"

text \<open>State 1, looking for addresses; \<open>c\<close> is the current character and \<open>s\<close> what follows it.\<close>

definition rh_state1 :: "nat \<Rightarrow> string \<Rightarrow> char \<Rightarrow> string \<Rightarrow> rh \<Rightarrow> rh option" where
  "rh_state1 cap host c s st0 =
     (let st = (if \<not> isspace c then st0\<lparr>last_nws := c\<rparr> else st0) in
      if c = CHR ''<'' then Some (st\<lparr>rstate := 3\<rparr>)
      else if c = CHR ''@'' \<or> c = CHR ''!'' then Some (st\<lparr>has_host := True\<rparr>)
      else if c = DQUOTE then Some (st\<lparr>rstate := 2\<rparr>)
      else if (c = CHR '','' \<or> HEADER_END (c # s)) \<and> has_bare st \<and> \<not> has_host st
              \<and> last_nws st \<noteq> CHR '';'' then
        (case scan_back (pre st @ c # s)
                (case parens_from st of None \<Rightarrow> length (pre st) | Some j \<Rightarrow> j) of
           None \<Rightarrow> None
         | Some i \<Rightarrow> insert_host cap host (c # s) (Suc i) st)
      else if char_at s 0 = CHR ''('' \<and> has_bare st \<and> \<not> has_host st
              \<and> last_nws st \<noteq> CHR '';'' \<and> last_nws st \<noteq> CHR '')'' then
        Some (st\<lparr>parens_from := Some (length (pre st))\<rparr>)
      else if \<not> isspace c then Some (st\<lparr>has_bare := True\<rparr>)
      else Some st)"

text \<open>State 2, inside a string: a quote ends it if an even number of backslashes precedes.\<close>

definition rh_state2 :: "char \<Rightarrow> rh \<Rightarrow> rh" where
  "rh_state2 c st =
     (if c = DQUOTE \<and> even (length (takeWhile (\<lambda>d. d = BACKSLASH) (rev (pre st))))
      then st\<lparr>rstate := 1\<rparr> else st)"

text \<open>State 3, between angle brackets.\<close>

definition rh_state3 :: "nat \<Rightarrow> string \<Rightarrow> char \<Rightarrow> string \<Rightarrow> rh \<Rightarrow> rh option" where
  "rh_state3 cap host c s st =
     (if c = CHR ''@'' \<or> c = CHR ''!'' then Some (st\<lparr>has_host := True\<rparr>)
      else if c = CHR ''>'' \<and> pre st \<noteq> [] \<and> last (pre st) \<noteq> CHR ''<'' then
        (let st1 = st\<lparr>rstate := 1\<rparr> in
         if \<not> has_host st1 then insert_host cap host (c # s) (length (pre st1)) st1 else Some st1)
      else Some st)"

text \<open>One turn of the loop, up to \<open>from++\<close>.\<close>

definition rh_step :: "nat \<Rightarrow> string \<Rightarrow> char \<Rightarrow> string \<Rightarrow> rh \<Rightarrow> rh option" where
  "rh_step cap host c s st = do {
     let st1 =
       (if rstate st \<noteq> 2 then
          (if c = CHR ''('' then st\<lparr>parendepth := parendepth st + 1\<rparr>
           else if c = CHR '')'' then st\<lparr>parendepth := parendepth st - 1\<rparr>
           else st)
        else st);
     st2 \<leftarrow>
       (if parendepth st1 = 0 \<and> \<not> has_host st1 then
          (if rstate st1 = 0 then
             Some (if c = CHR '':'' then st1\<lparr>rstate := 1\<rparr> else st1)
           else if rstate st1 = 1 then rh_state1 cap host c s st1
           else if rstate st1 = 2 then Some (rh_state2 c st1)
           else rh_state3 cap host c s st1)
        else Some st1);
     let st3 =
       (if pre st2 \<noteq> [] \<and> last (pre st2) = CHR '','' \<and> parendepth st2 = 0
        then st2\<lparr>has_host := False, has_bare := False, parens_from := None\<rparr>
        else st2);
     Some (st3\<lparr>pre := pre st3 @ [c]\<rparr>)
   }"

fun rh_loop :: "nat \<Rightarrow> string \<Rightarrow> string \<Rightarrow> rh \<Rightarrow> rh option" where
  "rh_loop cap host [] st = Some st"
| "rh_loop cap host (c # s) st = do { st' \<leftarrow> rh_step cap host c s st; rh_loop cap host s st' }"

definition rh_init :: rh where
  "rh_init = \<lparr>pre = [], parendepth = 0, rstate = 0, has_host = False, has_bare = False,
     last_nws = NUL, parens_from = None\<rparr>"

text \<open>The new header; its length is what \<open>*length\<close> gets (which stays unset for other headers).\<close>

definition reply_hack :: "string \<Rightarrow> string \<Rightarrow> string option" where
  "reply_hack buf host =
     (if list_all (\<lambda>h. \<not> has_iprefix buf h) rewritten_headers then Some buf
      else
        let cap = length buf + addresscount buf * (length host + 1) + 1 in
        map_option pre (rh_loop cap host buf rh_init))"

subsection \<open>nxtaddr\<close>

datatype astate = START_HDR | SKIP_JUNK | BARE_ADDRESS | INSIDE_DQUOTE | INSIDE_PARENS
  | INSIDE_BRACKETS | ENDIT_ALL

text \<open>
  The static variables: the buffer \<open>address\<close> with its \<open>sizeof\<close> as length, \<open>hp\<close> as the rest
  of the header (\<open>None\<close> before the first call). Reading behind the end of the header gives
  \<open>None\<close> for the call.
\<close>

record nxt =
  address :: string
  tp :: nat
  hp :: "string option"
  nstate :: astate
  oldstate :: astate

text \<open>\<open>address[NEXTTP()] = c\<close>\<close>

definition put :: "char \<Rightarrow> nxt \<Rightarrow> nxt option" where
  "put c st = do {
     a \<leftarrow> poke (address st) (tp st) c;
     Some (st\<lparr>address := a, tp := (if tp st < length (address st) - 1 then tp st + 1 else tp st)\<rparr>)
   }"

definition trim_tp :: "string \<Rightarrow> nat \<Rightarrow> nat" where
  "trim_tp a n = n - length (takeWhile isspace (rev (take n a)))"

text \<open>
  One turn of the loop: the call returns (an address or the null pointer, with the rest \<open>hp\<close>
  points to), or the loop goes on with \<open>parendepth\<close>, the rest and the static variables.
\<close>

datatype turn = Ret "string option" string nxt | Go int string nxt

definition found :: "string \<Rightarrow> nxt \<Rightarrow> turn option" where
  "found s st = Some (Ret (Some (cstr_of (address st))) s st)"

definition at_header_end :: "string \<Rightarrow> nxt \<Rightarrow> turn option" where
  "at_header_end s st =
     (let st1 = st\<lparr>nstate := ENDIT_ALL\<rparr> in
      if tp st1 \<noteq> 0 then do {
        a \<leftarrow> poke (address st1) (trim_tp (address st1) (tp st1)) NUL;
        found s (st1\<lparr>address := a, tp := 0\<rparr>)
      } else Some (Ret None s st1))"

definition at_escape :: "int \<Rightarrow> char \<Rightarrow> string \<Rightarrow> nxt \<Rightarrow> turn option" where
  "at_escape parens c s' st =
     (if nstate st \<noteq> INSIDE_PARENS then do {
        st1 \<leftarrow> put c st;
        st2 \<leftarrow> put (char_at s' 0) st1;
        if s' = [] then None else Some (Go parens (tl s') st2)
      } else Some (Go parens s' st))"

definition in_skip_junk :: "int \<Rightarrow> char \<Rightarrow> string \<Rightarrow> nxt \<Rightarrow> turn option" where
  "in_skip_junk parens c s' st =
     (if c = DQUOTE then do {
        st1 \<leftarrow> put c (st\<lparr>oldstate := SKIP_JUNK, nstate := INSIDE_DQUOTE\<rparr>);
        Some (Go parens s' st1)
      }
      else if c = CHR ''('' then Some (Go 1 s' (st\<lparr>oldstate := SKIP_JUNK, nstate := INSIDE_PARENS\<rparr>))
      else if c = CHR ''<'' then Some (Go parens s' (st\<lparr>nstate := INSIDE_BRACKETS, tp := 0\<rparr>))
      else if c \<noteq> CHR '','' \<and> \<not> isspace c then Some (Go parens (c # s') (st\<lparr>nstate := BARE_ADDRESS\<rparr>))
      else Some (Go parens s' st))"

definition in_bare_address :: "int \<Rightarrow> char \<Rightarrow> string \<Rightarrow> nxt \<Rightarrow> turn option" where
  "in_bare_address parens c s' st =
     (if c = CHR '','' then
        (if tp st \<noteq> 0 then do {
           st1 \<leftarrow> put NUL st;
           found (c # s') (st1\<lparr>nstate := SKIP_JUNK, tp := 0\<rparr>)
         } else Some (Go parens s' st))
      else if c = CHR ''('' then Some (Go 1 s' (st\<lparr>oldstate := BARE_ADDRESS, nstate := INSIDE_PARENS\<rparr>))
      else if c = CHR ''<'' then Some (Go parens s' (st\<lparr>nstate := INSIDE_BRACKETS, tp := 0\<rparr>))
      else if c = DQUOTE then do {
        st1 \<leftarrow> put c (st\<lparr>oldstate := nstate st, nstate := INSIDE_DQUOTE\<rparr>);
        Some (Go parens s' st1)
      }
      else if \<not> isspace c then do { st1 \<leftarrow> put c st; Some (Go parens s' st1) }
      else Some (Go parens s' st))"

definition in_dquote :: "int \<Rightarrow> char \<Rightarrow> string \<Rightarrow> nxt \<Rightarrow> turn option" where
  "in_dquote parens c s' st = do {
     st1 \<leftarrow> put c st;
     Some (Go parens s' (if c = DQUOTE then st1\<lparr>nstate := oldstate st1\<rparr> else st1))
   }"

definition in_parens :: "int \<Rightarrow> char \<Rightarrow> string \<Rightarrow> nxt \<Rightarrow> turn option" where
  "in_parens parens c s' st =
     (let p' = (if c = CHR ''('' then parens + 1 else if c = CHR '')'' then parens - 1 else parens) in
      Some (Go p' s' (if p' = 0 then st\<lparr>nstate := oldstate st\<rparr> else st)))"

definition in_brackets :: "int \<Rightarrow> char \<Rightarrow> string \<Rightarrow> nxt \<Rightarrow> turn option" where
  "in_brackets parens c s' st =
     (if c = CHR ''>'' then do {
        st1 \<leftarrow> put NUL st;
        found s' (st1\<lparr>nstate := SKIP_JUNK, tp := 0\<rparr>)
      }
      else if c = CHR ''<'' then Some (Go parens s' (st\<lparr>tp := 0\<rparr>))
      else if c = DQUOTE then do {
        st1 \<leftarrow> put c st;
        Some (Go parens s' (st1\<lparr>oldstate := INSIDE_BRACKETS, nstate := INSIDE_DQUOTE\<rparr>))
      }
      else do { st1 \<leftarrow> put c st; Some (Go parens s' st1) })"

definition nxt_turn :: "int \<Rightarrow> char \<Rightarrow> string \<Rightarrow> nxt \<Rightarrow> turn option" where
  "nxt_turn parens c s' st =
     (if nstate st = ENDIT_ALL then Some (Ret None (c # s') st)
      else if HEADER_END (c # s') then at_header_end (c # s') st
      else if c = BACKSLASH then at_escape parens c s' st
      else
        (case nstate st of
           START_HDR \<Rightarrow> Some (Go parens s' (if c = CHR '':'' then st\<lparr>nstate := SKIP_JUNK\<rparr> else st))
         | SKIP_JUNK \<Rightarrow> in_skip_junk parens c s' st
         | BARE_ADDRESS \<Rightarrow> in_bare_address parens c s' st
         | INSIDE_DQUOTE \<Rightarrow> in_dquote parens c s' st
         | INSIDE_PARENS \<Rightarrow> in_parens parens c s' st
         | INSIDE_BRACKETS \<Rightarrow> in_brackets parens c s' st
         | ENDIT_ALL \<Rightarrow> None))"

text \<open>Only the step back of \<open>SKIP_JUNK\<close> keeps the character, and it leaves this state.\<close>

lemma bind_GoD:
  "(do { st1 \<leftarrow> x; Some (Go q s (f st1)) }) = Some (Go p s2 st2) \<Longrightarrow> s2 = s"
  by (cases x) auto

lemma at_escape_Go: "at_escape parens c s' st = Some (Go p s2 st2) \<Longrightarrow> length s2 \<le> length s'"
  by (auto simp: at_escape_def Option.bind_eq_Some_conv split: if_splits)

lemma in_skip_junk_Go:
  "in_skip_junk parens c s' st = Some (Go p s2 st2) \<Longrightarrow>
   length s2 \<le> length s' \<or> s2 = c # s' \<and> nstate st2 = BARE_ADDRESS"
  by (auto simp: in_skip_junk_def dest!: bind_GoD split: if_splits)

lemma in_bare_address_Go: "in_bare_address parens c s' st = Some (Go p s2 st2) \<Longrightarrow> s2 = s'"
  by (auto simp: in_bare_address_def found_def Option.bind_eq_Some_conv split: if_splits)

lemma in_brackets_Go: "in_brackets parens c s' st = Some (Go p s2 st2) \<Longrightarrow> s2 = s'"
  by (auto simp: in_brackets_def found_def Option.bind_eq_Some_conv split: if_splits)

lemma nxt_turn_Go:
  assumes "nxt_turn parens c s' st = Some (Go p s2 st2)"
  shows "length s2 \<le> length s' \<or> s2 = c # s' \<and> nstate st = SKIP_JUNK \<and> nstate st2 = BARE_ADDRESS"
proof -
  have e: "at_header_end (c # s') st \<noteq> Some (Go p s2 st2)"
    by (simp add: at_header_end_def found_def Let_def Option.bind_eq_Some_conv)
  show ?thesis
    using assms e unfolding nxt_turn_def
    by (cases "nstate st") (auto simp: in_dquote_def in_parens_def Let_def Option.bind_eq_Some_conv
      dest!: at_escape_Go in_skip_junk_Go in_bare_address_Go in_brackets_Go split: if_splits)
qed

lemma nxt_turn_decreases:
  assumes "nxt_turn parens c s' st = Some (Go p s2 st2)"
  shows "2 * length s2 + (if nstate st2 = SKIP_JUNK then 1 else 0)
    < 2 * length (c # s') + (if nstate st = SKIP_JUNK then 1 else 0)"
  using nxt_turn_Go [OF assms] by auto

function nxt_loop :: "int \<Rightarrow> string \<Rightarrow> nxt \<Rightarrow> (string option \<times> nxt) option" where
  "nxt_loop parens [] st = Some (None, st\<lparr>hp := Some []\<rparr>)"
| "nxt_loop parens (c # s') st =
     (case nxt_turn parens c s' st of
        None \<Rightarrow> None
      | Some (Ret a s2 st2) \<Rightarrow> Some (a, st2\<lparr>hp := Some s2\<rparr>)
      | Some (Go p s2 st2) \<Rightarrow> nxt_loop p s2 st2)"
  by pat_completeness auto
termination
  by (relation "measure (\<lambda>(parens, s, st). 2 * length s + (if nstate st = SKIP_JUNK then 1 else 0))")
    (use nxt_turn_decreases in force)+

definition nxtaddr :: "string option \<Rightarrow> nxt \<Rightarrow> (string option \<times> nxt) option" where
  "nxtaddr hdr st =
     (let st1 = (case hdr of None \<Rightarrow> st
                 | Some h \<Rightarrow> st\<lparr>hp := Some h, nstate := START_HDR, tp := 0\<rparr>) in
      case hp st1 of None \<Rightarrow> Some (None, st1) | Some s \<Rightarrow> nxt_loop 0 s st1)"

definition nxt_init :: "nat \<Rightarrow> nxt" where
  "nxt_init bufsiz = \<lparr>address = replicate bufsiz NUL, tp = 0, hp = None, nstate = START_HDR,
     oldstate = START_HDR\<rparr>"


section \<open>The rewriting stays inside its buffer\<close>

text \<open>
  The room \<open>reply_hack\<close> allocates is one host name for each comma or space and one more. Every
  insertion is paid for by the comma that made the address end, or by the first address.
\<close>

definition ncomma :: "string \<Rightarrow> nat" where
  "ncomma s = length (filter (\<lambda>c. c = CHR '','') s)"

definition pend :: "string \<Rightarrow> nat" where
  "pend p = (if p \<noteq> [] \<and> last p = CHR '','' then 1 else 0)"

definition fits :: "nat \<Rightarrow> nat \<Rightarrow> rh \<Rightarrow> string \<Rightarrow> bool" where
  "fits cap hl st s \<longleftrightarrow> length (pre st) + length s
     + (ncomma s + pend (pre st) + (if has_host st then 0 else 1)) * (hl + 1) + 1 \<le> cap"

text \<open>Between the switch and the reset.\<close>

definition fits_mid :: "nat \<Rightarrow> nat \<Rightarrow> rh \<Rightarrow> string \<Rightarrow> bool" where
  "fits_mid cap hl st s \<longleftrightarrow> length (pre st) + length s
     + (ncomma s + (if has_host st \<and> pend (pre st) = 0 then 0 else 1)) * (hl + 1) + 1 \<le> cap"

definition anchored :: "rh \<Rightarrow> bool" where
  "anchored st \<longleftrightarrow> (rstate st = 0 \<longrightarrow> parens_from st = None) \<and> (rstate st \<noteq> 0 \<longrightarrow> (\<exists>k < length (pre st). pre st ! k = CHR '':''
     \<and> (\<forall>j. parens_from st = Some j \<longrightarrow> k \<le> j \<and> j < length (pre st))))"

lemma pend_simps [simp]: "pend [] = 0" "pend (p @ [c]) = (if c = CHR '','' then 1 else 0)"
  by (simp_all add: pend_def)

lemma pend_if: "(if pend p = 0 then 0 else 1) = pend p"
  by (simp add: pend_def)

lemma ncomma_Cons [simp]: "ncomma (c # s) = (if c = CHR '','' then 1 else 0) + ncomma s"
  by (simp add: ncomma_def)

lemma fits_mid_same:
  assumes "fits cap hl st s" "pre st' = pre st" "has_host st \<longrightarrow> has_host st'"
  shows "fits_mid cap hl st' s"
proof -
  have "ncomma s + (if has_host st' \<and> pend (pre st') = 0 then 0 else 1)
      \<le> ncomma s + pend (pre st) + (if has_host st then 0 else 1)"
    using assms(2,3) by (auto simp: pend_def)
  then have "(ncomma s + (if has_host st' \<and> pend (pre st') = 0 then 0 else 1)) * (hl + 1)
      \<le> (ncomma s + pend (pre st) + (if has_host st then 0 else 1)) * (hl + 1)"
    by (rule mult_le_mono1)
  with assms(1,2) show ?thesis by (simp add: fits_def fits_mid_def)
qed

lemma insert_host_ok:
  assumes f: "fits cap (length host) st s" and h: "\<not> has_host st" and i: "i \<le> length (pre st)"
    and c: "CHR '','' \<notin> set host"
  shows "insert_host cap host s i st = Some (st\<lparr>pre := take i (pre st) @ ''@'' @ host @ drop i (pre st),
      has_host := True\<rparr>)
    \<and> fits_mid cap (length host) (st\<lparr>pre := take i (pre st) @ ''@'' @ host @ drop i (pre st), has_host := True\<rparr>) s"
proof -
  let ?p = "take i (pre st) @ ''@'' @ host @ drop i (pre st)"
  have len: "length ?p = length (pre st) + (length host + 1)" using i by simp
  have "pend ?p \<le> pend (pre st)"
  proof (cases "drop i (pre st) = []")
    case True
    have "last host \<noteq> CHR '',''" if "host \<noteq> []" using c that last_in_set by fastforce
    with True have "last ?p \<noteq> CHR '',''" by (auto simp: last_append)
    then show ?thesis by (simp add: pend_def)
  next
    case False
    have "?p = (take i (pre st) @ ''@'' @ host) @ drop i (pre st)" by simp
    then have l: "last ?p = last (pre st)" using False by (metis last_appendR last_drop drop_eq_Nil not_less)
    have "pre st \<noteq> []" using False by auto
    then show ?thesis unfolding pend_def l by simp
  qed
  then have "(ncomma s + (if pend ?p = 0 then 0 else 1)) * (length host + 1)
      \<le> (ncomma s + pend (pre st)) * (length host + 1)"
    unfolding pend_if by (intro mult_le_mono1) simp
  moreover have "length (pre st) + length s + (ncomma s + pend (pre st)) * (length host + 1)
      + (length host + 1) + 1 \<le> cap"
    using f h by (simp add: fits_def)
  ultimately show ?thesis
    using len by (simp add: insert_host_def fits_mid_def)
qed

lemma char_at_here: "char_at (p @ c # s) (length p) = c"
  by (simp add: char_at_def)

lemma scan_back_ok:
  assumes "k \<le> i" "i < length tx" "tx ! k = CHR '':''"
  shows "\<exists>j. scan_back tx i = Some j \<and> k \<le> j \<and> j \<le> i"
  using assms
proof (induction tx i rule: scan_back.induct)
  case (1 tx i)
  show ?case
  proof (cases "isspace (char_at tx i) \<or> char_at tx i = CHR '',''")
    case True
    have "k \<noteq> i" using True "1.prems" by (auto simp: char_at_def isspace_def)
    then obtain i' where i: "i = Suc i'" "k \<le> i'" using "1.prems"(1) by (cases i) auto
    with "1.IH" [OF True i(1)] "1.prems" obtain j where "scan_back tx i' = Some j" "k \<le> j" "j \<le> i'" by auto
    moreover have "scan_back tx i = scan_back tx i'" using True i(1) by (subst scan_back.simps) simp
    ultimately show ?thesis using i(1) by auto
  next
    case False
    then show ?thesis using "1.prems" by (simp add: scan_back.simps [of tx i])
  qed
qed

lemma rh_state1_ok:
  assumes f: "fits cap (length host) st (c # s)" and a: "anchored st" and st: "rstate st = 1" "\<not> has_host st"
    and c: "CHR '','' \<notin> set host"
  shows "\<exists>st'. rh_state1 cap host c s st = Some st' \<and> fits_mid cap (length host) st' (c # s)
    \<and> anchored (st'\<lparr>pre := pre st' @ [c]\<rparr>)"
proof -
  obtain k where k: "k < length (pre st)" "pre st ! k = CHR '':''"
      "\<And>j. parens_from st = Some j \<Longrightarrow> k \<le> j \<and> j < length (pre st)"
    using a st by (auto simp: anchored_def)
  define st0 where "st0 = (if \<not> isspace c then st\<lparr>last_nws := c\<rparr> else st)"
  have st0: "pre st0 = pre st" "has_host st0 = has_host st" "parens_from st0 = parens_from st"
    by (simp_all add: st0_def)
  have f0: "fits cap (length host) st0 (c # s)" using f by (simp add: fits_def st0)
  define ins where "ins \<longleftrightarrow> (c = CHR '','' \<or> HEADER_END (c # s)) \<and> has_bare st0 \<and> \<not> has_host st0
              \<and> last_nws st0 \<noteq> CHR '';''"
  show ?thesis
  proof (cases "c \<notin> {CHR ''<'', CHR ''@'', CHR ''!'', DQUOTE} \<and> ins")
    case True
    let ?start = "case parens_from st0 of None \<Rightarrow> length (pre st0) | Some j \<Rightarrow> j"
    have "k \<le> ?start" "?start \<le> length (pre st0)"
      using k st0 by (auto split: option.split dest: k(3))
    then obtain j where j: "scan_back (pre st0 @ c # s) ?start = Some j" "k \<le> j" "j \<le> ?start"
      using scan_back_ok [of k ?start "pre st0 @ c # s"] k st0 by (auto simp: nth_append)
    have jl: "Suc j \<le> length (pre st0)"
    proof (cases "parens_from st0")
      case (Some i)
      then show ?thesis using j k(3) st0 by fastforce
    next
      case None
      have "j \<noteq> length (pre st0)"
      proof
        assume j0: "j = length (pre st0)"
        have sp: "isspace c \<or> c = CHR '',''" using True by (auto simp: ins_def HEADER_END_def isspace_def)
        have "length (pre st0) \<noteq> 0" using k st0 by auto
        then obtain m where m: "length (pre st0) = Suc m" using not0_implies_Suc by blast
        have "scan_back (pre st0 @ c # s) (length (pre st0)) = scan_back (pre st0 @ c # s) m"
          unfolding scan_back.simps [of _ "length (pre st0)"] char_at_here using sp m by simp
        moreover have "\<exists>i. scan_back (pre st0 @ c # s) m = Some i \<and> k \<le> i \<and> i \<le> m"
          using scan_back_ok [of k m "pre st0 @ c # s"] k st0 m by (auto simp: nth_append)
        ultimately show False using j(1) None j0 m by auto
      qed
      then show ?thesis using j(3) None by simp
    qed
    let ?st' = "st0\<lparr>pre := take (Suc j) (pre st0) @ ''@'' @ host @ drop (Suc j) (pre st0), has_host := True\<rparr>"
    have ins: "insert_host cap host (c # s) (Suc j) st0 = Some ?st' \<and> fits_mid cap (length host) ?st' (c # s)"
      using insert_host_ok [OF f0 _ jl c] st st0 by simp
    have "rh_state1 cap host c s st = Some ?st'"
      using True j(1) ins unfolding rh_state1_def Let_def st0_def [symmetric] ins_def by simp
    moreover have "k < length (pre ?st' @ [c])" "(pre ?st' @ [c]) ! k = CHR '':''"
      using k j jl st0 by (auto simp: nth_append)
    moreover have "k \<le> i \<and> i < length (pre ?st' @ [c])" if "parens_from ?st' = Some i" for i
    proof -
      have "length (pre ?st') = length (pre st0) + length host + 1" using jl by simp
      then show ?thesis using k(3) [of i] that st0 by simp
    qed
    ultimately show ?thesis using ins st by (auto simp: anchored_def st0_def)
  next
    case False
    have "rh_state1 cap host c s st = (if c = CHR ''<'' then Some (st0\<lparr>rstate := 3\<rparr>)
      else if c = CHR ''@'' \<or> c = CHR ''!'' then Some (st0\<lparr>has_host := True\<rparr>)
      else if c = DQUOTE then Some (st0\<lparr>rstate := 2\<rparr>)
      else if char_at s 0 = CHR ''('' \<and> has_bare st0 \<and> \<not> has_host st0
              \<and> last_nws st0 \<noteq> CHR '';'' \<and> last_nws st0 \<noteq> CHR '')'' then
        Some (st0\<lparr>parens_from := Some (length (pre st0))\<rparr>)
      else if \<not> isspace c then Some (st0\<lparr>has_bare := True\<rparr>)
      else Some st0)"
    proof (cases ins)
      case True
      with False have "c \<in> {CHR ''<'', CHR ''@'', CHR ''!'', DQUOTE}" by blast
      then show ?thesis unfolding rh_state1_def Let_def st0_def [symmetric] by auto
    next
      case False
      then show ?thesis unfolding rh_state1_def Let_def st0_def [symmetric] ins_def by (simp only: if_False)
    qed
    moreover have "rstate st0 = 1" using st by (simp add: st0_def)
    ultimately have "\<exists>st'. rh_state1 cap host c s st = Some st' \<and> pre st' = pre st \<and> (has_host st \<longrightarrow> has_host st')
        \<and> rstate st' \<noteq> 0
        \<and> (parens_from st' = parens_from st \<or> parens_from st' = Some (length (pre st)))"
      by (simp add: st0)
    then obtain st' where st': "rh_state1 cap host c s st = Some st'" "pre st' = pre st"
      "has_host st \<longrightarrow> has_host st'" "rstate st' \<noteq> 0"
      "parens_from st' = parens_from st \<or> parens_from st' = Some (length (pre st))" by blast
    have "k \<le> j \<and> j < length (pre st' @ [c])" if "parens_from st' = Some j" for j
      using st'(2,5) that k(1) k(3) [of j] by auto
    moreover have "k < length (pre st' @ [c])" "(pre st' @ [c]) ! k = CHR '':''"
      using k st'(2) by (auto simp: nth_append)
    ultimately have "anchored (st'\<lparr>pre := pre st' @ [c]\<rparr>)" using st'(4) by (auto simp: anchored_def)
    with st' fits_mid_same [OF f] show ?thesis by blast
  qed
qed


lemma anchored_snoc: "anchored st \<Longrightarrow> anchored (st\<lparr>pre := pre st @ [c]\<rparr>)"
  unfolding anchored_def by (fastforce simp: nth_append)

lemma anchored_cong:
  "anchored st \<Longrightarrow> pre st' = pre st \<Longrightarrow> parens_from st' = parens_from st \<Longrightarrow> rstate st \<noteq> 0 \<Longrightarrow>
   rstate st' \<noteq> 0 \<Longrightarrow> anchored st'"
  by (simp add: anchored_def)

lemma rh_state3_ok:
  assumes f: "fits cap (length host) st (c # s)" and a: "anchored st" and st: "rstate st \<noteq> 0" "\<not> has_host st"
    and c: "CHR '','' \<notin> set host"
  shows "\<exists>st'. rh_state3 cap host c s st = Some st' \<and> fits_mid cap (length host) st' (c # s)
    \<and> anchored (st'\<lparr>pre := pre st' @ [c]\<rparr>)"
proof (cases "c = CHR ''>'' \<and> pre st \<noteq> [] \<and> last (pre st) \<noteq> CHR ''<''")
  case True
  define st1 where "st1 = st\<lparr>rstate := 1\<rparr>"
  have f1: "fits cap (length host) st1 (c # s)" and st1: "\<not> has_host st1" "pre st1 = pre st"
    using f st by (simp_all add: fits_def st1_def)
  let ?st' = "st1\<lparr>pre := pre st1 @ ''@'' @ host, has_host := True\<rparr>"
  have ins: "insert_host cap host (c # s) (length (pre st1)) st1 = Some ?st'"
      "fits_mid cap (length host) ?st' (c # s)"
    using insert_host_ok [OF f1 st1(1) order_refl c] by simp_all
  have "anchored st1" using anchored_cong [OF a] st(1) by (simp add: st1_def)
  then obtain k where "k < length (pre st1)" "pre st1 ! k = CHR '':''"
      "\<And>j. parens_from st1 = Some j \<Longrightarrow> k \<le> j \<and> j < length (pre st1)"
    by (auto simp: anchored_def st1_def)
  then have "anchored (?st'\<lparr>pre := pre ?st' @ [c]\<rparr>)"
    by (auto simp: anchored_def st1_def nth_append intro!: exI [of _ k] less_SucI trans_less_add1)
  moreover have "rh_state3 cap host c s st = Some ?st'"
    using True ins(1) st1 unfolding rh_state3_def Let_def st1_def [symmetric] by simp
  ultimately show ?thesis using ins(2) by blast
next
  case False
  then have "\<exists>st'. rh_state3 cap host c s st = Some st' \<and> pre st' = pre st \<and> parens_from st' = parens_from st
      \<and> (has_host st \<longrightarrow> has_host st') \<and> rstate st' = rstate st"
    by (auto simp: rh_state3_def)
  then obtain st' where st': "rh_state3 cap host c s st = Some st'" "pre st' = pre st"
    "parens_from st' = parens_from st" "has_host st \<longrightarrow> has_host st'" "rstate st' = rstate st" by blast
  have "anchored st'" using anchored_cong [OF a] st st' by simp
  with st' fits_mid_same [OF f] anchored_snoc show ?thesis by blast
qed

lemma fits_reset:
  assumes m: "fits_mid cap hl st (c # s)" and a: "anchored (st\<lparr>pre := pre st @ [c]\<rparr>)"
    and st': "st' = (if pre st \<noteq> [] \<and> last (pre st) = CHR '','' \<and> parendepth st = 0
        then st\<lparr>has_host := False, has_bare := False, parens_from := None\<rparr> else st)"
  shows "fits cap hl (st'\<lparr>pre := pre st' @ [c]\<rparr>) s \<and> anchored (st'\<lparr>pre := pre st' @ [c]\<rparr>)"
proof
  have "ncomma s + (if c = CHR '','' then 1 else 0) + (if has_host st' then 0 else 1)
      \<le> ncomma (c # s) + (if has_host st \<and> pend (pre st) = 0 then 0 else 1)"
    by (auto simp: st' pend_def)
  then have "(ncomma s + (if c = CHR '','' then 1 else 0) + (if has_host st' then 0 else 1)) * (hl + 1)
      \<le> (ncomma (c # s) + (if has_host st \<and> pend (pre st) = 0 then 0 else 1)) * (hl + 1)"
    by (rule mult_le_mono1)
  moreover have "pre st' = pre st" by (simp add: st')
  ultimately show "fits cap hl (st'\<lparr>pre := pre st' @ [c]\<rparr>) s"
    using m by (simp add: fits_def fits_mid_def)
  show "anchored (st'\<lparr>pre := pre st' @ [c]\<rparr>)"
    using a by (auto simp: anchored_def st')
qed

lemma rh_step_ok:
  assumes f: "fits cap (length host) st (c # s)" and a: "anchored st" and c: "CHR '','' \<notin> set host"
  shows "\<exists>st'. rh_step cap host c s st = Some st' \<and> fits cap (length host) st' s \<and> anchored st'"
proof -
  define st1 where "st1 = (if rstate st \<noteq> 2 then
          (if c = CHR ''('' then st\<lparr>parendepth := parendepth st + 1\<rparr>
           else if c = CHR '')'' then st\<lparr>parendepth := parendepth st - 1\<rparr>
           else st)
        else st)"
  have st1: "pre st1 = pre st" "has_host st1 = has_host st" "parens_from st1 = parens_from st" "rstate st1 = rstate st"
    by (simp_all add: st1_def)
  have f1: "fits cap (length host) st1 (c # s)" and a1: "anchored st1"
    using f a by (simp_all add: fits_def anchored_def st1)
  define sw where "sw = (if parendepth st1 = 0 \<and> \<not> has_host st1 then
          (if rstate st1 = 0 then
             Some (if c = CHR '':'' then st1\<lparr>rstate := 1\<rparr> else st1)
           else if rstate st1 = 1 then rh_state1 cap host c s st1
           else if rstate st1 = 2 then Some (rh_state2 c st1)
           else rh_state3 cap host c s st1)
        else Some st1)"
  have same: "fits_mid cap (length host) st1 (c # s) \<and> anchored (st1\<lparr>pre := pre st1 @ [c]\<rparr>)"
    using fits_mid_same [OF f1, of st1] anchored_snoc [OF a1] by simp
  have "\<exists>st2. sw = Some st2 \<and> fits_mid cap (length host) st2 (c # s) \<and> anchored (st2\<lparr>pre := pre st2 @ [c]\<rparr>)"
  proof (cases "parendepth st1 = 0 \<and> \<not> has_host st1")
    case False
    with same show ?thesis by (auto simp: sw_def)
  next
    case True
    consider "rstate st1 = 0" | "rstate st1 = 1" | "rstate st1 = 2" | "rstate st1 \<notin> {0, 1, 2}" by auto
    then show ?thesis
    proof cases
      case 1
      let ?st2 = "if c = CHR '':'' then st1\<lparr>rstate := 1\<rparr> else st1"
      have "fits_mid cap (length host) ?st2 (c # s)" using f1 by (rule fits_mid_same) simp_all
      moreover have "anchored (?st2\<lparr>pre := pre ?st2 @ [c]\<rparr>)"
        using a1 1 by (auto simp: anchored_def nth_append intro!: exI [of _ "length (pre st1)"])
      ultimately show ?thesis using True 1 by (simp add: sw_def)
    next
      case 2
      then show ?thesis using rh_state1_ok [OF f1 a1 2 _ c] True by (simp add: sw_def)
    next
      case 3
      have "fits_mid cap (length host) (rh_state2 c st1) (c # s)"
        using f1 by (rule fits_mid_same) (simp_all add: rh_state2_def)
      moreover have "anchored (rh_state2 c st1)"
        using anchored_cong [OF a1] 3 by (simp add: rh_state2_def)
      ultimately show ?thesis using True 3 anchored_snoc by (auto simp: sw_def)
    next
      case 4
      then show ?thesis using rh_state3_ok [OF f1 a1 _ _ c] True by (simp add: sw_def)
    qed
  qed
  then obtain st2 where st2: "sw = Some st2" "fits_mid cap (length host) st2 (c # s)"
    "anchored (st2\<lparr>pre := pre st2 @ [c]\<rparr>)" by blast
  from fits_reset [OF st2(2,3) refl] st2(1) show ?thesis
    unfolding rh_step_def Let_def st1_def [symmetric] sw_def [symmetric] by simp
qed

lemma rh_loop_ok:
  assumes "fits cap (length host) st s" "anchored st" "CHR '','' \<notin> set host"
  shows "\<exists>st'. rh_loop cap host s st = Some st' \<and> length (pre st') + 1 \<le> cap"
  using assms
proof (induction s arbitrary: st)
  case Nil
  then show ?case by (simp add: fits_def)
next
  case (Cons c s)
  then show ?case using rh_step_ok [OF Cons.prems] by fastforce
qed

lemma ncomma_le: "ncomma s + 1 \<le> addresscount s"
  by (induction s) (auto simp: ncomma_def addresscount_def)

text \<open>
  C39. \<open>reply_hack\<close> never writes outside the buffer it allocates and never runs out of it to the
  left: for every header, and every host name without a comma, it returns a text that fits the
  allocated size with its terminator.
\<close>

theorem reply_hack_fits:
  assumes "CHR '','' \<notin> set host"
  shows "\<exists>out. reply_hack buf host = Some out
    \<and> length out < length buf + addresscount buf * (length host + 1) + 1"
proof -
  let ?cap = "length buf + addresscount buf * (length host + 1) + 1"
  have "(ncomma buf + 1) * (length host + 1) \<le> addresscount buf * (length host + 1)"
    using ncomma_le by (rule mult_le_mono1)
  then have "fits ?cap (length host) rh_init buf" by (simp add: fits_def rh_init_def)
  moreover have "anchored rh_init" by (simp add: anchored_def rh_init_def)
  ultimately obtain st' where "rh_loop ?cap host buf rh_init = Some st'" "length (pre st') + 1 \<le> ?cap"
    using rh_loop_ok assms by blast
  then show ?thesis by (auto simp: reply_hack_def Let_def)
qed

theorem reply_hack_fits_witness:
  "\<exists>out. reply_hack (''To: u'' @ [LF]) ''h.org'' = Some out \<and> length out < 25"
proof -
  have "addresscount (''To: u'' @ [LF]) = 3" by (simp add: addresscount_def isspace_def)
  then show ?thesis using reply_hack_fits [of "''h.org''" "''To: u'' @ [LF]"] by simp
qed

section \<open>What the rewriting does to a plain address\<close>

definition plain :: "char \<Rightarrow> bool" where
  "plain c \<longleftrightarrow> \<not> isspace c \<and> c \<notin> set ''(),;<>@!:'' \<and> c \<noteq> DQUOTE \<and> c \<noteq> BACKSLASH \<and> c \<noteq> NUL"

lemma plainD:
  "plain c \<Longrightarrow> c \<noteq> CHR ''('' \<and> c \<noteq> CHR '')'' \<and> c \<noteq> CHR '','' \<and> c \<noteq> CHR '';'' \<and> c \<noteq> CHR ''<''
    \<and> c \<noteq> CHR ''>'' \<and> c \<noteq> CHR ''@'' \<and> c \<noteq> CHR ''!'' \<and> c \<noteq> CHR '':'' \<and> c \<noteq> DQUOTE \<and> c \<noteq> BACKSLASH
    \<and> c \<noteq> NUL \<and> \<not> isspace c \<and> c \<noteq> LF \<and> c \<noteq> SP"
  by (auto simp: plain_def isspace_def)

text \<open>Before the colon.\<close>

lemma rh_loop_name:
  "CHR '':'' \<notin> set n \<Longrightarrow> CHR ''('' \<notin> set n \<Longrightarrow> CHR '')'' \<notin> set n \<Longrightarrow> CHR '','' \<notin> set n \<Longrightarrow> CHR '','' \<notin> set p \<Longrightarrow>
   rh_loop cap host (n @ s) (rh_init\<lparr>pre := p\<rparr>) = rh_loop cap host s (rh_init\<lparr>pre := p @ n\<rparr>)"
proof (induction n arbitrary: p)
  case (Cons c n)
  have "p \<noteq> [] \<longrightarrow> last p \<noteq> CHR '',''" using Cons.prems(5) last_in_set by fastforce
  then have "rh_step cap host c (n @ s) (rh_init\<lparr>pre := p\<rparr>) = Some (rh_init\<lparr>pre := p @ [c]\<rparr>)"
    using Cons.prems by (auto simp: rh_step_def rh_init_def)
  then show ?case using Cons by simp
qed simp

lemma rh_loop_header:
  assumes "CHR '':'' \<notin> set n" "CHR ''('' \<notin> set n" "CHR '')'' \<notin> set n" "CHR '','' \<notin> set n"
    "char_at s 0 \<noteq> CHR ''(''"
  shows "rh_loop cap host (n @ '': '' @ s) rh_init
    = rh_loop cap host s (rh_init\<lparr>pre := n @ '': '', rstate := 1, last_nws := NUL\<rparr>)"
proof -
  have "n \<noteq> [] \<longrightarrow> last n \<noteq> CHR '',''" using assms(4) last_in_set by fastforce
  then have "rh_step cap host (CHR '':'') (SP # s) (rh_init\<lparr>pre := n\<rparr>) = Some (rh_init\<lparr>pre := n @ '':'', rstate := 1\<rparr>)"
    by (auto simp: rh_step_def rh_init_def)
  moreover have "rh_step cap host SP s (rh_init\<lparr>pre := n @ '':'', rstate := 1\<rparr>)
      = Some (rh_init\<lparr>pre := n @ '': '', rstate := 1, last_nws := NUL\<rparr>)"
    using assms(5) by (simp add: rh_step_def rh_init_def rh_state1_def isspace_def HEADER_END_def)
  moreover have "rh_init\<lparr>pre := []\<rparr> = rh_init" by (simp add: rh_init_def)
  ultimately show ?thesis
    using rh_loop_name [of n "[]" cap host "'': '' @ s"] assms by simp
qed

definition in_addr :: "string \<Rightarrow> char \<Rightarrow> bool \<Rightarrow> rh" where
  "in_addr p l b = \<lparr>pre = p, parendepth = 0, rstate = 1, has_host = False, has_bare = b, last_nws = l,
     parens_from = None\<rparr>"

lemma rh_loop_plain:
  "list_all plain u \<Longrightarrow> p \<noteq> [] \<Longrightarrow> last p \<noteq> CHR '','' \<Longrightarrow> char_at s 0 \<noteq> CHR ''('' \<Longrightarrow>
   rh_loop cap host (u @ s) (in_addr p l b)
     = rh_loop cap host s (in_addr (p @ u) (if u = [] then l else last u) (b \<or> u \<noteq> []))"
proof (induction u arbitrary: p l b)
  case (Cons c u)
  have c: "c \<noteq> CHR ''(''" "c \<noteq> CHR '')''" "c \<noteq> CHR '',''" "c \<noteq> CHR ''<''" "c \<noteq> CHR ''@''" "c \<noteq> CHR ''!''"
      "c \<noteq> DQUOTE" "c \<noteq> LF" "\<not> isspace c"
    using Cons.prems(1) plainD [of c] by auto
  have nx: "char_at (u @ s) 0 \<noteq> CHR ''(''"
    using Cons.prems(1,4) plainD by (cases u) (auto simp: char_at_def)
  have "rh_step cap host c (u @ s) (in_addr p l b) = Some (in_addr (p @ [c]) c True)"
    using c nx Cons.prems(2,3) by (simp add: rh_step_def in_addr_def rh_state1_def HEADER_END_def)
  then show ?case using Cons.IH [of "p @ [c]" c True] Cons.prems c by simp
qed simp

lemma rh_loop_after_host:
  "CHR ''('' \<notin> set d \<Longrightarrow> CHR '')'' \<notin> set d \<Longrightarrow> CHR '','' \<notin> set d \<Longrightarrow> p \<noteq> [] \<Longrightarrow> last p \<noteq> CHR '','' \<Longrightarrow> has_host st \<Longrightarrow>
   rstate st = 1 \<Longrightarrow> pre st = p \<Longrightarrow>
   \<exists>st'. rh_loop cap host d st = Some st' \<and> pre st' = p @ d"
proof (induction d arbitrary: p st)
  case (Cons c d)
  have "rh_step cap host c d st = Some (st\<lparr>pre := p @ [c]\<rparr>)"
    using Cons.prems by (auto simp: rh_step_def)
  moreover have "\<exists>st'. rh_loop cap host d (st\<lparr>pre := p @ [c]\<rparr>) = Some st' \<and> pre st' = (p @ [c]) @ d"
    using Cons.prems by (intro Cons.IH) auto
  ultimately show ?case by simp
qed simp

lemma rewritten_headers_name:
  "h \<in> set rewritten_headers \<Longrightarrow> \<exists>n. h = n @ '':'' \<and> CHR '':'' \<notin> set n \<and> CHR ''('' \<notin> set n
     \<and> CHR '')'' \<notin> set n \<and> CHR '','' \<notin> set n"
  by (rule exI [of _ "butlast h"]) (auto simp: rewritten_headers_def)

lemma has_iprefix_same: "has_iprefix (p @ s) p"
  by (induction p) auto

text \<open>
  In a header that is rewritten, a plain local name gets the host name appended, and an
  address that has a host part already is left as it is.
\<close>

theorem reply_hack_plain:
  assumes h: "h \<in> set rewritten_headers" and u: "u \<noteq> []" "list_all plain u" and host: "CHR '','' \<notin> set host"
    and d: "list_all plain d"
  shows "reply_hack (h @ '' '' @ u @ [LF]) host = Some (h @ '' '' @ u @ ''@'' @ host @ [LF])
    \<and> reply_hack (h @ '' '' @ u @ ''@'' @ d @ [LF]) host = Some (h @ '' '' @ u @ ''@'' @ d @ [LF])"
proof -
  obtain n where n: "h = n @ '':''" "CHR '':'' \<notin> set n" "CHR ''('' \<notin> set n" "CHR '')'' \<notin> set n" "CHR '','' \<notin> set n"
    using rewritten_headers_name [OF h] by blast
  obtain c v where cv: "u = c # v" "plain c" using u by (cases u) auto
  let ?p = "n @ '': '' @ u"
  have some: "\<not> list_all (\<lambda>h'. \<not> has_iprefix (h @ s) h') rewritten_headers" for s
    using h has_iprefix_same [of h s] by (auto simp: list_all_iff)
  have start: "rh_loop cap host (n @ '': '' @ u @ s) rh_init = rh_loop cap host s (in_addr ?p (last u) True)"
    if "char_at s 0 \<noteq> CHR ''(''" for cap s
  proof -
    have "char_at (u @ s) 0 \<noteq> CHR ''(''" using cv plainD by simp
    then have "rh_loop cap host (n @ '': '' @ u @ s) rh_init
        = rh_loop cap host (u @ s) (in_addr (n @ '': '') NUL False)"
      using rh_loop_header [OF n(2-5), of "u @ s" cap host] by (simp add: in_addr_def rh_init_def)
    also have "\<dots> = rh_loop cap host s (in_addr ?p (last u) True)"
      using rh_loop_plain [OF u(2), of "n @ '': ''" s cap host NUL False] that u(1) by simp
    finally show ?thesis .
  qed
  have lu: "last u \<noteq> CHR '';''" "last u \<noteq> CHR '',''" "\<not> isspace (last u)"
    using plainD [of "last u"] u by (auto simp: list_all_iff)
  have "reply_hack (h @ '' '' @ u @ [LF]) host = Some (h @ '' '' @ u @ ''@'' @ host @ [LF])"
  proof -
    define cap where "cap = length (h @ '' '' @ u @ [LF]) + addresscount (h @ '' '' @ u @ [LF]) * (length host + 1) + 1"
    have ac: "1 \<le> addresscount (h @ '' '' @ u @ [LF])" by (simp add: addresscount_def)
    have room: "length (?p @ [LF]) + length host + 2 \<le> cap"
      using mult_le_mono1 [OF ac, of "length host + 1"] by (simp add: cap_def n(1))
    obtain m where m: "length ?p = Suc m" by simp
    have "scan_back (?p @ [LF]) (Suc m) = scan_back (?p @ [LF]) m"
    proof -
      have "char_at (?p @ [LF]) (Suc m) = LF" using char_at_here [of ?p LF "[]"] m by metis
      then show ?thesis by (subst scan_back.simps) (simp add: isspace_def)
    qed
    moreover have "char_at (?p @ [LF]) m = last u"
    proof -
      have "(?p @ [LF]) ! m = ?p ! m" using m by (metis lessI nth_append)
      also have "\<dots> = last ?p" using m by (metis last_conv_nth diff_Suc_1 list.size(3) nat.simps(3))
      finally show ?thesis using m u(1) by (simp add: char_at_def)
    qed
    ultimately have sb: "scan_back (?p @ [LF]) (length ?p) = Some m"
      using lu m scan_back.simps [of "?p @ [LF]" m] by metis
    let ?st = "in_addr ?p (last u) True"
    have "rh_state1 cap host LF [] ?st = Some (?st\<lparr>pre := ?p @ ''@'' @ host, has_host := True\<rparr>)"
    proof -
      have "insert_host cap host [LF] (Suc m) ?st = Some (?st\<lparr>pre := ?p @ ''@'' @ host, has_host := True\<rparr>)"
        using room m by (simp add: insert_host_def in_addr_def)
      then show ?thesis
        using sb lu by (simp add: rh_state1_def in_addr_def HEADER_END_def isspace_def Let_def)
    qed
    moreover have "last (?p @ ''@'' @ host) \<noteq> CHR '',''"
      using host last_in_set [of host] by (cases "host = []") (auto simp: last_append dest: sym)
    ultimately have "rh_step cap host LF [] ?st
        = Some (?st\<lparr>pre := ?p @ ''@'' @ host @ [LF], has_host := True\<rparr>)"
      by (simp add: rh_step_def in_addr_def)
    then have "map_option pre (rh_loop cap host (h @ '' '' @ u @ [LF]) rh_init)
        = Some (h @ '' '' @ u @ ''@'' @ host @ [LF])"
      using start [of "[LF]" cap] by (simp add: n(1))
    then show ?thesis
      using some [of "'' '' @ u @ [LF]"] by (simp add: reply_hack_def Let_def cap_def)
  qed
  moreover have "reply_hack (h @ '' '' @ u @ ''@'' @ d @ [LF]) host = Some (h @ '' '' @ u @ ''@'' @ d @ [LF])"
  proof -
    define cap where "cap = length (h @ '' '' @ u @ ''@'' @ d @ [LF])
       + addresscount (h @ '' '' @ u @ ''@'' @ d @ [LF]) * (length host + 1) + 1"
    let ?st = "in_addr ?p (last u) True"
    have lp: "last ?p = last u" "?p \<noteq> []" using u(1) by simp_all
    have st: "rh_step cap host (CHR ''@'') (d @ [LF]) ?st
        = Some (?st\<lparr>last_nws := CHR ''@'', has_host := True, pre := ?p @ ''@''\<rparr>)"
      using lu(2) u(1) by (simp add: rh_step_def rh_state1_def in_addr_def isspace_def)
    have "CHR ''('' \<notin> set (d @ [LF])" "CHR '')'' \<notin> set (d @ [LF])" "CHR '','' \<notin> set (d @ [LF])"
      using d by (auto simp: list_all_iff dest!: plainD)
    then obtain st' where "rh_loop cap host (d @ [LF]) (?st\<lparr>last_nws := CHR ''@'', has_host := True, pre := ?p @ ''@''\<rparr>) = Some st'"
        "pre st' = (?p @ ''@'') @ d @ [LF]"
      using rh_loop_after_host [of "d @ [LF]" "?p @ ''@''"
          "?st\<lparr>last_nws := CHR ''@'', has_host := True, pre := ?p @ ''@''\<rparr>" cap host]
      by (auto simp: in_addr_def)
    then have "map_option pre (rh_loop cap host (h @ '' '' @ u @ ''@'' @ d @ [LF]) rh_init)
        = Some (h @ '' '' @ u @ ''@'' @ d @ [LF])"
      using start [of "''@'' @ d @ [LF]" cap] st by (simp add: n(1))
    then show ?thesis
      using some [of "'' '' @ u @ ''@'' @ d @ [LF]"] by (simp add: reply_hack_def Let_def cap_def)
  qed
  ultimately show ?thesis by blast
qed

theorem reply_hack_plain_witness:
  "reply_hack (''Reply-To: joe'' @ [LF]) ''h.org'' = Some (''Reply-To: joe@h.org'' @ [LF])"
  using reply_hack_plain [of "''Reply-To:''" "''joe''" "''h.org''" "[]"]
  by (simp add: rewritten_headers_def plain_def isspace_def)

text \<open>
  The character behind a comma is not looked at when the address before the comma was
  rewritten: an opening angle bracket there is missed, and the host name is put behind the
  closing bracket.
\<close>

theorem reply_hack_comma_bracket:
  "reply_hack (''To: joe,<jane>'' @ [LF]) ''h'' = Some (''To: joe@h,<jane>@h'' @ [LF])"
  by code_simp

end
