(* ===== verification/Nxtaddr.thy ===== *)
theory Nxtaddr
  imports Rfc822
begin

section \<open>The address scanner\<close>

text \<open>Safety, progress of the sequence of calls, and the addresses found in a header.\<close>

definition nxt_ok :: "nat \<Rightarrow> nxt \<Rightarrow> bool" where
  "nxt_ok n st \<longleftrightarrow> tp st < length (address st) \<and> length (address st) = n"

lemma put_ok:
  assumes "nxt_ok n st"
  shows "\<exists>st'. put c st = Some st' \<and> nxt_ok n st' \<and> nstate st' = nstate st \<and> oldstate st' = oldstate st
    \<and> (c = NUL \<longrightarrow> NUL \<in> set (address st'))"
  using assms by (auto simp: put_def nxt_ok_def intro: set_update_memI)

lemma nxt_ok_simps [simp]:
  "nxt_ok n (st\<lparr>nstate := x\<rparr>) = nxt_ok n st" "nxt_ok n (st\<lparr>oldstate := x\<rparr>) = nxt_ok n st"
  "nxt_ok n (st\<lparr>hp := y\<rparr>) = nxt_ok n st"
  by (simp_all add: nxt_ok_def)

lemma nxt_ok_tp: "nxt_ok n st \<Longrightarrow> nxt_ok n (st\<lparr>tp := 0\<rparr>)"
  by (auto simp: nxt_ok_def)

lemma cstr_of_short: "NUL \<in> set buf \<Longrightarrow> length (cstr_of buf) < length buf"
  by (induction buf) (auto simp: cstr_of_def)

definition no_trailing_escape :: "string \<Rightarrow> bool" where
  "no_trailing_escape s \<longleftrightarrow> s = [] \<or> last s \<noteq> BACKSLASH"

lemma no_trailing_escape_tl: "no_trailing_escape (c # s) \<Longrightarrow> no_trailing_escape s"
  by (auto simp: no_trailing_escape_def)

text \<open>
  What holds after a turn: no access outside the buffer and the header, a string that fits the
  buffer, and progress: an address is only returned when the rest has become shorter than \<open>L\<close>
  or the header has ended.
\<close>

fun good_turn :: "nat \<Rightarrow> nat \<Rightarrow> turn option \<Rightarrow> bool" where
  "good_turn n L None = False"
| "good_turn n L (Some (Ret a s st)) \<longleftrightarrow> nxt_ok n st \<and> no_trailing_escape s
     \<and> (\<forall>x. a = Some x \<longrightarrow> length x < n \<and> tp st = 0 \<and> (length s < L \<or> nstate st = ENDIT_ALL))"
| "good_turn n L (Some (Go p s st)) \<longleftrightarrow> nxt_ok n st \<and> no_trailing_escape s \<and> length s \<le> L
     \<and> (tp st = 0 \<or> length s < L)"

lemma found_good:
  "nxt_ok n st \<Longrightarrow> tp st = 0 \<Longrightarrow> NUL \<in> set (address st) \<Longrightarrow> no_trailing_escape s \<Longrightarrow>
   length s < L \<or> nstate st = ENDIT_ALL \<Longrightarrow> good_turn n L (found s st)"
  using cstr_of_short [of "address st"] by (simp add: found_def nxt_ok_def)

lemma put_Go_good:
  assumes "nxt_ok n st" "no_trailing_escape s" "length s < L" "\<And>st'. nxt_ok n st' \<Longrightarrow> nxt_ok n (f st')"
  shows "good_turn n L (do { st' \<leftarrow> put c st; Some (Go p s (f st')) })"
  using put_ok [OF assms(1), of c] assms by auto

lemma put_found_good:
  assumes "nxt_ok n st" "no_trailing_escape s" "length s < L"
  shows "good_turn n L (do { st' \<leftarrow> put NUL st; found s (st'\<lparr>nstate := x, tp := 0\<rparr>) })"
proof -
  obtain st' where st': "put NUL st = Some st'" "nxt_ok n st'" "NUL \<in> set (address st')"
    using put_ok [OF assms(1), of NUL] by auto
  have "nxt_ok n (st'\<lparr>nstate := x, tp := 0\<rparr>)" using nxt_ok_tp [of n "st'\<lparr>nstate := x\<rparr>"] st'(2) by simp
  then show ?thesis using st'(1,3) assms(2,3) found_good [of n "st'\<lparr>nstate := x, tp := 0\<rparr>" s L] by simp
qed

lemma trim_tp_le: "trim_tp a k \<le> k"
  by (simp add: trim_tp_def)

lemma at_header_end_good:
  assumes "nxt_ok n st" "no_trailing_escape s"
  shows "good_turn n L (at_header_end s st)"
proof (cases "tp st = 0")
  case True
  then show ?thesis using assms by (simp add: at_header_end_def)
next
  case False
  let ?i = "trim_tp (address st) (tp st)"
  have i: "?i < length (address st)" using assms(1) trim_tp_le [of "address st" "tp st"] by (simp add: nxt_ok_def)
  let ?st = "st\<lparr>nstate := ENDIT_ALL, address := (address st)[?i := NUL], tp := 0\<rparr>"
  have "nxt_ok n ?st" using assms(1) i by (auto simp: nxt_ok_def)
  moreover have "NUL \<in> set (address ?st)" using i by (simp add: set_update_memI)
  ultimately show ?thesis
    using False i assms(2) found_good [of n ?st s L] by (simp add: at_header_end_def Let_def)
qed

lemma in_dquote_good:
  assumes "nxt_ok n st" "no_trailing_escape s'" "length s' < L"
  shows "good_turn n L (in_dquote parens c s' st)"
  unfolding in_dquote_def by (rule put_Go_good [OF assms]) simp

lemma in_brackets_good:
  assumes "nxt_ok n st" "no_trailing_escape s'" "length s' < L"
  shows "good_turn n L (in_brackets parens c s' st)"
proof -
  note 1 = put_found_good [OF assms, of SKIP_JUNK]
  note 2 = put_Go_good [OF assms, of "\<lambda>st1. st1\<lparr>oldstate := INSIDE_BRACKETS, nstate := INSIDE_DQUOTE\<rparr>" c parens]
  note 3 = put_Go_good [OF assms, of "\<lambda>st1. st1" c parens]
  show ?thesis
    unfolding in_brackets_def using 1 2 3 assms nxt_ok_tp by (cases "c = DQUOTE") simp_all
qed

lemma in_bare_address_good:
  assumes "nxt_ok n st" "no_trailing_escape (c # s')" "length (c # s') \<le> L" "tp st = 0 \<or> length (c # s') < L"
  shows "good_turn n L (in_bare_address parens c s' st)"
proof -
  have l: "no_trailing_escape s'" "length s' < L" using assms(2,3) no_trailing_escape_tl by auto
  have 1: "good_turn n L (do { st' \<leftarrow> put NUL st; found (c # s') (st'\<lparr>nstate := SKIP_JUNK, tp := 0\<rparr>) })"
    if "tp st \<noteq> 0"
    using assms that by (intro put_found_good) simp_all
  have ok: "nxt_ok n (st\<lparr>oldstate := x, nstate := y\<rparr>)" for x y using assms(1) by (simp add: nxt_ok_def)
  have 2: "good_turn n L (do { st1 \<leftarrow> put c (st\<lparr>oldstate := nstate st, nstate := INSIDE_DQUOTE\<rparr>);
      Some (Go parens s' st1) })"
    using put_Go_good [OF ok l, of "\<lambda>st. st"] by simp
  note 3 = put_Go_good [OF assms(1) l, of "\<lambda>st. st" c parens]
  show ?thesis
    unfolding in_bare_address_def using 1 2 3 assms l
      nxt_ok_tp [of n "st\<lparr>nstate := INSIDE_BRACKETS\<rparr>"]
    by (cases "c = DQUOTE"; cases "c = CHR '',''") simp_all
qed

lemma in_skip_junk_good:
  assumes "nxt_ok n st" "no_trailing_escape (c # s')" "length (c # s') \<le> L" "tp st = 0 \<or> length (c # s') < L"
  shows "good_turn n L (in_skip_junk parens c s' st)"
proof -
  have l: "no_trailing_escape s'" "length s' < L" using assms(2,3) no_trailing_escape_tl by auto
  have ok: "nxt_ok n (st\<lparr>oldstate := x, nstate := y\<rparr>)" for x y using assms(1) by (simp add: nxt_ok_def)
  have 2: "good_turn n L (do { st1 \<leftarrow> put c (st\<lparr>oldstate := SKIP_JUNK, nstate := INSIDE_DQUOTE\<rparr>);
      Some (Go parens s' st1) })"
    using put_Go_good [OF ok l, of "\<lambda>st. st"] by simp
  show ?thesis
    unfolding in_skip_junk_def using 2 assms l nxt_ok_tp [OF ok, of SKIP_JUNK INSIDE_BRACKETS]
      nxt_ok_tp [of n "st\<lparr>nstate := INSIDE_BRACKETS\<rparr>"] by (cases "c = DQUOTE") simp_all
qed

lemma at_escape_good:
  assumes "nxt_ok n st" "no_trailing_escape (c # s')" "length (c # s') \<le> L" "c = BACKSLASH"
  shows "good_turn n L (at_escape parens c s' st)"
proof -
  obtain d s2 where s': "s' = d # s2" using assms(2,4) by (cases s') (auto simp: no_trailing_escape_def)
  obtain st1 where st1: "put c st = Some st1" "nxt_ok n st1" using put_ok [OF assms(1)] by blast
  obtain st2 where st2: "put d st1 = Some st2" "nxt_ok n st2" using put_ok [OF st1(2)] by blast
  have "no_trailing_escape s'" "no_trailing_escape s2" using assms(2) s' by (auto simp: no_trailing_escape_def split: if_splits)
  then show ?thesis
    using st1 st2 s' assms(1,3) by (simp add: at_escape_def)
qed

lemma nxt_turn_good:
  assumes "nxt_ok n st" "no_trailing_escape (c # s')" "length (c # s') \<le> L" "tp st = 0 \<or> length (c # s') < L"
  shows "good_turn n L (nxt_turn parens c s' st)"
proof -
  have l: "no_trailing_escape s'" "length s' < L" using assms(2,3) no_trailing_escape_tl by auto
  note good = at_header_end_good [OF assms(1,2)] at_escape_good [OF assms(1-3)] in_skip_junk_good [OF assms]
    in_bare_address_good [OF assms] in_dquote_good [OF assms(1) l] in_brackets_good [OF assms(1) l]
  have p: "good_turn n L (in_parens parens c s' st)"
    using assms(1) l by (simp add: in_parens_def Let_def)
  show ?thesis
    unfolding nxt_turn_def using good p assms l by (cases "nstate st") simp_all
qed

lemma nxt_loop_good:
  "nxt_ok n st \<Longrightarrow> no_trailing_escape s \<Longrightarrow> length s \<le> L \<Longrightarrow> tp st = 0 \<or> length s < L \<Longrightarrow>
   \<exists>a st' s'. nxt_loop parens s st = Some (a, st') \<and> hp st' = Some s' \<and> good_turn n L (Some (Ret a s' st'))"
proof (induction parens s st rule: nxt_loop.induct)
  case (1 parens st)
  then show ?case by simp
next
  case (2 parens c s' st)
  note good = nxt_turn_good [OF 2(2,3,4,5), of parens]
  show ?case
  proof (cases "nxt_turn parens c s' st")
    case None
    with good show ?thesis by simp
  next
    case (Some t)
    show ?thesis
    proof (cases t)
      case (Ret a s2 st2)
      with good Some show ?thesis by auto
    next
      case (Go p s2 st2)
      with good Some have "good_turn n L (Some (Go p s2 st2))" by simp
      with "2.IH" [OF Some Go] Some Go show ?thesis by simp
    qed
  qed
qed

text \<open>
  C36. \<open>nxtaddr\<close> stays inside the header and inside its buffer, whatever state an earlier call
  left: for a header that does not end in a backslash it returns, and an address it returns is
  shorter than the buffer.
\<close>

theorem nxtaddr_safe:
  assumes "bufsiz > 0" "length (address st) = bufsiz" "tp st < bufsiz"
    "h = None \<longrightarrow> (\<forall>s. hp st = Some s \<longrightarrow> no_trailing_escape s)" "\<forall>s. h = Some s \<longrightarrow> no_trailing_escape s"
  shows "\<exists>a st'. nxtaddr h st = Some (a, st') \<and> length (address st') = bufsiz \<and> tp st' < bufsiz
    \<and> (\<forall>s. hp st' = Some s \<longrightarrow> no_trailing_escape s) \<and> (\<forall>x. a = Some x \<longrightarrow> length x < bufsiz)"
proof (cases h)
  case (Some s)
  let ?st = "st\<lparr>hp := Some s, nstate := START_HDR, tp := 0\<rparr>"
  have "nxt_ok bufsiz ?st" using assms by (simp add: nxt_ok_def)
  from nxt_loop_good [OF this, of s "length s" 0] show ?thesis
    using Some assms by (auto simp: nxtaddr_def nxt_ok_def)
next
  case None
  have ok: "nxt_ok bufsiz st" using assms by (simp add: nxt_ok_def)
  show ?thesis
  proof (cases "hp st")
    case None
    with \<open>h = None\<close> assms show ?thesis by (simp add: nxtaddr_def)
  next
    case (Some s)
    from nxt_loop_good [OF ok, of s "Suc (length s)" 0] show ?thesis
      using Some \<open>h = None\<close> assms by (auto simp: nxtaddr_def nxt_ok_def)
  qed
qed

theorem nxtaddr_safe_witness:
  "\<exists>a st'. nxtaddr (Some ''To: joe'') (nxt_init 4) = Some (a, st') \<and> tp st' < 4"
  using nxtaddr_safe [of 4 "nxt_init 4" "Some ''To: joe''"]
  by (auto simp: nxt_init_def no_trailing_escape_def)

text \<open>
  A header whose last character is a backslash outside a comment is read beyond its end:
  the scanner takes the terminating NUL as the escaped character and steps over it.
\<close>

theorem nxtaddr_reads_past_end:
  "nxtaddr (Some ('':a'' @ [BACKSLASH])) (nxt_init 4) = None"
  by code_simp

section \<open>The addresses of a header\<close>

text \<open>The sequence of calls that collects all addresses of a header, with fuel for the calls.\<close>

fun addresses :: "nat \<Rightarrow> string option \<Rightarrow> nxt \<Rightarrow> string list option" where
  "addresses 0 h st = None"
| "addresses (Suc k) h st =
     (case nxtaddr h st of
        None \<Rightarrow> None
      | Some (None, st') \<Rightarrow> Some []
      | Some (Some a, st') \<Rightarrow> map_option ((#) a) (addresses k None st'))"

text \<open>An address is bare or stands in angle brackets behind a phrase.\<close>

datatype item = Bare string | Angle string string

fun item_addr :: "item \<Rightarrow> string" where
  "item_addr (Bare a) = a"
| "item_addr (Angle p a) = a"

fun item_text :: "item \<Rightarrow> string" where
  "item_text (Bare a) = a"
| "item_text (Angle p a) = p @ ''<'' @ a @ ''>''"

definition addr_char :: "char \<Rightarrow> bool" where
  "addr_char c \<longleftrightarrow> \<not> isspace c \<and> c \<notin> set ''(),<>'' \<and> c \<noteq> DQUOTE \<and> c \<noteq> BACKSLASH \<and> c \<noteq> NUL"

definition phrase_char :: "char \<Rightarrow> bool" where
  "phrase_char c \<longleftrightarrow> c = SP \<or> addr_char c"

fun item_ok :: "nat \<Rightarrow> item \<Rightarrow> bool" where
  "item_ok n (Bare a) \<longleftrightarrow> a \<noteq> [] \<and> list_all addr_char a \<and> length a < n"
| "item_ok n (Angle p a) \<longleftrightarrow> list_all phrase_char p \<and> list_all addr_char a \<and> length a < n"

fun items_text :: "item list \<Rightarrow> string" where
  "items_text [] = []"
| "items_text [i] = item_text i"
| "items_text (i # j # is) = item_text i @ '', '' @ items_text (j # is)"

lemma addr_charD:
  "addr_char c \<Longrightarrow> c \<noteq> CHR ''('' \<and> c \<noteq> CHR '')'' \<and> c \<noteq> CHR '','' \<and> c \<noteq> CHR ''<'' \<and> c \<noteq> CHR ''>''
    \<and> c \<noteq> DQUOTE \<and> c \<noteq> BACKSLASH \<and> c \<noteq> NUL \<and> \<not> isspace c \<and> c \<noteq> LF \<and> c \<noteq> SP"
  by (auto simp: addr_char_def isspace_def)

lemma HEADER_END_not_LF: "c \<noteq> LF \<Longrightarrow> \<not> HEADER_END (c # s)"
  by (simp add: HEADER_END_def)

text \<open>The buffer while the characters of \<open>a\<close> are collected.\<close>

definition holds :: "nat \<Rightarrow> astate \<Rightarrow> string \<Rightarrow> nxt \<Rightarrow> bool" where
  "holds n x a st \<longleftrightarrow> nstate st = x \<and> tp st = length a \<and> length (address st) = n \<and> length a < n
     \<and> take (length a) (address st) = a"

lemma holds_put:
  assumes "holds n x a st" "length a + 1 < n"
  shows "\<exists>st'. put c st = Some st' \<and> holds n x (a @ [c]) st'"
  using assms by (auto simp: holds_def put_def take_Suc_conv_app_nth)

lemma holds_ok: "holds n x a st \<Longrightarrow> nxt_ok n st"
  by (auto simp: holds_def nxt_ok_def)

lemma holds_empty: "holds n x [] (st\<lparr>nstate := x, tp := 0\<rparr>) \<longleftrightarrow> length (address st) = n \<and> 0 < n"
  by (auto simp: holds_def)

lemma holds_put_NUL:
  assumes "holds n x a st" "c_string a"
  shows "\<exists>st'. put NUL st = Some st' \<and> cstr_of (address st') = a \<and> length (address st') = n"
proof -
  have "take (length a) (address st) = a" "length a < length (address st)"
    using assms by (auto simp: holds_def)
  then have "(address st)[length a := NUL] = a @ NUL # drop (Suc (length a)) (address st)"
    by (metis upd_conv_take_nth_drop)
  then have "cstr_of ((address st)[length a := NUL]) = a"
    using cstr_of_append_NUL [OF assms(2)] by simp
  then show ?thesis using assms(1) by (auto simp: holds_def put_def)
qed

lemma addr_c_string: "list_all addr_char a \<Longrightarrow> c_string a"
  by (auto simp: c_string_def list_all_iff dest!: addr_charD)

lemma collect_bare:
  "list_all addr_char b \<Longrightarrow> length (a @ b) < n \<Longrightarrow> holds n BARE_ADDRESS a st \<Longrightarrow>
   \<exists>st'. nxt_loop p (b @ s) st = nxt_loop p s st' \<and> holds n BARE_ADDRESS (a @ b) st'"
proof (induction b arbitrary: a st)
  case (Cons c b)
  have c: "c \<noteq> CHR ''(''" "c \<noteq> CHR '',''" "c \<noteq> CHR ''<''" "c \<noteq> DQUOTE" "c \<noteq> BACKSLASH" "\<not> isspace c" "c \<noteq> LF"
    using Cons.prems(1) addr_charD [of c] by auto
  obtain st1 where st1: "put c st = Some st1" "holds n BARE_ADDRESS (a @ [c]) st1"
    using holds_put [OF Cons.prems(3), of c] Cons.prems(2) by auto
  have "nxt_turn p c (b @ s) st = Some (Go p (b @ s) st1)"
    using c st1 Cons.prems(3)
    by (simp add: nxt_turn_def HEADER_END_not_LF in_bare_address_def holds_def)
  then show ?case using Cons.IH [OF _ _ st1(2)] Cons.prems by simp
qed (auto intro!: exI)

lemma collect_brackets:
  "list_all addr_char b \<Longrightarrow> length (a @ b) < n \<Longrightarrow> holds n INSIDE_BRACKETS a st \<Longrightarrow>
   \<exists>st'. nxt_loop p (b @ s) st = nxt_loop p s st' \<and> holds n INSIDE_BRACKETS (a @ b) st'"
proof (induction b arbitrary: a st)
  case (Cons c b)
  have c: "c \<noteq> CHR ''>''" "c \<noteq> CHR ''<''" "c \<noteq> DQUOTE" "c \<noteq> BACKSLASH" "c \<noteq> LF"
    using Cons.prems(1) addr_charD [of c] by auto
  obtain st1 where st1: "put c st = Some st1" "holds n INSIDE_BRACKETS (a @ [c]) st1"
    using holds_put [OF Cons.prems(3), of c] Cons.prems(2) by auto
  have "nxt_turn p c (b @ s) st = Some (Go p (b @ s) st1)"
    using c st1 Cons.prems(3)
    by (simp add: nxt_turn_def HEADER_END_not_LF in_brackets_def holds_def)
  then show ?case using Cons.IH [OF _ _ st1(2)] Cons.prems by simp
qed (auto intro!: exI)

text \<open>A phrase is collected, as far as the buffer goes, and dropped at the bracket.\<close>

lemma skip_phrase_bare:
  "list_all phrase_char q \<Longrightarrow> nxt_ok n st \<Longrightarrow> nstate st = BARE_ADDRESS \<Longrightarrow>
   \<exists>st'. nxt_loop p (q @ s) st = nxt_loop p s st' \<and> nxt_ok n st' \<and> nstate st' = BARE_ADDRESS"
proof (induction q arbitrary: st)
  case (Cons c q)
  have c: "c \<noteq> CHR ''(''" "c \<noteq> CHR '',''" "c \<noteq> CHR ''<''" "c \<noteq> DQUOTE" "c \<noteq> BACKSLASH" "c \<noteq> LF"
    using Cons.prems(1) addr_charD [of c] by (auto simp: phrase_char_def)
  obtain st1 where st1: "put c st = Some st1" "nxt_ok n st1" "nstate st1 = BARE_ADDRESS"
    using put_ok [OF Cons.prems(2), of c] Cons.prems(3) by auto
  have "nxt_turn p c (q @ s) st = Some (Go p (q @ s) (if isspace c then st else st1))"
    using c st1 Cons.prems(3) by (simp add: nxt_turn_def HEADER_END_not_LF in_bare_address_def)
  moreover have "\<exists>st'. nxt_loop p (q @ s) (if isspace c then st else st1) = nxt_loop p s st'
      \<and> nxt_ok n st' \<and> nstate st' = BARE_ADDRESS"
    using Cons.prems st1 by (intro Cons.IH) auto
  ultimately show ?case by simp
qed auto

lemma skip_phrase:
  "list_all phrase_char q \<Longrightarrow> nxt_ok n st \<Longrightarrow> nstate st = SKIP_JUNK \<Longrightarrow>
   \<exists>st'. nxt_loop p (q @ s) st = nxt_loop p s st' \<and> nxt_ok n st' \<and> nstate st' \<in> {SKIP_JUNK, BARE_ADDRESS}"
proof (induction q)
  case (Cons c q)
  have c: "c \<noteq> CHR ''(''" "c \<noteq> CHR '',''" "c \<noteq> CHR ''<''" "c \<noteq> DQUOTE" "c \<noteq> BACKSLASH" "c \<noteq> LF"
    using Cons.prems(1) addr_charD [of c] by (auto simp: phrase_char_def)
  show ?case
  proof (cases "isspace c")
    case True
    then have "nxt_turn p c (q @ s) st = Some (Go p (q @ s) st)"
      using c Cons.prems(3) by (simp add: nxt_turn_def HEADER_END_not_LF in_skip_junk_def)
    then show ?thesis using Cons by simp
  next
    case False
    then have "nxt_turn p c (q @ s) st = Some (Go p ((c # q) @ s) (st\<lparr>nstate := BARE_ADDRESS\<rparr>))"
      using c Cons.prems(3) by (simp add: nxt_turn_def HEADER_END_not_LF in_skip_junk_def)
    then show ?thesis
      using skip_phrase_bare [of "c # q" n "st\<lparr>nstate := BARE_ADDRESS\<rparr>" p s] Cons.prems by auto
  qed
qed auto

definition between :: "nat \<Rightarrow> nxt \<Rightarrow> bool" where
  "between n st \<longleftrightarrow> holds n SKIP_JUNK [] st"

lemma angle_item:
  assumes "item_ok n (Angle q a)" "between n st"
  shows "\<exists>st'. nxt_loop p (item_text (Angle q a) @ s) st = Some (Some a, st'\<lparr>hp := Some s\<rparr>) \<and> between n st'"
proof -
  have ok: "nxt_ok n st" "nstate st = SKIP_JUNK" using assms(2) by (auto simp: between_def holds_def nxt_ok_def)
  obtain st1 where st1: "nxt_loop p (q @ ''<'' @ a @ ''>'' @ s) st = nxt_loop p (''<'' @ a @ ''>'' @ s) st1"
      "nxt_ok n st1" "nstate st1 \<in> {SKIP_JUNK, BARE_ADDRESS}"
    using skip_phrase [of q n st p "''<'' @ a @ ''>'' @ s"] assms(1) ok by auto
  let ?st2 = "st1\<lparr>nstate := INSIDE_BRACKETS, tp := 0\<rparr>"
  have "nxt_turn p (CHR ''<'') (a @ ''>'' @ s) st1 = Some (Go p (a @ ''>'' @ s) ?st2)"
    using st1(3) by (auto simp: nxt_turn_def HEADER_END_not_LF in_skip_junk_def in_bare_address_def isspace_def)
  moreover have "holds n INSIDE_BRACKETS [] ?st2"
    using st1(2) by (auto simp: holds_empty nxt_ok_def)
  then obtain st3 where st3: "nxt_loop p (a @ ''>'' @ s) ?st2 = nxt_loop p (''>'' @ s) st3"
      "holds n INSIDE_BRACKETS a st3"
    using collect_brackets [of a "[]" n ?st2 p "''>'' @ s"] assms(1) by auto
  moreover obtain st4 where st4: "put NUL st3 = Some st4" "cstr_of (address st4) = a" "length (address st4) = n"
    using holds_put_NUL [OF st3(2)] assms(1) addr_c_string by auto
  let ?st5 = "st4\<lparr>nstate := SKIP_JUNK, tp := 0\<rparr>"
  have "nxt_turn p (CHR ''>'') s st3 = Some (Ret (Some a) s ?st5)"
    using st3(2) st4 by (simp add: nxt_turn_def HEADER_END_not_LF in_brackets_def found_def holds_def)
  moreover have "between n ?st5" using st4(3) assms(1) by (auto simp: between_def holds_empty)
  ultimately show ?thesis using st1(1) by (intro exI [of _ ?st5]) simp
qed

lemma isspace_trim: "a \<noteq> [] \<Longrightarrow> \<not> isspace (last a) \<Longrightarrow> take (length a) buf = a \<Longrightarrow> trim_tp buf (length a) = length a"
  by (cases a rule: rev_cases) (simp_all add: trim_tp_def)

lemma bare_item_comma:
  assumes "item_ok n (Bare a)" "between n st"
  shows "\<exists>st'. nxt_loop p (a @ '','' @ s) st = Some (Some a, st'\<lparr>hp := Some ('','' @ s)\<rparr>) \<and> between n st'"
proof -
  obtain c b where a: "a = c # b" "addr_char c" using assms(1) by (cases a) auto
  have c: "c \<noteq> CHR ''(''" "c \<noteq> CHR '',''" "c \<noteq> CHR ''<''" "c \<noteq> DQUOTE" "c \<noteq> BACKSLASH" "c \<noteq> LF" "\<not> isspace c"
    using addr_charD [OF a(2)] by auto
  let ?st1 = "st\<lparr>nstate := BARE_ADDRESS\<rparr>"
  have "nxt_turn p c (b @ '','' @ s) st = Some (Go p (a @ '','' @ s) ?st1)"
    using c assms(2) a(1) by (simp add: nxt_turn_def HEADER_END_not_LF in_skip_junk_def between_def holds_def)
  moreover have "holds n BARE_ADDRESS [] ?st1" using assms(2) by (simp add: between_def holds_def)
  then obtain st2 where st2: "nxt_loop p (a @ '','' @ s) ?st1 = nxt_loop p ('','' @ s) st2" "holds n BARE_ADDRESS a st2"
    using collect_bare [of a "[]" n ?st1 p "'','' @ s"] assms(1) by auto
  obtain st4 where st4: "put NUL st2 = Some st4" "cstr_of (address st4) = a" "length (address st4) = n"
    using holds_put_NUL [OF st2(2)] assms(1) addr_c_string by auto
  let ?st5 = "st4\<lparr>nstate := SKIP_JUNK, tp := 0\<rparr>"
  have "nxt_turn p (CHR '','') s st2 = Some (Ret (Some a) ('','' @ s) ?st5)"
    using st2(2) st4 a(1) by (simp add: nxt_turn_def HEADER_END_not_LF in_bare_address_def found_def holds_def)
  moreover have "between n ?st5" using st4(3) assms(1) by (auto simp: between_def holds_empty)
  ultimately show ?thesis using st2(1) a(1) by (intro exI [of _ ?st5]) simp
qed

lemma header_end_nothing:
  "between n st \<Longrightarrow> \<exists>st'. nxt_loop p [LF] st = Some (None, st')"
  by (auto simp: between_def holds_def nxt_turn_def HEADER_END_def at_header_end_def)

lemma bare_item_end:
  assumes "item_ok n (Bare a)" "between n st"
  shows "\<exists>st'. nxt_loop p (a @ [LF]) st = Some (Some a, st'\<lparr>hp := Some [LF]\<rparr>) \<and> nstate st' = ENDIT_ALL"
proof -
  obtain c b where a: "a = c # b" "addr_char c" using assms(1) by (cases a) auto
  have c: "c \<noteq> CHR ''(''" "c \<noteq> CHR '',''" "c \<noteq> CHR ''<''" "c \<noteq> DQUOTE" "c \<noteq> BACKSLASH" "c \<noteq> LF" "\<not> isspace c"
    using addr_charD [OF a(2)] by auto
  let ?st1 = "st\<lparr>nstate := BARE_ADDRESS\<rparr>"
  have "nxt_turn p c (b @ [LF]) st = Some (Go p (a @ [LF]) ?st1)"
    using c assms(2) a(1) by (simp add: nxt_turn_def HEADER_END_not_LF in_skip_junk_def between_def holds_def)
  moreover have "holds n BARE_ADDRESS [] ?st1" using assms(2) by (simp add: between_def holds_def)
  then obtain st2 where st2: "nxt_loop p (a @ [LF]) ?st1 = nxt_loop p [LF] st2" "holds n BARE_ADDRESS a st2"
    using collect_bare [of a "[]" n ?st1 p "[LF]"] assms(1) by auto
  obtain st4 where st4: "put NUL st2 = Some st4" "cstr_of (address st4) = a"
    using holds_put_NUL [OF st2(2)] assms(1) addr_c_string by auto
  have "\<not> isspace (last a)" using assms(1) addr_charD [of "last a"] by (auto simp: list_all_iff)
  then have trim: "trim_tp (address st2) (length a) = length a"
    using isspace_trim [of a "address st2"] st2(2) a(1) by (simp add: holds_def)
  let ?st5 = "st2\<lparr>nstate := ENDIT_ALL, address := address st4, tp := 0\<rparr>"
  have "nxt_turn p LF [] st2 = Some (Ret (Some a) [LF] ?st5)"
    using st2(2) st4 a(1) trim
    by (auto simp: nxt_turn_def HEADER_END_def at_header_end_def Let_def found_def holds_def put_def)
  then show ?thesis using st2(1) calculation a(1) by (intro exI [of _ ?st5]) simp
qed

lemma endit_nothing: "nstate st = ENDIT_ALL \<Longrightarrow> hp st = Some [LF] \<Longrightarrow> nxtaddr None st = Some (None, st\<lparr>hp := Some [LF]\<rparr>)"
  by (simp add: nxtaddr_def nxt_turn_def)

lemma skip_separator:
  assumes "between n st"
  shows "nxt_loop p ('', '' @ s) st = nxt_loop p s st" "nxt_loop p ('' '' @ s) st = nxt_loop p s st"
  using assms by (simp_all add: between_def holds_def nxt_turn_def HEADER_END_not_LF in_skip_junk_def isspace_def)

lemma between_hp [simp]: "between n (st\<lparr>hp := x\<rparr>) = between n st"
  by (simp add: between_def holds_def)

lemma addresses_items:
  "list_all (item_ok n) is \<Longrightarrow> is \<noteq> [] \<Longrightarrow> between n st \<Longrightarrow>
   nxtaddr h st0 = nxt_loop 0 (items_text is @ [LF]) st \<Longrightarrow>
   addresses (Suc (length is)) h st0 = Some (map item_addr is)"
proof (induction "is" arbitrary: st h st0 rule: items_text.induct)
  case (2 i)
  have call: "nxtaddr h st0 = nxt_loop 0 (item_text i @ [LF]) st"
    using 2(4) by simp
  show ?case
  proof (cases i)
    case (Bare a)
    obtain st' where st': "nxt_loop 0 (a @ [LF]) st = Some (Some a, st'\<lparr>hp := Some [LF]\<rparr>)" "nstate st' = ENDIT_ALL"
      using bare_item_end [of n a st 0] 2(1,3) Bare by auto
    then show ?thesis
      using call Bare endit_nothing [of "st'\<lparr>hp := Some [LF]\<rparr>"] by (simp add: numeral_2_eq_2)
  next
    case (Angle q a)
    obtain st' where st': "nxt_loop 0 (item_text i @ [LF]) st = Some (Some a, st'\<lparr>hp := Some [LF]\<rparr>)" "between n st'"
      using angle_item [of n q a st 0 "[LF]"] 2(1,3) Angle by auto
    have "\<exists>st''. nxtaddr None (st'\<lparr>hp := Some [LF]\<rparr>) = Some (None, st'')"
      using header_end_nothing [of n "st'\<lparr>hp := Some [LF]\<rparr>" 0] st'(2) by (simp add: nxtaddr_def)
    then show ?thesis using call st' Angle by (auto simp: numeral_2_eq_2)
  qed
next
  case (3 i j "is")
  let ?rest = "items_text (j # is) @ [LF]"
  have call: "nxtaddr h st0 = nxt_loop 0 (item_text i @ '', '' @ ?rest) st"
    using 3(5) by simp
  have "\<exists>st' s'. nxtaddr h st0 = Some (Some (item_addr i), st'\<lparr>hp := Some s'\<rparr>) \<and> between n st'
      \<and> s' = '', '' @ ?rest"
  proof (cases i)
    case (Bare a)
    then show ?thesis using bare_item_comma [of n a st 0 "'' '' @ ?rest"] 3(2,4) call by auto
  next
    case (Angle q a)
    then show ?thesis using angle_item [of n q a st 0 "'', '' @ ?rest"] 3(2,4) call by auto
  qed
  then obtain st' where st': "nxtaddr h st0 = Some (Some (item_addr i), st'\<lparr>hp := Some ('', '' @ ?rest)\<rparr>)"
      "between n st'" by blast
  let ?st = "st'\<lparr>hp := Some ('', '' @ ?rest)\<rparr>"
  have "addresses (Suc (length (j # is))) None ?st = Some (map item_addr (j # is))"
    using 3(2) st'(2) skip_separator(1) [of n ?st 0 ?rest]
    by (intro 3(1) [where st = ?st]) (simp_all add: nxtaddr_def)
  then show ?case using st'(1) by simp
qed simp

lemma skip_name:
  "CHR '':'' \<notin> set m \<Longrightarrow> BACKSLASH \<notin> set m \<Longrightarrow> LF \<notin> set m \<Longrightarrow> nstate st = START_HDR \<Longrightarrow>
   nxt_loop p (m @ s) st = nxt_loop p s st"
  by (induction m) (auto simp: nxt_turn_def HEADER_END_not_LF)

text \<open>The first call on a header is the loop at its first item.\<close>

lemma header_call:
  assumes "CHR '':'' \<notin> set m" "BACKSLASH \<notin> set m" "LF \<notin> set m" "length (address st) = n" "0 < n"
  shows "\<exists>st1. nxtaddr (Some (m @ '': '' @ s)) st = nxt_loop 0 s st1 \<and> between n st1"
proof -
  let ?h = "m @ '': '' @ s"
  let ?st = "st\<lparr>hp := Some ?h, nstate := START_HDR, tp := 0\<rparr>"
  let ?st1 = "?st\<lparr>nstate := SKIP_JUNK\<rparr>"
  have b: "between n ?st1" using assms(4,5) by (simp add: between_def holds_def)
  have "nxt_loop 0 ?h ?st = nxt_loop 0 ('': '' @ s) ?st"
    using assms by (intro skip_name) simp_all
  also have "\<dots> = nxt_loop 0 ('' '' @ s) ?st1"
    by (simp add: nxt_turn_def HEADER_END_not_LF)
  also have "\<dots> = nxt_loop 0 s ?st1" by (rule skip_separator(2) [OF b])
  finally show ?thesis using b by (auto simp: nxtaddr_def)
qed

text \<open>
  Round trip: from a header with comma-separated addresses, bare ones and ones in angle
  brackets behind a phrase, the successive calls of \<open>nxtaddr\<close> return exactly the addresses, in
  order, and then the null pointer.
\<close>

theorem nxtaddr_addresses:
  assumes "CHR '':'' \<notin> set m" "BACKSLASH \<notin> set m" "LF \<notin> set m" "list_all (item_ok bufsiz) is"
    "is \<noteq> []" "0 < bufsiz"
  shows "addresses (Suc (length is)) (Some (m @ '': '' @ items_text is @ [LF])) (nxt_init bufsiz)
    = Some (map item_addr is)"
proof -
  obtain st1 where "nxtaddr (Some (m @ '': '' @ items_text is @ [LF])) (nxt_init bufsiz) = nxt_loop 0 (items_text is @ [LF]) st1"
      "between bufsiz st1"
    using header_call [OF assms(1-3), of "nxt_init bufsiz" bufsiz "items_text is @ [LF]"] assms(6)
    by (auto simp: nxt_init_def)
  then show ?thesis using assms by (intro addresses_items [where st = st1]) simp_all
qed

theorem nxtaddr_addresses_witness:
  "addresses 3 (Some (''To: joe, Jane <j@x>'' @ [LF])) (nxt_init 10) = Some [''joe'', ''j@x'']"
  using nxtaddr_addresses [of "''To''" 10 "[Bare ''joe'', Angle ''Jane '' ''j@x'']"]
  by (simp add: addr_char_def phrase_char_def isspace_def numeral_3_eq_3)

end
