(* ===== verification/Unmime.thy ===== *)
theory Unmime
  imports Base64 Strings Rfc822
begin

section \<open>MIME decoding (unmime.c)\<close>

text \<open>
  The decoders work in place. A buffer is the list of its cells, with the terminating NUL among
  them, and the pointers \<open>p_in\<close>, \<open>p_out\<close> and \<open>p\<close> are indices. An access outside the
  buffer gives \<open>None\<close>.
\<close>

definition unhex :: "char \<Rightarrow> nat" where
  "unhex c =
     (if code (CHR ''0'') \<le> code c \<and> code c \<le> code (CHR ''9'') then code c - code (CHR ''0'')
      else if code (CHR ''A'') \<le> code c \<and> code c \<le> code (CHR ''F'') then code c - code (CHR ''A'') + 10
      else if code (CHR ''a'') \<le> code c \<and> code c \<le> code (CHR ''f'') then code c - code (CHR ''a'') + 10
      else 16)"

text \<open>The character, or \<open>None\<close> for the return value 1.\<close>

definition qp_char :: "char \<Rightarrow> char \<Rightarrow> char option" where
  "qp_char c1 c2 =
     (if unhex c1 > 15 \<or> unhex c2 > 15 then None else Some (chr (16 * unhex c1 + unhex c2)))"

text \<open>The C string that starts at index \<open>i\<close>.\<close>

definition str_at :: "string \<Rightarrow> nat \<Rightarrow> string" where
  "str_at buf i = cstr_of (drop i buf)"

definition MIMEHDR_INIT :: string where
  "MIMEHDR_INIT = ''=?''"

definition MIMEHDR_END :: string where
  "MIMEHDR_END = ''?=''"

subsection \<open>Headers\<close>

text \<open>
  \<open>from64tobits\<close> with its output in the buffer it reads from: the return value and the buffer.
\<close>

function from64_inplace_loop :: "int \<Rightarrow> string \<Rightarrow> nat \<Rightarrow> nat \<Rightarrow> int \<Rightarrow> (int \<times> string) option" where
  "from64_inplace_loop maxlen buf out inp len =
     (if inp \<ge> length buf then None
      else do {
        digit1 \<leftarrow> peek buf inp;
        if DECODE64 digit1 = BAD then Some (-1, buf) else do {
        digit2 \<leftarrow> peek buf (inp + 1);
        if DECODE64 digit2 = BAD then Some (-1, buf) else do {
        digit3 \<leftarrow> peek buf (inp + 2);
        if digit3 \<noteq> CHR ''='' \<and> DECODE64 digit3 = BAD then Some (-1, buf) else do {
        digit4 \<leftarrow> peek buf (inp + 3);
        if digit4 \<noteq> CHR ''='' \<and> DECODE64 digit4 = BAD then Some (-1, buf) else do {
        if maxlen \<noteq> 0 \<and> len + 1 > maxlen then Some (-1, buf) else do {
        buf1 \<leftarrow> poke buf out (chr (unat (push_bit 2 (six digit1) OR drop_bit 4 (six digit2))));
        if digit3 \<noteq> CHR ''='' \<and> maxlen \<noteq> 0 \<and> len + 2 > maxlen then Some (-1, buf1) else do {
        buf2 \<leftarrow> (if digit3 \<noteq> CHR ''=''
          then poke buf1 (out + 1) (chr (unat ((push_bit 4 (six digit2) AND 0xf0) OR drop_bit 2 (six digit3))))
          else Some buf1);
        if digit3 \<noteq> CHR ''='' \<and> digit4 \<noteq> CHR ''='' \<and> maxlen \<noteq> 0 \<and> len + 3 > maxlen then Some (-1, buf2) else do {
        buf3 \<leftarrow> (if digit3 \<noteq> CHR ''='' \<and> digit4 \<noteq> CHR ''=''
          then poke buf2 (out + 2) (chr (unat ((push_bit 6 (six digit3) AND 0xc0) OR six digit4)))
          else Some buf2);
        nxt \<leftarrow> peek buf3 (inp + 4);
        let n = (if digit3 = CHR ''='' then 1 else if digit4 = CHR ''='' then 2 else 3);
        if nxt \<noteq> NUL \<and> nxt \<noteq> CR \<and> digit4 \<noteq> CHR ''=''
        then from64_inplace_loop maxlen buf3 (out + nat n) (inp + 4) (len + n)
        else Some (len + n, buf3)
        }}}}}}}
      })"
  by pat_completeness auto
termination
  by (relation "measure (\<lambda>(maxlen, buf, out, inp, len). length buf - inp)")
    (auto simp: poke_def Option.bind_eq_Some_conv split: if_splits)

declare from64_inplace_loop.simps [simp del]

definition from64_inplace :: "string \<Rightarrow> nat \<Rightarrow> nat \<Rightarrow> int \<Rightarrow> (int \<times> string) option" where
  "from64_inplace buf out inp maxlen = do {
     c0 \<leftarrow> peek buf inp;
     inp' \<leftarrow> (if c0 = CHR ''+'' then do {
         c1 \<leftarrow> peek buf (inp + 1); Some (if c1 = SP then inp + 2 else inp) } else Some inp);
     c \<leftarrow> peek buf inp';
     if c = CR then Some (0, buf) else from64_inplace_loop maxlen buf out inp' 0
   }"

text \<open>Decoding of the encoded text between \<open>p_in\<close> and \<open>p\<close>; the new \<open>p_in\<close>, \<open>p_out\<close> and the buffer.\<close>

definition q_turn :: "string \<Rightarrow> nat \<Rightarrow> nat \<Rightarrow> (string \<times> nat) option" where
  "q_turn buf p_in p_out = do {
     c \<leftarrow> peek buf p_in;
     if c = CHR ''='' then do {
       c1 \<leftarrow> peek buf (p_in + 1);
       c2 \<leftarrow> peek buf (p_in + 2);
       (case qp_char c1 c2 of
          Some d \<Rightarrow> do { buf1 \<leftarrow> poke buf p_out d; Some (buf1, p_in + 3) }
        | None \<Rightarrow> do { buf1 \<leftarrow> poke buf p_out c; Some (buf1, p_in + 1) })
     }
     else if c = CHR ''_'' then do { buf1 \<leftarrow> poke buf p_out SP; Some (buf1, p_in + 1) }
     else do { buf1 \<leftarrow> poke buf p_out c; Some (buf1, p_in + 1) }
   }"

lemma q_turn_forward: "q_turn buf p_in p_out = Some (buf1, p_in') \<Longrightarrow> p_in < p_in'"
  by (auto simp: q_turn_def Option.bind_eq_Some_conv split: if_splits option.splits)

function decode_loop :: "char \<Rightarrow> string \<Rightarrow> nat \<Rightarrow> nat \<Rightarrow> nat \<Rightarrow> (string \<times> nat \<times> nat) option" where
  "decode_loop enc buf p_in p_out p =
     (if p_in < p then
        (if enc = CHR ''q'' then
           (case q_turn buf p_in p_out of
              None \<Rightarrow> None
            | Some (buf1, p_in1) \<Rightarrow> decode_loop enc buf1 p_in1 (p_out + 1) p)
         else if enc = CHR ''b'' then do {
           delimsave \<leftarrow> peek buf p;
           buf1 \<leftarrow> poke buf p CR;
           (n, buf2) \<leftarrow> from64_inplace buf1 p_out p_in 0;
           buf3 \<leftarrow> poke buf2 p delimsave;
           Some (buf3, p, if n > 0 then p_out + nat n else p_out)
         }
         else do {
           c \<leftarrow> peek buf p_in;
           buf1 \<leftarrow> poke buf p_out c;
           decode_loop enc buf1 (p_in + 1) (p_out + 1) p
         })
      else Some (buf, p_in, p_out))"
  by pat_completeness auto
termination
  by (relation "measure (\<lambda>(enc, buf, p_in, p_out, p). p - p_in)") (auto dest: q_turn_forward)

declare decode_loop.simps [simp del]

datatype mime_state = S_COPY_PLAIN | S_SKIP_MIMEINIT | S_COPY_MIME

text \<open>The three cases of the switch; \<open>(state, enc, p_in, p_out)\<close> and the buffer.\<close>

type_synonym um = "mime_state \<times> char \<times> nat \<times> nat \<times> string"

definition copy_plain :: "char \<Rightarrow> nat \<Rightarrow> nat \<Rightarrow> string \<Rightarrow> um option" where
  "copy_plain enc p_in p_out buf =
     (case find_sub (str_at buf p_in) MIMEHDR_INIT of
        None \<Rightarrow>
          (let i = length (str_at buf p_in) in do {
             buf1 \<leftarrow> memmove buf p_out p_in i;
             Some (S_COPY_PLAIN, enc, p_in + i, p_out + i, buf1)
           })
      | Some i \<Rightarrow> do {
          (buf1, p_out1) \<leftarrow>
            (if i > 0 then do { buf1 \<leftarrow> memmove buf p_out p_in i; Some (buf1, p_out + i) }
             else Some (buf, p_out));
          Some (S_SKIP_MIMEINIT, enc, p_in + i + 2, p_out1, buf1)
        })"

definition skip_mimeinit :: "char \<Rightarrow> nat \<Rightarrow> nat \<Rightarrow> string \<Rightarrow> um option" where
  "skip_mimeinit enc p_in p_out buf =
     (case strchr (str_at buf p_in) (CHR ''?'') of
        Some i \<Rightarrow> do {
          c2 \<leftarrow> peek buf (p_in + i + 2);
          if c2 = CHR ''?'' then do {
            c1 \<leftarrow> peek buf (p_in + i + 1);
            Some (S_COPY_MIME, tolower c1, p_in + i + 3, p_out, buf)
          }
          else Some (S_COPY_PLAIN, enc, p_in, p_out, buf)
        }
      | None \<Rightarrow> Some (S_COPY_PLAIN, enc, p_in, p_out, buf))"

definition copy_mime :: "char \<Rightarrow> nat \<Rightarrow> nat \<Rightarrow> string \<Rightarrow> um option" where
  "copy_mime enc p_in p_out buf = do {
     let p = p_in + (case find_sub (str_at buf p_in) MIMEHDR_END of
                       Some i \<Rightarrow> i | None \<Rightarrow> length (str_at buf p_in));
     (buf1, p_in1, p_out1) \<leftarrow> decode_loop enc buf p_in p_out p;
     c \<leftarrow> peek buf1 p_in1;
     let p_in2 = (if c \<noteq> NUL then p_in1 + 2 else p_in1);
     (case find_sub (str_at buf1 p_in2) MIMEHDR_INIT of
        None \<Rightarrow> Some (S_COPY_PLAIN, enc, p_in2, p_out1, buf1)
      | Some i \<Rightarrow>
          if list_all isspace (take i (str_at buf1 p_in2))
          then Some (S_SKIP_MIMEINIT, enc, p_in2 + i + 2, p_out1, buf1)
          else Some (S_COPY_PLAIN, enc, p_in2, p_out1, buf1))
   }"

definition um_turn :: "um \<Rightarrow> um option" where
  "um_turn = (\<lambda>(state, enc, p_in, p_out, buf).
     case state of
       S_COPY_PLAIN \<Rightarrow> copy_plain enc p_in p_out buf
     | S_SKIP_MIMEINIT \<Rightarrow> skip_mimeinit enc p_in p_out buf
     | S_COPY_MIME \<Rightarrow> copy_mime enc p_in p_out buf)"

text \<open>The loop, and \<open>*p_out = 0\<close> behind it; that it ends is proved below.\<close>

partial_function (option) um_loop :: "um \<Rightarrow> string option" where
  "um_loop s =
     (case s of (state, enc, p_in, p_out, buf) \<Rightarrow>
        (case peek buf p_in of
           None \<Rightarrow> None
         | Some c \<Rightarrow>
             if c = NUL then poke buf p_out NUL
             else (case um_turn s of None \<Rightarrow> None | Some s' \<Rightarrow> um_loop s')))"

definition UnMimeHeader :: "string \<Rightarrow> string option" where
  "UnMimeHeader buf =
     (if find_sub (str_at buf 0) MIMEHDR_INIT = None then Some buf
      else um_loop (S_COPY_PLAIN, NUL, 0, 0, buf))"

subsection \<open>Bodies\<close>

datatype body_state = S_BODY_DATA | S_BODY_HDR

definition MAX_DELIM_LEN :: nat where
  "MAX_DELIM_LEN = 70"

text \<open>The static variables of the body decoder, the scanner of rfc822.c among them.\<close>

record body =
  BodyState :: body_state
  CurrEncodingIsQP :: bool
  CurrTypeNeedsDecode :: bool
  MultipartDelimiter :: string
  scanner :: nxt

definition MSG_IS_7BIT :: int where "MSG_IS_7BIT = 0x01"
definition MSG_IS_8BIT :: int where "MSG_IS_8BIT = 0x02"
definition MSG_NEEDS_DECODE :: int where "MSG_NEEDS_DECODE = 0x80"

definition ENC8BIT :: string where
  "ENC8BIT = ''Content-Transfer-Encoding: 8bit''"

text \<open>The loop that blanks the rest of the line.\<close>

function blank_rest :: "string \<Rightarrow> nat \<Rightarrow> string option" where
  "blank_rest buf p =
     (case peek buf p of
        None \<Rightarrow> None
      | Some c \<Rightarrow>
          if code c \<ge> 32 then
            (case poke buf p SP of None \<Rightarrow> None | Some buf1 \<Rightarrow> blank_rest buf1 (p + 1))
          else Some buf)"
  by pat_completeness auto
termination
  by (relation "measure (\<lambda>(buf, p). length buf - p)") (auto simp: peek_def poke_def split: if_splits)

declare blank_rest.simps [simp del]

definition SetEncoding8bit :: "string \<Rightarrow> nat option \<Rightarrow> string option" where
  "SetEncoding8bit buf ofs =
     (case ofs of
        None \<Rightarrow> Some buf
      | Some i \<Rightarrow> do {
          buf1 \<leftarrow> store buf i ENC8BIT;
          blank_rest buf1 (i + length ENC8BIT)
        })"

text \<open>The search for a \<open>boundary\<close> parameter.\<close>

function find_boundary :: "string \<Rightarrow> string option" where
  "find_boundary p1 =
     (case strchr p1 (CHR '';'') of
        None \<Rightarrow> None
      | Some i \<Rightarrow>
          let p2 = dropWhile isspace (drop (i + 1) p1) in
          if has_iprefix p2 ''boundary'' then Some p2 else find_boundary p2)"
  by pat_completeness auto
termination
proof (relation "measure length")
  fix p1 p2 :: string and i
  assume "strchr p1 (CHR '';'') = Some i" "p2 = dropWhile isspace (drop (i + 1) p1)"
  then have "p1 \<noteq> []" "length p2 \<le> length (drop (i + 1) p1)"
    using length_dropWhile_le [of isspace "drop (i + 1) p1"] by (auto simp: strchr_def split: if_splits)
  then show "(p2, p1) \<in> measure length" by (cases p1) auto
qed simp

declare find_boundary.simps [simp del]

definition GetBoundary :: "string \<Rightarrow> string option" where
  "GetBoundary CntType =
     (case find_boundary CntType of
        None \<Rightarrow> None
      | Some p1 \<Rightarrow>
          let r = drop 8 p1;
              skipped = takeWhile (\<lambda>c. isspace c \<or> c = CHR ''='') r;
              p = drop (length skipped) r in
          if CHR ''='' \<notin> set skipped then None
          else if char_at p 0 = DQUOTE then
            (case strchr (drop 1 p) DQUOTE of
               None \<Rightarrow> None
             | Some i \<Rightarrow> if i = 0 then None else Some (take i (drop 1 p)))
          else
            (let b = (case strchr p (CHR '';'') of None \<Rightarrow> p | Some i \<Rightarrow> take i p) in
             if b = [] then None else Some b))"

definition CheckContentType :: "string option \<Rightarrow> bool" where
  "CheckContentType CntType =
     (case CntType of
        None \<Rightarrow> False
      | Some s \<Rightarrow>
          let p = dropWhile isspace s in
          list_ex (has_iprefix p) [''text/'', ''message/rfc822''])"

subsection \<open>MimeBodyType\<close>

text \<open>The local variables of the scan over the headers.\<close>

record mime_hdrs =
  XferEnc :: "string option"
  XferEncOfs :: "nat option"
  CntType :: "string option"
  MimeVer :: "string option"
  HdrsFound :: nat
  mscan :: nxt

text \<open>The end of a header value: a newline that no space or tab follows.\<close>

fun value_end :: "string \<Rightarrow> nat" where
  "value_end [] = 0"
| "value_end (c # s) =
     (if c = LF \<and> char_at s 0 \<noteq> TAB \<and> char_at s 0 \<noteq> SP then 0 else Suc (value_end s))"

text \<open>One header; the new \<open>NxtHdr\<close> before the search for the newline.\<close>

definition mime_header :: "string \<Rightarrow> nat \<Rightarrow> mime_hdrs \<Rightarrow> (nat \<times> mime_hdrs) option" where
  "mime_header hdrs NxtHdr m =
     (let s = str_at hdrs NxtHdr in
      if has_iprefix s ''Content-Transfer-Encoding:'' then do {
        (p, sc) \<leftarrow> nxtaddr (Some s) (mscan m);
        let m1 = m\<lparr>XferEncOfs := Some NxtHdr, mscan := sc\<rparr>;
        Some (NxtHdr, if p \<noteq> None then m1\<lparr>XferEnc := p, HdrsFound := HdrsFound m1 + 1\<rparr> else m1)
      }
      else if has_iprefix s ''Content-Type:'' then
        (let blank = takeWhile (\<lambda>c. c = SP \<or> c = TAB) (drop 13 s);
             v = drop (13 + length blank) s in
         Some (NxtHdr + 13 + length blank,
           m\<lparr>CntType := Some (take (value_end v) v), HdrsFound := HdrsFound m + 1\<rparr>))
      else if has_iprefix s ''MIME-Version:'' then do {
        (p, sc) \<leftarrow> nxtaddr (Some s) (mscan m);
        let m1 = m\<lparr>mscan := sc\<rparr>;
        Some (NxtHdr, if p \<noteq> None then m1\<lparr>MimeVer := p, HdrsFound := HdrsFound m1 + 1\<rparr> else m1)
      }
      else Some (NxtHdr, m))"

lemma mime_header_forward: "mime_header hdrs i m = Some (j, m') \<Longrightarrow> i \<le> j"
  by (auto simp: mime_header_def Let_def Option.bind_eq_Some_conv split: if_splits)

function mime_headers :: "string \<Rightarrow> nat \<Rightarrow> mime_hdrs \<Rightarrow> mime_hdrs option" where
  "mime_headers hdrs NxtHdr m =
     (if NxtHdr \<ge> length hdrs then None
      else
        (case mime_header hdrs NxtHdr m of
           None \<Rightarrow> None
         | Some (i, m1) \<Rightarrow>
             (case strchr (str_at hdrs i) LF of
                None \<Rightarrow> Some m1
              | Some k \<Rightarrow>
                  if char_at hdrs (i + k + 1) \<noteq> NUL \<and> HdrsFound m1 \<noteq> 3
                  then mime_headers hdrs (i + k + 1) m1
                  else Some m1)))"
  by pat_completeness auto
termination
  by (relation "measure (\<lambda>(hdrs, i, m). length hdrs - i)") (auto dest!: mime_header_forward)

declare mime_headers.simps [simp del]

text \<open>The return value, the headers (which may have been changed) and the static variables.\<close>

definition set_delimiter :: "string \<Rightarrow> body \<Rightarrow> body option" where
  "set_delimiter p1 b = do {
     (d1, _) \<leftarrow> stpcpy (MultipartDelimiter b) ''--'';
     (d2, _) \<leftarrow> strlcat d1 p1 (MAX_DELIM_LEN + 3);
     d3 \<leftarrow> poke d2 (MAX_DELIM_LEN + 2) NUL;
     Some (b\<lparr>MultipartDelimiter := d3\<rparr>)
   }"

definition is_multipart :: "string option \<Rightarrow> bool" where
  "is_multipart ct = (case ct of None \<Rightarrow> False
     | Some s \<Rightarrow> has_iprefix s ''multipart/mixed'' \<or> has_iprefix s ''message/'')"

definition transfer_encoding ::
  "string \<Rightarrow> bool \<Rightarrow> mime_hdrs \<Rightarrow> body \<Rightarrow> (int \<times> string \<times> body) option" where
  "transfer_encoding hdrs WantDecode m b =
     (case XferEnc m of
        None \<Rightarrow> Some (0, hdrs, b)
      | Some e \<Rightarrow>
          if strcaseeq e ''quoted-printable'' then do {
            hdrs1 \<leftarrow> (if WantDecode \<and> CurrTypeNeedsDecode b then SetEncoding8bit hdrs (XferEncOfs m) else Some hdrs);
            Some (MSG_IS_8BIT + MSG_NEEDS_DECODE, hdrs1, b\<lparr>CurrEncodingIsQP := True\<rparr>)
          }
          else if strcaseeq e ''7bit'' then Some (MSG_IS_7BIT, hdrs, b\<lparr>CurrEncodingIsQP := False\<rparr>)
          else if strcaseeq e ''8bit'' then Some (MSG_IS_8BIT, hdrs, b\<lparr>CurrEncodingIsQP := False\<rparr>)
          else Some (0, hdrs, b))"

definition MimeBodyType :: "string option \<Rightarrow> bool \<Rightarrow> body \<Rightarrow> (int \<times> string option \<times> body) option" where
  "MimeBodyType hdrs WantDecode b0 = do {
     d0 \<leftarrow> poke (MultipartDelimiter b0) 0 NUL;
     let b = b0\<lparr>MultipartDelimiter := d0, CurrEncodingIsQP := False, CurrTypeNeedsDecode := False,
                BodyState := S_BODY_DATA\<rparr>;
     (case hdrs of
        None \<Rightarrow> Some (0, None, b)
      | Some h \<Rightarrow> do {
          m \<leftarrow> mime_headers h 0 \<lparr>XferEnc = None, XferEncOfs = None, CntType = None, MimeVer = None,
                 HdrsFound = 0, mscan = scanner b\<rparr>;
          let b1 = b\<lparr>scanner := mscan m\<rparr>;
          if MimeVer m = Some ''1.0'' then do {
            let b2 = b1\<lparr>CurrTypeNeedsDecode := CheckContentType (CntType m)\<rparr>;
            let bound = (if is_multipart (CntType m) then GetBoundary (the (CntType m)) else None);
            (case bound of
               Some p1 \<Rightarrow> do {
                 b3 \<leftarrow> set_delimiter p1 b2;
                 Some (MSG_IS_8BIT + MSG_NEEDS_DECODE, Some h, b3)
               }
             | None \<Rightarrow> do {
                 (t, h1, b3) \<leftarrow> transfer_encoding h WantDecode m b2;
                 Some (t, Some h1, b3)
               })
          }
          else Some (0, Some h, b1)
        })
   }"

subsection \<open>Lines of the body\<close>

text \<open>The loop of \<open>DoOneQPLine\<close>: the flag \<open>ret\<close>, \<open>p_out\<close> and the buffer.\<close>

definition qp_turn :: "string \<Rightarrow> nat \<Rightarrow> nat \<Rightarrow> (string \<times> nat \<times> nat \<times> bool) option" where
  "qp_turn buf p_in p_out =
     (case strchr (str_at buf p_in) (CHR ''='') of
        None \<Rightarrow>
          (let n = length (str_at buf p_in) in do {
             buf1 \<leftarrow> memmove buf p_out p_in n;
             Some (buf1, p_in + n, p_out + n, False)
           })
      | Some n \<Rightarrow> do {
          (buf1, p_out1) \<leftarrow>
            (if n > 0 then do { buf1 \<leftarrow> memmove buf p_out p_in n; Some (buf1, p_out + n) }
             else Some (buf, p_out));
          let p = p_in + n;
          c1 \<leftarrow> peek buf1 (p + 1);
          if c1 = NUL \<or> c1 = CR \<or> c1 = LF then do {
            let i1 = (if c1 = CR then p + 2 else p + 1);
            c2 \<leftarrow> peek buf1 i1;
            Some (buf1, if c2 = LF then i1 + 1 else i1, p_out1, True)
          }
          else do {
            c2 \<leftarrow> peek buf1 (p + 2);
            (case qp_char c1 c2 of
               Some d \<Rightarrow> do { buf2 \<leftarrow> poke buf1 p_out1 d; Some (buf2, p + 3, p_out1 + 1, False) }
             | None \<Rightarrow> do { buf2 \<leftarrow> poke buf1 p_out1 (CHR ''=''); Some (buf2, p + 1, p_out1 + 1, False) })
          }
        })"

partial_function (option) qp_loop :: "string \<Rightarrow> nat \<Rightarrow> nat \<Rightarrow> bool \<Rightarrow> (bool \<times> nat \<times> string) option" where
  "qp_loop buf p_in p_out ret =
     (case peek buf p_in of
        None \<Rightarrow> None
      | Some c \<Rightarrow>
          if c = NUL then do { buf1 \<leftarrow> poke buf p_out NUL; Some (ret, p_out, buf1) }
          else
            (case qp_turn buf p_in p_out of
               None \<Rightarrow> None
             | Some (buf1, p_in1, p_out1, soft) \<Rightarrow> qp_loop buf1 p_in1 p_out1 (ret \<or> soft)))"

text \<open>The line starts at the beginning of the buffer; the second component is the new \<open>*bufp\<close>.\<close>

definition DoOneQPLine :: "string \<Rightarrow> bool \<Rightarrow> bool \<Rightarrow> (bool \<times> nat \<times> string) option" where
  "DoOneQPLine buf delimited issoftline =
     (if delimited \<and> \<not> issoftline \<and> has_prefix (str_at buf 0) (''=2E'' @ [CR, LF]) then do {
        (buf1, _) \<leftarrow> stpcpy buf (''..'' @ [CR, LF]);
        Some (False, 5, buf1)
      }
      else
        qp_loop buf (if delimited \<and> issoftline \<and> has_prefix (str_at buf 0) ''..'' then 1 else 0) 0 False)"

definition body_header :: "string \<Rightarrow> body \<Rightarrow> (string \<times> body) option" where
  "body_header buf b =
     (let s = str_at buf 0 in
      if char_at s 0 = NUL \<or> char_at s 0 = LF \<or> s = [CR, LF] then Some (buf, b\<lparr>BodyState := S_BODY_DATA\<rparr>)
      else if has_iprefix s ''Content-Transfer-Encoding:'' then do {
        (e, sc) \<leftarrow> nxtaddr (Some s) (scanner b);
        let b1 = b\<lparr>scanner := sc\<rparr>;
        (case e of
           None \<Rightarrow> Some (buf, b1)
         | Some x \<Rightarrow>
             if strcaseeq x ''quoted-printable'' then do {
               buf1 \<leftarrow> (if CurrTypeNeedsDecode b1 then SetEncoding8bit buf (Some 0) else Some buf);
               Some (buf1, b1\<lparr>CurrEncodingIsQP := True\<rparr>)
             }
             else Some (buf, b1))
      }
      else if has_iprefix s ''Content-Type:'' then do {
        (t, sc) \<leftarrow> nxtaddr (Some s) (scanner b);
        Some (buf, b\<lparr>scanner := sc, CurrTypeNeedsDecode := CheckContentType t\<rparr>)
      }
      else Some (buf, b))"

definition UnMimeBodyline ::
  "string \<Rightarrow> bool \<Rightarrow> bool \<Rightarrow> body \<Rightarrow> (bool \<times> nat \<times> string \<times> body) option" where
  "UnMimeBodyline buf delimited softline b =
     (case BodyState b of
        S_BODY_HDR \<Rightarrow> do {
          buf1 \<leftarrow> UnMimeHeader buf;
          (buf2, b1) \<leftarrow> body_header buf1 b;
          Some (False, length (str_at buf2 0), buf2, b1)
        }
      | S_BODY_DATA \<Rightarrow>
          (let delim = cstr_of (MultipartDelimiter b);
               b1 = (if delim \<noteq> [] \<and> has_prefix (str_at buf 0) delim
                     then b\<lparr>BodyState := S_BODY_HDR, CurrEncodingIsQP := False, CurrTypeNeedsDecode := False\<rparr>
                     else b) in
           if CurrEncodingIsQP b1 \<and> CurrTypeNeedsDecode b1 then do {
             (ret, n, buf1) \<leftarrow> DoOneQPLine buf delimited softline;
             Some (ret, n, buf1, b1)
           }
           else Some (False, length (str_at buf 0), buf, b1)))"

end
