(* ===== verification/Rfc2047.thy ===== *)
theory Rfc2047
  imports Strings
begin

section \<open>Encoding header words (rfc2047e.c)\<close>

text \<open>
  The buffers are allocated with a size computed beforehand and filled from left to right, so a
  text is written inside its buffer when it fits with its terminator; otherwise the result is
  \<open>None\<close>.
\<close>

definition noenc :: string where
  "noenc = ''!'' @ [DQUOTE] @ ''#$%&'' @ [CHR 0x27] @ ''()*+,-./0123456789:;<=>?@ABCDEFGHIJKLMNOPQRSTUVWXYZ[''
     @ [BACKSLASH] @ '']^_'' @ [CHR 0x60] @ ''abcdefghijklmnopqrstuvwxyz{|}~''"

definition encchars :: string where
  "encchars = ''!'' @ [DQUOTE] @ ''#$%&'' @ [CHR 0x27] @ ''*+,-./0123456789:;<>@ABCDEFGHIJKLMNOPQRSTUVWXYZ[''
     @ [BACKSLASH] @ '']^'' @ [CHR 0x60] @ ''abcdefghijklmnopqrstuvwxyz{|}~''"

definition ws :: string where
  "ws = [SP, TAB, CR, LF]"

definition needs_enc :: "string \<Rightarrow> bool" where
  "needs_enc s =
     (if strspn s noenc < length s then True
      else has_prefix s ''=?'' \<and> drop (length s - 2) s = ''?='')"

definition fit_buf :: "nat \<Rightarrow> string \<Rightarrow> string option" where
  "fit_buf n out = (if length out < n then Some out else None)"

subsection \<open>encode_words\<close>

text \<open>One character; \<open>col\<close> is \<open>t - v\<close>, the length of the current line.\<close>

definition line_start :: "string \<Rightarrow> string" where
  "line_start charset = ''=?'' @ charset @ ''?Q?''"

definition enc_char :: "char \<Rightarrow> string" where
  "enc_char u =
     (if u = SP then ''_''
      else if strchr encchars u \<noteq> None then [u]
      else ''='' @ hex2 u)"

definition enc_turn :: "string \<Rightarrow> char \<Rightarrow> string \<times> nat \<Rightarrow> string \<times> nat" where
  "enc_turn charset u = (\<lambda>(out, col).
     let (out1, col1) =
       (if col \<ge> 69 then (out @ ''?='' @ [CR, LF] @ line_start charset, length (line_start charset))
        else (out, col)) in
     (out1 @ enc_char u, col1 + length (enc_char u)))"

fun enc_word :: "string \<Rightarrow> string \<Rightarrow> string \<times> nat \<Rightarrow> string \<times> nat" where
  "enc_word charset [] acc = acc"
| "enc_word charset (u # us) acc = enc_word charset us (enc_turn charset u acc)"

fun enc_words :: "string \<Rightarrow> string list \<Rightarrow> string \<times> nat \<Rightarrow> string \<times> nat" where
  "enc_words charset [] acc = acc"
| "enc_words charset (w # words) acc = enc_words charset words (enc_word charset w acc)"

definition enc_size :: "string list \<Rightarrow> string \<Rightarrow> nat" where
  "enc_size words charset =
     (let l = sum_list (map (\<lambda>w. length w * 3) words) in
      l + (length charset + 8) * (l div 60 + 1))"

definition encode_words :: "string list \<Rightarrow> string \<Rightarrow> string option" where
  "encode_words words charset =
     (let start = line_start charset;
          (out, col) = enc_words charset words (start, length start) in
      fit_buf (enc_size words charset) (out @ ''?=''))"

subsection \<open>rfc2047e\<close>

text \<open>Phase 1: words and the white space between them in turn.\<close>

function split_words :: "string \<Rightarrow> string list" where
  "split_words r =
     (if r = [] then []
      else
        let w = take (strcspn r ws) r; r1 = drop (strcspn r ws) r in
        if r1 = [] then [w]
        else w # take (strspn r1 ws) r1 # split_words (drop (strspn r1 ws) r1))"
  by pat_completeness auto
termination
proof (relation "measure length")
  fix r w r1 :: string
  assume r: "r \<noteq> []" "w = take (strcspn r ws) r" "r1 = drop (strcspn r ws) r" "r1 \<noteq> []"
  then have "r1 = dropWhile (\<lambda>c. c \<notin> set ws) r"
    unfolding strcspn_def by (metis dropWhile_eq_drop)
  then have "hd r1 \<in> set ws" using r(4) hd_dropWhile [of "\<lambda>c. c \<notin> set ws" r] by simp
  then have "0 < strspn r1 ws" using r(4) by (cases r1) (auto simp: strspn_def)
  moreover have "0 < length r1" using r(4) by simp
  ultimately have "length (drop (strspn r1 ws) r1) < length r1" by simp
  also have "length r1 \<le> length r" using r(3) by simp
  finally show "(drop (strspn r1 ws) r1, r) \<in> measure length" by simp
qed auto

declare split_words.simps [simp del]

text \<open>Phase 2: the last word of the range of adjacent words that need encoding.\<close>

function range_end :: "string list \<Rightarrow> nat \<Rightarrow> nat" where
  "range_end words e =
     (if e < length words \<and> needs_enc (words ! e) then range_end words (e + 2) else e)"
  by pat_completeness auto
termination
  by (relation "measure (\<lambda>(words, e). length words - e)") auto

declare range_end.simps [simp del]

lemma range_end_ge: "e \<le> range_end words e"
proof (induction words e rule: range_end.induct)
  case (1 words e)
  then show ?case by (subst range_end.simps) auto
qed

lemma range_end_less: "e < length words + 2 \<Longrightarrow> range_end words e < length words + 2"
proof (induction words e rule: range_end.induct)
  case (1 words e)
  then show ?case by (subst range_end.simps) auto
qed

function encode_ranges :: "string \<Rightarrow> string list \<Rightarrow> nat \<Rightarrow> string list option" where
  "encode_ranges charset words idx =
     (if idx < length words then
        (if \<not> needs_enc (words ! idx) then encode_ranges charset words (idx + 2)
         else
           let e = range_end words (idx + 2) - 2 in
           (case encode_words (take (e - idx + 1) (drop idx words)) charset of
              None \<Rightarrow> None
            | Some tmp \<Rightarrow>
                encode_ranges charset
                  (take idx words @ [tmp] @ replicate (e - idx) [] @ drop (e + 1) words)
                  (e + 2)))
      else Some words)"
  by pat_completeness auto
termination
proof (relation "measure (\<lambda>(charset, words, idx). length words - idx)")
  fix charset words idx e tmp
  assume a: "idx < length words" "e = range_end words (idx + 2) - 2"
  have "idx \<le> e" using range_end_ge [of "idx + 2" words] a(2) by simp
  moreover have "e < length words" using range_end_less [of "idx + 2" words] a by simp
  ultimately have "length (take idx words @ [tmp] @ replicate (e - idx) [] @ drop (e + 1) words)
      = length words" by simp
  then show "((charset, take idx words @ [tmp] @ replicate (e - idx) [] @ drop (e + 1) words, e + 2),
      charset, words, idx) \<in> measure (\<lambda>(charset, words, idx). length words - idx)"
    using a(1) \<open>idx \<le> e\<close> by simp
qed auto

declare encode_ranges.simps [simp del]

text \<open>Phase 3: the rest of the current line, that is, the text behind the last newline.\<close>

definition last_line :: "string \<Rightarrow> string" where
  "last_line out = (case strrchr out LF of None \<Rightarrow> out | Some i \<Rightarrow> drop (Suc i) out)"

fun fold_lines :: "string list \<Rightarrow> string \<Rightarrow> nat \<Rightarrow> string" where
  "fold_lines (sp # w # words) out l =
     (let m = length sp + strcspn w [CR, LF];
          out1 = (if l + m > 74 then out @ [CR, LF] else out) @ sp @ w in
      fold_lines words out1 (length (last_line out1)))"
| "fold_lines [sp] out l =
     (if l + length sp > 74 then out @ [CR, LF] else out) @ sp"
| "fold_lines [] out l = out"

definition out_size :: "nat \<Rightarrow> string \<Rightarrow> nat" where
  "out_size l charset =
     (let minlen = length charset + 7 in l + (l div (72 - minlen) + 1) * (minlen + 2) + 1)"

text \<open>A failed assertion (a charset of 40 characters or more) gives \<open>None\<close>, too.\<close>

definition rfc2047e :: "string \<Rightarrow> string \<Rightarrow> string option" where
  "rfc2047e s charset =
     (if length charset < 40 then
        (case encode_ranges charset (split_words s) 0 of
           None \<Rightarrow> None
         | Some words \<Rightarrow>
             fit_buf (out_size (sum_list (map length words)) charset)
               (case words of
                  [] \<Rightarrow> []
                | w # rest \<Rightarrow> fold_lines rest w (length w)))
      else None)"

section \<open>Properties\<close>

text \<open>
  The buffer \<open>encode_words\<close> allocates can be too small: the estimate counts a line break for
  each 60 characters of output, but a line holds only 64 characters less the charset name.
  With a charset name of 39 characters, which the assertion allows, ten encoded
  characters overflow it.
\<close>

theorem encode_words_overflow:
  "encode_words [replicate 10 (CHR 0xE4)] (replicate 39 CHR ''x'') = None"
  by code_simp

end
