(* ===== verification/UnmimeQp.thy ===== *)
theory UnmimeQp
  imports Unmime Rfc2047
begin

section \<open>The decoders as functions on strings\<close>

text \<open>
  The decoders of unmime.c work in place. Here they are proved equal to functions from string to
  string, which also shows that the output never overtakes the input and that no byte outside
  the buffer is touched.
\<close>

subsection \<open>The view of a buffer\<close>

text \<open>
  \<open>acc\<close> has been written at the front, \<open>r\<close> is still to be read from index \<open>i\<close> on, and
  \<open>z\<close> lies behind the terminator.
\<close>

definition view :: "string \<Rightarrow> string \<Rightarrow> nat \<Rightarrow> string \<Rightarrow> string \<Rightarrow> bool" where
  "view buf acc i r z \<longleftrightarrow> length acc \<le> i \<and> take (length acc) buf = acc \<and> drop i buf = r @ NUL # z \<and> c_string r"

lemma view_length: "view buf acc i r z \<Longrightarrow> length buf = i + length r + 1 + length z"
proof -
  assume "view buf acc i r z"
  then have "drop i buf = r @ NUL # z" by (simp add: view_def)
  then have "length buf - i = length r + 1 + length z" by (metis length_drop length_append list.size(4) add.assoc One_nat_def add_Suc_right plus_1_eq_Suc add.commute)
  then show ?thesis by linarith
qed

lemma view_str: "view buf acc i r z \<Longrightarrow> str_at buf i = r"
  by (simp add: view_def str_at_def cstr_of_append_NUL)

lemma view_nth: "view buf acc i r z \<Longrightarrow> k \<le> length r \<Longrightarrow> buf ! (i + k) = char_at r k"
proof -
  assume v: "view buf acc i r z" and k: "k \<le> length r"
  have "buf ! (i + k) = drop i buf ! k" using view_length [OF v] k by simp
  also have "\<dots> = char_at r k" using v k by (auto simp: view_def nth_append char_at_def)
  finally show ?thesis .
qed

lemma view_peek: "view buf acc i r z \<Longrightarrow> k \<le> length r \<Longrightarrow> peek buf (i + k) = Some (char_at r k)"
  using view_length [of buf acc i r z] view_nth [of buf acc i r z k] by (simp add: peek_def)

lemma view_peek_0: "view buf acc i r z \<Longrightarrow> peek buf i = Some (char_at r 0)"
  using view_peek [of buf acc i r z 0] by simp

lemma c_string_drop: "c_string r \<Longrightarrow> c_string (drop k r)"
  by (auto simp: c_string_def dest: in_set_dropD)

lemma view_drop: "view buf acc i r z \<Longrightarrow> k \<le> length r \<Longrightarrow> drop (i + k) buf = drop k r @ NUL # z"
proof -
  assume v: "view buf acc i r z" and k: "k \<le> length r"
  have "drop (i + k) buf = drop k (drop i buf)" by (simp add: add.commute)
  also have "\<dots> = drop k (r @ NUL # z)" using v by (simp only: view_def)
  finally show ?thesis using k by simp
qed

lemma view_skip: "view buf acc i r z \<Longrightarrow> k \<le> length r \<Longrightarrow> view buf acc (i + k) (drop k r) z"
  using view_drop [of buf acc i r z k] by (simp add: view_def c_string_drop)

lemma take_snoc_update: "n < length buf \<Longrightarrow> take (Suc n) (buf[n := c]) = take n buf @ [c]"
  by (simp add: take_Suc_conv_app_nth)

lemma view_poke:
  assumes v: "view buf acc i r z" and k: "1 \<le> k" "k \<le> length r"
  shows "\<exists>buf'. poke buf (length acc) c = Some buf' \<and> view buf' (acc @ [c]) (i + k) (drop k r) z"
proof -
  have l: "length acc < length buf" "length acc < i + k"
    using view_length [OF v] v k by (auto simp: view_def)
  have "drop (i + k) (buf[length acc := c]) = drop (i + k) buf" using l(2) by simp
  also have "\<dots> = drop k r @ NUL # z" using view_drop [OF v] k by simp
  finally have d: "drop (i + k) (buf[length acc := c]) = drop k r @ NUL # z" .
  have "take (Suc (length acc)) (buf[length acc := c]) = acc @ [c]"
    using take_snoc_update [OF l(1), of c] v by (simp add: view_def)
  then show ?thesis
    using l d v by (auto simp: view_def c_string_drop)
qed

lemma view_move:
  assumes v: "view buf acc i r z" and k: "k \<le> length r"
  shows "\<exists>buf'. memmove buf (length acc) i k = Some buf' \<and> view buf' (acc @ take k r) (i + k) (drop k r) z"
proof -
  have l: "length acc + k \<le> length buf" "i + k \<le> length buf" "length acc \<le> i"
    using view_length [OF v] v k by (auto simp: view_def)
  have tk: "take k (drop i buf) = take k r" using v k by (simp add: view_def)
  let ?b = "overwrite buf (length acc) (take k r)"
  have b: "?b = acc @ take k r @ drop (length acc + k) buf"
    using v k by (simp add: overwrite_def view_def min_def)
  have "drop (i + k) ?b = drop (i + k) buf"
    unfolding b using l k by (simp add: min_def)
  also have "\<dots> = drop k r @ NUL # z" using view_drop [OF v] k by simp
  finally have "view ?b (acc @ take k r) (i + k) (drop k r) z"
    using v k b by (simp add: view_def c_string_drop min_def)
  then show ?thesis using memmove_eq [OF l(1,2)] tk by auto
qed

section \<open>Quoted-printable lines\<close>

text \<open>The decoded text, and whether a soft line break was seen.\<close>

definition skip_break :: "string \<Rightarrow> string" where
  "skip_break s =
     (let s1 = (if char_at s 0 = CR then drop 1 s else s) in if char_at s1 0 = LF then drop 1 s1 else s1)"

lemma length_skip_break: "length (skip_break s) \<le> length s"
  by (auto simp: skip_break_def Let_def)

function qp_line :: "string \<Rightarrow> string \<times> bool" where
  "qp_line [] = ([], False)"
| "qp_line (c # s) =
     (if c \<noteq> CHR ''='' then (let (t, b) = qp_line s in (c # t, b))
      else if s = [] \<or> hd s = CR \<or> hd s = LF then (fst (qp_line (skip_break s)), True)
      else (case qp_char (hd s) (char_at s 1) of
              Some d \<Rightarrow> (let (t, b) = qp_line (drop 2 s) in (d # t, b))
            | None \<Rightarrow> (let (t, b) = qp_line s in (CHR ''='' # t, b))))"
  by pat_completeness auto
termination
  by (relation "measure length") (auto simp: less_Suc_eq_le length_skip_break)

lemma qp_line_plain:
  "CHR ''='' \<notin> set p \<Longrightarrow> qp_line (p @ s) = (p @ fst (qp_line s), snd (qp_line s))"
  by (induction p) (auto split: prod.splits)

lemma view_final:
  "view buf acc i [] z \<Longrightarrow> \<exists>buf'. poke buf (length acc) NUL = Some buf' \<and> length buf' = length buf
     \<and> take (Suc (length acc)) buf' = acc @ [NUL]"
proof -
  assume v: "view buf acc i [] z"
  then have l: "length acc < length buf" using view_length [OF v] by (simp add: view_def)
  then show ?thesis using take_snoc_update [OF l, of NUL] v by (auto simp: view_def)
qed

lemma unhex_NUL: "unhex NUL = 16"
  by (simp add: unhex_def code_def)

lemma qp_char_NUL: "qp_char NUL c = None" "qp_char c NUL = None"
  by (simp_all add: qp_char_def unhex_NUL)

text \<open>One turn of the loop moves the view on and shortens what is left to read.\<close>

lemma qp_turn_view:
  assumes v: "view buf acc i r z" and r: "r \<noteq> []"
  shows "\<exists>buf' t r' soft. qp_turn buf i (length acc) = Some (buf', i + (length r - length r'), length (acc @ t), soft)
    \<and> view buf' (acc @ t) (i + (length r - length r')) r' z \<and> length r' < length r
    \<and> qp_line r = (t @ fst (qp_line r'), soft \<or> snd (qp_line r'))"
proof (cases "strchr r (CHR ''='')")
  case None
  obtain buf' where "memmove buf (length acc) i (length r) = Some buf'" "view buf' (acc @ r) (i + length r) [] z"
    using view_move [OF v order_refl] by auto
  then show ?thesis
    using None r qp_line_plain [OF strchr_None [OF None], of "[]"]
    by - (rule exI [of _ buf'], rule exI [of _ r], rule exI [of _ "[]"], rule exI [of _ False], simp add: qp_turn_def view_str [OF v] Let_def)
next
  case (Some n)
  have n: "n < length r" "r ! n = CHR ''=''" "CHR ''='' \<notin> set (take n r)" using strchr_split [OF Some] by auto
  define s where "s = drop (Suc n) r"
  have dr: "drop n r = CHR ''='' # s" using n by (simp add: s_def Cons_nth_drop_Suc [symmetric])
  have rr: "r = take n r @ CHR ''='' # s" using dr by (metis append_take_drop_id)
  define acc1 where "acc1 = acc @ take n r"
  have lacc1: "length acc1 = length acc + n" using n by (simp add: acc1_def min_def)
  obtain buf1 where b1: "(if n > 0 then do { buf1 \<leftarrow> memmove buf (length acc) i n; Some (buf1, length acc + n) }
      else Some (buf, length acc)) = Some (buf1, length acc1)" "view buf1 acc1 (i + n) (CHR ''='' # s) z"
    using view_move [OF v, of n] v n dr lacc1 by (cases "n = 0") (auto simp: acc1_def)
  note v1 = b1(2)
  have cs: "c_string s" using v1 by (simp add: view_def c_string_def)
  have p1: "peek buf1 (i + n + 1) = Some (char_at s 0)" using view_peek [OF v1, of 1] by simp
  have split: "qp_line r = (take n r @ fst (qp_line (CHR ''='' # s)), snd (qp_line (CHR ''='' # s)))"
    using qp_line_plain [OF n(3), of "CHR ''='' # s"] rr by simp
  have lr: "length r = n + 1 + length s" using n by (simp add: s_def)
  have turn: "qp_turn buf i (length acc) = (if char_at s 0 = NUL \<or> char_at s 0 = CR \<or> char_at s 0 = LF then do {
            let i1 = (if char_at s 0 = CR then i + n + 2 else i + n + 1);
            c2 \<leftarrow> peek buf1 i1;
            Some (buf1, if c2 = LF then i1 + 1 else i1, length acc1, True)
          }
          else do {
            c2 \<leftarrow> peek buf1 (i + n + 2);
            (case qp_char (char_at s 0) c2 of
               Some d \<Rightarrow> do { buf2 \<leftarrow> poke buf1 (length acc1) d; Some (buf2, i + n + 3, length acc1 + 1, False) }
             | None \<Rightarrow> do { buf2 \<leftarrow> poke buf1 (length acc1) (CHR ''=''); Some (buf2, i + n + 1, length acc1 + 1, False) })
          })"
    using Some b1(1) p1 by (simp add: qp_turn_def view_str [OF v] Let_def)
  show ?thesis
  proof (cases "char_at s 0 = NUL \<or> char_at s 0 = CR \<or> char_at s 0 = LF")
    case True
    define k where "k = (if char_at s 0 = CR then 1 else 0 :: nat)"
    have k: "k \<le> length s" by (cases s) (auto simp: k_def)
    have p2: "peek buf1 (i + n + (1 + k)) = Some (char_at s k)"
      using view_peek [OF v1, of "1 + k"] k by simp
    have sb: "skip_break s = (if char_at s k = LF then drop (k + 1) s else drop k s)"
      by (cases s) (auto simp: skip_break_def k_def Let_def char_at_def)
    define j where "j = (if char_at s k = LF then k + 1 else k)"
    have j: "j \<le> length s" using k by (auto simp: j_def char_at_def split: if_splits)
    have sj: "skip_break s = drop j s" by (simp add: sb j_def)
    have "view buf1 acc1 (i + n + (1 + j)) (drop j s) z" using view_skip [OF v1, of "1 + j"] j by simp
    moreover have "i + n + (1 + j) = i + (length r - length (drop j s))" using lr j by simp
    moreover have "qp_turn buf i (length acc) = Some (buf1, i + n + (1 + j), length acc1, True)"
    proof -
      have e1: "(if char_at s 0 = CR then i + n + 2 else i + n + 1) = i + n + (1 + k)" by (simp add: k_def)
      have e2: "(if char_at s k = LF then i + n + (1 + k) + 1 else i + n + (1 + k)) = i + n + (1 + j)"
        by (simp add: j_def)
      show ?thesis unfolding turn if_P [OF True] Let_def e1 p2 Option.bind.bind_lunit e2 by (rule refl)
    qed
    moreover have "s = [] \<or> hd s = CR \<or> hd s = LF"
      using True cs by (cases s) (auto simp: c_string_def)
    then have "qp_line r = (take n r @ fst (qp_line (drop j s)), True)"
      unfolding split by (simp add: sj)
    ultimately show ?thesis
      using lr by - (rule exI [of _ buf1], rule exI [of _ "take n r"], rule exI [of _ "drop j s"], rule exI [of _ True], simp add: acc1_def)
  next
    case False
    then obtain c t where s: "s = c # t" by (cases s) auto
    have p2: "peek buf1 (i + n + 2) = Some (char_at s 1)"
      using view_peek [OF v1, of 2] s by (simp add: numeral_2_eq_2)
    have cond: "\<not> (s = [] \<or> hd s = CR \<or> hd s = LF)" using False s by simp
    show ?thesis
    proof (cases "qp_char (char_at s 0) (char_at s 1)")
      case None
      obtain buf2 where b2: "poke buf1 (length acc1) (CHR ''='') = Some buf2"
          "view buf2 (acc1 @ ''='') (i + n + 1) s z"
        using view_poke [OF v1, of 1 "CHR ''=''"] by auto
      have "qp_turn buf i (length acc) = Some (buf2, i + n + 1, length acc1 + 1, False)"
        using False p2 None b2(1) unfolding turn by simp
      moreover have "qp_line r = ((take n r @ ''='') @ fst (qp_line s), snd (qp_line s))"
        using None cond s unfolding split by (simp add: Let_def split: prod.split)
      ultimately show ?thesis
        using lr b2(2) by - (rule exI [of _ buf2], rule exI [of _ "take n r @ ''=''"], rule exI [of _ s], rule exI [of _ False], simp add: acc1_def)
    next
      case (Some d)
      have "char_at s 1 \<noteq> NUL" using Some qp_char_NUL(2) by (metis option.distinct(1))
      then have l2: "2 \<le> length s" using s by (cases t) auto
      obtain buf2 where b2: "poke buf1 (length acc1) d = Some buf2"
          "view buf2 (acc1 @ [d]) (i + n + 3) (drop 2 s) z"
        using view_poke [OF v1, of 3 d] l2 by auto
      have ix: "i + n + 3 = i + (length r - length (drop 2 s))" using lr l2 by simp
      have t3: "qp_turn buf i (length acc) = Some (buf2, i + n + 3, length acc1 + 1, False)"
        using False p2 Some b2(1) unfolding turn by simp
      have q3: "qp_line r = ((take n r @ [d]) @ fst (qp_line (drop 2 s)), False \<or> snd (qp_line (drop 2 s)))"
        using Some cond s unfolding split by (simp add: Let_def split: prod.split)
      have a3: "acc1 @ [d] = acc @ (take n r @ [d])" "length acc1 + 1 = length (acc @ (take n r @ [d]))"
        using lacc1 n by (simp_all add: acc1_def)
      have "length (drop 2 s) < length r" using lr by simp
      with t3 b2(2) q3 show ?thesis
        unfolding ix a3 by blast
    qed
  qed
qed

lemma qp_loop_eq:
  "view buf acc i r z \<Longrightarrow> \<exists>buf'. qp_loop buf i (length acc) ret
     = Some (ret \<or> snd (qp_line r), length acc + length (fst (qp_line r)), buf') \<and> length buf' = length buf
     \<and> take (length acc + length (fst (qp_line r)) + 1) buf' = acc @ fst (qp_line r) @ [NUL]"
proof (induction "length r" arbitrary: buf acc i r ret rule: less_induct)
  case less
  note v = less.prems
  show ?case
  proof (cases r)
    case Nil
    obtain buf' where "poke buf (length acc) NUL = Some buf'" "length buf' = length buf"
        "take (Suc (length acc)) buf' = acc @ [NUL]"
      using view_final v Nil by blast
    then show ?thesis
      using view_peek_0 [OF v] Nil by (simp add: qp_loop.simps [of buf i])
  next
    case (Cons c s)
    then have c: "char_at r 0 \<noteq> NUL" using v by (auto simp: view_def c_string_def)
    obtain buf' t r' soft where t: "qp_turn buf i (length acc)
          = Some (buf', i + (length r - length r'), length (acc @ t), soft)"
        "view buf' (acc @ t) (i + (length r - length r')) r' z" "length r' < length r"
        "qp_line r = (t @ fst (qp_line r'), soft \<or> snd (qp_line r'))"
      using qp_turn_view [OF v] Cons by blast
    have len: "length buf' = length buf" using view_length [OF v] view_length [OF t(2)] t(3) by simp
    obtain buf2 where "qp_loop buf' (i + (length r - length r')) (length (acc @ t)) (ret \<or> soft)
        = Some ((ret \<or> soft) \<or> snd (qp_line r'), length (acc @ t) + length (fst (qp_line r')), buf2)"
        "length buf2 = length buf'"
        "take (length (acc @ t) + length (fst (qp_line r')) + 1) buf2 = (acc @ t) @ fst (qp_line r') @ [NUL]"
      using less.hyps [OF t(3,2)] by blast
    then show ?thesis
      using view_peek_0 [OF v] c t(1,4) len by (simp add: qp_loop.simps [of buf i] disj_assoc add.assoc)
  qed
qed

lemma view_init: "c_string s \<Longrightarrow> k \<le> length s \<Longrightarrow> view (s @ NUL # z) [] k (drop k s) z"
  by (simp add: view_def c_string_drop)

lemma qp_loop_start:
  "c_string s \<Longrightarrow> k \<le> length s \<Longrightarrow> \<exists>buf'. qp_loop (s @ NUL # z) k 0 False
     = Some (snd (qp_line (drop k s)), length (fst (qp_line (drop k s))), buf') \<and> length buf' = length (s @ NUL # z)
     \<and> take (length (fst (qp_line (drop k s))) + 1) buf' = fst (qp_line (drop k s)) @ [NUL]"
  using qp_loop_eq [OF view_init [of s k z], where ret = False] by simp

lemma cstr_of_before_NUL: "cstr_of (s @ NUL # t) = cstr_of s"
  by (induction s) (simp_all add: cstr_of_def)

lemma str_at_0: "c_string s \<Longrightarrow> str_at (s @ NUL # z) 0 = s"
  by (simp add: str_at_def cstr_of_append_NUL)

text \<open>
  C31. \<open>DoOneQPLine\<close> decodes a quoted-printable line in place: it returns, every access is
  inside the line's buffer, and the text it leaves there (ended by a NUL) is the one the
  specification \<open>qp_line\<close> gives, for the line without the first dot when the line continues a
  soft-broken one and starts with two. Its result says whether a soft line break was seen. The
  one exception, a line that is just an encoded dot, is rewritten to two dots.
\<close>

theorem DoOneQPLine_decodes:
  assumes "c_string s" and "\<not> (delimited \<and> \<not> soft \<and> has_prefix s (''=2E'' @ [CR, LF]))"
  shows "\<exists>buf'. let r = (if delimited \<and> soft \<and> has_prefix s ''..'' then drop 1 s else s) in
    DoOneQPLine (s @ NUL # z) delimited soft = Some (snd (qp_line r), length (fst (qp_line r)), buf')
    \<and> length buf' = length s + 1 + length z \<and> str_at buf' 0 = cstr_of (fst (qp_line r))
    \<and> take (length (fst (qp_line r)) + 1) buf' = fst (qp_line r) @ [NUL]"
proof -
  define k :: nat where "k = (if delimited \<and> soft \<and> has_prefix s ''..'' then 1 else 0)"
  have k: "k \<le> length s" by (cases s) (auto simp: k_def)
  have r: "(if delimited \<and> soft \<and> has_prefix s ''..'' then drop 1 s else s) = drop k s" by (simp add: k_def)
  obtain buf' where b: "qp_loop (s @ NUL # z) k 0 False
      = Some (snd (qp_line (drop k s)), length (fst (qp_line (drop k s))), buf')"
      "length buf' = length (s @ NUL # z)"
      "take (length (fst (qp_line (drop k s))) + 1) buf' = fst (qp_line (drop k s)) @ [NUL]"
    using qp_loop_start [OF assms(1) k] by blast
  have "buf' = fst (qp_line (drop k s)) @ NUL # drop (length (fst (qp_line (drop k s))) + 1) buf'"
    using b(3) by (metis append_take_drop_id append.assoc append_Cons append_Nil)
  then have "str_at buf' 0 = cstr_of (fst (qp_line (drop k s)))"
    using cstr_of_before_NUL by (metis drop_0 str_at_def)
  moreover have "DoOneQPLine (s @ NUL # z) delimited soft = qp_loop (s @ NUL # z) k 0 False"
    unfolding DoOneQPLine_def str_at_0 [OF assms(1)] if_not_P [OF assms(2)] k_def by (rule refl)
  ultimately show ?thesis
    unfolding r Let_def using b by - (rule exI [of _ buf'], simp)
qed

theorem DoOneQPLine_decodes_witness:
  "\<exists>buf'. DoOneQPLine (''..a=3Db='' @ NUL # ''xy'') True True = Some (True, 4, buf')
    \<and> length buf' = 11 \<and> str_at buf' 0 = ''.a=b'' \<and> take 5 buf' = ''.a=b'' @ [NUL]"
proof -
  have "qp_line ''.a=3Db='' = (''.a=b'', True)" by code_simp
  moreover have "cstr_of ''.a=b'' = ''.a=b''" by (simp add: cstr_of_def)
  ultimately show ?thesis
    using DoOneQPLine_decodes [of "''..a=3Db=''" True True "''xy''"]
    by (simp add: c_string_def numeral_eq_Suc)
qed

declare qp_loop.simps [code]

text \<open>
  The treatment of the encoded dot looks only at a line that holds nothing else. A line that
  begins with an encoded dot and goes on is decoded to a line that begins with a bare dot, which
  a server that is sent it verbatim takes for a stuffed one.
\<close>

theorem DoOneQPLine_unstuffed_dot:
  "DoOneQPLine (''=2Efoo'' @ [CR, LF, NUL]) True False
     = Some (False, 6, ''.foo'' @ [CR, LF, NUL, LF, NUL])"
  by code_simp

end
