(* ===== verification/UnmimeB64.thy ===== *)
theory UnmimeB64
  imports UnmimeQp
begin

section \<open>Base-64 words, decoded in place\<close>

text \<open>\<open>from64tobits\<close> with input and output in one buffer agrees with the function of base64.c.\<close>

definition b2c :: "byte \<Rightarrow> char" where
  "b2c b = chr (unat b)"

lemma drop_peek: "drop i buf = xs @ ys \<Longrightarrow> k < length xs \<Longrightarrow> peek buf (i + k) = Some (xs ! k)"
proof -
  assume d: "drop i buf = xs @ ys" and k: "k < length xs"
  then have "k < length (drop i buf)" by simp
  then have "i + k < length buf" by simp
  moreover have "buf ! (i + k) = drop i buf ! k" using \<open>i + k < length buf\<close> by simp
  ultimately show ?thesis using d k by (simp add: nth_append)
qed

lemma drop_peek_0: "drop i buf = x # ys \<Longrightarrow> peek buf i = Some x"
  using drop_peek [of i buf "[x]" ys 0] by simp

text \<open>The bytes of one turn.\<close>

definition quad_out :: "char \<Rightarrow> char \<Rightarrow> char \<Rightarrow> char \<Rightarrow> byte list" where
  "quad_out a b c d =
     (push_bit 2 (six a) OR drop_bit 4 (six b))
     # (if c \<noteq> CHR ''='' then
          ((push_bit 4 (six b) AND 0xf0) OR drop_bit 2 (six c))
          # (if d \<noteq> CHR ''='' then [(push_bit 6 (six c) AND 0xc0) OR six d] else [])
        else [])"

definition quad_bad :: "char \<Rightarrow> char \<Rightarrow> char \<Rightarrow> char \<Rightarrow> bool" where
  "quad_bad a b c d \<longleftrightarrow> DECODE64 a = BAD \<or> DECODE64 b = BAD \<or> (c \<noteq> CHR ''='' \<and> DECODE64 c = BAD)
     \<or> (d \<noteq> CHR ''='' \<and> DECODE64 d = BAD)"

lemma from64_loop_four:
  "from64_loop 0 (a # b # c # d # w) bs =
     (if quad_bad a b c d then None
      else if char_at w 0 \<noteq> NUL \<and> char_at w 0 \<noteq> CR \<and> d \<noteq> CHR ''='' then from64_loop 0 w (bs @ quad_out a b c d)
      else Some (bs @ quad_out a b c d))"
  by (subst from64_loop.simps) (auto simp: room_def quad_bad_def quad_out_def Let_def)

lemma CR_not_pad: "CR \<noteq> CHR ''=''"
  by simp

lemma from64_loop_short: "length w < 4 \<Longrightarrow> from64_loop 0 (w @ [CR]) bs = None"
proof -
  assume "length w < 4"
  then have "char_at (w @ [CR]) 0 = CR \<or> char_at (w @ [CR]) 1 = CR \<or> char_at (w @ [CR]) 2 = CR \<or> char_at (w @ [CR]) 3 = CR"
    by (cases w rule: list.exhaust; cases "tl w"; cases "tl (tl w)"; cases "tl (tl (tl w))") auto
  then show ?thesis
    using DECODE64_special(1) by (subst from64_loop.simps) (auto simp: Let_def)
qed

lemma inplace_short:
  assumes d: "drop inp buf = w @ CR # y" and w: "length w < 4"
  shows "from64_inplace_loop 0 buf out inp len = Some (-1, buf)"
proof -
  have p: "k \<le> length w \<Longrightarrow> peek buf (inp + k) = Some ((w @ [CR]) ! k)" for k
    using drop_peek [of inp buf "w @ [CR]" y k] d by simp
  have l: "inp < length buf" using d by (metis drop_all leI append_is_Nil_conv list.discI)
  have p0: "peek buf inp = Some ((w @ [CR]) ! 0)" using p [of 0] by simp
  have p1: "1 \<le> length w \<Longrightarrow> peek buf (inp + 1) = Some ((w @ [CR]) ! 1)" using p [of 1] by simp
  have p2: "2 \<le> length w \<Longrightarrow> peek buf (inp + 2) = Some ((w @ [CR]) ! 2)" using p [of 2] by simp
  have p3: "3 \<le> length w \<Longrightarrow> peek buf (inp + 3) = Some ((w @ [CR]) ! 3)" using p [of 3] by simp
  consider "w = []" | a where "w = [a]" | a b where "w = [a, b]" | a b c where "w = [a, b, c]"
    using w by (cases w; cases "tl w"; cases "tl (tl w)"; cases "tl (tl (tl w))") auto
  then show ?thesis
    by cases (use l p0 p1 p2 p3 DECODE64_special(1) in \<open>simp_all add: from64_inplace_loop.simps [of 0 buf]\<close>)
qed

lemma overwrite_keeps:
  assumes "out + length t \<le> i" "i \<le> length buf"
  shows "length (overwrite buf out t) = length buf" "drop i (overwrite buf out t) = drop i buf"
    "take (out + length t) (overwrite buf out t) = take out buf @ t"
    "take out (overwrite buf out t) = take out buf"
proof -
  have "out \<le> length buf" "out + length t \<le> length buf" using assms by simp_all
  then show "length (overwrite buf out t) = length buf" "drop i (overwrite buf out t) = drop i buf"
    "take (out + length t) (overwrite buf out t) = take out buf @ t"
    "take out (overwrite buf out t) = take out buf"
    using assms by (simp_all add: overwrite_def)
qed

lemma overwrite_steps:
  assumes "out + 3 \<le> length buf"
  shows "poke buf out x = Some (overwrite buf out [x])"
    "poke (overwrite buf out [x]) (Suc out) y = Some (overwrite buf out [x, y])"
    "poke (overwrite buf out [x, y]) (Suc (Suc out)) u = Some (overwrite buf out [x, y, u])"
  using assms overwrite_snoc [of out "[]" buf x] overwrite_snoc [of out "[x]" buf y] overwrite_snoc [of out "[x, y]" buf u]
  by (simp_all add: poke_def)

lemma length_quad_out: "length (quad_out a b c d) = (if c = CHR ''='' then 1 else if d = CHR ''='' then 2 else 3)"
  by (simp add: quad_out_def)

lemma inplace_turn:
  assumes d: "drop inp buf = a # b # c # d # e # w" and out: "out \<le> inp"
  shows "from64_inplace_loop 0 buf out inp len =
    (if quad_bad a b c d then Some (-1, buf)
     else
       let t = map b2c (quad_out a b c d); buf' = overwrite buf out t in
       if e \<noteq> NUL \<and> e \<noteq> CR \<and> d \<noteq> CHR ''=''
       then from64_inplace_loop 0 buf' (out + length t) (inp + 4) (len + int (length t))
       else Some (len + int (length t), buf'))"
proof -
  have p: "k < 5 \<Longrightarrow> peek buf (inp + k) = Some ([a, b, c, d, e] ! k)" for k
    using drop_peek [of inp buf "[a, b, c, d, e]" w k] d by simp
  have p0: "peek buf inp = Some a" using p [of 0] by simp
  have p1: "peek buf (Suc inp) = Some b" using p [of 1] by simp
  have p2: "peek buf (Suc (Suc inp)) = Some c" using p [of 2] by simp
  have p3: "peek buf (inp + 3) = Some d" using p [of 3] by simp
  have "length (drop inp buf) \<ge> 5" using d by simp
  then have l: "inp + 5 \<le> length buf" by simp
  then have l': "\<not> length buf \<le> inp" by simp
  define t where "t = map b2c (quad_out a b c d)"
  have lt: "length t \<le> 3" by (simp add: t_def length_quad_out)
  have p4: "peek (overwrite buf out t) (inp + 4) = Some e"
  proof -
    have "drop (inp + 4) (overwrite buf out t) = drop (inp + 4) buf"
      using lt out l by (intro overwrite_keeps) auto
    also have "\<dots> = drop 4 (drop inp buf)" by (simp add: add.commute)
    also have "\<dots> = e # w" by (simp add: d)
    finally show ?thesis by (rule drop_peek_0)
  qed
  have lb: "out + 3 \<le> length buf" using l out by simp
  note st = overwrite_steps [OF lb]
  show ?thesis
  proof (cases "quad_bad a b c d")
    case True
    then show ?thesis
      using p0 p1 p2 p3 l' by (auto simp: from64_inplace_loop.simps [of 0 buf] quad_bad_def)
  next
    case False
    then have g: "DECODE64 a \<noteq> BAD" "DECODE64 b \<noteq> BAD" "c \<noteq> CHR ''='' \<Longrightarrow> DECODE64 c \<noteq> BAD" "d \<noteq> CHR ''='' \<Longrightarrow> DECODE64 d \<noteq> BAD"
      by (auto simp: quad_bad_def)
    have three: "Suc (Suc (Suc out)) = out + 3" by simp
    note start = from64_inplace_loop.simps [of 0 buf out inp len] p0 p1 p2 p3 l' st
    show ?thesis
    proof (cases "c = CHR ''=''")
      case True
      then have t1: "t = [b2c (push_bit 2 (six a) OR drop_bit 4 (six b))]"
        by (simp add: t_def quad_out_def)
      show ?thesis
        unfolding Let_def t_def [symmetric] if_not_P [OF False] t1 using p4 [unfolded t1] True g(1,2,4)
        by (cases "d = CHR ''=''") (simp_all add: start b2c_def)
    next
      case c: False
      show ?thesis
      proof (cases "d = CHR ''=''")
        case True
        then have t1: "t = [b2c (push_bit 2 (six a) OR drop_bit 4 (six b)),
            b2c ((push_bit 4 (six b) AND 0xf0) OR drop_bit 2 (six c))]"
          using c by (simp add: t_def quad_out_def)
        show ?thesis
          unfolding Let_def t_def [symmetric] if_not_P [OF False] t1 using p4 [unfolded t1] True c g(1-3)
          by (simp add: start b2c_def)
      next
        case False
        then have t1: "t = [b2c (push_bit 2 (six a) OR drop_bit 4 (six b)),
            b2c ((push_bit 4 (six b) AND 0xf0) OR drop_bit 2 (six c)), b2c ((push_bit 6 (six c) AND 0xc0) OR six d)]"
          using c by (simp add: t_def quad_out_def)
        show ?thesis
          unfolding Let_def t_def [symmetric] if_not_P [OF \<open>\<not> quad_bad a b c d\<close>] t1 using p4 [unfolded t1] False c g
          by (simp add: start b2c_def three)
      qed
    qed
  qed
qed

lemma inplace_loop:
  assumes "drop inp buf = w @ CR # y" and "out \<le> inp"
  shows "\<exists>n buf'. from64_inplace_loop 0 buf out inp len = Some (n, buf') \<and> length buf' = length buf
    \<and> drop (inp + length w) buf' = CR # y
    \<and> take out buf' = take out buf
    \<and> (case from64_loop 0 (w @ [CR]) bs of
         None \<Rightarrow> n = -1
       | Some bs' \<Rightarrow> \<exists>t. bs' = bs @ t \<and> n = len + int (length t) \<and> out + length t \<le> inp + length w
           \<and> take (out + length t) buf' = take out buf @ map b2c t)"
  using assms
proof (induction "length w" arbitrary: w buf out inp len bs rule: less_induct)
  case less
  note d = less.prems(1) and out = less.prems(2)
  have dw: "drop (inp + length w) buf = CR # y"
    using d by (metis append_eq_conv_conj drop_drop add.commute)
  show ?case
  proof (cases "length w < 4")
    case True
    then show ?thesis
      using inplace_short [OF d True, of out len] from64_loop_short [OF True, of bs] dw by simp
  next
    case False
    then obtain a b c e w2 where w: "w = a # b # c # e # w2"
      by (cases w; cases "tl w"; cases "tl (tl w)"; cases "tl (tl (tl w))") auto
    obtain f v where f: "w2 @ CR # y = f # v" by (cases w2) auto
    have hd: "char_at (w2 @ [CR]) 0 = f" using f by (cases w2) auto
    have d1: "drop inp buf = a # b # c # e # f # v" using d w f by simp
    note turn = inplace_turn [OF d1 out, of len]
    note pure = from64_loop_four [of a b c e "w2 @ [CR]" bs]
    have "length (drop inp buf) = length w + 1 + length y" using d by simp
    then have l: "inp + length w + 1 + length y = length buf" unfolding length_drop by linarith
    define t where "t = map b2c (quad_out a b c e)"
    define buf1 where "buf1 = overwrite buf out t"
    have lt: "length t \<le> 3" by (simp add: t_def length_quad_out)
    then have lo: "out + length t \<le> inp + 4" "inp + 4 \<le> length buf" using out l w by auto
    note k1 = overwrite_keeps [OF lo, folded buf1_def]
    have "out + length t \<le> inp + length w" "inp + length w \<le> length buf" using lo l w by auto
    note k2 = overwrite_keeps [OF this, folded buf1_def]
    have stop: "\<exists>n buf'. Some (len + int (length t), buf1) = Some (n, buf') \<and> length buf' = length buf
        \<and> drop (inp + length w) buf' = CR # y \<and> take out buf' = take out buf
        \<and> (\<exists>t. bs @ quad_out a b c e = bs @ t \<and> n = len + int (length t) \<and> out + length t \<le> inp + length w
           \<and> take (out + length t) buf' = take out buf @ map b2c t)"
      using k1 k2 dw lo w by (simp add: t_def)
    show ?thesis
    proof (cases "quad_bad a b c e")
      case True
      then show ?thesis using turn pure w dw by simp
    next
      case good: False
      show ?thesis
      proof (cases "f \<noteq> NUL \<and> f \<noteq> CR \<and> e \<noteq> CHR ''=''")
        case False
        then have "from64_inplace_loop 0 buf out inp len = Some (len + int (length t), buf1)"
          "from64_loop 0 (w @ [CR]) bs = Some (bs @ quad_out a b c e)"
          using turn pure good w hd by (auto simp: t_def buf1_def Let_def)
        with stop show ?thesis by simp
      next
        case True
        then have rec: "from64_inplace_loop 0 buf out inp len = from64_inplace_loop 0 buf1 (out + length t) (inp + 4) (len + int (length t))"
          "from64_loop 0 (w @ [CR]) bs = from64_loop 0 (w2 @ [CR]) (bs @ quad_out a b c e)"
          using turn pure good w hd by (auto simp: t_def buf1_def Let_def)
        have "drop (inp + 4) buf1 = drop (inp + 4) buf" by (rule k1)
        also have "\<dots> = drop 4 (drop inp buf)" by (simp add: add.commute)
        also have "\<dots> = w2 @ CR # y" by (simp add: d w)
        finally have d2: "drop (inp + 4) buf1 = w2 @ CR # y" .
        have "length w2 < length w" by (simp add: w)
        from less.hyps [OF this d2 lo(1), of "len + int (length t)" "bs @ quad_out a b c e"]
        obtain n buf' where ih: "from64_inplace_loop 0 buf1 (out + length t) (inp + 4) (len + int (length t)) = Some (n, buf')"
          "length buf' = length buf1" "drop (inp + 4 + length w2) buf' = CR # y"
          "take (out + length t) buf' = take (out + length t) buf1"
          "case from64_loop 0 (w2 @ [CR]) (bs @ quad_out a b c e) of None \<Rightarrow> n = -1
           | Some bs' \<Rightarrow> \<exists>u. bs' = (bs @ quad_out a b c e) @ u \<and> n = (len + int (length t)) + int (length u)
               \<and> out + length t + length u \<le> inp + 4 + length w2
               \<and> take (out + length t + length u) buf' = take (out + length t) buf1 @ map b2c u" by blast
        have i4: "inp + 4 + length w2 = inp + length w" by (simp add: w)
        have tk: "take out buf' = take out buf"
          using arg_cong [OF ih(4), of "take out"] k1(4) by simp
        show ?thesis
        proof (cases "from64_loop 0 (w2 @ [CR]) (bs @ quad_out a b c e)")
          case None
          then show ?thesis using rec ih i4 tk k1 by simp
        next
          case (Some bs')
          then obtain u where u: "bs' = bs @ quad_out a b c e @ u" "n = len + int (length t) + int (length u)"
            "out + length t + length u \<le> inp + length w"
            "take (out + length t + length u) buf' = take (out + length t) buf1 @ map b2c u"
            using ih(5) i4 by auto
          have "take (out + length (quad_out a b c e @ u)) buf' = take out buf @ map b2c (quad_out a b c e @ u)"
            using u(4) k1(3) by (simp add: t_def add.assoc)
          moreover have "n = len + int (length (quad_out a b c e @ u))"
            using u(2) by (simp add: t_def)
          moreover have "out + length (quad_out a b c e @ u) \<le> inp + length w" using u(3) by (simp add: t_def)
          moreover have "bs' = bs @ (quad_out a b c e @ u)" using u(1) by simp
          moreover have "length buf' = length buf" "drop (inp + length w) buf' = CR # y"
            using ih(2,3) i4 k1(1) by simp_all
          ultimately show ?thesis
            unfolding rec Some ih(1) option.case using tk by blast
        qed
      qed
    qed
  qed
qed

text \<open>The decoded word: what \<open>decode_loop\<close> leaves in the output for a base-64 word \<open>w\<close>.\<close>

definition b64_word :: "string \<Rightarrow> string" where
  "b64_word w = (case from64tobits (w @ [CR]) 0 of None \<Rightarrow> [] | Some bs \<Rightarrow> map b2c bs)"

lemma inplace_word:
  assumes d: "drop inp buf = w @ CR # y" and out: "out \<le> inp"
  shows "\<exists>n buf'. from64_inplace buf out inp 0 = Some (n, buf') \<and> length buf' = length buf
    \<and> drop (inp + length w) buf' = CR # y
    \<and> (if n > 0 then out + nat n else out) = out + length (b64_word w) \<and> out + length (b64_word w) \<le> inp + length w
    \<and> take (out + length (b64_word w)) buf' = take out buf @ b64_word w"
proof -
  define k :: nat where "k = (if char_at w 0 = CHR ''+'' \<and> char_at w 1 = SP then 2 else 0)"
  have k: "k \<le> length w" by (cases w; cases "tl w") (auto simp: k_def)
  have p0: "peek buf inp = Some (char_at (w @ [CR]) 0)"
    using d drop_peek [of inp buf "w @ [CR]" y 0] by (simp add: char_at_def)
  have p1: "w \<noteq> [] \<Longrightarrow> peek buf (inp + 1) = Some (char_at (w @ [CR]) 1)"
    using d drop_peek [of inp buf "w @ [CR]" y 1] by (simp add: char_at_def)
  have "drop (inp + k) buf = drop k (drop inp buf)" by (simp add: add.commute)
  also have "\<dots> = drop k w @ CR # y" using d k by simp
  finally have dk: "drop (inp + k) buf = drop k w @ CR # y" .
  have dw: "drop (inp + length w) buf = CR # y"
    using d by (metis append_eq_conv_conj drop_drop add.commute)
  have pk: "peek buf (inp + k) = Some (char_at (drop k w @ [CR]) 0)"
    using dk drop_peek [of "inp + k" buf "drop k w @ [CR]" y 0] by (simp add: char_at_def)
  have e: "from64_inplace buf out inp 0 =
      (if char_at (drop k w @ [CR]) 0 = CR then Some (0, buf) else from64_inplace_loop 0 buf out (inp + k) 0)"
    using p0 p1 pk by (cases w; cases "tl w") (auto simp: from64_inplace_def k_def)
  have f: "from64tobits (w @ [CR]) 0 = (if char_at (drop k w @ [CR]) 0 = CR then Some [] else from64_loop 0 (drop k w @ [CR]) [])"
    by (cases w; cases "tl w") (auto simp: from64tobits_def k_def Let_def)
  have ok: "out \<le> inp + k" using out by simp
  show ?thesis
  proof (cases "char_at (drop k w @ [CR]) 0 = CR")
    case True
    then show ?thesis using e f dw out by (simp add: b64_word_def)
  next
    case False
    obtain n buf' where r: "from64_inplace_loop 0 buf out (inp + k) 0 = Some (n, buf')" "length buf' = length buf"
      "drop (inp + k + length (drop k w)) buf' = CR # y" "take out buf' = take out buf"
      "case from64_loop 0 (drop k w @ [CR]) [] of None \<Rightarrow> n = -1
       | Some bs' \<Rightarrow> \<exists>t. bs' = [] @ t \<and> n = 0 + int (length t) \<and> out + length t \<le> inp + k + length (drop k w)
           \<and> take (out + length t) buf' = take out buf @ map b2c t"
      using inplace_loop [OF dk ok, of 0 "[]"] by blast
    have ik: "inp + k + length (drop k w) = inp + length w" using k by simp
    have ow: "out \<le> inp + length w" using out by simp
    show ?thesis
    proof (cases "from64_loop 0 (drop k w @ [CR]) []")
      case None
      then show ?thesis
        using e f False r ik ow by (simp add: b64_word_def)
    next
      case (Some bs)
      then show ?thesis
        using e f False r ik ow by (simp add: b64_word_def)
    qed
  qed
qed

end
