(* ===== verification/UnmimeSpec.thy ===== *)
theory UnmimeSpec
  imports UnmimeB64 Rfc2047
begin

section \<open>Header decoding as a function on strings\<close>

text \<open>
  The state machine of \<open>UnMimeHeader\<close> without the buffer: one turn consumes a part of the
  rest and gives the text to put out. The loop over the buffer is proved equal to it, so it ends
  and stays in the buffer.
\<close>

function q_word :: "string \<Rightarrow> string" where
  "q_word [] = []"
| "q_word (c # s) =
     (if c = CHR ''='' then
        (case qp_char (char_at s 0) (char_at s 1) of
           Some d \<Rightarrow> d # q_word (drop 2 s)
         | None \<Rightarrow> c # q_word s)
      else (if c = CHR ''_'' then SP else c) # q_word s)"
  by pat_completeness auto
termination
  by (relation "measure length") auto

definition dec_word :: "char \<Rightarrow> string \<Rightarrow> string" where
  "dec_word enc w = (if enc = CHR ''q'' then q_word w else if enc = CHR ''b'' then b64_word w else w)"

definition hdr_turn :: "mime_state \<Rightarrow> char \<Rightarrow> string \<Rightarrow> mime_state \<times> char \<times> string \<times> string" where
  "hdr_turn st enc r =
     (case st of
        S_COPY_PLAIN \<Rightarrow>
          (case find_sub r ''=?'' of
             None \<Rightarrow> (S_COPY_PLAIN, enc, r, [])
           | Some i \<Rightarrow> (S_SKIP_MIMEINIT, enc, take i r, drop (i + 2) r))
      | S_SKIP_MIMEINIT \<Rightarrow>
          (case strchr r (CHR ''?'') of
             Some i \<Rightarrow>
               if char_at r (i + 2) = CHR ''?''
               then (S_COPY_MIME, tolower (char_at r (i + 1)), [], drop (i + 3) r)
               else (S_COPY_PLAIN, enc, [], r)
           | None \<Rightarrow> (S_COPY_PLAIN, enc, [], r))
      | S_COPY_MIME \<Rightarrow>
          (let p = (case find_sub r ''?='' of Some i \<Rightarrow> i | None \<Rightarrow> length r);
               r2 = drop (p + 2) r in
           (case find_sub r2 ''=?'' of
              None \<Rightarrow> (S_COPY_PLAIN, enc, dec_word enc (take p r), r2)
            | Some i \<Rightarrow>
                if list_all isspace (take i r2)
                then (S_SKIP_MIMEINIT, enc, dec_word enc (take p r), drop (i + 2) r2)
                else (S_COPY_PLAIN, enc, dec_word enc (take p r), r2))))"

definition hdr_rank :: "mime_state \<Rightarrow> string \<Rightarrow> nat" where
  "hdr_rank st r = 2 * length r + (if st = S_SKIP_MIMEINIT then 1 else 0)"

lemma hdr_turn_rank:
  "hdr_turn st enc r = (st', enc', t, r') \<Longrightarrow> r \<noteq> [] \<Longrightarrow> hdr_rank st' r' < hdr_rank st r"
proof (cases st)
  case S_COPY_PLAIN
  assume "hdr_turn st enc r = (st', enc', t, r')" "r \<noteq> []"
  with S_COPY_PLAIN show ?thesis
    by (auto simp: hdr_turn_def hdr_rank_def split: option.splits dest!: find_sub_Some)
next
  case S_SKIP_MIMEINIT
  assume "hdr_turn st enc r = (st', enc', t, r')" "r \<noteq> []"
  with S_SKIP_MIMEINIT show ?thesis
    by (cases r) (auto simp: hdr_turn_def hdr_rank_def split: option.splits if_splits)
next
  case S_COPY_MIME
  assume "hdr_turn st enc r = (st', enc', t, r')" "r \<noteq> []"
  with S_COPY_MIME show ?thesis
    by (cases r) (auto simp: hdr_turn_def hdr_rank_def Let_def split: option.splits if_splits dest!: find_sub_Some)
qed

function dec_hdr :: "mime_state \<Rightarrow> char \<Rightarrow> string \<Rightarrow> string" where
  "dec_hdr st enc r =
     (if r = [] then []
      else (case hdr_turn st enc r of (st', enc', t, r') \<Rightarrow> t @ dec_hdr st' enc' r'))"
  by pat_completeness auto
termination
  by (relation "measure (\<lambda>(st, enc, r). hdr_rank st r)") (auto dest: hdr_turn_rank [OF sym])

declare dec_hdr.simps [simp del]

definition decoded_header :: "string \<Rightarrow> string" where
  "decoded_header s = dec_hdr S_COPY_PLAIN NUL s"

section \<open>Words\<close>

lemma unhex_question: "unhex (CHR ''?'') = 16"
  by (simp add: unhex_def code_def)

lemma qp_char_question: "qp_char (CHR ''?'') c = None" "qp_char c (CHR ''?'') = None"
  by (simp_all add: qp_char_def unhex_question)

definition word_end :: "string \<Rightarrow> string \<Rightarrow> bool" where
  "word_end w v \<longleftrightarrow> (if v = [] then w = [] \<or> last w \<noteq> CHR ''='' else hd v = CHR ''?'')"

lemma word_end_tl: "word_end (c # w) v \<Longrightarrow> word_end w v"
  by (auto simp: word_end_def split: if_splits)

lemma word_end_drop: "word_end w v \<Longrightarrow> word_end (drop k w) v"
proof (induction k)
  case (Suc k)
  then show ?case
    by (cases "drop k w") (auto simp: drop_Suc drop_tl dest: word_end_tl)
qed simp

lemma qp_char_at_end:
  assumes "word_end (CHR ''='' # s) v"
  shows "qp_char (char_at (s @ v) 0) (char_at (s @ v) 1) = qp_char (char_at s 0) (char_at s 1)"
  using assms
  by (cases s; cases "tl s"; cases v) (auto simp: word_end_def qp_char_NUL qp_char_question split: if_splits)

lemma q_turn_view:
  assumes v: "view buf acc i ((c # s) @ v) z" and e: "word_end (c # s) v"
  shows "\<exists>buf' s' d. q_turn buf i (length acc) = Some (buf', i + (length (c # s) - length s'))
    \<and> view buf' (acc @ [d]) (i + (length (c # s) - length s')) (s' @ v) z
    \<and> length s' < length (c # s) \<and> q_word (c # s) = d # q_word s' \<and> word_end s' v"
proof -
  have p0: "peek buf i = Some c" using view_peek_0 [OF v] by simp
  obtain b1 where one: "poke buf (length acc) d = Some (b1 d)" "view (b1 d) (acc @ [d]) (Suc i) (s @ v) z" for d
    using view_poke [OF v, of 1] by (simp, metis)
  have e1: "word_end s v" using e by (rule word_end_tl)
  show ?thesis
  proof (cases "c = CHR ''=''")
    case False
    define d where "d = (if c = CHR ''_'' then SP else c)"
    have "q_turn buf i (length acc) = Some (b1 d, Suc i)"
      using False p0 one by (simp add: q_turn_def d_def)
    then show ?thesis
      using False one [of d] e1 by - (rule exI [of _ "b1 d"], rule exI [of _ s], rule exI [of _ d], simp add: d_def)
  next
    case True
    then have l: "1 \<le> length (s @ v)" using e by (cases s; cases v) (auto simp: word_end_def split: if_splits)
    then have p1: "peek buf (Suc i) = Some (char_at (s @ v) 0)"
      using view_peek [OF v, of 1] by simp
    have p2: "peek buf (Suc (Suc i)) = Some (char_at (s @ v) 1)"
      using view_peek [OF v, of 2] l by (simp add: numeral_2_eq_2)
    note q = qp_char_at_end [OF e [unfolded True]]
    show ?thesis
    proof (cases "qp_char (char_at s 0) (char_at s 1)")
      case None
      have "q_turn buf i (length acc) = Some (b1 c, Suc i)"
        using True p0 p1 p2 one None q by (simp add: q_turn_def)
      then show ?thesis
        using True one [of c] e1 None by - (rule exI [of _ "b1 c"], rule exI [of _ s], rule exI [of _ c], simp)
    next
      case (Some d)
      then have "char_at s 1 \<noteq> NUL" using qp_char_NUL(2) by (metis option.distinct(1))
      then have l2: "2 \<le> length s" by (cases s; cases "tl s") auto
      obtain b3 where three: "poke buf (length acc) d = Some b3" "view b3 (acc @ [d]) (i + 3) (drop 2 s @ v) z"
        using view_poke [OF v, of 3 d] l2 by auto
      have "q_turn buf i (length acc) = Some (b3, i + 3)"
        using True p0 p1 p2 three Some q by (simp add: q_turn_def)
      moreover have "i + 3 = i + (length (c # s) - length (drop 2 s))" using l2 by simp
      ultimately show ?thesis
        using True three Some word_end_drop [OF e1, of 2]
        by - (rule exI [of _ b3], rule exI [of _ "drop 2 s"], rule exI [of _ d], simp)
    qed
  qed
qed

lemma decode_q:
  assumes "view buf acc i (w @ v) z" and "word_end w v"
  shows "\<exists>buf'. decode_loop (CHR ''q'') buf i (length acc) (i + length w)
      = Some (buf', i + length w, length acc + length (q_word w))
    \<and> view buf' (acc @ q_word w) (i + length w) v z"
  using assms
proof (induction "length w" arbitrary: buf acc i w rule: less_induct)
  case less
  show ?case
  proof (cases w)
    case Nil
    with less.prems show ?thesis by (subst decode_loop.simps) simp
  next
    case (Cons c s)
    obtain buf1 s' d where t: "q_turn buf i (length acc) = Some (buf1, i + (length w - length s'))"
      "view buf1 (acc @ [d]) (i + (length w - length s')) (s' @ v) z"
      "length s' < length w" "q_word w = d # q_word s'" "word_end s' v"
      using q_turn_view [of buf acc i c s v z] less.prems Cons by blast
    have ix: "i + (length w - length s') + length s' = i + length w" using t(3) by simp
    obtain buf' where "decode_loop (CHR ''q'') buf1 (i + (length w - length s')) (length (acc @ [d])) (i + length w)
        = Some (buf', i + length w, length (acc @ [d]) + length (q_word s'))"
      "view buf' ((acc @ [d]) @ q_word s') (i + length w) v z"
      using less.hyps [OF t(3,2,5)] ix by metis
    then show ?thesis
      using t(1,4) Cons by (subst decode_loop.simps) simp
  qed
qed

lemma decode_plain:
  assumes "view buf acc i (w @ v) z" and enc: "enc \<noteq> CHR ''q''" "enc \<noteq> CHR ''b''"
  shows "\<exists>buf'. decode_loop enc buf i (length acc) (i + length w) = Some (buf', i + length w, length acc + length w)
    \<and> view buf' (acc @ w) (i + length w) v z"
  using assms(1)
proof (induction w arbitrary: buf acc i)
  case Nil
  then show ?case by (subst decode_loop.simps) simp
next
  case (Cons c w)
  have p: "peek buf i = Some c" using view_peek_0 [OF Cons.prems] by simp
  obtain b1 where one: "poke buf (length acc) c = Some b1" "view b1 (acc @ [c]) (Suc i) (w @ v) z"
    using view_poke [OF Cons.prems, of 1 c] by auto
  obtain buf' where "decode_loop enc b1 (Suc i) (length (acc @ [c])) (Suc i + length w)
      = Some (buf', Suc i + length w, length (acc @ [c]) + length w)" "view buf' ((acc @ [c]) @ w) (Suc i + length w) v z"
    using Cons.IH [OF one(2)] by blast
  then show ?case
    using p one enc by (subst decode_loop.simps) simp
qed

lemma decode_b:
  assumes v: "view buf acc i (w @ v) z"
  shows "\<exists>buf'. decode_loop (CHR ''b'') buf i (length acc) (i + length w)
      = Some (buf', i + length w, length acc + length (b64_word w))
    \<and> view buf' (acc @ b64_word w) (i + length w) v z"
proof (cases "w = []")
  case True
  have "b64_word [] = []" by (simp add: b64_word_def from64tobits_def)
  then show ?thesis using True v by (subst decode_loop.simps) simp
next
  case False
  define p where "p = i + length w"
  obtain y where y: "v @ NUL # z = char_at v 0 # y" by (cases v) auto
  have dv: "drop i buf = w @ char_at v 0 # y" using v y by (simp add: view_def)
  have dp: "drop p buf = v @ NUL # z" using view_drop [OF v, of "length w"] by (simp add: p_def)
  have l: "p < length buf" "length acc \<le> i" "take (length acc) buf = acc" using view_length [OF v] v by (auto simp: p_def view_def)
  define buf1 where "buf1 = buf[p := CR]"
  have d1: "drop i buf1 = w @ CR # y"
  proof -
    have "drop i buf1 = (drop i buf)[length w := CR]" by (simp add: buf1_def p_def drop_update_swap)
    also have "\<dots> = w @ CR # y" by (simp add: dv list_update_append)
    finally show ?thesis .
  qed
  obtain n buf2 where n: "from64_inplace buf1 (length acc) i 0 = Some (n, buf2)" "length buf2 = length buf1"
    "drop (i + length w) buf2 = CR # y"
    "(if n > 0 then length acc + nat n else length acc) = length acc + length (b64_word w)"
    "length acc + length (b64_word w) \<le> i + length w"
    "take (length acc + length (b64_word w)) buf2 = take (length acc) buf1 @ b64_word w"
    using inplace_word [OF d1 l(2)] by blast
  define buf3 where "buf3 = buf2[p := char_at v 0]"
  have pk: "peek buf p = Some (char_at v 0)"
    using drop_peek_0 [of p buf "char_at v 0" y] dp y by simp
  have run: "decode_loop (CHR ''b'') buf i (length acc) p = Some (buf3, p, length acc + length (b64_word w))"
    using pk l n(1,2,4) False
    by (subst decode_loop.simps) (auto simp: p_def [symmetric] buf1_def [symmetric] buf3_def poke_def, auto simp: p_def buf1_def)
  have "drop p buf3 = (drop p buf2)[0 := char_at v 0]" by (simp add: buf3_def drop_update_swap)
  also have "\<dots> = v @ NUL # z" using n(3) y by (simp add: p_def)
  finally have d3: "drop p buf3 = v @ NUL # z" .
  have "take (length acc + length (b64_word w)) buf3 = take (length acc + length (b64_word w)) buf2"
    using n(5) by (simp add: buf3_def p_def)
  also have "\<dots> = acc @ b64_word w" using n(6) l by (simp add: buf1_def p_def)
  finally have "view buf3 (acc @ b64_word w) p v z"
    using d3 n(5) v by (simp add: view_def p_def c_string_def)
  then show ?thesis using run by (auto simp: p_def)
qed

lemma decode_word:
  assumes "view buf acc i (w @ v) z" and "word_end w v"
  shows "\<exists>buf'. decode_loop enc buf i (length acc) (i + length w)
      = Some (buf', i + length w, length acc + length (dec_word enc w))
    \<and> view buf' (acc @ dec_word enc w) (i + length w) v z"
  using decode_q [OF assms] decode_b [OF assms(1)] decode_plain [OF assms(1), of enc]
  by (auto simp: dec_word_def)

section \<open>The state machine\<close>

text \<open>
  A header that does not end in a question mark or an equals sign, so that the code has no
  reason to look behind its terminator.
\<close>

definition header_end :: "string \<Rightarrow> bool" where
  "header_end r \<longleftrightarrow> r = [] \<or> last r \<noteq> CHR ''?'' \<and> last r \<noteq> CHR ''=''"

lemma header_end_drop: "header_end r \<Longrightarrow> header_end (drop k r)"
  by (auto simp: header_end_def last_drop not_le)

lemma strchr_Some_iff: "c \<noteq> NUL \<Longrightarrow> strchr r c = Some n \<Longrightarrow> n < length r \<and> r ! n = c"
  using strchr_split [of r c n] by simp

lemma turn_plain:
  assumes v: "view buf acc i r z"
  shows "case hdr_turn S_COPY_PLAIN enc r of (st', enc', t, r') \<Rightarrow>
    \<exists>buf' i'. copy_plain enc i (length acc) buf = Some (st', enc', i', length (acc @ t), buf') \<and> view buf' (acc @ t) i' r' z
      \<and> i' + length r' = i + length r"
proof (cases "find_sub r ''=?''")
  case None
  obtain buf' where "memmove buf (length acc) i (length r) = Some buf'" "view buf' (acc @ r) (i + length r) [] z"
    using view_move [OF v order_refl] by auto
  then show ?thesis
    using None by (simp add: hdr_turn_def copy_plain_def view_str [OF v] MIMEHDR_INIT_def Let_def)
next
  case (Some n)
  then have n: "n + 2 \<le> length r" by (auto dest: find_sub_Some)
  have "\<exists>buf'. (if n > 0 then do { buf1 \<leftarrow> memmove buf (length acc) i n; Some (buf1, length acc + n) }
      else Some (buf, length acc)) = Some (buf', length acc + n) \<and> view buf' (acc @ take n r) (i + n) (drop n r) z"
    using view_move [OF v, of n] v n by (cases "n = 0") auto
  then obtain buf' where b: "(if n > 0 then do { buf1 \<leftarrow> memmove buf (length acc) i n; Some (buf1, length acc + n) }
      else Some (buf, length acc)) = Some (buf', length acc + n)" "view buf' (acc @ take n r) (i + n) (drop n r) z"
    by blast
  have "view buf' (acc @ take n r) (i + n + 2) (drop (n + 2) r) z"
    using view_skip [OF b(2), of 2] n by (simp add: add.commute)
  then show ?thesis
    using Some b(1) n
    by (simp add: hdr_turn_def copy_plain_def view_str [OF v] MIMEHDR_INIT_def min_def del: if_splits)
qed

lemma turn_skip:
  assumes v: "view buf acc i r z" and e: "header_end r"
  shows "case hdr_turn S_SKIP_MIMEINIT enc r of (st', enc', t, r') \<Rightarrow>
    \<exists>buf' i'. skip_mimeinit enc i (length acc) buf = Some (st', enc', i', length (acc @ t), buf') \<and> view buf' (acc @ t) i' r' z
      \<and> i' + length r' = i + length r"
proof (cases "strchr r (CHR ''?'')")
  case None
  then show ?thesis using v by (auto simp: hdr_turn_def skip_mimeinit_def view_str [OF v])
next
  case (Some n)
  have n: "n < length r" "r ! n = CHR ''?''" using strchr_Some_iff [OF _ Some] by auto
  have "n \<noteq> length r - 1" using n e last_conv_nth [of r] by (cases "r = []") (auto simp: header_end_def)
  then have l: "n + 2 \<le> length r" using n by simp
  have p: "peek buf (i + n + 2) = Some (char_at r (n + 2))" "peek buf (i + n + 1) = Some (char_at r (n + 1))"
    using view_peek [OF v, of "n + 2"] view_peek [OF v, of "n + 1"] l by (simp_all add: add.assoc)
  show ?thesis
  proof (cases "char_at r (n + 2) = CHR ''?''")
    case True
    then have l3: "n + 3 \<le> length r" by (auto simp: char_at_def split: if_splits)
    then have "view buf acc (i + n + 3) (drop (n + 3) r) z" using view_skip [OF v, of "n + 3"] by (simp add: add.assoc)
    then show ?thesis using Some True p l3 by (simp add: hdr_turn_def skip_mimeinit_def view_str [OF v])
  next
    case False
    then show ?thesis using Some p v by (auto simp: hdr_turn_def skip_mimeinit_def view_str [OF v])
  qed
qed

lemma turn_mime:
  assumes v: "view buf acc i r z" and e: "header_end r"
  shows "case hdr_turn S_COPY_MIME enc r of (st', enc', t, r') \<Rightarrow>
    \<exists>buf' i'. copy_mime enc i (length acc) buf = Some (st', enc', i', length (acc @ t), buf') \<and> view buf' (acc @ t) i' r' z
      \<and> i' + length r' = i + length r"
proof -
  define p where "p = (case find_sub r ''?='' of Some i \<Rightarrow> i | None \<Rightarrow> length r)"
  define w where "w = take p r"
  define v' where "v' = drop p r"
  have r: "r = w @ v'" by (simp add: w_def v'_def)
  have pl: "p \<le> length r" by (auto simp: p_def split: option.split dest: find_sub_Some)
  then have lw: "length w = p" by (simp add: w_def)
  have hv: "v' = [] \<or> (2 \<le> length v' \<and> hd v' = CHR ''?'')"
  proof (cases "find_sub r ''?=''")
    case (Some n)
    then have "take 2 v' = ''?=''" "n + 2 \<le> length r" using find_sub_Some [OF Some] Some by (auto simp: v'_def p_def numeral_2_eq_2)
    moreover from this have "2 \<le> length v'" using Some by (simp add: v'_def p_def)
    ultimately show ?thesis by (cases v') auto
  qed (simp add: v'_def p_def)
  have we: "word_end w v'"
    using hv e r by (auto simp: word_end_def header_end_def)
  obtain buf' where d: "decode_loop enc buf i (length acc) (i + p) = Some (buf', i + p, length acc + length (dec_word enc w))"
    "view buf' (acc @ dec_word enc w) (i + p) v' z"
    using decode_word [OF v [unfolded r] we, of enc] by (auto simp: lw)
  have c: "peek buf' (i + p) = Some (char_at v' 0)" using view_peek_0 [OF d(2)] .
  define k :: nat where "k = (if char_at v' 0 \<noteq> NUL then 2 else 0)"
  have k: "k \<le> length v'" "drop k v' = drop 2 v'" using hv by (cases v'; auto simp: k_def)+
  have lr: "length r = p + length v'" "k + (length v' - 2) = length v'" using arg_cong [OF k(2), of length] k(1) lw by (simp_all add: r)
  have v2: "view buf' (acc @ dec_word enc w) (i + p + k) (drop 2 v') z"
    using view_skip [OF d(2) k(1)] k(2) by simp
  have r2: "drop (p + 2) r = drop 2 v'" by (simp add: v'_def add.commute)
  have run: "copy_mime enc i (length acc) buf =
     (case find_sub (drop 2 v') ''=?'' of None \<Rightarrow> Some (S_COPY_PLAIN, enc, i + p + k, length (acc @ dec_word enc w), buf')
      | Some n \<Rightarrow> if list_all isspace (take n (drop 2 v'))
          then Some (S_SKIP_MIMEINIT, enc, i + p + k + n + 2, length (acc @ dec_word enc w), buf')
          else Some (S_COPY_PLAIN, enc, i + p + k, length (acc @ dec_word enc w), buf'))"
  proof -
    have e1: "(if char_at v' 0 \<noteq> NUL then i + p + 2 else i + p) = i + p + k" by (simp add: k_def)
    have e2: "i + (case find_sub (str_at buf i) MIMEHDR_END of Some i \<Rightarrow> i | None \<Rightarrow> length (str_at buf i)) = i + p"
      unfolding view_str [OF v] MIMEHDR_END_def p_def by (rule refl)
    show ?thesis
      unfolding copy_mime_def Let_def e2 d(1) bind.bind_lunit prod.case c e1 view_str [OF v2] MIMEHDR_INIT_def length_append
      by (rule refl)
  qed
  have turn: "hdr_turn S_COPY_MIME enc r =
      (case find_sub (drop 2 v') ''=?'' of None \<Rightarrow> (S_COPY_PLAIN, enc, dec_word enc w, drop 2 v')
       | Some n \<Rightarrow> if list_all isspace (take n (drop 2 v'))
           then (S_SKIP_MIMEINIT, enc, dec_word enc w, drop (n + 2) (drop 2 v'))
           else (S_COPY_PLAIN, enc, dec_word enc w, drop 2 v'))"
    unfolding hdr_turn_def p_def [symmetric] Let_def mime_state.case r2 w_def by (rule refl)
  show ?thesis
  proof (cases "find_sub (drop 2 v') ''=?''")
    case None
    then show ?thesis using v2 lr unfolding run turn by auto
  next
    case (Some n)
    then have n: "n + 2 \<le> length (drop 2 v')" using find_sub_Some by fastforce
    then have "view buf' (acc @ dec_word enc w) (i + p + k + n + 2) (drop (n + 2) (drop 2 v')) z"
      using view_skip [OF v2, of "n + 2"] by (simp add: add.assoc)
    then show ?thesis using v2 lr n unfolding run turn Some by auto
  qed
qed

lemma turn_suffix: "hdr_turn st enc r = (st', enc', t, r') \<Longrightarrow> \<exists>k. r' = drop k r"
  by (cases st) (auto simp: hdr_turn_def Let_def split: option.splits if_splits intro: exI [of _ 0])

lemma um_turn_view:
  assumes "view buf acc i r z" and "header_end r"
  shows "case hdr_turn st enc r of (st', enc', t, r') \<Rightarrow>
    \<exists>buf' i'. um_turn (st, enc, i, length acc, buf) = Some (st', enc', i', length (acc @ t), buf') \<and> view buf' (acc @ t) i' r' z
      \<and> i' + length r' = i + length r"
  using turn_plain [OF assms(1), of enc] turn_skip [OF assms, of enc] turn_mime [OF assms, of enc]
  by (cases st) (simp_all add: um_turn_def)

lemma um_loop_view:
  "view buf acc i r z \<Longrightarrow> header_end r \<Longrightarrow> \<exists>buf'. um_loop (st, enc, i, length acc, buf) = Some buf'
     \<and> length buf' = length buf
     \<and> take (length acc + length (dec_hdr st enc r) + 1) buf' = acc @ dec_hdr st enc r @ [NUL]"
proof (induction "hdr_rank st r" arbitrary: st enc buf acc i r rule: less_induct)
  case less
  note v = less.prems(1)
  show ?case
  proof (cases "r = []")
    case True
    obtain buf' where "poke buf (length acc) NUL = Some buf'" "length buf' = length buf"
        "take (Suc (length acc)) buf' = acc @ [NUL]"
      using view_final v True by blast
    then show ?thesis
      using view_peek_0 [OF v] True by (simp add: um_loop.simps [of "(st, enc, i, length acc, buf)"] dec_hdr.simps)
  next
    case False
    then have c: "char_at r 0 \<noteq> NUL" using v by (cases r) (auto simp: view_def c_string_def)
    obtain st' enc' t r' where t: "hdr_turn st enc r = (st', enc', t, r')" by (cases "hdr_turn st enc r") auto
    then obtain buf1 i' where b: "um_turn (st, enc, i, length acc, buf) = Some (st', enc', i', length (acc @ t), buf1)"
      "view buf1 (acc @ t) i' r' z" "i' + length r' = i + length r"
      using um_turn_view [OF less.prems, of st enc] by auto
    have he: "header_end r'" using turn_suffix [OF t] header_end_drop less.prems(2) by metis
    have dec: "dec_hdr st enc r = t @ dec_hdr st' enc' r'"
      using False t by (subst dec_hdr.simps) simp
    have len: "length buf1 = length buf" using view_length [OF v] view_length [OF b(2)] b(3) by simp
    obtain buf2 where "um_loop (st', enc', i', length (acc @ t), buf1) = Some buf2" "length buf2 = length buf1"
      "take (length (acc @ t) + length (dec_hdr st' enc' r') + 1) buf2 = (acc @ t) @ dec_hdr st' enc' r' @ [NUL]"
      using less.hyps [OF hdr_turn_rank [OF t False] b(2) he] by blast
    then show ?thesis
      using view_peek_0 [OF v] c b(1) len dec
      by (simp add: um_loop.simps [of "(st, enc, i, length acc, buf)"] add.assoc)
  qed
qed

lemma take_find_sub_None: "find_sub r ''=?'' = None \<Longrightarrow> dec_hdr S_COPY_PLAIN enc r = r"
  by (subst dec_hdr.simps, subst dec_hdr.simps) (simp add: hdr_turn_def)

lemma UnMimeHeader_view:
  assumes "c_string s" and "header_end s"
  shows "\<exists>buf'. UnMimeHeader (s @ NUL # z) = Some buf' \<and> length buf' = length s + 1 + length z
    \<and> take (length (decoded_header s) + 1) buf' = decoded_header s @ [NUL]"
proof -
  have v: "view (s @ NUL # z) [] 0 s z" using assms(1) by (simp add: view_def)
  show ?thesis
  proof (cases "find_sub s ''=?''")
    case None
    then show ?thesis
      using str_at_0 [OF assms(1), of z] take_find_sub_None [OF None]
      by (simp add: UnMimeHeader_def MIMEHDR_INIT_def decoded_header_def)
  next
    case (Some n)
    obtain buf' where "um_loop (S_COPY_PLAIN, NUL, 0, 0, s @ NUL # z) = Some buf'"
      "length buf' = length (s @ NUL # z)"
      "take (length (dec_hdr S_COPY_PLAIN NUL s) + 1) buf' = dec_hdr S_COPY_PLAIN NUL s @ [NUL]"
      using um_loop_view [OF v assms(2), of S_COPY_PLAIN NUL] by auto
    then show ?thesis
      using str_at_0 [OF assms(1), of z] Some by (simp add: UnMimeHeader_def MIMEHDR_INIT_def decoded_header_def)
  qed
qed



declare um_loop.simps [code]

text \<open>
  The condition on the end of the header is needed. A header that ends in an encoded-word
  introducer cut off behind its charset makes the decoder read the byte behind the terminator,
  and so does one that is cut off inside a quoted-printable word at an equals sign.
\<close>

theorem UnMimeHeader_reads_past_end:
  "UnMimeHeader (''=?x?'' @ [NUL]) = None \<and> UnMimeHeader (''=?x?q?a='' @ [NUL]) = None"
  by code_simp

end
