(* ===== verification/MimeRoundtrip.thy ===== *)
theory MimeRoundtrip
  imports UnmimeSpec
begin

section \<open>Encoding a header and decoding it again\<close>

text \<open>
  What rfc2047e.c encodes, unmime.c decodes: the two components agree on the format of encoded
  words, on the line breaks between them and on the characters that need no encoding.
\<close>

subsection \<open>Characters\<close>

lemma unhex_hexdigit:
  assumes "n < 16"
  shows "unhex (hexdigit n) = n" "hexdigit n \<noteq> CHR ''?''" "hexdigit n \<noteq> NUL"
proof -
  have c: "code (CHR ''0'') = 48" "code (CHR ''9'') = 57" "code (CHR ''A'') = 65" "code (CHR ''F'') = 70"
    "code (CHR ''?'') = 63" "code NUL = 0"
    by (simp_all add: code_def)
  have h: "code (hexdigit n) = (if n < 10 then 48 + n else 55 + n)"
    using assms by (simp add: hexdigit_def code_chr)
  show "unhex (hexdigit n) = n" using assms by (simp add: unhex_def c h)
  show "hexdigit n \<noteq> CHR ''?''" using c(5) h assms by (auto split: if_splits)
  show "hexdigit n \<noteq> NUL" using c(6) h by (auto split: if_splits)
qed

lemma qp_char_hex2: "qp_char (hex2 u ! 0) (hex2 u ! 1) = Some u \<and> length (hex2 u) = 2 \<and> CHR ''?'' \<notin> set (hex2 u)
   \<and> NUL \<notin> set (hex2 u)"
proof -
  have d: "code u div 16 < 16" "code u mod 16 < 16"
    using code_less [of u] by (simp_all add: less_mult_imp_div_less)
  have "chr (16 * (code u div 16) + code u mod 16) = u" by simp
  then show ?thesis
    using unhex_hexdigit [OF d(1)] unhex_hexdigit [OF d(2)] d by (auto simp: hex2_def qp_char_def)
qed

lemma encchars_special: "CHR ''='' \<notin> set encchars" "CHR ''_'' \<notin> set encchars" "CHR ''?'' \<notin> set encchars" "NUL \<notin> set encchars"
  by (simp_all add: encchars_def)

lemma enc_char_cases:
  assumes "u \<noteq> NUL"
  obtains "u = SP" "enc_char u = ''_''" | "u \<in> set encchars" "enc_char u = [u]"
    | a b where "enc_char u = [CHR ''='', a, b]" "hex2 u = [a, b]"
proof -
  obtain a b where "hex2 u = [a, b]"
    using qp_char_hex2 [of u] by (cases "hex2 u"; cases "tl (hex2 u)"; cases "tl (tl (hex2 u))") auto
  then show thesis
    using that assms by (cases "u = SP"; cases "u \<in> set encchars") (auto simp: enc_char_def strchr_def)
qed

lemma q_word_enc_char:
  assumes "u \<noteq> NUL"
  shows "q_word (enc_char u @ s) = u # q_word s"
  using assms
proof (cases u rule: enc_char_cases)
  case 2
  have "u \<noteq> CHR ''=''" "u \<noteq> CHR ''_''" using 2(1) encchars_special by metis+
  then show ?thesis by (simp add: 2(2))
next
  case (3 a b)
  then have "qp_char a b = Some u" using qp_char_hex2 [of u] by simp
  then show ?thesis by (simp add: 3(1))
qed simp

lemma enc_char_no_question:
  assumes "u \<noteq> NUL"
  shows "CHR ''?'' \<notin> set (enc_char u)" "NUL \<notin> set (enc_char u)"
proof -
  have "CHR ''?'' \<notin> set (enc_char u) \<and> NUL \<notin> set (enc_char u)"
    using assms
  proof (cases u rule: enc_char_cases)
    case 2
    have "u \<noteq> CHR ''?''" "u \<noteq> NUL" using 2(1) encchars_special by metis+
    then show ?thesis by (simp add: 2(2))
  next
    case (3 a b)
    then have "CHR ''?'' \<notin> set [a, b]" "NUL \<notin> set [a, b]" using qp_char_hex2 [of u] by simp_all
    then show ?thesis by (simp add: 3(1))
  qed simp
  then show "CHR ''?'' \<notin> set (enc_char u)" "NUL \<notin> set (enc_char u)" by simp_all
qed

lemma q_word_enc: "c_string v \<Longrightarrow> q_word (concat (map enc_char v)) = v"
  by (induction v) (simp_all add: q_word_enc_char c_string_Cons)

lemma enc_no_question: "c_string v \<Longrightarrow> CHR ''?'' \<notin> set (concat (map enc_char v))"
proof (induction v)
  case (Cons u v)
  then have "u \<noteq> NUL" "c_string v" by (simp_all add: c_string_Cons)
  with Cons.IH show ?case by (simp add: enc_char_no_question)
qed simp

subsection \<open>The encoder's output\<close>

fun enc_tail :: "string \<Rightarrow> string \<Rightarrow> nat \<Rightarrow> string" where
  "enc_tail charset [] col = []"
| "enc_tail charset (u # us) col =
     (if col \<ge> 69
      then ''?='' @ [CR, LF] @ line_start charset @ enc_char u
        @ enc_tail charset us (length (line_start charset) + length (enc_char u))
      else enc_char u @ enc_tail charset us (col + length (enc_char u)))"

lemma enc_word_tail: "fst (enc_word charset us (out, col)) = out @ enc_tail charset us col"
  by (induction us arbitrary: out col) (simp_all add: enc_turn_def)

lemma enc_word_append: "enc_word charset (us @ vs) acc = enc_word charset vs (enc_word charset us acc)"
  by (induction us arbitrary: acc) simp_all

lemma enc_words_concat: "enc_words charset words acc = enc_word charset (concat words) acc"
  by (induction words arbitrary: acc) (simp_all add: enc_word_append)

lemma encode_words_tail:
  "encode_words words charset = Some out \<Longrightarrow>
    out = line_start charset @ enc_tail charset (concat words) (length (line_start charset)) @ ''?=''"
  using enc_word_tail [of charset "concat words" "line_start charset" "length (line_start charset)"]
  by (cases "enc_word charset (concat words) (line_start charset, length (line_start charset))")
    (simp add: encode_words_def enc_words_concat fit_buf_def Let_def split: if_splits)

lemma c_string_enc_tail: "c_string charset \<Longrightarrow> c_string us \<Longrightarrow> c_string (enc_tail charset us col)"
  by (induction us arbitrary: col) (auto simp: c_string_def line_start_def enc_char_no_question)

subsection \<open>Decoding it\<close>

lemma find_sub_first: "CHR ''?'' \<notin> set p \<Longrightarrow> find_sub (p @ CHR ''?'' # CHR ''='' # s) ''?='' = Some (length p)"
  by (induction p) auto

lemma dec_line_start:
  assumes "CHR ''?'' \<notin> set charset"
  shows "dec_hdr S_SKIP_MIMEINIT enc (charset @ ''?Q?'' @ r) = dec_hdr S_COPY_MIME (CHR ''q'') r"
proof -
  have "strchr (charset @ ''?Q?'' @ r) (CHR ''?'') = Some (length charset)"
    using assms by (simp add: strchr_def takeWhile_append)
  moreover have "tolower (CHR ''Q'') = CHR ''q''" by code_simp
  moreover have "char_at (charset @ ''?Q?'' @ r) (length charset + 2) = CHR ''?''"
    "char_at (charset @ ''?Q?'' @ r) (length charset + 1) = CHR ''Q''"
    by (simp_all add: char_at_def nth_append)
  ultimately show ?thesis
    by (subst dec_hdr.simps) (simp add: hdr_turn_def)
qed

lemma dec_tail:
  assumes "CHR ''?'' \<notin> set charset" and "find_sub t ''=?'' = None"
  shows "c_string v \<Longrightarrow> c_string us \<Longrightarrow>
    dec_hdr S_COPY_MIME (CHR ''q'') (concat (map enc_char v) @ enc_tail charset us col @ ''?='' @ t) = v @ us @ t"
proof (induction us arbitrary: v col)
  case Nil
  then show ?case
    using find_sub_first [OF enc_no_question] take_find_sub_None [OF assms(2)] assms(2)
    by (subst dec_hdr.simps) (simp add: hdr_turn_def dec_word_def q_word_enc)
next
  case (Cons u us)
  show ?case
  proof (cases "col \<ge> 69")
    case False
    have "c_string (v @ [u])" using Cons.prems by (simp add: c_string_def)
    from Cons.IH [OF this, of "col + length (enc_char u)"] Cons.prems False show ?thesis
      by (simp add: c_string_def)
  next
    case True
    define r where "r = enc_char u @ enc_tail charset us (length (line_start charset) + length (enc_char u)) @ ''?='' @ t"
    have "c_string [u]" "c_string us" using Cons.prems by (simp_all add: c_string_def)
    from Cons.IH [OF this, of "length (line_start charset) + length (enc_char u)"]
    have r: "dec_hdr S_COPY_MIME (CHR ''q'') r = u # us @ t" by (simp add: r_def)
    define w where "w = concat (map enc_char v)"
    have "dec_hdr S_COPY_MIME (CHR ''q'') (w @ CHR ''?'' # CHR ''='' # CR # LF # CHR ''='' # CHR ''?'' # charset @ ''?Q?'' @ r)
        = v @ dec_hdr S_SKIP_MIMEINIT (CHR ''q'') (charset @ ''?Q?'' @ r)"
      using find_sub_first [OF enc_no_question] Cons.prems
      by (subst dec_hdr.simps) (simp add: hdr_turn_def dec_word_def q_word_enc w_def isspace_def)
    also have "\<dots> = v @ u # us @ t" by (simp only: dec_line_start [OF assms(1)] r)
    finally show ?thesis
      using True by (simp add: w_def r_def line_start_def)
  qed
qed

text \<open>
  C29. The round trip across the two components: what \<open>encode_words\<close> makes of a run of words,
  \<open>UnMimeHeader\<close> turns back into the words. The header is the encoder's output and its line end;
  the charset name holds no question mark and no text holds a NUL.
\<close>

theorem encoded_words_decode:
  assumes "encode_words words charset = Some out" and "c_string (concat words)" and "c_string charset"
    and "CHR ''?'' \<notin> set charset"
  shows "\<exists>buf'. UnMimeHeader (out @ [CR, LF, NUL]) = Some buf'
    \<and> take (length (concat words) + 3) buf' = concat words @ [CR, LF, NUL]"
proof -
  note out = encode_words_tail [OF assms(1)]
  let ?r = "enc_tail charset (concat words) (length (line_start charset)) @ ''?='' @ [CR, LF]"
  have "decoded_header (out @ [CR, LF]) = dec_hdr S_SKIP_MIMEINIT NUL (charset @ ''?Q?'' @ ?r)"
    unfolding decoded_header_def by (subst dec_hdr.simps) (simp add: out line_start_def hdr_turn_def)
  also have "\<dots> = dec_hdr S_COPY_MIME (CHR ''q'') ?r" by (rule dec_line_start [OF assms(4)])
  also have "\<dots> = concat words @ [CR, LF]"
    using dec_tail [OF assms(4), of "[CR, LF]" "[]" "concat words"] assms(2) by (simp add: c_string_def)
  finally have d: "decoded_header (out @ [CR, LF]) = concat words @ [CR, LF]" .
  have "c_string (out @ [CR, LF])"
    using c_string_enc_tail [OF assms(3,2), of "length (line_start charset)"] assms(3)
    by (auto simp: out c_string_def line_start_def)
  moreover have "header_end (out @ [CR, LF])" by (simp add: header_end_def)
  ultimately show ?thesis
    using UnMimeHeader_view [of "out @ [CR, LF]" "[]"] unfolding d by (auto simp: eval_nat_numeral)
qed

theorem encoded_words_decode_witness:
  "\<exists>buf'. UnMimeHeader (''=?x?Q?a_=E4?='' @ [CR, LF, NUL]) = Some buf'
    \<and> take 6 buf' = ''a '' @ [CHR 0xE4, CR, LF, NUL]"
proof -
  have "encode_words [''a'', '' '', [CHR 0xE4]] ''x'' = Some ''=?x?Q?a_=E4?=''" by code_simp
  from encoded_words_decode [OF this] show ?thesis by (simp add: c_string_def numeral_eq_Suc)
qed

end
