(* ===== verification/Smtp.thy ===== *)
theory Smtp
  imports Socket Cram
begin

section \<open>Speaking SMTP (smtp.c)\<close>

text \<open>
  The state is the connection and the array \<open>smtp_response\<close>, a buffer of 8192 cells. Timeouts,
  the time stamp \<open>last_smtp_ok\<close> and the reports are left out. An access outside one of the
  buffers of \<open>SMTP_auth\<close> gives \<open>None\<close>.
\<close>

definition MSGBUFSIZE :: nat where "MSGBUFSIZE = 8192"

definition SM_OK :: int where "SM_OK = 0"
definition SM_ERROR :: int where "SM_ERROR = 128"
definition SM_UNRECOVERABLE :: int where "SM_UNRECOVERABLE = 129"

definition ESMTP_8BITMIME :: nat where "ESMTP_8BITMIME = 0x01"
definition ESMTP_SIZE :: nat where "ESMTP_SIZE = 0x02"
definition ESMTP_ETRN :: nat where "ESMTP_ETRN = 0x04"
definition ESMTP_ATRN :: nat where "ESMTP_ATRN = 0x08"
definition ESMTP_AUTH :: nat where "ESMTP_AUTH = 0x10"

definition extensions :: "(string \<times> nat) list" where
  "extensions = [(''8BITMIME'', ESMTP_8BITMIME), (''SIZE'', ESMTP_SIZE), (''ETRN'', ESMTP_ETRN),
     (''AUTH '', ESMTP_AUTH), (''ATRN'', ESMTP_ATRN)]"

record smtp =
  conn :: sock
  response_buf :: string

definition smtp_response :: "smtp \<Rightarrow> string" where
  "smtp_response st = cstr_of (response_buf st)"

definition CRLF :: string where
  "CRLF = [CR, LF]"

text \<open>\<open>SockPrintf\<close>, and \<open>SockRead\<close> into \<open>smtp_response\<close>: a failed read stores no terminator.\<close>

definition say :: "smtp \<Rightarrow> string \<Rightarrow> smtp" where
  "say st t = st\<lparr>conn := snd (SockPrintf (conn st) t)\<rparr>"

definition hear :: "smtp \<Rightarrow> int \<times> smtp" where
  "hear st =
     (let (r, b, s') = SockRead (conn st) (MSGBUFSIZE - 1) in
      (r, st\<lparr>conn := s', response_buf := overwrite (response_buf st) 0 (if r = -1 then b else b @ [NUL])\<rparr>))"

text \<open>\<open>strcpy\<close>, and \<open>strlcat\<close> with the size of the buffer.\<close>

definition set_response :: "smtp \<Rightarrow> string \<Rightarrow> smtp" where
  "set_response st t = st\<lparr>response_buf := overwrite (response_buf st) 0 (t @ [NUL])\<rparr>"

definition add_response :: "smtp \<Rightarrow> string \<Rightarrow> smtp" where
  "add_response st t = set_response st (take (MSGBUFSIZE - 1) (smtp_response st @ t))"

definition strip_eol :: "string \<Rightarrow> string" where
  "strip_eol s =
     (let s1 = (if s \<noteq> [] \<and> last s = LF then butlast s else s) in
      if s1 \<noteq> [] \<and> last s1 = CR then butlast s1 else s1)"

subsection \<open>Replies\<close>

function SMTP_ok_loop :: "smtp \<Rightarrow> int \<times> smtp" where
  "SMTP_ok_loop st =
     (case SockRead (conn st) (MSGBUFSIZE - 1) of
        (r, b, s') \<Rightarrow>
          let st1 = st\<lparr>conn := s'\<rparr> in
          if r = -1 then (SM_UNRECOVERABLE, st1)
          else
            let reply = map (\<lambda>c. if iscntrl c then CHR ''?'' else c) (strip_eol (cstr_of b)) in
            if length reply < 3 \<or> strchr '' -'' (char_at reply 3) = None then (SM_UNRECOVERABLE, st1)
            else
              let st2 = add_response st1 reply in
              if strchr ''123'' (char_at reply 0) \<noteq> None \<and> isdigit (char_at reply 1)
                \<and> isdigit (char_at reply 2) \<and> strchr '' '' (char_at reply 3) \<noteq> None
              then (SM_OK, st2)
              else if char_at reply 3 \<noteq> CHR ''-'' then (SM_ERROR, st2)
              else SMTP_ok_loop (add_response st2 CRLF))"
  by pat_completeness auto
termination
  by (relation "measure (\<lambda>st. length (inp (conn st)))")
    (auto simp: add_response_def set_response_def dest: SockRead_consumes [OF sym])

declare SMTP_ok_loop.simps [simp del]

definition SMTP_ok :: "smtp \<Rightarrow> int \<times> smtp" where
  "SMTP_ok st = SMTP_ok_loop (set_response st [])"

subsection \<open>Authentication\<close>

definition SMTP_auth_error :: "smtp \<Rightarrow> smtp" where
  "SMTP_auth_error st = snd (hear (say st (''*'' @ CRLF)))"

text \<open>\<open>from64tobits\<close> into \<open>b64buf\<close>, all of whose cells are zero: \<open>None\<close> for a result of at most 0.\<close>

definition challenge_of :: "string \<Rightarrow> byte list option" where
  "challenge_of p = (case from64tobits p 511 of None \<Rightarrow> None | Some bs \<Rightarrow> if bs = [] then None else Some bs)"

text \<open>\<open>to64frombits\<close> into \<open>b64buf\<close>.\<close>

definition encode_b64buf :: "string \<Rightarrow> string option" where
  "encode_b64buf t = (let e = to64frombits (bytes_of t) in if length e < 512 then Some e else None)"

text \<open>The text behind the first space of \<open>tmp\<close>; without one the code reads from an invalid address.\<close>

definition behind_space :: "string \<Rightarrow> string option" where
  "behind_space tmp = (case strchr tmp SP of None \<Rightarrow> None | Some i \<Rightarrow> Some (drop (i + 1) tmp))"

definition auth_cram :: "md5ctx \<Rightarrow> string \<Rightarrow> string \<Rightarrow> smtp \<Rightarrow> smtp option" where
  "auth_cram ctx username password st =
     (let st1 = snd (hear (say st (''AUTH CRAM-MD5'' @ CRLF)));
          tmp = take 511 (smtp_response st1) in
      if \<not> has_prefix tmp ''334'' then Some (SMTP_auth_error st1)
      else do {
        p \<leftarrow> behind_space tmp;
        (case challenge_of p of
           None \<Rightarrow> Some (SMTP_auth_error st1)
         | Some bs \<Rightarrow> do {
             let digest = hmac_md5 ctx (bytes_of password) (bytes_of (cstr_of (string_of bs))) (replicate 16 0);
             e \<leftarrow> encode_b64buf (take 511 (username @ [SP] @ concat (map hex2_lower digest)));
             Some (snd (SMTP_ok (say st1 (e @ CRLF))))
           })
      })"

definition auth_plain :: "string \<Rightarrow> string \<Rightarrow> smtp \<Rightarrow> smtp option" where
  "auth_plain username password st = do {
     let tmp = take 511 (''^'' @ username @ ''^'' @ password);
     e \<leftarrow> encode_b64buf (map (\<lambda>c. if c = CHR ''^'' then NUL else c) tmp);
     Some (snd (SMTP_ok (say st (''AUTH PLAIN '' @ e @ CRLF))))
   }"

definition auth_login :: "string \<Rightarrow> string \<Rightarrow> smtp \<Rightarrow> smtp option" where
  "auth_login username password st =
     (let st1 = snd (hear (say st (''AUTH LOGIN'' @ CRLF)));
          tmp = take 511 (smtp_response st1) in
      if \<not> has_prefix tmp ''334'' then Some (SMTP_auth_error st1)
      else do {
        p \<leftarrow> behind_space tmp;
        (case challenge_of p of
           None \<Rightarrow> Some (SMTP_auth_error st1)
         | Some _ \<Rightarrow> do {
             e \<leftarrow> encode_b64buf username;
             let st2 = snd (hear (say st1 (e @ CRLF)));
             (case behind_space (take 511 (smtp_response st2)) of
                None \<Rightarrow> Some (SMTP_auth_error st2)
              | Some p2 \<Rightarrow>
                  (case challenge_of p2 of
                     None \<Rightarrow> Some (SMTP_auth_error st2)
                   | Some _ \<Rightarrow> do {
                       e2 \<leftarrow> encode_b64buf password;
                       Some (snd (SMTP_ok (say st2 (e2 @ CRLF))))
                     }))
           })
      })"

definition SMTP_auth ::
  "md5ctx \<Rightarrow> string option \<Rightarrow> string option \<Rightarrow> string \<Rightarrow> smtp \<Rightarrow> smtp option" where
  "SMTP_auth ctx username password buf st =
     (case (username, password) of
        (Some u, Some p) \<Rightarrow>
          if find_sub buf ''CRAM-MD5'' \<noteq> None then auth_cram ctx u p st
          else if find_sub buf ''PLAIN'' \<noteq> None then auth_plain u p st
          else if find_sub buf ''LOGIN'' \<noteq> None then auth_login u p st
          else Some st
      | _ \<Rightarrow> Some st)"

subsection \<open>The commands\<close>

definition SMTP_helo :: "string \<Rightarrow> smtp \<Rightarrow> int \<times> smtp" where
  "SMTP_helo host st = SMTP_ok (say st (''HELO '' @ host @ CRLF))"

text \<open>
  The loop of \<open>SMTP_ehlo\<close>: the option bits and \<open>auth_response\<close>, which is assigned before it is
  used.
\<close>

definition match_extensions :: "string \<Rightarrow> nat \<times> string \<Rightarrow> nat \<times> string" where
  "match_extensions line = fold (\<lambda>(name, val) (opt, auth_response).
     if has_iprefix (drop 4 line) name
     then (opt OR val, if has_prefix name ''AUTH '' then take 510 line else auth_response)
     else (opt, auth_response)) extensions"

function ehlo_loop ::
  "md5ctx \<Rightarrow> string option \<Rightarrow> string option \<Rightarrow> nat \<Rightarrow> string \<Rightarrow> smtp \<Rightarrow> (int \<times> nat \<times> smtp) option" where
  "ehlo_loop ctx name password opt auth_response st =
     (case hear st of
        (r, st1) \<Rightarrow>
          if r = -1 then Some (SM_UNRECOVERABLE, opt, st1)
          else
            let line = strip_eol (smtp_response st1); st2 = set_response st1 line in
            if length line < 4 then Some (SM_ERROR, opt, st2)
            else
              (case match_extensions line (opt, auth_response) of
                 (opt1, auth1) \<Rightarrow>
                   if char_at line 0 \<in> set ''123'' \<and> char_at line 3 = SP then
                     (if opt1 AND ESMTP_AUTH \<noteq> 0 then
                        (case SMTP_auth ctx name password auth1 st2 of
                           None \<Rightarrow> None | Some st3 \<Rightarrow> Some (SM_OK, opt1, st3))
                      else Some (SM_OK, opt1, st2))
                   else if char_at line 3 \<noteq> CHR ''-'' then Some (SM_ERROR, opt1, st2)
                   else ehlo_loop ctx name password opt1 auth1 st2))"
  by pat_completeness auto
termination
  by (relation "measure (\<lambda>(ctx, name, password, opt, auth_response, st). length (inp (conn st)))")
    (auto simp: hear_def set_response_def Let_def dest: SockRead_consumes split: prod.splits)

declare ehlo_loop.simps [simp del]

definition SMTP_ehlo ::
  "md5ctx \<Rightarrow> char \<Rightarrow> string \<Rightarrow> string option \<Rightarrow> string option \<Rightarrow> smtp \<Rightarrow> (int \<times> nat \<times> smtp) option" where
  "SMTP_ehlo ctx smtp_mode host name password st =
     ehlo_loop ctx name password 0 []
       (say st ([if smtp_mode = CHR ''S'' then CHR ''E'' else smtp_mode] @ ''HLO '' @ host @ CRLF))"

definition SMTP_from :: "string \<Rightarrow> string option \<Rightarrow> smtp \<Rightarrow> int \<times> smtp" where
  "SMTP_from from opts st =
     (let buf = take (MSGBUFSIZE - 1)
            (if char_at from 0 = CHR ''<'' then ''MAIL FROM:'' @ from else ''MAIL FROM:<'' @ from @ ''>'');
          buf1 = (case opts of None \<Rightarrow> buf | Some x \<Rightarrow> take (MSGBUFSIZE - 1) (buf @ x)) in
      SMTP_ok (say st (buf1 @ CRLF)))"

definition SMTP_rcpt :: "string \<Rightarrow> smtp \<Rightarrow> int \<times> smtp" where
  "SMTP_rcpt to st = SMTP_ok (say st (''RCPT TO:<'' @ to @ ''>'' @ CRLF))"

definition SMTP_data :: "smtp \<Rightarrow> int \<times> smtp" where
  "SMTP_data st = SMTP_ok (say st (''DATA'' @ CRLF))"

definition SMTP_rset :: "smtp \<Rightarrow> int \<times> smtp" where
  "SMTP_rset st = SMTP_ok (say st (''RSET'' @ CRLF))"

definition SMTP_quit :: "smtp \<Rightarrow> int \<times> smtp" where
  "SMTP_quit st = SMTP_ok (say st (''QUIT'' @ CRLF))"

definition SMTP_eom :: "char \<Rightarrow> smtp \<Rightarrow> int \<times> smtp" where
  "SMTP_eom smtp_mode st =
     (let st1 = say st (''.'' @ CRLF) in if smtp_mode = CHR ''S'' then SMTP_ok st1 else (SM_OK, st1))"

section \<open>Replies\<close>

text \<open>A line of text: no line feed, no NUL and no control character in it, and it fits the buffer.\<close>

definition text_line :: "string \<Rightarrow> bool" where
  "text_line l \<longleftrightarrow> list_all (\<lambda>c. \<not> iscntrl c) l \<and> length l \<le> 8000"

definition code_line :: "string \<Rightarrow> bool" where
  "code_line l \<longleftrightarrow> text_line l \<and> 3 \<le> length l \<and> isdigit (l ! 0) \<and> isdigit (l ! 1) \<and> isdigit (l ! 2)"

fun join_lines :: "string list \<Rightarrow> string" where
  "join_lines [] = []"
| "join_lines [l] = l"
| "join_lines (l # ls) = l @ CRLF @ join_lines ls"

lemma iscntrl_eol: "iscntrl LF" "iscntrl CR" "iscntrl NUL"
  by (simp_all add: iscntrl_def code_def)

lemma text_line_no_eol: "text_line l \<Longrightarrow> LF \<notin> set l \<and> CR \<notin> set l \<and> NUL \<notin> set l"
  using iscntrl_eol by (auto simp: text_line_def list_all_iff)

lemma strip_eol_line: "text_line l \<Longrightarrow> strip_eol (l @ CRLF) = l"
  by (simp add: strip_eol_def CRLF_def butlast_append)

lemma line_of_first:
  assumes "LF \<notin> set l" "length l + 2 \<le> n"
  shows "line_of n (l @ CRLF @ rest) = Some (l @ CRLF)"
proof -
  have "take n (l @ CRLF @ rest) = (l @ [CR]) @ LF # take (n - (length l + 2)) rest"
    using assms(2) by (simp add: CRLF_def take_Cons' numeral_2_eq_2)
  moreover have "strchr ((l @ [CR]) @ LF # x) LF = Some (length l + 1)" for x
    using assms(1) by (simp add: strchr_def takeWhile_append)
  ultimately show ?thesis by (simp add: line_of_def CRLF_def)
qed

lemma read_line:
  assumes "text_line l" "inp s = l @ CRLF @ rest"
  shows "\<exists>s'. SockRead s (MSGBUFSIZE - 1) = (int (length (l @ CRLF)), l @ CRLF, s') \<and> inp s' = rest
    \<and> outp s' = outp s \<and> wroom s' = wroom s"
proof -
  have "line_of (MSGBUFSIZE - 1 - 1) (inp s) = Some (l @ CRLF)"
    unfolding assms(2) using assms(1) text_line_no_eol [OF assms(1)] by (intro line_of_first) (simp_all add: text_line_def MSGBUFSIZE_def)
  then show ?thesis
    using SockRead_eq [of "MSGBUFSIZE - 1" s] assms(2) by (simp add: MSGBUFSIZE_def)
qed

lemma sanitised: "text_line l \<Longrightarrow> map (\<lambda>c. if iscntrl c then CHR ''?'' else c) l = l"
  by (simp add: text_line_def list_all_iff map_idI)

lemma cstr_of_id: "c_string s \<Longrightarrow> cstr_of s = s"
  by (auto simp: c_string_def cstr_of_def takeWhile_eq_all_conv)

lemma response_set:
  assumes "length (response_buf st) = MSGBUFSIZE" "length t < MSGBUFSIZE" "c_string t"
  shows "smtp_response (set_response st t) = t" "length (response_buf (set_response st t)) = MSGBUFSIZE"
  using assms by (simp_all add: smtp_response_def set_response_def cstr_of_overwrite_0)

lemma response_add:
  assumes "length (response_buf st) = MSGBUFSIZE" "length (smtp_response st @ t) < MSGBUFSIZE" "c_string t"
  shows "smtp_response (add_response st t) = smtp_response st @ t"
    "length (response_buf (add_response st t)) = MSGBUFSIZE"
proof -
  have "c_string (smtp_response st @ t)" using assms(3) by (simp add: smtp_response_def c_string_def cstr_of_def) (auto dest: set_takeWhileD)
  then show "smtp_response (add_response st t) = smtp_response st @ t"
    "length (response_buf (add_response st t)) = MSGBUFSIZE"
    using response_set [OF assms(1,2)] assms(2) by (simp_all add: add_response_def)
qed

lemma conn_add [simp]: "conn (add_response st t) = conn st" "conn (set_response st t) = conn st"
  by (simp_all add: add_response_def set_response_def)

lemma smtp_response_conn [simp]: "smtp_response (st\<lparr>conn := s\<rparr>) = smtp_response st"
  by (simp add: smtp_response_def)

text \<open>The verdict on the last line of a reply.\<close>

definition verdict :: "string \<Rightarrow> int" where
  "verdict l = (if l ! 0 \<in> set ''123'' then SM_OK else SM_ERROR)"

lemma ok_turn:
  assumes l: "code_line l" and i: "inp (conn st) = l @ CRLF @ rest"
  shows "\<exists>s'. inp s' = rest \<and> outp s' = outp (conn st) \<and> SMTP_ok_loop st =
    (if char_at l 3 = SP \<or> char_at l 3 = NUL then (verdict l, add_response (st\<lparr>conn := s'\<rparr>) l)
     else if char_at l 3 = CHR ''-'' then SMTP_ok_loop (add_response (add_response (st\<lparr>conn := s'\<rparr>) l) CRLF)
     else (SM_UNRECOVERABLE, st\<lparr>conn := s'\<rparr>))"
proof -
  have t: "text_line l" using l by (simp add: code_line_def)
  obtain s' where r: "SockRead (conn st) (MSGBUFSIZE - 1) = (int (length (l @ CRLF)), l @ CRLF, s')" "inp s' = rest"
    "outp s' = outp (conn st)"
    using read_line [OF t i] by blast
  have c: "cstr_of (l @ CRLF) = l @ CRLF"
    using text_line_no_eol [OF t] by (intro cstr_of_id) (simp add: c_string_def CRLF_def)
  have d: "char_at l 0 = l ! 0" "char_at l 1 = l ! 1" "char_at l 2 = l ! 2" "char_at l 0 \<noteq> NUL"
  proof -
    show "char_at l 0 = l ! 0" "char_at l 1 = l ! 1" "char_at l 2 = l ! 2" using l by (auto simp: code_line_def char_at_def)
    then show "char_at l 0 \<noteq> NUL" using l by (auto simp: code_line_def isdigit_def code_def)
  qed
  have n: "\<not> length l < 3" using l by (simp add: code_line_def)
  have k: "strchr '' -'' x = None \<longleftrightarrow> x \<noteq> SP \<and> x \<noteq> CHR ''-'' \<and> x \<noteq> NUL" "strchr '' '' x = None \<longleftrightarrow> x \<noteq> SP \<and> x \<noteq> NUL"
    "strchr ''123'' x = None \<longleftrightarrow> x \<notin> set ''123'' \<and> x \<noteq> NUL" for x
    by (auto simp: strchr_def)
  have dg: "isdigit (char_at l 1)" "isdigit (char_at l 2)" using l d by (simp_all add: code_line_def)
  show ?thesis
    using r(2,3) n dg d(4)
    by (intro exI [of _ s'])
      (subst SMTP_ok_loop.simps, simp only: r(1) prod.case Let_def c strip_eol_line [OF t] sanitised [OF t] k,
       auto simp: verdict_def d(1) SM_OK_def SM_ERROR_def)
qed

definition reply_text :: "string list \<Rightarrow> string" where
  "reply_text ls = concat (map (\<lambda>l. l @ CRLF) ls)"

lemma join_lines_Cons: "join_lines (l # ls @ [x]) = l @ CRLF @ join_lines (ls @ [x])"
  by (cases ls) simp_all

lemma code_line_c_string: "code_line l \<Longrightarrow> c_string l"
  using text_line_no_eol by (simp add: code_line_def c_string_def)

lemma ok_lines:
  assumes "\<forall>l \<in> set ls. code_line l \<and> char_at l 3 = CHR ''-''" and "code_line x" and "char_at x 3 = SP \<or> char_at x 3 = NUL"
    and "inp (conn st) = reply_text (ls @ [x]) @ rest" and "length (response_buf st) = MSGBUFSIZE"
    and "length (smtp_response st) + length (join_lines (ls @ [x])) < MSGBUFSIZE"
  shows "\<exists>st'. SMTP_ok_loop st = (verdict x, st') \<and> inp (conn st') = rest \<and> outp (conn st') = outp (conn st)
    \<and> smtp_response st' = smtp_response st @ join_lines (ls @ [x])"
  using assms
proof (induction ls arbitrary: st)
  case Nil
  then obtain s' where "inp s' = rest" "outp s' = outp (conn st)"
    "SMTP_ok_loop st = (verdict x, add_response (st\<lparr>conn := s'\<rparr>) x)"
    using ok_turn [of x st rest] by (auto simp: reply_text_def)
  moreover have "smtp_response (add_response (st\<lparr>conn := s'\<rparr>) x) = smtp_response st @ x"
    using response_add(1) [of "st\<lparr>conn := s'\<rparr>" x] Nil code_line_c_string by simp
  ultimately show ?case by simp
next
  case (Cons l ls)
  have l: "code_line l" "char_at l 3 = CHR ''-''" using Cons.prems(1) by simp_all
  have i: "inp (conn st) = l @ CRLF @ (reply_text (ls @ [x]) @ rest)" using Cons.prems(4) by (simp add: reply_text_def)
  obtain s' where s': "inp s' = reply_text (ls @ [x]) @ rest" "outp s' = outp (conn st)"
    "SMTP_ok_loop st = SMTP_ok_loop (add_response (add_response (st\<lparr>conn := s'\<rparr>) l) CRLF)"
    using ok_turn [OF l(1) i] l(2) by auto
  define st1 where "st1 = add_response (st\<lparr>conn := s'\<rparr>) l"
  define st2 where "st2 = add_response st1 CRLF"
  have len: "length (smtp_response st) + length l + 2 + length (join_lines (ls @ [x])) < MSGBUFSIZE"
    using Cons.prems(6) by (simp add: join_lines_Cons CRLF_def)
  have r1: "smtp_response st1 = smtp_response st @ l" "length (response_buf st1) = MSGBUFSIZE"
    using response_add [of "st\<lparr>conn := s'\<rparr>" l] len Cons.prems(5) code_line_c_string [OF l(1)] by (simp_all add: st1_def)
  have "c_string CRLF" by (simp add: c_string_def CRLF_def)
  then have r2: "smtp_response st2 = smtp_response st @ l @ CRLF" "length (response_buf st2) = MSGBUFSIZE"
    using response_add [of st1 CRLF] len r1 by (simp_all add: st2_def CRLF_def)
  have c2: "conn st2 = s'" by (simp add: st2_def st1_def)
  have "\<exists>st'. SMTP_ok_loop st2 = (verdict x, st') \<and> inp (conn st') = rest \<and> outp (conn st') = outp (conn st2)
    \<and> smtp_response st' = smtp_response st2 @ join_lines (ls @ [x])"
    using Cons.prems(1-3) len r2 s'(1) c2 by (intro Cons.IH) (simp_all add: CRLF_def)
  then show ?case
    using s' c2 r2(1) by (auto simp: join_lines_Cons st2_def st1_def)
qed

section \<open>Properties\<close>

text \<open>
  \<open>SMTP_ok\<close> takes exactly one reply off the connection, all lines of a multi-line reply
  included: it goes on while the code is followed by a dash, its result is decided by the first
  digit of the last line, the reply is kept in \<open>smtp_response\<close> with its lines joined, and what
  follows the reply is left for the next command.
\<close>

theorem SMTP_ok_reply:
  assumes "\<forall>l \<in> set ls. code_line l \<and> char_at l 3 = CHR ''-''" and "code_line x"
    and "char_at x 3 = SP \<or> char_at x 3 = NUL" and "inp (conn st) = reply_text (ls @ [x]) @ rest"
    and "length (response_buf st) = MSGBUFSIZE" and "length (join_lines (ls @ [x])) < MSGBUFSIZE"
  shows "\<exists>st'. SMTP_ok st = (if x ! 0 \<in> set ''123'' then SM_OK else SM_ERROR, st') \<and> inp (conn st') = rest
    \<and> outp (conn st') = outp (conn st) \<and> smtp_response st' = join_lines (ls @ [x])"
proof -
  have "smtp_response (set_response st []) = []" "length (response_buf (set_response st [])) = MSGBUFSIZE"
    using response_set [of st "[]"] assms(5) by (simp_all add: MSGBUFSIZE_def c_string_def)
  then show ?thesis
    using ok_lines [of ls x "set_response st []" rest] assms by (simp add: SMTP_ok_def verdict_def)
qed

theorem SMTP_ok_reply_witness:
  "\<exists>st'. SMTP_ok \<lparr>conn = \<lparr>inp = ''250-first'' @ CRLF @ ''550 second'' @ CRLF @ ''220 x'', avail = [3], wroom = [], outp = []\<rparr>,
      response_buf = replicate MSGBUFSIZE NUL\<rparr> = (SM_ERROR, st')
    \<and> inp (conn st') = ''220 x'' \<and> smtp_response st' = ''250-first'' @ CRLF @ ''550 second''"
proof -
  have "code_line ''250-first''" "code_line ''550 second''"
    by (simp_all add: code_line_def text_line_def iscntrl_def isdigit_def code_def)
  then show ?thesis
    using SMTP_ok_reply [of "[''250-first'']" "''550 second''"
        "\<lparr>conn = \<lparr>inp = ''250-first'' @ CRLF @ ''550 second'' @ CRLF @ ''220 x'', avail = [3], wroom = [], outp = []\<rparr>,
          response_buf = replicate MSGBUFSIZE NUL\<rparr>" "''220 x''"]
    by (auto simp: reply_text_def CRLF_def MSGBUFSIZE_def)
qed

lemma encode_b64buf_iff:
  "encode_b64buf t = (if length t \<le> 381 then Some (to64frombits (bytes_of t)) else None)"
proof -
  have "4 * ((length t + 2) div 3) < 512 \<longleftrightarrow> length t \<le> 381"
  proof -
    have "4 * k < 512 \<longleftrightarrow> k < 128" for k :: nat by auto
    then have "4 * ((length t + 2) div 3) < 512 \<longleftrightarrow> (length t + 2) div 3 < 128" by blast
    also have "\<dots> \<longleftrightarrow> length t + 2 < 128 * 3" by (rule div_less_iff_less_mult) simp
    finally show ?thesis by auto
  qed
  then show ?thesis by (simp add: encode_b64buf_def length_to64frombits)
qed

text \<open>
  PLAIN authentication sends the message of RFC 4616: decoded, the line holds a NUL, the user
  name, a NUL and the password, when neither holds a caret and together they have at most 379
  characters; and its result is left to the server's reply. With more characters, up to the
  length of the intermediate buffer, the encoded message does not fit the 512 bytes of \<open>b64buf\<close>.
\<close>

theorem auth_plain_sends:
  assumes "CHR ''^'' \<notin> set username" and "CHR ''^'' \<notin> set password"
  shows "if length username + length password \<le> 379
    then \<exists>e. auth_plain username password st = Some (snd (SMTP_ok (say st (''AUTH PLAIN '' @ e @ CRLF))))
      \<and> from64tobits e 0 = Some (0 # bytes_of username @ 0 # bytes_of password)
    else auth_plain username password st = None"
proof -
  let ?tmp = "''^'' @ username @ ''^'' @ password"
  let ?t = "map (\<lambda>c. if c = CHR ''^'' then NUL else c) (take 511 ?tmp)"
  have i: "map (\<lambda>c. if c = CHR ''^'' then NUL else c) s = s" if "CHR ''^'' \<notin> set s" for s
    using that by (intro map_idI) auto
  show ?thesis
  proof (cases "length username + length password \<le> 379")
    case True
    then have t: "?t = NUL # username @ NUL # password" using i [OF assms(1)] i [OF assms(2)] by simp
    define e where "e = to64frombits (bytes_of ?t)"
    have "bytes_of ?t = 0 # bytes_of username @ 0 # bytes_of password" by (simp only: t) (simp add: bytes_of_def code_def)
    then have "from64tobits e 0 = Some (0 # bytes_of username @ 0 # bytes_of password)"
      unfolding e_def using b64_inverse [of "bytes_of ?t" 0] by simp
    moreover have "auth_plain username password st = Some (snd (SMTP_ok (say st (''AUTH PLAIN '' @ e @ CRLF))))"
      using True by (simp add: auth_plain_def encode_b64buf_iff e_def Let_def)
    ultimately show ?thesis using True by auto
  next
    case False
    then have "length ?t > 381" by simp
    then show ?thesis using False by (simp add: auth_plain_def encode_b64buf_iff)
  qed
qed

theorem auth_plain_sends_witness:
  "\<forall>st. \<exists>e. auth_plain ''tim'' ''secret'' st = Some (snd (SMTP_ok (say st (''AUTH PLAIN '' @ e @ CRLF))))
      \<and> from64tobits e 0 = Some (0 # bytes_of ''tim'' @ 0 # bytes_of ''secret'')"
  using auth_plain_sends [of "''tim''" "''secret''"] by simp

end
