(* ===== verification/SmbDes.thy ===== *)
theory SmbDes
  imports Prelude "HOL-Library.Multiset"
begin

section \<open>DES and RC4 for NTLM (smbdes.c)\<close>

text \<open>
  The code spreads a block over an array of \<open>char\<close>, one per bit; the arrays are lists of bytes
  here and the tables are the ones of the source, with positions that count from 1. A function
  that fills an output array returns it.
\<close>

definition perm1 :: "nat list" where
  "perm1 = [
    57, 49, 41, 33, 25, 17, 9, 1, 58, 50, 42, 34, 26, 18, 10, 2,
    59, 51, 43, 35, 27, 19, 11, 3, 60, 52, 44, 36, 63, 55, 47, 39,
    31, 23, 15, 7, 62, 54, 46, 38, 30, 22, 14, 6, 61, 53, 45, 37,
    29, 21, 13, 5, 28, 20, 12, 4]"

definition perm2 :: "nat list" where
  "perm2 = [
    14, 17, 11, 24, 1, 5, 3, 28, 15, 6, 21, 10, 23, 19, 12, 4,
    26, 8, 16, 7, 27, 20, 13, 2, 41, 52, 31, 37, 47, 55, 30, 40,
    51, 45, 33, 48, 44, 49, 39, 56, 34, 53, 46, 42, 50, 36, 29, 32]"

definition perm3 :: "nat list" where
  "perm3 = [
    58, 50, 42, 34, 26, 18, 10, 2, 60, 52, 44, 36, 28, 20, 12, 4,
    62, 54, 46, 38, 30, 22, 14, 6, 64, 56, 48, 40, 32, 24, 16, 8,
    57, 49, 41, 33, 25, 17, 9, 1, 59, 51, 43, 35, 27, 19, 11, 3,
    61, 53, 45, 37, 29, 21, 13, 5, 63, 55, 47, 39, 31, 23, 15, 7]"

definition perm4 :: "nat list" where
  "perm4 = [
    32, 1, 2, 3, 4, 5, 4, 5, 6, 7, 8, 9, 8, 9, 10, 11,
    12, 13, 12, 13, 14, 15, 16, 17, 16, 17, 18, 19, 20, 21, 20, 21,
    22, 23, 24, 25, 24, 25, 26, 27, 28, 29, 28, 29, 30, 31, 32, 1]"

definition perm5 :: "nat list" where
  "perm5 = [
    16, 7, 20, 21, 29, 12, 28, 17, 1, 15, 23, 26, 5, 18, 31, 10,
    2, 8, 24, 14, 32, 27, 3, 9, 19, 13, 30, 6, 22, 11, 4, 25]"

definition perm6 :: "nat list" where
  "perm6 = [
    40, 8, 48, 16, 56, 24, 64, 32, 39, 7, 47, 15, 55, 23, 63, 31,
    38, 6, 46, 14, 54, 22, 62, 30, 37, 5, 45, 13, 53, 21, 61, 29,
    36, 4, 44, 12, 52, 20, 60, 28, 35, 3, 43, 11, 51, 19, 59, 27,
    34, 2, 42, 10, 50, 18, 58, 26, 33, 1, 41, 9, 49, 17, 57, 25]"

definition sc :: "nat list" where
  "sc = [1, 1, 2, 2, 2, 2, 2, 2, 1, 2, 2, 2, 2, 2, 2, 1]"

definition sbox :: "byte list list list" where
  "sbox = [
    [[14, 4, 13, 1, 2, 15, 11, 8, 3, 10, 6, 12, 5, 9, 0, 7],
     [0, 15, 7, 4, 14, 2, 13, 1, 10, 6, 12, 11, 9, 5, 3, 8],
     [4, 1, 14, 8, 13, 6, 2, 11, 15, 12, 9, 7, 3, 10, 5, 0],
     [15, 12, 8, 2, 4, 9, 1, 7, 5, 11, 3, 14, 10, 0, 6, 13]],
    [[15, 1, 8, 14, 6, 11, 3, 4, 9, 7, 2, 13, 12, 0, 5, 10],
     [3, 13, 4, 7, 15, 2, 8, 14, 12, 0, 1, 10, 6, 9, 11, 5],
     [0, 14, 7, 11, 10, 4, 13, 1, 5, 8, 12, 6, 9, 3, 2, 15],
     [13, 8, 10, 1, 3, 15, 4, 2, 11, 6, 7, 12, 0, 5, 14, 9]],
    [[10, 0, 9, 14, 6, 3, 15, 5, 1, 13, 12, 7, 11, 4, 2, 8],
     [13, 7, 0, 9, 3, 4, 6, 10, 2, 8, 5, 14, 12, 11, 15, 1],
     [13, 6, 4, 9, 8, 15, 3, 0, 11, 1, 2, 12, 5, 10, 14, 7],
     [1, 10, 13, 0, 6, 9, 8, 7, 4, 15, 14, 3, 11, 5, 2, 12]],
    [[7, 13, 14, 3, 0, 6, 9, 10, 1, 2, 8, 5, 11, 12, 4, 15],
     [13, 8, 11, 5, 6, 15, 0, 3, 4, 7, 2, 12, 1, 10, 14, 9],
     [10, 6, 9, 0, 12, 11, 7, 13, 15, 1, 3, 14, 5, 2, 8, 4],
     [3, 15, 0, 6, 10, 1, 13, 8, 9, 4, 5, 11, 12, 7, 2, 14]],
    [[2, 12, 4, 1, 7, 10, 11, 6, 8, 5, 3, 15, 13, 0, 14, 9],
     [14, 11, 2, 12, 4, 7, 13, 1, 5, 0, 15, 10, 3, 9, 8, 6],
     [4, 2, 1, 11, 10, 13, 7, 8, 15, 9, 12, 5, 6, 3, 0, 14],
     [11, 8, 12, 7, 1, 14, 2, 13, 6, 15, 0, 9, 10, 4, 5, 3]],
    [[12, 1, 10, 15, 9, 2, 6, 8, 0, 13, 3, 4, 14, 7, 5, 11],
     [10, 15, 4, 2, 7, 12, 9, 5, 6, 1, 13, 14, 0, 11, 3, 8],
     [9, 14, 15, 5, 2, 8, 12, 3, 7, 0, 4, 10, 1, 13, 11, 6],
     [4, 3, 2, 12, 9, 5, 15, 10, 11, 14, 1, 7, 6, 0, 8, 13]],
    [[4, 11, 2, 14, 15, 0, 8, 13, 3, 12, 9, 7, 5, 10, 6, 1],
     [13, 0, 11, 7, 4, 9, 1, 10, 14, 3, 5, 12, 2, 15, 8, 6],
     [1, 4, 11, 13, 12, 3, 7, 14, 10, 15, 6, 8, 0, 5, 9, 2],
     [6, 11, 13, 8, 1, 4, 10, 7, 9, 5, 0, 15, 14, 2, 3, 12]],
    [[13, 2, 8, 4, 6, 15, 11, 1, 10, 9, 3, 14, 5, 0, 12, 7],
     [1, 15, 13, 8, 10, 3, 7, 4, 12, 5, 6, 11, 0, 14, 9, 2],
     [7, 11, 4, 1, 9, 12, 14, 2, 0, 6, 10, 13, 15, 3, 5, 8],
     [2, 1, 14, 7, 4, 10, 8, 13, 15, 12, 9, 0, 3, 5, 6, 11]]]"

subsection \<open>Bit arrays\<close>

definition permute :: "byte list \<Rightarrow> nat list \<Rightarrow> nat \<Rightarrow> byte list" where
  "permute inp p n = map (\<lambda>i. inp ! (p ! i - 1)) [0..<n]"

definition lshift :: "byte list \<Rightarrow> nat \<Rightarrow> nat \<Rightarrow> byte list" where
  "lshift d k n = map (\<lambda>i. d ! ((i + k) mod n)) [0..<n]"

definition concat_bits :: "byte list \<Rightarrow> byte list \<Rightarrow> nat \<Rightarrow> nat \<Rightarrow> byte list" where
  "concat_bits in1 in2 l1 l2 = take l1 in1 @ take l2 in2"

definition exor :: "byte list \<Rightarrow> byte list \<Rightarrow> nat \<Rightarrow> byte list" where
  "exor in1 in2 n = map (\<lambda>i. in1 ! i XOR in2 ! i) [0..<n]"

text \<open>The arrays \<open>ki\<close> of the 16 rounds, from the shift counts of \<open>sc\<close>.\<close>

fun round_keys :: "nat list \<Rightarrow> byte list \<Rightarrow> byte list \<Rightarrow> byte list list" where
  "round_keys [] c d = []"
| "round_keys (s # ss) c d =
     (let c1 = lshift c s 28; d1 = lshift d s 28 in
      permute (concat_bits c1 d1 28 28) perm2 48 # round_keys ss c1 d1)"

definition key_schedule :: "byte list \<Rightarrow> byte list list" where
  "key_schedule key =
     (let pk1 = permute key perm1 56 in
      round_keys sc (map (\<lambda>i. pk1 ! i) [0..<28]) (map (\<lambda>i. pk1 ! (i + 28)) [0..<28]))"

text \<open>The six bits \<open>b[j]\<close> of \<open>erk\<close> and the four that replace them.\<close>

definition sbox_bits :: "byte list \<Rightarrow> nat \<Rightarrow> byte list" where
  "sbox_bits erk j =
     (let b = map (\<lambda>k. erk ! (j * 6 + k)) [0..<6];
          m = unat (push_bit 1 (b ! 0) OR b ! 5);
          n = unat (push_bit 3 (b ! 1) OR push_bit 2 (b ! 2) OR push_bit 1 (b ! 3) OR b ! 4) in
      map (\<lambda>k. if sbox ! j ! m ! n AND push_bit (3 - k) 1 \<noteq> 0 then 1 else 0) [0..<4])"

definition cipher :: "byte list \<Rightarrow> byte list \<Rightarrow> byte list" where
  "cipher r ki =
     (let erk = exor (permute r perm4 48) ki 48 in
      permute (concat (map (sbox_bits erk) [0..<8])) perm5 32)"

definition des_round :: "byte list \<Rightarrow> byte list \<times> byte list \<Rightarrow> byte list \<times> byte list" where
  "des_round ki = (\<lambda>(l, r). (r, exor l (cipher r ki) 32))"

definition dohash :: "byte list \<Rightarrow> byte list \<Rightarrow> bool \<Rightarrow> byte list" where
  "dohash inp key forw =
     (let ki = key_schedule key;
          pd1 = permute inp perm3 64;
          (l, r) = fold (\<lambda>i. des_round (ki ! (if forw then i else 15 - i))) [0..<16]
                     (map (\<lambda>j. pd1 ! j) [0..<32], map (\<lambda>j. pd1 ! (j + 32)) [0..<32]) in
      permute (concat_bits r l 32 32) perm6 64)"

subsection \<open>Blocks of bytes\<close>

definition str_to_key :: "byte list \<Rightarrow> byte list" where
  "str_to_key str =
     map (push_bit 1)
       [drop_bit 1 (str ! 0),
        push_bit 6 (str ! 0 AND 0x01) OR drop_bit 2 (str ! 1),
        push_bit 5 (str ! 1 AND 0x03) OR drop_bit 3 (str ! 2),
        push_bit 4 (str ! 2 AND 0x07) OR drop_bit 4 (str ! 3),
        push_bit 3 (str ! 3 AND 0x0F) OR drop_bit 5 (str ! 4),
        push_bit 2 (str ! 4 AND 0x1F) OR drop_bit 6 (str ! 5),
        push_bit 1 (str ! 5 AND 0x3F) OR drop_bit 7 (str ! 6),
        str ! 6 AND 0x7F]"

text \<open>The two conversion loops of \<open>smbhash\<close>.\<close>

definition spread :: "byte list \<Rightarrow> byte list" where
  "spread inp = map (\<lambda>i. if inp ! (i div 8) AND push_bit (7 - i mod 8) 1 \<noteq> 0 then 1 else 0) [0..<64]"

definition collect :: "byte list \<Rightarrow> byte list" where
  "collect outb =
     fold (\<lambda>i out. if outb ! i \<noteq> 0 then out[i div 8 := out ! (i div 8) OR push_bit (7 - i mod 8) 1] else out)
       [0..<64] (replicate 8 0)"

definition smbhash :: "byte list \<Rightarrow> byte list \<Rightarrow> bool \<Rightarrow> byte list" where
  "smbhash inp key forw = collect (dohash (spread inp) (spread (str_to_key key)) forw)"

definition E_P16 :: "byte list \<Rightarrow> byte list" where
  "E_P16 p14 =
     (let sp8 = [0x4b, 0x47, 0x53, 0x21, 0x40, 0x23, 0x24, 0x25] in
      smbhash sp8 p14 True @ smbhash sp8 (drop 7 p14) True)"

definition E_P24 :: "byte list \<Rightarrow> byte list \<Rightarrow> byte list" where
  "E_P24 p21 c8 = smbhash c8 p21 True @ smbhash c8 (drop 7 p21) True @ smbhash c8 (drop 14 p21) True"

definition D_P16 :: "byte list \<Rightarrow> byte list \<Rightarrow> byte list" where
  "D_P16 p14 inp = smbhash inp p14 False @ smbhash (drop 8 inp) (drop 7 p14) False"

definition E_old_pw_hash :: "byte list \<Rightarrow> byte list \<Rightarrow> byte list" where
  "E_old_pw_hash p14 inp = smbhash inp p14 True @ smbhash (drop 8 inp) (drop 7 p14) True"

definition cred_hash1 :: "byte list \<Rightarrow> byte list \<Rightarrow> byte list" where
  "cred_hash1 inp key = smbhash (smbhash inp key True) (drop 9 key) True"

text \<open>The static \<open>key2\<close> of the next two is zero behind its first cell.\<close>

definition cred_hash2 :: "byte list \<Rightarrow> byte list \<Rightarrow> byte list" where
  "cred_hash2 inp key = smbhash (smbhash inp key True) (key ! 7 # replicate 7 0) True"

definition cred_hash3 :: "byte list \<Rightarrow> byte list \<Rightarrow> bool \<Rightarrow> byte list" where
  "cred_hash3 inp key forw = smbhash inp key forw @ smbhash (drop 8 inp) (key ! 7 # replicate 7 0) forw"

subsection \<open>RC4\<close>

definition swap_cells :: "byte list \<Rightarrow> byte \<Rightarrow> byte \<Rightarrow> byte list" where
  "swap_cells s i j = s[unat i := s ! unat j, unat j := s ! unat i]"

definition rc4_schedule :: "byte list \<Rightarrow> byte list" where
  "rc4_schedule key =
     fst (fold (\<lambda>ind (s, j).
            let j1 = j + (s ! ind + key ! (ind mod 16)) in (swap_cells s (word_of_nat ind) j1, j1))
          [0..<256] (map word_of_nat [0..<256], 0))"

definition rc4_step :: "byte list \<times> byte \<times> byte \<Rightarrow> (byte list \<times> byte \<times> byte) \<times> byte" where
  "rc4_step = (\<lambda>(s, index_i, index_j).
     let i1 = index_i + 1; j1 = index_j + s ! unat i1; s1 = swap_cells s i1 j1;
         t = s1 ! unat i1 + s1 ! unat j1 in
     ((s1, i1, j1), s1 ! unat t))"

definition SamOEMhash :: "byte list \<Rightarrow> byte list \<Rightarrow> bool \<Rightarrow> byte list" where
  "SamOEMhash data key val =
     fst (fold (\<lambda>ind (data, st). let (st1, k) = rc4_step st in (data[ind := data ! ind XOR k], st1))
          [0..<(if val then 516 else 16)] (data, rc4_schedule key, 0, 0))"

end
