(* ===== verification/SmbDesSpec.thy ===== *)
theory SmbDesSpec
  imports SmbDes
begin

section \<open>Facts about DES and RC4\<close>

text \<open>
  What the operations of smbdes.c promise: decryption inverts encryption, the complementation
  property, the RC4 stream cipher is its own inverse and its table stays a permutation.
\<close>

section \<open>Decryption\<close>

text \<open>
  A Feistel network: whatever the function of the rounds is, the rounds in the opposite order undo
  it when the halves are exchanged.
\<close>

locale feistel =
  fixes f :: "'k \<Rightarrow> 'b \<Rightarrow> 'b" and comb :: "'b \<Rightarrow> 'b \<Rightarrow> 'b" and half :: "'b \<Rightarrow> bool"
  assumes comb_cancel: "half l \<Longrightarrow> half r \<Longrightarrow> comb (comb l (f k r)) (f k r) = l"
    and comb_half: "half l \<Longrightarrow> half r \<Longrightarrow> half (comb l (f k r))"
begin

definition step :: "'k \<Rightarrow> 'b \<times> 'b \<Rightarrow> 'b \<times> 'b" where
  "step k = (\<lambda>(l, r). (r, comb l (f k r)))"

definition halves :: "'b \<times> 'b \<Rightarrow> bool" where
  "halves = (\<lambda>(l, r). half l \<and> half r)"

lemma halves_step: "halves s \<Longrightarrow> halves (step k s)"
  by (auto simp: halves_def step_def comb_half)

lemma halves_fold: "halves s \<Longrightarrow> halves (fold step ks s)"
  by (induction ks arbitrary: s) (simp_all add: halves_step)

lemma step_swap: "halves s \<Longrightarrow> step k (prod.swap (step k s)) = prod.swap s"
  by (auto simp: halves_def step_def comb_cancel)

lemma rounds_swap: "halves s \<Longrightarrow> fold step (rev ks) (prod.swap (fold step ks s)) = prod.swap s"
  by (induction ks arbitrary: s) (simp_all add: halves_step step_swap)

end

subsection \<open>Arrays of bits\<close>

definition bits :: "nat \<Rightarrow> byte list \<Rightarrow> bool" where
  "bits n x \<longleftrightarrow> length x = n \<and> set x \<subseteq> {0, 1}"

lemma bits_map: "bits n (map f [0..<n]) \<longleftrightarrow> (\<forall>i<n. f i \<in> {0, 1})"
  by (auto simp: bits_def image_subset_iff)

lemma bits_nth: "bits n x \<Longrightarrow> i < n \<Longrightarrow> x ! i \<in> {0, 1}"
  unfolding bits_def using nth_mem by blast

lemma bits_append: "bits m x \<Longrightarrow> bits n y \<Longrightarrow> bits (m + n) (x @ y)"
  by (simp add: bits_def)

lemma bits_permute: "bits m inp \<Longrightarrow> \<forall>i<n. p ! i - 1 < m \<Longrightarrow> bits n (permute inp p n)"
proof -
  assume b: "bits m inp" and p: "\<forall>i<n. p ! i - 1 < m"
  have "inp ! (p ! i - 1) \<in> {0, 1}" if "i < n" for i using bits_nth [OF b] p that by blast
  then show ?thesis unfolding permute_def bits_map by blast
qed

lemma bits_exor: "bits n x \<Longrightarrow> bits n y \<Longrightarrow> bits n (exor x y n)"
  unfolding exor_def bits_map using bits_nth [of n x] bits_nth [of n y] by fastforce

lemma exor_cancel: "bits n x \<Longrightarrow> exor (exor x y n) y n = x"
  by (auto simp: bits_def exor_def xor.assoc intro!: nth_equalityI)

lemma list_range: "\<forall>i<n. P i" if "list_all P [0..<n]"
  using that by (simp add: list_all_iff)

lemma perm5_range: "\<forall>i<32. perm5 ! i - 1 < 32"
  by (rule list_range) code_simp

lemma perm3_range: "\<forall>i<64. perm3 ! i - 1 < 64"
  by (rule list_range) code_simp

lemma perm6_range: "\<forall>i<64. perm6 ! i - 1 < 64"
  by (rule list_range) code_simp

lemma perm3_perm6: "\<forall>i<64. perm6 ! (perm3 ! i - 1) - 1 = i"
  by (rule list_range) code_simp

lemma perm6_perm3: "\<forall>i<64. perm3 ! (perm6 ! i - 1) - 1 = i"
  by (rule list_range) code_simp

lemma permute_inverse:
  assumes "length x = n" "\<forall>i<n. p ! i - 1 < n" "\<forall>i<n. q ! (p ! i - 1) - 1 = i"
  shows "permute (permute x q n) p n = x"
  using assms by (auto simp: permute_def intro!: nth_equalityI)

subsection \<open>The rounds\<close>

lemma bits_cipher: "bits 32 (cipher r k)"
proof -
  have "bits 32 (concat (map (sbox_bits erk) [0..<8]))" for erk
  proof -
    have b: "bits 4 (sbox_bits erk j)" for j by (simp add: sbox_bits_def bits_map Let_def)
    then have "length (concat (map (sbox_bits erk) [0..<8])) = 32"
      by (simp add: bits_def length_concat comp_def sum_list_triv)
    moreover have "set (sbox_bits erk j) \<subseteq> {0, 1}" for j using b by (simp add: bits_def)
    ultimately show ?thesis unfolding bits_def by fastforce
  qed
  then show ?thesis unfolding cipher_def Let_def by (rule bits_permute) (rule perm5_range)
qed

interpretation des: feistel "\<lambda>k r. cipher r k" "\<lambda>l x. exor l x 32" "bits 32"
  by unfold_locales (simp_all add: exor_cancel bits_exor bits_cipher)

lemma des_round_step: "des_round = des.step"
  by (simp add: fun_eq_iff des_round_def des.step_def)

lemma length_round_keys: "length (round_keys ss c d) = length ss"
  by (induction ss arbitrary: c d) (simp_all add: Let_def)

lemma length_key_schedule: "length (key_schedule key) = 16"
  by (simp add: key_schedule_def length_round_keys Let_def sc_def)

lemma fold_nth: "length xs = n \<Longrightarrow> fold (\<lambda>i. f (xs ! i)) [0..<n] = fold f xs"
  using fold_map [of f "\<lambda>i. xs ! i" "[0..<n]"] by (auto simp: map_nth comp_def)

lemma fold_nth_rev: "length xs = 16 \<Longrightarrow> fold (\<lambda>i. f (xs ! (15 - i))) [0..<16] = fold f (rev xs)"
proof -
  assume "length xs = 16"
  then have "map (\<lambda>i. xs ! (15 - i)) [0..<16] = rev xs"
    by (auto simp: rev_nth intro!: nth_equalityI)
  then show ?thesis using fold_map [of f "\<lambda>i. xs ! (15 - i)" "[0..<16]"] by (simp add: comp_def)
qed

definition split32 :: "byte list \<Rightarrow> byte list \<times> byte list" where
  "split32 x = (take 32 x, drop 32 x)"

definition join32 :: "byte list \<times> byte list \<Rightarrow> byte list" where
  "join32 = (\<lambda>(l, r). r @ l)"

lemma halves_split32: "bits 64 x \<Longrightarrow> des.halves (split32 x)"
  unfolding bits_def des.halves_def split32_def by (auto dest: in_set_takeD in_set_dropD)

lemma bits_join32: "des.halves s \<Longrightarrow> bits 64 (join32 s)"
  using bits_append [of 32 "snd s" 32 "fst s"] by (auto simp: des.halves_def join32_def)

lemma split_join32: "des.halves s \<Longrightarrow> split32 (join32 s) = prod.swap s"
  by (auto simp: des.halves_def split32_def join32_def bits_def)

lemma join32_swap_split: "join32 (prod.swap (split32 x)) = x"
  by (simp add: join32_def split32_def)

text \<open>\<open>dohash\<close> in terms of its rounds.\<close>

lemma dohash_eq:
  assumes "bits 64 inp"
  shows "dohash inp key forw =
    permute (join32 (fold des.step (if forw then key_schedule key else rev (key_schedule key))
      (split32 (permute inp perm3 64)))) perm6 64"
proof -
  define x where "x = permute inp perm3 64"
  have x: "bits 64 x" unfolding x_def using assms perm3_range by (rule bits_permute)
  have s: "(map (\<lambda>j. x ! j) [0..<32], map (\<lambda>j. x ! (j + 32)) [0..<32]) = split32 x"
    using x by (auto simp: split32_def bits_def add.commute intro!: nth_equalityI)
  have k: "fold (\<lambda>i. des_round (key_schedule key ! (if forw then i else 15 - i))) [0..<16]
      = fold des.step (if forw then key_schedule key else rev (key_schedule key))"
    using fold_nth [OF length_key_schedule] fold_nth_rev [OF length_key_schedule]
    by (cases forw) (simp_all add: des_round_step)
  have c: "concat_bits (snd s) (fst s) 32 32 = join32 s" if "s = fold des.step ks (split32 x)" for s ks
    using that [symmetric] des.halves_fold [OF halves_split32 [OF x], of ks]
    by (cases s) (simp add: concat_bits_def join32_def des.halves_def bits_def)
  show ?thesis
    unfolding dohash_def Let_def x_def [symmetric] s k by (simp add: case_prod_beta c)
qed

lemma bits_dohash: "bits 64 inp \<Longrightarrow> bits 64 (dohash inp key forw)"
  unfolding dohash_eq
  by (intro bits_permute [OF bits_join32 perm6_range] des.halves_fold halves_split32 bits_permute [OF _ perm3_range])

lemma dohash_inverse:
  assumes "bits 64 inp"
  shows "dohash (dohash inp key forw) key (\<not> forw) = inp"
proof -
  define ks where "ks = (if forw then key_schedule key else rev (key_schedule key))"
  define x where "x = permute inp perm3 64"
  define y where "y = fold des.step ks (split32 x)"
  have ks: "(if \<not> forw then key_schedule key else rev (key_schedule key)) = rev ks" by (simp add: ks_def)
  have x: "bits 64 x" unfolding x_def using assms perm3_range by (rule bits_permute)
  have y: "des.halves y" unfolding y_def by (intro des.halves_fold halves_split32 x)
  have d: "dohash inp key forw = permute (join32 y) perm6 64"
    by (simp add: dohash_eq assms ks_def y_def x_def)
  have "permute (permute (join32 y) perm6 64) perm3 64 = join32 y"
    using bits_join32 [OF y] perm3_range perm3_perm6 by (simp add: permute_inverse bits_def)
  then have "dohash (dohash inp key forw) key (\<not> forw)
      = permute (join32 (fold des.step (rev ks) (prod.swap y))) perm6 64"
    using dohash_eq [OF bits_dohash [OF assms, of key forw], of key "\<not> forw"] unfolding ks d
    by (simp add: split_join32 [OF y])
  also have "\<dots> = permute x perm6 64"
    unfolding y_def by (simp add: des.rounds_swap [OF halves_split32 [OF x]] join32_swap_split)
  also have "\<dots> = inp"
    unfolding x_def using assms perm6_range perm6_perm3 by (simp add: permute_inverse bits_def)
  finally show ?thesis .
qed

subsection \<open>Bytes\<close>

lemma bits_spread: "bits 64 (spread inp)"
  by (simp add: spread_def bits_map)

lemma spread_nth: "i < 64 \<Longrightarrow> spread inp ! i = (if bit (inp ! (i div 8)) (7 - i mod 8) then 1 else 0)"
  by (simp add: spread_def bit_iff_and_push_bit_not_eq_0)

lemma cell_pos: "k < 8 \<Longrightarrow> (8 * j + (7 - k)) div 8 = j \<and> (8 * j + (7 - k)) mod 8 = 7 - k" for j k :: nat
proof -
  define m where "m = 7 - k"
  have "m < 8" by (simp add: m_def)
  then have "(8 * j + m) div 8 = j \<and> (8 * j + m) mod 8 = m" by simp
  then show ?thesis by (simp add: m_def)
qed

lemma collect_aux:
  fixes outb :: "byte list"
  assumes "n \<le> 64"
  defines "out \<equiv> fold (\<lambda>i out. if outb ! i \<noteq> 0 then out[i div 8 := out ! (i div 8) OR push_bit (7 - i mod 8) 1] else out)
       [0..<n] (replicate 8 (0::byte))"
  shows "length out = 8 \<and> (\<forall>j<8. \<forall>k<8. bit (out ! j) k \<longleftrightarrow> 8 * j + (7 - k) < n \<and> outb ! (8 * j + (7 - k)) \<noteq> 0)"
  using assms(1) unfolding out_def
proof (induction n)
  case 0
  then show ?case by simp
next
  case (Suc n)
  define o1 where "o1 = fold (\<lambda>i out. if outb ! i \<noteq> 0 then out[i div 8 := out ! (i div 8) OR push_bit (7 - i mod 8) 1] else out)
       [0..<n] (replicate 8 (0::byte))"
  have IH: "length o1 = 8" "\<And>j k. j < 8 \<Longrightarrow> k < 8 \<Longrightarrow> bit (o1 ! j) k \<longleftrightarrow> 8 * j + (7 - k) < n \<and> outb ! (8 * j + (7 - k)) \<noteq> 0"
    using Suc unfolding o1_def by auto
  have n: "n div 8 < 8" using Suc.prems by simp
  have pos: "8 * j + (7 - k) = n \<longleftrightarrow> j = n div 8 \<and> k = 7 - n mod 8" if "k < 8" for j k :: nat
  proof -
    have "(8 * j + (7 - k)) div 8 = j" "(8 * j + (7 - k)) mod 8 = 7 - k" using cell_pos that by simp_all
    then have "8 * j + (7 - k) = n \<longleftrightarrow> j = n div 8 \<and> 7 - k = n mod 8" by (metis mult_div_mod_eq)
    moreover have "7 - k = n mod 8 \<longleftrightarrow> k = 7 - n mod 8" using that mod_less_divisor [of 8 n] by linarith
    ultimately show ?thesis by blast
  qed
  have "bit (o1[n div 8 := o1 ! (n div 8) OR push_bit (7 - n mod 8) 1] ! j) k \<longleftrightarrow> bit (o1 ! j) k \<or> 8 * j + (7 - k) = n"
    if "j < 8" "k < 8" for j k
    using that n IH(1) pos [of k j] by (auto simp: nth_list_update bit_simps)
  then show ?case
    using IH by (auto simp: o1_def [symmetric] less_Suc_eq)
qed

lemma collect_bits:
  "length (collect outb) = 8"
  "j < 8 \<Longrightarrow> k < 8 \<Longrightarrow> bit (collect outb ! j) k \<longleftrightarrow> outb ! (8 * j + (7 - k)) \<noteq> 0"
  using collect_aux [of 64 outb] by (auto simp: collect_def)

lemma spread_collect: "bits 64 outb \<Longrightarrow> spread (collect outb) = outb"
proof (rule nth_equalityI)
  assume b: "bits 64 outb"
  then show l: "length (spread (collect outb)) = length outb" by (simp add: spread_def bits_def)
  fix i assume "i < length (spread (collect outb))"
  then have i: "i < 64" by (simp add: spread_def)
  moreover have "8 * (i div 8) + (7 - (7 - i mod 8)) = i" by presburger
  ultimately show "spread (collect outb) ! i = outb ! i"
    using bits_nth [OF b i] by (auto simp: spread_nth collect_bits)
qed

lemma collect_spread: "length bs = 8 \<Longrightarrow> collect (spread bs) = bs"
proof (rule nth_equalityI)
  assume l: "length bs = 8"
  then show "length (collect (spread bs)) = length bs" by (simp add: collect_bits)
  fix j assume "j < length (collect (spread bs))"
  then have j: "j < 8" by (simp add: collect_bits)
  show "collect (spread bs) ! j = bs ! j"
  proof (rule bit_word_eqI)
    fix k assume "k < LENGTH(8)"
    then have k: "k < 8" by simp
    have "(8 * j + (7 - k)) div 8 = j" "7 - (8 * j + (7 - k)) mod 8 = k" "8 * j + (7 - k) < 64"
      using j k cell_pos [OF k, of j] by simp_all
    then show "bit (collect (spread bs) ! j) k \<longleftrightarrow> bit (bs ! j) k"
      using j k by (simp add: collect_bits spread_nth)
  qed
qed

lemma smbhash_inverse: "length inp = 8 \<Longrightarrow> smbhash (smbhash inp key forw) key (\<not> forw) = inp"
  by (simp add: smbhash_def spread_collect bits_dohash bits_spread dohash_inverse collect_spread)

lemma length_smbhash [simp]: "length (smbhash inp key forw) = 8"
  by (simp add: smbhash_def collect_bits)

section \<open>Complements\<close>

definition cpl :: "byte list \<Rightarrow> byte list" where
  "cpl x = map (\<lambda>b. b XOR 1) x"

lemma length_cpl [simp]: "length (cpl x) = length x"
  by (simp add: cpl_def)

lemma permute_cpl: "\<forall>i<n. p ! i - 1 < length x \<Longrightarrow> permute (cpl x) p n = cpl (permute x p n)"
  by (auto simp: permute_def cpl_def)

lemma lshift_cpl: "length x = n \<Longrightarrow> lshift (cpl x) k n = cpl (lshift x k n)"
  by (auto simp: lshift_def cpl_def)

lemma exor_cpl: "n \<le> length x \<Longrightarrow> exor (cpl x) y n = cpl (exor x y n)"
  by (auto simp: exor_def cpl_def ac_simps)

lemma exor_cpl_both: "n \<le> length x \<Longrightarrow> n \<le> length y \<Longrightarrow> exor (cpl x) (cpl y) n = exor x y n"
  by (auto simp: exor_def cpl_def ac_simps)

lemma length_permute [simp]: "length (permute x p n) = n"
  by (simp add: permute_def)

lemma length_lshift [simp]: "length (lshift x k n) = n"
  by (simp add: lshift_def)

lemma concat_bits_cpl: "concat_bits (cpl x) (cpl y) m n = cpl (concat_bits x y m n)"
  by (simp add: concat_bits_def cpl_def take_map)

lemma perm2_range: "\<forall>i<48. perm2 ! i - 1 < 56"
  by (rule list_range) code_simp

lemma perm4_range: "\<forall>i<48. perm4 ! i - 1 < 32"
  by (rule list_range) code_simp

lemma round_keys_cpl:
  "length c = 28 \<Longrightarrow> length d = 28 \<Longrightarrow> round_keys ss (cpl c) (cpl d) = map cpl (round_keys ss c d)"
proof (induction ss arbitrary: c d)
  case (Cons s ss)
  have "permute (cpl (concat_bits (lshift c s 28) (lshift d s 28) 28 28)) perm2 48
      = cpl (permute (concat_bits (lshift c s 28) (lshift d s 28) 28 28) perm2 48)"
    using perm2_range by (intro permute_cpl) (simp add: concat_bits_def)
  with Cons show ?case by (simp add: Let_def lshift_cpl concat_bits_cpl)
qed simp

lemma round_keys_length: "k \<in> set (round_keys ss c d) \<Longrightarrow> length k = 48"
  by (induction ss arbitrary: c d) (auto simp: Let_def)

lemma key_schedule_cpl:
  assumes "permute key' perm1 56 = cpl (permute key perm1 56)"
  shows "key_schedule key' = map cpl (key_schedule key)"
proof -
  define x where "x = permute key perm1 56"
  have "map (\<lambda>i. cpl x ! i) [0..<28] = cpl (map (\<lambda>i. x ! i) [0..<28])"
    "map (\<lambda>i. cpl x ! (i + 28)) [0..<28] = cpl (map (\<lambda>i. x ! (i + 28)) [0..<28])"
    by (auto simp: cpl_def x_def)
  then show ?thesis
    unfolding key_schedule_def assms Let_def x_def [symmetric] by (simp add: round_keys_cpl)
qed

lemma cipher_cpl: "length r = 32 \<Longrightarrow> length k = 48 \<Longrightarrow> cipher (cpl r) (cpl k) = cipher r k"
  using perm4_range by (simp add: cipher_def permute_cpl exor_cpl_both)

lemma step_cpl:
  "length l = 32 \<Longrightarrow> length r = 32 \<Longrightarrow> length k = 48 \<Longrightarrow>
     des.step (cpl k) (cpl l, cpl r) = map_prod cpl cpl (des.step k (l, r))"
  by (simp add: des.step_def cipher_cpl exor_cpl)

lemma rounds_cpl:
  "des.halves s \<Longrightarrow> \<forall>k\<in>set ks. length k = 48 \<Longrightarrow>
     fold des.step (map cpl ks) (map_prod cpl cpl s) = map_prod cpl cpl (fold des.step ks s)"
proof (induction ks arbitrary: s)
  case (Cons k ks)
  obtain l r where s: "s = (l, r)" by (cases s)
  have "length l = 32" "length r = 32" using Cons.prems(1) unfolding s des.halves_def by (auto simp: bits_def)
  then have "des.step (cpl k) (map_prod cpl cpl s) = map_prod cpl cpl (des.step k s)"
    using Cons.prems(2) by (simp add: s step_cpl)
  with Cons des.halves_step show ?case by simp
qed simp

lemma bits_cpl: "bits n x \<Longrightarrow> bits n (cpl x)"
  by (auto simp: bits_def cpl_def)

lemma split32_cpl: "split32 (cpl x) = map_prod cpl cpl (split32 x)"
  by (simp add: split32_def cpl_def take_map drop_map)

lemma join32_cpl: "join32 (map_prod cpl cpl s) = cpl (join32 s)"
  by (cases s) (simp add: join32_def cpl_def)

lemma dohash_cpl:
  assumes b: "bits 64 inp" and k: "permute key' perm1 56 = cpl (permute key perm1 56)"
  shows "dohash (cpl inp) key' forw = cpl (dohash inp key forw)"
proof -
  define ks where "ks = (if forw then key_schedule key else rev (key_schedule key))"
  have ks: "(if forw then key_schedule key' else rev (key_schedule key')) = map cpl ks"
    by (simp add: ks_def key_schedule_cpl [OF k] rev_map)
  have l: "\<forall>k\<in>set ks. length k = 48" by (auto simp: ks_def key_schedule_def Let_def dest: round_keys_length)
  define x where "x = permute inp perm3 64"
  have x: "des.halves (split32 x)" unfolding x_def by (intro halves_split32 bits_permute [OF b perm3_range])
  have p: "permute (cpl inp) perm3 64 = cpl x"
    unfolding x_def using b perm3_range by (intro permute_cpl) (simp add: bits_def)
  have "length (join32 (fold des.step ks (split32 x))) = 64"
    using bits_join32 [OF des.halves_fold [OF x]] by (simp add: bits_def)
  then show ?thesis
    unfolding dohash_eq [OF b] dohash_eq [OF bits_cpl [OF b]] ks p ks_def [symmetric] x_def [symmetric]
      split32_cpl rounds_cpl [OF x l] join32_cpl
    using perm6_range by (intro permute_cpl) simp
qed

text \<open>The seven bits from position \<open>7 * a\<close> on lie in two neighbouring bytes.\<close>

lemma septet_bit:
  fixes x y :: byte
  assumes "0 < a" "a < 7" "b < 8"
  shows "bit (push_bit 1 (push_bit (7 - a) (x AND mask a) OR drop_bit (a + 1) y)) (7 - b) \<longleftrightarrow>
    b < 7 \<and> (if b < a then bit x (a - 1 - b) else bit y (7 + a - b))"
proof (cases "b < a")
  case True
  have "\<not> bit y (a + 1 + (7 - b - 1))" using True assms by (auto dest!: bit_imp_le_length)
  moreover have "7 - b - 1 - (7 - a) = a - 1 - b" using True assms by linarith
  ultimately show ?thesis
    using True assms by (simp only: bit_push_bit_iff bit_or_iff bit_and_iff bit_mask_iff bit_drop_bit_eq comp_apply possible_bit_word) auto
next
  case False
  then have "b < 7 \<Longrightarrow> a + 1 + (7 - b - 1) = 7 + a - b" using assms by linarith
  then show ?thesis
    using False assms by (simp only: bit_push_bit_iff bit_or_iff bit_and_iff bit_mask_iff bit_drop_bit_eq comp_apply possible_bit_word) auto
qed

lemma str_to_key_nth:
  assumes "0 < a" "a < 7"
  shows "str_to_key str ! a = push_bit 1 (push_bit (7 - a) (str ! (a - 1) AND mask a) OR drop_bit (a + 1) (str ! a))"
proof -
  have "a = 1 \<or> a = 2 \<or> a = 3 \<or> a = 4 \<or> a = 5 \<or> a = 6" using assms by linarith
  then show ?thesis by (elim disjE) (simp_all add: str_to_key_def mask_eq_exp_minus_1 eval_nat_numeral)
qed

lemma str_to_key_ends:
  "str_to_key str ! 0 = push_bit 1 (drop_bit 1 (str ! 0))" "str_to_key str ! 7 = push_bit 1 (str ! 6 AND mask 7)"
  by (simp_all add: str_to_key_def mask_eq_exp_minus_1)

lemma str_to_key_bit:
  assumes "a < 8" "b < 8"
  shows "bit (str_to_key str ! a) (7 - b) \<longleftrightarrow> b < 7 \<and> bit (str ! ((7 * a + b) div 8)) (7 - (7 * a + b) mod 8)"
proof (cases "b < a")
  case True
  then have "7 * a + b = 8 * (a - 1) + (8 - a + b)" "8 - a + b < 8" using assms by linarith+
  then have p: "(7 * a + b) div 8 = a - 1" "7 - (7 * a + b) mod 8 = a - 1 - b"
    using True assms by (simp_all only: div_mult_self4 mod_mult_self4 div_less mod_less)
  show ?thesis
  proof (cases "a = 7")
    case a: True
    show ?thesis using assms True unfolding p unfolding a str_to_key_ends
      by (simp only: bit_push_bit_iff bit_and_iff bit_mask_iff possible_bit_word) (auto simp: less_Suc_eq)
  next
    case False
    then have a: "0 < a" "a < 7" using True assms by linarith+
    show ?thesis unfolding p str_to_key_nth [OF a] septet_bit [OF a assms(2)] using True by simp
  qed
next
  case False
  then have "7 * a + b = 8 * a + (b - a)" "b - a < 8" using assms by linarith+
  then have p: "(7 * a + b) div 8 = a" "7 - (7 * a + b) mod 8 = 7 + a - b"
    using False assms by (simp_all only: div_mult_self4 mod_mult_self4 div_less mod_less)
  show ?thesis
  proof (cases "a = 0")
    case a: True
    have "1 + (7 - b - 1) = 7 - b" if "b < 7" using that by linarith
    then show ?thesis using assms unfolding p unfolding a str_to_key_ends
      by (simp only: bit_push_bit_iff bit_drop_bit_eq comp_apply possible_bit_word) auto
  next
    case a: False
    show ?thesis
    proof (cases "a = 7")
      case True
      then have "b = 7" using False assms by linarith
      then show ?thesis unfolding True str_to_key_ends by (simp only: bit_push_bit_iff) simp
    next
      case t: False
      then have a: "0 < a" "a < 7" using a assms by linarith+
      show ?thesis unfolding p str_to_key_nth [OF a] septet_bit [OF a assms(2)] using False by simp
    qed
  qed
qed

lemma spread_NOT: "length bs = 8 \<Longrightarrow> spread (map NOT bs) = cpl (spread bs)"
proof (rule nth_equalityI)
  assume l: "length bs = 8"
  then show "length (spread (map NOT bs)) = length (cpl (spread bs))" by (simp add: spread_def)
  fix i assume "i < length (spread (map NOT bs))"
  then have i: "i < 64" "i div 8 < 8" by (simp_all add: spread_def)
  then show "spread (map NOT bs) ! i = cpl (spread bs) ! i"
    using l by (simp add: cpl_def spread_nth bit_not_iff spread_def [THEN arg_cong, of length] bits_spread [unfolded bits_def])
qed

lemma collect_cpl: "bits 64 x \<Longrightarrow> collect (cpl x) = map NOT (collect x)"
proof (rule nth_equalityI)
  assume b: "bits 64 x"
  show "length (collect (cpl x)) = length (map NOT (collect x))" by (simp add: collect_bits)
  fix j assume "j < length (collect (cpl x))"
  then have j: "j < 8" by (simp add: collect_bits)
  show "collect (cpl x) ! j = map NOT (collect x) ! j"
  proof (rule bit_word_eqI)
    fix k assume "k < LENGTH(8)"
    then have k: "k < 8" by simp
    have i: "8 * j + (7 - k) < 64" using j k by linarith
    have "x ! (8 * j + (7 - k)) \<in> {0, 1}" "length x = 64" using bits_nth [OF b i] b by (auto simp: bits_def)
    then show "bit (collect (cpl x) ! j) k \<longleftrightarrow> bit (map NOT (collect x) ! j) k"
      using j k i by (auto simp: collect_bits cpl_def bit_not_iff)
  qed
qed

text \<open>The positions \<open>perm1\<close> selects are no parity bits.\<close>

lemma perm1_range: "\<forall>i<56. perm1 ! i - 1 < 64 \<and> (perm1 ! i - 1) mod 8 < 7"
  by (rule list_range) code_simp

lemma key_bits_NOT:
  assumes "7 \<le> length key"
  shows "permute (spread (str_to_key (map NOT key))) perm1 56 = cpl (permute (spread (str_to_key key)) perm1 56)"
proof -
  have "spread (str_to_key (map NOT key)) ! i = spread (str_to_key key) ! i XOR 1" if "i < 64" "i mod 8 < 7" for i
  proof -
    define a b where "a = i div 8" and "b = i mod 8"
    have ab: "a < 8" "b < 8" "b < 7" using that by (simp_all add: a_def b_def)
    then have "(7 * a + b) div 8 < length key" using assms by simp
    then show ?thesis
      using ab that(1) str_to_key_bit [OF ab(1,2)] by (simp add: spread_nth a_def [symmetric] b_def [symmetric] bit_not_iff)
  qed
  with perm1_range show ?thesis by (simp add: permute_def cpl_def)
qed

lemma smbhash_NOT:
  assumes "length inp = 8" "7 \<le> length key"
  shows "smbhash (map NOT inp) (map NOT key) forw = map NOT (smbhash inp key forw)"
  by (simp add: smbhash_def spread_NOT assms dohash_cpl [OF bits_spread key_bits_NOT] collect_cpl bits_dohash bits_spread)

text \<open>\<open>smbhash\<close> reads the first eight bytes of its input.\<close>

lemma smbhash_take: "8 \<le> length inp \<Longrightarrow> smbhash inp key forw = smbhash (take 8 inp) key forw"
proof -
  assume l: "8 \<le> length inp"
  then have "spread inp = spread (take 8 inp)"
    by (auto simp: spread_def)
  then show ?thesis by (simp add: smbhash_def)
qed

section \<open>RC4\<close>

text \<open>The state after \<open>n\<close> steps; it depends on the key alone.\<close>

definition rc4_state :: "byte list \<Rightarrow> nat \<Rightarrow> byte list \<times> byte \<times> byte" where
  "rc4_state key n = ((\<lambda>st. fst (rc4_step st)) ^^ n) (rc4_schedule key, 0, 0)"

definition rc4_key :: "byte list \<Rightarrow> nat \<Rightarrow> byte" where
  "rc4_key key n = snd (rc4_step (rc4_state key n))"

lemma rc4_loop:
  "n \<le> length data \<Longrightarrow>
     fold (\<lambda>ind (data, st). let (st1, k) = rc4_step st in (data[ind := data ! ind XOR k], st1))
       [0..<n] (data, rc4_schedule key, 0, 0)
     = (map (\<lambda>i. if i < n then data ! i XOR rc4_key key i else data ! i) [0..<length data], rc4_state key n)"
proof (induction n)
  case 0
  then show ?case by (simp add: rc4_state_def map_nth)
next
  case (Suc n)
  then show ?case
    by (auto simp: rc4_state_def rc4_key_def case_prod_beta Let_def nth_list_update intro!: nth_equalityI)
qed

lemma SamOEMhash_eq:
  assumes "(if val then 516 else 16) \<le> length data"
  shows "SamOEMhash data key val =
    map (\<lambda>i. if i < (if val then 516 else 16) then data ! i XOR rc4_key key i else data ! i) [0..<length data]"
  unfolding SamOEMhash_def rc4_loop [OF assms] by simp

lemma mset_swap_cells: "length s = 256 \<Longrightarrow> mset (swap_cells s i j) = mset s"
  unfolding swap_cells_def using unsigned_less [of i] unsigned_less [of j] by (intro mset_swap) simp_all

lemma length_swap_cells [simp]: "length (swap_cells s i j) = length s"
  by (simp add: swap_cells_def)

definition all_bytes :: "byte list" where
  "all_bytes = map word_of_nat [0..<256]"

lemma mset_rc4_schedule: "mset (rc4_schedule key) = mset all_bytes"
proof -
  have "mset (fst (fold (\<lambda>ind (s, j). let j1 = j + (s ! ind + key ! (ind mod 16)) in (swap_cells s (word_of_nat ind) j1, j1))
      inds (s, j))) = mset s" if "length s = 256" for inds s j
    using that by (induction inds arbitrary: s j) (simp_all add: Let_def mset_swap_cells)
  then show ?thesis by (simp add: rc4_schedule_def all_bytes_def)
qed

lemma mset_rc4_state: "mset (fst (rc4_state key n)) = mset all_bytes"
proof (induction n)
  case 0
  then show ?case by (simp add: rc4_state_def mset_rc4_schedule)
next
  case (Suc n)
  then have "length (fst (rc4_state key n)) = 256" using mset_eq_length [OF Suc] by (simp add: all_bytes_def)
  moreover have "fst (rc4_state key (Suc n)) = (let (s, i, j) = rc4_state key n in swap_cells s (i + 1) (j + s ! unat (i + 1)))"
    by (simp add: rc4_state_def rc4_step_def Let_def case_prod_beta)
  ultimately show ?case using Suc by (simp add: case_prod_beta Let_def mset_swap_cells)
qed

section \<open>Properties\<close>

text \<open>
  \<open>D_P16\<close> undoes \<open>E_old_pw_hash\<close>: the rounds with the key schedule in the opposite order decrypt,
  for every key, and the tables \<open>perm3\<close> and \<open>perm6\<close> are inverse to each other.
\<close>

theorem D_P16_inverse:
  assumes "length block = 16"
  shows "D_P16 p14 (E_old_pw_hash p14 block) = block"
proof -
  define x y where "x = take 8 block" and "y = drop 8 block"
  have xy: "length x = 8" "length y = 8" "block = x @ y" using assms by (simp_all add: x_def y_def)
  have "E_old_pw_hash p14 block = smbhash x p14 True @ smbhash y (drop 7 p14) True"
    using xy smbhash_take [of block] by (simp add: E_old_pw_hash_def)
  then show ?thesis
    using xy smbhash_inverse [OF xy(1), of p14 True] smbhash_inverse [OF xy(2), of "drop 7 p14" True]
    by (simp add: D_P16_def smbhash_take [of "smbhash x p14 True @ smbhash y (drop 7 p14) True"])
qed

theorem D_P16_inverse_witness:
  "D_P16 (replicate 14 0x5a) (E_old_pw_hash (replicate 14 0x5a) [1, 2, 3, 4, 5, 6, 7, 8, 9, 10, 11, 12, 13, 14, 15, 16])
    = [1, 2, 3, 4, 5, 6, 7, 8, 9, 10, 11, 12, 13, 14, 15, 16]"
  by (rule D_P16_inverse) simp

text \<open>
  The complementation property of DES: complementing the block and the seven key bytes
  complements the result. It ties together the key expansion of \<open>str_to_key\<close>, the key schedule,
  the rounds and the conversions between bytes and bits.
\<close>

theorem smbhash_complement:
  assumes "length inp = 8" and "7 \<le> length key"
  shows "smbhash (map NOT inp) (map NOT key) forw = map NOT (smbhash inp key forw)"
  by (rule smbhash_NOT) (fact assms)+

theorem smbhash_complement_witness:
  "smbhash (map NOT [1, 2, 3, 4, 5, 6, 7, 8]) (map NOT [9, 8, 7, 6, 5, 4, 3]) True
    = map NOT (smbhash [1, 2, 3, 4, 5, 6, 7, 8] [9, 8, 7, 6, 5, 4, 3] True)"
  by (rule smbhash_complement) simp_all

text \<open>
  \<open>SamOEMhash\<close> is its own inverse: the state of RC4 does not depend on the data, and each byte is
  combined with a byte of the key stream by exclusive or. Data behind the 516 or 16 bytes stays.
\<close>

theorem SamOEMhash_involution:
  assumes "(if val then 516 else 16) \<le> length data"
  shows "SamOEMhash (SamOEMhash data key val) key val = data"
proof -
  have "length (SamOEMhash data key val) = length data" using SamOEMhash_eq [OF assms] by simp
  then show ?thesis
    using assms by (auto simp: SamOEMhash_eq xor.assoc intro!: nth_equalityI)
qed

theorem SamOEMhash_involution_witness:
  "SamOEMhash (SamOEMhash (replicate 20 0x41) (replicate 16 7) False) (replicate 16 7) False = replicate 20 0x41"
  by (rule SamOEMhash_involution) simp

text \<open>
  The substitution table of RC4 is a permutation of the 256 byte values after the key schedule and
  after every step: the exchanges lose no value, whatever the key.
\<close>

theorem rc4_permutation: "mset (rc4_schedule key) = mset all_bytes \<and> mset (fst (rc4_state key n)) = mset all_bytes"
  by (simp add: mset_rc4_schedule mset_rc4_state)

end
