(* ===== verification/SmbMd4.thy ===== *)
theory SmbMd4
  imports Md5Spec
begin

section \<open>MD4 (smbmd4.c)\<close>

text \<open>
  The static variables \<open>A\<close> to \<open>D\<close> are a tuple. As in MD5 the four registers move on by one place
  from one step to the next.
\<close>

datatype md4round = ROUND1 | ROUND2 | ROUND3

fun md4f :: "md4round \<Rightarrow> u32 \<Rightarrow> u32 \<Rightarrow> u32 \<Rightarrow> u32" where
  "md4f ROUND1 X Y Z = (X AND Y) OR (NOT X AND Z)"
| "md4f ROUND2 X Y Z = (X AND Y) OR (X AND Z) OR (Y AND Z)"
| "md4f ROUND3 X Y Z = X XOR Y XOR Z"

fun md4k :: "md4round \<Rightarrow> u32" where
  "md4k ROUND1 = 0"
| "md4k ROUND2 = 0x5A827999"
| "md4k ROUND3 = 0x6ED9EBA1"

definition md4_lshift :: "u32 \<Rightarrow> nat \<Rightarrow> u32" where
  "md4_lshift x s = (let x1 = x AND 0xFFFFFFFF in (push_bit s x1 AND 0xFFFFFFFF) OR drop_bit (32 - s) x1)"

text \<open>The 48 calls: the macro, the index into \<open>X\<close> and the shift.\<close>

definition md4_steps :: "(md4round \<times> nat \<times> nat) list" where
  "md4_steps = [
    (ROUND1, 0, 3), (ROUND1, 1, 7), (ROUND1, 2, 11), (ROUND1, 3, 19),
    (ROUND1, 4, 3), (ROUND1, 5, 7), (ROUND1, 6, 11), (ROUND1, 7, 19),
    (ROUND1, 8, 3), (ROUND1, 9, 7), (ROUND1, 10, 11), (ROUND1, 11, 19),
    (ROUND1, 12, 3), (ROUND1, 13, 7), (ROUND1, 14, 11), (ROUND1, 15, 19),
    (ROUND2, 0, 3), (ROUND2, 4, 5), (ROUND2, 8, 9), (ROUND2, 12, 13),
    (ROUND2, 1, 3), (ROUND2, 5, 5), (ROUND2, 9, 9), (ROUND2, 13, 13),
    (ROUND2, 2, 3), (ROUND2, 6, 5), (ROUND2, 10, 9), (ROUND2, 14, 13),
    (ROUND2, 3, 3), (ROUND2, 7, 5), (ROUND2, 11, 9), (ROUND2, 15, 13),
    (ROUND3, 0, 3), (ROUND3, 8, 9), (ROUND3, 4, 11), (ROUND3, 12, 15),
    (ROUND3, 2, 3), (ROUND3, 10, 9), (ROUND3, 6, 11), (ROUND3, 14, 15),
    (ROUND3, 1, 3), (ROUND3, 9, 9), (ROUND3, 5, 11), (ROUND3, 13, 15),
    (ROUND3, 3, 3), (ROUND3, 11, 9), (ROUND3, 7, 11), (ROUND3, 15, 15)]"

definition md4_step ::
  "u32 list \<Rightarrow> md4round \<times> nat \<times> nat \<Rightarrow> u32 \<times> u32 \<times> u32 \<times> u32 \<Rightarrow> u32 \<times> u32 \<times> u32 \<times> u32" where
  "md4_step X = (\<lambda>(r, k, s) (a, b, c, d). (d, md4_lshift (a + md4f r b c d + X ! k + md4k r) s, b, c))"

definition mdfour64 :: "u32 \<times> u32 \<times> u32 \<times> u32 \<Rightarrow> u32 list \<Rightarrow> u32 \<times> u32 \<times> u32 \<times> u32" where
  "mdfour64 = (\<lambda>(AA, BB, CC, DD) M.
     let (A, B, C, D) = fold (md4_step (map (\<lambda>j. M ! j) [0..<16])) md4_steps (AA, BB, CC, DD) in
     ((A + AA) AND 0xFFFFFFFF, (B + BB) AND 0xFFFFFFFF, (C + CC) AND 0xFFFFFFFF, (D + DD) AND 0xFFFFFFFF))"

definition copy64 :: "byte list \<Rightarrow> u32 list" where
  "copy64 inp = map (\<lambda>i. push_bit 24 (ucast (inp ! (i * 4 + 3))) OR push_bit 16 (ucast (inp ! (i * 4 + 2)))
     OR push_bit 8 (ucast (inp ! (i * 4 + 1))) OR ucast (inp ! (i * 4))) [0..<16]"

definition copy4 :: "u32 \<Rightarrow> byte list" where
  "copy4 x = [ucast (x AND 0xFF), ucast (drop_bit 8 x AND 0xFF), ucast (drop_bit 16 x AND 0xFF), ucast (drop_bit 24 x AND 0xFF)]"

text \<open>The loop: a block is taken while more than 64 bytes are left.\<close>

function md4_blocks :: "u32 \<times> u32 \<times> u32 \<times> u32 \<Rightarrow> byte list \<Rightarrow> (u32 \<times> u32 \<times> u32 \<times> u32) \<times> byte list" where
  "md4_blocks h inp = (if length inp > 64 then md4_blocks (mdfour64 h (copy64 inp)) (drop 64 inp) else (h, inp))"
  by pat_completeness auto
termination
  by (relation "measure (\<lambda>(h, inp). length inp)") auto

declare md4_blocks.simps [simp del]

definition mdfour :: "byte list \<Rightarrow> byte list" where
  "mdfour data =
     (let b = (word_of_nat (length data) * 8 :: u32);
          (h, inp) = md4_blocks (0x67452301, 0xefcdab89, 0x98badcfe, 0x10325476) data;
          n = length inp;
          buf = (overwrite (replicate 128 0) 0 inp)[n := 0x80];
          (A, B, C, D) =
            (if n \<le> 55 then mdfour64 h (copy64 (overwrite buf 56 (copy4 b)))
             else
               let buf1 = overwrite buf 120 (copy4 b) in
               mdfour64 (mdfour64 h (copy64 buf1)) (copy64 (drop 64 buf1))) in
      copy4 A @ copy4 B @ copy4 C @ copy4 D)"

section \<open>The digest of RFC 1320\<close>

text \<open>
  Blocks of 64 bytes are absorbed one after the other; the padding is the one of MD5
  (\<open>md5_pad\<close>), with a 64-bit count of the bits.
\<close>

function md4_absorb :: "u32 \<times> u32 \<times> u32 \<times> u32 \<Rightarrow> byte list \<Rightarrow> u32 \<times> u32 \<times> u32 \<times> u32" where
  "md4_absorb h m = (if length m \<ge> 64 then md4_absorb (mdfour64 h (copy64 (take 64 m))) (drop 64 m) else h)"
  by pat_completeness auto
termination
  by (relation "measure (\<lambda>(h, m). length m)") auto

declare md4_absorb.simps [simp del]

definition md4_iv :: "u32 \<times> u32 \<times> u32 \<times> u32" where
  "md4_iv = (0x67452301, 0xefcdab89, 0x98badcfe, 0x10325476)"

definition md4_spec :: "byte list \<Rightarrow> byte list" where
  "md4_spec m = (case md4_absorb md4_iv (md5_pad m) of (a, b, c, d) \<Rightarrow> le_bytes a @ le_bytes b @ le_bytes c @ le_bytes d)"

lemma copy4_le: "copy4 x = le_bytes x"
proof -
  have m: "(0xFF :: u32) = mask 8" by (simp add: mask_eq_exp_minus_1)
  have "ucast (w AND 0xFF) = (ucast w :: byte)" for w :: u32
    unfolding m by (auto intro!: bit_word_eqI simp: bit_simps)
  then show ?thesis by (simp add: copy4_def le_bytes_def)
qed

lemma copy64_append: "length b = 64 \<Longrightarrow> copy64 (b @ m) = copy64 b"
  by (auto simp: copy64_def nth_append)

lemma md4_absorb_block: "length b = 64 \<Longrightarrow> md4_absorb h (b @ m) = md4_absorb (mdfour64 h (copy64 b)) m"
  by (simp add: md4_absorb.simps [of h "b @ m"])

lemma md4_absorb_Nil [simp]: "md4_absorb h [] = h"
  by (simp add: md4_absorb.simps)

lemma md4_blocks_absorb:
  "md4_blocks h m = (h', r) \<Longrightarrow>
     md4_absorb h (m @ t) = md4_absorb h' (r @ t) \<and> length r \<le> 64 \<and> length m mod 64 = length r mod 64"
proof (induction h m rule: md4_blocks.induct)
  case (1 h m)
  show ?case
  proof (cases "length m > 64")
    case False
    with "1.prems" show ?thesis by (simp add: md4_blocks.simps [of h m])
  next
    case True
    then have t: "length (take 64 m) = 64" by simp
    have "md4_blocks (mdfour64 h (copy64 m)) (drop 64 m) = (h', r)"
      using "1.prems" True by (simp add: md4_blocks.simps [of h m])
    note IH = "1.IH" [OF True this]
    have "copy64 m = copy64 (take 64 m)" using copy64_append [OF t, of "drop 64 m"] by simp
    moreover have "m @ t = take 64 m @ (drop 64 m @ t)" by simp
    ultimately have "md4_absorb h (m @ t) = md4_absorb (mdfour64 h (copy64 m)) (drop 64 m @ t)"
      using md4_absorb_block [OF t] by metis
    moreover have "length (drop 64 m) mod 64 = length m mod 64" using True by (simp add: le_mod_geq)
    ultimately show ?thesis using IH by simp
  qed
qed

text \<open>The last one or two blocks, for what is left of the message.\<close>

definition md4_tail :: "nat \<Rightarrow> byte list \<Rightarrow> byte list" where
  "md4_tail n lens = [0x80] @ replicate ((119 - n mod 64) mod 64) 0 @ lens @ replicate 4 0"

lemma md4_buffer:
  "length r \<le> 64 \<Longrightarrow> (overwrite (replicate 128 0) 0 r)[length r := x] = r @ x # replicate (127 - length r) (0::byte)"
proof -
  assume l: "length r \<le> 64"
  then have "replicate (128 - length r) (0::byte) = 0 # replicate (127 - length r) 0"
    by (simp flip: replicate_Suc add: Suc_diff_le)
  with l show ?thesis by (simp add: overwrite_def list_update_append)
qed

lemma overwrite_middle: "length b = length xs \<Longrightarrow> overwrite (a @ b @ c) (length a) xs = a @ xs @ c"
  by (simp add: overwrite_def)

lemma md4_short:
  assumes "length r \<le> 55" "length lens = 4"
  shows "overwrite (r @ x # replicate (127 - length r) 0) 56 lens = (r @ x # replicate (55 - length r) 0 @ lens @ replicate 4 0) @ replicate 64 (0::byte)"
proof -
  have "replicate (127 - length r) (0::byte) = replicate (55 - length r) 0 @ replicate 4 0 @ replicate 4 0 @ replicate 64 0"
    using assms by (simp flip: replicate_add)
  then show ?thesis
    using overwrite_middle [of "replicate 4 0" lens "r @ x # replicate (55 - length r) 0" "replicate 4 0 @ replicate 64 0"] assms
    by simp
qed

lemma md4_long:
  assumes "length r \<le> 64" "length lens = 4"
  shows "overwrite (r @ x # replicate (127 - length r) 0) 120 lens = r @ x # replicate (119 - length r) 0 @ lens @ replicate 4 (0::byte)"
proof -
  have "replicate (127 - length r) (0::byte) = replicate (119 - length r) 0 @ replicate 4 0 @ replicate 4 0"
    using assms by (simp flip: replicate_add)
  then show ?thesis
    using overwrite_middle [of "replicate 4 0" lens "r @ x # replicate (119 - length r) 0" "replicate 4 0"] assms
    by simp
qed

lemma mdfour_eq:
  assumes "length data < 2 ^ 28"
  shows "mdfour data = md4_spec data"
proof -
  obtain h r where b: "md4_blocks md4_iv data = (h, r)" by fastforce
  define lens where "lens = le_bytes (word_of_nat (8 * length data))"
  have lens: "length lens = 4" "copy4 (word_of_nat (length data) * 8) = lens"
    by (simp_all add: lens_def le_bytes_def copy4_le mult.commute)
  note a = md4_blocks_absorb [OF b, of "md4_tail (length r) lens"]
  have z: "8 * length data div 2 ^ 32 = 0" using assms by simp
  have "le_bytes (word_of_nat 0) = replicate 4 0" by (simp add: le_bytes_def numeral_eq_Suc)
  then have "md5_pad data = data @ md4_tail (length r) lens"
    using a unfolding md5_pad_def md4_tail_def lens_def z by simp
  then have pad: "md4_absorb md4_iv (md5_pad data) = md4_absorb h (r @ md4_tail (length r) lens)" using a by simp
  define buf where "buf = r @ 0x80 # replicate (127 - length r) (0::byte)"
  define res where "res = (if length r \<le> 55 then mdfour64 h (copy64 (overwrite buf 56 lens))
     else let buf1 = overwrite buf 120 lens in mdfour64 (mdfour64 h (copy64 buf1)) (copy64 (drop 64 buf1)))"
  have "res = md4_absorb h (r @ md4_tail (length r) lens)"
  proof (cases "length r \<le> 55")
    case True
    define blk where "blk = r @ 0x80 # replicate (55 - length r) 0 @ lens @ replicate 4 0"
    have "length blk = 64" using True lens by (simp add: blk_def)
    moreover have "(119 - length r mod 64) mod 64 = 55 - length r"
      using True mod_add_self1 [of 64 "55 - length r"] by simp
    then have "r @ md4_tail (length r) lens = blk" by (simp add: md4_tail_def blk_def)
    moreover have "overwrite buf 56 lens = blk @ replicate 64 0"
      unfolding buf_def blk_def using md4_short [OF True lens(1)] by simp
    ultimately show ?thesis
      using True md4_absorb_block [of blk h "[]"] by (simp add: res_def copy64_append)
  next
    case False
    define buf1 where "buf1 = r @ 0x80 # replicate (119 - length r) 0 @ lens @ replicate 4 0"
    have l: "length buf1 = 128" using False a lens by (simp add: buf1_def)
    have "(119 - length r mod 64) mod 64 = 119 - length r"
      using False a by (cases "length r = 64") simp_all
    then have "r @ md4_tail (length r) lens = buf1" by (simp add: md4_tail_def buf1_def)
    moreover have "overwrite buf 120 lens = buf1"
      unfolding buf_def buf1_def using md4_long [OF _ lens(1)] a by simp
    moreover have "copy64 buf1 = copy64 (take 64 buf1)"
      using copy64_append [of "take 64 buf1" "drop 64 buf1"] l by simp
    moreover have "md4_absorb h buf1 = mdfour64 (mdfour64 h (copy64 (take 64 buf1))) (copy64 (drop 64 buf1))"
      using md4_absorb_block [of "take 64 buf1" h "drop 64 buf1"] md4_absorb_block [of "drop 64 buf1" _ "[]"] l by simp
    ultimately show ?thesis using False by (simp add: res_def)
  qed
  moreover have "mdfour data = (case res of (A, B, C, D) \<Rightarrow> copy4 A @ copy4 B @ copy4 C @ copy4 D)"
    unfolding mdfour_def md4_iv_def [symmetric] b Let_def prod.case
    using a md4_buffer [of r "0x80"] by (simp add: lens res_def buf_def Let_def)
  ultimately show ?thesis by (simp add: md4_spec_def pad copy4_le)
qed

lemma length_mdfour [simp]: "length (mdfour data) = 16"
  by (simp add: mdfour_def Let_def copy4_def split: prod.splits)

section \<open>Properties\<close>



text \<open>
  The 48 steps use the words of the block in the order of RFC 1320: one after the other, by
  columns, and with the bits of the index reversed; the shifts are those of the RFC.
\<close>

definition rfc1320_step :: "nat \<Rightarrow> md4round \<times> nat \<times> nat" where
  "rfc1320_step j =
     (let n = j mod 4; q = j mod 16 in
      if j < 16 then (ROUND1, q, [3, 7, 11, 19] ! n)
      else if j < 32 then (ROUND2, 4 * n + q div 4, [3, 5, 9, 13] ! n)
      else (ROUND3, 8 * (q mod 2) + 4 * (q div 2 mod 2) + 2 * (q div 4 mod 2) + q div 8, [3, 9, 11, 15] ! n))"

theorem md4_steps_rfc1320: "md4_steps = map rfc1320_step [0..<48]"
  by code_simp

end
