(* ===== verification/SmbEncrypt.thy ===== *)
theory SmbEncrypt
  imports Cram SmbDesSpec SmbMd4
begin

section \<open>LM and NT password hashes (smbencrypt.c)\<close>

text \<open>
  Passwords are C strings, the arrays the functions declare are buffers with unknown contents
  (the parameters \<open>p14\<close> and \<open>wpwd\<close>), and an access outside one of them is \<open>None\<close>.
\<close>

subsection \<open>Strings\<close>

text \<open>\<open>while (n-- && (*d++ = *src++));\<close> gives the buffer and the position of \<open>d\<close>.\<close>

fun StrnCpy_loop :: "string \<Rightarrow> nat \<Rightarrow> string \<Rightarrow> nat \<Rightarrow> (string \<times> nat) option" where
  "StrnCpy_loop buf d src 0 = Some (buf, d)"
| "StrnCpy_loop buf d src (Suc n) = do {
     buf1 \<leftarrow> poke buf d (char_at src 0);
     if char_at src 0 = NUL then Some (buf1, d + 1) else StrnCpy_loop buf1 (d + 1) (tl src) n
   }"

definition StrnCpy :: "string option \<Rightarrow> string option \<Rightarrow> nat \<Rightarrow> string option option" where
  "StrnCpy dest src n =
     (case dest of
        None \<Rightarrow> Some None
      | Some buf \<Rightarrow>
          (case src of
             None \<Rightarrow> map_option Some (poke buf 0 NUL)
           | Some s \<Rightarrow> do { (buf1, d) \<leftarrow> StrnCpy_loop buf 0 s n; map_option Some (poke buf1 d NUL) }))"

definition skip_multibyte_char :: "char \<Rightarrow> nat" where
  "skip_multibyte_char c = 0"

text \<open>The loop of \<open>strupper\<close> from one position of the buffer on; \<open>None\<close> when there is no NUL.\<close>

fun strupper :: "string \<Rightarrow> string option" where
  "strupper [] = None"
| "strupper (c # s) =
     (if c = NUL then Some (c # s)
      else if skip_multibyte_char c \<noteq> 0 then None
      else map_option ((#) (if islower c then toupper c else c)) (strupper s))"

subsection \<open>Hashes\<close>

definition SMBOWFencrypt :: "byte list \<Rightarrow> byte list \<Rightarrow> byte list" where
  "SMBOWFencrypt passwd c8 = E_P24 (overwrite (replicate 21 0) 0 (take 16 passwd)) c8"

definition SMBencrypt :: "string \<Rightarrow> string \<Rightarrow> byte list \<Rightarrow> byte list option" where
  "SMBencrypt p14 passwd c8 = do {
     r \<leftarrow> StrnCpy (Some (overwrite p14 0 (replicate 14 NUL))) (Some passwd) 14;
     p14' \<leftarrow> r;
     p14'' \<leftarrow> strupper p14';
     let p21 = overwrite (replicate 21 0) 0 (E_P16 (bytes_of p14''));
     Some (SMBOWFencrypt p21 c8)
   }"

fun my_wcslen :: "16 word list \<Rightarrow> nat option" where
  "my_wcslen [] = None"
| "my_wcslen (w # ws) = (if w \<noteq> 0 then map_option Suc (my_wcslen ws) else Some 0)"

text \<open>\<open>_my_mbstowcs\<close>: \<open>i\<close> counts up to \<open>len\<close>; the result is the array and the final \<open>i\<close>.\<close>

fun my_mbstowcs :: "16 word list \<Rightarrow> nat \<Rightarrow> string \<Rightarrow> nat \<Rightarrow> (16 word list \<times> nat) option" where
  "my_mbstowcs dst i src 0 = Some (dst, i)"
| "my_mbstowcs dst i src (Suc len) = do {
     let val = (word_of_nat (code (char_at src 0)) :: 16 word);
     dst1 \<leftarrow> poke dst i val;
     if val = 0 then Some (dst1, i) else my_mbstowcs dst1 (i + 1) (tl src) len
   }"

text \<open>The bytes of the array, little-endian.\<close>

definition le16 :: "16 word \<Rightarrow> byte list" where
  "le16 w = [ucast w, ucast (drop_bit 8 w)]"

definition E_md4hash :: "16 word list \<Rightarrow> string \<Rightarrow> byte list option" where
  "E_md4hash wpwd passwd = do {
     let len = (if length passwd > 128 then 128 else length passwd);
     (w1, _) \<leftarrow> my_mbstowcs wpwd 0 passwd len;
     w2 \<leftarrow> poke w1 len 0;
     n \<leftarrow> my_wcslen w2;
     Some (mdfour (take (n * 2) (concat (map le16 w2))))
   }"

definition SMBNTencrypt :: "16 word list \<Rightarrow> string \<Rightarrow> byte list \<Rightarrow> byte list option" where
  "SMBNTencrypt wpwd passwd c8 = do {
     h \<leftarrow> E_md4hash wpwd passwd;
     let p21 = overwrite (replicate 21 0) 0 h;
     Some (SMBOWFencrypt p21 c8)
   }"

section \<open>What they compute\<close>

lemma overwrite_one: "d < length buf \<Longrightarrow> overwrite buf d [x] = buf[d := x]"
  by (simp add: overwrite_def upd_conv_take_nth_drop)

lemma StrnCpy_loop_eq:
  "c_string s \<Longrightarrow> d + n < length buf \<Longrightarrow>
     StrnCpy_loop buf d s n =
       Some (if length s < n then (overwrite buf d (s @ [NUL]), d + length s + 1) else (overwrite buf d (take n s), d + n))"
proof (induction buf d s n rule: StrnCpy_loop.induct)
  case (1 buf d src)
  then show ?case by simp
next
  case (2 buf d src n)
  show ?case
  proof (cases src)
    case Nil
    with 2 show ?thesis by (simp add: overwrite_one)
  next
    case (Cons c cs)
    with 2 show ?thesis by (auto simp: c_string_Cons overwrite_update)
  qed
qed

lemma strupper_eq: "c_string s \<Longrightarrow> strupper (s @ NUL # t) = Some (map toupper s @ NUL # t)"
  by (induction s) (auto simp: c_string_Cons skip_multibyte_char_def toupper_def)

lemma c_string_take: "c_string s \<Longrightarrow> c_string (take n s)"
  by (auto simp: c_string_def dest: in_set_takeD)

text \<open>The password in the 15 cells of \<open>p14\<close>.\<close>

lemma p14_filled:
  assumes p: "length p14 = 15" and s: "c_string s"
  obtains t where "StrnCpy (Some (overwrite p14 0 (replicate 14 NUL))) (Some s) 14 = Some (Some (take 14 s @ NUL # t))"
    and "take 14 (take 14 s @ NUL # t) = take 14 (s @ replicate 14 NUL)" and "length (take 14 s @ NUL # t) = 15"
proof -
  define buf where "buf = overwrite p14 0 (replicate 14 NUL)"
  have buf: "buf = replicate 14 NUL @ [p14 ! 14]" "length buf = 15"
    using p by (auto simp: buf_def overwrite_def Cons_nth_drop_Suc [symmetric])
  note loop = StrnCpy_loop_eq [OF s, of 0 14 buf]
  show ?thesis
  proof (cases "length s < 14")
    case True
    let ?b = "(overwrite buf 0 (s @ [NUL]))[length s + 1 := NUL]"
    have r: "StrnCpy (Some buf) (Some s) 14 = Some (Some ?b)"
      using True buf loop by (simp add: StrnCpy_def)
    have "?b = overwrite buf 0 ((s @ [NUL]) @ [NUL])"
      using overwrite_snoc [of 0 "s @ [NUL]" buf NUL] True buf by simp
    also have "\<dots> = s @ NUL # (NUL # drop (length s + 2) buf)" by (simp add: overwrite_def)
    finally have b: "?b = take 14 s @ NUL # (NUL # drop (length s + 2) buf)" using True by simp
    have "take (13 - length s) (NUL # drop (length s + 2) buf) = replicate (13 - length s) NUL"
      using True buf by (cases "13 - length s") (auto simp: take_Cons')
    moreover have "replicate (14 - length s) NUL = NUL # replicate (13 - length s) NUL"
      using True by (simp flip: replicate_Suc add: Suc_diff_le)
    ultimately have "take 14 ?b = take 14 (s @ replicate 14 NUL)" unfolding b using True by (simp add: take_Cons')
    with r b buf True show ?thesis by (intro that [of "NUL # drop (length s + 2) buf"]) (auto simp: buf_def)
  next
    case False
    have "(overwrite buf 0 (take 14 s))[14 := NUL] = take 14 s @ NUL # []"
      using False buf by (simp add: overwrite_def list_update_append)
    with False buf loop show ?thesis
      by (intro that [of "[]"]) (simp_all add: StrnCpy_def buf_def)
  qed
qed

lemma E_P16_take: "14 \<le> length p \<Longrightarrow> E_P16 p = E_P16 (take 14 p)"
  by (simp add: E_P16_def smbhash_def str_to_key_def)

definition lm_hash :: "string \<Rightarrow> byte list" where
  "lm_hash passwd = E_P16 (bytes_of (take 14 (map toupper passwd @ replicate 14 NUL)))"

lemma SMBencrypt_eq:
  assumes "length p14 = 15" "c_string passwd"
  shows "SMBencrypt p14 passwd c8 = Some (SMBOWFencrypt (lm_hash passwd @ replicate 5 0) c8)"
proof -
  define u where "u = take 14 passwd"
  obtain t where t: "StrnCpy (Some (overwrite p14 0 (replicate 14 NUL))) (Some passwd) 14 = Some (Some (u @ NUL # t))"
    "take 14 (u @ NUL # t) = take 14 (passwd @ replicate 14 NUL)" "length (u @ NUL # t) = 15"
    using p14_filled [OF assms] unfolding u_def by blast
  have u: "c_string u" unfolding u_def using assms(2) by (rule c_string_take)
  define q where "q = map toupper u @ NUL # t"
  have q: "length q = 15" using t(3) by (simp add: q_def)
  have "take 14 q = take 14 (map toupper passwd @ replicate 14 NUL)"
  proof -
    have "drop (length u) (take 14 (u @ NUL # t)) = drop (length u) (take 14 (passwd @ replicate 14 NUL))"
      using t(2) by simp
    then have "take (14 - length u) (NUL # t) = replicate (14 - length u) NUL"
      by (cases "length passwd < 14") (simp_all add: u_def)
    then show ?thesis by (cases "length passwd < 14") (simp_all add: q_def u_def take_map)
  qed
  then have "E_P16 (bytes_of q) = lm_hash passwd"
    using q E_P16_take [of "bytes_of q"] by (simp add: lm_hash_def bytes_of_def take_map)
  moreover have "length (lm_hash passwd) = 16" by (simp add: lm_hash_def E_P16_def Let_def)
  ultimately show ?thesis
    using strupper_eq [OF u, of t] unfolding SMBencrypt_def t(1) by (simp add: q_def [symmetric] overwrite_def)
qed

subsection \<open>NT\<close>

lemma unat_word16_code: "unat (word_of_nat (code c) :: 16 word) = code c"
  using code_less [of c] by (simp add: unsigned_of_nat take_bit_eq_mod mod_less [OF less_trans [OF code_less]] div_less [OF code_less])

lemma word16_code_0: "(word_of_nat (code c) :: 16 word) = 0 \<longleftrightarrow> c = NUL"
proof -
  have "(word_of_nat (code c) :: 16 word) = 0 \<longleftrightarrow> code c = code NUL"
    using unat_word16_code [of c] by (auto simp: code_def)
  then show ?thesis by simp
qed

lemma my_mbstowcs_eq:
  "c_string s \<Longrightarrow> n \<le> length s \<Longrightarrow> i + n \<le> length dst \<Longrightarrow>
     my_mbstowcs dst i s n = Some (overwrite dst i (map (\<lambda>c. word_of_nat (code c)) (take n s)), i + n)"
proof (induction dst i s n rule: my_mbstowcs.induct)
  case (1 dst i src)
  then show ?case by simp
next
  case (2 dst i src n)
  obtain c cs where src: "src = c # cs" using "2.prems" by (cases src) auto
  have "(word_of_nat (code c) :: 16 word) \<noteq> 0" using "2.prems" unfolding src by (simp add: c_string_Cons word16_code_0)
  with 2 src show ?case by (auto simp: c_string_Cons overwrite_update)
qed

lemma my_wcslen_eq: "0 \<notin> set ws \<Longrightarrow> my_wcslen (ws @ 0 # r) = Some (length ws)"
  by (induction ws) auto

definition nt_bytes :: "string \<Rightarrow> byte list" where
  "nt_bytes s = concat (map (\<lambda>c. [word_of_nat (code c), 0]) s)"

lemma length_nt_bytes [simp]: "length (nt_bytes s) = 2 * length s"
  by (induction s) (simp_all add: nt_bytes_def)

lemma le16_char: "le16 (word_of_nat (code c)) = [word_of_nat (code c), 0]"
proof -
  have "drop_bit 8 (word_of_nat (code c) :: 16 word) = 0"
    using code_less [of c] unat_word16_code [of c]
    by (simp only: word_unat_eq_iff unsigned_drop_bit_eq) (simp add: drop_bit_eq_div take_bit_eq_mod mod_less [OF less_trans [OF code_less]] div_less [OF code_less])
  moreover have "ucast (word_of_nat (code c) :: 16 word) = (word_of_nat (code c) :: byte)"
    using code_less [of c] unat_word16_code [of c] by (simp add: word_unat_eq_iff unsigned_ucast_eq unsigned_of_nat take_bit_eq_mod mod_less [OF less_trans [OF code_less]] div_less [OF code_less])
  ultimately show ?thesis by (simp add: le16_def)
qed

lemma E_md4hash_eq:
  assumes w: "length wpwd = 129" and s: "c_string passwd"
  shows "E_md4hash wpwd passwd = Some (mdfour (nt_bytes (take 128 passwd)))"
proof -
  define len where "len = (if length passwd > 128 then 128 else length passwd)"
  define ws where "ws = map (\<lambda>c. word_of_nat (code c) :: 16 word) (take len passwd)"
  have len: "len \<le> length passwd" "len \<le> 128" "length ws = len" "take len passwd = take 128 passwd"
    by (simp_all add: len_def ws_def)
  have m: "my_mbstowcs wpwd 0 passwd len = Some (overwrite wpwd 0 ws, len)"
    using my_mbstowcs_eq [OF s, of len 0 wpwd] len w by (simp add: ws_def)
  have p: "poke (overwrite wpwd 0 ws) len 0 = Some (ws @ 0 # drop (len + 1) wpwd)"
    using overwrite_snoc [of 0 ws wpwd 0] len w by (simp add: overwrite_def)
  have "(word_of_nat (code c) :: 16 word) \<noteq> 0" if "c \<in> set passwd" for c
    using s that by (auto simp: c_string_def word16_code_0)
  then have "0 \<notin> set ws" unfolding ws_def by (auto dest!: in_set_takeD)
  then have l: "my_wcslen (ws @ 0 # drop (len + 1) wpwd) = Some len" using my_wcslen_eq len by simp
  have "concat (map le16 ws) = nt_bytes (take 128 passwd)"
    by (simp add: ws_def nt_bytes_def comp_def le16_char len)
  moreover have "length (nt_bytes (take 128 passwd)) = len * 2" using len by (simp add: len_def)
  ultimately show ?thesis
    unfolding E_md4hash_def Let_def len_def [symmetric] using l by (simp add: m p)
qed

lemma SMBencrypt_Some:
  "length p14 = 15 \<Longrightarrow> c_string pw \<Longrightarrow> SMBencrypt p14 pw c8 = Some (E_P24 (lm_hash pw @ replicate 5 0) c8)"
  by (simp add: SMBencrypt_eq SMBOWFencrypt_def overwrite_def lm_hash_def E_P16_def Let_def numeral_eq_Suc)

lemma SMBNTencrypt_Some:
  assumes "length wpwd = 129" "c_string pw"
  shows "SMBNTencrypt wpwd pw c8 = Some (E_P24 (md4_spec (nt_bytes (take 128 pw)) @ replicate 5 0) c8)"
proof -
  have "mdfour (nt_bytes (take 128 pw)) = md4_spec (nt_bytes (take 128 pw))" by (rule mdfour_eq) simp
  then show ?thesis
    using length_mdfour [of "nt_bytes (take 128 pw)"]
    by (simp add: SMBNTencrypt_def E_md4hash_eq assms SMBOWFencrypt_def overwrite_def numeral_eq_Suc)
qed

section \<open>Properties\<close>

text \<open>
  The LM response: the password in upper case, cut or padded with NUL to 14 characters, gives two
  DES keys; the 16-byte hash, padded to 21 bytes, gives the three keys that encrypt the challenge.
  What was in the array before does not matter, and no access is outside of it.
\<close>

theorem SMBencrypt_lm:
  assumes "length p14 = 15" and "c_string passwd"
  shows "SMBencrypt p14 passwd c8 = Some (E_P24 (lm_hash passwd @ replicate 5 0) c8)"
  by (rule SMBencrypt_Some) (fact assms)+

theorem SMBencrypt_lm_witness:
  "SMBencrypt (replicate 15 CHR ''x'') ''Secret'' (replicate 8 1) = Some (E_P24 (lm_hash ''Secret'' @ replicate 5 0) (replicate 8 1))"
  by (rule SMBencrypt_lm) (simp_all add: c_string_def)

text \<open>
  The NT response: the hash is MD4 of the first 128 characters of the password in UTF-16, each
  character a byte and a zero byte. Neither loop leaves the array of 129 cells.
\<close>

theorem SMBNTencrypt_nt:
  assumes "length wpwd = 129" and "c_string passwd"
  shows "SMBNTencrypt wpwd passwd c8 = Some (E_P24 (md4_spec (nt_bytes (take 128 passwd)) @ replicate 5 0) c8)"
  by (rule SMBNTencrypt_Some) (fact assms)+

theorem SMBNTencrypt_nt_witness:
  "SMBNTencrypt (replicate 129 7) ''Secret'' (replicate 8 1)
    = Some (E_P24 (md4_spec (nt_bytes (take 128 ''Secret'')) @ replicate 5 0) (replicate 8 1))"
  by (rule SMBNTencrypt_nt) (simp_all add: c_string_def)

end
