(* ===== verification/Ntlm.thy ===== *)
theory Ntlm
  imports SmbEncrypt
begin

section \<open>NTLM messages and dialogue (smbutil.c, ntlmsubr.c)\<close>

text \<open>
  A message the client builds is a structure of fixed fields, a buffer of 1024 bytes and the index
  of its first free byte; the fixed fields are their bytes in memory, little-endian. The challenge
  of the server is the memory of its structure, 1076 bytes. Structures start with unknown contents.
\<close>

record ntlm_msg =
  fixed :: "byte list"
  mbuf :: "byte list"
  bufIndex :: nat

text \<open>Offsets of the fields in the three structures of ntlm.h.\<close>

definition req_user :: nat where "req_user = 16"
definition req_domain :: nat where "req_domain = 24"

definition ch_msgType :: nat where "ch_msgType = 8"
definition ch_uDomain :: nat where "ch_uDomain = 12"
definition ch_flags :: nat where "ch_flags = 20"
definition ch_data :: nat where "ch_data = 24"

definition resp_lm :: nat where "resp_lm = 12"
definition resp_nt :: nat where "resp_nt = 20"
definition resp_uDomain :: nat where "resp_uDomain = 28"
definition resp_uUser :: nat where "resp_uUser = 36"
definition resp_uWks :: nat where "resp_uWks = 44"
definition resp_sessionKey :: nat where "resp_sessionKey = 52"
definition resp_flags :: nat where "resp_flags = 60"

lemmas ntlm_offsets = req_user_def req_domain_def ch_msgType_def ch_uDomain_def ch_flags_def ch_data_def
  resp_lm_def resp_nt_def resp_uDomain_def resp_uUser_def resp_uWks_def resp_sessionKey_def resp_flags_def

definition SIVAL :: "byte list \<Rightarrow> nat \<Rightarrow> u32 \<Rightarrow> byte list" where
  "SIVAL mem pos v = overwrite mem pos (le_bytes v)"

definition SSVAL :: "byte list \<Rightarrow> nat \<Rightarrow> 16 word \<Rightarrow> byte list" where
  "SSVAL mem pos v = overwrite mem pos (le16 v)"

definition SVAL :: "byte list \<Rightarrow> nat \<Rightarrow> nat" where
  "SVAL mem pos = unat (mem ! pos) + 256 * unat (mem ! (pos + 1))"

definition IVAL :: "byte list \<Rightarrow> nat \<Rightarrow> u32" where
  "IVAL mem pos = le_word (drop pos mem)"

subsection \<open>Building messages\<close>

definition AddBytes :: "nat \<Rightarrow> byte list option \<Rightarrow> ntlm_msg \<Rightarrow> ntlm_msg option" where
  "AddBytes hdr buf m =
     (case buf of
        Some b \<Rightarrow>
          if b \<noteq> [] then
            let count = length b;
                f1 = SSVAL (fixed m) hdr (word_of_nat count);
                f2 = SSVAL f1 (hdr + 2) (word_of_nat count);
                f3 = SIVAL f2 (hdr + 4) (word_of_nat (length (fixed m) + bufIndex m)) in
            if bufIndex m + count \<le> length (mbuf m)
            then Some \<lparr>fixed = f3, mbuf = overwrite (mbuf m) (bufIndex m) b, bufIndex = bufIndex m + count\<rparr>
            else None
          else Some (m\<lparr>fixed := SIVAL (SSVAL (SSVAL (fixed m) hdr 0) (hdr + 2) 0) (hdr + 4) (word_of_nat (bufIndex m))\<rparr>)
      | None \<Rightarrow> Some (m\<lparr>fixed := SIVAL (SSVAL (SSVAL (fixed m) hdr 0) (hdr + 2) 0) (hdr + 4) (word_of_nat (bufIndex m))\<rparr>))"

definition AddString :: "nat \<Rightarrow> string option \<Rightarrow> ntlm_msg \<Rightarrow> ntlm_msg option" where
  "AddString hdr s m = AddBytes hdr (map_option bytes_of s) m"

fun strToUnicode :: "string \<Rightarrow> byte list" where
  "strToUnicode [] = []"
| "strToUnicode (c # s) = word_of_nat (code c) # 0 # strToUnicode s"

definition AddUnicodeString :: "nat \<Rightarrow> string \<Rightarrow> ntlm_msg \<Rightarrow> ntlm_msg option" where
  "AddUnicodeString hdr s m = AddBytes hdr (Some (strToUnicode s)) m"

text \<open>The string at \<open>p\<close> in the memory \<open>mem\<close>, of \<open>len\<close> two-byte characters.\<close>

definition unicodeToString :: "byte list \<Rightarrow> nat \<Rightarrow> nat \<Rightarrow> string option" where
  "unicodeToString mem p len =
     (if len = 0 \<or> p + 2 * (len - 1) < length mem
      then Some (cstr_of (map (\<lambda>i. chr (unat (mem ! (p + 2 * i) AND 0x7f))) [0..<len])) else None)"

definition GetUnicodeString :: "byte list \<Rightarrow> nat \<Rightarrow> string option" where
  "GetUnicodeString mem hdr = unicodeToString mem (unat (IVAL mem (hdr + 4))) (SVAL mem hdr div 2)"

definition NTLMSSP :: "byte list" where
  "NTLMSSP = bytes_of ''NTLMSSP'' @ [0]"

text \<open>The user name up to the first at sign, and what is behind it.\<close>

definition split_user :: "string \<Rightarrow> string \<times> string option" where
  "split_user user =
     (case strchr user CHR 0x40 of None \<Rightarrow> (user, None) | Some i \<Rightarrow> (take i user, Some (drop (i + 1) user)))"

definition buildSmbNtlmAuthRequest :: "ntlm_msg \<Rightarrow> string \<Rightarrow> string option \<Rightarrow> ntlm_msg option" where
  "buildSmbNtlmAuthRequest request user domain =
     (let (u, p) = split_user user;
          dom = (case domain of None \<Rightarrow> p | Some x \<Rightarrow> Some x);
          f1 = overwrite (fixed request) 0 NTLMSSP;
          f2 = SIVAL f1 8 1;
          f3 = SIVAL f2 12 0x0000b207 in do {
        m1 \<leftarrow> AddString req_user (Some u) (request\<lparr>fixed := f3, bufIndex := 0\<rparr>);
        AddString req_domain dom m1
      })"

definition buildSmbNtlmAuthResponse ::
  "string \<Rightarrow> 16 word list \<Rightarrow> byte list \<Rightarrow> ntlm_msg \<Rightarrow> string \<Rightarrow> string \<Rightarrow> ntlm_msg option" where
  "buildSmbNtlmAuthResponse p14 wpwd challenge response user password = do {
     d \<leftarrow> GetUnicodeString challenge ch_uDomain;
     let (u, p) = split_user user;
     let domain = (case p of None \<Rightarrow> d | Some x \<Rightarrow> x);
     let c8 = take 8 (drop ch_data challenge);
     lm \<leftarrow> SMBencrypt p14 password c8;
     nt \<leftarrow> SMBNTencrypt wpwd password c8;
     let f1 = overwrite (fixed response) 0 NTLMSSP;
     let f2 = SIVAL f1 8 3;
     m1 \<leftarrow> AddBytes resp_lm (Some lm) (response\<lparr>fixed := f2, bufIndex := 0\<rparr>);
     m2 \<leftarrow> AddBytes resp_nt (Some nt) m1;
     m3 \<leftarrow> AddUnicodeString resp_uDomain domain m2;
     m4 \<leftarrow> AddUnicodeString resp_uUser u m3;
     m5 \<leftarrow> AddUnicodeString resp_uWks u m4;
     m6 \<leftarrow> AddString resp_sessionKey None m5;
     Some (m6\<lparr>fixed := SIVAL (fixed m6) resp_flags (IVAL challenge ch_flags)\<rparr>)
   }"

text \<open>\<open>to64frombits\<close> of the first \<open>SmbLength\<close> bytes of a message.\<close>

definition encode_message :: "ntlm_msg \<Rightarrow> string" where
  "encode_message m = to64frombits (fixed m @ take (bufIndex m) (mbuf m))"

subsection \<open>The dialogue\<close>

text \<open>The checks on a challenge of which \<open>n\<close> bytes were received.\<close>

definition challenge_ok :: "byte list \<Rightarrow> nat \<Rightarrow> bool" where
  "challenge_ok mem n \<longleftrightarrow>
     (let offset = IVAL mem (ch_uDomain + 4); len = word_of_nat (SVAL mem ch_uDomain); result = word_of_nat n in
      \<not> (take 8 mem \<noteq> NTLMSSP
        \<or> IVAL mem ch_msgType \<noteq> 2
        \<or> offset > result
        \<or> offset + len < offset
        \<or> offset + len > result))"

text \<open>
  \<open>recv1\<close> and \<open>recv2\<close> are what the two calls of \<open>gen_recv\<close> deliver; the structures and arrays on
  the stack start as \<open>req\<close>, \<open>ch\<close>, \<open>resp\<close>, \<open>p14\<close> and \<open>wpwd\<close>. The result is the return value and
  what is written to the socket. An empty first line makes the code look behind its end.
\<close>

definition ntlm_helper ::
  "ntlm_msg \<Rightarrow> byte list \<Rightarrow> ntlm_msg \<Rightarrow> string \<Rightarrow> 16 word list \<Rightarrow> string \<Rightarrow> string \<Rightarrow> int \<times> string \<Rightarrow> int \<times> string
     \<Rightarrow> (int \<times> string list) option" where
  "ntlm_helper req ch resp p14 wpwd remotename password recv1 recv2 =
     (let (r1, msg1) = recv1; (r2, msg2) = recv2; cancel = ''*'' @ [CR, LF] in
      if r1 \<noteq> 0 then Some (r1, [])
      else if msg1 = [] then None
      else if char_at msg1 0 \<noteq> CHR ''+'' \<and> strspn (drop 1 msg1) [SP, TAB] < length (drop 1 msg1)
      then Some (PS_AUTHFAIL, [cancel])
      else do {
        request \<leftarrow> buildSmbNtlmAuthRequest req remotename None;
        let out1 = encode_message request @ [CR, LF];
        if r2 \<noteq> 0 then Some (r2, [out1, cancel])
        else
          (case from64tobits msg2 1076 of
             None \<Rightarrow> Some (PS_AUTHFAIL, [out1])
           | Some bs \<Rightarrow>
               if length bs < 32 then Some (PS_AUTHFAIL, [out1])
               else
                 let challenge = overwrite ch 0 bs in
                 if \<not> challenge_ok challenge (length bs) then Some (PS_AUTHFAIL, [out1, cancel])
                 else do {
                   response \<leftarrow> buildSmbNtlmAuthResponse p14 wpwd challenge resp remotename password;
                   Some (PS_SUCCESS, [out1, encode_message response @ [CR, LF]])
                 })
      })"

end
