(* ===== verification/NtlmSpec.thy ===== *)
theory NtlmSpec
  imports Ntlm
begin

section \<open>Facts about NTLM\<close>

text \<open>
  The messages the client builds can be read back field by field, they fit their buffer or the
  model says so, nothing of the uninitialised memory of the stack gets into them, and the checks on
  the challenge keep every read inside what the server sent.
\<close>

subsection \<open>Headers\<close>

lemma overwrite_overwrite:
  "i + length a + length b \<le> length f \<Longrightarrow> overwrite (overwrite f i a) (i + length a) b = overwrite f i (a @ b)"
  by (simp add: overwrite_def add.assoc add.commute [of "length b"])

lemma nth_overwrite:
  "i + length b \<le> length f \<Longrightarrow> j < length f \<Longrightarrow>
     overwrite f i b ! j = (if i \<le> j \<and> j < i + length b then b ! (j - i) else f ! j)"
  by (auto simp: overwrite_def nth_append)

lemma length_le16 [simp]: "length (le16 w) = 2"
  by (simp add: le16_def)

definition header :: "16 word \<Rightarrow> u32 \<Rightarrow> byte list" where
  "header c off = le16 c @ le16 c @ le_bytes off"

lemma length_header [simp]: "length (header c off) = 8"
  by (simp add: header_def)

lemma header_written:
  assumes "hdr + 8 \<le> length f"
  shows "SIVAL (SSVAL (SSVAL f hdr c) (hdr + 2) c) (hdr + 4) off = overwrite f hdr (header c off)"
proof -
  have "SSVAL (SSVAL f hdr c) (hdr + 2) c = overwrite f hdr (le16 c @ le16 c)"
    using overwrite_overwrite [of hdr "le16 c" "le16 c" f] assms by (simp add: SSVAL_def)
  then show ?thesis
    using overwrite_overwrite [of hdr "le16 c @ le16 c" "le_bytes off" f] assms by (simp add: SIVAL_def header_def)
qed

definition text_of :: "byte list option \<Rightarrow> byte list" where
  "text_of buf = (case buf of None \<Rightarrow> [] | Some b \<Rightarrow> b)"

definition header_for :: "ntlm_msg \<Rightarrow> byte list \<Rightarrow> byte list" where
  "header_for m b = header (word_of_nat (length b))
     (if b = [] then word_of_nat (bufIndex m) else word_of_nat (length (fixed m) + bufIndex m))"

lemma length_header_for [simp]: "length (header_for m b) = 8"
  by (simp add: header_for_def)

definition wf_msg :: "nat \<Rightarrow> ntlm_msg \<Rightarrow> bool" where
  "wf_msg n m \<longleftrightarrow> length (fixed m) = n \<and> length (mbuf m) = 1024 \<and> bufIndex m \<le> 1024"

lemma AddBytes_eq:
  assumes "wf_msg n m" "hdr + 8 \<le> n"
  shows "AddBytes hdr buf m =
    (if bufIndex m + length (text_of buf) \<le> 1024
     then Some \<lparr>fixed = overwrite (fixed m) hdr (header_for m (text_of buf)),
       mbuf = overwrite (mbuf m) (bufIndex m) (text_of buf), bufIndex = bufIndex m + length (text_of buf)\<rparr>
     else None)"
  using assms header_written [of hdr "fixed m", simplified]
  by (cases m; cases buf) (auto simp: AddBytes_def text_of_def header_for_def wf_msg_def Let_def)

lemma AddBytes_wf: "wf_msg n m \<Longrightarrow> hdr + 8 \<le> n \<Longrightarrow> AddBytes hdr buf m = Some m' \<Longrightarrow> wf_msg n m'"
  by (auto simp: AddBytes_eq wf_msg_def split: if_splits)

subsection \<open>What is in a message is written\<close>

text \<open>Two messages agree: in the buffer up to the index, and in the fixed part on some positions.\<close>

definition msg_agree :: "nat set \<Rightarrow> nat \<Rightarrow> ntlm_msg \<Rightarrow> ntlm_msg \<Rightarrow> bool" where
  "msg_agree P n m m' \<longleftrightarrow> wf_msg n m \<and> wf_msg n m' \<and> bufIndex m = bufIndex m'
     \<and> take (bufIndex m) (mbuf m) = take (bufIndex m) (mbuf m') \<and> (\<forall>i\<in>P. i < n \<longrightarrow> fixed m ! i = fixed m' ! i)"

lemma agree_AddBytes:
  assumes a: "msg_agree P n m m'" and h: "hdr + 8 \<le> n"
  shows "rel_option (msg_agree (P \<union> {hdr..<hdr + 8}) n) (AddBytes hdr buf m) (AddBytes hdr buf m')"
proof -
  have w: "wf_msg n m" "wf_msg n m'" "bufIndex m = bufIndex m'" using a by (simp_all add: msg_agree_def)
  then have "header_for m b = header_for m' b" for b by (simp add: header_for_def wf_msg_def)
  moreover have "take (i + length b) (overwrite f i b) = take i f @ b" if "i + length b \<le> length f" for i and f b :: "byte list"
    using that by (simp add: overwrite_def)
  ultimately show ?thesis
    using a h w by (auto simp: AddBytes_eq msg_agree_def wf_msg_def nth_overwrite)
qed

lemma rel_option_bind:
  "rel_option R x y \<Longrightarrow> (\<And>a b. R a b \<Longrightarrow> rel_option S (f a) (g b)) \<Longrightarrow> rel_option S (x \<bind> f) (y \<bind> g)"
  by (auto elim!: option.rel_cases)

lemma agree_serial: "msg_agree P n m m' \<Longrightarrow> {0..<n} \<subseteq> P \<Longrightarrow> encode_message m = encode_message m'"
proof -
  assume a: "msg_agree P n m m'" "{0..<n} \<subseteq> P"
  then have "fixed m = fixed m'"
    by (intro nth_equalityI) (auto simp: msg_agree_def wf_msg_def subset_iff)
  moreover have "take (bufIndex m) (mbuf m) = take (bufIndex m') (mbuf m')" using a(1) unfolding msg_agree_def by metis
  ultimately show ?thesis by (simp add: encode_message_def)
qed

lemma agree_fixed:
  "msg_agree P n m m' \<Longrightarrow> i + length b \<le> n \<Longrightarrow>
     msg_agree (P \<union> {i..<i + length b}) n (m\<lparr>fixed := overwrite (fixed m) i b\<rparr>) (m'\<lparr>fixed := overwrite (fixed m') i b\<rparr>)"
  by (auto simp: msg_agree_def wf_msg_def nth_overwrite)

lemma agree_start:
  "length (fixed m) = n \<Longrightarrow> length (mbuf m) = 1024 \<Longrightarrow> length (fixed m') = n \<Longrightarrow> length (mbuf m') = 1024 \<Longrightarrow>
     msg_agree {} n (m\<lparr>bufIndex := 0\<rparr>) (m'\<lparr>bufIndex := 0\<rparr>)"
  by (simp add: msg_agree_def wf_msg_def)

lemma length_NTLMSSP [simp]: "length NTLMSSP = 8"
  by (simp add: NTLMSSP_def bytes_of_def)

definition raw_msg :: "nat \<Rightarrow> ntlm_msg \<Rightarrow> bool" where
  "raw_msg n m \<longleftrightarrow> length (fixed m) = n \<and> length (mbuf m) = 1024"

text \<open>The first fields of a message: the identification and the words \<open>ws\<close> behind it.\<close>

lemma agree_ident:
  assumes "raw_msg n m" "raw_msg n m'" "12 \<le> n"
  shows "msg_agree {0..<12} n (m\<lparr>fixed := SIVAL (overwrite (fixed m) 0 NTLMSSP) 8 t, bufIndex := 0\<rparr>)
    (m'\<lparr>fixed := SIVAL (overwrite (fixed m') 0 NTLMSSP) 8 t, bufIndex := 0\<rparr>)"
  using assms by (auto simp: msg_agree_def wf_msg_def raw_msg_def SIVAL_def nth_overwrite)

lemma agree_request:
  assumes "raw_msg 32 m" "raw_msg 32 m'"
  shows "rel_option (msg_agree ({0..<12} \<union> {12..<16} \<union> {16..<16 + 8} \<union> {24..<24 + 8}) 32)
    (buildSmbNtlmAuthRequest m user realm) (buildSmbNtlmAuthRequest m' user realm)"
proof -
  have "msg_agree ({0..<12} \<union> {12..<16}) 32
      (m\<lparr>fixed := SIVAL (SIVAL (overwrite (fixed m) 0 NTLMSSP) 8 1) 12 0xb207, bufIndex := 0\<rparr>)
      (m'\<lparr>fixed := SIVAL (SIVAL (overwrite (fixed m') 0 NTLMSSP) 8 1) 12 0xb207, bufIndex := 0\<rparr>)"
    using agree_fixed [OF agree_ident [OF assms, of 1], of 12 "le_bytes 0xb207"]
    by (cases m; cases m') (simp add: SIVAL_def)
  note s = agree_AddBytes [OF this, of 16]
  show ?thesis
    unfolding buildSmbNtlmAuthRequest_def Let_def case_prod_beta AddString_def req_user_def req_domain_def
    by (rule rel_option_bind, rule s, simp, erule agree_AddBytes, simp)
qed

lemma agree_response:
  assumes m: "raw_msg 64 m" "raw_msg 64 m'"
    and p: "length p14 = 15" "length p14' = 15" "length wpwd = 129" "length wpwd' = 129" "c_string password"
    and d: "GetUnicodeString ch ch_uDomain = GetUnicodeString ch' ch_uDomain"
    and c: "take 8 (drop ch_data ch) = take 8 (drop ch_data ch')" "IVAL ch ch_flags = IVAL ch' ch_flags"
  shows "rel_option (msg_agree ({0..<12} \<union> {12..<20} \<union> {20..<28} \<union> {28..<36} \<union> {36..<44} \<union> {44..<52} \<union> {52..<60} \<union> {60..<64}) 64)
    (buildSmbNtlmAuthResponse p14 wpwd ch m user password) (buildSmbNtlmAuthResponse p14' wpwd' ch' m' user password)"
proof -
  have e: "SMBencrypt p14 password x = SMBencrypt p14' password x"
    "SMBNTencrypt wpwd password x = SMBNTencrypt wpwd' password x" for x
    using p by (simp_all add: SMBencrypt_eq SMBNTencrypt_def E_md4hash_eq)
  have f: "msg_agree (P \<union> {60..<64}) 64 (x\<lparr>fixed := SIVAL (fixed x) 60 t\<rparr>) (y\<lparr>fixed := SIVAL (fixed y) 60 t\<rparr>)"
    if "msg_agree P 64 x y" for P x y t
    using agree_fixed [OF that, of 60 "le_bytes t"] by (simp add: SIVAL_def)
  have rel_option_same: "rel_option S (x \<bind> g) (x \<bind> h)" if "\<And>a. x = Some a \<Longrightarrow> rel_option S (g a) (h a)"
    for x :: "'a option" and g h :: "'a \<Rightarrow> ntlm_msg option" and S
    using that by (cases x) simp_all
  note i = agree_ident [OF m, of 3, simplified]
  show ?thesis
    unfolding buildSmbNtlmAuthResponse_def Let_def case_prod_beta AddString_def AddUnicodeString_def
      d c e unfolding ntlm_offsets
    by ((rule rel_option_same)+, rule rel_option_bind, rule agree_AddBytes [OF i], simp,
      (rule rel_option_bind, erule agree_AddBytes, simp)+) (simp add: f)
qed

subsection \<open>The challenge\<close>

lemma IVAL_append: "pos + 4 \<le> length bs \<Longrightarrow> IVAL (bs @ x) pos = IVAL bs pos"
  by (simp add: IVAL_def le_word_def nth_append)

lemma SVAL_append: "pos + 2 \<le> length bs \<Longrightarrow> SVAL (bs @ x) pos = SVAL bs pos"
  by (simp add: SVAL_def nth_append)

lemma SVAL_less: "SVAL mem pos < 65536"
proof -
  have "unat b < 256" for b :: byte using unsigned_less [of b] by simp
  from this [of "mem ! pos"] this [of "mem ! (pos + 1)"] show ?thesis by (simp add: SVAL_def)
qed

lemma challenge_ok_append: "32 \<le> length bs \<Longrightarrow> challenge_ok (bs @ x) n = challenge_ok bs n"
  by (simp add: challenge_ok_def ntlm_offsets IVAL_append SVAL_append)

text \<open>An accepted domain lies in the bytes received.\<close>

lemma challenge_ok_domain:
  assumes ok: "challenge_ok mem n" and n: "n < 2 ^ 32"
  shows "unat (IVAL mem (ch_uDomain + 4)) + SVAL mem ch_uDomain \<le> n"
proof -
  define off where "off = IVAL mem (ch_uDomain + 4)"
  define len where "len = SVAL mem ch_uDomain"
  have l: "len < 65536" unfolding len_def by (rule SVAL_less)
  have "\<not> off + word_of_nat len < off" "off + word_of_nat len \<le> (word_of_nat n :: u32)"
    using ok by (simp_all add: challenge_ok_def Let_def off_def len_def linorder_not_less)
  moreover have "unat (word_of_nat len :: u32) = len" "unat (word_of_nat n :: u32) = n"
    using l n by (simp_all add: unsigned_of_nat take_bit_eq_mod)
  ultimately have "unat off + len \<le> n"
    by (metis no_olen_add_nat not_le unat_plus_simple word_le_nat_alt)
  then show ?thesis by (simp add: off_def len_def)
qed

lemma GetUnicodeString_append:
  assumes "32 \<le> length bs" "length x = length y"
    and "unat (IVAL bs (ch_uDomain + 4)) + SVAL bs ch_uDomain \<le> length bs"
  shows "GetUnicodeString (bs @ x) ch_uDomain = GetUnicodeString (bs @ y) ch_uDomain
    \<and> GetUnicodeString (bs @ x) ch_uDomain \<noteq> None"
proof -
  have h: "IVAL (bs @ z) (ch_uDomain + 4) = IVAL bs (ch_uDomain + 4)" "SVAL (bs @ z) ch_uDomain = SVAL bs ch_uDomain" for z
    using assms(1) by (simp_all add: IVAL_append SVAL_append ch_uDomain_def)
  define off where "off = unat (IVAL bs (ch_uDomain + 4))"
  define len where "len = SVAL bs ch_uDomain div 2"
  have l: "off + 2 * len \<le> length bs" using assms(3) unfolding off_def len_def by linarith
  then have "map (\<lambda>i. chr (unat ((bs @ x) ! (off + 2 * i) AND 0x7f))) [0..<len]
      = map (\<lambda>i. chr (unat ((bs @ y) ! (off + 2 * i) AND 0x7f))) [0..<len]"
    by (auto simp: nth_append)
  moreover have "len = 0 \<or> off + 2 * (len - 1) < length (bs @ x)" using l by (cases len) auto
  ultimately show ?thesis
    using assms(2) unfolding GetUnicodeString_def h unicodeToString_def off_def [symmetric] len_def [symmetric] by (simp del: map_eq_conv)
qed

subsection \<open>The dialogue\<close>

lemma request_serial:
  assumes "raw_msg 32 m" "raw_msg 32 m'"
  shows "map_option encode_message (buildSmbNtlmAuthRequest m user realm)
    = map_option encode_message (buildSmbNtlmAuthRequest m' user realm)"
proof -
  have "{0..<32} \<subseteq> {0..<12} \<union> {12..<16} \<union> {16..<16 + 8} \<union> {24..<24 + 8::nat}" by auto
  with agree_request [OF assms, of user realm] show ?thesis
    by (auto elim!: option.rel_cases dest!: agree_serial)
qed

lemma response_serial:
  assumes m: "raw_msg 64 m" "raw_msg 64 m'"
    and p: "length p14 = 15" "length p14' = 15" "length wpwd = 129" "length wpwd' = 129" "c_string password"
    and bs: "32 \<le> length bs" "length x = length y"
    and ok: "unat (IVAL bs (ch_uDomain + 4)) + SVAL bs ch_uDomain \<le> length bs"
  shows "map_option encode_message (buildSmbNtlmAuthResponse p14 wpwd (bs @ x) m user password)
    = map_option encode_message (buildSmbNtlmAuthResponse p14' wpwd' (bs @ y) m' user password)"
proof -
  have "{0..<64} \<subseteq> {0..<12} \<union> {12..<20} \<union> {20..<28} \<union> {28..<36} \<union> {36..<44} \<union> {44..<52} \<union> {52..<60} \<union> {60..<64::nat}"
    by auto
  moreover have "take 8 (drop ch_data (bs @ x)) = take 8 (drop ch_data (bs @ y))" "IVAL (bs @ x) ch_flags = IVAL (bs @ y) ch_flags"
    using bs(1) by (simp_all add: ch_data_def ch_flags_def IVAL_append)
  ultimately show ?thesis
    using agree_response [OF m p, of "bs @ x" "bs @ y" user] GetUnicodeString_append [OF bs ok]
    by (auto elim!: option.rel_cases dest!: agree_serial)
qed

text \<open>What the connection sees of the dialogue.\<close>

lemma map_then: "map_option h x \<bind> f = x \<bind> (\<lambda>m. f (h m))"
  by (cases x) auto

lemma ntlm_helper_eq:
  "ntlm_helper req ch resp p14 wpwd remotename password recv1 recv2 =
     (if fst recv1 \<noteq> 0 then Some (fst recv1, [])
      else if snd recv1 = [] then None
      else if char_at (snd recv1) 0 \<noteq> CHR ''+'' \<and> strspn (drop 1 (snd recv1)) [SP, TAB] < length (drop 1 (snd recv1))
      then Some (PS_AUTHFAIL, [''*'' @ [CR, LF]])
      else map_option encode_message (buildSmbNtlmAuthRequest req remotename None) \<bind> (\<lambda>e1.
        if fst recv2 \<noteq> 0 then Some (fst recv2, [e1 @ [CR, LF], ''*'' @ [CR, LF]])
        else (case from64tobits (snd recv2) 1076 of
           None \<Rightarrow> Some (PS_AUTHFAIL, [e1 @ [CR, LF]])
         | Some bs \<Rightarrow>
             if length bs < 32 then Some (PS_AUTHFAIL, [e1 @ [CR, LF]])
             else if \<not> challenge_ok (overwrite ch 0 bs) (length bs)
             then Some (PS_AUTHFAIL, [e1 @ [CR, LF], ''*'' @ [CR, LF]])
             else map_option encode_message (buildSmbNtlmAuthResponse p14 wpwd (overwrite ch 0 bs) resp remotename password)
               \<bind> (\<lambda>e2. Some (PS_SUCCESS, [e1 @ [CR, LF], e2 @ [CR, LF]])))))"
  by (cases recv1; cases recv2; cases "buildSmbNtlmAuthRequest req remotename None")
    (auto simp: ntlm_helper_def Let_def map_then split: option.split)

lemma ntlm_helper_same:
  assumes q: "raw_msg 32 req" "raw_msg 32 req'" and r: "raw_msg 64 resp" "raw_msg 64 resp'"
    and c: "length ch = 1076" "length ch' = 1076"
    and p: "length p14 = 15" "length p14' = 15" "length wpwd = 129" "length wpwd' = 129" "c_string password"
  shows "ntlm_helper req ch resp p14 wpwd remotename password recv1 recv2
    = ntlm_helper req' ch' resp' p14' wpwd' remotename password recv1 recv2"
proof -
  have "challenge_ok (overwrite ch 0 bs) (length bs) = challenge_ok (overwrite ch' 0 bs) (length bs)
      \<and> (challenge_ok (overwrite ch 0 bs) (length bs) \<longrightarrow>
          map_option encode_message (buildSmbNtlmAuthResponse p14 wpwd (overwrite ch 0 bs) resp remotename password)
          = map_option encode_message (buildSmbNtlmAuthResponse p14' wpwd' (overwrite ch' 0 bs) resp' remotename password))"
    if b: "from64tobits (snd recv2) 1076 = Some bs" "32 \<le> length bs" for bs
  proof -
    have l: "length bs \<le> 1076" using from64tobits_room(1) [OF b(1)] by simp
    have o: "overwrite ch 0 bs = bs @ drop (length bs) ch" "overwrite ch' 0 bs = bs @ drop (length bs) ch'"
      by (simp_all add: overwrite_def)
    have d: "length (drop (length bs) ch) = length (drop (length bs) ch')" using c by simp
    have "unat (IVAL bs (ch_uDomain + 4)) + SVAL bs ch_uDomain \<le> length bs" if "challenge_ok bs (length bs)"
      using challenge_ok_domain [OF that] l by simp
    then show ?thesis
      unfolding o challenge_ok_append [OF b(2)] using response_serial [OF r p b(2) d] by blast
  qed
  then show ?thesis
    unfolding ntlm_helper_eq request_serial [OF q] by (auto split: option.split intro!: arg_cong2 [of _ _ _ _ Option.bind])
qed

subsection \<open>Fields\<close>

text \<open>The bytes a header points to, counted from the start of the message.\<close>

definition field :: "ntlm_msg \<Rightarrow> nat \<Rightarrow> byte list" where
  "field m hdr = take (SVAL (fixed m) hdr) (drop (unat (IVAL (fixed m) (hdr + 4))) (fixed m @ take (bufIndex m) (mbuf m)))"

lemma SVAL_le16: "b ! pos = ucast w \<Longrightarrow> b ! (pos + 1) = ucast (drop_bit 8 w) \<Longrightarrow> SVAL b pos = unat (w :: 16 word)"
proof -
  assume b: "b ! pos = ucast w" "b ! (pos + 1) = ucast (drop_bit 8 w)"
  have "unat w < 65536" using unsigned_less [of w] by simp
  then have d: "unat w div 256 < 256" by simp
  have "unat (ucast w :: byte) = unat w mod 256" "unat (ucast (drop_bit 8 w) :: byte) = unat w div 256"
    using d by (simp_all only: unsigned_ucast_eq unsigned_drop_bit_eq) (simp_all add: take_bit_eq_mod drop_bit_eq_div)
  then show ?thesis using b by (simp add: SVAL_def)
qed

lemma le_word_le_bytes: "le_word (le_bytes w @ r) = w"
proof (rule bit_word_eqI)
  fix n assume "n < LENGTH(32)"
  then consider "n < 8" | "8 \<le> n" "n < 16" | "16 \<le> n" "n < 24" | "24 \<le> n" "n < 32" by fastforce
  then show "bit (le_word (le_bytes w @ r)) n \<longleftrightarrow> bit w n"
    by cases (auto simp: le_word_def le_bytes_def bit_simps)
qed

lemma drop_overwrite: "i + length b \<le> length f \<Longrightarrow> drop i (overwrite f i b) = b @ drop (i + length b) f"
  by (simp add: overwrite_def)

lemma header_read:
  assumes "hdr + 8 \<le> length f"
  shows "SVAL (overwrite f hdr (header c off)) hdr = unat c" "IVAL (overwrite f hdr (header c off)) (hdr + 4) = off"
proof -
  have "overwrite f hdr (header c off) ! hdr = ucast c" "overwrite f hdr (header c off) ! (hdr + 1) = ucast (drop_bit 8 c)"
    using assms by (simp_all add: nth_overwrite header_def le16_def)
  then show "SVAL (overwrite f hdr (header c off)) hdr = unat c" by (rule SVAL_le16)
  have "drop (hdr + 4) (overwrite f hdr (header c off)) = drop 4 (drop hdr (overwrite f hdr (header c off)))"
    by (simp add: add.commute)
  also have "\<dots> = le_bytes off @ drop (hdr + 8) f"
    using assms by (simp add: drop_overwrite header_def)
  finally show "IVAL (overwrite f hdr (header c off)) (hdr + 4) = off" by (simp add: IVAL_def le_word_le_bytes)
qed

lemma header_kept:
  assumes "i + length b \<le> length f" "h + 8 \<le> length f" "h + 8 \<le> i \<or> i + length b \<le> h"
  shows "SVAL (overwrite f i b) h = SVAL f h" "IVAL (overwrite f i b) (h + 4) = IVAL f (h + 4)"
proof -
  have "overwrite f i b ! j = f ! j" if "h \<le> j" "j < h + 8" for j
  proof -
    have "\<not> (i \<le> j \<and> j < i + length b)" using assms(3) that by auto
    then show ?thesis using assms that by (auto simp: nth_overwrite)
  qed
  then show "SVAL (overwrite f i b) h = SVAL f h" "IVAL (overwrite f i b) (h + 4) = IVAL f (h + 4)"
    using assms by (simp_all add: SVAL_def IVAL_def le_word_def)
qed

text \<open>The field \<open>hdr\<close> holds \<open>b\<close>, in the part of the buffer that is filled.\<close>

definition has_field :: "nat \<Rightarrow> ntlm_msg \<Rightarrow> nat \<Rightarrow> byte list \<Rightarrow> bool" where
  "has_field n m hdr b \<longleftrightarrow> (let off = unat (IVAL (fixed m) (hdr + 4)); len = SVAL (fixed m) hdr in
     n \<le> off \<and> off + len \<le> n + bufIndex m \<and> take len (drop (off - n) (mbuf m)) = b)"

lemma holds_field: "wf_msg n m \<Longrightarrow> has_field n m hdr b \<Longrightarrow> field m hdr = b"
proof -
  assume w: "wf_msg n m" and h: "has_field n m hdr b"
  define off where "off = unat (IVAL (fixed m) (hdr + 4))"
  define len where "len = SVAL (fixed m) hdr"
  have o: "n \<le> off" "off + len \<le> n + bufIndex m" "take len (drop (off - n) (mbuf m)) = b"
    using h by (simp_all add: has_field_def Let_def off_def len_def)
  have "take len (drop off (fixed m @ take (bufIndex m) (mbuf m))) = take len (take (bufIndex m - (off - n)) (drop (off - n) (mbuf m)))"
    using w o by (simp add: wf_msg_def drop_take)
  also have "\<dots> = b" using o by (simp add: min_absorb1)
  finally show ?thesis by (simp add: field_def off_def len_def)
qed

lemma holds_new:
  assumes "wf_msg n m" "hdr + 8 \<le> n" "n \<le> 64" "b \<noteq> []" "AddBytes hdr (Some b) m = Some m'"
  shows "has_field n m' hdr b"
proof -
  have m': "m' = \<lparr>fixed = overwrite (fixed m) hdr (header (word_of_nat (length b)) (word_of_nat (n + bufIndex m))),
      mbuf = overwrite (mbuf m) (bufIndex m) b, bufIndex = bufIndex m + length b\<rparr>" "bufIndex m + length b \<le> 1024"
    using assms AddBytes_eq [OF assms(1,2), of "Some b"]
    by (auto simp: text_of_def header_for_def wf_msg_def split: if_splits)
  have l: "unat (word_of_nat (length b) :: 16 word) = length b" "unat (word_of_nat (n + bufIndex m) :: u32) = n + bufIndex m"
    using m'(2) assms(3) by (simp_all only: unsigned_of_nat take_bit_eq_mod) simp_all
  show ?thesis
    using m'(2) assms(1,2) header_read [of hdr "fixed m"] l
    by (simp add: m'(1) has_field_def Let_def wf_msg_def drop_overwrite)
qed

lemma holds_keep:
  assumes "wf_msg n m" "hdr + 8 \<le> n" "h + 8 \<le> n" "h + 8 \<le> hdr \<or> hdr + 8 \<le> h"
    and "AddBytes hdr buf m = Some m'" "has_field n m h b"
  shows "has_field n m' h b"
proof -
  define t where "t = text_of buf"
  have m': "m' = \<lparr>fixed = overwrite (fixed m) hdr (header_for m t),
      mbuf = overwrite (mbuf m) (bufIndex m) t, bufIndex = bufIndex m + length t\<rparr>" "bufIndex m + length t \<le> 1024"
    using assms AddBytes_eq [OF assms(1,2), of buf] by (auto simp: t_def split: if_splits)
  have f: "hdr + length (header_for m t) \<le> length (fixed m)" "h + 8 \<le> length (fixed m)"
    "h + 8 \<le> hdr \<or> hdr + length (header_for m t) \<le> h" using assms by (simp_all add: wf_msg_def)
  have "take len (drop o1 (overwrite (mbuf m) (bufIndex m) t)) = take len (drop o1 (mbuf m))"
    if "o1 + len \<le> bufIndex m" for o1 len
  proof -
    have "take (o1 + len) (overwrite (mbuf m) (bufIndex m) t) = take (o1 + len) (mbuf m)"
      using that assms(1) by (simp add: overwrite_def wf_msg_def min_absorb1)
    then show ?thesis by (simp add: take_drop add.commute)
  qed
  then show ?thesis
    using assms(6) by (simp add: m'(1) has_field_def Let_def header_kept [OF f]) (simp add: le_diff_conv)
qed

subsection \<open>Messages\<close>

fun add_all :: "(nat \<times> byte list) list \<Rightarrow> ntlm_msg \<Rightarrow> ntlm_msg option" where
  "add_all [] m = Some m"
| "add_all ((hdr, b) # fs) m = AddBytes hdr (Some b) m \<bind> add_all fs"

definition apart :: "nat \<Rightarrow> (nat \<times> byte list) list \<Rightarrow> bool" where
  "apart h fs \<longleftrightarrow> (\<forall>(h', b)\<in>set fs. h + 8 \<le> h' \<or> h' + 8 \<le> h)"

fun fields_ok :: "nat \<Rightarrow> (nat \<times> byte list) list \<Rightarrow> bool" where
  "fields_ok n [] = True"
| "fields_ok n ((h, b) # fs) = (h + 8 \<le> n \<and> b \<noteq> [] \<and> apart h fs \<and> fields_ok n fs)"

lemma AddBytes_parts:
  assumes "wf_msg n m" "hdr + 8 \<le> n" "AddBytes hdr (Some b) m = Some m'"
  shows "wf_msg n m'" "bufIndex m' = bufIndex m + length b"
    "i < n \<Longrightarrow> i < hdr \<or> hdr + 8 \<le> i \<Longrightarrow> fixed m' ! i = fixed m ! i"
  using assms by (auto simp: AddBytes_eq text_of_def wf_msg_def nth_overwrite split: if_splits)

lemma add_all_keeps:
  "add_all fs m = Some m' \<Longrightarrow> wf_msg n m \<Longrightarrow> fields_ok n fs \<Longrightarrow> wf_msg n m'
     \<and> (\<forall>h b. h + 8 \<le> n \<longrightarrow> apart h fs \<longrightarrow> has_field n m h b \<longrightarrow> has_field n m' h b)
     \<and> (\<forall>i<n. (\<forall>(h, b)\<in>set fs. i < h \<or> h + 8 \<le> i) \<longrightarrow> fixed m' ! i = fixed m ! i)"
proof (induction fs arbitrary: m)
  case (Cons f fs)
  obtain h b m1 where f: "f = (h, b)" "AddBytes h (Some b) m = Some m1" "add_all fs m1 = Some m'"
    using Cons.prems(1) by (cases f) (auto split: option.splits simp: bind_eq_Some_conv)
  have h: "h + 8 \<le> n" "fields_ok n fs" using Cons.prems(3) f(1) by simp_all
  note p = AddBytes_parts [OF Cons.prems(2) h(1) f(2)]
  note IH = Cons.IH [OF f(3) p(1) h(2)]
  have "has_field n m1 h' b'" if "h' + 8 \<le> n" "apart h' (f # fs)" "has_field n m h' b'" for h' b'
    using holds_keep [OF Cons.prems(2) h(1) that(1) _ f(2) that(3)] that(2) by (simp add: apart_def f(1))
  moreover have "apart h' fs" if "apart h' (f # fs)" for h' using that by (simp add: apart_def)
  ultimately show ?case using IH p(3) f(1) by (auto simp: split_beta)
qed simp

lemma add_all_holds:
  "add_all fs m = Some m' \<Longrightarrow> wf_msg n m \<Longrightarrow> n \<le> 64 \<Longrightarrow> fields_ok n fs \<Longrightarrow> \<forall>(h, b)\<in>set fs. has_field n m' h b"
proof (induction fs arbitrary: m)
  case (Cons f fs)
  obtain h b m1 where f: "f = (h, b)" "AddBytes h (Some b) m = Some m1" "add_all fs m1 = Some m'"
    using Cons.prems(1) by (cases f) (auto split: option.splits simp: bind_eq_Some_conv)
  have h: "h + 8 \<le> n" "fields_ok n fs" "apart h fs" "b \<noteq> []" using Cons.prems(4) f(1) by simp_all
  note w = AddBytes_parts(1) [OF Cons.prems(2) h(1) f(2)]
  have "has_field n m1 h b" using holds_new [OF Cons.prems(2) h(1) Cons.prems(3) h(4) f(2)] .
  then have "has_field n m' h b" using add_all_keeps [OF f(3) w h(2)] h by blast
  with Cons.IH [OF f(3) w Cons.prems(3) h(2)] f(1) show ?case by simp
qed simp

lemma add_all_fits:
  "wf_msg n m \<Longrightarrow> \<forall>(h, b)\<in>set fs. h + 8 \<le> n \<Longrightarrow>
     add_all fs m = None \<longleftrightarrow> bufIndex m + (\<Sum>(h, b)\<leftarrow>fs. length b) > 1024"
proof (induction fs arbitrary: m)
  case (Cons f fs)
  obtain h b where f: "f = (h, b)" by (cases f)
  have h: "h + 8 \<le> n" using Cons.prems(2) f by simp
  show ?case
  proof (cases "AddBytes h (Some b) m")
    case None
    then show ?thesis using AddBytes_eq [OF Cons.prems(1) h, of "Some b"] by (auto simp: f text_of_def split: if_splits)
  next
    case (Some m1)
    note p = AddBytes_parts [OF Cons.prems(1) h Some]
    show ?thesis using Cons.IH [OF p(1)] Cons.prems(2) p(2) by (simp add: f Some add.assoc)
  qed
qed (simp add: wf_msg_def)

lemma strToUnicode_eq: "strToUnicode s = nt_bytes s"
  by (induction s) (simp_all add: nt_bytes_def)

text \<open>The response of the client, as its five fields.\<close>

definition response_fields :: "byte list \<Rightarrow> string \<Rightarrow> string \<Rightarrow> string \<Rightarrow> (nat \<times> byte list) list" where
  "response_fields c8 password domain u =
     [(resp_lm, E_P24 (lm_hash password @ replicate 5 0) c8),
      (resp_nt, E_P24 (md4_spec (nt_bytes (take 128 password)) @ replicate 5 0) c8),
      (resp_uDomain, nt_bytes domain), (resp_uUser, nt_bytes u), (resp_uWks, nt_bytes u)]"

definition domain_sent :: "string \<Rightarrow> string \<Rightarrow> string" where
  "domain_sent user d = (case snd (split_user user) of None \<Rightarrow> d | Some x \<Rightarrow> x)"

lemma length_E_P24 [simp]: "length (E_P24 k c8) = 24"
  by (simp add: E_P24_def)

definition ident_msg :: "ntlm_msg \<Rightarrow> u32 \<Rightarrow> ntlm_msg" where
  "ident_msg m t = m\<lparr>fixed := SIVAL (overwrite (fixed m) 0 NTLMSSP) 8 t, bufIndex := 0\<rparr>"

lemma wf_ident_msg: "raw_msg n m \<Longrightarrow> 12 \<le> n \<Longrightarrow> wf_msg n (ident_msg m t)"
  by (simp add: ident_msg_def raw_msg_def wf_msg_def SIVAL_def)

lemma buildResponse_eq:
  assumes "length p14 = 15" "length wpwd = 129" "c_string password" "GetUnicodeString ch ch_uDomain = Some d"
  shows "buildSmbNtlmAuthResponse p14 wpwd ch m user password =
    add_all (response_fields (take 8 (drop ch_data ch)) password (domain_sent user d) (fst (split_user user))) (ident_msg m 3)
      \<bind> AddBytes resp_sessionKey None \<bind> (\<lambda>m6. Some (m6\<lparr>fixed := SIVAL (fixed m6) resp_flags (IVAL ch ch_flags)\<rparr>))"
proof -
  have o: "x \<bind> Some = x" for x :: "ntlm_msg option" by (cases x) simp_all
  show ?thesis
    unfolding buildSmbNtlmAuthResponse_def assms(4) SMBencrypt_Some [OF assms(1,3)] SMBNTencrypt_Some [OF assms(2,3)]
    by (simp add: Let_def case_prod_beta response_fields_def domain_sent_def ident_msg_def AddString_def
        AddUnicodeString_def strToUnicode_eq o)
qed

lemma fields_ok_response:
  assumes "domain \<noteq> []" "u \<noteq> []"
  shows "fields_ok 64 (response_fields c8 password domain u)"
proof -
  define x y where "x = E_P24 (lm_hash password @ replicate 5 0) c8"
    and "y = E_P24 (md4_spec (nt_bytes (take 128 password)) @ replicate 5 0) c8"
  have "length x = 24" "length y = 24" by (simp_all add: x_def y_def)
  then have "x \<noteq> []" "y \<noteq> []" by auto
  moreover have "nt_bytes s \<noteq> []" if "s \<noteq> []" for s using length_nt_bytes [of s] that by fastforce
  ultimately show ?thesis using assms
    unfolding response_fields_def x_def [symmetric] y_def [symmetric] by (simp add: ntlm_offsets apart_def)
qed

lemma ident_read:
  assumes "12 \<le> length f"
  shows "take 8 (SIVAL (overwrite f 0 NTLMSSP) 8 t) = NTLMSSP" "IVAL (SIVAL (overwrite f 0 NTLMSSP) 8 t) 8 = t"
  using assms by (simp_all add: SIVAL_def IVAL_def drop_overwrite le_word_le_bytes) (simp add: overwrite_def)

lemma take_shorter: "take n x = take n y \<Longrightarrow> k \<le> n \<Longrightarrow> take k x = take k y"
  by (metis min.absorb1 take_take)

lemma IVAL_cong: "take 4 (drop pos f) = take 4 (drop pos g) \<Longrightarrow> IVAL f pos = IVAL g pos"
proof -
  assume e: "take 4 (drop pos f) = take 4 (drop pos g)"
  have "le_word x = le_word (take 4 x)" for x by (simp add: le_word_def)
  with e show ?thesis unfolding IVAL_def by metis
qed

lemma response_holds:
  assumes m: "raw_msg 64 m" and p: "length p14 = 15" "length wpwd = 129" "c_string password"
    and d: "GetUnicodeString ch ch_uDomain = Some d" and ne: "domain_sent user d \<noteq> []" "fst (split_user user) \<noteq> []"
    and b: "buildSmbNtlmAuthResponse p14 wpwd ch m user password = Some m'"
  shows "wf_msg 64 m' \<and> take 8 (fixed m') = NTLMSSP \<and> IVAL (fixed m') 8 = 3 \<and> IVAL (fixed m') resp_flags = IVAL ch ch_flags
    \<and> (\<forall>(h, b)\<in>set (response_fields (take 8 (drop ch_data ch)) password (domain_sent user d) (fst (split_user user))). has_field 64 m' h b)"
proof -
  define fs where "fs = response_fields (take 8 (drop ch_data ch)) password (domain_sent user d) (fst (split_user user))"
  obtain m5 m6 where m5: "add_all fs (ident_msg m 3) = Some m5" and m6: "AddBytes 52 None m5 = Some m6"
    and m': "m' = m6\<lparr>fixed := SIVAL (fixed m6) 60 (IVAL ch ch_flags)\<rparr>"
    using b unfolding buildResponse_eq [OF p d] fs_def [symmetric] by (auto simp: bind_eq_Some_conv ntlm_offsets)
  have w0: "wf_msg 64 (ident_msg m 3)" using m by (simp add: wf_ident_msg)
  have ok: "fields_ok 64 fs" unfolding fs_def using ne by (rule fields_ok_response)
  note keep = add_all_keeps [OF m5 w0 ok]
  have w5: "wf_msg 64 m5" using keep by blast
  have m6': "m6 = \<lparr>fixed = overwrite (fixed m5) 52 (header_for m5 []), mbuf = mbuf m5, bufIndex = bufIndex m5\<rparr>"
    using m6 AddBytes_eq [OF w5, of 52 None] by (simp add: text_of_def split: if_splits)
  have w6: "wf_msg 64 m6" using w5 by (simp add: m6' wf_msg_def)
  have heads: "apart 52 fs" "\<forall>(h, b)\<in>set fs. h + 8 \<le> 52 \<and> 12 \<le> h" by (auto simp: fs_def response_fields_def ntlm_offsets apart_def)
  have "has_field 64 m' h b" if "(h, b) \<in> set fs" for h b
  proof -
    have h: "h + 8 \<le> 52" using heads(2) that by auto
    have "has_field 64 m5 h b" using add_all_holds [OF m5 w0 _ ok] that by auto
    then have "has_field 64 m6 h b" using holds_keep [OF w5 _ _ _ m6] h by simp
    moreover have "SVAL (SIVAL (fixed m6) 60 t) h = SVAL (fixed m6) h" "IVAL (SIVAL (fixed m6) 60 t) (h + 4) = IVAL (fixed m6) (h + 4)" for t
      using header_kept [of 60 "le_bytes t" "fixed m6" h] w6 h by (simp_all add: SIVAL_def wf_msg_def)
    ultimately show ?thesis by (simp add: m' has_field_def)
  qed
  moreover have pre: "take 12 (fixed m') = take 12 (fixed (ident_msg m 3))"
  proof (rule nth_equalityI)
    show "length (take 12 (fixed m')) = length (take 12 (fixed (ident_msg m 3)))"
      using w0 w6 by (simp add: m' SIVAL_def wf_msg_def)
    fix i assume "i < length (take 12 (fixed m'))"
    then have i: "i < 12" by simp
    then have "\<forall>(h, b)\<in>set fs. i < h \<or> h + 8 \<le> i" using heads(2) by auto
    then have "fixed m5 ! i = fixed (ident_msg m 3) ! i" using keep [THEN conjunct2, THEN conjunct2] i by simp
    then show "take 12 (fixed m') ! i = take 12 (fixed (ident_msg m 3)) ! i"
      using i w5 w6 by (simp add: m' m6' SIVAL_def nth_overwrite wf_msg_def)
  qed
  then have "take 8 (fixed m') = take 8 (fixed (ident_msg m 3))"
    by (rule take_shorter) simp
  moreover have "IVAL (fixed m') 8 = IVAL (fixed (ident_msg m 3)) 8"
  proof -
    have "drop 8 (take 12 (fixed m')) = drop 8 (take 12 (fixed (ident_msg m 3)))" using pre by simp
    then have "take 4 (drop 8 (fixed m')) = take 4 (drop 8 (fixed (ident_msg m 3)))" by (simp add: drop_take)
    then show ?thesis by (rule IVAL_cong)
  qed
  moreover have "IVAL (fixed m') 60 = IVAL ch ch_flags"
    using w6 le_word_le_bytes [of "IVAL ch ch_flags" "[]"]
    by (simp add: m' SIVAL_def IVAL_def [of "overwrite _ _ _"] wf_msg_def drop_overwrite)
  moreover have "wf_msg 64 m'" using w6 by (simp add: m' SIVAL_def wf_msg_def)
  moreover have "take 8 (fixed (ident_msg m 3)) = NTLMSSP" "IVAL (fixed (ident_msg m 3)) 8 = 3"
    using ident_read [of "fixed m" 3] m by (simp_all add: ident_msg_def raw_msg_def)
  ultimately show ?thesis unfolding fs_def [symmetric] resp_flags_def by auto
qed

lemma response_room:
  assumes "raw_msg 64 m" and "length p14 = 15" "length wpwd = 129" "c_string password"
    and "GetUnicodeString ch ch_uDomain = Some d"
  shows "buildSmbNtlmAuthResponse p14 wpwd ch m user password = None
    \<longleftrightarrow> 48 + 2 * length (domain_sent user d) + 4 * length (fst (split_user user)) > 1024"
proof -
  define fs where "fs = response_fields (take 8 (drop ch_data ch)) password (domain_sent user d) (fst (split_user user))"
  have w0: "wf_msg 64 (ident_msg m 3)" using assms(1) by (simp add: wf_ident_msg)
  have "\<forall>(h, b)\<in>set fs. h + 8 \<le> 64" by (auto simp: fs_def response_fields_def ntlm_offsets)
  from add_all_fits [OF w0 this]
  have none: "add_all fs (ident_msg m 3) = None \<longleftrightarrow> 48 + 2 * length (domain_sent user d) + 4 * length (fst (split_user user)) > 1024"
    by (simp add: fs_def response_fields_def ident_msg_def)
  have "AddBytes resp_sessionKey None m5
      = Some (m5\<lparr>fixed := SIVAL (SSVAL (SSVAL (fixed m5) resp_sessionKey 0) (resp_sessionKey + 2) 0) (resp_sessionKey + 4)
          (word_of_nat (bufIndex m5))\<rparr>)" for m5
    by (simp add: AddBytes_def)
  then show ?thesis
    unfolding buildResponse_eq [OF assms(2-5)] fs_def [symmetric] none [symmetric]
    by (cases "add_all fs (ident_msg m 3)") (auto simp: bind_eq_None_conv)
qed

section \<open>Properties\<close>



text \<open>
  The response is well-formed: its identification and type are set, it repeats the flags of the
  challenge, and each of its headers points to the bytes of its field: the LM and the NT response to
  the challenge, and domain, user and workstation in UTF-16.
\<close>

theorem ntlm_response_fields:
  assumes "raw_msg 64 m" and "length p14 = 15" "length wpwd = 129" "c_string password"
    and "GetUnicodeString ch ch_uDomain = Some d"
    and "domain_sent user d \<noteq> []" "fst (split_user user) \<noteq> []"
    and "buildSmbNtlmAuthResponse p14 wpwd ch m user password = Some m'"
  shows "take 8 (fixed m') = NTLMSSP \<and> IVAL (fixed m') 8 = 3 \<and> IVAL (fixed m') resp_flags = IVAL ch ch_flags
    \<and> field m' resp_lm = E_P24 (lm_hash password @ replicate 5 0) (take 8 (drop ch_data ch))
    \<and> field m' resp_nt = E_P24 (md4_spec (nt_bytes (take 128 password)) @ replicate 5 0) (take 8 (drop ch_data ch))
    \<and> field m' resp_uDomain = nt_bytes (domain_sent user d)
    \<and> field m' resp_uUser = nt_bytes (fst (split_user user)) \<and> field m' resp_uWks = nt_bytes (fst (split_user user))"
proof -
  note h = response_holds [OF assms]
  then have w: "wf_msg 64 m'" by blast
  show ?thesis using h by (simp add: response_fields_def holds_field [OF w])
qed

definition short_challenge :: "byte list" where
  "short_challenge = NTLMSSP @ le_bytes 2 @ le16 4 @ le16 4 @ le_bytes 32 @ le_bytes 0x8201
     @ [1, 2, 3, 4, 5, 6, 7, 8] @ [0x44, 0, 0x4d, 0]"

theorem ntlm_response_fields_witness:
  "\<exists>m'. buildSmbNtlmAuthResponse (replicate 15 NUL) (replicate 129 0) short_challenge
      \<lparr>fixed = replicate 64 0, mbuf = replicate 1024 0, bufIndex = 0\<rparr> ''user'' ''pw'' = Some m'
    \<and> field m' resp_uDomain = nt_bytes ''DM'' \<and> field m' resp_uUser = nt_bytes ''user''"
proof -
  let ?m = "\<lparr>fixed = replicate 64 0, mbuf = replicate 1024 0, bufIndex = 0\<rparr>"
  have d: "GetUnicodeString short_challenge ch_uDomain = Some ''DM''" by code_simp
  have u: "split_user ''user'' = (''user'', None)" by code_simp
  have m: "raw_msg 64 ?m" "c_string ''pw''" by (simp_all add: raw_msg_def c_string_def)
  obtain m' where "buildSmbNtlmAuthResponse (replicate 15 NUL) (replicate 129 0) short_challenge ?m ''user'' ''pw'' = Some m'"
    using response_room [OF m(1) _ _ m(2) d, of "replicate 15 NUL" "replicate 129 0" "''user''"]
    by (auto simp: u domain_sent_def)
  with ntlm_response_fields [OF m(1) _ _ m(2) d _ _ this] show ?thesis by (auto simp: u domain_sent_def)
qed

text \<open>
  The buffer of the response has_field 1024 bytes, and nothing checks that the domain of the server and
  the user name fit: the message is built without leaving the buffer if and only if 48 bytes, twice
  the length of the domain and four times that of the user name are at most 1024. A challenge that
  passes every check may exceed this.
\<close>

theorem ntlm_response_room:
  assumes "raw_msg 64 m" and "length p14 = 15" "length wpwd = 129" "c_string password"
    and "GetUnicodeString ch ch_uDomain = Some d"
  shows "buildSmbNtlmAuthResponse p14 wpwd ch m user password = None
    \<longleftrightarrow> 48 + 2 * length (domain_sent user d) + 4 * length (fst (split_user user)) > 1024"
  by (rule response_room) (fact assms)+

text \<open>A challenge with a domain of 520 characters.\<close>

definition long_challenge :: "byte list" where
  "long_challenge = NTLMSSP @ le_bytes 2 @ le16 1040 @ le16 1040 @ le_bytes 32 @ replicate 1056 0x41"

lemma long_challenge_ok:
  "length long_challenge = 1076" "challenge_ok long_challenge 1076" "GetUnicodeString long_challenge ch_uDomain = Some (replicate 520 CHR ''A'')"
proof -
  show l: "length long_challenge = 1076" by (simp add: long_challenge_def)
  have i: "take 20 long_challenge = NTLMSSP @ le_bytes 2 @ le16 1040 @ le16 1040 @ le_bytes 32" by (simp add: long_challenge_def)
  have off: "IVAL long_challenge 16 = 32" and len: "SVAL long_challenge 12 = 1040" and ty: "IVAL long_challenge 8 = 2"
    using SVAL_le16 [of long_challenge 12 1040]
    by (simp_all add: IVAL_def long_challenge_def le_word_le_bytes nth_append le16_def)
  have n: "long_challenge ! (32 + 2 * i) = 0x41" if "i < 520" for i
    using that by (simp add: long_challenge_def nth_append)
  show "challenge_ok long_challenge 1076"
    using i off len ty by (simp add: challenge_ok_def ntlm_offsets long_challenge_def)
  have c: "chr 65 = CHR ''A''" by code_simp
  have "map (\<lambda>i. chr (unat (long_challenge ! (32 + 2 * i) AND 0x7f))) [0..<520] = replicate 520 CHR ''A''"
    by (rule nth_equalityI) (simp_all add: n c)
  then show "GetUnicodeString long_challenge ch_uDomain = Some (replicate 520 CHR ''A'')"
    using l by (simp add: GetUnicodeString_def unicodeToString_def ch_uDomain_def off len cstr_of_def del: upt_rec_numeral map_eq_conv)
qed

theorem ntlm_response_room_witness:
  "challenge_ok long_challenge 1076 \<and>
   buildSmbNtlmAuthResponse (replicate 15 NUL) (replicate 129 0) long_challenge
     \<lparr>fixed = replicate 64 0, mbuf = replicate 1024 0, bufIndex = 0\<rparr> ''user'' ''pw'' = None"
proof -
  have "split_user ''user'' = (''user'', None)" by code_simp
  then show ?thesis
    using long_challenge_ok ntlm_response_room [of "\<lparr>fixed = replicate 64 0, mbuf = replicate 1024 0, bufIndex = 0\<rparr>"
        "replicate 15 NUL" "replicate 129 0" "''pw''" long_challenge "replicate 520 CHR ''A''" "''user''"]
    by (simp add: raw_msg_def c_string_def domain_sent_def)
qed

end
