(* ===== verification/Netrc.thy ===== *)
theory Netrc
  imports Stdio
begin

section \<open>The netrc parser (netrc.c)\<close>

text \<open>
  The line buffer holds the characters of the line and their terminator; the scanner edits it in
  place with an index \<open>p\<close> that reads and an index \<open>pp\<close> that writes, and an access behind the
  terminator is \<open>None\<close>. Entries are values, as each has one owner at a time: the variable
  \<open>current\<close> or the list. The warnings are left out.
\<close>

record netrc_entry =
  entry_host :: "string option"
  entry_login :: "string option"
  entry_password :: "string option"

datatype netrc_token = tok_nothing | tok_account | tok_login | tok_macdef | tok_machine | tok_password

record netrc_state =
  last_token :: netrc_token
  current :: "netrc_entry option"
  retval :: "netrc_entry list"

definition zero_entry :: netrc_entry where
  "zero_entry = \<lparr>entry_host = None, entry_login = None, entry_password = None\<rparr>"

definition maybe_add_to_list ::
  "netrc_entry option \<Rightarrow> netrc_entry list \<Rightarrow> netrc_entry option \<times> netrc_entry list" where
  "maybe_add_to_list newentry list =
     (case newentry of
        None \<Rightarrow> (Some zero_entry, list)
      | Some a \<Rightarrow> if entry_login a = None then (Some zero_entry, list) else (Some zero_entry, a # list))"

definition add_entry :: "netrc_state \<Rightarrow> netrc_state" where
  "add_entry st = (let (c, l) = maybe_add_to_list (current st) (retval st) in st\<lparr>current := c, retval := l\<rparr>)"

subsection \<open>Tokens\<close>

function skip_ws :: "string \<Rightarrow> nat \<Rightarrow> nat option" where
  "skip_ws buf p =
     (case peek buf p of
        None \<Rightarrow> None
      | Some c \<Rightarrow> if c \<noteq> NUL \<and> isspace c then skip_ws buf (p + 1) else Some p)"
  by pat_completeness auto
termination
  by (relation "measure (\<lambda>(buf, p). length buf - p)") (auto simp: peek_def split: if_splits)

function find_end :: "string \<Rightarrow> nat \<Rightarrow> nat \<Rightarrow> char \<Rightarrow> (string \<times> nat \<times> nat) option" where
  "find_end buf p pp quote_char =
     (case peek buf p of
        None \<Rightarrow> None
      | Some c \<Rightarrow>
          if c \<noteq> NUL \<and> (quote_char \<noteq> NUL \<or> \<not> isspace c) then
            if quote_char \<noteq> NUL then
              (if quote_char = c then find_end buf (p + 1) pp NUL
               else case poke buf pp c of None \<Rightarrow> None | Some b \<Rightarrow> find_end b (p + 1) (pp + 1) quote_char)
            else if c = DQUOTE \<or> c = CHR 0x27 then find_end buf (p + 1) pp c
            else (case poke buf pp c of None \<Rightarrow> None | Some b \<Rightarrow> find_end b (p + 1) (pp + 1) quote_char)
          else Some (buf, p, pp))"
  by pat_completeness auto
termination
  by (relation "measure (\<lambda>(buf, p, pp, q). length buf - p)") (auto simp: peek_def poke_def split: if_splits)

declare skip_ws.simps [simp del] find_end.simps [simp del]

subsection \<open>Values and keywords\<close>

text \<open>What a value does to the entry, by the keyword before it, and the keywords.\<close>

definition take_value :: "string \<Rightarrow> netrc_state \<Rightarrow> netrc_state" where
  "take_value tok st =
     (case last_token st of
        tok_login \<Rightarrow> st\<lparr>current := map_option (\<lambda>e. e\<lparr>entry_login := Some tok\<rparr>) (current st)\<rparr>
      | tok_machine \<Rightarrow>
          let st1 = add_entry st in st1\<lparr>current := map_option (\<lambda>e. e\<lparr>entry_host := Some tok\<rparr>) (current st1)\<rparr>
      | tok_password \<Rightarrow> st\<lparr>current := map_option (\<lambda>e. e\<lparr>entry_password := Some tok\<rparr>) (current st)\<rparr>
      | _ \<Rightarrow> st)"

definition take_keyword :: "string \<Rightarrow> netrc_state \<Rightarrow> netrc_state" where
  "take_keyword tok st =
     (if tok = ''default'' then add_entry st
      else if tok = ''login'' then st\<lparr>last_token := tok_login\<rparr>
      else if tok = ''user'' then st\<lparr>last_token := tok_login\<rparr>
      else if tok = ''macdef'' then st\<lparr>last_token := tok_macdef\<rparr>
      else if tok = ''machine'' then st\<lparr>last_token := tok_machine\<rparr>
      else if tok = ''password'' then st\<lparr>last_token := tok_password\<rparr>
      else if tok = ''passwd'' then st\<lparr>last_token := tok_password\<rparr>
      else if tok = ''account'' then st\<lparr>last_token := tok_account\<rparr>
      else st)"

definition take_token :: "string \<Rightarrow> netrc_state \<Rightarrow> netrc_state" where
  "take_token tok st =
     (let st1 = take_value tok st in
      if last_token st1 \<noteq> tok_nothing then st1\<lparr>last_token := tok_nothing\<rparr> else take_keyword tok st1)"

subsection \<open>Lines and files\<close>

lemma skip_ws_bound: "skip_ws buf p = Some p' \<Longrightarrow> p \<le> p' \<and> p' < length buf \<and> \<not> (buf ! p' \<noteq> NUL \<and> isspace (buf ! p'))"
proof (induction buf p rule: skip_ws.induct)
  case (1 buf p)
  from "1.prems" show ?case
    using "1.IH" by (auto simp: skip_ws.simps [of buf p] peek_def split: if_splits option.splits)
qed

lemma find_end_bound:
  "find_end buf p pp q = Some (b, p', pp') \<Longrightarrow> p \<le> p' \<and> length b = length buf \<and> p' < length buf"
proof (induction buf p pp q rule: find_end.induct)
  case (1 buf p pp q)
  show ?case
  proof (cases "p < length buf \<and> buf ! p \<noteq> NUL \<and> (q \<noteq> NUL \<or> \<not> isspace (buf ! p))")
    case False
    then show ?thesis using "1.prems" by (auto simp: find_end.simps [of buf p] peek_def split: if_splits)
  next
    case True
    note IH = "1.IH" [of "buf ! p"]
    have pk: "peek buf p = Some (buf ! p)" using True by simp
    consider (skip) q' where "find_end buf (p + 1) pp q' = Some (b, p', pp')" "q = buf ! p \<and> q' = NUL \<and> q \<noteq> NUL \<or> q = NUL \<and> q' = buf ! p \<and> (buf ! p = DQUOTE \<or> buf ! p = CHR 0x27)"
      | (copy) "pp < length buf" "find_end (buf[pp := buf ! p]) (p + 1) (pp + 1) q = Some (b, p', pp')"
          "q \<noteq> buf ! p" "q \<noteq> NUL \<or> \<not> (buf ! p = DQUOTE \<or> buf ! p = CHR 0x27)"
      using "1.prems" True by (auto simp: find_end.simps [of buf p] poke_def split: if_splits)
    then show ?thesis
    proof cases
      case skip
      then show ?thesis using IH(1,3) [OF pk] True by (elim disjE) auto
    next
      case copy
      then show ?thesis using IH(2,4) [OF pk, of "buf[pp := buf ! p]"] True by (cases "q = NUL") auto
    qed
  qed
qed

lemma find_end_moves:
  assumes "find_end buf p pp q = Some (b, p', pp')" "buf ! p \<noteq> NUL" "\<not> isspace (buf ! p)"
  shows "p < p'"
  using assms find_end_bound [of buf "p + 1"] find_end_bound [of "buf[pp := buf ! p]" "p + 1"]
  by (subst (asm) (1) find_end.simps) (auto simp: peek_def poke_def Suc_le_eq split: if_splits)

function parse_line :: "string \<Rightarrow> nat \<Rightarrow> netrc_state \<Rightarrow> netrc_state option" where
  "parse_line buf p st =
     (case peek buf p of
        None \<Rightarrow> None
      | Some c \<Rightarrow>
          if c \<noteq> NUL \<and> last_token st \<noteq> tok_macdef then
            (case skip_ws buf p of
               None \<Rightarrow> None
             | Some tok \<Rightarrow>
                 if buf ! tok = CHR ''#'' then Some st
                 else
                   (case find_end buf tok tok NUL of
                      None \<Rightarrow> None
                    | Some (b1, p1, pp) \<Rightarrow>
                        let (b2, p2) = (if b1 ! p1 \<noteq> NUL then (b1[p1 := NUL], p1 + 1) else (b1, p1));
                            b3 = b2[pp := NUL] in
                        parse_line b3 p2 (take_token (cstr_of (drop tok b3)) st)))
          else Some st)"
  by pat_completeness auto
termination
proof (relation "measure (\<lambda>(buf, p, st). length buf - p)", simp)
  fix buf p and st :: netrc_state and c tok a b1 aa p1 pp x b2 p2 b3
  assume h: "peek buf p = Some c" "c \<noteq> NUL \<and> last_token st \<noteq> tok_macdef" "skip_ws buf p = Some tok"
    "find_end buf tok tok NUL = Some a" "(b1, aa) = a" "(p1, pp) = aa"
    "x = (if b1 ! p1 \<noteq> NUL then (b1[p1 := NUL], p1 + 1) else (b1, p1))" "(b2, p2) = x" "b3 = b2[pp := NUL]"
  have f: "find_end buf tok tok NUL = Some (b1, p1, pp)" using h by simp
  have "p < p1" using skip_ws_bound [OF h(3)] find_end_bound [OF f] find_end_moves [OF f] h(1,2)
    by (cases "tok = p") (auto simp: peek_def split: if_splits)
  then show "((b3, p2, take_token (cstr_of (drop tok b3)) st), buf, p, st) \<in> measure (\<lambda>(buf, p, st). length buf - p)"
    using find_end_bound [OF f] h by (auto split: if_splits)
qed

declare parse_line.simps [simp del]

definition strip_crlf :: "string \<Rightarrow> string" where
  "strip_crlf s = rev (dropWhile isspace (rev s))"

definition do_line :: "string \<Rightarrow> netrc_state \<Rightarrow> netrc_state option" where
  "do_line buf st =
     (let s = strip_crlf (cstr_of buf) in
      if s = [] then Some (if last_token st = tok_macdef then st\<lparr>last_token := tok_nothing\<rparr> else st)
      else parse_line (s @ [NUL]) 0 st)"

function read_lines :: "string \<Rightarrow> netrc_state \<Rightarrow> netrc_state option" where
  "read_lines s st =
     (if s = [] then Some st
      else
        let (line, r) = fgets POPBUFSIZE s in
        (case do_line line st of None \<Rightarrow> None | Some st1 \<Rightarrow> read_lines r st1))"
  by pat_completeness auto
termination
  by (relation "measure (\<lambda>(s, st). length s)") (auto simp: fgets_def POPBUFSIZE_def Let_def min_def)

declare read_lines.simps [simp del]

fun reverse_list :: "netrc_entry list \<Rightarrow> netrc_entry list \<Rightarrow> netrc_entry list" where
  "reverse_list [] ret = ret"
| "reverse_list (e # cur) ret = reverse_list cur (e # ret)"

text \<open>\<open>content\<close> is the content of the file, \<open>None\<close> when it cannot be opened.\<close>

definition parse_netrc :: "string option \<Rightarrow> netrc_entry list option" where
  "parse_netrc content =
     (case content of
        None \<Rightarrow> Some []
      | Some s \<Rightarrow>
          (case read_lines s \<lparr>last_token = tok_nothing, current = None, retval = []\<rparr> of
             None \<Rightarrow> None
           | Some st \<Rightarrow> Some (reverse_list (retval (add_entry st)) [])))"

fun search_netrc :: "netrc_entry list \<Rightarrow> string \<Rightarrow> string \<Rightarrow> netrc_entry option" where
  "search_netrc [] h l = None"
| "search_netrc (e # list) h l =
     (if entry_host e = Some h \<and> (entry_login e = None \<or> entry_login e = Some l) then Some e
      else search_netrc list h l)"

end
