(* ===== verification/NetrcSpec.thy ===== *)
theory NetrcSpec
  imports Netrc
begin

section \<open>What the netrc parser accepts\<close>

text \<open>
  The scanner on the buffer computes tokens as a function on strings does; a file in the usual form
  is read back as the entries it was made from.
\<close>

subsection \<open>The tokens of a line\<close>

text \<open>The token with its quotes removed, and the text from the separator on.\<close>

fun unquote :: "char \<Rightarrow> string \<Rightarrow> string \<times> string" where
  "unquote q [] = ([], [])"
| "unquote q (c # s) =
     (if q = NUL \<and> isspace c then ([], c # s)
      else if q \<noteq> NUL then
        (if q = c then unquote NUL s else (let (t, r) = unquote q s in (c # t, r)))
      else if c = DQUOTE \<or> c = CHR 0x27 then unquote c s
      else (let (t, r) = unquote q s in (c # t, r)))"

lemma unquote_length: "length (snd (unquote q s)) \<le> length s"
  by (induction q s rule: unquote.induct) (auto simp: Let_def split: prod.splits)

lemma unquote_length_less: "s \<noteq> [] \<Longrightarrow> \<not> isspace (hd s) \<Longrightarrow> length (snd (unquote NUL s)) < length s"
proof (cases s)
  case (Cons c r)
  assume "s \<noteq> []" "\<not> isspace (hd s)"
  with Cons unquote_length [of NUL r] unquote_length [of c r] show ?thesis by (auto simp: Let_def split: prod.splits)
qed simp

function line_tokens :: "string \<Rightarrow> string list" where
  "line_tokens s =
     (let s1 = dropWhile isspace s in
      if s = [] then []
      else if s1 \<noteq> [] \<and> hd s1 = CHR ''#'' then []
      else (let (tok, rest) = unquote NUL s1 in tok # line_tokens (tl rest)))"
  by pat_completeness auto
termination
proof (relation "measure length", simp)
  fix s s1 x tok rest
  assume h: "s1 = dropWhile isspace s" "s \<noteq> []" "\<not> (s1 \<noteq> [] \<and> hd s1 = CHR ''#'')" "x = unquote NUL s1" "(tok, rest) = x"
  have l: "length s1 \<le> length s" unfolding h(1) by (rule length_dropWhile_le)
  have "length (tl rest) < length s"
  proof (cases "s1 = []")
    case True
    then have "rest = []" using h(4,5) by simp
    then show ?thesis using h(2) by simp
  next
    case False
    then have "\<not> isspace (hd s1)" unfolding h(1) by (rule hd_dropWhile)
    then have "length (snd (unquote NUL s1)) < length s1" using False unquote_length_less by blast
    then have "length rest < length s1" using h(4,5) by (metis snd_conv)
    then show ?thesis using l by simp
  qed
  then show "(tl rest, s) \<in> measure length" by simp
qed

declare line_tokens.simps [simp del]

fun feed :: "string list \<Rightarrow> netrc_state \<Rightarrow> netrc_state" where
  "feed [] st = st"
| "feed (t # ts) st = (if last_token st = tok_macdef then st else feed ts (take_token t st))"

subsection \<open>The scanner on the buffer\<close>

text \<open>The text behind \<open>p\<close> in a buffer.\<close>

definition behind :: "string \<Rightarrow> nat \<Rightarrow> string \<Rightarrow> bool" where
  "behind buf p s \<longleftrightarrow> p \<le> length buf \<and> drop p buf = s @ [NUL]"

lemma drop_nonempty: "drop p buf = x # xs \<Longrightarrow> p < length buf"
  by (metis drop_all list.distinct(1) not_le)

lemma behind_Nil: "behind buf p [] \<Longrightarrow> peek buf p = Some NUL"
  by (auto simp: behind_def peek_def nth_via_drop dest: drop_nonempty)

lemma behind_Cons: "behind buf p (c # s) \<Longrightarrow> peek buf p = Some c \<and> p < length buf \<and> behind buf (p + 1) s"
proof -
  assume "behind buf p (c # s)"
  then have d: "drop p buf = c # s @ [NUL]" and p: "p < length buf" by (auto simp: behind_def dest: drop_nonempty)
  have "drop (p + 1) buf = tl (drop p buf)" by (simp add: tl_drop drop_Suc)
  with d p show ?thesis by (auto simp: behind_def peek_def nth_via_drop)
qed

lemma skip_ws_behind: "behind buf p s \<Longrightarrow> c_string s \<Longrightarrow>
  \<exists>p'. skip_ws buf p = Some p' \<and> p \<le> p' \<and> behind buf p' (dropWhile isspace s)"
proof (induction s arbitrary: p)
  case Nil
  then show ?case by (auto simp: skip_ws.simps [of buf p] behind_Nil)
next
  case (Cons c s)
  note b = behind_Cons [OF Cons.prems(1)]
  show ?case
  proof (cases "isspace c")
    case True
    then show ?thesis
      using b Cons.IH [of "p + 1"] Cons.prems(2) by (auto simp: skip_ws.simps [of buf p] c_string_Cons)
  next
    case False
    then show ?thesis using b Cons.prems by (auto simp: skip_ws.simps [of buf p])
  qed
qed

lemma behind_update: "behind buf p s \<Longrightarrow> i < p \<Longrightarrow> behind (buf[i := x]) p s"
  by (simp add: behind_def)

lemma find_end_behind:
  "behind buf p s \<Longrightarrow> c_string s \<Longrightarrow> pp \<le> p \<Longrightarrow> unquote q s = (tok, rest) \<Longrightarrow>
     \<exists>b p'. find_end buf p pp q = Some (b, p', pp + length tok) \<and> behind b p' rest \<and> p \<le> p'
       \<and> pp + length tok \<le> p' \<and> take (pp + length tok) b = take pp buf @ tok"
proof (induction s arbitrary: buf p pp q tok)
  case Nil
  then show ?case by (auto simp: find_end.simps [of buf p] behind_Nil)
next
  case (Cons c s)
  note b = behind_Cons [OF Cons.prems(1)]
  have c: "c \<noteq> NUL" "c_string s" using Cons.prems(2) by (simp_all add: c_string_Cons)
  have skip: ?case if "unquote q' s = (tok, rest)" "find_end buf p pp q = find_end buf (p + 1) pp q'" for q'
    using Cons.IH [of buf "p + 1" pp q' tok] b c(2) Cons.prems(3) that by auto
  have copy: ?case if "unquote q s = (t, rest)" "tok = c # t"
    "find_end buf p pp q = find_end (buf[pp := c]) (p + 1) (pp + 1) q" for t
  proof -
    have "behind (buf[pp := c]) (p + 1) s" using b Cons.prems(3) by (intro behind_update) auto
    moreover have "take (pp + 1) (buf[pp := c]) = take pp buf @ [c]"
      using b Cons.prems(3) by (simp add: take_Suc_conv_app_nth)
    ultimately show ?thesis
      using Cons.IH [of "buf[pp := c]" "p + 1" "pp + 1" q t] c(2) Cons.prems(3) that by auto
  qed
  have pk: "poke buf pp c = Some (buf[pp := c])" using b Cons.prems(3) by simp
  consider "q = NUL \<and> isspace c" | "q \<noteq> NUL" "q = c" | "q \<noteq> NUL" "q \<noteq> c"
    | "q = NUL" "\<not> isspace c" "c = DQUOTE \<or> c = CHR 0x27" | "q = NUL" "\<not> isspace c" "\<not> (c = DQUOTE \<or> c = CHR 0x27)"
    by blast
  then show ?case
  proof cases
    case 1
    then show ?thesis using b Cons.prems by (auto simp: find_end.simps [of buf p])
  next
    case 2
    then show ?thesis using b c Cons.prems(4) by (intro skip [of NUL]) (auto simp: find_end.simps [of buf p])
  next
    case 3
    then show ?thesis
      using b c pk Cons.prems(4) by (intro copy [of "tl tok"]) (auto simp: find_end.simps [of buf p] split: prod.splits)
  next
    case 4
    then show ?thesis using b c Cons.prems(4) by (intro skip [of c]) (auto simp: find_end.simps [of buf p])
  next
    case 5
    then show ?thesis
      using b c pk Cons.prems(4) by (intro copy [of "tl tok"]) (auto simp: find_end.simps [of buf p] split: prod.splits)
  qed
qed

lemma c_string_Nil [simp]: "c_string []"
  by (simp add: c_string_def)

lemma unquote_c_string: "c_string s \<Longrightarrow> c_string (fst (unquote q s)) \<and> c_string (snd (unquote q s))"
  by (induction q s rule: unquote.induct) (auto simp: c_string_Cons Let_def split: prod.splits)

lemma unquote_rest: "snd (unquote q s) = c # r \<Longrightarrow> isspace c"
  by (induction q s rule: unquote.induct) (auto simp: Let_def split: prod.splits if_splits)

lemma c_string_dropWhile: "c_string s \<Longrightarrow> c_string (dropWhile P s)"
  by (auto simp: c_string_def dest: set_dropWhileD)

lemma c_string_tl: "c_string s \<Longrightarrow> c_string (tl s)"
  by (cases s) (auto simp: c_string_Cons)

lemma behind_nth: "behind buf p s \<Longrightarrow> buf ! p = (case s of [] \<Rightarrow> NUL | c # r \<Rightarrow> c)"
  by (cases s) (auto simp: behind_def nth_via_drop)

lemma parse_line_behind:
  "behind buf p s \<Longrightarrow> c_string s \<Longrightarrow> parse_line buf p st = Some (feed (line_tokens s) st)"
proof (induction s arbitrary: buf p st rule: line_tokens.induct)
  case (1 s)
  define s1 where "s1 = dropWhile isspace s"
  obtain tok rest where u: "unquote NUL s1 = (tok, rest)" by fastforce
  obtain p0 where p0: "skip_ws buf p = Some p0" "p \<le> p0" "behind buf p0 s1"
    using skip_ws_behind [OF 1(2,3)] unfolding s1_def by blast
  have c1: "c_string s1" unfolding s1_def using 1(3) by (rule c_string_dropWhile)
  show ?case
  proof (cases s)
    case Nil
    then show ?thesis using behind_Nil 1(2) by (simp add: parse_line.simps [of buf p] line_tokens.simps)
  next
    case (Cons c r)
    have pk: "peek buf p = Some c" "c \<noteq> NUL" using behind_Cons [of buf p c r] 1(2,3) Cons by (auto simp: c_string_Cons)
    show ?thesis
    proof (cases "last_token st = tok_macdef")
      case True
      then have "feed (line_tokens s) st = st" by (cases "line_tokens s") simp_all
      then show ?thesis using True pk by (simp add: parse_line.simps [of buf p])
    next
      case nm: False
      have h: "buf ! p0 = CHR ''#'' \<longleftrightarrow> s1 \<noteq> [] \<and> hd s1 = CHR ''#''"
        using behind_nth [OF p0(3)] by (cases s1) auto
      show ?thesis
      proof (cases "s1 \<noteq> [] \<and> hd s1 = CHR ''#''")
        case True
        then have "line_tokens s = []" unfolding line_tokens.simps [of s] s1_def [symmetric] by simp
        then show ?thesis using True h nm pk p0(1) by (simp add: parse_line.simps [of buf p])
      next
        case False
        obtain b p1 where f: "find_end buf p0 p0 NUL = Some (b, p1, p0 + length tok)" "behind b p1 rest"
          "p0 + length tok \<le> p1" "take (p0 + length tok) b = take p0 buf @ tok"
          using find_end_behind [OF p0(3) c1 order_refl u] by blast
        define b2p2 where "b2p2 = (if b ! p1 \<noteq> NUL then (b[p1 := NUL], p1 + 1) else (b, p1))"
        define b3 where "b3 = (fst b2p2)[p0 + length tok := NUL]"
        have cr: "c_string tok" "c_string rest" using unquote_c_string [OF c1, of NUL] u by simp_all
        have l: "p1 < length b" using f(2) by (cases rest) (auto simp: behind_def dest: drop_nonempty)
        have "behind b3 (snd b2p2) (tl rest)"
        proof (cases rest)
          case Nil
          then have "b ! p1 = NUL" using behind_nth [OF f(2)] by simp
          then have "b3 = b[p0 + length tok := NUL] \<and> snd b2p2 = p1" by (simp add: b3_def b2p2_def)
          moreover have "b[p1 := NUL] = b" using \<open>b ! p1 = NUL\<close> by (metis list_update_id)
          ultimately show ?thesis using f(2,3) Nil by (cases "p0 + length tok = p1") (auto intro!: behind_update)
        next
          case (Cons x r')
          then have "b ! p1 = x" "x \<noteq> NUL" using behind_nth [OF f(2)] cr(2) by (simp_all add: c_string_Cons)
          then have "b3 = b[p1 := NUL, p0 + length tok := NUL] \<and> snd b2p2 = p1 + 1" by (simp add: b3_def b2p2_def)
          then show ?thesis using behind_Cons f(2,3) Cons by (auto intro!: behind_update)
        qed
        moreover have "cstr_of (drop p0 b3) = tok"
        proof -
          have "take (p0 + length tok) b3 = take p0 buf @ tok" "p0 + length tok < length b3" "b3 ! (p0 + length tok) = NUL"
            using f(3,4) l by (auto simp: b3_def b2p2_def)
          moreover from this have "length (take p0 buf) = p0" using p0(3) by (simp add: behind_def)
          ultimately have t: "drop p0 (take (p0 + length tok) b3) = tok"
            and n: "drop (p0 + length tok) b3 = NUL # drop (p0 + length tok + 1) b3"
            by (simp, simp add: Cons_nth_drop_Suc [symmetric])
          have "take (length tok) (drop p0 b3) = tok" using t by (simp add: take_drop add.commute)
          moreover have "drop (length tok) (drop p0 b3) = NUL # drop (p0 + length tok + 1) b3" using n by (simp add: add.commute)
          ultimately have "take (length tok) (drop p0 b3) = tok"
            "drop (length tok) (drop p0 b3) = NUL # drop (p0 + length tok + 1) b3" by blast+
          then have "drop p0 b3 = tok @ NUL # drop (p0 + length tok + 1) b3" by (metis append_take_drop_id)
          then show ?thesis using cr(1) by (simp add: cstr_of_append_NUL)
        qed
        moreover have "parse_line buf p st = parse_line b3 (snd b2p2) (take_token (cstr_of (drop p0 b3)) st)"
        proof -
          have "buf ! p0 \<noteq> CHR ''#''" using h False by blast
          then show ?thesis
            using pk nm p0(1) f(1)
            by (cases "b ! p1 = NUL") (simp_all add: parse_line.simps [of buf p] b2p2_def b3_def Let_def)
        qed
        ultimately have "parse_line buf p st = Some (feed (line_tokens (tl rest)) (take_token tok st))"
          using 1(1) [OF s1_def _ False u [symmetric] refl, of b3 "snd b2p2" "take_token tok st"] Cons
            c_string_tl [OF cr(2)] by simp
        moreover have "line_tokens s = tok # line_tokens (tl rest)"
          using False u Cons unfolding line_tokens.simps [of s] s1_def [symmetric] by (simp add: Let_def)
        ultimately show ?thesis using nm by simp
      qed
    qed
  qed
qed

subsection \<open>Files\<close>

definition line_spec :: "string \<Rightarrow> netrc_state \<Rightarrow> netrc_state" where
  "line_spec buf st =
     (let s = strip_crlf (cstr_of buf) in
      if s = [] then (if last_token st = tok_macdef then st\<lparr>last_token := tok_nothing\<rparr> else st)
      else feed (line_tokens s) st)"

lemma do_line_eq: "do_line buf st = Some (line_spec buf st)"
proof -
  define s where "s = strip_crlf (cstr_of buf)"
  have "set s \<subseteq> set (cstr_of buf)" unfolding s_def strip_crlf_def by (auto dest: set_dropWhileD)
  then have "c_string s" using c_string_cstr_of [of buf] by (auto simp: c_string_def)
  then have "parse_line (s @ [NUL]) 0 st = Some (feed (line_tokens s) st)"
    by (intro parse_line_behind) (simp add: behind_def)
  then show ?thesis unfolding do_line_def line_spec_def s_def [symmetric] Let_def by simp
qed

lemma read_lines_eq: "read_lines s st = Some (fold line_spec (file_lines s) st)"
proof (induction s st rule: read_lines.induct)
  case (1 s st)
  then show ?case
    by (cases "fgets POPBUFSIZE s") (simp add: read_lines.simps [of s] file_lines.simps [of s] do_line_eq)
qed

lemma reverse_list_eq: "reverse_list l r = rev l @ r"
  by (induction l arbitrary: r) simp_all

definition start :: netrc_state where
  "start = \<lparr>last_token = tok_nothing, current = None, retval = []\<rparr>"

lemma parse_netrc_eq: "parse_netrc (Some s) = Some (rev (retval (add_entry (fold line_spec (file_lines s) start))))"
  by (simp add: parse_netrc_def read_lines_eq start_def reverse_list_eq)

subsection \<open>Entries have a login name\<close>

definition logins :: "netrc_state \<Rightarrow> bool" where
  "logins st \<longleftrightarrow> (\<forall>e\<in>set (retval st). entry_login e \<noteq> None)"

lemma logins_add_entry: "logins st \<Longrightarrow> logins (add_entry st)"
  by (auto simp: logins_def add_entry_def maybe_add_to_list_def split: option.splits)

lemma logins_take_token: "logins st \<Longrightarrow> logins (take_token tok st)"
proof -
  assume l: "logins st"
  have "logins (take_value tok st)"
    using logins_add_entry [OF l] l by (auto simp: take_value_def Let_def logins_def split: netrc_token.splits)
  moreover have "logins (take_keyword tok x)" if "logins x" for x
    using logins_add_entry [OF that] that by (auto simp: take_keyword_def logins_def)
  ultimately show ?thesis by (simp add: take_token_def Let_def) (simp add: logins_def)
qed

lemma logins_feed: "logins st \<Longrightarrow> logins (feed ts st)"
  by (induction ts arbitrary: st) (simp_all add: logins_take_token)

lemma logins_line: "logins st \<Longrightarrow> logins (line_spec l st)"
  using logins_feed [of st] by (auto simp: line_spec_def Let_def) (simp add: logins_def)

lemma logins_file: "logins st \<Longrightarrow> logins (fold line_spec ls st)"
  by (induction ls arbitrary: st) (simp_all add: logins_line)

subsection \<open>Files in the usual form\<close>

definition quoted :: "string \<Rightarrow> string" where
  "quoted t = DQUOTE # t @ [DQUOTE]"

definition show_entry :: "netrc_entry \<Rightarrow> string" where
  "show_entry e =
     (case entry_host e of Some h \<Rightarrow> ''machine '' @ quoted h | None \<Rightarrow> ''default'')
     @ '' login '' @ quoted (the (entry_login e))
     @ (case entry_password e of Some p \<Rightarrow> '' password '' @ quoted p | None \<Rightarrow> [])"

definition show_netrc :: "netrc_entry list \<Rightarrow> string" where
  "show_netrc es = concat (map (\<lambda>e. show_entry e @ [LF]) es)"

definition quotable :: "string \<Rightarrow> bool" where
  "quotable t \<longleftrightarrow> NUL \<notin> set t \<and> LF \<notin> set t \<and> DQUOTE \<notin> set t"

definition good_entry :: "netrc_entry \<Rightarrow> bool" where
  "good_entry e \<longleftrightarrow> entry_login e \<noteq> None \<and> pred_option quotable (entry_host e) \<and> pred_option quotable (entry_login e)
     \<and> pred_option quotable (entry_password e)
     \<and> length (show_entry e) < 511"

lemma unquote_quoted: "DQUOTE \<notin> set t \<Longrightarrow> unquote DQUOTE (t @ DQUOTE # r) = (t @ fst (unquote NUL r), snd (unquote NUL r))"
  by (induction t) (auto simp: Let_def split: prod.splits)

lemma tokens_quoted: "DQUOTE \<notin> set t \<Longrightarrow> line_tokens (quoted t) = [t]"
  by (subst line_tokens.simps)
    (simp add: quoted_def unquote_quoted isspace_def Let_def line_tokens.simps [of "[]"])

lemma tokens_quoted_space: "DQUOTE \<notin> set t \<Longrightarrow> line_tokens (quoted t @ SP # r) = t # line_tokens r"
  by (subst line_tokens.simps) (simp add: quoted_def unquote_quoted isspace_def Let_def)

lemma tokens_space: "line_tokens (SP # r) = line_tokens r" if "r \<noteq> []" "\<not> isspace (hd r)" 
proof -
  have "dropWhile isspace (SP # r) = dropWhile isspace r" by (simp add: isspace_def)
  then show ?thesis using that by (simp add: line_tokens.simps [of "SP # r"] line_tokens.simps [of r])
qed

definition word_ok :: "string \<Rightarrow> bool" where
  "word_ok w \<longleftrightarrow> w \<noteq> [] \<and> hd w \<noteq> CHR ''#'' \<and> (\<forall>c\<in>set w. \<not> isspace c \<and> c \<noteq> DQUOTE \<and> c \<noteq> CHR 0x27)"

lemma unquote_word: "(\<forall>c\<in>set w. \<not> isspace c \<and> c \<noteq> DQUOTE \<and> c \<noteq> CHR 0x27) \<Longrightarrow> unquote NUL (w @ SP # r) = (w, SP # r)"
  by (induction w) (auto simp: isspace_def)

lemma tokens_word: "word_ok w \<Longrightarrow> line_tokens (w @ SP # r) = w # line_tokens r"
proof -
  assume w: "word_ok w"
  then have "dropWhile isspace (w @ SP # r) = w @ SP # r" by (cases w) (auto simp: word_ok_def)
  then show ?thesis
    using w unquote_word [of w r] by (subst line_tokens.simps) (simp add: word_ok_def Let_def)
qed

lemma word_ok_words: "word_ok ''machine''" "word_ok ''default''" "word_ok ''login''" "word_ok ''password''"
  by (simp_all add: word_ok_def isspace_def)

text \<open>The tokens of an entry.\<close>

definition entry_tokens :: "netrc_entry \<Rightarrow> string list" where
  "entry_tokens e =
     (case entry_host e of Some h \<Rightarrow> [''machine'', h] | None \<Rightarrow> [''default''])
     @ [''login'', the (entry_login e)]
     @ (case entry_password e of Some p \<Rightarrow> [''password'', p] | None \<Rightarrow> [])"

lemma good_entry_parts:
  assumes "good_entry e"
  obtains l where "entry_login e = Some l" "quotable l" "\<And>h. entry_host e = Some h \<Longrightarrow> quotable h"
    "\<And>p. entry_password e = Some p \<Longrightarrow> quotable p"
proof -
  obtain l where "entry_login e = Some l" using assms by (auto simp: good_entry_def)
  with assms show ?thesis by (intro that [of l]) (auto simp: good_entry_def)
qed

lemma show_entry_tokens:
  assumes "good_entry e"
  shows "line_tokens (show_entry e) = entry_tokens e"
proof -
  obtain l where l: "entry_login e = Some l" "quotable l" "\<And>h. entry_host e = Some h \<Longrightarrow> quotable h"
    "\<And>p. entry_password e = Some p \<Longrightarrow> quotable p" using good_entry_parts [OF assms] by blast
  define rest where "rest = ''login '' @ quoted l @ (case entry_password e of Some p \<Rightarrow> '' password '' @ quoted p | None \<Rightarrow> [])"
  have "line_tokens rest = ''login'' # l # (case entry_password e of Some p \<Rightarrow> [''password'', p] | None \<Rightarrow> [])"
  proof -
    have "line_tokens rest = ''login'' # line_tokens (quoted l @ (case entry_password e of Some p \<Rightarrow> '' password '' @ quoted p | None \<Rightarrow> []))"
      using tokens_word [OF word_ok_words(3)] by (simp add: rest_def)
    also have "line_tokens (quoted l @ (case entry_password e of Some p \<Rightarrow> '' password '' @ quoted p | None \<Rightarrow> []))
        = l # (case entry_password e of Some p \<Rightarrow> [''password'', p] | None \<Rightarrow> [])"
    proof (cases "entry_password e")
      case None
      then show ?thesis using l(2) tokens_quoted [of l] by (simp add: quotable_def)
    next
      case (Some p)
      then show ?thesis
        using l(2) l(4) [OF Some] tokens_quoted_space [of l "''password '' @ quoted p"] tokens_word [OF word_ok_words(4), of "quoted p"]
          tokens_quoted [of p] by (simp add: quotable_def)
    qed
    finally show ?thesis .
  qed
  then show ?thesis
    using l(1,3) tokens_word [OF word_ok_words(2), of rest] tokens_quoted_space [of _ rest]
      tokens_word [OF word_ok_words(1), of "quoted _ @ SP # rest"]
    by (cases "entry_host e") (simp_all add: show_entry_def rest_def entry_tokens_def quotable_def)
qed

text \<open>Reading one line of such a file.\<close>

definition put_aside :: "netrc_state \<Rightarrow> netrc_entry list" where
  "put_aside st = retval (add_entry st)"

lemma feed_entry:
  assumes "good_entry e" "last_token st = tok_nothing"
  shows "feed (entry_tokens e) st = \<lparr>last_token = tok_nothing, current = Some e, retval = put_aside st\<rparr>"
proof -
  obtain l where l: "entry_login e = Some l" using good_entry_parts [OF assms(1)] by blast
  have a: "current (add_entry st) = Some zero_entry" "last_token (add_entry st) = tok_nothing"
    using assms(2) by (auto simp: add_entry_def maybe_add_to_list_def split: option.splits)
  have cong: "add_entry (st\<lparr>last_token := t\<rparr>) = (add_entry st)\<lparr>last_token := t\<rparr>" for t
    by (auto simp: add_entry_def maybe_add_to_list_def split: option.splits)
  show ?thesis
    using a l assms(2)
    by (cases "entry_host e"; cases "entry_password e"; cases e; cases "add_entry st")
      (simp_all add: entry_tokens_def take_token_def take_value_def take_keyword_def Let_def cong zero_entry_def put_aside_def)
qed

lemma show_entry_end:
  assumes "good_entry e"
  shows "LF \<notin> set (show_entry e) \<and> NUL \<notin> set (show_entry e) \<and> show_entry e \<noteq> [] \<and> last (show_entry e) = DQUOTE"
proof -
  obtain l where "entry_login e = Some l" "quotable l" "\<And>h. entry_host e = Some h \<Longrightarrow> quotable h"
    "\<And>p. entry_password e = Some p \<Longrightarrow> quotable p" using good_entry_parts [OF assms] by blast
  then show ?thesis
    by (cases "entry_host e"; cases "entry_password e") (simp_all add: show_entry_def quoted_def quotable_def)
qed

lemma line_spec_show:
  assumes "good_entry e" "last_token st = tok_nothing"
  shows "line_spec (show_entry e @ [LF]) st = \<lparr>last_token = tok_nothing, current = Some e, retval = put_aside st\<rparr>"
proof -
  note s = show_entry_end [OF assms(1)]
  have "cstr_of (show_entry e @ [LF]) = show_entry e @ [LF]"
    using s by (auto simp: cstr_of_def takeWhile_eq_all_conv)
  moreover have "strip_crlf (show_entry e @ [LF]) = show_entry e"
  proof -
    obtain x where "show_entry e = x @ [DQUOTE]" using s by (metis append_butlast_last_id)
    then show ?thesis by (simp add: strip_crlf_def isspace_def)
  qed
  ultimately show ?thesis
    using s feed_entry [OF assms] by (simp add: line_spec_def show_entry_tokens [OF assms(1)])
qed

lemma file_lines_show: "\<forall>e\<in>set es. good_entry e \<Longrightarrow> file_lines (show_netrc es) = map (\<lambda>e. show_entry e @ [LF]) es"
proof (induction es)
  case Nil
  then show ?case by (simp add: show_netrc_def file_lines.simps)
next
  case (Cons e es)
  have "LF \<notin> set (show_entry e)" "length (show_entry e) < 511"
    using show_entry_end [of e] Cons.prems by (auto simp: good_entry_def)
  then have "file_lines (show_entry e @ LF # show_netrc es) = (show_entry e @ [LF]) # file_lines (show_netrc es)"
    by (rule file_lines_step)
  moreover have "show_netrc (e # es) = show_entry e @ LF # show_netrc es" by (simp add: show_netrc_def)
  ultimately show ?case using Cons by simp
qed

lemma fold_show:
  "\<forall>e\<in>set es. good_entry e \<Longrightarrow> last_token st = tok_nothing \<Longrightarrow>
     put_aside (fold line_spec (map (\<lambda>e. show_entry e @ [LF]) es) st) = rev es @ put_aside st"
proof (induction es arbitrary: st)
  case (Cons e es)
  then have "entry_login e \<noteq> None" by (simp add: good_entry_def)
  then have "put_aside \<lparr>last_token = tok_nothing, current = Some e, retval = l\<rparr> = e # l" for l
    by (simp add: put_aside_def add_entry_def maybe_add_to_list_def)
  with Cons line_spec_show [of e st] show ?case by simp
qed simp

section \<open>Properties\<close>

text \<open>
  For every file the parser returns, and never leaves its line buffer: the entries are the ones of a
  functional reading of the file, in which each line is cut into tokens, with quotes removed and
  comments dropped, and the tokens drive the entries. Every entry has a login name.
\<close>

theorem parse_netrc_refines:
  "parse_netrc (Some s) = Some (rev (retval (add_entry (fold line_spec (file_lines s) start))))
    \<and> list_all (\<lambda>e. entry_login e \<noteq> None) (rev (retval (add_entry (fold line_spec (file_lines s) start))))"
proof -
  have "logins (add_entry (fold line_spec (file_lines s) start))"
    by (intro logins_add_entry logins_file) (simp add: logins_def start_def)
  then show ?thesis by (simp add: parse_netrc_eq logins_def list_all_iff)
qed

text \<open>
  C38. A file that is written from a list of entries, one to a line with every value quoted, is read back
  as that list, in the order of the file: for any host names, logins and passwords without quotes
  and line feeds, hash signs and blanks included.
\<close>

theorem parse_netrc_roundtrip:
  assumes "\<forall>e \<in> set es. good_entry e"
  shows "parse_netrc (Some (show_netrc es)) = Some es"
proof -
  have "put_aside start = []" by (simp add: put_aside_def start_def add_entry_def maybe_add_to_list_def)
  then show ?thesis
    using fold_show [OF assms, of start] file_lines_show [OF assms]
    by (simp add: parse_netrc_eq put_aside_def [symmetric]) (simp add: start_def)
qed

theorem parse_netrc_roundtrip_witness:
  "parse_netrc (Some (show_netrc
      [\<lparr>entry_host = Some ''a.example'', entry_login = Some ''joe'', entry_password = Some ''my # secret''\<rparr>,
       \<lparr>entry_host = None, entry_login = Some ''anonymous'', entry_password = None\<rparr>]))
    = Some [\<lparr>entry_host = Some ''a.example'', entry_login = Some ''joe'', entry_password = Some ''my # secret''\<rparr>,
       \<lparr>entry_host = None, entry_login = Some ''anonymous'', entry_password = None\<rparr>]"
  by (rule parse_netrc_roundtrip) (simp add: good_entry_def quotable_def show_entry_def quoted_def)

text \<open>
  The search finds the first entry of the host whose login is the one asked for or absent. As the
  parser keeps no entry without a login, and the entry of a default has no host, a default is never found.
\<close>

theorem search_netrc_first:
  "search_netrc list h l = List.find (\<lambda>e. entry_host e = Some h \<and> (entry_login e = None \<or> entry_login e = Some l)) list
    \<and> (\<forall>e. search_netrc list h l = Some e \<longrightarrow> entry_host e \<noteq> None)"
proof
  show "search_netrc list h l = List.find (\<lambda>e. entry_host e = Some h \<and> (entry_login e = None \<or> entry_login e = Some l)) list"
    by (induction list) auto
  then show "\<forall>e. search_netrc list h l = Some e \<longrightarrow> entry_host e \<noteq> None" by (auto simp: find_Some_iff)
qed

end
