(* ===== verification/Sink.thy ===== *)
theory Sink
  imports Transport Smtp Unmime
begin

section \<open>Opening and closing a delivery (sink.c)\<close>

text \<open>
  The options are those of the query, of the run and of the host that the functions look at; \<open>mode\<close> is
  \<open>smtphostmode\<close>. A delivery has the connection to the listener, which goes on being the place of \<open>smtp_response\<close>
  when it is closed, the message, what \<open>SockOpen\<close> on the local host will return, and the connections that bounces
  were sent on.
\<close>

datatype xmit = XMIT_ACCEPT | XMIT_REJECT | XMIT_RCPTBAD

record sink_options =
  mode :: char
  esmtp_options :: nat
  pass8bits :: bool
  mimemsg :: int
  remotename :: string
  truename :: string
  smtpname :: "string option"
  destaddr :: string
  antispam :: "int list"
  bouncemail :: bool
  spambounce :: bool
  postmaster :: string
  fetchmailhost :: string
  fqdn_of_host :: string
  boundary :: string
  timestamp :: string

record message =
  headers :: string
  recipients :: "(string \<times> xmit) list"
  return_path :: string
  reallen :: int

record delivery =
  listener :: smtp
  connected :: bool
  message_of :: message
  locals :: "sock option list"
  bounces :: "sock list"
  lmtp_responses :: nat

definition PS_SMTP :: int where "PS_SMTP = 10"
definition PS_REFUSED :: int where "PS_REFUSED = 25"
definition ADDRBUF :: nat where "ADDRBUF = 764"

definition atoi :: "string \<Rightarrow> int" where
  "atoi s = (case scan_d s of None \<Rightarrow> 0 | Some (v, r) \<Rightarrow> v)"

definition accepted :: "(string \<times> xmit) list \<Rightarrow> string list" where
  "accepted rs = map fst (filter (\<lambda>(i, m). m = XMIT_ACCEPT) rs)"

subsection \<open>The connection\<close>

definition smtp_close :: "bool \<Rightarrow> delivery \<Rightarrow> delivery" where
  "smtp_close sayquit d =
     (if connected d then d\<lparr>listener := (if sayquit then snd (SMTP_quit (listener d)) else listener d), connected := False\<rparr> else d)"

definition smtp_rset :: "delivery \<Rightarrow> delivery" where
  "smtp_rset d =
     (let (e, st) = SMTP_rset (listener d); d1 = d\<lparr>listener := st\<rparr> in
      if e = SM_UNRECOVERABLE then smtp_close False d1 else d1)"

subsection \<open>Addresses\<close>

definition sanitize :: "string \<Rightarrow> string" where
  "sanitize s = map (\<lambda>c. if c = CHR 0x27 then CHR ''_'' else c) s"

definition rcpt_address :: "sink_options \<Rightarrow> string \<Rightarrow> bool \<Rightarrow> string" where
  "rcpt_address q i usesmtpname =
     take (ADDRBUF - 1)
       (if strchr i (CHR ''@'') \<noteq> None then i
        else (case smtpname q of
                Some n \<Rightarrow> if usesmtpname then n else i @ ''@'' @ destaddr q
              | None \<Rightarrow> i @ ''@'' @ destaddr q))"

text \<open>The text from the character that is_quad returns a pointer to; \<open>None\<close> is the null pointer.\<close>

definition is_quad :: "string option \<Rightarrow> string option" where
  "is_quad p =
     (case p of
        None \<Rightarrow> None
      | Some q0 \<Rightarrow>
          if q0 = [] then None
          else
            let q = (if hd q0 = CHR ''.'' then tl q0 else q0);
                r = dropWhile isdigit q; n = length (takeWhile isdigit q) in
            if r \<noteq> [] \<and> hd r \<noteq> CHR ''.'' \<or> n < 1 \<or> n > 3 then None
            else if n = 3 \<and>
              (code (char_at q 0) > code (CHR ''2'')
               \<or> char_at q 0 = CHR ''2'' \<and>
                 (code (char_at q 1) > code (CHR ''5'') \<or> char_at q 1 = CHR ''5'' \<and> code (char_at q 2) > code (CHR ''5'')))
            then None
            else Some r)"

definition is_dottedquad :: "string \<Rightarrow> bool" where
  "is_dottedquad hostname = (is_quad (is_quad (is_quad (is_quad (Some hostname)))) = Some [])"

definition at_host :: "sink_options \<Rightarrow> string \<Rightarrow> string" where
  "at_host q u =
     take (ADDRBUF - 1) (if is_dottedquad (truename q) then u @ ''@['' @ truename q @ '']'' else u @ ''@'' @ truename q)"

definition remote_part :: "string \<Rightarrow> bool" where
  "remote_part s \<longleftrightarrow> strchr s (CHR ''@'') \<noteq> None \<or> strchr s (CHR ''!'') \<noteq> None"

text \<open>The argument of \<open>MAIL FROM\<close> and the options behind it.\<close>

definition mail_from :: "sink_options \<Rightarrow> string \<Rightarrow> string" where
  "mail_from q rp =
     (if rp = [] \<or> hd rp = CHR ''@'' then (if remote_part (remotename q) then take (ADDRBUF - 1) (remotename q) else at_host q (remotename q))
      else if remote_part rp then rp
      else if rp = ''<>'' then rp
      else at_host q rp)"

definition esmtp_params :: "sink_options \<Rightarrow> int \<Rightarrow> string" where
  "esmtp_params q len =
     (if esmtp_options q AND ESMTP_8BITMIME \<noteq> 0 then
        (if pass8bits q \<or> mimemsg q AND MSG_IS_8BIT \<noteq> 0 then '' BODY=8BITMIME''
         else if mimemsg q AND MSG_IS_7BIT \<noteq> 0 then '' BODY=7BIT'' else [])
      else [])
     @ (if esmtp_options q AND ESMTP_SIZE \<noteq> 0 \<and> len > 0 then '' SIZE='' @ show_int len else [])"

subsection \<open>Bounces\<close>

definition internal_error :: string where
  "internal_error = ''Internal error: SMTP error count doesn'' @ [CHR 0x27] @ ''t match number of recipients.'' @ CRLF"

text \<open>The text of the error of each recipient: \<open>None\<close> where the errors have run out, which ends the list.\<close>

fun error_of :: "string list \<Rightarrow> nat \<Rightarrow> string list \<Rightarrow> (string \<times> string option) list" where
  "error_of errors nusers [] = []"
| "error_of errors nusers (i # is) =
     (if length errors = 1 then (i, Some (errors ! 0)) # error_of errors nusers is
      else if length errors \<le> nusers then [(i, None)]
      else (i, Some (errors ! nusers)) # error_of errors (nusers + 1) is)"

definition human_part :: "sink_options \<Rightarrow> string \<times> string option \<Rightarrow> string list" where
  "human_part q = (\<lambda>(i, e).
     [rcpt_address q i True @ CRLF, case e of None \<Rightarrow> internal_error | Some t \<Rightarrow> ''   SMTP error: '' @ t @ CRLF @ CRLF])"

definition status_of :: "string \<Rightarrow> string" where
  "status_of e =
     (if length e > 9 \<and> isdigit (char_at e 4) \<and> char_at e 5 = CHR ''.'' \<and> isdigit (char_at e 6) \<and> char_at e 7 = CHR ''.''
        \<and> isdigit (char_at e 8)
      then take 5 (drop 4 e) else char_at e 0 # ''.0.0'')"

definition machine_part :: "sink_options \<Rightarrow> string \<times> string option \<Rightarrow> string list" where
  "machine_part q = (\<lambda>(i, e).
     [CRLF, ''Final-Recipient: rfc822; '' @ rcpt_address q i True @ CRLF, ''Last-Attempt-Date: '' @ timestamp q @ CRLF,
      ''Action: failed'' @ CRLF]
     @ (case e of None \<Rightarrow> [internal_error]
        | Some t \<Rightarrow> [''Status: '' @ status_of t @ CRLF, ''Diagnostic-Code: '' @ t @ CRLF]))"

definition says :: "string list \<Rightarrow> smtp \<Rightarrow> smtp" where
  "says ts st = fold (\<lambda>t s. say s t) ts st"

definition bounce_text :: "sink_options \<Rightarrow> message \<Rightarrow> string \<Rightarrow> xmit \<Rightarrow> string \<Rightarrow> string list \<Rightarrow> smtp \<Rightarrow> smtp" where
  "bounce_text q m bounce_to userclass reason errors st =
     (let users = map fst (filter (\<lambda>(i, k). k = userclass) (recipients m));
          entries = error_of errors 0 users;
          daemon_name = take 649 (''MAILER-DAEMON@'' @ fqdn_of_host q);
          st1 = says
            ([''Subject: Mail delivery failed: returning message to sender'' @ CRLF,
              ''From: Mail Delivery System <'' @ daemon_name @ ''>'' @ CRLF, ''To: '' @ bounce_to @ CRLF, ''MIME-Version: 1.0'' @ CRLF,
              ''Content-Type: multipart/report; report-type=delivery-status;'' @ CRLF @ [CHR 0x09] @ ''boundary='' @ [CHR 0x22] @ boundary q @ [CHR 0x22] @ CRLF,
              CRLF,
              ''--'' @ boundary q @ CRLF, ''Content-Type: text/plain'' @ CRLF, CRLF,
              ''This message was created automatically by mail delivery software.'' @ CRLF, CRLF,
              ''A message that you sent could not be delivered to one or more of its'' @ CRLF,
              ''recipients. This is a permanent error.'' @ CRLF, CRLF, ''Reason: '' @ reason, CRLF,
              ''The following address(es) failed:'' @ CRLF]
             @ (if errors = [] then []
                else concat (map (human_part q) entries)
                  @ [''--'' @ boundary q @ CRLF, ''Content-Type: message/delivery-status'' @ CRLF, CRLF,
                     ''Reporting-MTA: dns; '' @ fqdn_of_host q @ CRLF]
                  @ concat (map (machine_part q) entries) @ [CRLF])
             @ [''--'' @ boundary q @ CRLF, ''Content-Type: text/rfc822-headers'' @ CRLF, CRLF]) st;
          st2 = (if headers m = [] then st1 else say (st1\<lparr>conn := snd (SockWrite (conn st1) (headers m))\<rparr>) CRLF) in
      say st2 (''--'' @ boundary q @ ''--'' @ CRLF))"

text \<open>The connection for a bounce: whether the listener took all of the envelope.\<close>

definition bounce_envelope :: "sink_options \<Rightarrow> string \<Rightarrow> smtp \<Rightarrow> bool \<times> smtp" where
  "bounce_envelope q bounce_to st =
     (let (e, st) = SMTP_helo (fetchmailhost q) st in
      if e \<noteq> SM_OK then (False, st)
      else let (e, st) = SMTP_from ''<>'' None st in
      if e \<noteq> SM_OK then (False, st)
      else let (e, st) = SMTP_rcpt bounce_to st in
      if e \<noteq> SM_OK then (False, st)
      else let (e, st) = SMTP_data st in (e = SM_OK, st))"

definition bounce_session :: "sink_options \<Rightarrow> message \<Rightarrow> xmit \<Rightarrow> string \<Rightarrow> string list \<Rightarrow> smtp \<Rightarrow> bool \<times> smtp" where
  "bounce_session q m userclass reason errors st =
     (let bounce_to = (if bouncemail q then return_path m else postmaster q);
          (e, st1) = SMTP_ok st in
      if e \<noteq> SM_OK then (False, st1)
      else
        let (ok, st2) = bounce_envelope q bounce_to st1 in
        if \<not> ok then (False, snd (SMTP_quit st2))
        else
          let (e, st3) = SMTP_eom (CHR ''S'') (bounce_text q m bounce_to userclass reason errors st2) in
          if e \<noteq> SM_OK then (False, st3)
          else let (e, st4) = SMTP_quit st3 in (e = SM_OK, st4))"

definition no_bounce_to :: "string \<Rightarrow> bool" where
  "no_bounce_to rp \<longleftrightarrow> rp = [] \<or> rp = ''<>'' \<or> strcaseeq rp ''MAILER-DAEMON'' \<or> has_iprefix rp ''MAILER-DAEMON@''"

definition send_bouncemail :: "sink_options \<Rightarrow> xmit \<Rightarrow> string \<Rightarrow> string list \<Rightarrow> delivery \<Rightarrow> bool \<times> delivery" where
  "send_bouncemail q userclass reason errors d =
     (if no_bounce_to (return_path (message_of d)) then (True, d)
      else
        (case locals d of
           [] \<Rightarrow> (False, d)
         | None # later \<Rightarrow> (False, d\<lparr>locals := later\<rparr>)
         | Some s # later \<Rightarrow>
             let (ok, st) = bounce_session q (message_of d) userclass reason errors ((listener d)\<lparr>conn := s\<rparr>) in
             (ok, d\<lparr>locals := later, bounces := bounces d @ [conn st], listener := st\<lparr>conn := conn (listener d)\<rparr>\<rparr>)))"

subsection \<open>Error replies\<close>

definition handle_smtp_report :: "sink_options \<Rightarrow> delivery \<Rightarrow> int \<times> delivery" where
  "handle_smtp_report q d =
     (let response = smtp_response (listener d); smtperr = atoi response in
      if smtperr \<in> set (antispam q) then
        (PS_REFUSED,
         if spambounce q then
           snd (send_bouncemail q XMIT_ACCEPT
             (take 159 (''spam filter or virus scanner rejected message because:'' @ CRLF @ response @ CRLF)) [response] d)
         else d)
      else if smtperr = 552 then
        (PS_REFUSED,
         if bouncemail q then snd (send_bouncemail q XMIT_ACCEPT (''This message was too large (SMTP error 552).'' @ CRLF) [response] d) else d)
      else if smtperr = 553 then (PS_REFUSED, d)
      else if smtperr = 530 then (PS_TRANSIENT, d)
      else if 500 \<le> smtperr \<and> smtperr \<le> 599 then
        (PS_REFUSED,
         if bouncemail q then snd (send_bouncemail q XMIT_ACCEPT (''General SMTP/ESMTP error.'' @ CRLF) [response] d) else d)
      else (PS_TRANSIENT, d))"

definition handle_smtp_report_without_bounce :: "sink_options \<Rightarrow> string \<Rightarrow> int" where
  "handle_smtp_report_without_bounce q response =
     (let smtperr = atoi response in
      if smtperr \<in> set (antispam q) then (if spambounce q then PS_SUCCESS else PS_REFUSED)
      else if smtperr = 552 then (if bouncemail q then PS_SUCCESS else PS_REFUSED)
      else if smtperr = 553 then PS_REFUSED
      else if 500 \<le> smtperr \<and> smtperr \<le> 599 then PS_SUCCESS
      else PS_TRANSIENT)"

subsection \<open>SMTP and LMTP\<close>

text \<open>What the loop over the recipients has done: whether the connection broke, the recipients with their new
  marks, the number of those the listener took, the replies kept for a bounce, and whether the message has to stay.\<close>

record rcpts =
  broken :: bool
  marked :: "(string \<times> xmit) list"
  good :: nat
  responses :: "string list"
  transient :: bool

fun rcpt_loop :: "sink_options \<Rightarrow> (string \<times> xmit) list \<Rightarrow> smtp \<Rightarrow> rcpts \<times> smtp" where
  "rcpt_loop q [] st = (\<lparr>broken = False, marked = [], good = 0, responses = [], transient = False\<rparr>, st)"
| "rcpt_loop q ((i, m) # rs) st =
     (if m \<noteq> XMIT_ACCEPT then
        let (x, st1) = rcpt_loop q rs st in (x\<lparr>marked := (i, m) # marked x\<rparr>, st1)
      else
        let (e, st1) = SMTP_rcpt (rcpt_address q i True) st in
        if e = SM_UNRECOVERABLE then
          (\<lparr>broken = True, marked = (i, m) # rs, good = 0, responses = [], transient = False\<rparr>, st1)
        else
          let (x, st2) = rcpt_loop q rs st1 in
          if e = SM_OK then (x\<lparr>marked := (i, m) # marked x, good := good x + 1\<rparr>, st2)
          else
            let c = handle_smtp_report_without_bounce q (smtp_response st1) in
            if c = PS_TRANSIENT then (x\<lparr>marked := (i, m) # marked x, transient := True\<rparr>, st2)
            else if c = PS_SUCCESS then
              (x\<lparr>marked := (i, XMIT_RCPTBAD) # marked x, responses := smtp_response st1 # responses x\<rparr>, st2)
            else (x\<lparr>marked := (i, m) # marked x\<rparr>, st2))"

text \<open>\<open>while (*bad_addresses) free(from_responses[--*bad_addresses]);\<close>\<close>

fun drain :: "nat \<Rightarrow> nat" where
  "drain 0 = 0"
| "drain (Suc n) = drain n"

text \<open>The command \<open>DATA\<close> and the recipient of last resort: the result and the delivery.\<close>

definition start_data :: "sink_options \<Rightarrow> nat \<Rightarrow> delivery \<Rightarrow> int \<times> delivery" where
  "start_data q n d =
     (let (e, st) = SMTP_data (listener d); d1 = d\<lparr>listener := st\<rparr> in
      if e = SM_UNRECOVERABLE then (PS_TRANSIENT, smtp_close False d1)
      else if e \<noteq> SM_OK then (let (r, d2) = handle_smtp_report q d1 in (r, smtp_rset d2))
      else (PS_SUCCESS, d1\<lparr>lmtp_responses := n\<rparr>))"

definition to_postmaster :: "sink_options \<Rightarrow> delivery \<Rightarrow> int \<times> delivery" where
  "to_postmaster q d =
     (if postmaster q = [] then (PS_REFUSED, smtp_rset d)
      else
        let (e, st) = SMTP_rcpt (rcpt_address q (postmaster q) False) (listener d); d1 = d\<lparr>listener := st\<rparr> in
        if e = SM_UNRECOVERABLE then (PS_TRANSIENT, smtp_close False d1)
        else if e \<noteq> SM_OK then (PS_REFUSED, smtp_rset d1)
        else start_data q 0 d1)"

definition rejected_text :: string where
  "rejected_text = ''Some addresses were rejected by the MDA fetchmail forwards to.'' @ CRLF"

text \<open>The result, \<open>good_addresses\<close>, \<open>bad_addresses\<close> and the delivery.\<close>

definition open_smtp_sink :: "sink_options \<Rightarrow> delivery \<Rightarrow> int \<times> nat \<times> nat \<times> delivery" where
  "open_smtp_sink q d =
     (let m = message_of d;
          (e, st) = SMTP_from (mail_from q (return_path m)) (Some (esmtp_params q (reallen m))) (listener d);
          d1 = d\<lparr>listener := st\<rparr> in
      if e = SM_UNRECOVERABLE then (PS_TRANSIENT, 0, 0, smtp_close False d1)
      else if e \<noteq> SM_OK then (let (r, d2) = handle_smtp_report q d1 in (r, 0, 0, smtp_rset d2))
      else
        let (x, st1) = rcpt_loop q (recipients m) st;
            d2 = d1\<lparr>listener := st1, message_of := m\<lparr>recipients := marked x\<rparr>\<rparr> in
        if broken x then (PS_TRANSIENT, good x, drain (length (responses x)), smtp_close False d2)
        else if transient x then (PS_TRANSIENT, good x, drain (length (responses x)), smtp_rset d2)
        else
          let d3 = (if responses x = [] then d2 else snd (send_bouncemail q XMIT_RCPTBAD rejected_text (responses x) d2));
              bad = drain (length (responses x));
              (r, d4) = (if good x = 0 then to_postmaster q d3 else start_data q (good x) d3) in
          (r, good x, bad, d4))"

text \<open>The replies of LMTP, one for each recipient: whether the connection broke, and the errors.\<close>

fun lmtp_eat :: "nat \<Rightarrow> smtp \<Rightarrow> bool \<times> string list \<times> smtp" where
  "lmtp_eat 0 st = (False, [], st)"
| "lmtp_eat (Suc n) st =
     (let (e, st1) = SMTP_ok st in
      if e = SM_UNRECOVERABLE then (True, [], st1)
      else
        let (b, errors, st2) = lmtp_eat n st1 in
        (b, if e \<noteq> SM_OK then smtp_response st1 # errors else errors, st2))"

definition partial_text :: string where
  "partial_text = ''LMTP partial delivery failure.'' @ CRLF"

definition close_listener :: "sink_options \<Rightarrow> bool \<Rightarrow> delivery \<Rightarrow> bool \<times> delivery" where
  "close_listener q forward d =
     (if \<not> forward then (True, d)
      else
        let (e, st) = SMTP_eom (mode q) (listener d); d1 = d\<lparr>listener := st\<rparr> in
        if e = SM_UNRECOVERABLE then (False, smtp_close False d1)
        else if e \<noteq> SM_OK then (let (r, d2) = handle_smtp_report q d1 in (r = PS_REFUSED, smtp_rset d2))
        else if mode q \<noteq> CHR ''L'' then (True, d1)
        else if lmtp_responses d1 = 0 then (False, d1\<lparr>listener := snd (SMTP_ok st)\<rparr>)
        else
          let (b, errors, st1) = lmtp_eat (lmtp_responses d1) st; d2 = d1\<lparr>listener := st1\<rparr> in
          if b then (False, smtp_close False d2)
          else if errors = [] then (True, d2)
          else send_bouncemail q XMIT_ACCEPT partial_text errors d2)"

subsection \<open>BSMTP\<close>

text \<open>What is written to the file before the message, and \<open>good_addresses\<close>.\<close>

definition open_bsmtp_sink :: "sink_options \<Rightarrow> string \<Rightarrow> message \<Rightarrow> string \<times> nat" where
  "open_bsmtp_sink q user m =
     (let need = (char_at (return_path m) 0 \<noteq> CHR ''<''); rs = accepted (recipients m) in
      (''MAIL FROM:'' @ (if need then ''<'' else []) @ (if return_path m = [] then user else return_path m) @ (if need then ''>'' else [])
       @ (if pass8bits q \<or> mimemsg q AND MSG_IS_8BIT \<noteq> 0 then '' BODY=8BITMIME''
          else if mimemsg q AND MSG_IS_7BIT \<noteq> 0 then '' BODY=7BIT'' else [])
       @ CRLF @ concat (map (\<lambda>i. ''RCPT TO:<'' @ rcpt_address q i True @ ''>'' @ CRLF) rs) @ ''DATA'' @ CRLF, length rs))"

end
