(* ===== verification/Mda.thy ===== *)
theory Mda
  imports Sink
begin

section \<open>The command of a delivery agent (sink.c)\<close>

subsection \<open>open_mda_sink\<close>

text \<open>
  The names for \<open>%T\<close>: the accepted recipients with a blank behind each and without the last blank, or the
  postmaster when there are none. \<open>good_addresses\<close> is the number of those recipients.
\<close>

definition mda_names :: "sink_options \<Rightarrow> message \<Rightarrow> string" where
  "mda_names q m =
     (let rs = accepted (recipients m) in
      sanitize (if length rs = 0 then postmaster q else butlast (concat (map (\<lambda>i. i @ '' '') rs))))"

text \<open>The loop with \<open>strstr\<close>: how often \<open>p\<close>, two characters, occurs.\<close>

function occurrences :: "string \<Rightarrow> string \<Rightarrow> nat" where
  "occurrences s p =
     (case find_sub s p of
        None \<Rightarrow> 0
      | Some i \<Rightarrow> if s = [] then 0 else 1 + occurrences (drop (i + 2) s) p)"
  by pat_completeness auto
termination
  by (relation "measure (\<lambda>(s, p). length s)") auto

declare occurrences.simps [simp del]

definition put_cells :: "'a list \<Rightarrow> nat \<Rightarrow> 'a list \<Rightarrow> 'a list option" where
  "put_cells buf i xs = (if i + length xs \<le> length buf then Some (overwrite buf i xs) else None)"

definition quoted_name :: "string \<Rightarrow> string" where
  "quoted_name s = [CHR 0x27] @ s @ [CHR 0x27]"

text \<open>The loop that copies the template into \<open>after\<close>; the NUL of \<open>strcpy\<close> is under the second quote.\<close>

fun mda_copy :: "string \<Rightarrow> string \<Rightarrow> string \<Rightarrow> nat \<Rightarrow> string \<Rightarrow> string option" where
  "mda_copy names sender after dp [] = poke after dp NUL"
| "mda_copy names sender after dp [c] = do { a \<leftarrow> poke after dp c; poke a (dp + 1) NUL }"
| "mda_copy names sender after dp (c # k # sp) =
     (if c = CHR ''%'' \<and> (k = CHR ''s'' \<or> k = CHR ''T'') then do {
        a \<leftarrow> put_cells after dp (quoted_name names);
        mda_copy names sender a (dp + length names + 2) sp
      }
      else if c = CHR ''%'' \<and> k = CHR ''F'' then do {
        a \<leftarrow> put_cells after dp (quoted_name sender);
        mda_copy names sender a (dp + length sender + 2) sp
      }
      else do { a \<leftarrow> poke after dp c; mda_copy names sender a (dp + 1) (k # sp) })"

text \<open>The command for \<open>popen\<close>; the new array has \<open>length + 1\<close> cells, whatever is in them.\<close>

definition mda_command :: "sink_options \<Rightarrow> string \<Rightarrow> message \<Rightarrow> string option" where
  "mda_command q mda m =
     (let wants_names = (find_sub mda ''%s'' \<noteq> None \<or> find_sub mda ''%T'' \<noteq> None);
          wants_from = (find_sub mda ''%F'' \<noteq> None);
          names = (if wants_names then mda_names q m else []);
          sender = (if wants_from then sanitize (return_path m) else []) in
      if wants_names \<or> wants_from then
        let len = length mda + occurrences mda ''%s'' * length names + occurrences mda ''%T'' * length names
                  + occurrences mda ''%F'' * length sender in
        map_option cstr_of (mda_copy names sender (replicate (len + 1) (CHR ''?'')) 0 mda)
      else Some mda)"

subsection \<open>The expansion\<close>

fun expand :: "string \<Rightarrow> string \<Rightarrow> string \<Rightarrow> string" where
  "expand names sender [] = []"
| "expand names sender [c] = [c]"
| "expand names sender (c # k # sp) =
     (if c = CHR ''%'' \<and> (k = CHR ''s'' \<or> k = CHR ''T'') then quoted_name names @ expand names sender sp
      else if c = CHR ''%'' \<and> k = CHR ''F'' then quoted_name sender @ expand names sender sp
      else c # expand names sender (k # sp))"

lemma occurrences_Nil [simp]: "occurrences [] p = 0"
  by (simp add: occurrences.simps split: option.split)

lemma occurrences_Cons:
  assumes "p \<noteq> []" "\<not> has_prefix (c # s) p"
  shows "occurrences (c # s) p = occurrences s p"
proof (cases "find_sub s p")
  case None
  then show ?thesis using assms(2) by (simp add: occurrences.simps)
next
  case (Some i)
  then have "s \<noteq> []" using assms(1) by (cases s) auto
  then show ?thesis using assms(2) Some by (simp add: occurrences.simps [of "c # s"] occurrences.simps [of s])
qed

lemma occurrences_pair: "occurrences (a # b # s) [x, y] = (if a = x \<and> b = y then 1 + occurrences s [x, y] else occurrences (b # s) [x, y])"
proof (cases "a = x \<and> b = y")
  case True
  then show ?thesis by (subst occurrences.simps) simp
next
  case False
  then show ?thesis by (subst occurrences_Cons) auto
qed

lemma occurrences_one [simp]: "occurrences [a] [x, y] = 0"
  by (simp add: occurrences_Cons)

lemma occurrences_skip [simp]: "c \<noteq> x \<Longrightarrow> occurrences (c # s) [x, y] = occurrences s [x, y]"
  by (simp add: occurrences_Cons)

definition names_of :: "string \<Rightarrow> nat" where
  "names_of s = occurrences s ''%s'' + occurrences s ''%T''"

lemma length_expand:
  "length (expand names sender s) = length s + names_of s * length names + occurrences s ''%F'' * length sender"
  by (induction names sender s rule: expand.induct) (auto simp: names_of_def occurrences_pair quoted_name_def algebra_simps)

lemma overwrite_twice:
  "i + length xs \<le> length buf \<Longrightarrow> overwrite (overwrite buf i xs) (i + length xs) ys = overwrite buf i (xs @ ys)"
  by (simp add: overwrite_def ac_simps)

lemma mda_copy_expands:
  "dp + length (expand names sender s) < length after \<Longrightarrow>
     mda_copy names sender after dp s = Some (overwrite after dp (expand names sender s @ [NUL]))"
proof (induction names sender after dp s rule: mda_copy.induct)
  case (1 names sender after dp)
  then show ?case by (simp add: overwrite_def upd_conv_take_nth_drop)
next
  case (2 names sender after dp c)
  then show ?case by (simp add: overwrite_def upd_conv_take_nth_drop)
next
  case (3 names sender after dp c k sp)
  consider "c = CHR ''%'' \<and> (k = CHR ''s'' \<or> k = CHR ''T'')" | "c = CHR ''%'' \<and> k = CHR ''F''"
    | "\<not> (c = CHR ''%'' \<and> (k = CHR ''s'' \<or> k = CHR ''T''))" "\<not> (c = CHR ''%'' \<and> k = CHR ''F'')" by blast
  then show ?case
  proof cases
    case 1
    have e: "expand names sender (c # k # sp) = quoted_name names @ expand names sender sp" using 1 by simp
    have f: "dp + length (quoted_name names) \<le> length after" using "3.prems" unfolding e by simp
    then have "put_cells after dp (quoted_name names) = Some (overwrite after dp (quoted_name names))" by (simp add: put_cells_def)
    then show ?thesis
      using 1 "3.IH"(1) [OF 1, of "overwrite after dp (quoted_name names)"] "3.prems" f
        overwrite_twice [OF f, of "expand names sender sp @ [NUL]"]
      by (simp add: quoted_name_def add.assoc)
  next
    case 2
    have n: "\<not> (c = CHR ''%'' \<and> (k = CHR ''s'' \<or> k = CHR ''T''))" using 2 by auto
    have e: "expand names sender (c # k # sp) = quoted_name sender @ expand names sender sp" using 2 by simp
    have f: "dp + length (quoted_name sender) \<le> length after" using "3.prems" unfolding e by simp
    then have "put_cells after dp (quoted_name sender) = Some (overwrite after dp (quoted_name sender))" by (simp add: put_cells_def)
    then show ?thesis
      using 2 n "3.IH"(2) [OF n 2, of "overwrite after dp (quoted_name sender)"] "3.prems" f
        overwrite_twice [OF f, of "expand names sender sp @ [NUL]"]
      by (simp add: quoted_name_def add.assoc)
  next
    case 3
    have e: "expand names sender (c # k # sp) = c # expand names sender (k # sp)" using 3 by auto
    have "poke after dp c = Some (overwrite after dp [c])" using "3.prems" by (simp add: overwrite_def upd_conv_take_nth_drop)
    then show ?thesis
      using 3 "3.IH"(3) [OF 3, of "overwrite after dp [c]"] "3.prems" overwrite_twice [of dp "[c]" after "expand names sender (k # sp) @ [NUL]"]
      unfolding e by auto
  qed
qed

lemma expand_without:
  "find_sub s ''%s'' = None \<Longrightarrow> find_sub s ''%T'' = None \<Longrightarrow> find_sub s ''%F'' = None \<Longrightarrow> expand names sender s = s"
  by (induction names sender s rule: expand.induct) (auto split: if_splits)

lemma set_expand: "set (expand names sender s) \<subseteq> insert (CHR 0x27) (set names \<union> set sender \<union> set s)"
  by (induction names sender s rule: expand.induct) (auto simp: quoted_name_def)

definition mda_args :: "sink_options \<Rightarrow> string \<Rightarrow> message \<Rightarrow> string \<times> string" where
  "mda_args q mda m =
     (if find_sub mda ''%s'' \<noteq> None \<or> find_sub mda ''%T'' \<noteq> None then mda_names q m else [],
      if find_sub mda ''%F'' \<noteq> None then sanitize (return_path m) else [])"

definition clean_message :: "sink_options \<Rightarrow> message \<Rightarrow> bool" where
  "clean_message q m \<longleftrightarrow> c_string (postmaster q) \<and> c_string (return_path m) \<and> (\<forall>(i, k)\<in>set (recipients m). c_string i)"

lemma sanitize_clean: "c_string s \<Longrightarrow> c_string (sanitize s)"
  by (auto simp: c_string_def sanitize_def split: if_splits)

lemma sanitize_no_quote: "CHR 0x27 \<notin> set (sanitize s)"
  by (auto simp: sanitize_def split: if_splits)

lemma mda_names_clean: "clean_message q m \<Longrightarrow> c_string (mda_names q m)"
proof -
  assume c: "clean_message q m"
  then have "NUL \<notin> set i" if "i \<in> set (accepted (recipients m))" for i
    using that by (auto simp: clean_message_def c_string_def accepted_def)
  then have "NUL \<notin> set (concat (map (\<lambda>i. i @ '' '') (accepted (recipients m))))" by auto
  then have "c_string (butlast (concat (map (\<lambda>i. i @ '' '') (accepted (recipients m)))))"
    unfolding c_string_def by (metis in_set_butlastD)
  moreover have "c_string (postmaster q)" using c by (simp add: clean_message_def)
  ultimately show ?thesis unfolding mda_names_def Let_def by (intro sanitize_clean) auto
qed

lemma mda_command_expand:
  assumes "clean_message q m" "c_string mda"
  shows "mda_command q mda m = Some (case mda_args q mda m of (names, sender) \<Rightarrow> expand names sender mda)"
proof -
  obtain names sender where a: "mda_args q mda m = (names, sender)" by (cases "mda_args q mda m")
  have c: "c_string names" "c_string sender"
    using a mda_names_clean [OF assms(1)] sanitize_clean [of "return_path m"] assms(1)
    by (auto simp: mda_args_def clean_message_def c_string_def split: if_splits)
  show ?thesis
  proof (cases "find_sub mda ''%s'' \<noteq> None \<or> find_sub mda ''%T'' \<noteq> None \<or> find_sub mda ''%F'' \<noteq> None")
    case False
    then show ?thesis by (simp add: mda_command_def mda_args_def expand_without)
  next
    case True
    define len where "len = length mda + occurrences mda ''%s'' * length names + occurrences mda ''%T'' * length names + occurrences mda ''%F'' * length sender"
    have l: "length (expand names sender mda) = len" by (simp add: length_expand len_def names_of_def algebra_simps)
    have "c_string (expand names sender mda)" using set_expand [of names sender mda] c assms(2) by (auto simp: c_string_def)
    then have "map_option cstr_of (mda_copy names sender (replicate (len + 1) (CHR ''?'')) 0 mda) = Some (expand names sender mda)"
      using mda_copy_expands [of 0 names sender mda "replicate (len + 1) (CHR ''?'')"] l
      by (simp add: cstr_of_overwrite_0)
    then show ?thesis
      using True a unfolding mda_command_def Let_def len_def
      by (auto simp: mda_args_def split: if_splits)
  qed
qed

end
