(* ===== verification/SinkProps.thy ===== *)
theory SinkProps
  imports Mda
begin

section \<open>What a delivery promises\<close>

subsection \<open>The names in the command of a delivery agent\<close>

text \<open>The characters the shell does not see inside single quotes, and whether a quote is open at the end.\<close>

fun shell :: "bool \<Rightarrow> string \<Rightarrow> bool \<times> string" where
  "shell q [] = (q, [])"
| "shell q (c # s) =
     (if c = CHR 0x27 then shell (\<not> q) s
      else (case shell q s of (e, t) \<Rightarrow> (e, if q then t else c # t)))"

text \<open>The template without its slots, and a template that has none of them inside of quotes.\<close>

fun no_slots :: "string \<Rightarrow> string" where
  "no_slots (c # k # sp) =
     (if c = CHR ''%'' \<and> (k = CHR ''s'' \<or> k = CHR ''T'' \<or> k = CHR ''F'') then no_slots sp else c # no_slots (k # sp))"
| "no_slots s = s"

fun bare :: "bool \<Rightarrow> string \<Rightarrow> bool" where
  "bare q (c # k # sp) \<longleftrightarrow>
     (if c = CHR ''%'' \<and> (k = CHR ''s'' \<or> k = CHR ''T'' \<or> k = CHR ''F'') then \<not> q \<and> bare q sp
      else if c = CHR 0x27 then bare (\<not> q) (k # sp)
      else (q \<or> c \<noteq> CHR 0x22 \<and> c \<noteq> BACKSLASH) \<and> bare q (k # sp))"
| "bare q s \<longleftrightarrow> True"

lemma shell_quoted: "CHR 0x27 \<notin> set n \<Longrightarrow> shell False (quoted_name n @ s) = shell False s"
proof -
  assume n: "CHR 0x27 \<notin> set n"
  have "shell True (n @ CHR 0x27 # s) = shell False s" using n by (induction n) auto
  then show ?thesis by (simp add: quoted_name_def)
qed

lemma shell_expand:
  "CHR 0x27 \<notin> set names \<Longrightarrow> CHR 0x27 \<notin> set sender \<Longrightarrow> bare q mda \<Longrightarrow> shell q (expand names sender mda) = shell q (no_slots mda)"
proof (induction names sender mda arbitrary: q rule: expand.induct)
  case (3 names sender c k sp)
  show ?case
  proof (cases "c = CHR ''%'' \<and> (k = CHR ''s'' \<or> k = CHR ''T'' \<or> k = CHR ''F'')")
    case True
    then have "\<not> q" "bare q sp" using "3.prems"(3) by auto
    then show ?thesis using True "3.IH"(1,2) "3.prems"(1,2) by (auto simp: shell_quoted)
  next
    case False
    then show ?thesis using "3.IH"(3) "3.prems" by (auto split: if_splits)
  qed
qed auto

text \<open>
  C12. No byte of a message gets out of its quotes: in a command that is built from a template whose slots are not quoted,
  the shell sees exactly the text of the template without the slots outside of single quotes, whatever the recipients,
  the sender and the postmaster are called; and every cell that is stored is inside of the array.
\<close>

theorem mda_names_stay_quoted:
  assumes "clean_message q m" "c_string mda" "bare False mda"
  shows "\<exists>cmd. mda_command q mda m = Some cmd \<and> shell False cmd = shell False (no_slots mda)"
proof -
  obtain names sender where a: "mda_args q mda m = (names, sender)" by (cases "mda_args q mda m")
  then have "CHR 0x27 \<notin> set names" "CHR 0x27 \<notin> set sender"
    using sanitize_no_quote by (auto simp: mda_args_def mda_names_def Let_def split: if_splits)
  from shell_expand [OF this assms(3)] show ?thesis using mda_command_expand [OF assms(1,2)] a by simp
qed

definition sink_sample :: sink_options where
  "sink_sample = \<lparr>mode = CHR ''S'', esmtp_options = 0, pass8bits = False, mimemsg = 0, remotename = ''joe'',
     truename = ''mail.org'', smtpname = None, destaddr = ''localhost'', antispam = [571], bouncemail = True, spambounce = False,
     postmaster = ''root'', fetchmailhost = ''me.org'', fqdn_of_host = ''me.org'', boundary = ''foo'', timestamp = ''now''\<rparr>"

definition sample_message :: "(string \<times> xmit) list \<Rightarrow> string \<Rightarrow> message" where
  "sample_message rs rp = \<lparr>headers = [], recipients = rs, return_path = rp, reallen = 10\<rparr>"

definition evil :: string where "evil = ''a'' @ [CHR 0x27] @ ''; rm -rf /;''"

theorem mda_names_stay_quoted_witness:
  "\<exists>cmd. mda_command sink_sample ''mda -f %F -- %T'' (sample_message [(evil, XMIT_ACCEPT)] evil) = Some cmd
     \<and> shell False cmd = (False, ''mda -f  -- '')"
proof -
  have "clean_message sink_sample (sample_message [(evil, XMIT_ACCEPT)] evil)" "c_string ''mda -f %F -- %T''" "bare False ''mda -f %F -- %T''"
    by (simp_all add: clean_message_def c_string_def sink_sample_def sample_message_def evil_def)
  from mda_names_stay_quoted [OF this] show ?thesis by simp
qed

text \<open>A template that puts quotes around a slot takes the protection away.\<close>

lemma quoted_slot_exposes:
  "\<exists>cmd. mda_command sink_sample (''mda '' @ quoted_name ''%T'') (sample_message [(''; rm -rf /;'', XMIT_ACCEPT)] []) = Some cmd
     \<and> shell False cmd = (False, ''mda ; rm -rf /;'')"
proof -
  have "clean_message sink_sample (sample_message [(''; rm -rf /;'', XMIT_ACCEPT)] [])" "c_string (''mda '' @ quoted_name ''%T'')"
    by (simp_all add: clean_message_def c_string_def sink_sample_def sample_message_def quoted_name_def)
  from mda_command_expand [OF this] show ?thesis
    by (simp add: mda_args_def mda_names_def accepted_def sample_message_def sanitize_def quoted_name_def)
qed

subsection \<open>Dotted quads\<close>

text \<open>One to three digits, and no more than 255 when there are three; \<open>is_quad\<close> takes such a group off the text.\<close>

definition group :: "string \<Rightarrow> bool" where
  "group d \<longleftrightarrow> list_all isdigit d \<and> 1 \<le> length d \<and> length d \<le> 3 \<and> digits_val d \<le> 255"

definition undot :: "string \<Rightarrow> string" where
  "undot s = (if s \<noteq> [] \<and> hd s = CHR ''.'' then tl s else s)"

lemma digit_code: "isdigit c \<longleftrightarrow> 48 \<le> code c \<and> code c \<le> 57"
  by (simp add: isdigit_def)

lemma three_digits:
  assumes "isdigit a" "isdigit b" "isdigit c"
  shows "digits_val [a, b, c] \<le> 255 \<longleftrightarrow>
    \<not> (code a > code (CHR ''2'') \<or> a = CHR ''2'' \<and> (code b > code (CHR ''5'') \<or> b = CHR ''5'' \<and> code c > code (CHR ''5'')))"
proof -
  have v: "digits_val [a, b, c] = 100 * (code a - 48) + 10 * (code b - 48) + (code c - 48)" by (simp add: digits_val_def)
  have k: "code (CHR ''2'') = 50" "code (CHR ''5'') = 53" by (simp_all add: code_def)
  have e: "a = CHR ''2'' \<longleftrightarrow> code a = 50" "b = CHR ''5'' \<longleftrightarrow> code b = 53" using k code_inject by metis+
  show ?thesis using assms unfolding v e k digit_code by auto
qed

lemma few_digits: "list_all isdigit d \<Longrightarrow> length d \<le> 2 \<Longrightarrow> digits_val d \<le> 99"
proof -
  assume d: "list_all isdigit d" "length d \<le> 2"
  then consider "d = []" | a where "d = [a]" "isdigit a" | a b where "d = [a, b]" "isdigit a" "isdigit b"
    by (cases d rule: remdups_adj.cases; cases "tl (tl d)") auto
  then show ?thesis by cases (auto simp: digits_val_def digit_code)
qed

lemma is_quad_iff:
  "is_quad (Some s) = Some r \<longleftrightarrow> (\<exists>d. undot s = d @ r \<and> group d \<and> (r = [] \<or> hd r = CHR ''.''))"
proof -
  define q where "q = undot s"
  define d where "d = takeWhile isdigit q"
  have dig: "list_all isdigit d" by (auto simp: d_def list_all_iff dest: set_takeWhileD)
  have q: "q = d @ dropWhile isdigit q" by (simp add: d_def)
  have big: "d = [char_at q 0, char_at q 1, char_at q 2]" if "length d = 3"
  proof -
    have "length d = Suc (Suc (Suc 0))" using that by simp
    then obtain a b c where "d = [a, b, c]" unfolding length_Suc_conv length_0_conv by blast
    then show ?thesis using q by (metis append_Cons char_at_Cons_0 char_at_Cons_Suc numeral_2_eq_2 One_nat_def)
  qed
  have g: "group d \<longleftrightarrow> \<not> (length d < 1 \<or> length d > 3) \<and> \<not> (length d = 3 \<and>
      (code (char_at q 0) > code (CHR ''2'') \<or> char_at q 0 = CHR ''2'' \<and>
        (code (char_at q 1) > code (CHR ''5'') \<or> char_at q 1 = CHR ''5'' \<and> code (char_at q 2) > code (CHR ''5''))))"
  proof (cases "length d = 3")
    case True
    have "list_all isdigit [char_at q 0, char_at q 1, char_at q 2]" using dig big [OF True] by metis
    then have i: "isdigit (char_at q 0)" "isdigit (char_at q 1)" "isdigit (char_at q 2)" by simp_all
    show ?thesis unfolding group_def using dig True three_digits [OF i] big [OF True, symmetric] by simp
  next
    case False
    then have "length d \<le> 3 \<Longrightarrow> digits_val d \<le> 255" using few_digits [OF dig] by force
    then show ?thesis using False dig by (auto simp: group_def Suc_le_eq)
  qed
  have uniq: "d' = d \<and> r = dropWhile isdigit q" if "q = d' @ r" "group d'" "r = [] \<or> hd r = CHR ''.''" for d'
  proof -
    have "\<not> isdigit (CHR ''.'')" by (simp add: digit_code code_def)
    then have "takeWhile isdigit (d' @ r) = d'" "dropWhile isdigit (d' @ r) = r"
      using that(2,3) by (cases r; simp add: group_def list_all_iff takeWhile_append dropWhile_append)+
    then show ?thesis using that(1) by (simp add: d_def)
  qed
  have ne: "group d \<Longrightarrow> s \<noteq> []" using q by (auto simp: group_def q_def undot_def)
  have "is_quad (Some s) = Some r \<longleftrightarrow> s \<noteq> [] \<and> group d \<and> (r = [] \<or> hd r = CHR ''.'') \<and> r = dropWhile isdigit q"
    unfolding is_quad_def Let_def option.case g by (auto simp: q_def undot_def d_def)
  then show ?thesis using uniq q ne unfolding q_def [symmetric] by metis
qed

text \<open>
  A name is taken for an address, and put into square brackets in the envelope, if and only if it is four numbers of
  one to three digits, none above 255, with a dot between them; a dot in front of the first is let pass.
\<close>

theorem is_dottedquad_iff:
  "is_dottedquad s \<longleftrightarrow>
     (\<exists>a b c d. group a \<and> group b \<and> group c \<and> group d \<and> undot s = a @ ''.'' @ b @ ''.'' @ c @ ''.'' @ d)"
proof -
  have none: "is_quad None = None" "is_quad (Some []) = None" by (simp_all add: is_quad_def)
  have rest: "is_quad (Some r) = Some t \<and> (r = [] \<or> hd r = CHR ''.'') \<longleftrightarrow>
      (\<exists>d. r = ''.'' @ d @ t \<and> group d \<and> (t = [] \<or> hd t = CHR ''.''))" for r t
    unfolding is_quad_iff by (cases r) (auto simp: undot_def group_def)
  show ?thesis
  proof
    assume "is_dottedquad s"
    then obtain r1 r2 r3 where 1: "is_quad (Some s) = Some r1" "is_quad (Some r1) = Some r2" "is_quad (Some r2) = Some r3"
      "is_quad (Some r3) = Some []"
      unfolding is_dottedquad_def using none(1) by (metis option.exhaust)
    then show "\<exists>a b c d. group a \<and> group b \<and> group c \<and> group d \<and> undot s = a @ ''.'' @ b @ ''.'' @ c @ ''.'' @ d"
    proof -
      obtain a where a: "undot s = a @ r1" "group a" "r1 = [] \<or> hd r1 = CHR ''.''" using 1(1) unfolding is_quad_iff by blast
      obtain b where b: "r1 = ''.'' @ b @ r2" "group b" "r2 = [] \<or> hd r2 = CHR ''.''" using rest [of r1 r2] 1(2) a(3) by blast
      obtain c where c: "r2 = ''.'' @ c @ r3" "group c" "r3 = [] \<or> hd r3 = CHR ''.''" using rest [of r2 r3] 1(3) b(3) by blast
      obtain d where d: "r3 = ''.'' @ d @ []" "group d" using rest [of r3 "[]"] 1(4) c(3) by blast
      show ?thesis using a b c d by (intro exI [of _ a] exI [of _ b] exI [of _ c] exI [of _ d]) simp
    qed
  next
    assume "\<exists>a b c d. group a \<and> group b \<and> group c \<and> group d \<and> undot s = a @ ''.'' @ b @ ''.'' @ c @ ''.'' @ d"
    then obtain a b c d where g: "group a" "group b" "group c" "group d" "undot s = a @ ''.'' @ b @ ''.'' @ c @ ''.'' @ d" by blast
    have "is_quad (Some s) = Some (''.'' @ b @ ''.'' @ c @ ''.'' @ d)" using g by (subst is_quad_iff) auto
    moreover have "is_quad (Some (''.'' @ b @ ''.'' @ c @ ''.'' @ d)) = Some (''.'' @ c @ ''.'' @ d)"
      using g by (subst is_quad_iff) (auto simp: undot_def)
    moreover have "is_quad (Some (''.'' @ c @ ''.'' @ d)) = Some (''.'' @ d)" using g by (subst is_quad_iff) (auto simp: undot_def)
    moreover have "is_quad (Some (''.'' @ d)) = Some []" using g by (subst is_quad_iff) (auto simp: undot_def)
    ultimately show "is_dottedquad s" by (simp add: is_dottedquad_def)
  qed
qed


subsection \<open>The replies of a listener\<close>

definition final_line :: "string \<Rightarrow> bool" where
  "final_line l \<longleftrightarrow> code_line l \<and> (char_at l 3 = SP \<or> char_at l 3 = NUL)"

definition ready :: "smtp \<Rightarrow> bool" where
  "ready st \<longleftrightarrow> length (response_buf st) = MSGBUFSIZE"

lemma write_keeps_inp: "inp (snd (SockWrite s buf)) = inp s"
proof (induction s buf rule: SockWrite.induct)
  case (1 s buf)
  show ?case using "1.IH" by (subst SockWrite.simps) (auto simp: Let_def split: prod.splits)
qed

lemma say_keeps [simp]: "inp (conn (say st t)) = inp (conn st)" "response_buf (say st t) = response_buf st"
  by (simp_all add: say_def SockPrintf_def write_keeps_inp)

lemma ready_say [simp]: "ready (say st t) = ready st"
  by (simp add: ready_def)

lemma ready_set: "ready st \<Longrightarrow> length t < MSGBUFSIZE \<Longrightarrow> ready (set_response st t)"
  by (simp add: ready_def set_response_def)

lemma ready_add: "ready st \<Longrightarrow> ready (add_response st t)"
  by (simp add: add_response_def ready_set MSGBUFSIZE_def)

lemma ready_conn [simp]: "ready (st\<lparr>conn := s\<rparr>) = ready st"
  by (simp add: ready_def)

lemma ready_ok_loop: "ready st \<Longrightarrow> ready (snd (SMTP_ok_loop st))"
proof (induction st rule: SMTP_ok_loop.induct)
  case (1 st)
  show ?case
    using "1.IH" "1.prems"
    by (subst SMTP_ok_loop.simps) (auto simp: Let_def ready_add split: prod.splits)
qed

lemma ready_SMTP_ok: "ready st \<Longrightarrow> ready (snd (SMTP_ok st))"
  unfolding SMTP_ok_def by (intro ready_ok_loop ready_set) (simp_all add: MSGBUFSIZE_def)

lemma ready_commands:
  assumes "ready st"
  shows "ready (snd (SMTP_helo h st))" "ready (snd (SMTP_from a b st))" "ready (snd (SMTP_rcpt h st))" "ready (snd (SMTP_data st))"
    "ready (snd (SMTP_rset st))" "ready (snd (SMTP_quit st))" "ready (snd (SMTP_eom m st))"
  using assms
  by (simp_all add: SMTP_helo_def SMTP_from_def SMTP_rcpt_def SMTP_data_def SMTP_rset_def SMTP_quit_def SMTP_eom_def Let_def ready_SMTP_ok)

lemma SMTP_ok_line:
  assumes "final_line l" "inp (conn st) = l @ CRLF @ rest" "ready st"
  obtains st1 where "SMTP_ok st = (verdict l, st1)" "inp (conn st1) = rest" "smtp_response st1 = l" "ready st1"
proof -
  have l: "code_line l" "char_at l 3 = SP \<or> char_at l 3 = NUL" "length l < MSGBUFSIZE"
    using assms(1) by (auto simp: final_line_def code_line_def text_line_def MSGBUFSIZE_def)
  have "smtp_response (set_response st []) = []" "length (response_buf (set_response st [])) = MSGBUFSIZE"
    using response_set [of st "[]"] assms(3) by (simp_all add: MSGBUFSIZE_def c_string_def ready_def)
  then obtain st1 where "SMTP_ok st = (verdict l, st1)" "inp (conn st1) = rest" "smtp_response st1 = l"
    using ok_lines [of "[]" l "set_response st []" rest] assms(2) l by (auto simp: SMTP_ok_def reply_text_def)
  moreover have "ready st1" using ready_SMTP_ok [OF assms(3)] calculation(1) by simp
  ultimately show ?thesis by (rule that)
qed

lemma command_line:
  assumes "final_line l" "inp (conn st) = l @ CRLF @ rest" "ready st"
  obtains st1 where "SMTP_ok (say st t) = (verdict l, st1)" "inp (conn st1) = rest" "smtp_response st1 = l" "ready st1"
  using SMTP_ok_line [of l "say st t" rest] assms by auto

subsection \<open>The recipients\<close>

text \<open>What the reply to a recipient makes of it.\<close>

datatype fate = Taken | Bounced | Dropped | Kept

definition fate_of :: "sink_options \<Rightarrow> string \<Rightarrow> fate" where
  "fate_of q l =
     (if verdict l = SM_OK then Taken
      else let c = handle_smtp_report_without_bounce q l in
        if c = PS_TRANSIENT then Kept else if c = PS_SUCCESS then Bounced else Dropped)"

fun mark_all :: "sink_options \<Rightarrow> (string \<times> xmit) list \<Rightarrow> string list \<Rightarrow> (string \<times> xmit) list" where
  "mark_all q ((i, m) # rs) ls =
     (if m \<noteq> XMIT_ACCEPT then (i, m) # mark_all q rs ls
      else (case ls of [] \<Rightarrow> (i, m) # rs
            | l # ls' \<Rightarrow> (i, if fate_of q l = Bounced then XMIT_RCPTBAD else m) # mark_all q rs ls'))"
| "mark_all q [] ls = []"

definition with_fate :: "sink_options \<Rightarrow> fate \<Rightarrow> string list \<Rightarrow> string list" where
  "with_fate q f ls = filter (\<lambda>l. fate_of q l = f) ls"

lemma codes_differ: "SM_OK \<noteq> SM_UNRECOVERABLE" "SM_ERROR \<noteq> SM_UNRECOVERABLE" "SM_ERROR \<noteq> SM_OK" "PS_SUCCESS \<noteq> PS_TRANSIENT"
  "PS_SUCCESS \<noteq> PS_REFUSED" "PS_REFUSED \<noteq> PS_TRANSIENT"
  by (simp_all add: SM_OK_def SM_ERROR_def SM_UNRECOVERABLE_def PS_SUCCESS_def PS_TRANSIENT_def PS_REFUSED_def)

lemma verdict_recoverable: "verdict l \<noteq> SM_UNRECOVERABLE"
  by (simp add: verdict_def codes_differ)

lemma rcpt_loop_replies:
  "\<forall>l\<in>set ls. final_line l \<Longrightarrow> length ls = length (accepted rs) \<Longrightarrow> inp (conn st) = reply_text ls @ rest \<Longrightarrow> ready st \<Longrightarrow>
     \<exists>st1. rcpt_loop q rs st = (\<lparr>broken = False, marked = mark_all q rs ls, good = length (with_fate q Taken ls),
         responses = with_fate q Bounced ls, transient = (with_fate q Kept ls \<noteq> [])\<rparr>, st1)
       \<and> inp (conn st1) = rest \<and> ready st1"
proof (induction q rs st arbitrary: ls rule: rcpt_loop.induct)
  case (1 q st)
  then show ?case by (simp add: accepted_def with_fate_def reply_text_def)
next
  case (2 q i m rs st)
  show ?case
  proof (cases "m = XMIT_ACCEPT")
    case False
    then have "length ls = length (accepted rs)" using "2.prems"(2) by (simp add: accepted_def)
    from "2.IH"(1) [OF False "2.prems"(1) this "2.prems"(3,4)] show ?thesis using False by auto
  next
    case True
    then obtain l ls1 where ls: "ls = l # ls1" "length ls1 = length (accepted rs)"
      using "2.prems"(2) by (cases ls) (auto simp: accepted_def)
    have l: "final_line l" "inp (conn st) = l @ CRLF @ (reply_text ls1 @ rest)"
      using "2.prems" ls by (simp_all add: reply_text_def)
    obtain st1 where st1: "SMTP_rcpt (rcpt_address q i True) st = (verdict l, st1)" "inp (conn st1) = reply_text ls1 @ rest"
      "smtp_response st1 = l" "ready st1"
      unfolding SMTP_rcpt_def by (rule command_line [OF l "2.prems"(4)])
    have "\<not> m \<noteq> XMIT_ACCEPT" "\<forall>l\<in>set ls1. final_line l" using True "2.prems"(1) ls by auto
    then obtain st2 where st2: "rcpt_loop q rs st1 = (\<lparr>broken = False, marked = mark_all q rs ls1, good = length (with_fate q Taken ls1),
         responses = with_fate q Bounced ls1, transient = (with_fate q Kept ls1 \<noteq> [])\<rparr>, st2)" "inp (conn st2) = rest" "ready st2"
      using "2.IH"(2) [OF _ st1(1) [symmetric] refl verdict_recoverable _ ls(2) st1(2,4)] by blast
    show ?thesis
      using True st1(1,3) st2 verdict_recoverable [of l] ls(1)
      by (simp add: Let_def fate_of_def with_fate_def)
  qed
qed

end
