(* ===== verification/SinkReplies.thy ===== *)
theory SinkReplies
  imports SinkProps
begin

section \<open>Which recipients a message is delivered to\<close>

subsection \<open>Steps\<close>

lemma drain_zero [simp]: "drain n = 0"
  by (induction n) simp_all

lemma bounce_envelope_keeps: "ready st \<Longrightarrow> ready (snd (bounce_envelope q b st))"
proof -
  assume st: "ready st"
  obtain e1 s1 where 1: "SMTP_helo (fetchmailhost q) st = (e1, s1)" by fastforce
  obtain e2 s2 where 2: "SMTP_from ''<>'' None s1 = (e2, s2)" by fastforce
  obtain e3 s3 where 3: "SMTP_rcpt b s2 = (e3, s3)" by fastforce
  obtain e4 s4 where 4: "SMTP_data s3 = (e4, s4)" by fastforce
  have "ready s1" using ready_commands(1) [OF st] 1 by (metis snd_conv)
  moreover have "ready s2" using ready_commands(2) [OF \<open>ready s1\<close>] 2 by (metis snd_conv)
  moreover have "ready s3" using ready_commands(3) [OF \<open>ready s2\<close>] 3 by (metis snd_conv)
  moreover have "ready s4" using ready_commands(4) [OF \<open>ready s3\<close>] 4 by (metis snd_conv)
  ultimately show ?thesis by (simp add: bounce_envelope_def 1 2 3 4)
qed

lemma bounce_text_keeps: "ready st \<Longrightarrow> ready (bounce_text q m b c r es st)"
proof -
  have s: "ready (says ts x) = ready x" for ts x by (induction ts arbitrary: x) (auto simp: says_def)
  show "ready st \<Longrightarrow> ready (bounce_text q m b c r es st)" by (simp add: bounce_text_def Let_def s)
qed

lemma bounce_session_keeps: "ready st \<Longrightarrow> ready (snd (bounce_session q m c r es st))"
proof -
  assume st: "ready st"
  define b where "b = (if bouncemail q then return_path m else postmaster q)"
  obtain e1 s1 where 1: "SMTP_ok st = (e1, s1)" by fastforce
  obtain ok s2 where 2: "bounce_envelope q b s1 = (ok, s2)" by fastforce
  obtain e3 s3 where 3: "SMTP_eom (CHR ''S'') (bounce_text q m b c r es s2) = (e3, s3)" by fastforce
  obtain e4 s4 where 4: "SMTP_quit s3 = (e4, s4)" by fastforce
  have r1: "ready s1" using ready_SMTP_ok [OF st] 1 by (metis snd_conv)
  have r2: "ready s2" using bounce_envelope_keeps [OF r1] 2 by (metis snd_conv)
  have r3: "ready s3" using ready_commands(7) [OF bounce_text_keeps [OF r2]] 3 by (metis snd_conv)
  have "ready s4" using ready_commands(6) [OF r3] 4 by (metis snd_conv)
  then show ?thesis using r1 r3 ready_commands(6) [OF r2] by (simp add: bounce_session_def Let_def b_def [symmetric] 1 2 3 4)
qed

lemma send_bouncemail_keeps:
  assumes "ready (listener d)" "send_bouncemail q c r es d = (ok, d1)"
  shows "conn (listener d1) = conn (listener d)" "ready (listener d1)" "message_of d1 = message_of d" "connected d1 = connected d"
    "lmtp_responses d1 = lmtp_responses d"
proof -
  have "conn (listener d1) = conn (listener d) \<and> ready (listener d1) \<and> message_of d1 = message_of d \<and> connected d1 = connected d
    \<and> lmtp_responses d1 = lmtp_responses d"
  proof (cases "no_bounce_to (return_path (message_of d)) \<or> locals d = [] \<or> hd (locals d) = None")
    case True
    then show ?thesis using assms by (cases "locals d") (auto simp: send_bouncemail_def split: if_splits)
  next
    case False
    then obtain s later where l: "locals d = Some s # later" by (cases "locals d") auto
    obtain ok1 st where b: "bounce_session q (message_of d) c r es ((listener d)\<lparr>conn := s\<rparr>) = (ok1, st)" by fastforce
    have "ready st" using bounce_session_keeps [of "(listener d)\<lparr>conn := s\<rparr>"] b assms(1) by (metis ready_conn snd_conv)
    then show ?thesis using False l b assms(2) by (auto simp: send_bouncemail_def)
  qed
  then show "conn (listener d1) = conn (listener d)" "ready (listener d1)" "message_of d1 = message_of d" "connected d1 = connected d"
    "lmtp_responses d1 = lmtp_responses d" by simp_all
qed

lemma smtp_close_keeps [simp]: "bounces (smtp_close b d) = bounces d" "locals (smtp_close b d) = locals d"
  by (simp_all add: smtp_close_def)

lemma smtp_rset_keeps [simp]: "bounces (smtp_rset d) = bounces d" "locals (smtp_rset d) = locals d"
  by (simp_all add: smtp_rset_def Let_def split: prod.split)

text \<open>The envelope, when the listener answers every command with one line and takes the sender.\<close>

definition envelope_replies :: "delivery \<Rightarrow> string \<Rightarrow> string list \<Rightarrow> string \<Rightarrow> bool" where
  "envelope_replies d l0 ls rest \<longleftrightarrow>
     ready (listener d) \<and> final_line l0 \<and> verdict l0 = SM_OK \<and> (\<forall>l\<in>set ls. final_line l)
     \<and> length ls = length (accepted (recipients (message_of d))) \<and> inp (conn (listener d)) = reply_text (l0 # ls) @ rest"

definition after_rcpts :: "sink_options \<Rightarrow> string list \<Rightarrow> smtp \<Rightarrow> delivery \<Rightarrow> delivery" where
  "after_rcpts q ls st d = d\<lparr>listener := st, message_of := (message_of d)\<lparr>recipients := mark_all q (recipients (message_of d)) ls\<rparr>\<rparr>"

lemma open_replies:
  assumes "envelope_replies d l0 ls rest"
  obtains st where "inp (conn st) = rest" "ready st"
    "open_smtp_sink q d =
       (if with_fate q Kept ls \<noteq> [] then (PS_TRANSIENT, length (with_fate q Taken ls), 0, smtp_rset (after_rcpts q ls st d))
        else
          let g = length (with_fate q Taken ls); es = with_fate q Bounced ls; d2 = after_rcpts q ls st d;
              d3 = (if es = [] then d2 else snd (send_bouncemail q XMIT_RCPTBAD rejected_text es d2));
              (r, d4) = (if g = 0 then to_postmaster q d3 else start_data q g d3) in
          (r, g, 0, d4))"
proof -
  let ?m = "message_of d"
  note a = assms [unfolded envelope_replies_def]
  have i: "inp (conn (listener d)) = l0 @ CRLF @ (reply_text ls @ rest)" using a by (simp add: reply_text_def)
  obtain st0 where st0: "SMTP_from (mail_from q (return_path ?m)) (Some (esmtp_params q (reallen ?m))) (listener d) = (SM_OK, st0)"
    "inp (conn st0) = reply_text ls @ rest" "ready st0"
    unfolding SMTP_from_def Let_def using command_line [OF _ i] a by metis
  obtain st where st: "rcpt_loop q (recipients ?m) st0 = (\<lparr>broken = False, marked = mark_all q (recipients ?m) ls,
      good = length (with_fate q Taken ls), responses = with_fate q Bounced ls, transient = (with_fate q Kept ls \<noteq> [])\<rparr>, st)"
    "inp (conn st) = rest" "ready st"
    using rcpt_loop_replies [of ls "recipients ?m" st0 rest q] a st0(2,3) by blast
  have "d\<lparr>listener := st0, listener := st, message_of := ?m\<lparr>recipients := mark_all q (recipients ?m) ls\<rparr>\<rparr> = after_rcpts q ls st d"
    by (simp add: after_rcpts_def)
  then show ?thesis
    using that [OF st(2,3)] st0(1) st(1) codes_differ
    by (simp add: open_smtp_sink_def Let_def split: prod.split)
qed

lemma start_data_reply:
  assumes "final_line l" "inp (conn (listener d)) = l @ CRLF @ rest" "ready (listener d)" "verdict l = SM_OK"
  obtains st where "start_data q n d = (PS_SUCCESS, d\<lparr>listener := st, lmtp_responses := n\<rparr>)" "inp (conn st) = rest" "ready st"
proof -
  obtain st where "SMTP_data (listener d) = (SM_OK, st)" "inp (conn st) = rest" "ready st"
    unfolding SMTP_data_def using command_line [OF assms(1-3)] assms(4) by metis
  then show ?thesis using that codes_differ by (simp add: start_data_def Let_def)
qed

subsection \<open>A recipient that has to wait\<close>

text \<open>
  C11. When the listener puts off one recipient, the message is not delivered to any of them and nothing is bounced:
  the result is transient, whatever the replies to the other recipients were, so that the message stays on the server.
\<close>

theorem one_kept_keeps_all:
  assumes "envelope_replies d l0 ls rest" "l \<in> set ls" "fate_of q l = Kept"
  shows "\<exists>g d1. open_smtp_sink q d = (PS_TRANSIENT, g, 0, d1) \<and> bounces d1 = bounces d \<and> locals d1 = locals d"
proof -
  have k: "with_fate q Kept ls \<noteq> []" using assms(2,3) by (auto simp: with_fate_def filter_empty_conv)
  obtain st where "inp (conn st) = rest" "ready st" and o: "open_smtp_sink q d =
       (if with_fate q Kept ls \<noteq> [] then (PS_TRANSIENT, length (with_fate q Taken ls), 0, smtp_rset (after_rcpts q ls st d))
        else
          let g = length (with_fate q Taken ls); es = with_fate q Bounced ls; d2 = after_rcpts q ls st d;
              d3 = (if es = [] then d2 else snd (send_bouncemail q XMIT_RCPTBAD rejected_text es d2));
              (r, d4) = (if g = 0 then to_postmaster q d3 else start_data q g d3) in
          (r, g, 0, d4))"
    by (rule open_replies [OF assms(1), of q])
  then show ?thesis using k by (simp add: after_rcpts_def)
qed


subsection \<open>Who is blamed\<close>

lemma error_of_step:
  "length us + k = length es \<Longrightarrow> length es \<noteq> 1 \<Longrightarrow> error_of es k us = zip us (map Some (drop k es))"
proof (induction us arbitrary: k)
  case (Cons u us)
  then have "k < length es" by simp
  then have "drop k es = es ! k # drop (k + 1) es" by (simp add: Cons_nth_drop_Suc)
  then show ?case using Cons \<open>k < length es\<close> by simp
qed simp

lemma error_of_single: "error_of [e] k us = map (\<lambda>i. (i, Some e)) us"
  by (induction us arbitrary: k) simp_all

lemma error_of_zip:
  assumes "length us = length es"
  shows "error_of es 0 us = zip us (map Some es)"
proof (cases "length es = 1")
  case True
  then obtain e u where "es = [e]" "us = [u]" using assms by (auto simp: length_Suc_conv)
  then show ?thesis by simp
next
  case False
  then show ?thesis using error_of_step [of us 0 es] assms by simp
qed

lemma marked_bounced:
  "length ls = length (accepted rs) \<Longrightarrow> \<forall>(i, m)\<in>set rs. m \<noteq> XMIT_RCPTBAD \<Longrightarrow>
     map fst (filter (\<lambda>(i, k). k = XMIT_RCPTBAD) (mark_all q rs ls)) = map fst (filter (\<lambda>(i, l). fate_of q l = Bounced) (zip (accepted rs) ls))"
proof (induction q rs ls rule: mark_all.induct)
  case (1 q i m rs ls)
  show ?case
  proof (cases "m = XMIT_ACCEPT")
    case False
    then show ?thesis using 1 by (simp add: accepted_def)
  next
    case True
    then obtain l ls1 where "ls = l # ls1" using "1.prems"(1) by (cases ls) (simp_all add: accepted_def)
    then show ?thesis using 1 True by (simp add: accepted_def)
  qed
qed (simp add: accepted_def)

lemma zip_fates: "map snd (filter (\<lambda>(i, l). fate_of q l = f) (zip us ls)) = with_fate q f (take (length us) ls)"
  by (induction us ls rule: list_induct2') (simp_all add: with_fate_def)

text \<open>
  The bounce for the recipients an SMTP listener rejected names exactly them, each with the reply that was given for it.
\<close>

theorem bounce_names_rejected:
  assumes "length ls = length (accepted rs)" "\<forall>(i, m)\<in>set rs. m \<noteq> XMIT_RCPTBAD"
  shows "error_of (with_fate q Bounced ls) 0 (map fst (filter (\<lambda>(i, k). k = XMIT_RCPTBAD) (mark_all q rs ls)))
    = map (\<lambda>(i, l). (i, Some l)) (filter (\<lambda>(i, l). fate_of q l = Bounced) (zip (accepted rs) ls))"
proof -
  let ?z = "filter (\<lambda>(i, l). fate_of q l = Bounced) (zip (accepted rs) ls)"
  have e: "with_fate q Bounced ls = map snd ?z" using zip_fates [of q Bounced "accepted rs" ls] assms(1) by simp
  have "zip (map fst ?z) (map Some (map snd ?z)) = map (\<lambda>(i, l). (i, Some l)) ?z"
    by (simp add: zip_map_map zip_same_conv_map case_prod_unfold)
  then show ?thesis unfolding marked_bounced [OF assms] e by (subst error_of_zip) simp_all
qed


definition failed :: "string list \<Rightarrow> string list" where
  "failed ls = filter (\<lambda>l. verdict l \<noteq> SM_OK) ls"

lemma lmtp_eat_replies:
  "\<forall>l\<in>set ls. final_line l \<Longrightarrow> inp (conn st) = reply_text ls @ rest \<Longrightarrow> ready st \<Longrightarrow>
     \<exists>st1. lmtp_eat (length ls) st = (False, failed ls, st1) \<and> inp (conn st1) = rest \<and> ready st1"
proof (induction ls arbitrary: st)
  case Nil
  then show ?case by (simp add: failed_def reply_text_def)
next
  case (Cons l ls)
  have l: "final_line l" "inp (conn st) = l @ CRLF @ (reply_text ls @ rest)" using Cons.prems by (simp_all add: reply_text_def)
  obtain st1 where st1: "SMTP_ok st = (verdict l, st1)" "inp (conn st1) = reply_text ls @ rest" "smtp_response st1 = l" "ready st1"
    by (rule SMTP_ok_line [OF l Cons.prems(3)])
  obtain st2 where "lmtp_eat (length ls) st1 = (False, failed ls, st2)" "inp (conn st2) = rest" "ready st2"
    using Cons.IH [OF _ st1(2,4)] Cons.prems(1) by auto
  then show ?case using st1(1,3) verdict_recoverable [of l] by (simp add: failed_def)
qed

lemma SMTP_eom_lmtp: "m \<noteq> CHR ''S'' \<Longrightarrow> SMTP_eom m st = (SM_OK, say st (''.'' @ CRLF))"
  by (simp add: SMTP_eom_def Let_def)

text \<open>
  The list for LMTP has the failed replies only, but it is matched with all the recipients the listener had taken:
  when one delivery of several fails, the bounce reports that failure for every one of them.
\<close>

theorem lmtp_bounce_blames_all:
  assumes "mode q = CHR ''L''" "lmtp_responses d = length ls" "\<forall>l\<in>set ls. final_line l" "ready (listener d)"
    "inp (conn (listener d)) = reply_text ls @ rest" "failed ls = [e]"
  shows "\<exists>d1. close_listener q True d = send_bouncemail q XMIT_ACCEPT partial_text [e] d1
    \<and> message_of d1 = message_of d
    \<and> error_of [e] 0 (accepted (recipients (message_of d1))) = map (\<lambda>i. (i, Some e)) (accepted (recipients (message_of d)))"
proof -
  have m: "SMTP_eom (mode q) (listener d) = (SM_OK, say (listener d) (''.'' @ CRLF))" using assms(1) by (simp add: SMTP_eom_lmtp)
  obtain st1 where st1: "lmtp_eat (length ls) (say (listener d) (''.'' @ CRLF)) = (False, [e], st1)"
    using lmtp_eat_replies [OF assms(3), of "say (listener d) (''.'' @ CRLF)" rest] assms(4-6) by auto
  have "length ls \<noteq> 0" using assms(6) by (auto simp: failed_def)
  then have "close_listener q True d = send_bouncemail q XMIT_ACCEPT partial_text [e] (d\<lparr>listener := st1\<rparr>)"
    using m st1 assms(1,2) codes_differ by (simp add: close_listener_def)
  then show ?thesis by (intro exI [of _ "d\<lparr>listener := st1\<rparr>"]) (simp add: error_of_single)
qed

lemma start_data_count: "start_data q n d = (PS_SUCCESS, d1) \<Longrightarrow> lmtp_responses d1 = n"
proof -
  have "fst (handle_smtp_report q d) \<noteq> PS_SUCCESS" for d
    by (simp add: handle_smtp_report_def Let_def PS_REFUSED_def PS_SUCCESS_def PS_TRANSIENT_def)
  then show "start_data q n d = (PS_SUCCESS, d1) \<Longrightarrow> lmtp_responses d1 = n"
    using codes_differ by (auto simp: start_data_def Let_def split: prod.splits if_splits) (metis fst_conv)
qed

text \<open>
  With LMTP, a message that was taken for the postmaster, for want of any other recipient, counts as delivered to
  nobody: whatever the listener answers at the end, the result is that the message was not delivered, so that it stays on
  the server and is sent to the postmaster again with every poll.
\<close>

theorem lmtp_postmaster_again:
  assumes "mode q = CHR ''L''" "to_postmaster q d = (PS_SUCCESS, d1)" "lmtp_responses d2 = lmtp_responses d1"
  shows "\<not> fst (close_listener q True d2)"
proof -
  have "lmtp_responses d1 = 0"
    using assms(2) codes_differ start_data_count [of q 0]
    by (auto simp: to_postmaster_def Let_def split: prod.splits if_splits)
  then show ?thesis
    using assms(1,3) codes_differ by (simp add: close_listener_def SMTP_eom_lmtp)
qed

text \<open>
  A reply that asks for STARTTLS keeps the message on the server when it is the reply to the sender or to the data,
  but not when it is the reply to a recipient: with that recipient alone and without a postmaster, the message is refused,
  and with that deleted.
\<close>

theorem starttls_to_rcpt_refuses:
  assumes "envelope_replies d l0 [l] rest" "atoi l = 530" "verdict l \<noteq> SM_OK" "530 \<notin> set (antispam q)" "postmaster q = []"
    "smtp_response (listener d2) = l"
  shows "(\<exists>d1. open_smtp_sink q d = (PS_REFUSED, 0, 0, d1)) \<and> fst (handle_smtp_report q d2) = PS_TRANSIENT"
proof
  have "fate_of q l = Bounced"
    using assms(2-4) codes_differ by (simp add: fate_of_def handle_smtp_report_without_bounce_def Let_def)
  then have f: "with_fate q Kept [l] = []" "with_fate q Taken [l] = []" by (simp_all add: with_fate_def)
  obtain st where "inp (conn st) = rest" and o: "open_smtp_sink q d =
       (if with_fate q Kept [l] \<noteq> [] then (PS_TRANSIENT, length (with_fate q Taken [l]), 0, smtp_rset (after_rcpts q [l] st d))
        else
          let g = length (with_fate q Taken [l]); es = with_fate q Bounced [l]; d2 = after_rcpts q [l] st d;
              d3 = (if es = [] then d2 else snd (send_bouncemail q XMIT_RCPTBAD rejected_text es d2));
              (r, d4) = (if g = 0 then to_postmaster q d3 else start_data q g d3) in
          (r, g, 0, d4))"
    by (rule open_replies [OF assms(1), of q])
  then show "\<exists>d1. open_smtp_sink q d = (PS_REFUSED, 0, 0, d1)"
    using assms(5) by (simp add: f to_postmaster_def Let_def)
  show "fst (handle_smtp_report q d2) = PS_TRANSIENT"
    using assms(2,4,6) by (simp add: handle_smtp_report_def Let_def)
qed

subsection \<open>An example\<close>

definition talk :: "string \<Rightarrow> sock" where
  "talk t = \<lparr>inp = t, avail = [], wroom = [], outp = []\<rparr>"

definition sample_delivery :: "string list \<Rightarrow> string \<Rightarrow> (string \<times> xmit) list \<Rightarrow> delivery" where
  "sample_delivery ls rest rs =
     \<lparr>listener = \<lparr>conn = talk (reply_text ls @ rest), response_buf = replicate MSGBUFSIZE NUL\<rparr>, connected = True,
      message_of = sample_message rs ''joe@x.org'', locals = [], bounces = [], lmtp_responses = 0\<rparr>"

definition three :: "(string \<times> xmit) list" where
  "three = [(''ann'', XMIT_ACCEPT), (''bob'', XMIT_ACCEPT), (''sue'', XMIT_ACCEPT)]"

lemma sample_replies:
  "final_line ''250 ok''" "final_line ''550 no''" "final_line ''451 wait''" "final_line ''571 spam''" "final_line ''354 go''" "final_line ''530 tls''"
  "verdict ''250 ok'' = SM_OK" "verdict ''354 go'' = SM_OK" "verdict ''550 no'' = SM_ERROR" "verdict ''530 tls'' = SM_ERROR"
  by (simp_all add: final_line_def code_line_def text_line_def iscntrl_def isdigit_def code_def verdict_def)

lemma sample_fates:
  "fate_of sink_sample ''250 ok'' = Taken" "fate_of sink_sample ''550 no'' = Bounced" "fate_of sink_sample ''451 wait'' = Kept"
  "fate_of sink_sample ''571 spam'' = Dropped"
  by code_simp+

lemma sample_envelope:
  "\<forall>l\<in>set ls. final_line l \<Longrightarrow> length ls = length (accepted rs) \<Longrightarrow> envelope_replies (sample_delivery (''250 ok'' # ls) rest rs) ''250 ok'' ls rest"
  by (simp add: envelope_replies_def sample_delivery_def sample_message_def ready_def talk_def sample_replies)

theorem one_kept_keeps_all_witness:
  "\<exists>g d1. open_smtp_sink sink_sample (sample_delivery [''250 ok'', ''250 ok'', ''550 no'', ''451 wait''] [] three) = (PS_TRANSIENT, g, 0, d1)
     \<and> bounces d1 = [] \<and> locals d1 = []"
proof -
  have "envelope_replies (sample_delivery (''250 ok'' # [''250 ok'', ''550 no'', ''451 wait'']) [] three) ''250 ok'' [''250 ok'', ''550 no'', ''451 wait''] []"
    by (rule sample_envelope) (simp_all add: sample_replies three_def accepted_def)
  from one_kept_keeps_all [OF this, of "''451 wait''" sink_sample] sample_fates show ?thesis
    by (simp add: sample_delivery_def)
qed


theorem bounce_names_rejected_witness:
  "error_of (with_fate sink_sample Bounced [''550 no'', ''250 ok'', ''550 no'']) 0
       (map fst (filter (\<lambda>(i, k). k = XMIT_RCPTBAD) (mark_all sink_sample three [''550 no'', ''250 ok'', ''550 no''])))
     = [(''ann'', Some ''550 no''), (''sue'', Some ''550 no'')]"
  using bounce_names_rejected [of "[''550 no'', ''250 ok'', ''550 no'']" three sink_sample] sample_fates
  by (simp add: three_def accepted_def)

definition lmtp_sample :: delivery where
  "lmtp_sample = (sample_delivery [''250 ok'', ''550 no'', ''250 ok''] [] three)\<lparr>lmtp_responses := 3\<rparr>"

definition lmtp_options :: sink_options where
  "lmtp_options = sink_sample\<lparr>mode := CHR ''L''\<rparr>"

theorem lmtp_bounce_blames_all_witness:
  "\<exists>d1. close_listener lmtp_options True lmtp_sample = send_bouncemail lmtp_options XMIT_ACCEPT partial_text [''550 no''] d1
     \<and> error_of [''550 no''] 0 (accepted (recipients (message_of d1))) = [(''ann'', Some ''550 no''), (''bob'', Some ''550 no''), (''sue'', Some ''550 no'')]"
proof -
  let ?ls = "[''250 ok'', ''550 no'', ''250 ok'']"
  have m: "message_of lmtp_sample = sample_message three ''joe@x.org''" "mode lmtp_options = CHR ''L''"
    by (simp_all add: lmtp_sample_def sample_delivery_def lmtp_options_def)
  have "lmtp_responses lmtp_sample = length ?ls" "\<forall>l\<in>set ?ls. final_line l" "ready (listener lmtp_sample)"
    "inp (conn (listener lmtp_sample)) = reply_text ?ls @ []" "failed ?ls = [''550 no'']"
    by (simp_all add: lmtp_sample_def sample_delivery_def talk_def ready_def sample_replies failed_def codes_differ)
  from lmtp_bounce_blames_all [OF m(2) this] m(1) show ?thesis
    by (auto simp: sample_message_def three_def accepted_def)
qed

theorem lmtp_postmaster_again_witness:
  "\<exists>d1. to_postmaster lmtp_options (sample_delivery [''250 ok'', ''354 go'', ''250 delivered''] [] []) = (PS_SUCCESS, d1)
     \<and> \<not> fst (close_listener lmtp_options True d1)"
proof -
  let ?d = "sample_delivery [''250 ok'', ''354 go'', ''250 delivered''] [] []"
  have i: "inp (conn (listener ?d)) = ''250 ok'' @ CRLF @ (''354 go'' @ CRLF @ reply_text [''250 delivered''])" "ready (listener ?d)"
    by (simp_all add: sample_delivery_def talk_def ready_def reply_text_def)
  obtain st where st: "SMTP_rcpt (rcpt_address lmtp_options (postmaster lmtp_options) False) (listener ?d) = (SM_OK, st)"
    "inp (conn st) = ''354 go'' @ CRLF @ reply_text [''250 delivered'']" "ready st"
    unfolding SMTP_rcpt_def using command_line [OF sample_replies(1) i(1,2)] sample_replies by metis
  define d0 where "d0 = ?d\<lparr>listener := st\<rparr>"
  have i2: "inp (conn (listener d0)) = ''354 go'' @ CRLF @ reply_text [''250 delivered'']" "ready (listener d0)"
    using st(2,3) by (simp_all add: d0_def)
  obtain st1 where "start_data lmtp_options 0 d0 = (PS_SUCCESS, d0\<lparr>listener := st1, lmtp_responses := 0\<rparr>)"
    by (rule start_data_reply [OF sample_replies(5) i2 sample_replies(8)])
  then obtain d1 where d1: "to_postmaster lmtp_options ?d = (PS_SUCCESS, d1)"
    using st(1) codes_differ unfolding to_postmaster_def d0_def by (auto simp: lmtp_options_def sink_sample_def)
  have "mode lmtp_options = CHR ''L''" by (simp add: lmtp_options_def)
  from lmtp_postmaster_again [OF this d1] d1 show ?thesis by blast
qed

theorem starttls_to_rcpt_refuses_witness:
  "\<exists>d1. open_smtp_sink (sink_sample\<lparr>postmaster := []\<rparr>) (sample_delivery [''250 ok'', ''530 tls''] [] [(''ann'', XMIT_ACCEPT)]) = (PS_REFUSED, 0, 0, d1)"
proof -
  have e: "envelope_replies (sample_delivery (''250 ok'' # [''530 tls'']) [] [(''ann'', XMIT_ACCEPT)]) ''250 ok'' [''530 tls''] []"
    by (rule sample_envelope) (simp_all add: sample_replies accepted_def)
  have a: "atoi ''530 tls'' = 530" by code_simp
  have "verdict ''530 tls'' \<noteq> SM_OK" "530 \<notin> set (antispam (sink_sample\<lparr>postmaster := []\<rparr>))" "postmaster (sink_sample\<lparr>postmaster := []\<rparr>) = []"
    by (simp_all add: sample_replies codes_differ sink_sample_def)
  moreover have "smtp_response \<lparr>conn = talk [], response_buf = ''530 tls'' @ [NUL]\<rparr> = ''530 tls''" by (simp add: smtp_response_def cstr_of_def)
  ultimately show ?thesis
    using starttls_to_rcpt_refuses [OF e a, of "sink_sample\<lparr>postmaster := []\<rparr>"
        "(sample_delivery [] [] [])\<lparr>listener := \<lparr>conn = talk [], response_buf = ''530 tls'' @ [NUL]\<rparr>\<rparr>"] by simp
qed

end
