(* ===== verification/Multidrop.thy ===== *)
theory Multidrop
  imports Nxtaddr Sink
begin

section \<open>Recipients from headers (transact.c, checkalias.c)\<close>

subsection \<open>Aliases of the mail server\<close>

text \<open>
  The resolver is a parameter: the canonical name of a host, its addresses (family and bytes), and its MX records. The lists
  of the server are plain lists here; \<open>aliases\<close> is what a call changes, the \<open>also known as\<close> list and the count of errors.
\<close>

datatype lookup = Canon string | No_name | Failed
datatype mx_lookup = Mx "string list" | Mx_none | Mx_failed

record resolver =
  canonical :: "string \<Rightarrow> lookup"
  addresses_of :: "string \<Rightarrow> (int \<times> string) list option"
  mx_records :: "string \<Rightarrow> mx_lookup"

record server_names =
  true_name :: string
  lead_name :: string
  use_dns :: bool
  checkalias :: bool

record aliases =
  akalist :: "string list"
  errors :: int

definition is_ip_alias :: "resolver \<Rightarrow> string \<Rightarrow> string \<Rightarrow> bool" where
  "is_ip_alias r name1 name2 =
     (case addresses_of r name1 of
        None \<Rightarrow> False
      | Some res1 \<Rightarrow>
          (case addresses_of r name2 of
             None \<Rightarrow> False
           | Some res2 \<Rightarrow> list_ex (\<lambda>a1. list_ex (\<lambda>a2. a1 = a2) res2) res1))"

text \<open>A suffix that is led by a dot.\<close>

definition suffix_of :: "string \<Rightarrow> string \<Rightarrow> bool" where
  "suffix_of name i \<longleftrightarrow>
     (if length i \<ge> length name then False
      else let k = length name - length i in name ! (k - 1) = CHR ''.'' \<and> strcaseeq (drop k name) i)"

definition is_host_alias :: "server_names \<Rightarrow> resolver \<Rightarrow> string \<Rightarrow> aliases \<Rightarrow> bool \<times> aliases" where
  "is_host_alias q r name st =
     (let remember = (\<lambda>a. (True, a\<lparr>akalist := akalist a @ [name]\<rparr>)) in
      if strcaseeq (lead_name q) name then (True, st)
      else if list_ex (strcaseeq name) (akalist st) then (True, st)
      else if list_ex (suffix_of name) (akalist st) then (True, st)
      else if \<not> use_dns q then (False, st)
      else
        (case canonical r name of
           Canon c \<Rightarrow>
             if strcaseeq (true_name q) c then remember st
             else
               (case canonical r (true_name q) of
                  Canon _ \<Rightarrow> if checkalias q \<and> is_ip_alias r (true_name q) name then remember st else (False, st)
                | _ \<Rightarrow> (False, st))
         | bad \<Rightarrow>
             let st1 = (if bad = Failed then st\<lparr>errors := errors st + 1\<rparr> else st) in
             (case mx_records r name of
                Mx_none \<Rightarrow> (False, st1)
              | Mx_failed \<Rightarrow> remember (st1\<lparr>errors := errors st1 + 1\<rparr>)
              | Mx names \<Rightarrow>
                  if list_ex (\<lambda>m. strcaseeq (true_name q) m \<or> is_ip_alias r (true_name q) m) names then remember st1
                  else (False, st1))))"

subsection \<open>Local names\<close>

record drop_options =
  qvirtual :: "string option"
  localdomains :: "string list"
  localnames :: "(string \<times> string option) list"
  wildcard :: bool

record tally =
  xmit_names :: "(string \<times> xmit) list"
  accept_count :: int
  reject_count :: int
  known :: aliases

fun pair_find :: "(string \<times> string option) list \<Rightarrow> string \<Rightarrow> string option" where
  "pair_find [] s = None"
| "pair_find ((i, i2) # l) s = (if strcaseeq s i then Some (case i2 of None \<Rightarrow> i | Some j \<Rightarrow> j) else pair_find l s)"

definition accept :: "string \<Rightarrow> tally \<Rightarrow> tally" where
  "accept i f = f\<lparr>xmit_names := xmit_names f @ [(i, XMIT_ACCEPT)], accept_count := accept_count f + 1\<rparr>"

definition reject :: "string \<Rightarrow> tally \<Rightarrow> tally" where
  "reject i f = f\<lparr>xmit_names := xmit_names f @ [(i, XMIT_REJECT)], reject_count := reject_count f + 1\<rparr>"

definition map_address :: "drop_options \<Rightarrow> string \<Rightarrow> tally \<Rightarrow> bool \<times> tally" where
  "map_address q addr f =
     (case pair_find (localnames q) addr of None \<Rightarrow> (False, f) | Some lname \<Rightarrow> (True, accept lname f))"

definition map_name :: "drop_options \<Rightarrow> string \<Rightarrow> tally \<Rightarrow> tally" where
  "map_name q name f =
     (case pair_find (localnames q) name of
        Some lname \<Rightarrow> accept lname f
      | None \<Rightarrow> if wildcard q then accept name f else f)"

text \<open>\<open>at\<close> is the address from its at sign on.\<close>

definition in_domain :: "string \<Rightarrow> string \<Rightarrow> bool" where
  "in_domain at d \<longleftrightarrow>
     (if length d \<ge> length at then False
      else let k = length at - length d in (at ! (k - 1) = CHR ''.'' \<or> at ! (k - 1) = CHR ''@'') \<and> strcaseeq (drop k at) d)"

definition strip_virtual :: "drop_options \<Rightarrow> string \<Rightarrow> string" where
  "strip_virtual q cp = (case qvirtual q of None \<Rightarrow> cp | Some v \<Rightarrow> if has_iprefix cp v then drop (length v) cp else cp)"

text \<open>One address: the result, and where its at sign is overwritten with a NUL.\<close>

definition place_address :: "drop_options \<Rightarrow> server_names \<Rightarrow> resolver \<Rightarrow> string \<Rightarrow> tally \<Rightarrow> tally \<times> nat option" where
  "place_address q sv r cp0 f =
     (if cp0 = [] then (f, None)
      else
        let cp = strip_virtual q cp0 in
        (case strchr cp (CHR ''@'') of
           None \<Rightarrow> (f, None)
         | Some i \<Rightarrow>
             let (mapped, f1) = map_address q cp f in
             if mapped then (f1, None)
             else if list_ex (in_domain (drop i cp)) (localdomains q) then (accept cp f1, None)
             else
               let (alias, a1) = is_host_alias sv r (drop (i + 1) cp) (known f1); f2 = f1\<lparr>known := a1\<rparr> in
               if \<not> alias then (reject cp f2, None)
               else (map_name q (take i cp) f2, Some (length cp0 - length cp + i))))"

partial_function (option) find_names_loop ::
  "drop_options \<Rightarrow> server_names \<Rightarrow> resolver \<Rightarrow> string option \<Rightarrow> nxt \<Rightarrow> tally \<Rightarrow> (nxt \<times> tally) option" where
  "find_names_loop q sv r h nst f =
     (case nxtaddr h nst of
        None \<Rightarrow> None
      | Some (None, nst1) \<Rightarrow> Some (nst1, f)
      | Some (Some cp, nst1) \<Rightarrow>
          (case place_address q sv r cp f of
             (f1, at) \<Rightarrow>
               find_names_loop q sv r None
                 (case at of None \<Rightarrow> nst1 | Some i \<Rightarrow> nst1\<lparr>address := (address nst1)[i := NUL]\<rparr>) f1))"

declare find_names_loop.simps [code]

definition find_server_names ::
  "drop_options \<Rightarrow> server_names \<Rightarrow> resolver \<Rightarrow> string option \<Rightarrow> nxt \<Rightarrow> tally \<Rightarrow> (nxt \<times> tally) option" where
  "find_server_names q sv r hdr nst f = (case hdr of None \<Rightarrow> Some (nst, f) | Some h \<Rightarrow> find_names_loop q sv r (Some h) nst f)"

subsection \<open>The envelope address in a Received line\<close>

definition RBUF :: nat where "RBUF = 767"

definition skip_space :: "string \<Rightarrow> nat \<Rightarrow> nat" where
  "skip_space s p = p + length (takeWhile isspace (drop p s))"

definition token_at :: "string \<Rightarrow> nat \<Rightarrow> string" where
  "token_at s p = takeWhile (\<lambda>c. \<not> isspace c) (drop p s)"

lemma find_sub_drop: "find_sub (drop base s) w = Some j \<Longrightarrow> base \<le> length s \<Longrightarrow> base + j + length w \<le> length s"
  using find_sub_Some by fastforce

text \<open>
  The search for a word between white space: \<open>None\<close> is a read outside of the line, before its start, behind its end where the search
  goes on, or in the token, when \<open>endless\<close> says that only white space ends it. The result is where the word is and the token behind it.
\<close>

function word_loop :: "string \<Rightarrow> bool \<Rightarrow> (string \<Rightarrow> bool) \<Rightarrow> string \<Rightarrow> nat \<Rightarrow> (nat \<times> string) option option" where
  "word_loop w endless tokgood s base =
     (if base > length s then None
      else
        (case find_sub (drop base s) w of
           None \<Rightarrow> Some None
         | Some j \<Rightarrow>
             let ok = base + j in
             if ok = 0 then None
             else if \<not> isspace (s ! (ok - 1)) \<or> \<not> isspace (char_at s (ok + length w)) then word_loop w endless tokgood s (ok + 2)
             else
               let sp = skip_space s (ok + length w); tok = token_at s sp; sp1 = sp + length tok; rbuf = take (RBUF - 1) tok in
               if endless \<and> sp1 = length s then None
               else if tokgood rbuf then Some (Some (ok, rbuf))
               else word_loop w endless tokgood s (sp1 + 1)))"
  by pat_completeness auto
termination
  by (relation "measure (\<lambda>(w, e, g, s, base). length s + 1 - base)") (auto simp: skip_space_def)

declare word_loop.simps [simp del]

definition valid_address :: "string \<Rightarrow> bool" where
  "valid_address a \<longleftrightarrow> strchr a (CHR ''@'') = None"

text \<open>The text behind source routes.\<close>

function skip_routes :: "string \<Rightarrow> string" where
  "skip_routes t = (if t \<noteq> [] \<and> hd t = CHR ''@'' then skip_routes (drop 1 (dropWhile (\<lambda>c. c \<noteq> CHR '':'') t)) else t)"
  by pat_completeness auto
termination
proof (relation "measure length")
  fix t :: string
  assume t: "t \<noteq> [] \<and> hd t = CHR ''@''"
  have "length (dropWhile (\<lambda>c. c \<noteq> CHR '':'') t) \<le> length t" by (rule length_dropWhile_le)
  then show "(drop 1 (dropWhile (\<lambda>c. c \<noteq> CHR '':'') t), t) \<in> measure length" using t by (cases t) auto
qed simp

declare skip_routes.simps [simp del]

text \<open>The characters of the address, and whether there was white space in it.\<close>

fun collect_address :: "bool \<Rightarrow> string \<Rightarrow> string \<times> bool" where
  "collect_address want_gt [] = ([], False)"
| "collect_address want_gt (c # t) =
     (if (if want_gt then c = CHR ''>'' else isspace c) \<or> c = CHR '';'' then ([], False)
      else if isspace c then ([], True)
      else (let (a, bad) = collect_address want_gt t in (c # a, bad)))"

definition received_address :: "string \<Rightarrow> nat \<Rightarrow> string option" where
  "received_address s ok =
     (let t = drop (skip_space s (ok + 4)) s; want_gt = (t \<noteq> [] \<and> hd t = CHR ''<'');
          (a, bad) = collect_address want_gt (skip_routes (if want_gt then tl t else t));
          rbuf = take (RBUF - 1) ('': '' @ a @ [LF]) in
      if bad \<or> length rbuf \<le> 3 then None else Some rbuf)"

definition parse_received :: "server_names \<Rightarrow> resolver \<Rightarrow> string \<Rightarrow> aliases \<Rightarrow> (string option \<times> aliases) option" where
  "parse_received sv r bufp st =
     (case word_loop ''by'' False valid_address bufp 0 of
        None \<Rightarrow> None
      | Some None \<Rightarrow> Some (None, st)
      | Some (Some (ok, rbuf)) \<Rightarrow>
          (case is_host_alias sv r rbuf st of
             (alias, st1) \<Rightarrow>
               if \<not> alias then Some (None, st1)
               else
                 (case word_loop ''for'' True (\<lambda>a. \<not> valid_address a) bufp (ok + 4 + length rbuf) of
                    None \<Rightarrow> None
                  | Some None \<Rightarrow> Some (None, st1)
                  | Some (Some (ok1, rbuf1)) \<Rightarrow> Some (received_address bufp ok1, st1))))"

end
