(* ===== verification/MultiProps.thy ===== *)
theory MultiProps
  imports Multidrop
begin

section \<open>Recipients from headers: properties\<close>

subsection \<open>Samples\<close>

definition sample_names :: server_names where
  "sample_names = \<lparr>true_name = ''mx.a'', lead_name = ''mx.a'', use_dns = True, checkalias = False\<rparr>"

definition down :: resolver where
  "down = \<lparr>canonical = (\<lambda>n. Failed), addresses_of = (\<lambda>n. None), mx_records = (\<lambda>n. Mx_failed)\<rparr>"

definition up :: resolver where
  "up = \<lparr>canonical = Canon, addresses_of = (\<lambda>n. None), mx_records = (\<lambda>n. Mx_none)\<rparr>"

definition sample_drop :: drop_options where
  "sample_drop = \<lparr>qvirtual = None, localdomains = [], localnames = [(''joe'', Some ''jo'')], wildcard = False\<rparr>"

definition nobody :: tally where
  "nobody = \<lparr>xmit_names = [], accept_count = 0, reject_count = 0, known = \<lparr>akalist = [''a''], errors = 0\<rparr>\<rparr>"

subsection \<open>Counts\<close>

text \<open>The counters are the numbers of the marks.\<close>

definition counted :: "tally \<Rightarrow> bool" where
  "counted f \<longleftrightarrow> accept_count f = int (length (accepted (xmit_names f)))
     \<and> reject_count f = int (length (filter (\<lambda>(i, k). k = XMIT_REJECT) (xmit_names f)))"

lemma counted_changes [intro]:
  "counted f \<Longrightarrow> counted (accept i f)" "counted f \<Longrightarrow> counted (reject i f)" "counted f \<Longrightarrow> counted (f\<lparr>known := a\<rparr>)"
  by (auto simp: counted_def accept_def reject_def accepted_def)

lemma counted_map_address: "counted f \<Longrightarrow> map_address q a f = (b, f1) \<Longrightarrow> counted f1"
  by (auto simp: map_address_def split: option.splits)

lemma counted_map_name: "counted f \<Longrightarrow> counted (map_name q a f)"
  by (auto simp: map_name_def split: option.splits)

lemma counted_place:
  assumes "counted f"
  shows "counted (fst (place_address q sv r cp f))"
proof -
  obtain b f1 where m: "map_address q (strip_virtual q cp) f = (b, f1)" by fastforce
  have f1: "counted f1" by (rule counted_map_address [OF assms m])
  show ?thesis
    unfolding place_address_def Let_def m case_prod_conv using assms f1
    by (auto simp: Let_def intro!: counted_map_name split: option.splits prod.splits)
qed

subsection \<open>The loop over the addresses ends\<close>

text \<open>What is left to be scanned; behind the end of the header there is no address.\<close>

definition left_over :: "nxt \<Rightarrow> nat" where
  "left_over st = (if nstate st = ENDIT_ALL then 0 else case hp st of None \<Rightarrow> 0 | Some s \<Rightarrow> Suc (length s))"

definition scanning :: "nat \<Rightarrow> nxt \<Rightarrow> bool" where
  "scanning n st \<longleftrightarrow> nxt_ok n st \<and> tp st = 0 \<and> (\<forall>s. hp st = Some s \<longrightarrow> no_trailing_escape s)"

lemma first_call:
  assumes "length (address st) = n" "0 < n" "no_trailing_escape h"
  shows "\<exists>a st1. nxtaddr (Some h) st = Some (a, st1) \<and> (\<forall>x. a = Some x \<longrightarrow> length x < n \<and> scanning n st1)"
proof -
  let ?st = "st\<lparr>hp := Some h, nstate := START_HDR, tp := 0\<rparr>"
  have "nxt_ok n ?st" using assms by (simp add: nxt_ok_def)
  from nxt_loop_good [OF this, of h "length h" 0] show ?thesis
    using assms by (auto simp: nxtaddr_def scanning_def)
qed

lemma next_call:
  assumes "scanning n st"
  shows "\<exists>a st1. nxtaddr None st = Some (a, st1) \<and> (\<forall>x. a = Some x \<longrightarrow> length x < n \<and> scanning n st1 \<and> left_over st1 < left_over st)"
proof (cases "hp st")
  case None
  then show ?thesis by (simp add: nxtaddr_def)
next
  case (Some s)
  have ok: "nxt_ok n st" "tp st = 0" "no_trailing_escape s" using assms Some by (auto simp: scanning_def)
  show ?thesis
  proof (cases "nstate st = ENDIT_ALL")
    case True
    then show ?thesis using Some by (cases s) (auto simp: nxtaddr_def nxt_turn_def)
  next
    case False
    from nxt_loop_good [OF ok(1,3), of "length s" 0] ok(2) obtain a st1 s1
      where "nxt_loop 0 s st = Some (a, st1)" "hp st1 = Some s1" "good_turn n (length s) (Some (Ret a s1 st1))" by auto
    then show ?thesis
      using Some False by (intro exI [of _ a] exI [of _ st1]) (auto simp: nxtaddr_def scanning_def left_over_def)
  qed
qed

lemma scanning_put: "scanning n st \<Longrightarrow> scanning n (st\<lparr>address := (address st)[i := c]\<rparr>)"
  by (simp add: scanning_def nxt_ok_def)

lemma left_over_put [simp]: "left_over (st\<lparr>address := a\<rparr>) = left_over st"
  by (simp add: left_over_def)

definition put_at :: "nat option \<Rightarrow> nxt \<Rightarrow> nxt" where
  "put_at at st = (case at of None \<Rightarrow> st | Some i \<Rightarrow> st\<lparr>address := (address st)[i := NUL]\<rparr>)"

lemma put_at_simps [simp]:
  "scanning n st \<Longrightarrow> scanning n (put_at at st)" "left_over (put_at at st) = left_over st" "between n (put_at at st) = between n st"
  "nstate (put_at at st) = nstate st" "hp (put_at at st) = hp st"
  by (auto simp: put_at_def scanning_put between_def holds_def split: option.splits)

lemma find_names_call:
  "find_names_loop q sv r h nst f =
     (case nxtaddr h nst of
        None \<Rightarrow> None
      | Some (None, nst1) \<Rightarrow> Some (nst1, f)
      | Some (Some cp, nst1) \<Rightarrow>
          find_names_loop q sv r None (put_at (snd (place_address q sv r cp f)) nst1) (fst (place_address q sv r cp f)))"
  by (subst find_names_loop.simps)
     (auto simp: put_at_def split: option.splits prod.splits)

lemma names_loop_ends:
  "scanning n st \<Longrightarrow> counted f \<Longrightarrow> \<exists>st1 f1. find_names_loop q sv r None st f = Some (st1, f1) \<and> counted f1"
proof (induction "left_over st" arbitrary: st f rule: less_induct)
  case less
  obtain a st1 where c: "nxtaddr None st = Some (a, st1)"
      "\<And>x. a = Some x \<Longrightarrow> length x < n \<and> scanning n st1 \<and> left_over st1 < left_over st"
    using next_call [OF less.prems(1)] by blast
  show ?case
  proof (cases a)
    case None
    then show ?thesis using c(1) less.prems(2) by (subst find_names_call) simp
  next
    case (Some cp)
    let ?p = "place_address q sv r cp f"
    have "\<exists>st2 f2. find_names_loop q sv r None (put_at (snd ?p) st1) (fst ?p) = Some (st2, f2) \<and> counted f2"
      using c(2) [OF Some] counted_place [OF less.prems(2)] by (intro less.hyps) simp_all
    then show ?thesis using c(1) Some by (subst find_names_call) simp
  qed
qed

text \<open>
  C23. The names of a header are collected for every header that does not end in a backslash, whatever the resolver answers and the
  scanner did before: the loop over the addresses ends without a read or write outside of its buffers, and afterwards the counts of
  accepted and rejected names, on which the decision for the fallback name rests, are those of the list of recipients.
\<close>

theorem find_server_names_counts:
  assumes "counted f" "length (address st) = n" "0 < n" "\<And>h. hdr = Some h \<Longrightarrow> no_trailing_escape h"
  shows "\<exists>st1 f1. find_server_names q sv r hdr st f = Some (st1, f1) \<and> counted f1"
proof (cases hdr)
  case None
  then show ?thesis using assms(1) by (simp add: find_server_names_def)
next
  case (Some h)
  obtain a st1 where c: "nxtaddr (Some h) st = Some (a, st1)" "\<And>x. a = Some x \<Longrightarrow> length x < n \<and> scanning n st1"
    using first_call [OF assms(2,3)] assms(4) Some by blast
  show ?thesis
  proof (cases a)
    case None
    then show ?thesis using c(1) assms(1) Some by (simp add: find_server_names_def find_names_call [of _ _ _ "Some h"])
  next
    case (Some cp)
    have "\<exists>st2 f2. find_names_loop q sv r None (put_at (snd (place_address q sv r cp f)) st1) (fst (place_address q sv r cp f)) = Some (st2, f2)
        \<and> counted f2"
      using c(2) [OF Some] counted_place [OF assms(1)] by (intro names_loop_ends [of n]) simp_all
    then show ?thesis using c(1) Some \<open>hdr = Some h\<close> by (simp add: find_server_names_def find_names_call [of _ _ _ "Some h"])
  qed
qed

theorem find_server_names_counts_witness:
  "\<exists>st1 f1. find_server_names sample_drop sample_names up (Some ''To: joe@a, x@y'') (nxt_init 9) nobody = Some (st1, f1) \<and> counted f1"
  by (rule find_server_names_counts) (auto simp: counted_def nobody_def accepted_def nxt_init_def no_trailing_escape_def)

subsection \<open>The addresses of a header are placed in order\<close>

definition place_all :: "drop_options \<Rightarrow> server_names \<Rightarrow> resolver \<Rightarrow> string list \<Rightarrow> tally \<Rightarrow> tally" where
  "place_all q sv r as f = foldl (\<lambda>g a. fst (place_address q sv r a g)) f as"

lemma names_items:
  "list_all (item_ok n) is \<Longrightarrow> is \<noteq> [] \<Longrightarrow> between n st \<Longrightarrow>
   nxtaddr h st0 = nxt_loop 0 (items_text is @ [LF]) st \<Longrightarrow>
   \<exists>st1. find_names_loop q sv r h st0 f = Some (st1, place_all q sv r (map item_addr is) f)"
proof (induction "is" arbitrary: st h st0 f rule: items_text.induct)
  case (2 i)
  have call: "nxtaddr h st0 = nxt_loop 0 (item_text i @ [LF]) st"
    using 2(4) by simp
  show ?case
  proof (cases i)
    case (Bare a)
    let ?p = "place_address q sv r a f"
    obtain st' where st': "nxt_loop 0 (a @ [LF]) st = Some (Some a, st'\<lparr>hp := Some [LF]\<rparr>)" "nstate st' = ENDIT_ALL"
      using bare_item_end [of n a st 0] 2(1,3) Bare by auto
    then show ?thesis
      using call Bare endit_nothing [of "put_at (snd ?p) (st'\<lparr>hp := Some [LF]\<rparr>)"]
      by (subst find_names_call) (simp add: place_all_def find_names_call [of _ _ _ None])
  next
    case (Angle p a)
    obtain st' where st': "nxt_loop 0 (item_text i @ [LF]) st = Some (Some a, st'\<lparr>hp := Some [LF]\<rparr>)" "between n st'"
      using angle_item [of n p a st 0 "[LF]"] 2(1,3) Angle by auto
    let ?st = "put_at (snd (place_address q sv r a f)) (st'\<lparr>hp := Some [LF]\<rparr>)"
    have "\<exists>st''. nxtaddr None ?st = Some (None, st'')"
      using header_end_nothing [of n ?st 0] st'(2) by (simp add: nxtaddr_def)
    then show ?thesis using call st' Angle
      by (subst find_names_call) (auto simp: place_all_def find_names_call [of _ _ _ None])
  qed
next
  case (3 i j "is")
  let ?rest = "items_text (j # is) @ [LF]"
  have call: "nxtaddr h st0 = nxt_loop 0 (item_text i @ '', '' @ ?rest) st"
    using 3(5) by simp
  have "\<exists>st'. nxtaddr h st0 = Some (Some (item_addr i), st'\<lparr>hp := Some ('', '' @ ?rest)\<rparr>) \<and> between n st'"
  proof (cases i)
    case (Bare a)
    then show ?thesis using bare_item_comma [of n a st 0 "'' '' @ ?rest"] 3(2,4) call by auto
  next
    case (Angle p a)
    then show ?thesis using angle_item [of n p a st 0 "'', '' @ ?rest"] 3(2,4) call by auto
  qed
  then obtain st' where st': "nxtaddr h st0 = Some (Some (item_addr i), st'\<lparr>hp := Some ('', '' @ ?rest)\<rparr>)"
      "between n st'" by blast
  let ?p = "place_address q sv r (item_addr i) f"
  let ?st = "put_at (snd ?p) (st'\<lparr>hp := Some ('', '' @ ?rest)\<rparr>)"
  have "\<exists>st1. find_names_loop q sv r None ?st (fst ?p) = Some (st1, place_all q sv r (map item_addr (j # is)) (fst ?p))"
    using 3(2) st'(2) skip_separator(1) [of n ?st 0 ?rest]
    by (intro 3(1) [where st = ?st]) (simp_all add: nxtaddr_def)
  then show ?case using st'(1) by (subst find_names_call) (simp add: place_all_def)
qed simp

text \<open>
  C22. From a header with comma-separated addresses, bare ones and ones in angle brackets behind a phrase, each address is placed, in
  order, though the loop writes a NUL into the buffer that the scanner returned and goes on scanning from it.
\<close>

theorem find_server_names_items:
  assumes "CHR '':'' \<notin> set m" "BACKSLASH \<notin> set m" "LF \<notin> set m" "list_all (item_ok n) is"
    "is \<noteq> []" "length (address st) = n" "0 < n"
  shows "\<exists>st1. find_server_names q sv r (Some (m @ '': '' @ items_text is @ [LF])) st f
    = Some (st1, place_all q sv r (map item_addr is) f)"
proof -
  let ?h = "m @ '': '' @ items_text is @ [LF]"
  obtain st1 where c: "nxtaddr (Some ?h) st = nxt_loop 0 (items_text is @ [LF]) st1" "between n st1"
    using header_call [OF assms(1-3,6,7)] by blast
  show ?thesis using names_items [OF assms(4,5) c(2,1)] by (simp add: find_server_names_def)
qed

theorem find_server_names_items_witness:
  "\<exists>st1 f1. find_server_names sample_drop sample_names up (Some (''To: Joe <joe@a>, x@y'' @ [LF])) (nxt_init 9) nobody = Some (st1, f1)
    \<and> xmit_names f1 = [(''jo'', XMIT_ACCEPT), (''x@y'', XMIT_REJECT)]"
proof -
  have "xmit_names (place_all sample_drop sample_names up [''joe@a'', ''x@y''] nobody) = [(''jo'', XMIT_ACCEPT), (''x@y'', XMIT_REJECT)]"
    by code_simp
  then show ?thesis
    using find_server_names_items [of "''To''" 9 "[Angle ''Joe '' ''joe@a'', Bare ''x@y'']" "nxt_init 9" sample_drop sample_names up nobody]
    by (auto simp: addr_char_def phrase_char_def isspace_def nxt_init_def)
qed

end
