(* ===== verification/ReceivedProps.thy ===== *)
theory ReceivedProps
  imports MultiProps
begin

section \<open>Aliases and the Received line: properties\<close>

subsection \<open>Aliases\<close>

lemma alias_in_list: "name \<in> set (akalist st) \<Longrightarrow> is_host_alias q r name st = (True, st)"
  by (auto simp: is_host_alias_def list_ex_iff strcaseeq_def)

lemma alias_unknown:
  assumes "is_host_alias (q\<lparr>use_dns := False\<rparr>) r name st = (False, st)"
  shows "\<not> strcaseeq (lead_name q) name" "\<not> list_ex (strcaseeq name) (akalist st)" "\<not> list_ex (suffix_of name) (akalist st)"
  using assms by (auto simp: is_host_alias_def split: if_splits)

text \<open>
  C25. A name server that fails turns the name into an alias of the mail server: the call answers TRUE, counts errors and puts the name
  on the \<open>also known as\<close> list, so that from then on it answers TRUE for this name whatever the name server says, though the
  configuration does not name it and no record ties it to the mail server.
\<close>

theorem outage_makes_alias:
  assumes "is_host_alias (q\<lparr>use_dns := False\<rparr>) r name st = (False, st)" "use_dns q" "canonical r name = Failed" "mx_records r name = Mx_failed"
  shows "\<exists>st1. is_host_alias q r name st = (True, st1) \<and> errors st1 = errors st + 2 \<and> akalist st1 = akalist st @ [name]
    \<and> (\<forall>r1. is_host_alias q r1 name st1 = (True, st1))"
proof -
  let ?st = "st\<lparr>akalist := akalist st @ [name], errors := errors st + 2\<rparr>"
  have "is_host_alias q r name st = (True, ?st)"
    using alias_unknown [OF assms(1)] assms(2-4) by (simp add: is_host_alias_def Let_def)
  moreover have "is_host_alias q r1 name ?st = (True, ?st)" for r1 by (rule alias_in_list) simp
  ultimately show ?thesis by (intro exI [of _ ?st]) simp
qed

theorem outage_makes_alias_witness:
  "is_host_alias sample_names up ''evil.b'' \<lparr>akalist = [''a''], errors = 0\<rparr> = (False, \<lparr>akalist = [''a''], errors = 0\<rparr>)
   \<and> (\<exists>st1. is_host_alias sample_names down ''evil.b'' \<lparr>akalist = [''a''], errors = 0\<rparr> = (True, st1)
      \<and> is_host_alias sample_names up ''evil.b'' st1 = (True, st1))"
proof -
  have "is_host_alias (sample_names\<lparr>use_dns := False\<rparr>) down ''evil.b'' \<lparr>akalist = [''a''], errors = 0\<rparr> = (False, \<lparr>akalist = [''a''], errors = 0\<rparr>)"
    "is_host_alias sample_names up ''evil.b'' \<lparr>akalist = [''a''], errors = 0\<rparr> = (False, \<lparr>akalist = [''a''], errors = 0\<rparr>)"
    by code_simp+
  with outage_makes_alias [OF this(1)] show ?thesis by (simp add: sample_names_def down_def) blast
qed

subsection \<open>The search for a word\<close>

lemma find_sub_extend: "find_sub (p @ w) w = Some (length p) \<Longrightarrow> find_sub (p @ w @ t) w = Some (length p)"
proof (induction p)
  case Nil
  have "has_prefix (w @ t) w" by simp
  then show ?case by (cases "w @ t") auto
next
  case (Cons c p)
  have "take (length w) ((c # p @ w) @ t) = take (length w) (c # p @ w)" unfolding take_append by simp
  with Cons show ?case by (auto simp: has_prefix_iff split: if_splits)
qed

lemma takeWhile_space: "list_all isspace b \<Longrightarrow> t = [] \<or> \<not> isspace (hd t) \<Longrightarrow> takeWhile isspace (b @ t) = b"
  by (induction b) (auto simp: takeWhile_eq_Nil_iff)

lemma takeWhile_token: "list_all (\<lambda>c. \<not> isspace c) b \<Longrightarrow> t = [] \<or> isspace (hd t) \<Longrightarrow> takeWhile (\<lambda>c. \<not> isspace c) (b @ t) = b"
  by (induction b) (auto simp: takeWhile_eq_Nil_iff)

lemma word_hit:
  assumes "find_sub (p @ w) w = Some (length p)" "isspace (last (x @ p))" "x @ p \<noteq> []" "isspace c" "list_all isspace b"
    "list_all (\<lambda>c. \<not> isspace c) tok" "tok \<noteq> []" "t = [] \<or> isspace (hd t)" "endless \<longrightarrow> t \<noteq> []" "tokgood (take (RBUF - 1) tok)"
  shows "word_loop w endless tokgood (x @ p @ w @ c # b @ tok @ t) (length x) = Some (Some (length x + length p, take (RBUF - 1) tok))"
proof -
  let ?s = "x @ p @ w @ c # b @ tok @ t" and ?k = "length x + length p"
  have f: "find_sub (drop (length x) ?s) w = Some (length p)" using find_sub_extend [OF assms(1)] by simp
  have before: "isspace (?s ! (?k - 1))"
  proof -
    have "length (x @ p) - 1 < length (x @ p)" using assms(3) by auto
    then have "((x @ p) @ w @ c # b @ tok @ t) ! (length (x @ p) - 1) = (x @ p) ! (length (x @ p) - 1)" by (rule nth_append_left)
    then have "?s ! (?k - 1) = (x @ p) ! (length (x @ p) - 1)" by simp
    then show ?thesis using assms(2,3) by (simp add: last_conv_nth)
  qed
  have d: "drop (?k + length w) ?s = (c # b) @ tok @ t" by simp
  have after: "char_at ?s (?k + length w) = c" by (simp add: char_at_def nth_append)
  have sp: "skip_space ?s (?k + length w) = ?k + length w + Suc (length b)"
  proof -
    have "takeWhile isspace ((c # b) @ tok @ t) = c # b"
      using assms(4-7) by (intro takeWhile_space) (cases tok; auto)+
    then show ?thesis unfolding skip_space_def d by simp
  qed
  have tk: "token_at ?s (?k + length w + Suc (length b)) = tok"
  proof -
    have "drop (?k + length w + Suc (length b)) ?s = tok @ t" by simp
    then show ?thesis unfolding token_at_def using takeWhile_token [OF assms(6,8)] by simp
  qed
  have k: "?k \<noteq> 0" using assms(3) by auto
  show ?thesis
    apply (subst word_loop.simps)
    unfolding f option.case Let_def sp tk
    using before after assms(4,9,10) k by simp
qed

subsection \<open>The envelope address\<close>

definition token :: "string \<Rightarrow> bool" where
  "token a \<longleftrightarrow> a \<noteq> [] \<and> list_all (\<lambda>c. \<not> isspace c) a"

text \<open>What an address that is not quoted may hold, and its text in the line.\<close>

definition plain_address :: "string \<Rightarrow> bool" where
  "plain_address a \<longleftrightarrow> token a \<and> CHR ''@'' \<in> set a \<and> hd a \<noteq> CHR ''@'' \<and> CHR ''<'' \<notin> set a \<and> CHR ''>'' \<notin> set a \<and> CHR '';'' \<notin> set a
     \<and> length a + 4 \<le> RBUF"

fun address_text :: "bool \<Rightarrow> string \<Rightarrow> string" where
  "address_text True a = CHR ''<'' # a @ ''>''"
| "address_text False a = a"

lemma collect_plain:
  "list_all (\<lambda>c. \<not> isspace c) a \<Longrightarrow> CHR ''>'' \<notin> set a \<Longrightarrow> CHR '';'' \<notin> set a \<Longrightarrow>
   t \<noteq> [] \<Longrightarrow> (if gt then hd t = CHR ''>'' else isspace (hd t)) \<or> hd t = CHR '';'' \<Longrightarrow> collect_address gt (a @ t) = (a, False)"
  by (induction a) (cases t; auto)+

lemma received_address_plain:
  assumes "plain_address a" "list_all isspace b" "k = length p" "t \<noteq> []" "gt \<or> isspace (hd t) \<or> hd t = CHR '';''" "isspace d"
  shows "received_address (p @ ''for'' @ d # b @ address_text gt a @ t) k = Some ('': '' @ a @ [LF])"
proof -
  let ?s = "p @ ''for'' @ d # b @ address_text gt a @ t"
  have a: "a \<noteq> []" "list_all (\<lambda>c. \<not> isspace c) a" "hd a \<noteq> CHR ''@''" "CHR ''<'' \<notin> set a" "CHR ''>'' \<notin> set a" "CHR '';'' \<notin> set a"
    using assms(1) by (auto simp: plain_address_def token_def)
  then obtain e a' where e: "a = e # a'" by (cases a) auto
  have ne: "\<not> isspace e" "e \<noteq> CHR ''<''" using a e by auto
  have d: "drop (k + 4) ?s = b @ address_text gt a @ t" using assms(3) by simp
  have h: "\<not> isspace (hd (address_text gt a @ t))" using ne e by (cases gt) (auto simp: isspace_def)
  have "skip_space ?s (k + 4) = k + 4 + length b"
    unfolding skip_space_def d using takeWhile_space [OF assms(2)] h by simp
  then have dt: "drop (skip_space ?s (k + 4)) ?s = address_text gt a @ t"
    using d by (metis add.commute append_eq_conv_conj drop_drop)
  have r: "skip_routes (a @ u) = a @ u" for u using a(3) e by (subst skip_routes.simps) simp
  have "collect_address gt (a @ (if gt then CHR ''>'' # t else t)) = (a, False)"
    using a assms(4,5) by (intro collect_plain) auto
  moreover have "length ('': '' @ a @ [LF]) \<le> RBUF - 1" "\<not> length ('': '' @ a @ [LF]) \<le> 3"
    using assms(1) e by (auto simp: plain_address_def)
  ultimately show ?thesis
    unfolding received_address_def dt Let_def
    using r [of "CHR ''>'' # t"] r [of t] ne e by (cases gt) auto
qed

lemma parse_received_address:
  assumes "find_sub (front @ ''by'') ''by'' = Some (length front)" "front \<noteq> []" "isspace (last front)"
    "token host" "CHR ''@'' \<notin> set host" "length host < RBUF" "isspace c" "isspace w"
    "find_sub (mid @ ''for'') ''for'' = Some (length mid)" "isspace (last (w # mid))"
    "plain_address a" "isspace d" "list_all isspace b" "list_all (\<lambda>c. \<not> isspace c) u" "gt \<or> u = [] \<or> hd u = CHR '';''" "isspace e"
    "line = front @ ''by'' @ c # host @ w # mid @ ''for'' @ d # b @ address_text gt a @ u @ e # t"
  shows "parse_received sv r line st =
    (case is_host_alias sv r host st of (ok, st1) \<Rightarrow> Some (if ok then Some ('': '' @ a @ [LF]) else None, st1))"
proof -
  have host: "host \<noteq> []" "list_all (\<lambda>c. \<not> isspace c) host" "take (RBUF - 1) host = host" "strchr host (CHR ''@'') = None"
    using assms(4-6) by (auto simp: token_def strchr_def)
  let ?x = "front @ ''by'' @ c # host @ [w]" and ?tok = "address_text gt a @ u" and ?text = "address_text gt a"
  have 1: "word_loop ''by'' False valid_address line 0 = Some (Some (length front, host))"
    using word_hit [OF assms(1), of "[]" c "[]" host "w # mid @ ''for'' @ d # b @ ?tok @ e # t" False valid_address] host assms(2,3,7,8,17)
    by (simp add: valid_address_def)
  have shown: "?text \<noteq> []" "list_all (\<lambda>c. \<not> isspace c) ?text" "CHR ''@'' \<in> set ?text" "length ?text < RBUF"
    using assms(11) by (cases gt; auto simp: plain_address_def token_def isspace_def)+
  have tok: "?tok \<noteq> []" "list_all (\<lambda>c. \<not> isspace c) ?tok" "\<not> valid_address (take (RBUF - 1) ?tok)"
    using shown assms(14) by (auto simp: valid_address_def strchr_def)
  have x: "length front + 4 + length host = length ?x" "line = ?x @ mid @ ''for'' @ d # b @ ?tok @ e # t" using assms(17) by simp_all
  have "word_loop ''for'' True (\<lambda>a. \<not> valid_address a) (?x @ mid @ ''for'' @ d # b @ ?tok @ e # t) (length ?x)
      = Some (Some (length ?x + length mid, take (RBUF - 1) ?tok))"
    using assms(10) by (intro word_hit assms) (use tok assms in auto)
  then have 2: "word_loop ''for'' True (\<lambda>a. \<not> valid_address a) line (length front + 4 + length host) = Some (Some (length ?x + length mid, take (RBUF - 1) ?tok))"
    using x by metis
  have "u @ e # t \<noteq> []" "gt \<or> isspace (hd (u @ e # t)) \<or> hd (u @ e # t) = CHR '';''" using assms(15,16) by (cases u; auto)+
  then have "received_address ((?x @ mid) @ ''for'' @ d # b @ ?text @ u @ e # t) (length ?x + length mid) = Some ('': '' @ a @ [LF])"
    by (intro received_address_plain [OF assms(11,13)]) (simp_all add: assms(12))
  then have 3: "received_address line (length ?x + length mid) = Some ('': '' @ a @ [LF])" using x(2) by simp
  obtain ok st1 where al: "is_host_alias sv r host st = (ok, st1)" by fastforce
  show ?thesis
    unfolding parse_received_def 1 option.case prod.case al 2 3 by simp
qed

text \<open>
  C24. From the Received line of the mail server, \<open>\<dots> by host \<dots> for <address> \<dots>\<close>, the recipient is found: where the host is an
  alias of the mail server, the line gives the header from which \<open>find_server_names\<close> places the envelope address and no other.
\<close>

theorem received_recipient:
  assumes "find_sub (front @ ''by'') ''by'' = Some (length front)" "front \<noteq> []" "isspace (last front)"
    "token host" "CHR ''@'' \<notin> set host" "length host < RBUF" "isspace c" "isspace w"
    "find_sub (mid @ ''for'') ''for'' = Some (length mid)" "isspace (last (w # mid))"
    "plain_address a" "isspace d" "list_all isspace b" "list_all (\<lambda>c. \<not> isspace c) u" "gt \<or> u = [] \<or> hd u = CHR '';''" "isspace e"
    "line = front @ ''by'' @ c # host @ w # mid @ ''for'' @ d # b @ address_text gt a @ u @ e # t"
    "is_host_alias sv r host st = (True, st1)" "item_ok n (Bare a)" "length (address nst) = n"
  shows "\<exists>h nst1. parse_received sv r line st = Some (Some h, st1)
    \<and> find_server_names q sv r1 (Some h) nst f = Some (nst1, fst (place_address q sv r1 a f))"
proof -
  have p: "parse_received sv r line st = Some (Some ('': '' @ a @ [LF]), st1)"
    using parse_received_address [OF assms(1-17), of sv r st] assms(18) by simp
  have n: "0 < n" using assms(19) by simp
  obtain nst2 where c: "nxtaddr (Some ([] @ '': '' @ items_text [Bare a] @ [LF])) nst = nxt_loop 0 (items_text [Bare a] @ [LF]) nst2" "between n nst2"
    using header_call [OF _ _ _ assms(20) n, of "[]" "items_text [Bare a] @ [LF]"] by auto
  show ?thesis
    using p names_items [of n "[Bare a]" nst2 "Some ('': '' @ a @ [LF])" nst q sv r1 f] c assms(19)
    by (simp add: place_all_def find_server_names_def)
qed

theorem received_recipient_witness:
  "\<exists>h nst1 f1. parse_received sample_names up (''Received: from b by mx.a with SMTP id 1 for <joe@a>; Mon'' @ [LF]) \<lparr>akalist = [''a''], errors = 0\<rparr>
      = Some (Some h, \<lparr>akalist = [''a''], errors = 0\<rparr>)
    \<and> find_server_names sample_drop sample_names up (Some h) (nxt_init 100) nobody = Some (nst1, f1) \<and> xmit_names f1 = [(''jo'', XMIT_ACCEPT)]"
proof -
  let ?line = "''Received: from b by mx.a with SMTP id 1 for <joe@a>; Mon'' @ [LF]" and ?st = "\<lparr>akalist = [''a''], errors = 0\<rparr>"
  have by_word: "find_sub (''Received: from b '' @ ''by'') ''by'' = Some (length ''Received: from b '')" by code_simp
  have for_word: "find_sub (''with SMTP id 1 '' @ ''for'') ''for'' = Some (length ''with SMTP id 1 '')" by code_simp
  have named: "is_host_alias sample_names up ''mx.a'' ?st = (True, ?st)" by code_simp
  have "\<exists>h nst1. parse_received sample_names up ?line ?st = Some (Some h, ?st)
      \<and> find_server_names sample_drop sample_names up (Some h) (nxt_init 100) nobody
        = Some (nst1, fst (place_address sample_drop sample_names up ''joe@a'' nobody))"
    by (rule received_recipient [OF by_word _ _ _ _ _ _ _ for_word _ _ _ _ _ _ _ _ named, where c = SP and w = SP and d = SP
          and b = "[]" and u = "'';''" and e = SP and t = "''Mon'' @ [LF]" and gt = True and n = 100])
       (simp_all add: plain_address_def token_def isspace_def RBUF_def addr_char_def nxt_init_def)
  moreover have "xmit_names (fst (place_address sample_drop sample_names up ''joe@a'' nobody)) = [(''jo'', XMIT_ACCEPT)]" by code_simp
  ultimately show ?thesis by blast
qed

subsection \<open>A line that ends behind a word\<close>

lemma token_at_end:
  assumes "find_sub (p @ w) w = Some (length p)" "isspace (last (x @ p))" "x @ p \<noteq> []" "isspace c" "list_all isspace b" "w \<noteq> []"
  shows "word_loop w True tokgood (x @ p @ w @ c # b) (length x) = None"
proof -
  let ?s = "x @ p @ w @ c # b" and ?k = "length x + length p"
  have f: "find_sub (drop (length x) ?s) w = Some (length p)" using find_sub_extend [OF assms(1)] by simp
  have before: "isspace (?s ! (?k - 1))"
  proof -
    have "length (x @ p) - 1 < length (x @ p)" using assms(3) by auto
    then have "((x @ p) @ w @ c # b) ! (length (x @ p) - 1) = (x @ p) ! (length (x @ p) - 1)" by (rule nth_append_left)
    then have "?s ! (?k - 1) = (x @ p) ! (length (x @ p) - 1)" by simp
    then show ?thesis using assms(2,3) by (simp add: last_conv_nth)
  qed
  have d: "drop (?k + length w) ?s = c # b" by simp
  have after: "char_at ?s (?k + length w) = c" by (simp add: char_at_def nth_append)
  have sp: "skip_space ?s (?k + length w) = length ?s"
    using assms(4,5) by (simp add: skip_space_def list_all_iff takeWhile_eq_all_conv [THEN iffD2])
  have tk: "token_at ?s (length ?s) = []" by (simp add: token_at_def)
  have k: "?k \<noteq> 0" using assms(3) by auto
  show ?thesis
    apply (subst word_loop.simps)
    unfolding f option.case Let_def sp tk
    using before after assms(4) k by simp
qed

text \<open>
  A Received line of an alias of the mail server that has only white space behind \<open>for\<close> is read beyond its end: the search for the
  end of the token behind \<open>for\<close> stops at white space and not at the terminator, unlike the one behind \<open>by\<close>.
\<close>

theorem received_for_at_end:
  assumes "find_sub (front @ ''by'') ''by'' = Some (length front)" "front \<noteq> []" "isspace (last front)"
    "token host" "CHR ''@'' \<notin> set host" "length host < RBUF" "isspace c" "isspace w"
    "find_sub (mid @ ''for'') ''for'' = Some (length mid)" "isspace (last (w # mid))" "isspace d" "list_all isspace b"
    "fst (is_host_alias sv r host st)"
  shows "parse_received sv r (front @ ''by'' @ c # host @ w # mid @ ''for'' @ d # b) st = None"
proof -
  let ?line = "front @ ''by'' @ c # host @ w # mid @ ''for'' @ d # b"
  have host: "host \<noteq> []" "list_all (\<lambda>c. \<not> isspace c) host" "take (RBUF - 1) host = host" "strchr host (CHR ''@'') = None"
    using assms(4-6) by (auto simp: token_def strchr_def)
  let ?x = "front @ ''by'' @ c # host @ [w]"
  have 1: "word_loop ''by'' False valid_address ?line 0 = Some (Some (length front, host))"
    using word_hit [OF assms(1), of "[]" c "[]" host "w # mid @ ''for'' @ d # b" False valid_address] host assms(2,3,7,8)
    by (simp add: valid_address_def)
  have x: "length front + 4 + length host = length ?x" "?line = ?x @ mid @ ''for'' @ d # b" by simp_all
  have "word_loop ''for'' True (\<lambda>a. \<not> valid_address a) (?x @ mid @ ''for'' @ d # b) (length ?x) = None"
    using assms(10) by (intro token_at_end assms) simp_all
  then have 2: "word_loop ''for'' True (\<lambda>a. \<not> valid_address a) ?line (length front + 4 + length host) = None"
    using x by metis
  obtain st1 where al: "is_host_alias sv r host st = (True, st1)" using assms(13) by (cases "is_host_alias sv r host st") auto
  show ?thesis
    unfolding parse_received_def 1 option.case prod.case al 2 by simp
qed

theorem received_for_at_end_witness:
  "parse_received sample_names up (''Received: from b by mx.a for '' @ [LF]) \<lparr>akalist = [''a''], errors = 0\<rparr> = None"
proof -
  let ?st = "\<lparr>akalist = [''a''], errors = 0\<rparr>"
  have by_word: "find_sub (''Received: from b '' @ ''by'') ''by'' = Some (length ''Received: from b '')" by code_simp
  have for_word: "find_sub ([] @ ''for'') ''for'' = Some (length ([] :: string))" by code_simp
  have named: "is_host_alias sample_names up ''mx.a'' ?st = (True, ?st)" by code_simp
  have "parse_received sample_names up (''Received: from b '' @ ''by'' @ SP # ''mx.a'' @ SP # [] @ ''for'' @ SP # [LF]) ?st = None"
    by (rule received_for_at_end [OF by_word _ _ _ _ _ _ _ for_word]) (simp_all add: named token_def isspace_def RBUF_def)
  then show ?thesis by simp
qed

end
