(* ===== verification/Body.thy ===== *)
theory Body
  imports Transport Uid Unmime
begin

section \<open>Delivering the lines of a body (sink.c, transact.c)\<close>

text \<open>
  A line buffer is the list of its cells, as the code looks behind a NUL. A sink is the connection to the
  SMTP listener, if there is one, the file that is the pipe to a delivery agent or the BSMTP file, and the
  options of the query that \<open>stuffline\<close> looks at; \<open>delimited\<close> is that of the base protocol. A file whose
  stream is in error state takes nothing.
\<close>

record sink =
  smtp_socket :: "sock option"
  file_out :: string
  file_bad :: bool
  has_mda :: bool
  has_bsmtp :: bool
  base_delimited :: bool
  forcecr :: bool
  stripcr :: bool

subsection \<open>stuffline\<close>

text \<open>\<open>strlen(buf + i)\<close>, which has to find a NUL in the array.\<close>

definition cell_len :: "string \<Rightarrow> nat \<Rightarrow> nat option" where
  "cell_len buf i = (let t = drop i buf in if NUL \<in> set t then Some (length (takeWhile (\<lambda>c. c \<noteq> NUL) t)) else None)"

lemma takeWhile_shorter: "c \<in> set t \<Longrightarrow> length (takeWhile (\<lambda>d. d \<noteq> c) t) < length t"
  by (induction t) auto

lemma cell_len_bound: "cell_len buf i = Some n \<Longrightarrow> i + n < length buf"
proof -
  assume "cell_len buf i = Some n"
  then have n: "NUL \<in> set (drop i buf)" "n = length (takeWhile (\<lambda>c. c \<noteq> NUL) (drop i buf))"
    by (auto simp: cell_len_def Let_def split: if_splits)
  have "n < length (drop i buf)" using takeWhile_shorter [OF n(1)] n(2) by simp
  then show ?thesis by simp
qed

text \<open>The search for the line feed that a NUL follows.\<close>

function find_last :: "string \<Rightarrow> nat \<Rightarrow> nat option" where
  "find_last buf i =
     (case cell_len buf i of
        None \<Rightarrow> None
      | Some n \<Rightarrow>
          let l = i + n in
          if l = 0 then None else if buf ! (l - 1) = LF then Some l else find_last buf (l + 1))"
  by pat_completeness auto
termination
  by (relation "measure (\<lambda>(buf, i). length buf - i)") (auto dest: cell_len_bound)

declare find_last.simps [simp del]

definition to_sink :: "sink \<Rightarrow> string \<Rightarrow> int \<times> sink" where
  "to_sink sk t =
     (if has_mda sk \<or> has_bsmtp sk then
        (if file_bad sk then (-1, sk) else (int (length t), sk\<lparr>file_out := file_out sk @ t\<rparr>))
      else
        (case smtp_socket sk of
           None \<Rightarrow> (0, sk)
         | Some s \<Rightarrow> (let (n, s1) = SockWrite s t in (n, sk\<lparr>smtp_socket := Some s1\<rparr>))))"

text \<open>
  The dot in front of the line: whether the first cell is skipped, and what is written before the line;
  without a listener that is a write to an invalid socket.
\<close>

definition stuff_dot :: "sink \<Rightarrow> string \<Rightarrow> bool \<times> int \<times> sink" where
  "stuff_dot sk buf =
     (if char_at buf 0 \<noteq> CHR ''.'' then (False, 0, sk)
      else if base_delimited sk then (has_mda sk, 0, sk)
      else if has_mda sk then (False, 0, sk)
      else if has_bsmtp sk then (let (n, s1) = to_sink sk ''.'' in (False, n, s1))
      else if smtp_socket sk = None then (False, -1, sk)
      else (let (n, s1) = to_sink sk ''.'' in (False, n, s1)))"

text \<open>The result, the sink and the buffer.\<close>

definition stuffline :: "sink \<Rightarrow> string \<Rightarrow> (int \<times> sink \<times> string) option" where
  "stuffline sk buf0 = do {
     last0 \<leftarrow> find_last buf0 1;
     (last, buf) \<leftarrow>
       (if forcecr sk \<and> (last0 - 1 = 0 \<or> buf0 ! (last0 - 2) \<noteq> CR) then do {
          b1 \<leftarrow> poke buf0 (last0 - 1) CR;
          b2 \<leftarrow> poke b1 last0 LF;
          b3 \<leftarrow> poke b2 (last0 + 1) NUL;
          Some (last0 + 1, b3)
        } else Some (last0, buf0));
     let (skip, n, s1) = stuff_dot sk buf;
     if n < 0 then Some (n, s1, buf)
     else
       let k = (if skip then 1 else 0);
           line = drop k (take last buf);
           kept = filter (\<lambda>c. c \<noteq> CR) line;
           (n, s2) = to_sink s1 (if stripcr sk then kept else line) in
       Some (n, s2, if stripcr sk then overwrite buf k (kept @ [NUL]) else buf)
   }"

subsection \<open>readbody\<close>

definition BODYBUF :: nat where "BODYBUF = 8192"

record reader =
  rsock :: sock
  rsink :: sink
  rbuf :: string
  inbufp :: nat
  issoftline :: bool
  rlen :: int
  msglen :: int
  rbody :: body

definition empty_line :: "string \<Rightarrow> nat \<Rightarrow> bool" where
  "empty_line buf i \<longleftrightarrow> char_at buf i = CR \<and> char_at buf (i + 1) = LF \<and> char_at buf (i + 2) = NUL
     \<or> char_at buf i = LF \<and> char_at buf (i + 1) = NUL"

text \<open>\<open>rb_send\<close> on the whole buffer; \<open>release_sink\<close> closes a file, which this model does not need.\<close>

definition rb_send :: "reader \<Rightarrow> (int \<times> reader) option" where
  "rb_send r = map_option (\<lambda>(n, sk, buf). (if n < 0 then PS_IOERR else PS_SUCCESS, r\<lparr>rsink := sk, rbuf := buf\<rparr>)) (stuffline (rsink r) (rbuf r))"

text \<open>A line that is longer than the rest of the message ends where the message ends.\<close>

definition cut_line :: "bool \<Rightarrow> reader \<Rightarrow> int \<Rightarrow> (int \<times> reader) option" where
  "cut_line delimited r n =
     (if \<not> delimited \<and> n > rlen r then do {
        let p = inbufp r + nat (rlen r);
        b1 \<leftarrow> poke (rbuf r) p CR;
        b2 \<leftarrow> poke b1 (p + 1) LF;
        b3 \<leftarrow> poke b2 (p + 2) NUL;
        Some (rlen r + 2, r\<lparr>rbuf := b3, rlen := rlen r + 2\<rparr>)
      } else Some (n, r))"

text \<open>The decoder of MIME, which may ask for the next line.\<close>

definition decode_line :: "bool \<Rightarrow> bool \<Rightarrow> reader \<Rightarrow> reader option" where
  "decode_line delimited decode r =
     (if \<not> decode then Some r
      else do {
        (soft, n, cells, b) \<leftarrow> UnMimeBodyline (drop (inbufp r) (rbuf r)) delimited (issoftline r) (rbody r);
        let p = inbufp r + n;
        let buf = take (inbufp r) (rbuf r) @ cells;
        if soft \<and> BODYBUF + 3 - p < 200 then do {
          b1 \<leftarrow> poke buf p LF;
          b2 \<leftarrow> poke b1 (p + 1) NUL;
          Some (r\<lparr>rbuf := b2, inbufp := p, issoftline := False, rbody := b\<rparr>)
        }
        else Some (r\<lparr>rbuf := buf, inbufp := p, issoftline := soft, rbody := b\<rparr>)
      })"

definition guard_end :: "string \<Rightarrow> string option" where
  "guard_end buf = do {
     b1 \<leftarrow> poke buf (BODYBUF + 1) CR;
     b2 \<leftarrow> poke b1 (BODYBUF + 2) LF;
     poke b2 (BODYBUF + 3) NUL
   }"

text \<open>A turn of the loop with the line that was read: \<open>Some c\<close> ends it with the code \<open>c\<close>.\<close>

definition body_turn :: "bool \<Rightarrow> bool \<Rightarrow> bool \<Rightarrow> int \<Rightarrow> reader \<Rightarrow> (int option \<times> reader) option" where
  "body_turn delimited decode forward n r0 = do {
     (linelen, r1) \<leftarrow> cut_line delimited r0 n;
     let r2 = r1\<lparr>rlen := rlen r1 - linelen\<rparr>;
     let dot = (delimited \<and> char_at (rbuf r2) (inbufp r2) = CHR ''.'');
     if dot \<and> empty_line (rbuf r2) (inbufp r2 + 1) then Some (Some 0, r2)
     else do {
       r3 \<leftarrow> decode_line delimited decode (r2\<lparr>msglen := msglen r2 - (if dot then 1 else 0) + linelen\<rparr>);
       if forward \<and> \<not> issoftline r3 then do {
         buf \<leftarrow> guard_end (rbuf r3);
         (err, r4) \<leftarrow> rb_send (r3\<lparr>inbufp := 0, rbuf := buf\<rparr>);
         Some (if err \<noteq> 0 then Some err else None, r4)
       }
       else Some (None, r3)
     }
   }"

definition read_line :: "reader \<Rightarrow> int \<times> reader" where
  "read_line r =
     (let (n, b, s) = SockRead (rsock r) (BODYBUF - inbufp r) in
      (n, r\<lparr>rsock := s, rbuf := overwrite (rbuf r) (inbufp r) (if n = -1 then b else b @ [NUL])\<rparr>))"

definition flush_line :: "bool \<Rightarrow> reader \<Rightarrow> (int \<times> reader) option" where
  "flush_line forward r =
     (if forward \<and> issoftline r then do {
        b1 \<leftarrow> poke (rbuf r) (inbufp r) CR;
        b2 \<leftarrow> poke b1 (inbufp r + 1) LF;
        b3 \<leftarrow> poke b2 (inbufp r + 2) NUL;
        rb_send (r\<lparr>rbuf := b3\<rparr>)
      } else Some (0, r))"

lemma body_turn_sock:
  assumes "body_turn delimited decode forward n r = Some (t, r1)"
  shows "rsock r1 = rsock r"
proof -
  obtain l r2 where c: "cut_line delimited r n = Some (l, r2)" using assms by (auto simp: body_turn_def split: bind_splits)
  have 2: "rsock r2 = rsock r" using c by (auto simp: cut_line_def Let_def split: if_splits bind_splits)
  have d: "rsock y = rsock x" if "decode_line delimited decode x = Some y" for x y
    using that by (auto simp: decode_line_def Let_def split: if_splits bind_splits)
  have s: "rsock y = rsock x" if "rb_send x = Some (e, y)" for x y e
    using that by (auto simp: rb_send_def)
  define dot where "dot \<longleftrightarrow> delimited \<and> char_at (rbuf r2) (inbufp r2) = CHR ''.''"
  show ?thesis
  proof (cases "dot \<and> empty_line (rbuf r2) (inbufp r2 + 1)")
    case True
    then show ?thesis using assms c 2 by (auto simp: body_turn_def Let_def dot_def)
  next
    case False
    then obtain r3 where r3: "decode_line delimited decode (r2\<lparr>rlen := rlen r2 - l, msglen := msglen r2 - (if dot then 1 else 0) + l\<rparr>) = Some r3"
      "(if forward \<and> \<not> issoftline r3 then do {
         buf \<leftarrow> guard_end (rbuf r3);
         (err, r4) \<leftarrow> rb_send (r3\<lparr>inbufp := 0, rbuf := buf\<rparr>);
         Some (if err \<noteq> 0 then Some err else None, r4)
       } else Some (None, r3)) = Some (t, r1)"
      using assms c unfolding body_turn_def dot_def Let_def by (auto split: bind_splits if_splits)
    have "rsock r1 = rsock r3" using r3(2) s by (fastforce split: if_splits bind_splits)
    then show ?thesis using d [OF r3(1)] 2 by simp
  qed
qed

function readbody_loop :: "bool \<Rightarrow> bool \<Rightarrow> bool \<Rightarrow> reader \<Rightarrow> (int \<times> reader) option" where
  "readbody_loop delimited decode forward r =
     (if \<not> delimited \<and> \<not> rlen r > 0 then flush_line forward r
      else
        (case read_line r of
           (n, r1) \<Rightarrow>
             if n = -1 then Some (PS_SOCKET, r1)
             else
               (case body_turn delimited decode forward n r1 of
                  None \<Rightarrow> None
                | Some (Some c, r2) \<Rightarrow> if c = 0 then flush_line forward r2 else Some (c, r2)
                | Some (None, r2) \<Rightarrow> readbody_loop delimited decode forward r2)))"
  by pat_completeness auto
termination
  by (relation "measure (\<lambda>(d, m, f, r). length (inp (rsock r)))")
    (auto simp: read_line_def dest!: body_turn_sock dest: SockRead_consumes split: prod.splits)

declare readbody_loop.simps [simp del]

definition readbody :: "bool \<Rightarrow> bool \<Rightarrow> bool \<Rightarrow> int \<Rightarrow> reader \<Rightarrow> (int \<times> reader) option" where
  "readbody delimited decode forward len r =
     readbody_loop delimited decode forward (r\<lparr>inbufp := 0, issoftline := False, rlen := len\<rparr>)"

end
