(* ===== verification/HeaderRead.thy ===== *)
theory HeaderRead
  imports Multidrop Body Mda Md5
begin

section \<open>Reading the headers of a message (transact.c, readheaders)\<close>

text \<open>
  The buffer \<open>buf\<close> is the list of its cells, \<open>MSGBUFSIZE + 1\<close> of them. A line that was read is the list of its \<open>linelen\<close> characters,
  with NULs where the MIME decoder left some; the functions that take it as a C string see \<open>cstr_of\<close> of it. Offsets into the
  headers are \<open>None\<close> for the code's -1. Allocation does not fail. \<open>eof_char\<close> is what \<open>SockPeek\<close> returns when the
  connection was closed: the variable it returns is not initialised then.
\<close>

datatype env_option = Disabled | Unset | Envelope string

record header_options =
  dot_ended :: bool
  add_cr :: bool
  accept_bad :: bool
  decode_mime :: bool
  pop2 :: bool
  drop_delivered :: bool
  drop_status :: bool
  rewriting :: bool
  envelope :: env_option
  envskip :: int
  mda :: "string option"
  bsmtp :: "string option"
  drops :: drop_options
  server :: server_names
  resolve :: resolver
  eof_char :: char

definition multidrop :: "drop_options \<Rightarrow> bool" where
  "multidrop q \<longleftrightarrow> wildcard q \<or> 1 < length (localnames q)"

record reading =
  hsock :: sock
  cells :: string
  remaining :: int
  size_read :: int

subsection \<open>Lines with their continuations\<close>

definition end_of_header :: "string \<Rightarrow> bool" where
  "end_of_header s \<longleftrightarrow> dropWhile (\<lambda>c. c = CR) s = [LF]"

definition EMPTYLINE :: "string \<Rightarrow> bool" where
  "EMPTYLINE s \<longleftrightarrow> s = [CR, LF] \<or> s = [LF]"

definition SockPeek :: "char \<Rightarrow> sock \<Rightarrow> char" where
  "SockPeek junk s = (if inp s = [] then junk else hd (inp s))"

text \<open>A read whose NULs are smashed out, until something is left; \<open>None\<close> is a failed read.\<close>

function read_chunk :: "reading \<Rightarrow> (string \<times> reading) option" where
  "read_chunk r =
     (case SockRead (hsock r) MSGBUFSIZE of
        (n, b, s) \<Rightarrow>
          if n = -1 then None
          else
            let kept = filter (\<lambda>c. c \<noteq> NUL) b;
                r1 = r\<lparr>hsock := s, cells := overwrite (overwrite (cells r) 0 (b @ [NUL])) 0 (kept @ [NUL])\<rparr> in
            if kept = [] then read_chunk r1 else Some (kept, r1))"
  by pat_completeness auto
termination
  by (relation "measure (\<lambda>r. length (inp (hsock r)))") (auto dest: SockRead_consumes [OF sym])

declare read_chunk.simps [simp del]

lemma read_chunk_consumes: "read_chunk r = Some (b, r1) \<Longrightarrow> length (inp (hsock r1)) < length (inp (hsock r))"
proof (induction r rule: read_chunk.induct)
  case (1 r)
  obtain n c s where s: "SockRead (hsock r) MSGBUFSIZE = (n, c, s)" by (metis prod_cases3)
  have n: "n \<noteq> -1" using 1(2) s by (auto simp: read_chunk.simps [of r])
  have less: "length (inp s) < length (inp (hsock r))" using SockRead_consumes [OF s n] .
  let ?r1 = "r\<lparr>hsock := s, cells := overwrite (overwrite (cells r) 0 (c @ [NUL])) 0 (filter (\<lambda>c. c \<noteq> NUL) c @ [NUL])\<rparr>"
  show ?case
  proof (cases "filter (\<lambda>c. c \<noteq> NUL) c = []")
    case True
    have "read_chunk ?r1 = Some (b, r1)"
      using 1(2) s n True by (simp add: read_chunk.simps [of r] Let_def)
    with 1(1) [OF s [symmetric] refl n refl refl True] less show ?thesis by simp
  next
    case False
    then show ?thesis using 1(2) s n less by (auto simp: read_chunk.simps [of r] Let_def)
  qed
qed

datatype line_result = Broken | Ended string bool bool reading | Whole string bool reading

definition fixed_end :: "bool \<Rightarrow> string \<Rightarrow> string" where
  "fixed_end cr b = (if cr \<and> last b = LF \<and> (length b = 1 \<or> b ! (length b - 2) \<noteq> CR) then butlast b @ [CR, LF] else b)"

definition bad_line :: "header_options \<Rightarrow> string \<Rightarrow> bool" where
  "bad_line q l \<longleftrightarrow> \<not> accept_bad q \<and> \<not> isspace (char_at l 0) \<and> strchr l (CHR '':'') = None"

text \<open>\<open>refused\<close> is \<open>refuse_mail\<close>; a line that ends the headers comes with \<open>refuse_mail\<close> and whether the body is empty.\<close>

function read_header_line :: "header_options \<Rightarrow> bool \<Rightarrow> string \<Rightarrow> reading \<Rightarrow> line_result" where
  "read_header_line q refused l r =
     (case read_chunk r of
        None \<Rightarrow> Broken
      | Some (b, r0) \<Rightarrow>
          let r1 = r0\<lparr>remaining := remaining r0 - int (length b), size_read := size_read r0 + int (length b)\<rparr> in
          if last b \<noteq> LF then read_header_line q refused (l @ b) r1
          else
            let l1 = l @ fixed_end (add_cr q) b in
            if end_of_header l1 then Ended l1 refused False r1
            else if dot_ended q \<and> hd l1 = CHR ''.'' \<and> EMPTYLINE (tl l1) then Ended l1 refused True r1
            else
              let refused1 = (refused \<or> bad_line q l1); ch = SockPeek (eof_char q) (hsock r1) in
              if ch = SP \<or> ch = CHR 0x09 then read_header_line q refused1 l1 r1 else Whole l1 refused1 r1)"
  by pat_completeness auto
termination
  by (relation "measure (\<lambda>(q, f, l, r). length (inp (hsock r)))") (auto dest: read_chunk_consumes)

declare read_header_line.simps [simp del]

text \<open>A turn of the loop.\<close>

definition after_chunk :: "string \<Rightarrow> reading \<Rightarrow> reading" where
  "after_chunk b r = r\<lparr>remaining := remaining r - int (length b), size_read := size_read r + int (length b)\<rparr>"

lemma read_header_line_turn:
  assumes "read_chunk r = Some (b, r0)" "l1 = l @ fixed_end (add_cr q) b" "ch = SockPeek (eof_char q) (hsock r0)"
  shows "read_header_line q f l r =
    (if last b \<noteq> LF then read_header_line q f (l @ b) (after_chunk b r0)
     else if end_of_header l1 then Ended l1 f False (after_chunk b r0)
     else if dot_ended q \<and> hd l1 = CHR ''.'' \<and> EMPTYLINE (tl l1) then Ended l1 f True (after_chunk b r0)
     else if ch = SP \<or> ch = CHR 0x09 then read_header_line q (f \<or> bad_line q l1) l1 (after_chunk b r0)
     else Whole l1 (f \<or> bad_line q l1) (after_chunk b r0))"
  using assms by (subst read_header_line.simps) (simp add: Let_def after_chunk_def)

lemma read_header_line_consumes:
  "(case read_header_line q f l r of Broken \<Rightarrow> True | Ended l1 f1 e r1 \<Rightarrow> length (inp (hsock r1)) < length (inp (hsock r))
     | Whole l1 f1 r1 \<Rightarrow> length (inp (hsock r1)) < length (inp (hsock r)))"
proof (induction q f l r rule: read_header_line.induct)
  case (1 q f l r)
  show ?case
  proof (cases "read_chunk r")
    case None
    then show ?thesis by (simp add: read_header_line.simps [of q f l r])
  next
    case (Some p)
    obtain b r0 where p: "p = (b, r0)" by fastforce
    have less: "length (inp (hsock r0)) < length (inp (hsock r))" using read_chunk_consumes Some p by blast
    let ?l1 = "l @ fixed_end (add_cr q) b" and ?ch = "SockPeek (eof_char q) (hsock r0)"
    note step = read_header_line_turn [OF Some [unfolded p] refl refl, of q f l]
    have r1: "hsock (after_chunk b r0) = hsock r0" by (simp add: after_chunk_def)
    have a: "last b \<noteq> LF \<Longrightarrow> ?thesis"
      using 1(1) [OF Some p [symmetric] refl] less step r1 by (auto simp: after_chunk_def split: line_result.splits)
    have c: "last b = LF \<Longrightarrow> \<not> end_of_header ?l1 \<Longrightarrow> \<not> (dot_ended q \<and> hd ?l1 = CHR ''.'' \<and> EMPTYLINE (tl ?l1)) \<Longrightarrow>
        ?ch = SP \<or> ?ch = CHR 0x09 \<Longrightarrow> ?thesis"
      using 1(2) [OF Some p [symmetric] refl _ refl _ _ refl refl] less step r1 by (auto simp: after_chunk_def split: line_result.splits)
    show ?thesis using a c step less r1 by (auto split: line_result.splits)
  qed
qed

subsection \<open>The headers that were collected\<close>

record collecting =
  collected :: "string option"
  sender_path :: string
  path_seen :: bool
  has_nuls :: bool
  retain_mail :: bool
  refuse_mail :: bool
  from_offs :: "nat option"
  reply_to_offs :: "nat option"
  resent_from_offs :: "nat option"
  app_from_offs :: "nat option"
  sender_offs :: "nat option"
  resent_sender_offs :: "nat option"
  env_offs :: "nat option"
  skipcount :: int
  delivered_to :: "string option"
  delivered_to_count :: int
  received_for :: "string option"
  to_chain :: "nat list"
  resent_to_chain :: "nat list"
  servers_known :: aliases
  addr_scan :: nxt

definition PATHBUF :: nat where "PATHBUF = 767"

text \<open>The state before the first line; the aliases and the scanner are those of the last message.\<close>

definition start_collecting :: "aliases \<Rightarrow> nxt \<Rightarrow> collecting" where
  "start_collecting a n =
     \<lparr>collected = None, sender_path = [], path_seen = False, has_nuls = False, retain_mail = False, refuse_mail = False,
      from_offs = None, reply_to_offs = None, resent_from_offs = None, app_from_offs = None, sender_offs = None,
      resent_sender_offs = None, env_offs = None, skipcount = 0, delivered_to = None, delivered_to_count = 0,
      received_for = None, to_chain = [], resent_to_chain = [], servers_known = a, addr_scan = n\<rparr>"

text \<open>The decoder may shorten the line: its new end is the last line feed that a NUL follows.\<close>

fun retrace :: "string \<Rightarrow> nat \<Rightarrow> nat \<Rightarrow> nat" where
  "retrace buf 0 n = n"
| "retrace buf (Suc i) n = (if buf ! Suc i = NUL \<and> buf ! i = LF then Suc i else retrace buf i n)"

definition decode_header :: "header_options \<Rightarrow> string \<Rightarrow> string option" where
  "decode_header q l =
     (if \<not> decode_mime q then Some l
      else map_option (\<lambda>buf. take (retrace buf (length l - 1) (length l)) buf) (UnMimeHeader (l @ [NUL])))"

definition status_dropped :: "header_options \<Rightarrow> string \<Rightarrow> bool" where
  "status_dropped q l \<longleftrightarrow>
     (let value = (if has_iprefix l ''Status:'' then Some (drop 7 l)
                   else if has_iprefix l ''X-Mozilla-Status:'' then Some (drop 17 l) else None) in
      case value of None \<Rightarrow> False | Some v \<Rightarrow> list_all isspace v \<or> drop_status q)"

definition take_delivered :: "header_options \<Rightarrow> string \<Rightarrow> collecting \<Rightarrow> collecting" where
  "take_delivered q l st =
     (let st1 = st\<lparr>delivered_to_count := delivered_to_count st + 1\<rparr> in
      case (delivered_to st, envelope q) of
        (None, Envelope e) \<Rightarrow>
          if strcaseeq e ''Delivered-To'' \<and> delivered_to_count st = envskip q then st1\<lparr>delivered_to := Some l\<rparr> else st1
      | _ \<Rightarrow> st1)"

definition rewrite_line :: "header_options \<Rightarrow> string \<Rightarrow> string option" where
  "rewrite_line q l =
     (if \<not> rewriting q \<or> list_all (\<lambda>h. \<not> has_iprefix (cstr_of l) h) rewritten_headers then Some l
      else reply_hack (cstr_of l) (true_name (server q)))"

text \<open>The first Return-Path line: whether the line goes on, and the state.\<close>

definition stash_path :: "header_options \<Rightarrow> string \<Rightarrow> collecting \<Rightarrow> (bool \<times> collecting) option" where
  "stash_path q l st =
     (if path_seen st \<or> \<not> has_iprefix l ''Return-Path:'' then Some (True, st)
      else
        (case nxtaddr (Some l) (addr_scan st) of
           None \<Rightarrow> None
         | Some (None, n) \<Rightarrow> Some (True, st\<lparr>addr_scan := n\<rparr>)
         | Some (Some cp, n) \<Rightarrow>
             Some (mda q \<noteq> None,
                   st\<lparr>addr_scan := n, path_seen := True, sender_path := take (PATHBUF - 1) (if cp = [] then ''<>'' else cp)\<rparr>)))"

text \<open>Which header starts at the offset.\<close>

definition note_sender :: "string \<Rightarrow> nat \<Rightarrow> collecting \<Rightarrow> collecting" where
  "note_sender l offs st =
     (let at = (strchr l (CHR ''@'') \<noteq> None \<or> strchr l (CHR ''!'') \<noteq> None) in
      if has_iprefix l ''From:'' then st\<lparr>from_offs := Some offs\<rparr>
      else if has_iprefix l ''Reply-To:'' then st\<lparr>reply_to_offs := Some offs\<rparr>
      else if has_iprefix l ''Resent-From:'' then st\<lparr>resent_from_offs := Some offs\<rparr>
      else if has_iprefix l ''Apparently-From:'' then st\<lparr>app_from_offs := Some offs\<rparr>
      else if has_iprefix l ''Sender:'' \<and> at then st\<lparr>sender_offs := Some offs\<rparr>
      else if has_iprefix l ''Resent-Sender:'' \<and> at then st\<lparr>resent_sender_offs := Some offs\<rparr>
      else st)"

definition note_envelope :: "header_options \<Rightarrow> string \<Rightarrow> nat \<Rightarrow> string \<Rightarrow> collecting \<Rightarrow> collecting" where
  "note_envelope q l offs e st =
     (if env_offs st = None \<and> has_iprefix l e then
        (if skipcount st < envskip q then st\<lparr>skipcount := skipcount st + 1\<rparr>
         else st\<lparr>skipcount := skipcount st + 1, env_offs := Some offs\<rparr>)
      else st)"

definition note_received :: "header_options \<Rightarrow> string \<Rightarrow> collecting \<Rightarrow> collecting option" where
  "note_received q l st =
     (if received_for st = None \<and> has_iprefix l ''Received:'' then
        (if skipcount st < envskip q then Some (st\<lparr>skipcount := skipcount st + 1\<rparr>)
         else do {
           (f, a) \<leftarrow> parse_received (server q) (resolve q) l (servers_known st);
           Some (st\<lparr>skipcount := skipcount st + 1, received_for := f, servers_known := a\<rparr>)
         })
      else Some st)"

definition note_recipient :: "header_options \<Rightarrow> string \<Rightarrow> nat \<Rightarrow> collecting \<Rightarrow> collecting option" where
  "note_recipient q l offs st =
     (if \<not> multidrop (drops q) then Some st
      else if list_ex (has_iprefix l) [''To:'', ''Cc:'', ''Bcc:'', ''Apparently-To:''] then Some (st\<lparr>to_chain := to_chain st @ [offs]\<rparr>)
      else if list_ex (has_iprefix l) [''Resent-To:'', ''Resent-Cc:'', ''Resent-Bcc:''] then
        Some (st\<lparr>resent_to_chain := resent_to_chain st @ [offs]\<rparr>)
      else
        (case envelope q of
           Disabled \<Rightarrow> Some st
         | Unset \<Rightarrow> note_received q l st
         | Envelope e \<Rightarrow> if strcaseeq e ''Received'' then note_received q l st else Some (note_envelope q l offs e st)))"

definition append_line :: "header_options \<Rightarrow> string \<Rightarrow> collecting \<Rightarrow> collecting option" where
  "append_line q l st =
     (let old = (case collected st of None \<Rightarrow> [] | Some h \<Rightarrow> h) in
      note_recipient q (cstr_of l) (length old)
        (note_sender (cstr_of l) (length old) (st\<lparr>collected := Some (old @ l)\<rparr>)))"

text \<open>A line of the headers, after the MIME decoder.\<close>

definition header_line :: "header_options \<Rightarrow> int \<Rightarrow> string \<Rightarrow> collecting \<Rightarrow> collecting option" where
  "header_line q num l st =
     (if retain_mail st \<or> refuse_mail st then Some st
      else
        let c = cstr_of l; st1 = (if length l \<noteq> length c then st\<lparr>has_nuls := True\<rparr> else st) in
        if \<not> pop2 q \<and> num = 1 \<and> has_iprefix c ''X-IMAP:'' then Some (st1\<lparr>retain_mail := True\<rparr>)
        else if has_iprefix c ''>From '' \<or> has_iprefix c ''From '' then Some st1
        else if drop_delivered q \<and> has_iprefix c ''Delivered-To:'' then Some (take_delivered q c st1)
        else if status_dropped q c then Some st1
        else do {
          l1 \<leftarrow> rewrite_line q l;
          (more_to_do, st2) \<leftarrow> stash_path q (cstr_of l1) st1;
          if more_to_do then append_line q l1 st2 else Some st2
        })"

subsection \<open>The loop over the lines\<close>

text \<open>The end of the headers is a failed read, or it tells whether the message ended with them.\<close>

datatype lines_end = Read_failed | Headers_read bool

function header_loop :: "header_options \<Rightarrow> int \<Rightarrow> collecting \<Rightarrow> reading \<Rightarrow> (lines_end \<times> collecting \<times> reading) option" where
  "header_loop q num st r =
     (if \<not> dot_ended q \<and> \<not> remaining r > 0 then Some (Headers_read False, st, r)
      else
        (case read_header_line q (refuse_mail st) [] r of
           Broken \<Rightarrow> Some (Read_failed, st, r)
         | Ended l f e r1 \<Rightarrow>
             Some (Headers_read e, st\<lparr>refuse_mail := f, has_nuls := has_nuls st \<or> length l \<noteq> length (cstr_of l)\<rparr>, r1)
         | Whole l f r1 \<Rightarrow>
             (case decode_header q l of
                None \<Rightarrow> None
              | Some l1 \<Rightarrow>
                  (case header_line q num l1 (st\<lparr>refuse_mail := f\<rparr>) of None \<Rightarrow> None | Some st1 \<Rightarrow> header_loop q num st1 r1))))"
  by pat_completeness auto
termination
proof (relation "measure (\<lambda>(q, num, st, r). length (inp (hsock r)))")
  fix q num st r l f r1 l1 st1
  assume "read_header_line q (refuse_mail st) [] r = Whole l f r1"
  then have "length (inp (hsock r1)) < length (inp (hsock r))"
    using read_header_line_consumes [where q = q and f = "refuse_mail st" and l = "[]" and r = r] by simp
  then show "((q, num, st1, r1), (q, num, st, r)) \<in> measure (\<lambda>(q, num, st, r). length (inp (hsock r)))" by simp
qed simp

declare header_loop.simps [simp del]

end
