(* ===== verification/Drive.thy ===== *)
theory Drive
  imports Transport Sink
begin

section \<open>Fetching the messages of a mailbox (driver.c)\<close>

text \<open>
  \<open>fetch_messages\<close> for one query. The table of the protocol is a record of functions on the state of the session,
  with \<open>None\<close> for a null pointer; so are the steps on the message that the loop calls, \<open>readheaders\<close> with the number
  of errors it adds to \<open>errcount\<close> and with the flag that it may set, \<open>readbody\<close>, and
  \<open>close_sink\<close>. The state of the loop keeps a log of the calls that decide what becomes of a message. Reports are
  left out.
\<close>

definition MSGLEN_UNKNOWN :: int where "MSGLEN_UNKNOWN = 0"
definition MSGLEN_TOOLARGE :: int where "MSGLEN_TOOLARGE = -2"
definition MSGLEN_OLD :: int where "MSGLEN_OLD = -3"

definition PS_MAXFETCH :: int where "PS_MAXFETCH = 13"
definition PS_RETAINED :: int where "PS_RETAINED = 26"

record 's protocol_methods =
  is_old :: "('s \<Rightarrow> int \<Rightarrow> bool \<times> 's) option"
  getpartialsizes :: "('s \<Rightarrow> int \<Rightarrow> int \<Rightarrow> int list \<Rightarrow> int \<times> int list \<times> 's) option"
  fetch_headers :: "'s \<Rightarrow> int \<Rightarrow> int \<times> int \<times> 's"
  fetch_body :: "('s \<Rightarrow> int \<Rightarrow> int \<times> int \<times> 's) option"
  trail :: "('s \<Rightarrow> int \<times> 's) option"
  delete_msg :: "('s \<Rightarrow> int \<Rightarrow> int \<times> 's) option"
  mark_seen :: "('s \<Rightarrow> int \<Rightarrow> int \<times> 's) option"

record headers_result =
  hcode :: int
  no_body :: bool
  hlen :: int
  herrors :: int

record 's message_steps =
  read_headers :: "'s \<Rightarrow> int \<Rightarrow> int \<Rightarrow> int \<Rightarrow> bool \<Rightarrow> headers_result \<times> 's"
  read_body :: "'s \<Rightarrow> bool \<Rightarrow> int \<Rightarrow> int \<times> 's"
  finish :: "'s \<Rightarrow> bool \<Rightarrow> bool \<times> 's"

record fetch_options =
  fetch_all :: bool
  flush_old :: bool
  keep_new :: bool
  limit_flush :: bool
  size_limit :: int
  fetchsizelimit :: int
  is_pop :: bool
  peek_capable :: bool
  softbounce :: bool
  maxfetch :: int

datatype event = Old int | Large int | Headers int int | Body int int | Closed int bool bool | Deleted int | Seen int

record 's fetching =
  session :: 's
  firstnum :: int
  lastnum :: int
  msgsizes :: "int list option"
  fetches :: int
  dispatches :: int
  deleted :: int
  transient_errors :: int
  errcount :: int
  skipped :: "(string \<times> int \<times> int) list"
  events :: "event list"

definition NUM_NONZERO :: "int \<Rightarrow> bool" where "NUM_NONZERO n \<longleftrightarrow> n > 0"

definition log_event :: "event \<Rightarrow> 's fetching \<Rightarrow> 's fetching" where
  "log_event e f = f\<lparr>events := events f @ [e]\<rparr>"

text \<open>The list of the sizes of skipped messages, each with the count of the poll and the number of messages.\<close>

definition mark_oversized :: "(string \<times> int \<times> int) list \<Rightarrow> int \<Rightarrow> (string \<times> int \<times> int) list" where
  "mark_oversized sk sz =
     (let sizestr = show_int sz; cnt = (case sk of [] \<Rightarrow> 0 | (i, n, k) # _ \<Rightarrow> n) in
      if sizestr \<in> fst ` set sk then
        (let j = length (takeWhile (\<lambda>(i, n, k). i \<noteq> sizestr) sk) in sk[j := (case sk ! j of (i, n, k) \<Rightarrow> (i, n, k + 1))])
      else sk @ [(sizestr, cnt, 1)])"

text \<open>The limit for one request, and the array for it, at the start of the loop.\<close>

definition size_window :: "'s protocol_methods \<Rightarrow> fetch_options \<Rightarrow> int" where
  "size_window m q = (if getpartialsizes m \<noteq> None \<and> NUM_NONZERO (fetchsizelimit q) \<and> is_pop q then 1 else fetchsizelimit q)"

definition partial_sizes :: "'s protocol_methods \<Rightarrow> fetch_options \<Rightarrow> bool" where
  "partial_sizes m q \<longleftrightarrow> getpartialsizes m \<noteq> None \<and> NUM_NONZERO (size_window m q)"

text \<open>The sizes of the next block of messages: an error, or \<open>None\<close> to go on.\<close>

definition get_block :: "'s protocol_methods \<Rightarrow> fetch_options \<Rightarrow> int \<Rightarrow> int \<Rightarrow> 's fetching \<Rightarrow> (int option \<times> 's fetching) option" where
  "get_block m q count num f =
     (if partial_sizes m q \<and> lastnum f < num then do {
        let lim = size_window m q;
        let upto = min (num + lim - 1) count;
        sizes \<leftarrow> msgsizes f;
        zeroed \<leftarrow> (if nat lim \<le> length sizes then Some (replicate (nat lim) 0 @ drop (nat lim) sizes) else None);
        let (err, sizes1, s1) = the (getpartialsizes m) (session f) num upto zeroed;
        Some (if err \<noteq> 0 then Some err else None, f\<lparr>session := s1, firstnum := num, lastnum := upto, msgsizes := Some sizes1\<rparr>)
      } else Some (None, f))"

definition msgsize_of :: "'s fetching \<Rightarrow> int \<Rightarrow> int option" where
  "msgsize_of f num =
     (case msgsizes f of None \<Rightarrow> Some 0
      | Some sizes \<Rightarrow> if num < firstnum f then None else peek sizes (nat (num - firstnum f)))"

text \<open>
  What the loop knows of the message when it comes to \<open>flagthemail\<close>: the flags of the turn, and whether the turn ends
  before that. \<open>Give_up\<close> is a return from the function and \<open>Next\<close> the \<open>continue\<close>.
\<close>

record flags =
  suppress_delete :: bool
  suppress_forward :: bool
  retained :: bool
  msgcode :: int

datatype 's fetch_turn = Give_up int "'s fetching" | Next "'s fetching" | Flag flags "'s fetching"

definition eat_trailer :: "'s protocol_methods \<Rightarrow> 's fetching \<Rightarrow> int \<times> 's fetching" where
  "eat_trailer m f =
     (case trail m of None \<Rightarrow> (0, f) | Some t \<Rightarrow> (let (err, s1) = t (session f) in (err, f\<lparr>session := s1\<rparr>)))"

text \<open>The end of the message behind its body.\<close>

definition finish_message :: "'s message_steps \<Rightarrow> int \<Rightarrow> flags \<Rightarrow> 's fetching \<Rightarrow> 's fetch_turn" where
  "finish_message st num g f =
     (let f1 = (if suppress_forward g then f else f\<lparr>dispatches := dispatches f + 1\<rparr>);
          (ok, s1) = finish st (session f1) (\<not> suppress_forward g);
          f2 = log_event (Closed num (\<not> suppress_forward g) ok) (f1\<lparr>session := s1\<rparr>);
          f3 = (if ok then f2 else f2\<lparr>errcount := errcount f2 + 1\<rparr>) in
      Flag (if ok then g else g\<lparr>suppress_delete := True\<rparr>) (if retained g then f3 else f3\<lparr>fetches := fetches f3 + 1\<rparr>))"

text \<open>The request for the body, where it is fetched separately: the error and the length.\<close>

definition request_body :: "'s protocol_methods \<Rightarrow> int \<Rightarrow> int \<Rightarrow> int \<Rightarrow> int \<Rightarrow> 's fetching \<Rightarrow> int \<times> int \<times> 's fetching" where
  "request_body m num len msgsize msglen f =
     (case fetch_body m of
        None \<Rightarrow> (0, len, f)
      | Some fb \<Rightarrow> (let (e, l, s1) = fb (session f) num in (e, if l = -1 then msgsize - msglen else l, f\<lparr>session := s1\<rparr>)))"

definition count_transient :: "int \<Rightarrow> 's fetching \<Rightarrow> 's fetching" where
  "count_transient e f = (if e = PS_TRANSIENT then f\<lparr>transient_errors := transient_errors f + 1\<rparr> else f)"

text \<open>Reading the body: the length, the size from the list and \<open>msglen\<close>.\<close>

definition fetch_the_body ::
  "'s protocol_methods \<Rightarrow> 's message_steps \<Rightarrow> int \<Rightarrow> int \<Rightarrow> int \<Rightarrow> int \<Rightarrow> flags \<Rightarrow> 's fetching \<Rightarrow> 's fetch_turn" where
  "fetch_the_body m st num len msgsize msglen g f =
     (let (err, len1, f1) = request_body m num len msgsize msglen f in
      if err \<noteq> 0 then Give_up err f1
      else
        let (e, s2) = read_body st (session f1) (\<not> suppress_forward g) len1;
            f2 = log_event (Body num e) (f1\<lparr>session := s2\<rparr>) in
        if e \<noteq> 0 \<and> e \<noteq> PS_TRANSIENT then Give_up e f2
        else
          let g1 = (if e = PS_TRANSIENT then g\<lparr>suppress_delete := True, suppress_forward := True\<rparr> else g);
              (t, f4) = eat_trailer m (count_transient e f2) in
          if t \<noteq> 0 then Give_up t f4 else finish_message st num g1 f4)"

text \<open>The flags after \<open>readheaders\<close>, where its result does not end the session.\<close>

definition header_flags :: "int \<Rightarrow> flags" where
  "header_flags c =
     \<lparr>suppress_delete = (c = PS_RETAINED \<or> c = PS_TRANSIENT), suppress_forward = (c = PS_RETAINED \<or> c = PS_TRANSIENT \<or> c = PS_REFUSED),
      retained = (c = PS_RETAINED), msgcode = MSGLEN_UNKNOWN\<rparr>"

text \<open>A message that is fetched.\<close>

definition fetch_one ::
  "'s protocol_methods \<Rightarrow> 's message_steps \<Rightarrow> int \<Rightarrow> int \<Rightarrow> 's fetching \<Rightarrow> 's fetch_turn" where
  "fetch_one m st num msgsize f =
     (let separate = (fetch_body m \<noteq> None); (err, len0, s1) = fetch_headers m (session f) num; f1 = f\<lparr>session := s1\<rparr>;
          len = (if len0 = -1 then msgsize else len0) in
      if err = PS_TRANSIENT then Next (count_transient err f1)
      else if err \<noteq> 0 then Give_up err f1
      else
        let (h, s2) = read_headers st (session f1) num len msgsize (\<not> separate);
            c = hcode h;
            f2 = log_event (Headers num c) (f1\<lparr>session := s2, errcount := errcount f1 + herrors h\<rparr>) in
        if c \<noteq> 0 \<and> c \<noteq> PS_RETAINED \<and> c \<noteq> PS_TRANSIENT \<and> c \<noteq> PS_REFUSED then Give_up c f2
        else
          let g = header_flags c; f3 = count_transient c f2;
              (t, f4) = (if separate then eat_trailer m f3 else (0, f3)) in
          if t \<noteq> 0 then Give_up t f4
          else if separate \<and> suppress_forward g \<or> \<not> separate \<and> no_body h then finish_message st num g f4
          else fetch_the_body m st num len msgsize (hlen h) g f4)"

text \<open>\<open>flagthemail\<close>: the message is deleted, marked, or left alone.\<close>

definition flag_message :: "'s protocol_methods \<Rightarrow> fetch_options \<Rightarrow> int \<Rightarrow> flags \<Rightarrow> 's fetching \<Rightarrow> int option \<times> 's fetching" where
  "flag_message m q num g f =
     (let keep_it = suppress_delete g \<or> suppress_forward g \<and> softbounce q in
      if retained g then (None, f)
      else if delete_msg m \<noteq> None \<and> \<not> keep_it
        \<and> (msgcode g \<ge> 0 \<and> \<not> keep_new q \<or> msgcode g = MSGLEN_OLD \<and> flush_old q \<or> msgcode g = MSGLEN_TOOLARGE \<and> limit_flush q)
      then
        let (err, s1) = the (delete_msg m) (session f) num in
        (if err \<noteq> 0 then Some err else None, log_event (Deleted num) (f\<lparr>deleted := deleted f + 1, session := s1\<rparr>))
      else if mark_seen m \<noteq> None \<and> \<not> keep_it \<and> msgcode g \<ge> 0 \<and> keep_new q then
        let (err, s1) = the (mark_seen m) (session f) num in
        (if err \<noteq> 0 then Some err else None, log_event (Seen num) (f\<lparr>session := s1\<rparr>))
      else (None, f))"

definition skip_flags :: "int \<Rightarrow> bool \<Rightarrow> flags" where
  "skip_flags mc keep_it = \<lparr>suppress_delete = keep_it, suppress_forward = False, retained = False, msgcode = mc\<rparr>"

text \<open>A turn of the loop up to \<open>flagthemail\<close>; \<open>None\<close> is an access outside of the array of sizes.\<close>

definition start_turn ::
  "'s protocol_methods \<Rightarrow> 's message_steps \<Rightarrow> fetch_options \<Rightarrow> bool \<Rightarrow> int \<Rightarrow> int \<Rightarrow> 's fetching \<Rightarrow> 's fetch_turn option" where
  "start_turn m st q force count num f = do {
     let (old, f1) =
       (if fetch_all q \<or> force then (False, f)
        else (case is_old m of None \<Rightarrow> (False, f) | Some old_one \<Rightarrow> (let (b, s1) = old_one (session f) num in (b, f\<lparr>session := s1\<rparr>))));
     if old then Some (Flag (skip_flags MSGLEN_OLD False) (log_event (Old num) f1))
     else do {
       (err, f2) \<leftarrow> get_block m q count num f1;
       (case err of
          Some e \<Rightarrow> Some (Give_up e f2)
        | None \<Rightarrow> do {
            msgsize \<leftarrow> msgsize_of f2 num;
            if NUM_NONZERO (size_limit q) \<and> msgsize > size_limit q then
              Some (Flag (skip_flags MSGLEN_TOOLARGE (\<not> limit_flush q)) (log_event (Large num) (f2\<lparr>skipped := mark_oversized (skipped f2) msgsize\<rparr>)))
            else Some (fetch_one m st num msgsize f2)
          })
     }
   }"

fun fetch_loop ::
  "'s protocol_methods \<Rightarrow> 's message_steps \<Rightarrow> fetch_options \<Rightarrow> bool \<Rightarrow> int \<Rightarrow> int list \<Rightarrow> 's fetching \<Rightarrow> (int \<times> 's fetching) option" where
  "fetch_loop m st q force count [] f = Some (PS_SUCCESS, f)"
| "fetch_loop m st q force count (num # nums) f =
     (case start_turn m st q force count num f of
        None \<Rightarrow> None
      | Some (Give_up e f1) \<Rightarrow> Some (e, f1)
      | Some (Next f1) \<Rightarrow> fetch_loop m st q force count nums f1
      | Some (Flag g f1) \<Rightarrow>
          (case flag_message m q num g f1 of
             (Some e, f2) \<Rightarrow> Some (e, f2)
           | (None, f2) \<Rightarrow>
               if maxfetch q \<noteq> 0 \<and> maxfetch q \<le> fetches f2 \<and> num < count then Some (PS_MAXFETCH, f2)
               else fetch_loop m st q force count nums f2))"

text \<open>
  The array of sizes is a new one when they are read block by block; \<open>junk\<close> is what its cells hold.
\<close>

definition fetch_messages ::
  "'s protocol_methods \<Rightarrow> 's message_steps \<Rightarrow> fetch_options \<Rightarrow> (nat \<Rightarrow> int) \<Rightarrow> int \<Rightarrow> 's fetching \<Rightarrow> (int \<times> 's fetching) option" where
  "fetch_messages m st q junk count f =
     fetch_loop m st q (\<not> peek_capable q \<and> errcount f > 0) count [1..count]
       (f\<lparr>firstnum := 1, lastnum := 0, msgsizes := (if partial_sizes m q then Some (map junk [0..<nat (size_window m q)]) else msgsizes f)\<rparr>)"

end
