(* ===== verification/HeaderShip.thy ===== *)
theory HeaderShip
  imports HeaderRead Drive
begin

section \<open>Addressing a message and shipping its headers (transact.c, readheaders; sink.c, open_sink)\<close>

text \<open>
  What lasts from one message to the next: the digest of the last headers, the aliases with the count of errors, the static
  variables of the MIME scanner, with those of \<open>nxtaddr\<close>, the sink that \<open>stuffline\<close> writes to and the state of the
  delivery. The options of a delivery that \<open>Sink\<close> has are in \<open>sink_options\<close>; the rest is here.
\<close>

record letter_session =
  lastdigest :: "byte list"
  server_aliases :: aliases
  mime_state :: body
  outlet :: sink
  transport :: delivery

text \<open>\<open>listener_up\<close>, \<open>file_opens\<close> and \<open>mda_opens\<close> tell how \<open>smtp_setup\<close>, \<open>fopen\<close> and \<open>popen\<close> end.\<close>

record ship_options =
  user_name :: string
  invisible :: bool
  peer :: "string option"
  protocol_name :: string
  version :: string
  tracepolls :: bool
  pollname :: string
  folder :: "string option"
  listener_up :: bool
  file_opens :: bool
  mda_opens :: bool
  sdps_envfrom :: "string option"
  sdps_envto :: "string option"
  stack_digest :: md5ctx
  stack_errhd :: string

definition PS_BSMTP :: int where "PS_BSMTP = 12"
definition DIGESTLEN :: nat where "DIGESTLEN = 33"

subsection \<open>Duplicates\<close>

definition headers_digest :: "md5ctx \<Rightarrow> string \<Rightarrow> byte list" where
  "headers_digest ctx h = MD5Final (MD5Update (MD5Init ctx) (bytes_of (cstr_of h))) @ replicate (DIGESTLEN - 16) 0"

text \<open>Whether the message is a duplicate, and \<open>ctl->lastdigest\<close>.\<close>

definition duplicate :: "header_options \<Rightarrow> md5ctx \<Rightarrow> collecting \<Rightarrow> byte list \<Rightarrow> bool \<times> byte list" where
  "duplicate q ctx st lastd =
     (case collected st of
        None \<Rightarrow> (False, lastd)
      | Some h \<Rightarrow>
          if \<not> multidrop (drops q) then (False, lastd)
          else
            let d = headers_digest ctx h in
            if received_for st = None \<and> env_offs st = None \<and> delivered_to st = None \<and> lastd = d then (True, lastd)
            else (False, d))"

subsection \<open>The headers and the sender\<close>

definition made_up_headers :: "ship_options \<Rightarrow> sink_options \<Rightarrow> string" where
  "made_up_headers t so =
     take MSGBUFSIZE (''From: FETCHMAIL-DAEMON'' @ CRLF @ ''To: '' @ user_name t @ ''@'' @ fetchmailhost so @ CRLF
       @ ''Subject: Headerless mail from '' @ sink_options.remotename so @ [CHR 0x27] @ ''s mailbox on '' @ truename so @ CRLF)"

text \<open>\<open>MimeBodyType\<close> changes the headers in place.\<close>

definition mime_type :: "bool \<Rightarrow> string \<Rightarrow> body \<Rightarrow> (int \<times> string \<times> body) option" where
  "mime_type decode h b = do {
     (t, h1, b1) \<leftarrow> MimeBodyType (Some (cstr_of h)) decode b;
     Some (t, (case h1 of None \<Rightarrow> h | Some c \<Rightarrow> c @ drop (length c) h), b1)
   }"

text \<open>The address in the first of the headers that has one.\<close>

fun first_address :: "nat option list \<Rightarrow> string \<Rightarrow> nxt \<Rightarrow> (string option \<times> nxt) option" where
  "first_address [] h n = Some (None, n)"
| "first_address (None # l) h n = first_address l h n"
| "first_address (Some offs # l) h n =
     (case nxtaddr (Some (cstr_of (drop offs h))) n of
        None \<Rightarrow> None
      | Some (Some a, n1) \<Rightarrow> Some (Some a, n1)
      | Some (None, n1) \<Rightarrow> first_address l h n1)"

definition choose_sender :: "string option \<Rightarrow> collecting \<Rightarrow> string \<Rightarrow> nxt \<Rightarrow> (string \<times> nxt) option" where
  "choose_sender sdps st h n =
     (case sdps of
        Some e \<Rightarrow> Some (take (PATHBUF - 1) e, n)
      | None \<Rightarrow>
          if sender_path st \<noteq> [] then Some (sender_path st, n)
          else do {
            (ap, n1) \<leftarrow> first_address [resent_sender_offs st, sender_offs st, resent_from_offs st, from_offs st,
                          reply_to_offs st, app_from_offs st] h n;
            Some ((case ap of None \<Rightarrow> [] | Some a \<Rightarrow> if strchr a LF = None then take (PATHBUF - 1) a else []), n1)
          })"

subsection \<open>The recipients\<close>

fun names_of_headers :: "header_options \<Rightarrow> string list \<Rightarrow> nxt \<Rightarrow> tally \<Rightarrow> (nxt \<times> tally) option" where
  "names_of_headers q [] n f = Some (n, f)"
| "names_of_headers q (h # hs) n f = do {
     (n1, f1) \<leftarrow> find_server_names (drops q) (server q) (resolve q) (Some h) n f;
     names_of_headers q hs n1 f1
   }"

text \<open>The headers that are searched, the envelope first.\<close>

definition recipient_headers :: "header_options \<Rightarrow> string option \<Rightarrow> collecting \<Rightarrow> string \<Rightarrow> string list" where
  "recipient_headers q sdps st h =
     (let by_envelope = (case envelope q of Envelope e \<Rightarrow> strcaseeq e ''Delivered-To'' | _ \<Rightarrow> False);
          at = (\<lambda>offs. cstr_of (drop offs h)) in
      case sdps of
        Some e \<Rightarrow> [e]
      | None \<Rightarrow>
          (case env_offs st of
             Some offs \<Rightarrow> [at offs]
           | None \<Rightarrow>
               if delivered_to st \<noteq> None \<and> by_envelope then [the (delivered_to st)]
               else
                 (case received_for st of
                    Some f \<Rightarrow> [f]
                  | None \<Rightarrow> map at (if resent_to_chain st \<noteq> [] then resent_to_chain st else to_chain st))))"

definition no_names :: "aliases \<Rightarrow> tally" where
  "no_names a = \<lparr>xmit_names = [], accept_count = 0, reject_count = 0, known = a\<rparr>"

text \<open>The recipients, and \<open>no_local_matches\<close>.\<close>

definition gather :: "header_options \<Rightarrow> string \<Rightarrow> string option \<Rightarrow> collecting \<Rightarrow> string \<Rightarrow> nxt \<Rightarrow> (bool \<times> nxt \<times> tally) option" where
  "gather q fallback sdps st h n =
     (if multidrop (drops q) then do {
        (n1, f) \<leftarrow> names_of_headers q (recipient_headers q sdps st h) n (no_names (servers_known st));
        Some (if accept_count f = 0 then (True, n1, f\<lparr>xmit_names := xmit_names f @ [(fallback, XMIT_ACCEPT)]\<rparr>) else (False, n1, f))
      }
      else
        (case localnames (drops q) of
           [] \<Rightarrow> None
         | (i, _) # _ \<Rightarrow> Some (False, n, (no_names (servers_known st))\<lparr>xmit_names := [(i, XMIT_ACCEPT)]\<rparr>)))"

subsection \<open>open_sink\<close>

text \<open>The result, \<open>good_addresses\<close>, \<open>bad_addresses\<close>, the message with its marks, and the session.\<close>

definition open_sink ::
  "header_options \<Rightarrow> ship_options \<Rightarrow> sink_options \<Rightarrow> message \<Rightarrow> letter_session \<Rightarrow> (int \<times> nat \<times> nat \<times> message \<times> letter_session) option" where
  "open_sink q t so m s =
     (case (bsmtp q, mda q) of
        (Some _, _) \<Rightarrow>
          (if \<not> file_opens t \<or> file_bad (outlet s) then Some (PS_BSMTP, 0, 0, m, s)
           else
             let (b, n) = open_bsmtp_sink so (user_name t) m in
             Some (PS_SUCCESS, n, 0, m, s\<lparr>outlet := (outlet s)\<lparr>file_out := file_out (outlet s) @ b\<rparr>\<rparr>))
      | (None, None) \<Rightarrow>
          (if \<not> listener_up t then Some (PS_SMTP, 0, 0, m, s)
           else
             let (r, n, nbad, d) = open_smtp_sink so ((transport s)\<lparr>message_of := m\<rparr>) in
             Some (r, n, nbad, message_of d,
                   s\<lparr>transport := d, outlet := (outlet s)\<lparr>smtp_socket := (if connected d then Some (conn (listener d)) else None)\<rparr>\<rparr>))
      | (None, Some c) \<Rightarrow> do {
          command \<leftarrow> mda_command so c m;
          Some (if mda_opens t then PS_SUCCESS else PS_IOERR, length (accepted (recipients m)), 0, m, s)
        })"

subsection \<open>Shipping the headers\<close>

text \<open>\<open>snprintf(buf + i, lim, \<dots>)\<close>, and at the end of the string in \<open>buf\<close>, with \<open>k\<close> cells less than there are.\<close>

definition put_str :: "string \<Rightarrow> nat \<Rightarrow> nat \<Rightarrow> string \<Rightarrow> string" where
  "put_str buf i lim s = (if lim = 0 then buf else overwrite buf i (take (lim - 1) s @ [NUL]))"

definition put_more :: "string \<Rightarrow> nat \<Rightarrow> string \<Rightarrow> string" where
  "put_more buf k s = (let n = length (cstr_of buf) in put_str buf n (length buf - n - k) s)"

definition to_outlet :: "letter_session \<Rightarrow> string \<Rightarrow> (int \<times> letter_session \<times> string) option" where
  "to_outlet s buf = map_option (\<lambda>(n, sk, b). (n, s\<lparr>outlet := sk\<rparr>, b)) (stuffline (outlet s) buf)"

fun back_to_line :: "string \<Rightarrow> nat \<Rightarrow> nat" where
  "back_to_line h 0 = 0"
| "back_to_line h (Suc i) = (if h ! i = LF then Suc i else back_to_line h i)"

text \<open>The headers before the line with the first \<open>Received:\<close>: the result, where that line is, and the headers.\<close>

definition ship_front :: "letter_session \<Rightarrow> string \<Rightarrow> (int \<times> nat \<times> letter_session \<times> string) option" where
  "ship_front s h =
     (let hb = h @ [NUL]; i = back_to_line h (case find_sub (cstr_of h) ''Received:'' of None \<Rightarrow> 0 | Some j \<Rightarrow> j) in
      if i = 0 then Some (0, 0, s, hb)
      else map_option (\<lambda>(n, s1, b). (n, i, s1, b[i := hb ! i])) (to_outlet s (hb[i := NUL])))"

definition trace_from :: "ship_options \<Rightarrow> sink_options \<Rightarrow> string \<Rightarrow> string" where
  "trace_from t so buf =
     put_str buf 0 (length buf) (''Received: from '' @ truename so @ (case peer t of None \<Rightarrow> [] | Some a \<Rightarrow> '' ['' @ a @ '']'') @ CRLF)"

definition trace_by :: "ship_options \<Rightarrow> sink_options \<Rightarrow> string \<Rightarrow> string" where
  "trace_by t so buf =
     (let b1 = put_str buf 0 (length buf) (CHR 0x09 # ''by '' @ fetchmailhost so @ '' with '' @ protocol_name t @ '' (fetchmail-'' @ version t);
          b2 = (if tracepolls t then put_more b1 0 ('' polling '' @ pollname t @ '' account '' @ sink_options.remotename so) else b1);
          b3 = (case (tracepolls t, folder t) of (True, Some f) \<Rightarrow> put_more b2 0 ('' folder '' @ f) | _ \<Rightarrow> b2) in
      put_more b3 0 ('')'' @ CRLF))"

definition trace_for :: "bool \<Rightarrow> sink_options \<Rightarrow> nat \<Rightarrow> (string \<times> xmit) list \<Rightarrow> string \<Rightarrow> string" where
  "trace_for multi so ngood rs buf =
     (let b1 = buf[0 := CHR 0x09];
          b2 =
            (if ngood = 0 then put_str b1 1 (length b1 - 1) (''for <'' @ rcpt_address so (postmaster so) False @ ''> (by default); '')
             else if ngood = 1 then
               put_more
                 (case accepted rs of [] \<Rightarrow> b1 | i # _ \<Rightarrow> put_str b1 1 (length b1 - 1) (''for <'' @ rcpt_address so i True @ ''>''))
                 1 ('' ('' @ (if multi then ''multi-drop'' else ''single-drop'') @ ''); '')
             else b1[1 := NUL]) in
      put_more b2 0 (timestamp so @ CRLF))"

definition ship_trace ::
  "bool \<Rightarrow> ship_options \<Rightarrow> sink_options \<Rightarrow> nat \<Rightarrow> (string \<times> xmit) list \<Rightarrow> letter_session \<Rightarrow> string \<Rightarrow> (int \<times> letter_session \<times> string) option"
  where
  "ship_trace multi t so ngood rs s buf = do {
     (n1, s1, b1) \<leftarrow> to_outlet s (trace_from t so buf);
     if n1 = -1 then Some (-1, s1, b1)
     else do {
       (n2, s2, b2) \<leftarrow> to_outlet s1 (trace_by t so b1);
       if n2 = -1 then Some (-1, s2, b2) else to_outlet s2 (trace_for multi so ngood rs b2)
     }
   }"

subsection \<open>The warning\<close>

definition warning_start :: string where "warning_start = ''X-Fetchmail-Warning: ''"

definition separate :: "string \<Rightarrow> string" where
  "separate e = (if e ! (length warning_start + 1) \<noteq> NUL then put_more e 0 ''; '' else e)"

definition no_match :: "int \<Rightarrow> (string \<times> xmit) list \<Rightarrow> string option" where
  "no_match rejects rs =
     (if rejects \<noteq> 1 then Some ''no recipient addresses matched declared local names''
      else
        (case filter (\<lambda>(i, k). k = XMIT_REJECT) rs of
           [] \<Rightarrow> None
         | (i, _) # _ \<Rightarrow> Some (''recipient address '' @ i @ '' didn'' @ [CHR 0x27] @ ''t match any local name'')))"

text \<open>The rejected names, each with a comma unless it is the last recipient.\<close>

fun rejected_names :: "(string \<times> xmit) list \<Rightarrow> string" where
  "rejected_names [] = []"
| "rejected_names ((i, k) # rs) = (if k = XMIT_RCPTBAD then i @ (if rs = [] then [] else '', '') else []) @ rejected_names rs"

text \<open>The cells of \<open>errmsg\<close>, which is \<open>errhd\<close> or an array of its own; \<open>None\<close> is a write behind the end of the array.\<close>

definition warning :: "string \<Rightarrow> bool \<Rightarrow> int \<Rightarrow> bool \<Rightarrow> nat \<Rightarrow> (string \<times> xmit) list \<Rightarrow> string option" where
  "warning stack none rejects nuls nbad rs = do {
     let e0 = put_str stack 0 (length stack) warning_start;
     e1 \<leftarrow> (if none then map_option (put_more e0 0) (no_match rejects rs) else Some e0);
     let e2 = (if nuls then put_more (separate e1) 0 ''message has embedded NULs'' else e1);
     if nbad \<noteq> 0 then do {
       let e3 = put_more (separate e2) 0 ''SMTP listener rejected local recipient addresses: '';
       let errlen = length (cstr_of e3) + sum_list (map (\<lambda>(i, k). if k = XMIT_RCPTBAD then length i + 2 else 0) rs);
       let msg = cstr_of e3 @ rejected_names rs @ CRLF @ [NUL];
       if length msg \<le> errlen + 3 then Some (msg @ replicate (errlen + 3 - length msg) (CHR ''?'')) else None
     }
     else if length (cstr_of e2) + 3 \<le> length e2 then Some (overwrite e2 (length (cstr_of e2)) (CRLF @ [NUL]))
     else None
   }"

definition ship_warning :: "ship_options \<Rightarrow> bool \<Rightarrow> int \<Rightarrow> bool \<Rightarrow> nat \<Rightarrow> (string \<times> xmit) list \<Rightarrow> letter_session \<Rightarrow> letter_session option" where
  "ship_warning t none rejects nuls nbad rs s =
     (if none \<or> nuls \<or> nbad \<noteq> 0 then do {
        e \<leftarrow> warning (stack_errhd t) none rejects nuls nbad rs;
        map_option (\<lambda>(n, s1, b). s1) (to_outlet s e)
      }
      else Some s)"

subsection \<open>readheaders\<close>

text \<open>The headers go out around the trace lines; then the warning and the empty line.\<close>

definition ship_headers ::
  "header_options \<Rightarrow> ship_options \<Rightarrow> sink_options \<Rightarrow> nat \<Rightarrow> nat \<Rightarrow> message \<Rightarrow> bool \<Rightarrow> int \<Rightarrow> bool \<Rightarrow> string \<Rightarrow> letter_session \<Rightarrow>
   (int \<times> message \<times> letter_session) option" where
  "ship_headers q t so ngood nbad m none rejects nuls buf s = do {
     (n, i, s1, h) \<leftarrow> ship_front s (headers m);
     (n, s2, buf) \<leftarrow> (if \<not> invisible t \<and> n \<noteq> -1 then ship_trace (multidrop (drops q)) t so ngood (recipients m) s1 buf else Some (n, s1, buf));
     (n, s3, rest) \<leftarrow> (if n \<noteq> -1 then to_outlet s2 (drop i h) else Some (n, s2, drop i h));
     let m1 = m\<lparr>headers := take i h @ rest\<rparr>;
     if n = -1 then Some (PS_IOERR, m1, s3)
     else do {
       s4 \<leftarrow> ship_warning t none rejects nuls nbad (recipients m) s3;
       (n, s5, b) \<leftarrow> to_outlet s4 (overwrite buf 0 (CRLF @ [NUL]));
       Some (if n = int (length (cstr_of b)) then PS_SUCCESS else PS_SOCKET, m1, s5)
     }
   }"

text \<open>The message with its recipients: the MIME type, the message, \<open>no_local_matches\<close> and the names found.\<close>

definition address_message ::
  "header_options \<Rightarrow> ship_options \<Rightarrow> sink_options \<Rightarrow> int \<Rightarrow> collecting \<Rightarrow> letter_session \<Rightarrow> (int \<times> message \<times> bool \<times> tally \<times> letter_session) option" where
  "address_message q t so len st s = do {
     (ty, h, b) \<leftarrow> mime_type (decode_mime q) (case collected st of None \<Rightarrow> made_up_headers t so | Some h \<Rightarrow> h) (mime_state s);
     (path, n1) \<leftarrow> choose_sender (sdps_envfrom t) st h (scanner b);
     (none, n2, f) \<leftarrow> gather q (postmaster so) (sdps_envto t) st h n1;
     Some (ty, \<lparr>headers = h, recipients = xmit_names f, return_path = path, reallen = len\<rparr>, none, f,
           s\<lparr>mime_state := b\<lparr>scanner := n2\<rparr>, server_aliases := known f\<rparr>)
   }"

text \<open>What follows the lines: \<open>errs\<close> is the count of errors before the message.\<close>

definition process_headers ::
  "header_options \<Rightarrow> ship_options \<Rightarrow> sink_options \<Rightarrow> int \<Rightarrow> int \<Rightarrow> collecting \<Rightarrow> string \<Rightarrow> letter_session \<Rightarrow> (int \<times> message option \<times> letter_session) option"
  where
  "process_headers q t so len errs st buf s =
     (if retain_mail st then Some (PS_RETAINED, None, s)
      else if refuse_mail st then Some (PS_REFUSED, None, s)
      else
        let (dup, lastd) = duplicate q (stack_digest t) st (lastdigest s); s1 = s\<lparr>lastdigest := lastd\<rparr> in
        if dup then Some (PS_REFUSED, None, s1)
        else do {
          (ty, m, none, f, s2) \<leftarrow> address_message q t so len st s1;
          if errors (known f) > errs then Some (PS_TRANSIENT, Some m, s2)
          else do {
            (r, ngood, nbad, m1, s3) \<leftarrow> open_sink q t (so\<lparr>mimemsg := ty\<rparr>) m s2;
            if r \<noteq> PS_SUCCESS then Some (r, Some m1, s3)
            else map_option (\<lambda>(r, m2, s4). (r, Some m2, s4))
                   (ship_headers q t (so\<lparr>mimemsg := ty\<rparr>) ngood nbad m1 none (reject_count f) (has_nuls st) buf s3)
          }
        })"

definition readheaders ::
  "header_options \<Rightarrow> ship_options \<Rightarrow> sink_options \<Rightarrow> int \<Rightarrow> int \<Rightarrow> int \<Rightarrow> sock \<Rightarrow> string \<Rightarrow> letter_session \<Rightarrow>
   (int \<times> bool \<times> sock \<times> message option \<times> letter_session) option" where
  "readheaders q t so fetchlen len num sock buf s = do {
     (e, st, r) \<leftarrow> header_loop q num (start_collecting (server_aliases s) (scanner (mime_state s)))
                    \<lparr>hsock = sock, cells = buf, remaining = fetchlen, size_read = 0\<rparr>;
     let s1 = s\<lparr>server_aliases := servers_known st, mime_state := (mime_state s)\<lparr>scanner := addr_scan st\<rparr>\<rparr>;
     (case e of
        Read_failed \<Rightarrow> Some (PS_SOCKET, False, hsock r, None, s1)
      | Headers_read at_end \<Rightarrow>
          map_option (\<lambda>(c, m, s2). (c, at_end, hsock r, m, s2))
            (process_headers q t so len (errors (server_aliases s)) st (cells r) s1))
   }"

end
