(* ===== verification/BodyProps.thy ===== *)
theory BodyProps
  imports Body
begin

section \<open>What the sink gets of a body\<close>

subsection \<open>The body on the wire and in the sink\<close>

definition eol :: string where "eol = [CR, LF]"

text \<open>The escape of RFC 5321, 4.5.2 and RFC 1939, 3.\<close>

definition stuff :: "string \<Rightarrow> string" where
  "stuff l = (if char_at l 0 = CHR ''.'' then CHR ''.'' # l else l)"

text \<open>A line that fits into the buffer with its escape and its terminator.\<close>

definition body_line :: "string \<Rightarrow> bool" where
  "body_line l \<longleftrightarrow> NUL \<notin> set l \<and> CR \<notin> set l \<and> LF \<notin> set l \<and> length l + 4 < BODYBUF"

definition plain_text :: "string list \<Rightarrow> string" where
  "plain_text ls = concat (map (\<lambda>l. l @ eol) ls)"

definition wire :: "bool \<Rightarrow> string list \<Rightarrow> string" where
  "wire delimited ls = (if delimited then plain_text (map stuff ls) @ ''.'' @ eol else plain_text ls)"

text \<open>What the sink has got, and what it is to get of a line.\<close>

definition writable :: "sink \<Rightarrow> bool" where
  "writable sk \<longleftrightarrow>
     (if has_mda sk \<or> has_bsmtp sk then \<not> file_bad sk
      else (case smtp_socket sk of None \<Rightarrow> False | Some s \<Rightarrow> 0 \<notin> set (wroom s)))"

definition sunk :: "sink \<Rightarrow> string" where
  "sunk sk = (if has_mda sk \<or> has_bsmtp sk then file_out sk else outp (the (smtp_socket sk)))"

definition shipped :: "sink \<Rightarrow> string \<Rightarrow> string" where
  "shipped sk l = (if has_mda sk then l else stuff l) @ (if stripcr sk then [LF] else eol)"

definition same_kind :: "sink \<Rightarrow> sink \<Rightarrow> bool" where
  "same_kind a b \<longleftrightarrow> has_mda a = has_mda b \<and> has_bsmtp a = has_bsmtp b \<and> base_delimited a = base_delimited b
     \<and> forcecr a = forcecr b \<and> stripcr a = stripcr b"

lemma same_kind_shipped: "same_kind a b \<Longrightarrow> shipped a = shipped b"
  by (auto simp: same_kind_def shipped_def fun_eq_iff)

lemma to_sink_writes:
  assumes "writable sk"
  obtains sk1 where "to_sink sk t = (int (length t), sk1)" "writable sk1" "sunk sk1 = sunk sk @ t" "same_kind sk1 sk"
proof (cases "has_mda sk \<or> has_bsmtp sk")
  case True
  with assms that show ?thesis by (auto simp: to_sink_def writable_def sunk_def same_kind_def)
next
  case False
  then obtain s where s: "smtp_socket sk = Some s" "0 \<notin> set (wroom s)"
    using assms by (auto simp: writable_def split: option.splits)
  from SockWrite_eq [OF s(2), of t] obtain s1 where
    "SockWrite s t = (int (length t), s1)" "outp s1 = outp s @ t" "0 \<notin> set (wroom s1)" by blast
  with False s that show ?thesis by (auto simp: to_sink_def writable_def sunk_def same_kind_def)
qed

subsection \<open>One line\<close>

lemma stuff_set [simp]: "set (stuff l) \<subseteq> insert (CHR ''.'') (set l)"
  by (auto simp: stuff_def)

lemma stuff_clean: "body_line l \<Longrightarrow> NUL \<notin> set (stuff l) \<and> CR \<notin> set (stuff l) \<and> LF \<notin> set (stuff l) \<and> length (stuff l) + 3 < BODYBUF"
  by (auto simp: stuff_def body_line_def)

lemma cell_len_at: "NUL \<notin> set w \<Longrightarrow> i \<le> length w \<Longrightarrow> cell_len (w @ NUL # t) i = Some (length w - i)"
proof -
  assume "NUL \<notin> set w" "i \<le> length w"
  then have "NUL \<notin> set (drop i w)" by (meson in_set_dropD)
  then have "takeWhile (\<lambda>c. c \<noteq> NUL) (drop i w @ NUL # t) = drop i w"
    by (subst takeWhile_append2) (auto intro: gr0I)
  then show ?thesis using \<open>i \<le> length w\<close> by (simp add: cell_len_def Let_def)
qed

lemma find_last_line:
  assumes "NUL \<notin> set w" "w \<noteq> []" "last w = LF"
  shows "find_last (w @ NUL # t) 1 = Some (length w)"
proof -
  have "1 \<le> length w" using assms(2) by (cases w) auto
  moreover have "w ! (length w - 1) = LF" using assms by (simp add: last_conv_nth)
  moreover have "length w - 1 < length w" "1 + (length w - 1) = length w" using \<open>1 \<le> length w\<close> by auto
  ultimately show ?thesis
    using cell_len_at [OF assms(1), of 1 t] by (subst find_last.simps) (simp add: nth_append Let_def assms(2) del: One_nat_def)
qed

lemma stuff_dot_line:
  assumes "writable sk"
  obtains n s1 where "stuff_dot sk buf = (has_mda sk \<and> base_delimited sk \<and> char_at buf 0 = CHR ''.'', n, s1)" "0 \<le> n"
    "writable s1" "same_kind s1 sk"
    "sunk s1 = sunk sk @ (if \<not> has_mda sk \<and> \<not> base_delimited sk \<and> char_at buf 0 = CHR ''.'' then ''.'' else [])"
proof (cases "\<not> has_mda sk \<and> \<not> base_delimited sk \<and> char_at buf 0 = CHR ''.''")
  case True
  obtain s1 where s1: "to_sink sk ''.'' = (1, s1)" "writable s1" "sunk s1 = sunk sk @ ''.''" "same_kind s1 sk"
    using to_sink_writes [OF assms, of "''.''"] by auto
  have "has_bsmtp sk \<or> smtp_socket sk \<noteq> None" using assms True by (auto simp: writable_def split: option.splits if_splits)
  then have "stuff_dot sk buf = (False, 1, s1)" using True s1(1) by (auto simp: stuff_dot_def)
  then show ?thesis using that [of 1 s1] s1 True by auto
next
  case False
  then have "stuff_dot sk buf = (has_mda sk \<and> base_delimited sk \<and> char_at buf 0 = CHR ''.'', 0, sk)"
    by (auto simp: stuff_dot_def)
  then show ?thesis using that [of 0 sk] assms False by (auto simp: same_kind_def)
qed

lemma stuffline_line:
  assumes l: "NUL \<notin> set l" "CR \<notin> set l" and sk: "writable sk"
    and d: "base_delimited sk \<Longrightarrow> l = stuff l0" "\<not> base_delimited sk \<Longrightarrow> l = l0"
  obtains n sk1 buf1 where "stuffline sk ((l @ eol) @ NUL # t) = Some (n, sk1, buf1)" "0 \<le> n" "writable sk1"
    "sunk sk1 = sunk sk @ shipped sk l0" "same_kind sk1 sk" "length buf1 = length l + 3 + length t"
proof -
  define w where "w = l @ eol"
  define buf where "buf = w @ NUL # t"
  have w: "length w = length l + 2" by (simp add: w_def eol_def)
  have f: "find_last buf 1 = Some (length w)"
    using find_last_line [of w t] l by (auto simp: buf_def w_def eol_def)
  have cr: "buf ! (length w - 2) = CR" by (simp add: buf_def w_def eol_def nth_append)
  have h: "char_at buf 0 = CHR ''.'' \<longleftrightarrow> char_at l 0 = CHR ''.''"
    by (cases l) (auto simp: buf_def w_def eol_def char_at_def)
  obtain n0 s1 where dot: "stuff_dot sk buf = (has_mda sk \<and> base_delimited sk \<and> char_at l 0 = CHR ''.'', n0, s1)" "0 \<le> n0"
    "writable s1" "same_kind s1 sk"
    "sunk s1 = sunk sk @ (if \<not> has_mda sk \<and> \<not> base_delimited sk \<and> char_at l 0 = CHR ''.'' then ''.'' else [])"
    by (rule stuff_dot_line [OF sk, of buf, unfolded h])
  define k where "k = (if has_mda sk \<and> base_delimited sk \<and> char_at l 0 = CHR ''.'' then 1 else 0 :: nat)"
  have k: "k \<le> length l" by (cases l) (auto simp: k_def)
  have cut: "drop k (take (length w) buf) = drop k w" by (simp add: buf_def)
  have strip: "filter (\<lambda>c. c \<noteq> CR) (drop k w) = drop k l @ [LF]"
  proof -
    have "filter (\<lambda>c. c \<noteq> CR) (drop k l) = drop k l" using l(2) by (auto simp: filter_id_conv dest: in_set_dropD)
    then show ?thesis using k by (simp add: w_def eol_def)
  qed
  define out where "out = (if stripcr sk then drop k l @ [LF] else drop k w)"
  define buf1 where "buf1 = (if stripcr sk then overwrite buf k ((drop k l @ [LF]) @ [NUL]) else buf)"
  obtain s2 where s2: "to_sink s1 out = (int (length out), s2)" "writable s2" "sunk s2 = sunk s1 @ out" "same_kind s2 s1"
    by (rule to_sink_writes [OF dot(3)])
  have cr_there: "(forcecr sk \<and> (length w - 1 = 0 \<or> buf ! (length w - 2) \<noteq> CR)) = False" using cr w by simp
  have "stuffline sk buf = Some (int (length out), s2, buf1)"
  proof (cases "stripcr sk")
    case True
    then have "to_sink s1 (drop k l @ [LF]) = (int (length out), s2)" using s2(1) by (simp add: out_def)
    then show ?thesis unfolding stuffline_def f bind.simps cr_there if_False
      using dot(1,2) True by (simp add: Let_def k_def [symmetric] cut strip buf1_def)
  next
    case False
    then have "to_sink s1 (drop k w) = (int (length out), s2)" using s2(1) by (simp add: out_def)
    then show ?thesis unfolding stuffline_def f bind.simps cr_there if_False
      using dot(1,2) False by (simp add: Let_def k_def [symmetric] cut strip buf1_def)
  qed
  moreover have "sunk s2 = sunk sk @ shipped sk l0"
  proof (cases "base_delimited sk")
    case True
    have "out = (if has_mda sk then l0 else l) @ (if stripcr sk then [LF] else eol)"
      using d(1) [OF True] True k by (auto simp: out_def w_def k_def stuff_def)
    then show ?thesis using True s2(3) dot(5) d(1) by (simp add: shipped_def)
  next
    case False
    then show ?thesis using s2(3) dot(5) d(2) k_def by (auto simp: shipped_def out_def stuff_def w_def)
  qed
  moreover have "length buf1 = length l + 3 + length t"
    using k by (auto simp: buf1_def buf_def w)
  moreover have "same_kind s2 sk" using s2(4) dot(4) by (simp add: same_kind_def)
  ultimately show ?thesis using that s2(2) by (auto simp: buf_def w_def)
qed


text \<open>The read puts the line and a NUL to the front of the buffer and leaves its last cells.\<close>

lemma line_of_eol:
  assumes "LF \<notin> set l" "length l + 2 \<le> n"
  shows "line_of n ((l @ eol) @ rest) = Some (l @ eol)"
proof -
  have "take n ((l @ eol) @ rest) = l @ CR # LF # take (n - (length l + 2)) rest"
  proof -
    obtain k where "n = length l + Suc (Suc k)" using assms(2) le_Suc_ex [of "length l + 2" n] by auto
    then show ?thesis by (simp add: eol_def)
  qed
  moreover have "strchr (l @ CR # LF # x) LF = Some (length l + 1)" for x
    using takeWhile_line [of LF "l @ [CR]" x] assms(1) by (simp add: strchr_def)
  ultimately show ?thesis by (simp add: line_of_def eol_def)
qed

lemma read_line_eol:
  assumes "LF \<notin> set l" "length l + 2 < BODYBUF" "length (rbuf r) = BODYBUF + 4" "inbufp r = 0"
    "inp (rsock r) = (l @ eol) @ rest"
  obtains s t where "read_line r = (int (length l + 2), r\<lparr>rsock := s, rbuf := (l @ eol) @ NUL # t\<rparr>)" "inp s = rest"
    "length t + length l + 3 = BODYBUF + 4"
proof -
  obtain s where s: "SockRead (rsock r) BODYBUF = (int (length (l @ eol)), l @ eol, s)" "inp s = drop (length (l @ eol)) (inp (rsock r))"
  proof -
    have "line_of (BODYBUF - 1) (inp (rsock r)) = Some (l @ eol)"
      unfolding assms(5) using assms(2) by (intro line_of_eol [OF assms(1)]) simp
    moreover have "2 \<le> BODYBUF" by (simp add: BODYBUF_def)
    ultimately show thesis using that SockRead_eq [of BODYBUF "rsock r"] by auto
  qed
  have "inp s = rest" using s(2) assms(5) by simp
  then show ?thesis
    using that [of "drop (length l + 3) (rbuf r)" s] s(1) assms
    by (auto simp: read_line_def eol_def overwrite_def numeral_eq_Suc)
qed

lemma guard_end_line:
  assumes "length w < BODYBUF" "length t + length w + 1 = BODYBUF + 4"
  obtains t1 where "guard_end (w @ NUL # t) = Some (w @ NUL # t1)" "length t1 = length t"
proof -
  obtain k where k: "BODYBUF = length w + Suc k" using assms(1) less_iff_Suc_add by auto
  show ?thesis
    using that [of "t[Suc k := CR, Suc (Suc k) := LF, Suc (Suc (Suc k)) := NUL]"] assms(2)
    by (simp add: guard_end_def k list_update_append numeral_eq_Suc)
qed

lemma body_turn_line:
  assumes l0: "body_line l0" and l: "l = (if delimited then stuff l0 else l0)"
    and r: "rbuf r = (l @ eol) @ NUL # t" "length t + length l + 3 = BODYBUF + 4" "inbufp r = 0" "\<not> issoftline r"
      "writable (rsink r)" "base_delimited (rsink r) = delimited" "\<not> delimited \<Longrightarrow> int (length l + 2) \<le> rlen r"
  obtains r1 where "body_turn delimited False True (int (length l + 2)) r = Some (None, r1)" "rsock r1 = rsock r"
    "length (rbuf r1) = BODYBUF + 4" "inbufp r1 = 0" "\<not> issoftline r1" "writable (rsink r1)" "same_kind (rsink r1) (rsink r)"
    "sunk (rsink r1) = sunk (rsink r) @ shipped (rsink r) l0" "rlen r1 = rlen r - int (length l + 2)"
    "msglen r1 = msglen r + int (length l0 + 2)"
proof -
  have clean: "NUL \<notin> set l" "CR \<notin> set l" "LF \<notin> set l" "length l + 3 < BODYBUF"
    using l0 stuff_clean [OF l0] l by (auto simp: body_line_def)
  define dot where "dot \<longleftrightarrow> delimited \<and> char_at (rbuf r) 0 = CHR ''.''"
  have h: "char_at (rbuf r) 0 = char_at l 0 \<or> l = []"
    by (cases l) (simp_all add: r(1))
  have dot: "dot \<longleftrightarrow> delimited \<and> char_at l0 0 = CHR ''.''"
    using h l l0 r(1) by (cases l0) (auto simp: dot_def stuff_def eol_def)
  have goes_on: "\<not> (dot \<and> empty_line (rbuf r) (Suc 0))"
  proof
    assume "dot \<and> empty_line (rbuf r) (Suc 0)"
    then have d: "delimited" "char_at l0 0 = CHR ''.''" "empty_line (rbuf r) (Suc 0)" by (auto simp: dot)
    then obtain m where "l = CHR ''.'' # CHR ''.'' # m" using l by (cases l0) (auto simp: stuff_def)
    then show False using d(3) r(1) by (simp add: empty_line_def)
  qed
  obtain t1 where g: "guard_end (rbuf r) = Some ((l @ eol) @ NUL # t1)" "length t1 = length t"
    using guard_end_line [of "l @ eol" t] clean(4) r(1,2) by (auto simp: eol_def)
  have "base_delimited (rsink r) \<Longrightarrow> l = stuff l0" "\<not> base_delimited (rsink r) \<Longrightarrow> l = l0" using l r(6) by auto
  then obtain n sk buf where st: "stuffline (rsink r) ((l @ eol) @ NUL # t1) = Some (n, sk, buf)" "0 \<le> n" "writable sk"
    "sunk sk = sunk (rsink r) @ shipped (rsink r) l0" "same_kind sk (rsink r)" "length buf = length l + 3 + length t1"
    by (rule stuffline_line [OF clean(1,2) r(5)])
  have cut: "cut_line delimited r (int (length l + 2)) = Some (int (length l + 2), r)"
    using r(7) by (auto simp: cut_line_def)
  define r1 where "r1 = r\<lparr>rlen := rlen r - int (length l + 2), msglen := msglen r - (if dot then 1 else 0) + int (length l + 2),
    inbufp := 0, rsink := sk, rbuf := buf\<rparr>"
  have "body_turn delimited False True (int (length l + 2)) r = Some (None, r1)"
    unfolding body_turn_def cut bind.simps case_prod_conv
    using goes_on st(1,2) g r(3,4)
    by (simp add: dot_def Let_def decode_line_def rb_send_def PS_SUCCESS_def r1_def)
  moreover have "length l = length l0 + (if dot then 1 else 0)"
    using l dot by (auto simp: stuff_def)
  ultimately show ?thesis
    using that [of r1] st(3-6) r g(2) by (auto simp: r1_def)
qed

lemma delivers_lines:
  assumes "\<forall>l\<in>set ls. body_line l"
    and r: "length (rbuf r) = BODYBUF + 4" "inbufp r = 0" "\<not> issoftline r" "writable (rsink r)"
      "base_delimited (rsink r) = delimited" "inp (rsock r) = wire delimited ls @ rest"
      "\<not> delimited \<Longrightarrow> rlen r = int (length (plain_text ls))"
  shows "\<exists>r1. readbody_loop delimited False True r = Some (PS_SUCCESS, r1) \<and> inp (rsock r1) = rest
    \<and> sunk (rsink r1) = sunk (rsink r) @ concat (map (shipped (rsink r)) ls)
    \<and> msglen r1 = msglen r + int (length (plain_text ls))"
  using assms
proof (induction ls arbitrary: r)
  case Nil
  show ?case
  proof (cases delimited)
    case False
    then show ?thesis using Nil by (simp add: readbody_loop.simps wire_def plain_text_def flush_line_def PS_SUCCESS_def)
  next
    case True
    have "inp (rsock r) = (''.'' @ eol) @ rest" using Nil True by (simp add: wire_def plain_text_def)
    have "LF \<notin> set ''.''" "length ''.'' + 2 < BODYBUF" by (simp_all add: BODYBUF_def)
    then obtain s t where s: "read_line r = (int (length ''.'' + 2), r\<lparr>rsock := s, rbuf := (''.'' @ eol) @ NUL # t\<rparr>)" "inp s = rest"
      by (rule read_line_eol [OF _ _ Nil.prems(2,3) \<open>inp (rsock r) = (''.'' @ eol) @ rest\<close>])
    have "empty_line ((''.'' @ eol) @ NUL # t) (0 + 1)" by (simp add: empty_line_def eol_def)
    then show ?thesis using s Nil True
      by (subst readbody_loop.simps)
        (simp add: body_turn_def cut_line_def Let_def flush_line_def PS_SUCCESS_def plain_text_def eol_def)
  qed
next
  case (Cons l0 ls)
  define l where "l = (if delimited then stuff l0 else l0)"
  have l0: "body_line l0" using Cons.prems(1) by simp
  have clean: "NUL \<notin> set l" "CR \<notin> set l" "LF \<notin> set l" "length l + 3 < BODYBUF"
    using l0 stuff_clean [OF l0] by (auto simp: body_line_def l_def)
  have i: "inp (rsock r) = (l @ eol) @ (wire delimited ls @ rest)"
    using Cons.prems(7) by (simp add: wire_def plain_text_def l_def)
  have "length l + 2 < BODYBUF" using clean(4) by simp
  then obtain s t where s: "read_line r = (int (length l + 2), r\<lparr>rsock := s, rbuf := (l @ eol) @ NUL # t\<rparr>)"
    "inp s = wire delimited ls @ rest" "length t + length l + 3 = BODYBUF + 4"
    by (rule read_line_eol [OF clean(3) _ Cons.prems(2,3) i])
  define r0 where "r0 = r\<lparr>rsock := s, rbuf := (l @ eol) @ NUL # t\<rparr>"
  have r0: "rbuf r0 = (l @ eol) @ NUL # t" "inbufp r0 = 0" "\<not> issoftline r0" "writable (rsink r0)"
      "base_delimited (rsink r0) = delimited" "\<not> delimited \<Longrightarrow> int (length l + 2) \<le> rlen r0" "rsock r0 = s"
      "rsink r0 = rsink r" "rlen r0 = rlen r" "msglen r0 = msglen r"
    using Cons.prems by (auto simp: r0_def plain_text_def l_def eol_def)
  obtain r1 where r1: "body_turn delimited False True (int (length l + 2)) r0 = Some (None, r1)" "rsock r1 = rsock r0"
    "length (rbuf r1) = BODYBUF + 4" "inbufp r1 = 0" "\<not> issoftline r1" "writable (rsink r1)" "same_kind (rsink r1) (rsink r0)"
    "sunk (rsink r1) = sunk (rsink r0) @ shipped (rsink r0) l0" "rlen r1 = rlen r0 - int (length l + 2)"
    "msglen r1 = msglen r0 + int (length l0 + 2)"
    by (rule body_turn_line [OF l0 l_def r0(1) s(3) r0(2-6)])
  have "base_delimited (rsink r1) = delimited" using r1(7) r0(5) by (simp add: same_kind_def)
  moreover have "inp (rsock r1) = wire delimited ls @ rest" using r1(2) r0(7) s(2) by simp
  moreover have "rlen r1 = int (length (plain_text ls))" if "\<not> delimited"
    using that r1(9) r0(9) Cons.prems(8) by (simp add: plain_text_def l_def eol_def)
  ultimately obtain r2 where r2: "readbody_loop delimited False True r1 = Some (PS_SUCCESS, r2)" "inp (rsock r2) = rest"
    "sunk (rsink r2) = sunk (rsink r1) @ concat (map (shipped (rsink r1)) ls)" "msglen r2 = msglen r1 + int (length (plain_text ls))"
    using Cons.IH [of r1] Cons.prems(1) r1(3-6) by auto
  have more: "\<not> (\<not> delimited \<and> \<not> rlen r > 0)"
    using Cons.prems(8) by (cases delimited) (simp_all add: plain_text_def eol_def)
  have "readbody_loop delimited False True r = Some (PS_SUCCESS, r2)"
    using r2(1) r1(1) by (subst readbody_loop.simps) (simp only: more s(1) r0_def [symmetric] if_False prod.case option.case, simp)
  moreover have "shipped (rsink r1) = shipped (rsink r)" using same_kind_shipped [OF r1(7)] r0(8) by simp
  ultimately show ?case using r2 r1(8,10) r0(8,10) by (simp add: plain_text_def eol_def)
qed


text \<open>
  C3. A body of whole lines reaches the sink unchanged, in the form the sink expects, whatever the protocol of the
  server: POP3 sends it with its dots escaped up to the line with the single dot, IMAP as it is and with its length;
  a delivery agent gets the lines themselves, an SMTP listener and a BSMTP file get them with exactly one escape for
  a leading dot (with the line ends of the option \<open>stripcr\<close>). What the server sends behind the body is left
  to the next read, and \<open>msglen\<close> grows by the length of the body without the escapes.
\<close>

theorem readbody_delivers:
  assumes "\<forall>l\<in>set ls. body_line l" "length (rbuf r) = BODYBUF + 4" "writable (rsink r)"
    "inp (rsock r) = wire (base_delimited (rsink r)) ls @ rest"
    "base_delimited (rsink r) \<or> len = int (length (plain_text ls))"
  shows "\<exists>r1. readbody (base_delimited (rsink r)) False True len r = Some (PS_SUCCESS, r1) \<and> inp (rsock r1) = rest
    \<and> sunk (rsink r1) = sunk (rsink r) @ concat (map (shipped (rsink r)) ls)
    \<and> msglen r1 = msglen r + int (length (plain_text ls))"
  unfolding readbody_def
  using delivers_lines [of ls "r\<lparr>inbufp := 0, issoftline := False, rlen := len\<rparr>" "base_delimited (rsink r)" rest] assms
  by auto

definition text_part :: body where
  "text_part = \<lparr>BodyState = S_BODY_DATA, CurrEncodingIsQP = False, CurrTypeNeedsDecode = True, MultipartDelimiter = [], scanner = nxt_init 1000\<rparr>"

definition sample_reader :: "bool \<Rightarrow> bool \<Rightarrow> string \<Rightarrow> body \<Rightarrow> reader" where
  "sample_reader delimited agent text b =
     \<lparr>rsock = \<lparr>inp = text, avail = [], wroom = [], outp = []\<rparr>,
      rsink = \<lparr>smtp_socket = (if agent then None else Some \<lparr>inp = [], avail = [], wroom = [3], outp = []\<rparr>), file_out = [],
        file_bad = False, has_mda = agent, has_bsmtp = False, base_delimited = delimited, forcecr = False, stripcr = False\<rparr>,
      rbuf = replicate (BODYBUF + 4) (CHR ''?''), inbufp = 0, issoftline = False, rlen = 0, msglen = 0, rbody = b\<rparr>"

theorem readbody_delivers_witness:
  "\<exists>r1. readbody True False True 0 (sample_reader True True (''..a'' @ eol @ ''b'' @ eol @ ''.'' @ eol @ ''+OK'') text_part) = Some (PS_SUCCESS, r1)
     \<and> inp (rsock r1) = ''+OK'' \<and> sunk (rsink r1) = ''.a'' @ eol @ ''b'' @ eol"
proof -
  let ?r = "sample_reader True True (''..a'' @ eol @ ''b'' @ eol @ ''.'' @ eol @ ''+OK'') text_part"
  have "\<forall>l\<in>set [''.a'', ''b'']. body_line l" by (simp add: body_line_def BODYBUF_def)
  from readbody_delivers [OF this, of ?r "''+OK''" 0]
  show ?thesis
    by (auto simp: sample_reader_def writable_def wire_def plain_text_def stuff_def sunk_def shipped_def eol_def)
qed

subsection \<open>Lines that do not fit\<close>

lemma find_last_step:
  assumes "drop i buf = w @ NUL # t" "NUL \<notin> set w" "0 < i + length w"
  shows "find_last buf i = (if buf ! (i + length w - 1) = LF then Some (i + length w) else find_last buf (i + length w + 1))"
proof -
  have "takeWhile (\<lambda>c. c \<noteq> NUL) (w @ NUL # t) = w"
    using assms(2) by (intro takeWhile_append2 [THEN trans]) auto
  then have "cell_len buf i = Some (length w)" by (simp add: cell_len_def assms(1) Let_def)
  then show ?thesis using assms(3) by (subst find_last.simps) (auto simp: Let_def)
qed

lemma long_find_last:
  assumes "NUL \<notin> set l" "length l = BODYBUF - 1" "LF \<notin> set l"
  shows "find_last (l @ [NUL, x, CR, LF, NUL]) 1 = Some (BODYBUF + 3)"
proof -
  define b where "b = l @ [NUL, x, CR, LF, NUL]"
  define n where "n = length l"
  have n: "0 < n" "BODYBUF = n + 1" using assms(2) by (simp_all add: n_def BODYBUF_def)
  have nth: "b ! n = NUL" "b ! (n + 3) = LF" "b ! (n - 1) = l ! (n - 1)"
    using n(1) by (simp_all add: b_def n_def nth_append)
  have "l ! (n - 1) \<noteq> LF" using assms(3) n(1) by (metis n_def nth_mem diff_less zero_less_one)
  moreover have "drop 1 b = drop 1 l @ NUL # [x, CR, LF, NUL]" "NUL \<notin> set (drop 1 l)"
    using n(1) assms(1) by (cases l; auto simp: b_def n_def)+
  ultimately have 1: "find_last b 1 = find_last b (n + 1)"
    using find_last_step [of 1 b "drop 1 l" "[x, CR, LF, NUL]"] n(1) nth(3) by (auto simp: n_def)
  have 2: "find_last b (n + 2) = Some (n + 4)"
    using nth(2) find_last_step [of "n + 2" b "[CR, LF]" "[]"] by (simp add: b_def n_def eval_nat_numeral)
  have 3: "find_last b (n + 1) = Some (n + 4)"
  proof (cases "x = NUL")
    case True
    then show ?thesis using 2 nth(1) by (subst find_last_step [where w="[]" and t="[CR, LF, NUL]"]) (simp_all add: b_def n_def)
  next
    case False
    then show ?thesis using nth(2) find_last_step [of "n + 1" b "[x, CR, LF]" "[]"] by (simp add: b_def n_def eval_nat_numeral)
  qed
  show ?thesis using 1 3 n(2) by (simp add: b_def)
qed


lemma read_line_long:
  assumes "LF \<notin> set l" "length l = BODYBUF - 1" "length (rbuf r) = BODYBUF + 4" "inbufp r = 0" "inp (rsock r) = l @ rest"
  obtains s where "read_line r = (int (length l), r\<lparr>rsock := s, rbuf := l @ NUL # drop BODYBUF (rbuf r)\<rparr>)" "inp s = rest"
proof -
  have "line_of (BODYBUF - 1) (inp (rsock r)) = Some l"
    using assms(1,2,5) by (simp add: line_of_def strchr_def)
  moreover have "2 \<le> BODYBUF" by (simp add: BODYBUF_def)
  ultimately obtain s where s: "SockRead (rsock r) BODYBUF = (int (length l), l, s)" "inp s = rest"
    using SockRead_eq [of BODYBUF "rsock r"] assms(5) by auto
  have "Suc (length l) = BODYBUF" using assms(2) by (simp add: BODYBUF_def)
  then show ?thesis using that [of s] s assms(4) by (simp add: read_line_def overwrite_def)
qed

text \<open>
  A line that is as long as the buffer comes out of \<open>stuffline\<close> with four cells more: the NUL of the read, a cell
  of the stack that nothing was ever stored in, and the line end that is put there to stop the search for the end.
  The rest of the line follows as a line of its own.
\<close>

theorem long_line_ships_stale:
  assumes "length l = BODYBUF - 1" "NUL \<notin> set l" "LF \<notin> set l" "char_at l 0 \<noteq> CHR ''.''" "length (rbuf r) = BODYBUF + 4"
    "inbufp r = 0" "\<not> issoftline r" "writable (rsink r)" "\<not> stripcr (rsink r)" "inp (rsock r) = l @ rest" "delimited \<or> int (length l) \<le> rlen r"
  shows "\<exists>n r1 r2. read_line r = (n, r1) \<and> body_turn delimited False True n r1 = Some (None, r2) \<and> inp (rsock r2) = rest
    \<and> sunk (rsink r2) = sunk (rsink r) @ l @ [NUL, rbuf r ! BODYBUF, CR, LF]"
proof -
  obtain s where s: "read_line r = (int (length l), r\<lparr>rsock := s, rbuf := l @ NUL # drop BODYBUF (rbuf r)\<rparr>)" "inp s = rest"
    by (rule read_line_long [OF assms(3,1,5,6,10)])
  define r1 where "r1 = r\<lparr>rsock := s, rbuf := l @ NUL # drop BODYBUF (rbuf r)\<rparr>"
  obtain x y z w where t: "drop BODYBUF (rbuf r) = [x, y, z, w]" 
  proof -
    have "length (drop BODYBUF (rbuf r)) = Suc (Suc (Suc (Suc 0)))" using assms(5) by simp
    then obtain x y z w where "drop BODYBUF (rbuf r) = [x, y, z, w]"
      unfolding length_Suc_conv length_0_conv by blast
    then show thesis by (rule that)
  qed
  have x: "x = rbuf r ! BODYBUF" using t assms(5) by (metis hd_drop_conv_nth less_add_same_cancel1 list.sel(1) zero_less_numeral)
  define b where "b = l @ [NUL, x, CR, LF, NUL]"
  have g: "guard_end (rbuf r1) = Some b"
    using assms(1) t [unfolded BODYBUF_def] by (simp add: guard_end_def r1_def b_def list_update_append BODYBUF_def)
  have c: "char_at (rbuf r1) 0 \<noteq> CHR ''.''" "char_at b 0 \<noteq> CHR ''.''" "b ! (BODYBUF + 3 - 2) = CR"
    using assms(1,4) by (cases l; simp add: r1_def b_def BODYBUF_def nth_append)+
  define n where "n = length (l @ [NUL, x, CR, LF])"
  obtain sk where sk: "to_sink (rsink r) (l @ [NUL, x, CR, LF]) = (int n, sk)"
    "sunk sk = sunk (rsink r) @ l @ [NUL, x, CR, LF]"
    unfolding n_def by (rule to_sink_writes [OF assms(8), of "l @ [NUL, x, CR, LF]"])
  have f: "find_last b 1 = Some (BODYBUF + 3)" using long_find_last [OF assms(2,1,3)] by (simp add: b_def)
  have tk: "take (BODYBUF + 3) b = l @ [NUL, x, CR, LF]" using assms(1) by (simp add: b_def BODYBUF_def)
  have cr_there: "(forcecr (rsink r) \<and> (BODYBUF + 3 - 1 = 0 \<or> b ! (BODYBUF + 3 - 2) \<noteq> CR)) = False" using c(3) by (simp add: BODYBUF_def)
  have st: "stuffline (rsink r) b = Some (int n, sk, b)"
    unfolding stuffline_def f bind.simps cr_there if_False
    using c(2) sk(1) assms(9) by (simp add: stuff_dot_def Let_def tk)
  have cut: "cut_line delimited r1 (int (length l)) = Some (int (length l), r1)"
    using assms(11) by (auto simp: cut_line_def r1_def)
  obtain r2 where "body_turn delimited False True (int (length l)) r1 = Some (None, r2)" "rsock r2 = s" "rsink r2 = sk"
    unfolding body_turn_def cut bind.simps case_prod_conv
    using g st c(1) assms(6,7) by (auto simp: Let_def decode_line_def rb_send_def PS_SUCCESS_def r1_def)
  then show ?thesis using s sk(2) by (auto simp: r1_def x)
qed


definition long_line :: string where "long_line = replicate (BODYBUF - 1) (CHR ''a'')"

theorem long_line_ships_stale_witness:
  "\<exists>n r1 r2. read_line (sample_reader True False (long_line @ ''b'') text_part) = (n, r1)
     \<and> body_turn True False True n r1 = Some (None, r2) \<and> inp (rsock r2) = ''b''
     \<and> sunk (rsink r2) = long_line @ [NUL, CHR ''?'', CR, LF]"
proof -
  let ?r = "sample_reader True False (long_line @ ''b'') text_part"
  have l: "length long_line = BODYBUF - 1" "NUL \<notin> set long_line" "LF \<notin> set long_line" "char_at long_line 0 \<noteq> CHR ''.''"
    by (simp_all add: long_line_def char_at_def BODYBUF_def)
  have r: "length (rbuf ?r) = BODYBUF + 4" "inbufp ?r = 0" "\<not> issoftline ?r" "writable (rsink ?r)" "\<not> stripcr (rsink ?r)"
    "inp (rsock ?r) = long_line @ ''b''" "rbuf ?r ! BODYBUF = CHR ''?''" "sunk (rsink ?r) = []"
    by (simp_all add: sample_reader_def writable_def sunk_def)
  show ?thesis using long_line_ships_stale [OF l r(1-6), of True] r(7,8) by simp
qed

subsection \<open>A refused message that is decoded\<close>

text \<open>A body of single parts that needs no quoted-printable decoding: the pointer stays behind the line.\<close>

definition plain_part :: "body \<Rightarrow> bool" where
  "plain_part b \<longleftrightarrow> BodyState b = S_BODY_DATA \<and> MultipartDelimiter b = [] \<and> \<not> (CurrEncodingIsQP b \<and> CurrTypeNeedsDecode b)"

lemma decode_line_plain:
  assumes "plain_part (rbody r)" "rbuf r = take (inbufp r) (rbuf r) @ w @ NUL # t" "inbufp r \<le> length (rbuf r)" "NUL \<notin> set w"
  shows "decode_line delimited True r = Some (r\<lparr>inbufp := inbufp r + length w, issoftline := False\<rparr>)"
proof -
  have d: "drop (inbufp r) (rbuf r) = w @ NUL # t"
    using arg_cong [OF assms(2), of "drop (inbufp r)"] assms(3) by simp
  have "str_at (w @ NUL # t) 0 = w" using assms(4) cstr_of_append_NUL [of w t] by (simp add: str_at_def c_string_def)
  then have "UnMimeBodyline (w @ NUL # t) delimited (issoftline r) (rbody r) = Some (False, length w, w @ NUL # t, rbody r)"
    using assms(1) by (auto simp: UnMimeBodyline_def plain_part_def cstr_of_def Let_def)
  then show ?thesis using d by (simp add: decode_line_def Let_def assms(2) [symmetric])
qed

lemma line_of_long:
  assumes "n \<le> length s" "0 < n"
  obtains w where "line_of n s = Some w" "w \<noteq> []" "length w \<le> n" "w = take (length w) s"
proof (cases "strchr (take n s) LF")
  case None
  then have "line_of n s = Some (take n s)" using assms by (simp add: line_of_def)
  moreover have "length (take n s) = n" using assms by simp
  ultimately show ?thesis using that [of "take n s"] assms by (metis le_refl length_0_conv not_less)
next
  case (Some i)
  then have "i < n" "i < length s" using strchr_split [OF Some] by simp_all
  moreover have "line_of n s = Some (take (i + 1) s)" using Some by (simp add: line_of_def)
  moreover have "length (take (i + 1) s) = i + 1" using calculation by simp
  ultimately show ?thesis using that [of "take (i + 1) s"] by (metis Suc_eq_plus1 Suc_leI length_0_conv nat.simps(3))
qed

lemma refused_fills:
  assumes "plain_part (rbody r)" "length (rbuf r) = BODYBUF + 4" "inbufp r \<le> BODYBUF - 1"
    "BODYBUF - 1 - inbufp r \<le> length (inp (rsock r))"
    "NUL \<notin> set (take (BODYBUF - 1 - inbufp r) (inp (rsock r)))"
    "CHR ''.'' \<notin> set (take (BODYBUF - 1 - inbufp r) (inp (rsock r)))"
  shows "\<exists>r1. readbody_loop True True False r = Some (PS_SOCKET, r1)"
  using assms
proof (induction "BODYBUF - inbufp r" arbitrary: r rule: less_induct)
  case less
  define p where "p = inbufp r"
  define m where "m = BODYBUF - 1 - p"
  show ?case
  proof (cases "m = 0")
    case True
    then have "BODYBUF - p - 1 < 1" by (simp add: m_def)
    then have "SockRead (rsock r) (BODYBUF - p) = (-1, [], rsock r)" by (simp add: SockRead_def)
    then show ?thesis by (subst readbody_loop.simps) (simp add: read_line_def p_def)
  next
    case False
    obtain w where w: "line_of m (inp (rsock r)) = Some w" "w \<noteq> []" "length w \<le> m" "w = take (length w) (inp (rsock r))"
      using line_of_long [of m "inp (rsock r)"] less.prems(4) False by (auto simp: m_def p_def)
    have sub: "set w \<subseteq> set (take m (inp (rsock r)))" using w(3,4) by (metis set_take_subset_set_take)
    have clean: "NUL \<notin> set w" "CHR ''.'' \<notin> set w" using sub less.prems(5,6) by (auto simp: m_def p_def)
    have two: "2 \<le> BODYBUF - p" "BODYBUF - p - 1 = m" using False by (auto simp: m_def)
    obtain s where s: "SockRead (rsock r) (BODYBUF - p) = (int (length w), w, s)" "inp s = drop (length w) (inp (rsock r))"
      using SockRead_eq [OF two(1), of "rsock r"] two(2) w(1) by auto
    have fit: "p + length w + 1 \<le> BODYBUF" using w(3) two by (simp add: m_def)
    define buf where "buf = overwrite (rbuf r) p (w @ [NUL])"
    have buf: "length buf = BODYBUF + 4" "buf = take p buf @ w @ NUL # drop (p + length w + 1) (rbuf r)"
      using fit less.prems(2) by (auto simp: buf_def overwrite_def)
    define r1 where "r1 = r\<lparr>rsock := s, rbuf := buf\<rparr>"
    have rd: "read_line r = (int (length w), r1)"
      using s(1) by (simp add: read_line_def p_def [symmetric] buf_def r1_def)
    define r2 where "r2 = r1\<lparr>rlen := rlen r - int (length w), msglen := msglen r + int (length w), inbufp := p + length w, issoftline := False\<rparr>"
    have nodot: "char_at buf p \<noteq> CHR ''.''"
    proof -
      have "buf ! p = hd w" by (subst buf(2)) (use w(2) fit buf(1) in \<open>simp add: nth_append hd_conv_nth\<close>)
      moreover have "hd w \<noteq> CHR ''.''" using clean(2) hd_in_set [OF w(2)] by metis
      ultimately show ?thesis by (simp add: char_at_def)
    qed
    have cut: "cut_line True r1 (int (length w)) = Some (int (length w), r1)" by (simp add: cut_line_def)
    have dec: "decode_line True True (r1\<lparr>rlen := rlen r - int (length w), msglen := msglen r + int (length w)\<rparr>) = Some r2"
      using less.prems(1) fit buf clean(1)
      by (subst decode_line_plain [where w=w and t="drop (p + length w + 1) (rbuf r)"]) (simp_all add: r1_def r2_def p_def [symmetric])
    have turn: "body_turn True True False (int (length w)) r1 = Some (None, r2)"
      unfolding body_turn_def cut bind.simps case_prod_conv
      using dec nodot by (simp add: Let_def r1_def p_def)
    have "\<exists>r3. readbody_loop True True False r2 = Some (PS_SOCKET, r3)"
    proof (rule less.hyps)
      have "0 < length w" using w(2) by blast
      then show "BODYBUF - inbufp r2 < BODYBUF - inbufp r" using fit unfolding r2_def p_def by (simp del: length_greater_0_conv)
      have "BODYBUF - 1 - inbufp r2 = m - length w" by (simp add: r2_def m_def)
      then have "take (BODYBUF - 1 - inbufp r2) (inp (rsock r2)) = drop (length w) (take m (inp (rsock r)))"
        by (simp add: drop_take r2_def r1_def s(2))
      then have "set (take (BODYBUF - 1 - inbufp r2) (inp (rsock r2))) \<subseteq> set (take (BODYBUF - 1 - inbufp r) (inp (rsock r)))"
        by (simp add: m_def p_def set_drop_subset)
      then show "NUL \<notin> set (take (BODYBUF - 1 - inbufp r2) (inp (rsock r2)))" "CHR ''.'' \<notin> set (take (BODYBUF - 1 - inbufp r2) (inp (rsock r2)))"
        using less.prems(5,6) by auto
    qed (use less.prems fit buf(1) in \<open>auto simp: r2_def r1_def s(2) p_def\<close>)
    then show ?thesis using rd turn by (subst readbody_loop.simps) simp
  qed
qed





end
