(* ===== verification/HeaderProps.thy ===== *)
theory HeaderProps
  imports HeaderShip BodyProps
begin

section \<open>The lines of the headers\<close>

subsection \<open>Headers on the wire\<close>

text \<open>A header is a line and its continuations; each of them fits into the buffer.\<close>

definition header_part :: "string \<Rightarrow> bool" where
  "header_part p \<longleftrightarrow> NUL \<notin> set p \<and> CR \<notin> set p \<and> LF \<notin> set p \<and> length p + 3 < MSGBUFSIZE"

definition continuation :: "string \<Rightarrow> bool" where
  "continuation p \<longleftrightarrow> header_part p \<and> p \<noteq> [] \<and> (hd p = SP \<or> hd p = CHR 0x09)"

fun header_ok :: "string list \<Rightarrow> bool" where
  "header_ok [] = False"
| "header_ok (p # ps) \<longleftrightarrow>
     header_part p \<and> p \<noteq> [] \<and> hd p \<noteq> SP \<and> hd p \<noteq> CHR 0x09 \<and> hd p \<noteq> CHR ''.'' \<and> CHR '':'' \<in> set p \<and> list_all continuation ps"

definition header_text :: "string list \<Rightarrow> string" where
  "header_text ps = concat (map (\<lambda>p. p @ eol) ps)"

lemma read_chunk_line:
  assumes "header_part p" "inp (hsock r) = p @ eol @ rest"
  obtains s c where "read_chunk r = Some (p @ eol, r\<lparr>hsock := s, cells := c\<rparr>)" "inp s = rest"
proof -
  have l: "LF \<notin> set p" "length p + 2 \<le> MSGBUFSIZE - 1" using assms(1) by (auto simp: header_part_def)
  have i: "inp (hsock r) = (p @ eol) @ rest" using assms(2) by simp
  have "line_of (MSGBUFSIZE - 1) (inp (hsock r)) = Some (p @ eol)" unfolding i by (rule line_of_eol [OF l])
  moreover have "2 \<le> MSGBUFSIZE" by (simp add: MSGBUFSIZE_def)
  ultimately obtain s where s: "SockRead (hsock r) MSGBUFSIZE = (int (length (p @ eol)), p @ eol, s)"
      "inp s = drop (length (p @ eol)) (inp (hsock r))"
    using SockRead_eq [of MSGBUFSIZE "hsock r"] by auto
  have kept: "filter (\<lambda>c. c \<noteq> NUL) (p @ eol) = p @ eol" using assms(1) by (auto simp: header_part_def eol_def filter_id_conv)
  have ne: "p @ eol \<noteq> []" by (simp add: eol_def)
  have n: "int (length (p @ eol)) \<noteq> -1" by simp
  show ?thesis
    using that [of "overwrite (overwrite (cells r) 0 ((p @ eol) @ [NUL])) 0 ((p @ eol) @ [NUL])" s] s(2) assms(2)
    by (simp only: read_chunk.simps [of r] s(1) case_prod_conv Let_def kept ne n if_False) simp
qed

lemma peek_first: "inp s = c # x \<Longrightarrow> SockPeek junk s = c"
  by (simp add: SockPeek_def)

lemma fixed_end_eol: "fixed_end cr (p @ eol) = p @ eol"
  by (simp add: fixed_end_def eol_def nth_append)

text \<open>One part of a header, with what comes behind it.\<close>

lemma read_part:
  assumes "header_part p" "inp (hsock r) = p @ eol @ c # x" "\<not> end_of_header (l @ p @ eol)" "hd (l @ p @ eol) \<noteq> CHR ''.''"
    "\<not> bad_line q (l @ p @ eol)"
  obtains r1 where "read_header_line q False l r
      = (if c = SP \<or> c = CHR 0x09 then read_header_line q False (l @ p @ eol) r1 else Whole (l @ p @ eol) False r1)"
    "inp (hsock r1) = c # x" "remaining r1 = remaining r - int (length (p @ eol))"
proof -
  obtain s b where s: "read_chunk r = Some (p @ eol, r\<lparr>hsock := s, cells := b\<rparr>)" "inp s = c # x"
    by (rule read_chunk_line [OF assms(1,2)])
  have "last (p @ eol) = LF" by (simp add: eol_def)
  then show ?thesis
    using that s assms(3-5) by (simp add: read_header_line.simps [of q False l r] Let_def fixed_end_eol peek_first)
qed

lemma read_rest_of_header:
  "list_all continuation ps \<Longrightarrow> inp (hsock r) = header_text ps @ c # x \<Longrightarrow> ps \<noteq> [] \<Longrightarrow> c \<noteq> SP \<Longrightarrow> c \<noteq> CHR 0x09 \<Longrightarrow>
   l \<noteq> [] \<Longrightarrow> hd l \<noteq> CR \<Longrightarrow> hd l \<noteq> LF \<Longrightarrow> hd l \<noteq> CHR ''.'' \<Longrightarrow> CHR '':'' \<in> set l \<Longrightarrow>
   \<exists>r1. read_header_line q False l r = Whole (l @ header_text ps) False r1 \<and> inp (hsock r1) = c # x
     \<and> remaining r1 = remaining r - int (length (header_text ps))"
proof (induction ps arbitrary: l r)
  case (Cons p ps)
  have p: "header_part p" using Cons.prems(1) by (simp add: continuation_def)
  obtain d y where d: "header_text ps @ c # x = d # y" "(d = SP \<or> d = CHR 0x09) = (ps \<noteq> [])"
  proof (cases ps)
    case Nil
    then show thesis using that [of c x] Cons.prems(4,5) by (simp add: header_text_def)
  next
    case (Cons a as)
    then have "a \<noteq> []" "hd a = SP \<or> hd a = CHR 0x09" using Cons.prems(1) by (auto simp: continuation_def)
    then show thesis using that Cons by (cases a) (auto simp: header_text_def)
  qed
  have i: "inp (hsock r) = p @ eol @ d # y" using Cons.prems(2) d(1) by (simp add: header_text_def)
  have e: "\<not> end_of_header (l @ p @ eol)" using Cons.prems(6-8) by (cases l) (auto simp: end_of_header_def eol_def)
  have h: "hd (l @ p @ eol) \<noteq> CHR ''.''" using Cons.prems(6,9) by simp
  have b: "\<not> bad_line q (l @ p @ eol)" using Cons.prems(10) by (auto simp: bad_line_def strchr_def)
  obtain r1 where r1: "read_header_line q False l r
      = (if d = SP \<or> d = CHR 0x09 then read_header_line q False (l @ p @ eol) r1 else Whole (l @ p @ eol) False r1)"
      "inp (hsock r1) = d # y" "remaining r1 = remaining r - int (length (p @ eol))"
    by (rule read_part [OF p i e h b])
  show ?case
  proof (cases ps)
    case Nil
    then show ?thesis using r1 d by (auto simp: header_text_def)
  next
    case (Cons a as)
    have "\<exists>r2. read_header_line q False (l @ p @ eol) r1 = Whole ((l @ p @ eol) @ header_text ps) False r2 \<and> inp (hsock r2) = c # x
        \<and> remaining r2 = remaining r1 - int (length (header_text ps))"
      using Cons.prems r1(2) d(1) Cons by (intro Cons.IH) auto
    then show ?thesis using r1 d(2) Cons by (auto simp: header_text_def)
  qed
qed simp

lemma read_header:
  assumes "header_ok ps" "inp (hsock r) = header_text ps @ c # x" "c \<noteq> SP" "c \<noteq> CHR 0x09"
  obtains r1 where "read_header_line q False [] r = Whole (header_text ps) False r1" "inp (hsock r1) = c # x"
    "remaining r1 = remaining r - int (length (header_text ps))"
proof -
  obtain p ps1 where ps: "ps = p # ps1" using assms(1) by (cases ps) auto
  have p: "header_part p" "p \<noteq> []" "hd p \<noteq> CHR ''.''" "CHR '':'' \<in> set p" "list_all continuation ps1" "CR \<notin> set p" "LF \<notin> set p"
    using assms(1) ps by (auto simp: header_part_def)
  then have h: "hd p \<noteq> CR" "hd p \<noteq> LF" by (metis list.set_sel(1))+
  obtain d y where d: "header_text ps1 @ c # x = d # y" "(d = SP \<or> d = CHR 0x09) = (ps1 \<noteq> [])"
  proof (cases ps1)
    case Nil
    then show thesis using that [of c x] assms(3,4) by (simp add: header_text_def)
  next
    case (Cons a as)
    then have "a \<noteq> []" "hd a = SP \<or> hd a = CHR 0x09" using p(5) by (auto simp: continuation_def)
    then show thesis using that Cons by (cases a) (auto simp: header_text_def)
  qed
  have i: "inp (hsock r) = p @ eol @ d # y" using assms(2) d(1) ps by (simp add: header_text_def)
  have e: "\<not> end_of_header ([] @ p @ eol)" using p(2) h by (cases p) (auto simp: end_of_header_def eol_def)
  have dot: "hd ([] @ p @ eol) \<noteq> CHR ''.''" using p(2,3) by simp
  have b: "\<not> bad_line q ([] @ p @ eol)" using p(4) by (auto simp: bad_line_def strchr_def)
  obtain r1 where r1: "read_header_line q False [] r
      = (if d = SP \<or> d = CHR 0x09 then read_header_line q False ([] @ p @ eol) r1 else Whole ([] @ p @ eol) False r1)"
      "inp (hsock r1) = d # y" "remaining r1 = remaining r - int (length (p @ eol))"
    by (rule read_part [OF p(1) i e dot b])
  show ?thesis
  proof (cases "ps1 = []")
    case True
    then show ?thesis using that [of r1] r1 d ps by (auto simp: header_text_def)
  next
    case False
    have i1: "inp (hsock r1) = header_text ps1 @ c # x" using r1(2) d(1) by simp
    have "\<exists>r2. read_header_line q False (p @ eol) r1 = Whole ((p @ eol) @ header_text ps1) False r2 \<and> inp (hsock r2) = c # x
        \<and> remaining r2 = remaining r1 - int (length (header_text ps1))"
      by (rule read_rest_of_header [OF p(5) i1 False assms(3,4)]) (use p h in auto)
    then show ?thesis using that r1 d(2) False ps by (auto simp: header_text_def)
  qed
qed

lemma read_blank:
  assumes "inp (hsock r) = eol @ rest"
  obtains r1 where "read_header_line q f [] r = Ended eol f False r1" "inp (hsock r1) = rest"
proof -
  obtain s b where s: "read_chunk r = Some ([] @ eol, r\<lparr>hsock := s, cells := b\<rparr>)" "inp s = rest"
    by (rule read_chunk_line [of "[]"]) (use assms in \<open>auto simp: header_part_def MSGBUFSIZE_def\<close>)
  let ?r1 = "r\<lparr>hsock := s, cells := b, remaining := remaining r - int (length eol), size_read := size_read r + int (length eol)\<rparr>"
  have e: "fixed_end (add_cr q) eol = eol" "last eol = LF" "end_of_header eol"
    using fixed_end_eol [of _ "[]"] by (simp_all add: end_of_header_def eol_def)
  have "read_header_line q f [] r = Ended eol f False ?r1"
    using s(1) e by (subst read_header_line.simps) (simp add: Let_def)
  then show ?thesis using that s(2) by simp
qed

subsection \<open>The loop is a fold over the headers\<close>

fun feed_headers :: "header_options \<Rightarrow> int \<Rightarrow> string list list \<Rightarrow> collecting \<Rightarrow> collecting option" where
  "feed_headers q num [] st = Some st"
| "feed_headers q num (h # hs) st = Option.bind (header_line q num (header_text h) st) (feed_headers q num hs)"

definition headers_text :: "string list list \<Rightarrow> string" where
  "headers_text hs = concat (map header_text hs)"

lemma note_refuse [simp]:
  "refuse_mail (note_sender l i st) = refuse_mail st" "refuse_mail (note_envelope q l i e st) = refuse_mail st"
  "refuse_mail (take_delivered q l st) = refuse_mail st"
  by (auto simp: note_sender_def note_envelope_def take_delivered_def Let_def split: option.splits env_option.splits)

lemma note_recipient_refuse: "note_recipient q l i st = Some st1 \<Longrightarrow> refuse_mail st1 = refuse_mail st"
  by (auto simp: note_recipient_def note_received_def split: if_splits env_option.splits bind_splits)

lemma stash_path_refuse: "stash_path q l st = Some (b, st1) \<Longrightarrow> refuse_mail st1 = refuse_mail st"
  by (auto simp: stash_path_def split: if_splits option.splits)

lemma append_line_refuse: "append_line q l st = Some st1 \<Longrightarrow> refuse_mail st1 = refuse_mail st"
  unfolding append_line_def Let_def by (drule note_recipient_refuse) simp

lemma header_line_cases:
  fixes st s0 s1 s2 st1 :: collecting
  assumes "(if A then Some st else if B then Some s1 else if C then Some s0 else if D then Some s2 else if E then Some s0
      else do { l1 \<leftarrow> x; (b, s3) \<leftarrow> f l1; if b then g l1 s3 else Some s3 }) = Some st1"
  shows "st1 = st \<or> st1 = s1 \<or> st1 = s0 \<or> st1 = s2 \<or> (\<exists>l1 b s3. f l1 = Some (b, s3) \<and> (st1 = s3 \<or> g l1 s3 = Some st1))"
  using assms by (auto simp: Option.bind_eq_Some_conv split: if_split_asm)

lemma header_line_refuse:
  assumes "header_line q num l st = Some st1"
  shows "refuse_mail st1 = refuse_mail st"
proof -
  define s0 where "s0 = (if length l \<noteq> length (cstr_of l) then st\<lparr>has_nuls := True\<rparr> else st)"
  have s0: "refuse_mail s0 = refuse_mail st" by (simp add: s0_def)
  have "st1 = st \<or> st1 = s0\<lparr>retain_mail := True\<rparr> \<or> st1 = s0 \<or> st1 = take_delivered q (cstr_of l) s0
    \<or> (\<exists>l1 b s2. stash_path q (cstr_of l1) s0 = Some (b, s2) \<and> (st1 = s2 \<or> append_line q l1 s2 = Some st1))"
    using assms unfolding header_line_def Let_def s0_def [symmetric] by (rule header_line_cases)
  then show ?thesis using s0 by (auto dest!: append_line_refuse stash_path_refuse)
qed

lemma header_text_first:
  assumes "header_ok h"
  obtains c x where "header_text h = c # x" "c \<noteq> SP" "c \<noteq> CHR 0x09" "c \<noteq> CHR ''.''" "c \<noteq> NUL" "c \<noteq> LF"
proof (cases h)
  case (Cons p ps)
  then obtain c w where p: "p = c # w" using assms by (cases p) auto
  have "c \<noteq> SP" "c \<noteq> CHR 0x09" "c \<noteq> CHR ''.''" "c \<noteq> NUL" "c \<noteq> LF" using assms Cons p by (auto simp: header_part_def)
  moreover have "header_text h = c # w @ eol @ header_text ps" using Cons p by (simp add: header_text_def)
  ultimately show ?thesis using that by blast
qed (use assms in simp)

lemma header_loop_feeds:
  assumes "list_all header_ok hs" "inp (hsock r) = headers_text hs @ eol @ rest" "\<not> decode_mime q" "\<not> refuse_mail st"
    "dot_ended q \<or> int (length (headers_text hs)) < remaining r"
  shows "\<exists>r1. inp (hsock r1) = rest
    \<and> header_loop q num st r = map_option (\<lambda>st1. (Headers_read False, st1, r1)) (feed_headers q num hs st)"
  using assms
proof (induction hs arbitrary: r st)
  case Nil
  have "inp (hsock r) = eol @ rest" using Nil.prems(2) by (simp add: headers_text_def)
  then obtain r1 where r1: "read_header_line q (refuse_mail st) [] r = Ended eol (refuse_mail st) False r1" "inp (hsock r1) = rest"
    by (rule read_blank)
  have "length eol = length (cstr_of eol)" by (simp add: eol_def cstr_of_def)
  then show ?case using r1 Nil.prems(5) by (subst header_loop.simps) (auto simp: headers_text_def)
next
  case (Cons h hs)
  have h: "header_ok h" using Cons.prems(1) by simp
  obtain c x where c: "headers_text hs @ eol @ rest = c # x" "c \<noteq> SP" "c \<noteq> CHR 0x09"
  proof (cases hs)
    case Nil
    then show thesis using that by (simp add: headers_text_def eol_def)
  next
    case (Cons g gs)
    then have "header_ok g" using Cons.prems(1) by simp
    then obtain d y where "header_text g = d # y" "d \<noteq> SP" "d \<noteq> CHR 0x09" by (rule header_text_first)
    then show thesis using that Cons by (auto simp: headers_text_def)
  qed
  have i: "inp (hsock r) = header_text h @ c # x" using Cons.prems(2) c(1) by (simp add: headers_text_def)
  obtain r1 where r1: "read_header_line q False [] r = Whole (header_text h) False r1" "inp (hsock r1) = c # x"
    "remaining r1 = remaining r - int (length (header_text h))"
    by (rule read_header [OF h i c(2,3)])
  have more: "(\<not> dot_ended q \<and> \<not> remaining r > 0) = False" using Cons.prems(5) by auto
  have st: "st\<lparr>refuse_mail := False\<rparr> = st" using Cons.prems(4) by simp
  have step: "header_loop q num st r = (case header_line q num (header_text h) st of None \<Rightarrow> None | Some st1 \<Rightarrow> header_loop q num st1 r1)"
    using Cons.prems(3,4) r1(1) by (subst header_loop.simps, simp only: more) (simp add: decode_header_def st)
  show ?case
  proof (cases "header_line q num (header_text h) st")
    case None
    have "inp (hsock (r\<lparr>hsock := (hsock r)\<lparr>inp := rest\<rparr>\<rparr>)) = rest" by simp
    then show ?thesis using step None by (metis bind.bind_lzero feed_headers.simps(2) option.case(1) option.map(1))
  next
    case (Some st1)
    have "\<not> refuse_mail st1" using header_line_refuse [OF Some] Cons.prems(4) by simp
    then have "\<exists>r2. inp (hsock r2) = rest \<and> header_loop q num st1 r1 = map_option (\<lambda>st2. (Headers_read False, st2, r2)) (feed_headers q num hs st1)"
      using Cons.prems r1 c(1) by (intro Cons.IH) (auto simp: headers_text_def)
    then show ?thesis using step Some by simp
  qed
qed

subsection \<open>What is kept of the headers\<close>

definition line_stays :: "header_options \<Rightarrow> string \<Rightarrow> bool" where
  "line_stays q l \<longleftrightarrow> \<not> has_iprefix l ''>From '' \<and> \<not> has_iprefix l ''From '' \<and> \<not> (drop_delivered q \<and> has_iprefix l ''Delivered-To:'')
     \<and> \<not> status_dropped q l"

definition single_drop :: "header_options \<Rightarrow> bool" where
  "single_drop q \<longleftrightarrow> \<not> multidrop (drops q) \<and> \<not> rewriting q \<and> \<not> decode_mime q"

definition folder_line :: "header_options \<Rightarrow> int \<Rightarrow> string \<Rightarrow> bool" where
  "folder_line q num l \<longleftrightarrow> \<not> pop2 q \<and> num = 1 \<and> has_iprefix l ''X-IMAP:''"

definition so_far :: "collecting \<Rightarrow> string" where
  "so_far st = (case collected st of None \<Rightarrow> [] | Some h \<Rightarrow> h)"

lemma header_text_clean: "header_ok h \<Longrightarrow> NUL \<notin> set (header_text h)"
  by (cases h) (auto simp: header_text_def header_part_def continuation_def list_all_iff eol_def)

lemma cstr_of_clean: "NUL \<notin> set l \<Longrightarrow> cstr_of l = l"
  by (auto simp: cstr_of_def takeWhile_eq_all_conv)

lemma note_sender_fields [simp]:
  "collected (note_sender l i st) = collected st" "has_nuls (note_sender l i st) = has_nuls st"
  "retain_mail (note_sender l i st) = retain_mail st"
  by (auto simp: note_sender_def Let_def)

lemma take_delivered_fields [simp]:
  "collected (take_delivered q l st) = collected st" "has_nuls (take_delivered q l st) = has_nuls st"
  "retain_mail (take_delivered q l st) = retain_mail st"
  by (auto simp: take_delivered_def Let_def split: option.splits env_option.splits)

lemma header_line_keeps:
  assumes "single_drop q" "NUL \<notin> set l" "\<not> has_iprefix l ''Return-Path:''" "\<not> folder_line q num l" "\<not> retain_mail st" "\<not> refuse_mail st"
  obtains st1 where "header_line q num l st = Some st1" "has_nuls st1 = has_nuls st" "retain_mail st1 = retain_mail st"
    "refuse_mail st1 = refuse_mail st" "collected st1 = (if line_stays q l then Some (so_far st @ l) else collected st)"
proof -
  note c = cstr_of_clean [OF assms(2)]
  have "\<exists>st1. header_line q num l st = Some st1 \<and> has_nuls st1 = has_nuls st \<and> retain_mail st1 = retain_mail st
    \<and> collected st1 = (if line_stays q l then Some (so_far st @ l) else collected st)"
    using assms c
    by (auto simp: header_line_def Let_def line_stays_def single_drop_def folder_line_def rewrite_line_def stash_path_def
        append_line_def note_recipient_def so_far_def)
  then obtain st1 where "header_line q num l st = Some st1" "has_nuls st1 = has_nuls st" "retain_mail st1 = retain_mail st"
    "collected st1 = (if line_stays q l then Some (so_far st @ l) else collected st)" by blast
  then show ?thesis using that header_line_refuse by blast
qed

definition kept_text :: "header_options \<Rightarrow> string list list \<Rightarrow> string" where
  "kept_text q hs = concat (filter (line_stays q) (map header_text hs))"

lemma feed_keeps:
  "single_drop q \<Longrightarrow> list_all header_ok hs \<Longrightarrow> \<forall>h\<in>set hs. \<not> has_iprefix (header_text h) ''Return-Path:'' \<and> \<not> folder_line q num (header_text h) \<Longrightarrow>
   \<not> retain_mail st \<Longrightarrow> \<not> refuse_mail st \<Longrightarrow>
   \<exists>st1. feed_headers q num hs st = Some st1 \<and> has_nuls st1 = has_nuls st \<and> \<not> retain_mail st1 \<and> \<not> refuse_mail st1 \<and> so_far st1 = so_far st @ kept_text q hs"
proof (induction hs arbitrary: st)
  case (Cons h hs)
  obtain st1 where st1: "header_line q num (header_text h) st = Some st1" "has_nuls st1 = has_nuls st" "retain_mail st1 = retain_mail st"
    "refuse_mail st1 = refuse_mail st" "collected st1 = (if line_stays q (header_text h) then Some (so_far st @ header_text h) else collected st)"
    using header_line_keeps [OF Cons.prems(1), of "header_text h" num st] header_text_clean Cons.prems by auto
  have "so_far st1 = so_far st @ (if line_stays q (header_text h) then header_text h else [])" using st1(5) by (simp add: so_far_def)
  moreover have "\<exists>st2. feed_headers q num hs st1 = Some st2 \<and> has_nuls st2 = has_nuls st1 \<and> \<not> retain_mail st2 \<and> \<not> refuse_mail st2
      \<and> so_far st2 = so_far st1 @ kept_text q hs"
    using Cons.prems st1 by (intro Cons.IH) auto
  ultimately show ?case using st1(1,2) by (auto simp: kept_text_def)
qed (simp add: kept_text_def)


end
