(* ===== verification/HeaderText.thy ===== *)
theory HeaderText
  imports HeaderProps
begin

section \<open>The text that the sink gets of the headers\<close>

subsection \<open>A text of whole lines\<close>

text \<open>What the sink is to get of a text whose lines end in CR LF.\<close>

definition sent :: "sink \<Rightarrow> string \<Rightarrow> string" where
  "sent sk l = (if stripcr sk then filter (\<lambda>c. c \<noteq> CR) l else l)"

lemma sent_append: "sent sk (a @ b) = sent sk a @ sent sk b"
  by (simp add: sent_def)

lemma same_kind_sent: "same_kind a b \<Longrightarrow> sent a = sent b"
  by (auto simp: same_kind_def sent_def fun_eq_iff)

lemma same_kind_trans: "same_kind a b \<Longrightarrow> same_kind b c \<Longrightarrow> same_kind a c"
  by (simp add: same_kind_def)

definition crlf_ended :: "string \<Rightarrow> bool" where
  "crlf_ended l \<longleftrightarrow> NUL \<notin> set l \<and> (\<exists>p. l = p @ eol) \<and> hd l \<noteq> CHR ''.''"

lemma stuffline_text:
  assumes "crlf_ended l" "writable sk"
  obtains sk1 t1 where "stuffline sk (l @ NUL # t) = Some (int (length (sent sk l)), sk1, sent sk l @ NUL # t1)"
    "writable sk1" "sunk sk1 = sunk sk @ sent sk l" "same_kind sk1 sk"
    "length (sent sk l @ NUL # t1) = length l + 1 + length t" "drop (length l + 1) (sent sk l @ NUL # t1) = t"
proof -
  obtain p where p: "l = p @ eol" and clean: "NUL \<notin> set l" and d: "hd l \<noteq> CHR ''.''" using assms(1) by (auto simp: crlf_ended_def)
  have len: "length l = length p + 2" "l \<noteq> []" "last l = LF" by (simp_all add: p eol_def)
  define buf where "buf = l @ NUL # t"
  have f: "find_last buf 1 = Some (length l)" unfolding buf_def by (rule find_last_line [OF clean len(2,3)])
  have cr: "buf ! (length l - 2) = CR" by (simp add: buf_def p eol_def nth_append)
  have h: "char_at buf 0 \<noteq> CHR ''.''" using d len(2) by (cases l) (auto simp: buf_def char_at_def)
  obtain n0 s1 where dot: "stuff_dot sk buf = (False, n0, s1)" "0 \<le> n0" "writable s1" "same_kind s1 sk" "sunk s1 = sunk sk"
    by (rule stuff_dot_line [OF assms(2), of buf]) (use h in auto)
  obtain s2 where s2: "to_sink s1 (sent sk l) = (int (length (sent sk l)), s2)" "writable s2" "sunk s2 = sunk s1 @ sent sk l" "same_kind s2 s1"
    by (rule to_sink_writes [OF dot(3)])
  have cr_there: "(forcecr sk \<and> (length l - 1 = 0 \<or> buf ! (length l - 2) \<noteq> CR)) = False" using cr len(1) by simp
  have cut: "take (length l) buf = l" by (simp add: buf_def)
  let ?kept = "filter (\<lambda>c. c \<noteq> CR) l"
  define b1 where "b1 = (if stripcr sk then overwrite buf 0 (?kept @ [NUL]) else buf)"
  have st: "stuffline sk buf = Some (int (length (sent sk l)), s2, b1)"
    unfolding stuffline_def f bind.simps cr_there if_False
    using dot(1,2) s2(1) by (cases "stripcr sk") (simp_all add: Let_def cut sent_def b1_def)
  have k: "length ?kept \<le> length l" by (rule length_filter_le)
  obtain t1 where t1: "b1 = sent sk l @ NUL # t1" by (cases "stripcr sk") (simp_all add: b1_def sent_def overwrite_def buf_def)
  have "length (overwrite buf 0 (?kept @ [NUL])) = length buf" using k by (intro length_overwrite) (simp add: buf_def trans_le_add1)
  then have "length b1 = length buf" by (simp add: b1_def)
  then have "length b1 = length l + 1 + length t" by (simp add: buf_def)
  moreover have "drop (length l + 1) b1 = t"
  proof (cases "stripcr sk")
    case True
    obtain d where d: "length l = length ?kept + d" using k by (metis le_Suc_ex)
    have "b1 = ?kept @ NUL # drop (Suc (length ?kept)) buf" using True by (simp add: b1_def overwrite_def)
    then have "drop (length l + 1) b1 = drop (Suc (length ?kept) + d) buf" by (simp add: d add.commute)
    then show ?thesis using d by (simp add: buf_def)
  qed (simp add: b1_def buf_def)
  moreover have "same_kind s2 sk" by (rule same_kind_trans [OF s2(4) dot(4)])
  ultimately show ?thesis using that [of s2 t1] st s2 dot(5) by (simp add: t1 buf_def)
qed

lemma to_outlet_text:
  assumes "crlf_ended l" "writable (outlet s)"
  obtains sk t1 where "to_outlet s (l @ NUL # t) = Some (int (length (sent (outlet s) l)), s\<lparr>outlet := sk\<rparr>, sent (outlet s) l @ NUL # t1)"
    "writable sk" "sunk sk = sunk (outlet s) @ sent (outlet s) l" "same_kind sk (outlet s)"
    "length (sent (outlet s) l @ NUL # t1) = length l + 1 + length t" "drop (length l + 1) (sent (outlet s) l @ NUL # t1) = t"
proof -
  obtain sk t1 where "stuffline (outlet s) (l @ NUL # t) = Some (int (length (sent (outlet s) l)), sk, sent (outlet s) l @ NUL # t1)"
    "writable sk" "sunk sk = sunk (outlet s) @ sent (outlet s) l" "same_kind sk (outlet s)"
    "length (sent (outlet s) l @ NUL # t1) = length l + 1 + length t" "drop (length l + 1) (sent (outlet s) l @ NUL # t1) = t"
    by (rule stuffline_text [OF assms])
  then show ?thesis using that by (simp add: to_outlet_def)
qed

subsection \<open>Texts in the buffer\<close>

definition buffer_of :: "string \<Rightarrow> string \<Rightarrow> bool" where
  "buffer_of b w \<longleftrightarrow> NUL \<notin> set w \<and> length b = MSGBUFSIZE + 1 \<and> (\<exists>t. b = w @ NUL # t)"

lemma put_first: "length b = MSGBUFSIZE + 1 \<Longrightarrow> NUL \<notin> set s \<Longrightarrow> length s \<le> MSGBUFSIZE \<Longrightarrow> buffer_of (put_str b 0 (length b) s) s"
  by (auto simp: buffer_of_def put_str_def overwrite_def)

lemma put_second:
  assumes "length b = MSGBUFSIZE + 1" "NUL \<notin> set s" "length s < MSGBUFSIZE" "c \<noteq> NUL"
  shows "buffer_of (put_str (b[0 := c]) 1 (length b - 1) s) (c # s)"
proof -
  obtain x y where "b = x # y" using assms(1) by (cases b) auto
  then show ?thesis using assms by (auto simp: buffer_of_def put_str_def overwrite_def)
qed

lemma put_at_end:
  assumes "buffer_of b w" "NUL \<notin> set s" "length (w @ s) + k \<le> MSGBUFSIZE"
  shows "buffer_of (put_more b k s) (w @ s)"
proof -
  obtain t where b: "b = w @ NUL # t" "NUL \<notin> set w" "length b = MSGBUFSIZE + 1" using assms(1) by (auto simp: buffer_of_def)
  have c: "cstr_of b = w" using b(1,2) by (simp add: cstr_of_append_NUL c_string_def)
  have lim: "length b - length w - k = Suc (length b - length w - k - 1)" "length s \<le> length b - length w - k - 1"
    using assms(3) b(3) by auto
  have "put_more b k s = w @ s @ NUL # drop (length w + length s + 1) b"
    unfolding put_more_def Let_def c put_str_def overwrite_def using lim b(1) by (simp add: add.assoc)
  then show ?thesis using b(2,3) assms(2,3) by (auto simp: buffer_of_def)
qed

lemma put_second_end: "length b = MSGBUFSIZE + 1 \<Longrightarrow> c \<noteq> NUL \<Longrightarrow> buffer_of (b[0 := c, 1 := NUL]) [c]"
proof -
  assume a: "length b = MSGBUFSIZE + 1" "c \<noteq> NUL"
  then obtain x y z where "b = x # y # z" by (cases b; cases "tl b") (auto simp: MSGBUFSIZE_def)
  then show ?thesis using a by (auto simp: buffer_of_def)
qed

subsection \<open>The trace lines\<close>

definition trace_lines :: "bool \<Rightarrow> ship_options \<Rightarrow> sink_options \<Rightarrow> nat \<Rightarrow> (string \<times> xmit) list \<Rightarrow> string list" where
  "trace_lines multi t so ngood rs =
     [''Received: from '' @ truename so @ (case peer t of None \<Rightarrow> [] | Some a \<Rightarrow> '' ['' @ a @ '']'') @ eol,
      CHR 0x09 # ''by '' @ fetchmailhost so @ '' with '' @ protocol_name t @ '' (fetchmail-'' @ version t
        @ (if tracepolls t then '' polling '' @ pollname t @ '' account '' @ sink_options.remotename so
             @ (case folder t of None \<Rightarrow> [] | Some f \<Rightarrow> '' folder '' @ f) else []) @ '')'' @ eol,
      CHR 0x09 #
        (if ngood = 0 then ''for <'' @ rcpt_address so (postmaster so) False @ ''> (by default); ''
         else if ngood = 1 then ''for <'' @ rcpt_address so (hd (accepted rs)) True @ ''> ('' @ (if multi then ''multi-drop'' else ''single-drop'') @ ''); ''
         else []) @ timestamp so @ eol]"

definition traceable :: "string \<Rightarrow> bool" where
  "traceable l \<longleftrightarrow> NUL \<notin> set l \<and> length l < MSGBUFSIZE"

lemma trace_buffers:
  assumes "list_all traceable (trace_lines multi t so ngood rs)" "length b = MSGBUFSIZE + 1" "ngood = 1 \<longrightarrow> accepted rs \<noteq> []"
  shows "buffer_of (trace_from t so b) (trace_lines multi t so ngood rs ! 0)"
    "buffer_of (trace_by t so b) (trace_lines multi t so ngood rs ! 1)"
    "buffer_of (trace_for multi so ngood rs b) (trace_lines multi t so ngood rs ! 2)"
proof -
  have crlf: "CRLF = eol" by (simp add: CRLF_def eol_def)
  have tr: "list_all (\<lambda>l. NUL \<notin> set l \<and> length l < MSGBUFSIZE) (trace_lines multi t so ngood rs)"
    using assms(1) unfolding traceable_def [abs_def] .
  note tr = tr [unfolded trace_lines_def]
  show "buffer_of (trace_from t so b) (trace_lines multi t so ngood rs ! 0)"
    using put_first [OF assms(2)] tr by (simp add: trace_from_def trace_lines_def crlf)
  show "buffer_of (trace_by t so b) (trace_lines multi t so ngood rs ! 1)"
  proof -
    let ?a = "CHR 0x09 # ''by '' @ fetchmailhost so @ '' with '' @ protocol_name t @ '' (fetchmail-'' @ version t"
    let ?p = "'' polling '' @ pollname t @ '' account '' @ sink_options.remotename so"
    have 1: "buffer_of (put_str b 0 (length b) ?a) ?a" using tr by (intro put_first [OF assms(2)]) auto
    show ?thesis
    proof (cases "tracepolls t")
      case False
      then show ?thesis using put_at_end [OF 1, of "'')'' @ eol" 0] tr by (simp add: trace_by_def trace_lines_def crlf Let_def)
    next
      case True
      have 2: "buffer_of (put_more (put_str b 0 (length b) ?a) 0 ?p) (?a @ ?p)"
        using tr True by (intro put_at_end [OF 1]) auto
      show ?thesis
      proof (cases "folder t")
        case None
        then show ?thesis using True put_at_end [OF 2, of "'')'' @ eol" 0] tr by (simp add: trace_by_def trace_lines_def crlf Let_def)
      next
        case (Some f)
        have 3: "buffer_of (put_more (put_more (put_str b 0 (length b) ?a) 0 ?p) 0 ('' folder '' @ f)) ((?a @ ?p) @ '' folder '' @ f)"
          using tr True Some by (intro put_at_end [OF 2]) auto
        show ?thesis using True Some put_at_end [OF 3, of "'')'' @ eol" 0] tr by (simp add: trace_by_def trace_lines_def crlf Let_def)
      qed
    qed
  qed
  show "buffer_of (trace_for multi so ngood rs b) (trace_lines multi t so ngood rs ! 2)"
  proof -
    let ?stamped = "timestamp so @ eol"
    consider "ngood = 0" | "ngood = 1" | "2 \<le> ngood" by linarith
    then show ?thesis
    proof cases
      case 1
      let ?f = "''for <'' @ rcpt_address so (postmaster so) False @ ''> (by default); ''"
      have "buffer_of (put_str (b[0 := CHR 0x09]) 1 (length b - 1) ?f) (CHR 0x09 # ?f)"
        using tr 1 by (intro put_second [OF assms(2)]) auto
      from put_at_end [OF this, of ?stamped 0] show ?thesis using tr 1 by (simp add: trace_for_def trace_lines_def crlf Let_def)
    next
      case 2
      then obtain i us where i: "accepted rs = i # us" using assms(3) by (cases "accepted rs") auto
      let ?f = "''for <'' @ rcpt_address so i True @ ''>''" and ?g = "'' ('' @ (if multi then ''multi-drop'' else ''single-drop'') @ ''); ''"
      have "buffer_of (put_str (b[0 := CHR 0x09]) 1 (length b - 1) ?f) (CHR 0x09 # ?f)"
        using tr 2 i by (intro put_second [OF assms(2)]) auto
      from put_at_end [OF this, of ?g 1] have "buffer_of (put_more (put_str (b[0 := CHR 0x09]) 1 (length b - 1) ?f) 1 ?g) ((CHR 0x09 # ?f) @ ?g)"
        using tr 2 i by (auto simp: eol_def)
      from put_at_end [OF this, of ?stamped 0] show ?thesis using tr 2 i by (simp add: trace_for_def trace_lines_def crlf Let_def)
    next
      case 3
      have "buffer_of (b[0 := CHR 0x09, 1 := NUL]) [CHR 0x09]" by (rule put_second_end [OF assms(2)]) simp
      from put_at_end [OF this, of ?stamped 0] show ?thesis using tr 3 by (simp add: trace_for_def trace_lines_def crlf Let_def)
    qed
  qed
qed

lemma trace_ended: "traceable l \<Longrightarrow> l \<in> set (trace_lines multi t so ngood rs) \<Longrightarrow> crlf_ended l"
  by (auto simp: crlf_ended_def trace_lines_def traceable_def eol_def)

lemma buffer_to_outlet:
  assumes "buffer_of b l" "crlf_ended l" "writable (outlet s)"
  obtains sk b1 where "to_outlet s b = Some (int (length (sent (outlet s) l)), s\<lparr>outlet := sk\<rparr>, b1)" "length b1 = MSGBUFSIZE + 1"
    "writable sk" "sunk sk = sunk (outlet s) @ sent (outlet s) l" "same_kind sk (outlet s)"
proof -
  obtain t where b: "b = l @ NUL # t" "length b = MSGBUFSIZE + 1" using assms(1) by (auto simp: buffer_of_def)
  obtain sk t1 where "to_outlet s (l @ NUL # t) = Some (int (length (sent (outlet s) l)), s\<lparr>outlet := sk\<rparr>, sent (outlet s) l @ NUL # t1)"
    "writable sk" "sunk sk = sunk (outlet s) @ sent (outlet s) l" "same_kind sk (outlet s)"
    "length (sent (outlet s) l @ NUL # t1) = length l + 1 + length t" "drop (length l + 1) (sent (outlet s) l @ NUL # t1) = t"
    by (rule to_outlet_text [OF assms(2,3)])
  then show ?thesis using that [of sk "sent (outlet s) l @ NUL # t1"] b by simp
qed

lemma ship_trace_text:
  assumes "list_all traceable (trace_lines multi t so ngood rs)" "length b = MSGBUFSIZE + 1" "ngood = 1 \<longrightarrow> accepted rs \<noteq> []"
    "writable (outlet s)"
  obtains n sk b1 where "ship_trace multi t so ngood rs s b = Some (n, s\<lparr>outlet := sk\<rparr>, b1)" "n \<noteq> -1" "length b1 = MSGBUFSIZE + 1"
    "writable sk" "sunk sk = sunk (outlet s) @ sent (outlet s) (concat (trace_lines multi t so ngood rs))" "same_kind sk (outlet s)"
proof -
  let ?l = "trace_lines multi t so ngood rs"
  have l: "?l = [?l ! 0, ?l ! 1, ?l ! 2]" by (simp add: trace_lines_def)
  have e: "crlf_ended (?l ! 0)" "crlf_ended (?l ! 1)" "crlf_ended (?l ! 2)"
    using assms(1) trace_ended [of _ multi t so ngood rs] by (metis l list.pred_inject(2) list.set_intros(1,2))+
  obtain k1 b1 where 1: "to_outlet s (trace_from t so b) = Some (int (length (sent (outlet s) (?l ! 0))), s\<lparr>outlet := k1\<rparr>, b1)"
    "length b1 = MSGBUFSIZE + 1" "writable k1" "sunk k1 = sunk (outlet s) @ sent (outlet s) (?l ! 0)" "same_kind k1 (outlet s)"
    by (rule buffer_to_outlet [OF trace_buffers(1) [OF assms(1-3)] e(1) assms(4)])
  let ?s1 = "s\<lparr>outlet := k1\<rparr>"
  have w1: "writable (outlet ?s1)" using 1(3) by simp
  obtain k2 b2 where 2: "to_outlet ?s1 (trace_by t so b1) = Some (int (length (sent (outlet ?s1) (?l ! 1))), ?s1\<lparr>outlet := k2\<rparr>, b2)"
    "length b2 = MSGBUFSIZE + 1" "writable k2" "sunk k2 = sunk (outlet ?s1) @ sent (outlet ?s1) (?l ! 1)" "same_kind k2 (outlet ?s1)"
    by (rule buffer_to_outlet [OF trace_buffers(2) [OF assms(1) 1(2) assms(3)] e(2) w1])
  let ?s2 = "s\<lparr>outlet := k2\<rparr>"
  have w2: "writable (outlet ?s2)" using 2(3) by simp
  obtain k3 b3 where 3: "to_outlet ?s2 (trace_for multi so ngood rs b2) = Some (int (length (sent (outlet ?s2) (?l ! 2))), ?s2\<lparr>outlet := k3\<rparr>, b3)"
    "length b3 = MSGBUFSIZE + 1" "writable k3" "sunk k3 = sunk (outlet ?s2) @ sent (outlet ?s2) (?l ! 2)" "same_kind k3 (outlet ?s2)"
    by (rule buffer_to_outlet [OF trace_buffers(3) [OF assms(1) 2(2) assms(3)] e(3) w2])
  have 21: "same_kind k2 (outlet s)" using same_kind_trans 1(5) 2(5) by fastforce
  then have kinds: "sent k1 = sent (outlet s)" "sent k2 = sent (outlet s)" "same_kind k3 (outlet s)"
    using same_kind_sent [OF 1(5)] same_kind_sent [OF 21] same_kind_trans 3(5) by fastforce+
  have c: "concat ?l = ?l ! 0 @ ?l ! 1 @ ?l ! 2" by (subst l) simp
  have "ship_trace multi t so ngood rs s b = Some (int (length (sent (outlet ?s2) (?l ! 2))), s\<lparr>outlet := k3\<rparr>, b3)"
    using 1(1) 2(1) 3(1) by (simp add: ship_trace_def)
  then show ?thesis
    using that 3(2,3) 1(4) 2(4) 3(4) kinds by (simp add: c sent_append)
qed

subsection \<open>The headers around the trace lines\<close>

definition received_at :: "string \<Rightarrow> nat" where
  "received_at h = back_to_line h (case find_sub (cstr_of h) ''Received:'' of None \<Rightarrow> 0 | Some j \<Rightarrow> j)"

text \<open>Every line feed_headers of the headers has its carriage return, and no part that is shipped starts with a dot.\<close>

definition header_block :: "string \<Rightarrow> bool" where
  "header_block h \<longleftrightarrow> NUL \<notin> set h \<and> h \<noteq> [] \<and> last h = LF \<and> (\<forall>j<length h. h ! j = LF \<longrightarrow> 0 < j \<and> h ! (j - 1) = CR)
     \<and> hd h \<noteq> CHR ''.'' \<and> h ! received_at h \<noteq> CHR ''.''"

lemma back_to_line_le: "back_to_line h i \<le> i"
  by (induction h i rule: back_to_line.induct) auto

lemma back_to_line_LF: "0 < back_to_line h i \<Longrightarrow> h ! (back_to_line h i - 1) = LF"
  by (induction h i rule: back_to_line.induct) (auto split: if_splits)

lemma received_at_less: "h \<noteq> [] \<Longrightarrow> received_at h < length h"
proof -
  assume h: "h \<noteq> []"
  have "(case find_sub (cstr_of h) ''Received:'' of None \<Rightarrow> 0 | Some j \<Rightarrow> j) < length h"
    using h length_cstr_of_le [of h] by (auto dest!: find_sub_Some split: option.splits)
  then show ?thesis unfolding received_at_def using back_to_line_le le_less_trans by blast
qed

lemma crlf_part:
  assumes "header_block h" "i < j" "j \<le> length h" "h ! (j - 1) = LF" "h ! i \<noteq> CHR ''.''" "i = 0 \<or> h ! (i - 1) = LF"
  shows "crlf_ended (drop i (take j h))"
proof -
  let ?l = "drop i (take j h)"
  have "j - 1 < length h" using assms(2,3) by simp
  then have cr: "0 < j - 1" "h ! (j - 1 - 1) = CR" using assms(1,4) by (auto simp: header_block_def)
  have i: "i < j - 1" using cr assms(2,6) by (cases "i = j - 1") auto
  have n: "NUL \<notin> set ?l" using assms(1) by (auto simp: header_block_def dest!: in_set_dropD in_set_takeD)
  have "?l = drop i (take (j - 2) h) @ [h ! (j - 2), h ! (j - 1)]"
  proof -
    have "take j h = take (j - 2) h @ [h ! (j - 2), h ! (j - 1)]"
    proof -
      obtain k where k: "j = Suc (Suc k)" using cr(1) by (cases j; cases "j - 1") auto
      then show ?thesis using assms(3) by (simp add: take_Suc_conv_app_nth)
    qed
    moreover have "i \<le> j - 2" "j - 2 \<le> length h" using i assms(3) by auto
    ultimately show ?thesis by simp
  qed
  then have "?l = drop i (take (j - 2) h) @ eol" using cr assms(4) by (simp add: eol_def numeral_2_eq_2)
  moreover have "hd ?l = h ! i" using assms(2,3) by (simp add: hd_drop_conv_nth)
  ultimately show ?thesis using n assms(5) by (auto simp: crlf_ended_def)
qed

lemma ship_front_text:
  assumes "header_block h" "writable (outlet s)" "i = received_at h"
  obtains n sk x where "ship_front s h = Some (n, i, s\<lparr>outlet := sk\<rparr>, x)" "n \<noteq> -1" "drop i x = drop i h @ [NUL]"
    "writable sk" "sunk sk = sunk (outlet s) @ sent (outlet s) (take i h)" "same_kind sk (outlet s)"
proof (cases "i = 0")
  case True
  then have "ship_front s h = Some (0, i, s\<lparr>outlet := outlet s\<rparr>, h @ [NUL])"
    using assms(3) by (simp add: ship_front_def received_at_def)
  then show ?thesis using that [of 0 "outlet s" "h @ [NUL]"] True assms(2) by (simp add: sent_def same_kind_def)
next
  case False
  have h: "i < length h" using received_at_less assms(1,3) by (auto simp: header_block_def)
  have lf: "h ! (i - 1) = LF" using False back_to_line_LF assms(3) by (simp add: received_at_def)
  have "h ! 0 \<noteq> CHR ''.''" using assms(1) by (auto simp: header_block_def hd_conv_nth)
  then have e: "crlf_ended (take i h)" using crlf_part [OF assms(1), of 0 i] False h lf by simp
  let ?hb = "h @ [NUL]" and ?t = "drop (Suc i) h @ [NUL]"
  have cut: "?hb[i := NUL] = take i h @ NUL # ?t" using h by (simp add: list_update_append upd_conv_take_nth_drop)
  have len: "length (take i h) = i" using h by simp
  obtain sk t1 where o: "to_outlet s (take i h @ NUL # ?t)
      = Some (int (length (sent (outlet s) (take i h))), s\<lparr>outlet := sk\<rparr>, sent (outlet s) (take i h) @ NUL # t1)"
    "writable sk" "sunk sk = sunk (outlet s) @ sent (outlet s) (take i h)" "same_kind sk (outlet s)"
    "length (sent (outlet s) (take i h) @ NUL # t1) = length (take i h) + 1 + length ?t"
    "drop (length (take i h) + 1) (sent (outlet s) (take i h) @ NUL # t1) = ?t"
    by (rule to_outlet_text [OF e assms(2)])
  let ?b = "sent (outlet s) (take i h) @ NUL # t1"
  have "i < length ?b" using o(5) len by simp
  then have "drop i (?b[i := ?hb ! i]) = ?hb ! i # drop (Suc i) ?b"
    by (simp add: Cons_nth_drop_Suc [symmetric] del: length_append drop_append)
  also have "\<dots> = h ! i # ?t" using o(6) len h by (simp add: nth_append)
  also have "\<dots> = drop i h @ [NUL]" using h by (simp add: Cons_nth_drop_Suc [symmetric])
  finally have d: "drop i (?b[i := ?hb ! i]) = drop i h @ [NUL]" .
  have "ship_front s h = Some (int (length (sent (outlet s) (take i h))), i, s\<lparr>outlet := sk\<rparr>, ?b[i := ?hb ! i])"
    using False assms(3) o(1) cut unfolding ship_front_def Let_def received_at_def [symmetric] by simp
  then show ?thesis using that d o(2-4) by simp
qed

text \<open>
  C4. What the sink gets of a message that is addressed: its headers, byte for byte, with the trace lines of fetchmail before the line of
  the first Received header, or in front where there is none, and the empty line; with \<open>invisible\<close> the headers and the empty
  line. (The line ends are those of the option \<open>stripcr\<close>.)
\<close>

theorem ship_headers_text:
  assumes "header_block (headers m)" "writable (outlet s)" "length buf = MSGBUFSIZE + 1"
    "list_all traceable (trace_lines (multidrop (drops q)) t so ngood (recipients m))" "ngood = 1 \<longrightarrow> accepted (recipients m) \<noteq> []"
    "trace = (if invisible t then [] else concat (trace_lines (multidrop (drops q)) t so ngood (recipients m)))"
    "i = received_at (headers m)"
  shows "\<exists>m1 s1. ship_headers q t so ngood 0 m False r False buf s = Some (PS_SUCCESS, m1, s1)
    \<and> sunk (outlet s1) = sunk (outlet s) @ sent (outlet s) (take i (headers m) @ trace @ drop i (headers m) @ eol)"
proof -
  let ?h = "headers m" and ?multi = "multidrop (drops q)"
  obtain n1 k1 x where 1: "ship_front s ?h = Some (n1, i, s\<lparr>outlet := k1\<rparr>, x)" "n1 \<noteq> -1" "drop i x = drop i ?h @ [NUL]"
    "writable k1" "sunk k1 = sunk (outlet s) @ sent (outlet s) (take i ?h)" "same_kind k1 (outlet s)"
    by (rule ship_front_text [OF assms(1,2,7)])
  let ?s1 = "s\<lparr>outlet := k1\<rparr>"
  have w1: "writable (outlet ?s1)" using 1(4) by simp
  obtain n2 k2 b2 where 2: "(if \<not> invisible t \<and> n1 \<noteq> -1 then ship_trace ?multi t so ngood (recipients m) ?s1 buf else Some (n1, ?s1, buf))
      = Some (n2, s\<lparr>outlet := k2\<rparr>, b2)" "n2 \<noteq> -1" "length b2 = MSGBUFSIZE + 1"
    "writable k2" "sunk k2 = sunk k1 @ sent k1 trace" "same_kind k2 k1"
  proof (cases "invisible t")
    case True
    then show thesis using that [of n1 k1 buf] 1 assms(3,6) by (simp add: sent_def same_kind_def)
  next
    case False
    obtain n sk b1 where "ship_trace ?multi t so ngood (recipients m) ?s1 buf = Some (n, ?s1\<lparr>outlet := sk\<rparr>, b1)" "n \<noteq> -1"
      "length b1 = MSGBUFSIZE + 1" "writable sk"
      "sunk sk = sunk (outlet ?s1) @ sent (outlet ?s1) (concat (trace_lines ?multi t so ngood (recipients m)))" "same_kind sk (outlet ?s1)"
      by (rule ship_trace_text [OF assms(4,3,5) w1])
    then show thesis using that [of n sk b1] False 1(2) assms(6) by simp
  qed
  have i: "i < length ?h" "i = 0 \<or> ?h ! (i - 1) = LF" "?h ! (length ?h - 1) = LF" "?h ! i \<noteq> CHR ''.''"
    using received_at_less assms(1,7) back_to_line_LF by (auto simp: header_block_def received_at_def last_conv_nth)
  then have e: "crlf_ended (drop i ?h)" using crlf_part [OF assms(1) i(1) order_refl i(3,4,2)] by simp
  let ?s2 = "s\<lparr>outlet := k2\<rparr>"
  have w2: "writable (outlet ?s2)" using 2(4) by simp
  obtain k3 t3 where 3: "to_outlet ?s2 (drop i ?h @ NUL # [])
      = Some (int (length (sent (outlet ?s2) (drop i ?h))), ?s2\<lparr>outlet := k3\<rparr>, sent (outlet ?s2) (drop i ?h) @ NUL # t3)"
    "writable k3" "sunk k3 = sunk (outlet ?s2) @ sent (outlet ?s2) (drop i ?h)" "same_kind k3 (outlet ?s2)"
    "length (sent (outlet ?s2) (drop i ?h) @ NUL # t3) = length (drop i ?h) + 1 + length ([] :: string)"
    "drop (length (drop i ?h) + 1) (sent (outlet ?s2) (drop i ?h) @ NUL # t3) = []"
    by (rule to_outlet_text [OF e w2])
  let ?s3 = "s\<lparr>outlet := k3\<rparr>"
  have b: "overwrite b2 0 (CRLF @ [NUL]) = eol @ NUL # drop 3 b2" by (simp add: overwrite_def CRLF_def eol_def numeral_3_eq_3)
  have l: "crlf_ended eol" by (simp add: crlf_ended_def eol_def)
  have w3: "writable (outlet ?s3)" using 3(2) by simp
  obtain k4 t4 where 4: "to_outlet ?s3 (eol @ NUL # drop 3 b2)
      = Some (int (length (sent (outlet ?s3) eol)), ?s3\<lparr>outlet := k4\<rparr>, sent (outlet ?s3) eol @ NUL # t4)"
    "writable k4" "sunk k4 = sunk (outlet ?s3) @ sent (outlet ?s3) eol" "same_kind k4 (outlet ?s3)"
    "length (sent (outlet ?s3) eol @ NUL # t4) = length eol + 1 + length (drop 3 b2)"
    "drop (length eol + 1) (sent (outlet ?s3) eol @ NUL # t4) = drop 3 b2"
    by (rule to_outlet_text [OF l w3])
  have c: "cstr_of (sent k3 eol @ NUL # t4) = sent k3 eol" by (rule cstr_of_append_NUL) (simp add: c_string_def sent_def eol_def)
  have kinds: "sent k1 = sent (outlet s)" "sent k2 = sent (outlet s)" "sent k3 = sent (outlet s)"
    using same_kind_sent [OF 1(6)] same_kind_sent [OF 2(6)] same_kind_sent [OF 3(4)] by simp_all
  have n3: "int (length (sent k2 (drop i ?h))) \<noteq> -1" by simp
  have "\<exists>m1. ship_headers q t so ngood 0 m False r False buf s = Some (PS_SUCCESS, m1, s\<lparr>outlet := k4\<rparr>)"
    unfolding ship_headers_def 1(1) bind.simps case_prod_conv 2(1)
    using 2(2) 3(1) 4(1) 1(3) n3 c by (simp add: ship_warning_def b PS_SUCCESS_def)
  then show ?thesis using 1(5) 2(5) 3(3) 4(3) kinds by (auto simp: sent_append)
qed

end
