(* ===== verification/ShipProps.thy ===== *)
theory ShipProps
  imports HeaderText MultiProps SinkProps
begin

section \<open>What readheaders makes of the headers\<close>

subsection \<open>Samples\<close>

definition plain_options :: header_options where
  "plain_options =
     \<lparr>dot_ended = True, add_cr = False, accept_bad = False, decode_mime = False, pop2 = False, drop_delivered = True, drop_status = False,
      rewriting = False, envelope = Unset, envskip = 0, mda = None, bsmtp = None,
      drops = \<lparr>qvirtual = None, localdomains = [], localnames = [(''joe'', None)], wildcard = False\<rparr>,
      server = sample_names, resolve = up, eof_char = NUL\<rparr>"

definition sample_ship :: ship_options where
  "sample_ship =
     \<lparr>user_name = ''joe'', invisible = False, peer = Some ''1.2.3.4'', protocol_name = ''POP3'', version = ''6'', tracepolls = False, pollname = ''mx'',
      folder = None, listener_up = True, file_opens = True, mda_opens = True, sdps_envfrom = None, sdps_envto = None,
      stack_digest = \<lparr>hbuf = (0, 0, 0, 0), bits0 = 0, bits1 = 0, inb = replicate 64 0\<rparr>, stack_errhd = replicate 640 NUL\<rparr>"

definition sample_outlet :: sink where
  "sample_outlet =
     \<lparr>smtp_socket = None, file_out = [], file_bad = False, has_mda = True, has_bsmtp = False, base_delimited = True, forcecr = False, stripcr = False\<rparr>"

definition smtp_idle :: delivery where
  "smtp_idle = \<lparr>listener = \<lparr>conn = \<lparr>inp = [], avail = [], wroom = [], outp = []\<rparr>, response_buf = []\<rparr>, connected = False,
     message_of = \<lparr>headers = [], recipients = [], return_path = [], reallen = 0\<rparr>, locals = [], bounces = [], lmtp_responses = 0\<rparr>"

definition sample_letters :: letter_session where
  "sample_letters = \<lparr>lastdigest = [], server_aliases = \<lparr>akalist = [], errors = 0\<rparr>,
     mime_state = \<lparr>BodyState = S_BODY_DATA, CurrEncodingIsQP = False, CurrTypeNeedsDecode = False, MultipartDelimiter = [NUL], scanner = nxt_init 20\<rparr>,
     outlet = sample_outlet, transport = smtp_idle\<rparr>"

definition multi_options :: header_options where
  "multi_options = plain_options\<lparr>drops := sample_drop\<lparr>wildcard := True\<rparr>, resolve := down\<rparr>"

definition put_off :: collecting where
  "put_off = (start_collecting \<lparr>akalist = [], errors = 0\<rparr> (nxt_init 20))\<lparr>collected := Some (''To: joe@b'' @ eol), to_chain := [0]\<rparr>"

lemma sample_headers:
  "list_all header_ok [[''Subject: a'', '' b''], [''From a 10:00''], [''To: joe'']]"
  "headers_text [[''Subject: a'', '' b''], [''From a 10:00''], [''To: joe'']]
    = ''Subject: a'' @ eol @ '' b'' @ eol @ ''From a 10:00'' @ eol @ ''To: joe'' @ eol"
  by (simp_all add: header_part_def continuation_def MSGBUFSIZE_def headers_text_def header_text_def)

definition reading_of :: "string \<Rightarrow> reading" where
  "reading_of t = \<lparr>hsock = \<lparr>inp = t, avail = [3, 0], wroom = [], outp = []\<rparr>, cells = replicate 9 NUL, remaining = 0, size_read = 0\<rparr>"


subsection \<open>NULs\<close>

lemma read_chunk_clean: "read_chunk r = Some (b, r1) \<Longrightarrow> NUL \<notin> set b"
proof (induction r rule: read_chunk.induct)
  case (1 r)
  obtain n c s where s: "SockRead (hsock r) MSGBUFSIZE = (n, c, s)" by (metis prod_cases3)
  have n: "n \<noteq> -1" using 1(2) s by (auto simp: read_chunk.simps [of r])
  let ?r1 = "r\<lparr>hsock := s, cells := overwrite (overwrite (cells r) 0 (c @ [NUL])) 0 (filter (\<lambda>c. c \<noteq> NUL) c @ [NUL])\<rparr>"
  show ?case
  proof (cases "filter (\<lambda>c. c \<noteq> NUL) c = []")
    case True
    have "read_chunk ?r1 = Some (b, r1)"
      using 1(2) s n True by (simp add: read_chunk.simps [of r] Let_def)
    with 1(1) [OF s [symmetric] refl n refl refl True] show ?thesis by simp
  next
    case False
    then have "b = filter (\<lambda>c. c \<noteq> NUL) c" using 1(2) s n by (simp add: read_chunk.simps [of r] Let_def)
    then show ?thesis by simp
  qed
qed

lemma fixed_end_clean: "NUL \<notin> set b \<Longrightarrow> NUL \<notin> set (fixed_end cr b)"
  by (auto simp: fixed_end_def dest: in_set_butlastD)

lemma read_header_line_clean:
  "NUL \<notin> set l \<Longrightarrow>
   (case read_header_line q f l r of Broken \<Rightarrow> True | Ended l1 f1 e r1 \<Rightarrow> NUL \<notin> set l1 | Whole l1 f1 r1 \<Rightarrow> NUL \<notin> set l1)"
proof (induction q f l r rule: read_header_line.induct)
  case (1 q f l r)
  show ?case
  proof (cases "read_chunk r")
    case None
    then show ?thesis by (simp add: read_header_line.simps [of q f l r])
  next
    case (Some p)
    obtain b r0 where p: "p = (b, r0)" by fastforce
    let ?l1 = "l @ fixed_end (add_cr q) b" and ?ch = "SockPeek (eof_char q) (hsock r0)"
    have b: "NUL \<notin> set (l @ b)" "NUL \<notin> set ?l1" using read_chunk_clean Some p fixed_end_clean 1(3) by auto
    note step = read_header_line_turn [OF Some [unfolded p] refl refl, of q f l]
    have a: "last b \<noteq> LF \<Longrightarrow> ?thesis"
      using 1(1) [OF Some p [symmetric] refl _ b(1)] step by (auto simp: after_chunk_def)
    have c: "last b = LF \<Longrightarrow> \<not> end_of_header ?l1 \<Longrightarrow> \<not> (dot_ended q \<and> hd ?l1 = CHR ''.'' \<and> EMPTYLINE (tl ?l1)) \<Longrightarrow>
        ?ch = SP \<or> ?ch = CHR 0x09 \<Longrightarrow> ?thesis"
      using 1(2) [OF Some p [symmetric] refl _ refl _ _ refl refl _ b(2)] step by (auto simp: after_chunk_def)
    show ?thesis using a c step b(2) by (auto split: line_result.splits)
  qed
qed

lemma note_nuls [simp]:
  "has_nuls (note_envelope q l i e st) = has_nuls st"
  by (auto simp: note_envelope_def)

lemma append_line_nuls: "append_line q l st = Some st1 \<Longrightarrow> has_nuls st1 = has_nuls st"
  by (auto simp: append_line_def Let_def note_recipient_def note_received_def split: if_splits env_option.splits bind_splits)

lemma stash_path_nuls: "stash_path q l st = Some (b, st1) \<Longrightarrow> has_nuls st1 = has_nuls st"
  by (auto simp: stash_path_def split: if_splits option.splits)

lemma header_line_nuls:
  assumes "header_line q num l st = Some st1" "NUL \<notin> set l"
  shows "has_nuls st1 = has_nuls st"
proof -
  define s0 where "s0 = (if length l \<noteq> length (cstr_of l) then st\<lparr>has_nuls := True\<rparr> else st)"
  have s0: "has_nuls s0 = has_nuls st" using assms(2) by (simp add: s0_def cstr_of_clean)
  have "st1 = st \<or> st1 = s0\<lparr>retain_mail := True\<rparr> \<or> st1 = s0 \<or> st1 = take_delivered q (cstr_of l) s0
    \<or> (\<exists>l1 b s2. stash_path q (cstr_of l1) s0 = Some (b, s2) \<and> (st1 = s2 \<or> append_line q l1 s2 = Some st1))"
    using assms unfolding header_line_def Let_def s0_def [symmetric] by (intro header_line_cases)
  then show ?thesis using s0 by (auto dest!: append_line_nuls stash_path_nuls)
qed

text \<open>
  C21. The test for embedded NULs never fires for a NUL that the server sent: the read has smashed it out before the length of the line is
  compared with its string length, so without the MIME decoder the flag stays unset, and with it the warning that is to be
  added to the message.
\<close>

theorem nuls_never_seen:
  assumes "\<not> decode_mime q" "\<not> has_nuls st" "header_loop q num st r = Some (e, st1, r1)"
  shows "\<not> has_nuls st1"
  using assms
proof (induction q num st r rule: header_loop.induct)
  case (1 q num st r)
  note loop = header_loop.simps [of q num st r]
  show ?case
  proof (cases "\<not> dot_ended q \<and> \<not> remaining r > 0")
    case True
    then show ?thesis using 1(3,4) loop by simp
  next
    case False
    note clean = read_header_line_clean [of "[]" q "refuse_mail st" r]
    show ?thesis
    proof (cases "read_header_line q (refuse_mail st) [] r")
      case Broken
      then show ?thesis using 1(3,4) loop False by simp
    next
      case (Ended l f e1 r2)
      then show ?thesis using 1(3,4) loop False clean by (auto simp: cstr_of_clean)
    next
      case (Whole l f r2)
      then have l: "NUL \<notin> set l" using clean by simp
      have d: "decode_header q l = Some l" using 1(2) by (simp add: decode_header_def)
      obtain st2 where st2: "header_line q num l (st\<lparr>refuse_mail := f\<rparr>) = Some st2" "header_loop q num st2 r2 = Some (e, st1, r1)"
        using 1(4) loop False Whole d by (auto split: option.splits)
      have "\<not> has_nuls st2" using header_line_nuls [OF st2(1) l] 1(3) by simp
      then show ?thesis using 1(1) [OF False Whole d st2(1) 1(2)] st2(2) by simp
    qed
  qed
qed

theorem nuls_never_seen_witness:
  "\<exists>st r1. header_loop plain_options 2 (start_collecting \<lparr>akalist = [], errors = 0\<rparr> (nxt_init 9)) (reading_of (''To: joe'' @ eol @ eol))
      = Some (Headers_read False, st, r1) \<and> \<not> has_nuls st"
proof -
  let ?st = "start_collecting \<lparr>akalist = [], errors = 0\<rparr> (nxt_init 9)" and ?r = "reading_of (''To: joe'' @ eol @ eol)" and ?hs = "[[''To: joe'']]"
  have ok: "list_all header_ok ?hs" using sample_headers(1) by simp
  have i: "inp (hsock ?r) = headers_text ?hs @ eol @ []" by (simp add: reading_of_def headers_text_def header_text_def)
  have q: "\<not> decode_mime plain_options" "dot_ended plain_options" by (simp_all add: plain_options_def)
  have st: "\<not> refuse_mail ?st" "\<not> has_nuls ?st" by (simp_all add: start_collecting_def)
  have f: "feed_headers plain_options 2 ?hs ?st \<noteq> None" by code_simp
  obtain st1 r1 where "header_loop plain_options 2 ?st ?r = Some (Headers_read False, st1, r1)"
    using header_loop_feeds [OF ok i q(1) st(1), of 2] q(2) f by auto
  from this nuls_never_seen [OF q(1) st(2) this] show ?thesis by blast
qed

subsection \<open>The folder of the UW server\<close>

lemma feed_retained: "retain_mail st \<Longrightarrow> feed_headers q num hs st = Some st"
  by (induction hs) (simp_all add: header_line_def)

lemma folder_line_retains:
  assumes "NUL \<notin> set l" "folder_line q num l" "\<not> retain_mail st" "\<not> refuse_mail st"
  shows "header_line q num l st = Some (st\<lparr>retain_mail := True\<rparr>)"
  using assms by (simp add: header_line_def folder_line_def cstr_of_clean Let_def)

lemma feed_folder:
  "single_drop q \<Longrightarrow> list_all header_ok hs \<Longrightarrow> \<forall>h\<in>set hs. \<not> has_iprefix (header_text h) ''Return-Path:'' \<Longrightarrow>
   \<exists>h\<in>set hs. folder_line q num (header_text h) \<Longrightarrow> \<not> retain_mail st \<Longrightarrow> \<not> refuse_mail st \<Longrightarrow>
   \<exists>st1. feed_headers q num hs st = Some st1 \<and> retain_mail st1"
proof (induction hs arbitrary: st)
  case (Cons h hs)
  have clean: "NUL \<notin> set (header_text h)" using header_text_clean Cons.prems(2) by simp
  show ?case
  proof (cases "folder_line q num (header_text h)")
    case True
    then show ?thesis using folder_line_retains [OF clean True Cons.prems(5,6)] feed_retained by simp
  next
    case False
    obtain st1 where "header_line q num (header_text h) st = Some st1" "retain_mail st1 = retain_mail st" "refuse_mail st1 = refuse_mail st"
      using header_line_keeps [OF Cons.prems(1) clean _ False Cons.prems(5,6)] Cons.prems(3) by auto
    then show ?thesis using Cons.IH [of st1] Cons.prems False by simp
  qed
qed simp



subsection \<open>Duplicates\<close>

lemma address_keeps_digest: "address_message q t so len st s = Some (ty, m, none, f, s1) \<Longrightarrow> lastdigest s1 = lastdigest s"
  by (auto simp: address_message_def split: bind_splits)

lemma open_sink_keeps_digest: "open_sink q t so m s = Some (r, g, b, m1, s1) \<Longrightarrow> lastdigest s1 = lastdigest s"
  by (auto simp: open_sink_def split: option.splits if_splits prod.splits bind_splits)

lemma to_outlet_keeps_digest: "to_outlet s b = Some (n, s1, b1) \<Longrightarrow> lastdigest s1 = lastdigest s"
  by (auto simp: to_outlet_def)

lemma ship_headers_keeps_digest:
  assumes "ship_headers q t so g b m none rejects nuls buf s = Some (r, m1, s1)"
  shows "lastdigest s1 = lastdigest s"
proof -
  let ?trace = "\<lambda>n s2. if \<not> invisible t \<and> n \<noteq> -1 then ship_trace (multidrop (drops q)) t so g (recipients m) s2 buf else Some (n, s2, buf)"
  obtain n i s2 h where 0: "ship_front s (headers m) = Some (n, i, s2, h)"
    using assms by (cases "ship_front s (headers m)") (auto simp: ship_headers_def)
  note eq1 = assms [unfolded ship_headers_def 0 bind.simps case_prod_conv]
  obtain n1 s3 buf1 where 2: "?trace n s2 = Some (n1, s3, buf1)"
    using eq1 by (cases "?trace n s2") auto
  note eq2 = eq1 [unfolded 2 bind.simps case_prod_conv]
  obtain n2 s4 rest where 3: "(if n1 \<noteq> -1 then to_outlet s3 (drop i h) else Some (n1, s3, drop i h)) = Some (n2, s4, rest)"
    using eq2 by (cases "if n1 \<noteq> -1 then to_outlet s3 (drop i h) else Some (n1, s3, drop i h)") auto
  note eq3 = eq2 [unfolded 3 bind.simps case_prod_conv Let_def]
  have 4: "s1 = s4 \<or> (\<exists>s5. ship_warning t none rejects nuls b (recipients m) s4 = Some s5 \<and> (\<exists>c n3 b3. to_outlet s5 c = Some (n3, s1, b3)))"
  proof (cases "n2 = -1")
    case True
    then show ?thesis using eq3 by simp
  next
    case False
    show ?thesis using eq3 unfolding if_not_P [OF False] by (auto simp: Option.bind_eq_Some_conv)
  qed
  note 1 = 0 2 3 4
  have a: "lastdigest s2 = lastdigest s" using 1(1) by (auto simp: ship_front_def Let_def dest: to_outlet_keeps_digest split: if_splits)
  have b: "lastdigest s3 = lastdigest s2" using 1(2)
    by (auto simp: ship_trace_def Option.bind_eq_Some_conv dest!: to_outlet_keeps_digest split: if_splits)
  have c: "lastdigest s4 = lastdigest s3" using 1(3) by (auto dest: to_outlet_keeps_digest split: if_splits)
  have d: "lastdigest s5 = lastdigest s4" if "ship_warning t none rejects nuls b (recipients m) s4 = Some s5" for s5
    using that by (auto simp: ship_warning_def Option.bind_eq_Some_conv dest!: to_outlet_keeps_digest split: if_splits)
  show ?thesis using a b c d 1(4) to_outlet_keeps_digest by metis
qed

text \<open>Whatever becomes of a message that is addressed, its digest stays.\<close>

lemma process_keeps_digest:
  assumes "process_headers q t so len errs st buf s = Some (c, m, s1)" "multidrop (drops q)" "\<not> retain_mail st" "\<not> refuse_mail st"
    "collected st = Some h"
  shows "lastdigest s1 = headers_digest (stack_digest t) h"
proof -
  let ?d = "headers_digest (stack_digest t) h"
  show ?thesis
  proof (cases "fst (duplicate q (stack_digest t) st (lastdigest s))")
    case True
    then show ?thesis using assms by (auto simp: process_headers_def duplicate_def Let_def split: if_splits)
  next
    case False
    then have d: "duplicate q (stack_digest t) st (lastdigest s) = (False, ?d)"
      using assms(2,5) by (auto simp: duplicate_def Let_def split: if_splits)
    let ?s = "s\<lparr>lastdigest := ?d\<rparr>"
    obtain ty m0 none f s2 where a: "address_message q t so len st ?s = Some (ty, m0, none, f, s2)"
      using assms(1,3,4) d by (auto simp: process_headers_def Let_def split: bind_splits)
    have s2: "lastdigest s2 = ?d" using address_keeps_digest [OF a] by simp
    show ?thesis
    proof (cases "errors (known f) > errs")
      case True
      then show ?thesis using assms(1,3,4) d a s2 by (simp add: process_headers_def Let_def)
    next
      case False
      then obtain r g b m1 s3 where o: "open_sink q t (so\<lparr>mimemsg := ty\<rparr>) m0 s2 = Some (r, g, b, m1, s3)"
        "s1 = s3 \<or> (\<exists>e m2. ship_headers q t (so\<lparr>mimemsg := ty\<rparr>) g b m1 none (reject_count f) (has_nuls st) buf s3 = Some (e, m2, s1))"
        using assms(1,3,4) d a by (auto simp: process_headers_def Let_def Option.bind_eq_Some_conv split: if_splits)
      show ?thesis using o(2) open_sink_keeps_digest [OF o(1)] s2 ship_headers_keeps_digest by metis
    qed
  qed
qed



subsection \<open>The warning header\<close>

text \<open>A buffer with a string in it, and what \<open>put_more\<close> makes of it.\<close>

lemma put_str_cut:
  assumes "length b = Suc n" "NUL \<notin> set s"
  shows "length (put_str b 0 (length b) s) = Suc n \<and> cstr_of (put_str b 0 (length b) s) = take n s"
proof -
  have "put_str b 0 (length b) s = take n s @ NUL # drop (Suc (length (take n s))) b"
    using assms(1) by (simp add: put_str_def overwrite_def)
  moreover have "c_string (take n s)" using assms(2) by (auto simp: c_string_def dest: in_set_takeD)
  ultimately show ?thesis using assms(1) cstr_of_append_NUL by simp
qed

lemma put_more_cut:
  assumes "length b = Suc n" "cstr_of b = w" "length w \<le> n" "NUL \<notin> set s"
  shows "length (put_more b 0 s) = Suc n \<and> cstr_of (put_more b 0 s) = take n (w @ s)"
proof -
  have w: "take (length w) b = w" using assms(2) by (metis cstr_of_def takeWhile_eq_take)
  have lim: "length b - length w = Suc (n - length w)" using assms(1,3) by simp
  have e: "put_more b 0 s = (w @ take (n - length w) s) @ NUL # drop (length w + Suc (length (take (n - length w) s))) b"
    using w lim assms(1-3) by (simp add: put_more_def put_str_def overwrite_def Let_def)
  have "c_string w" using assms(2) c_string_cstr_of by blast
  then have "c_string (w @ take (n - length w) s)" using assms(4) by (auto simp: c_string_def dest: in_set_takeD)
  then have "cstr_of (put_more b 0 s) = w @ take (n - length w) s" unfolding e by (rule cstr_of_append_NUL)
  moreover have "length (put_more b 0 s) = Suc n" using assms(1,3) unfolding e by simp
  ultimately show ?thesis using assms(3) by simp
qed

text \<open>
  C20. The warning for a message whose one recipient matched no local name is written into 640 cells with limits, and then the line end is
  added without one: with an address of more than 570 characters, which the sender chooses, it is written behind the array.
\<close>

theorem warning_overflows:
  assumes "length stack = 640" "NUL \<notin> set i"
  shows "warning stack True 1 False 0 ((i, XMIT_REJECT) # rs) = None \<longleftrightarrow> 570 < length i"
proof -
  let ?e0 = "put_str stack 0 (length stack) warning_start"
  let ?s = "''recipient address '' @ i @ '' didn'' @ [CHR 0x27] @ ''t match any local name''"
  have w: "length warning_start = 21" "NUL \<notin> set warning_start" by (simp_all add: warning_start_def)
  have e0: "length ?e0 = Suc 639" "cstr_of ?e0 = warning_start"
    using put_str_cut [of stack 639 warning_start] assms(1) w by simp_all
  have e1: "length (put_more ?e0 0 ?s) = Suc 639" "cstr_of (put_more ?e0 0 ?s) = take 639 (warning_start @ ?s)"
    using put_more_cut [OF e0, of ?s] w(1) assms(2) by auto
  have "length (take 639 (warning_start @ ?s)) + 3 \<le> 640 \<longleftrightarrow> length i \<le> 570" using w(1) by auto
  then show ?thesis using e1 by (auto simp: warning_def no_match_def)
qed

theorem warning_overflows_witness:
  "warning (replicate 640 NUL) True 1 False 0 [(replicate 571 (CHR ''a''), XMIT_REJECT), (''root'', XMIT_ACCEPT)] = None
   \<and> warning (replicate 640 NUL) True 1 False 0 [(replicate 570 (CHR ''a''), XMIT_REJECT), (''root'', XMIT_ACCEPT)] \<noteq> None"
  using warning_overflows [of "replicate 640 NUL" "replicate 571 (CHR ''a'')" "[(''root'', XMIT_ACCEPT)]"]
    warning_overflows [of "replicate 640 NUL" "replicate 570 (CHR ''a'')" "[(''root'', XMIT_ACCEPT)]"] by simp

subsection \<open>A message as it is shipped\<close>

definition two_headers :: message where
  "two_headers = \<lparr>headers = ''To: joe'' @ eol @ ''Received: x'' @ eol, recipients = [(''joe'', XMIT_ACCEPT)], return_path = [], reallen = 10\<rparr>"

theorem ship_headers_text_witness:
  "\<exists>m1 s1. ship_headers plain_options sample_ship sink_sample 1 0 two_headers False 0 False (replicate (MSGBUFSIZE + 1) NUL) sample_letters
      = Some (PS_SUCCESS, m1, s1)
    \<and> sunk (outlet s1) = ''To: joe'' @ eol
        @ ''Received: from mail.org [1.2.3.4]'' @ eol @ CHR 0x09 # ''by me.org with POP3 (fetchmail-6)'' @ eol
        @ CHR 0x09 # ''for <joe@localhost> (single-drop); now'' @ eol
        @ ''Received: x'' @ eol @ eol"
proof -
  let ?tr = "trace_lines (multidrop (drops plain_options)) sample_ship sink_sample 1 (recipients two_headers)"
  have 1: "header_block (headers two_headers)" by code_simp
  have 2: "writable (outlet sample_letters)" by (simp add: sample_letters_def sample_outlet_def writable_def)
  have tr: "?tr = [''Received: from mail.org [1.2.3.4]'' @ eol, CHR 0x09 # ''by me.org with POP3 (fetchmail-6)'' @ eol,
      CHR 0x09 # ''for <joe@localhost> (single-drop); now'' @ eol]" by code_simp
  have 3: "list_all traceable ?tr" unfolding tr by (simp add: traceable_def MSGBUFSIZE_def eol_def)
  have 4: "accepted (recipients two_headers) \<noteq> []" by code_simp
  have 5: "received_at (headers two_headers) = 9" by code_simp
  have 6: "take 9 (headers two_headers) = ''To: joe'' @ eol" "drop 9 (headers two_headers) = ''Received: x'' @ eol"
    by (simp_all add: two_headers_def eol_def)
  have 7: "invisible sample_ship = False" "outlet sample_letters = sample_outlet" "sunk sample_outlet = []" "sent sample_outlet = (\<lambda>l. l)"
    by (simp_all add: sample_ship_def sample_letters_def sample_outlet_def sunk_def sent_def fun_eq_iff)
  have 8: "length (replicate (MSGBUFSIZE + 1) NUL) = MSGBUFSIZE + 1" by simp
  obtain m1 s1 where *: "ship_headers plain_options sample_ship sink_sample 1 0 two_headers False 0 False (replicate (MSGBUFSIZE + 1) NUL) sample_letters
      = Some (PS_SUCCESS, m1, s1)"
    "sunk (outlet s1) = sunk sample_outlet @ sent sample_outlet (take 9 (headers two_headers) @ concat ?tr @ drop 9 (headers two_headers) @ eol)"
    using ship_headers_text [OF 1 2 8 3 _ refl refl, of 0] 4 unfolding 5 7(1,2) by auto
  show ?thesis using * unfolding 6 7(3,4) tr by (intro exI [of _ m1] exI [of _ s1]) simp
qed

subsection \<open>Line breaks from the decoder\<close>

declare um_loop.simps [code]

text \<open>
  An encoded word may decode to line breaks: the header block then holds a line with a single dot, which goes to the listener
  as it is, for \<open>stuffline\<close> looks only at the first character of the block.
\<close>

theorem decoded_header_ends_data:
  "decode_header (plain_options\<lparr>decode_mime := True\<rparr>) (''Subject: =?x?Q?a=0D=0A.=0D=0Ab?='' @ eol)
    = Some (''Subject: a'' @ eol @ ''.'' @ eol @ ''b'' @ eol)"
  by code_simp

end
