(* ===== verification/DriveProps.thy ===== *)
theory DriveProps
  imports Drive
begin

section \<open>What becomes of the messages of a mailbox\<close>

subsection \<open>The events of a turn\<close>

definition about :: "event \<Rightarrow> int" where
  "about e = (case e of Old n \<Rightarrow> n | Large n \<Rightarrow> n | Headers n c \<Rightarrow> n | Body n c \<Rightarrow> n | Closed n a b \<Rightarrow> n | Deleted n \<Rightarrow> n | Seen n \<Rightarrow> n)"

definition final :: "event \<Rightarrow> bool" where
  "final e = (case e of Deleted n \<Rightarrow> True | Seen n \<Rightarrow> True | _ \<Rightarrow> False)"

lemma about_simps [simp]:
  "about (Old n) = n" "about (Large n) = n" "about (Headers n c) = n" "about (Body n c) = n" "about (Closed n a b) = n"
  "about (Deleted n) = n" "about (Seen n) = n"
  by (simp_all add: about_def)

lemma final_simps [simp]:
  "\<not> final (Old n)" "\<not> final (Large n)" "\<not> final (Headers n c)" "\<not> final (Body n c)" "\<not> final (Closed n a b)" "final (Deleted n)" "final (Seen n)"
  by (simp_all add: final_def)

text \<open>The new events of \<open>f1\<close> are about the message and end nothing; \<open>disposed\<close> is what allows to delete it.\<close>

definition turn_events :: "int \<Rightarrow> 's fetching \<Rightarrow> 's fetching \<Rightarrow> event list \<Rightarrow> bool" where
  "turn_events num f f1 es \<longleftrightarrow> events f1 = events f @ es \<and> (\<forall>e\<in>set es. about e = num \<and> \<not> final e)"

definition disposed :: "bool \<Rightarrow> int \<Rightarrow> event list \<Rightarrow> bool" where
  "disposed refused num es \<longleftrightarrow>
     (if refused then Headers num PS_REFUSED \<in> set es \<and> Closed num False True \<in> set es
      else Headers num 0 \<in> set es \<and> Closed num True True \<in> set es \<and> (\<forall>e. Body num e \<in> set es \<longrightarrow> e = 0))"

lemma log_events [simp]: "events (log_event e f) = events f @ [e]"
  by (simp add: log_event_def)

lemma eat_trailer_events: "eat_trailer m f = (t, f1) \<Longrightarrow> events f1 = events f"
  by (auto simp: eat_trailer_def split: option.splits prod.splits)

text \<open>The flags before the end of the message: deleting is allowed for a code of \<open>readheaders\<close> that says so.\<close>

definition flags_say :: "int \<Rightarrow> flags \<Rightarrow> event list \<Rightarrow> bool" where
  "flags_say num g es \<longleftrightarrow> msgcode g = MSGLEN_UNKNOWN \<and>
     (\<not> suppress_delete g \<longrightarrow> Headers num (if suppress_forward g then PS_REFUSED else 0) \<in> set es
        \<and> (\<not> suppress_forward g \<longrightarrow> (\<forall>e. Body num e \<in> set es \<longrightarrow> e = 0)))"

definition turn_ok :: "int \<Rightarrow> 's fetching \<Rightarrow> 's fetch_turn \<Rightarrow> bool" where
  "turn_ok num f t =
     (case t of
        Give_up e f1 \<Rightarrow> \<exists>es. turn_events num f f1 es
      | Next f1 \<Rightarrow> \<exists>es. turn_events num f f1 es
      | Flag g f1 \<Rightarrow> \<exists>es. turn_events num f f1 es \<and>
          (msgcode g = MSGLEN_OLD \<and> Old num \<in> set es \<or> msgcode g = MSGLEN_TOOLARGE \<and> Large num \<in> set es
           \<or> msgcode g = MSGLEN_UNKNOWN \<and> (\<not> suppress_delete g \<longrightarrow> disposed (suppress_forward g) num es)))"

lemma finish_message_ok:
  assumes "turn_events num f0 f es" "flags_say num g es"
  shows "turn_ok num f0 (finish_message st num g f)"
proof -
  obtain ok s1 where k: "finish st (session f) (\<not> suppress_forward g) = (ok, s1)" by fastforce
  have s: "session (if suppress_forward g then f else f\<lparr>dispatches := dispatches f + 1\<rparr>) = session f" by simp
  show ?thesis
    using assms
    by (auto simp: finish_message_def Let_def s k turn_ok_def turn_events_def flags_say_def disposed_def
        intro!: exI [of _ "es @ [Closed num (\<not> suppress_forward g) ok]"])
qed

lemma request_body_events: "request_body m num len msgsize msglen f = (e, l, f1) \<Longrightarrow> events f1 = events f"
  by (auto simp: request_body_def split: option.splits prod.splits)

lemma count_transient_events [simp]: "events (count_transient e f) = events f"
  by (simp add: count_transient_def)

lemma fetch_the_body_ok:
  assumes "turn_events num f0 f es" "flags_say num g es" "\<forall>e. Body num e \<notin> set es"
  shows "turn_ok num f0 (fetch_the_body m st num len msgsize msglen g f)"
proof -
  obtain err len1 f1 where 1: "request_body m num len msgsize msglen f = (err, len1, f1)" by (metis prod_cases3)
  have t1: "turn_events num f0 f1 es" using assms(1) request_body_events [OF 1] by (simp add: turn_events_def)
  obtain e s2 where 2: "read_body st (session f1) (\<not> suppress_forward g) len1 = (e, s2)" by fastforce
  define f2 where "f2 = log_event (Body num e) (f1\<lparr>session := s2\<rparr>)"
  have t2: "turn_events num f0 f2 (es @ [Body num e])" using t1 by (simp add: f2_def turn_events_def)
  define g1 where "g1 = (if e = PS_TRANSIENT then g\<lparr>suppress_delete := True, suppress_forward := True\<rparr> else g)"
  obtain t f4 where 4: "eat_trailer m (count_transient e f2) = (t, f4)" by fastforce
  have t4: "turn_events num f0 f4 (es @ [Body num e])" using t2 eat_trailer_events [OF 4] by (simp add: turn_events_def)
  have eq: "fetch_the_body m st num len msgsize msglen g f =
      (if err \<noteq> 0 then Give_up err f1 else if e \<noteq> 0 \<and> e \<noteq> PS_TRANSIENT then Give_up e f2
       else if t \<noteq> 0 then Give_up t f4 else finish_message st num g1 f4)"
    by (simp only: fetch_the_body_def 1 2 4 Let_def case_prod_conv f2_def [symmetric] g1_def [symmetric])
  have "flags_say num g1 (es @ [Body num e])" if "e = 0 \<or> e = PS_TRANSIENT"
    using assms(2,3) that by (auto simp: g1_def flags_say_def PS_TRANSIENT_def)
  from finish_message_ok [OF t4 this] show ?thesis unfolding eq using t1 t2 t4 by (auto simp: turn_ok_def)
qed

lemma fetch_one_ok: "turn_ok num f (fetch_one m st num msgsize f)"
proof -
  define sep where "sep = (fetch_body m \<noteq> None)"
  obtain err len0 s1 where 1: "fetch_headers m (session f) num = (err, len0, s1)" by (metis prod_cases3)
  define f1 where "f1 = f\<lparr>session := s1\<rparr>"
  define len where "len = (if len0 = -1 then msgsize else len0)"
  obtain h s2 where 2: "read_headers st (session f1) num len msgsize (\<not> sep) = (h, s2)" by fastforce
  define f2 where "f2 = log_event (Headers num (hcode h)) (f1\<lparr>session := s2, errcount := errcount f1 + herrors h\<rparr>)"
  obtain t f4 where 4: "(if sep then eat_trailer m (count_transient (hcode h) f2) else (0, count_transient (hcode h) f2)) = (t, f4)" by fastforce
  have t0: "turn_events num f (count_transient e f1) []" "turn_events num f f1 []" for e
    by (simp_all add: turn_events_def f1_def)
  have t2: "turn_events num f f2 [Headers num (hcode h)]" by (simp add: f2_def f1_def turn_events_def)
  have "events f4 = events f2"
  proof (cases sep)
    case True
    then show ?thesis using eat_trailer_events [of m "count_transient (hcode h) f2" t f4] 4 by simp
  next
    case False
    then have "f4 = count_transient (hcode h) f2" using 4 by simp
    then show ?thesis by simp
  qed
  then have t4: "turn_events num f f4 [Headers num (hcode h)]" using t2 by (simp add: turn_events_def)
  have eq: "fetch_one m st num msgsize f =
     (if err = PS_TRANSIENT then Next (count_transient err f1)
      else if err \<noteq> 0 then Give_up err f1
      else if hcode h \<noteq> 0 \<and> hcode h \<noteq> PS_RETAINED \<and> hcode h \<noteq> PS_TRANSIENT \<and> hcode h \<noteq> PS_REFUSED then Give_up (hcode h) f2
      else if t \<noteq> 0 then Give_up t f4
      else if sep \<and> suppress_forward (header_flags (hcode h)) \<or> \<not> sep \<and> no_body h then finish_message st num (header_flags (hcode h)) f4
      else fetch_the_body m st num len msgsize (hlen h) (header_flags (hcode h)) f4)"
    by (simp only: fetch_one_def sep_def [symmetric] 1 len_def [symmetric] 2 Let_def case_prod_conv f1_def [symmetric] f2_def [symmetric] 4)
  have g: "flags_say num (header_flags c) [Headers num c]" if "c = 0 \<or> c = PS_RETAINED \<or> c = PS_TRANSIENT \<or> c = PS_REFUSED" for c
    using that by (auto simp: header_flags_def flags_say_def PS_RETAINED_def PS_TRANSIENT_def PS_REFUSED_def)
  define known where "known \<longleftrightarrow> hcode h = 0 \<or> hcode h = PS_RETAINED \<or> hcode h = PS_TRANSIENT \<or> hcode h = PS_REFUSED"
  have nb: "\<forall>e. Body num e \<notin> set [Headers num (hcode h)]" by simp
  have ends: "turn_ok num f (Next (count_transient e f1))" "turn_ok num f (Give_up e f1)" "turn_ok num f (Give_up e f2)" "turn_ok num f (Give_up e f4)" for e
    unfolding turn_ok_def using t0 t2 t4 by auto
  have goes: "turn_ok num f (finish_message st num (header_flags (hcode h)) f4)"
    "turn_ok num f (fetch_the_body m st num len msgsize (hlen h) (header_flags (hcode h)) f4)" if known
    using finish_message_ok [OF t4 g] fetch_the_body_ok [OF t4 g nb] that unfolding known_def by blast+
  have not_known: "(hcode h \<noteq> 0 \<and> hcode h \<noteq> PS_RETAINED \<and> hcode h \<noteq> PS_TRANSIENT \<and> hcode h \<noteq> PS_REFUSED) = (\<not> known)"
    by (auto simp: known_def)
  show ?thesis unfolding eq not_known using ends goes by (auto split: if_split)
qed


lemma get_block_events: "get_block m q count num f = Some (e, f1) \<Longrightarrow> events f1 = events f"
  by (auto simp: get_block_def Let_def split: if_splits bind_splits prod.splits)

lemma start_turn_ok:
  assumes "start_turn m st q force count num f = Some t"
  shows "turn_ok num f t"
proof -
  obtain old f1 where 1: "(if fetch_all q \<or> force then (False, f)
        else (case is_old m of None \<Rightarrow> (False, f) | Some old_one \<Rightarrow> (let (b, s1) = old_one (session f) num in (b, f\<lparr>session := s1\<rparr>)))) = (old, f1)"
    by fastforce
  have e1: "events f1 = events f" using 1 by (auto split: if_splits option.splits prod.splits)
  note a = assms [unfolded start_turn_def 1, unfolded Let_def case_prod_conv]
  show ?thesis
  proof (cases old)
    case True
    then have "t = Flag (skip_flags MSGLEN_OLD False) (log_event (Old num) f1)" using a by simp
    then show ?thesis using e1 by (auto simp: turn_ok_def turn_events_def skip_flags_def intro!: exI [of _ "[Old num]"])
  next
    case False
    then obtain err f2 where 2: "get_block m q count num f1 = Some (err, f2)" using a by (auto split: bind_splits)
    have e2: "events f2 = events f" using get_block_events [OF 2] e1 by simp
    show ?thesis
    proof (cases err)
      case (Some e)
      then have "t = Give_up e f2" using a False 2 by simp
      then show ?thesis using e2 by (auto simp: turn_ok_def turn_events_def intro: exI [of _ "[]"])
    next
      case None
      then obtain msgsize where 3: "msgsize_of f2 num = Some msgsize" using a False 2 by (auto split: bind_splits)
      have t: "t = (if NUM_NONZERO (size_limit q) \<and> msgsize > size_limit q
          then Flag (skip_flags MSGLEN_TOOLARGE (\<not> limit_flush q)) (log_event (Large num) (f2\<lparr>skipped := mark_oversized (skipped f2) msgsize\<rparr>))
          else fetch_one m st num msgsize f2)"
        using a False 2 None 3 by (auto split: if_splits)
      have "turn_ok num f (fetch_one m st num msgsize f2)"
        using fetch_one_ok [of num f2 m st msgsize] e2 by (auto simp: turn_ok_def turn_events_def split: fetch_turn.splits)
      then show ?thesis unfolding t using e2
        by (auto simp: turn_ok_def turn_events_def skip_flags_def intro!: exI [of _ "[Large num]"])
    qed
  qed
qed

subsection \<open>Deleted and seen messages\<close>

definition may_go :: "fetch_options \<Rightarrow> int \<Rightarrow> event list \<Rightarrow> bool" where
  "may_go q n es \<longleftrightarrow> disposed False n es \<or> \<not> softbounce q \<and> disposed True n es"

definition ending :: "fetch_options \<Rightarrow> int \<Rightarrow> event list \<Rightarrow> bool" where
  "ending q n es \<longleftrightarrow>
     (Deleted n \<in> set es \<longrightarrow> Old n \<in> set es \<and> flush_old q \<or> Large n \<in> set es \<and> limit_flush q \<or> \<not> keep_new q \<and> may_go q n es)
     \<and> (Seen n \<in> set es \<longrightarrow> keep_new q \<and> may_go q n es)"

lemma disposed_append:
  assumes "\<forall>e\<in>set es2. about e \<noteq> n"
  shows "disposed r n (es1 @ es2) = disposed r n es1" "disposed r n (es2 @ es1) = disposed r n es1"
  using assms by (force simp: disposed_def)+

lemma ending_append:
  assumes "\<forall>e\<in>set es2. about e \<noteq> n"
  shows "ending q n (es1 @ es2) = ending q n es1" "ending q n (es2 @ es1) = ending q n es1"
  using assms by (force simp: ending_def may_go_def disposed_append)+

lemma ending_none: "\<forall>e\<in>set es. about e \<noteq> n \<Longrightarrow> ending q n es"
  using ending_append(1) [of es n q "[]"] by (simp add: ending_def)

lemma ending_quiet: "\<forall>e\<in>set es. \<not> final e \<Longrightarrow> ending q n es"
  by (auto simp: ending_def)

lemma flag_message_ending:
  assumes "turn_ok num f (Flag g f1)" "flag_message m q num g f1 = (r, f2)"
  shows "\<exists>es. events f2 = events f @ es \<and> (\<forall>e\<in>set es. about e = num) \<and> ending q num es"
proof -
  obtain es where es: "turn_events num f f1 es"
    "msgcode g = MSGLEN_OLD \<and> Old num \<in> set es \<or> msgcode g = MSGLEN_TOOLARGE \<and> Large num \<in> set es
     \<or> msgcode g = MSGLEN_UNKNOWN \<and> (\<not> suppress_delete g \<longrightarrow> disposed (suppress_forward g) num es)"
    using assms(1) by (auto simp: turn_ok_def)
  have codes: "MSGLEN_OLD < 0" "MSGLEN_TOOLARGE < 0" "MSGLEN_OLD \<noteq> MSGLEN_TOOLARGE" "MSGLEN_UNKNOWN = 0"
    by (simp_all add: MSGLEN_OLD_def MSGLEN_TOOLARGE_def MSGLEN_UNKNOWN_def)
  define keep_it where "keep_it \<longleftrightarrow> suppress_delete g \<or> suppress_forward g \<and> softbounce q"
  have go: "may_go q num es" if "\<not> keep_it" "msgcode g \<ge> 0"
    using es(2) that codes by (cases "suppress_forward g") (auto simp: keep_it_def may_go_def)
  have last_one: "disposed b num (es @ [e]) = disposed b num es" if "final e" for b e
    using that by (cases e) (auto simp: disposed_def)
  then have go_last: "may_go q num (es @ [e]) = may_go q num es" if "final e" for e using that by (simp add: may_go_def)
  have quiet: "Deleted num \<notin> set es" "Seen num \<notin> set es" using es(1) by (auto simp: turn_events_def)
  consider (leave) "events f2 = events f1"
    | (delete) "events f2 = events f1 @ [Deleted num]" "\<not> keep_it"
        "msgcode g \<ge> 0 \<and> \<not> keep_new q \<or> msgcode g = MSGLEN_OLD \<and> flush_old q \<or> msgcode g = MSGLEN_TOOLARGE \<and> limit_flush q"
    | (see) "events f2 = events f1 @ [Seen num]" "\<not> keep_it" "msgcode g \<ge> 0" "keep_new q"
    using assms(2) unfolding flag_message_def Let_def keep_it_def [symmetric] by (auto split: if_splits prod.splits)
  then show ?thesis
  proof cases
    case leave
    then show ?thesis using es(1) by (intro exI [of _ es]) (auto simp: turn_events_def intro!: ending_quiet)
  next
    case delete
    have "ending q num (es @ [Deleted num])"
      using delete(2,3) go es(2) codes quiet by (auto simp: ending_def go_last)
    then show ?thesis using delete(1) es(1) by (intro exI [of _ "es @ [Deleted num]"]) (auto simp: turn_events_def)
  next
    case see
    have "ending q num (es @ [Seen num])" using see(2-4) go quiet by (auto simp: ending_def go_last)
    then show ?thesis using see(1) es(1) by (intro exI [of _ "es @ [Seen num]"]) (auto simp: turn_events_def)
  qed
qed

lemma fetch_loop_ending:
  "distinct nums \<Longrightarrow> fetch_loop m st q force count nums f = Some (r, f1) \<Longrightarrow>
     \<exists>es. events f1 = events f @ es \<and> (\<forall>e\<in>set es. about e \<in> set nums) \<and> (\<forall>n. ending q n es)"
proof (induction nums arbitrary: f)
  case Nil
  then show ?case by (auto simp: ending_def)
next
  case (Cons num nums)
  obtain t where t: "start_turn m st q force count num f = Some t" using Cons.prems(2) by (auto split: option.splits)
  note ok = start_turn_ok [OF t]
  have later: "\<exists>es. events f1 = events f @ es \<and> (\<forall>e\<in>set es. about e \<in> set (num # nums)) \<and> (\<forall>n. ending q n es)"
    if f2: "events f2 = events f @ es1" "\<forall>e\<in>set es1. about e = num" "ending q num es1"
      and rest: "fetch_loop m st q force count nums f2 = Some (r, f1)" for f2 es1
  proof -
    obtain es2 where es2: "events f1 = events f2 @ es2" "\<forall>e\<in>set es2. about e \<in> set nums" "\<forall>n. ending q n es2"
      using Cons.IH [OF _ rest] Cons.prems(1) by auto
    have "ending q n (es1 @ es2)" for n
    proof (cases "n = num")
      case True
      then have "\<forall>e\<in>set es2. about e \<noteq> n" using es2(2) Cons.prems(1) by auto
      then show ?thesis using f2(3) True by (simp add: ending_append)
    next
      case False
      then have "\<forall>e\<in>set es1. about e \<noteq> n" using f2(2) by auto
      then show ?thesis using es2(3) by (simp add: ending_append)
    qed
    then show ?thesis using f2(1,2) es2(1,2) by (intro exI [of _ "es1 @ es2"]) auto
  qed
  have now: ?case if "events f1 = events f @ es1" "\<forall>e\<in>set es1. about e = num" "ending q num es1" for es1
  proof -
    have "ending q n es1" for n using that(2,3) ending_none [of es1 n q] by (cases "n = num") auto
    then show ?thesis using that by auto
  qed
  show ?case
  proof (cases t)
    case (Give_up e f2)
    then obtain es1 where "turn_events num f f2 es1" using ok by (auto simp: turn_ok_def)
    then show ?thesis using now [of es1] Cons.prems(2) t Give_up by (auto simp: turn_events_def ending_quiet)
  next
    case (Next f2)
    then obtain es1 where "turn_events num f f2 es1" using ok by (auto simp: turn_ok_def)
    then show ?thesis using later [of f2 es1] Cons.prems(2) t Next by (auto simp: turn_events_def ending_quiet)
  next
    case (Flag g f2)
    obtain e f3 where f3: "flag_message m q num g f2 = (e, f3)" by fastforce
    obtain es1 where es1: "events f3 = events f @ es1" "\<forall>e\<in>set es1. about e = num" "ending q num es1"
      using flag_message_ending [OF ok [unfolded Flag] f3] by blast
    show ?thesis
      using Cons.prems(2) t Flag f3 now [of es1] later [of f3 es1] es1 by (auto split: option.splits if_splits)
  qed
qed

text \<open>
  C2. A message is deleted on the server, or marked as seen, for a reason only: it was old and is to be flushed, or it is too
  large and is to be flushed, or \<open>close_sink\<close> has said that the sink has taken it, after \<open>readheaders\<close> and \<open>readbody\<close>
  went without an error, or the listener refused it for good and refusals are not soft. With \<open>keep\<close> a new message is
  marked and never deleted. Whatever the server and the sink answer, and wherever the session ends.
\<close>

theorem deleted_is_disposed:
  assumes "fetch_messages m st q junk count f = Some (r, f1)" "events f = []"
  shows "ending q n (events f1)"
proof -
  obtain f0 where "fetch_loop m st q (\<not> peek_capable q \<and> errcount f > 0) count [1..count] f0 = Some (r, f1)" "events f0 = []"
    using assms by (auto simp: fetch_messages_def)
  then show ?thesis using fetch_loop_ending [of "[1..count]" m st q _ count f0 r f1] by auto
qed

subsection \<open>The array of sizes\<close>

definition sizes_fit :: "'s protocol_methods \<Rightarrow> fetch_options \<Rightarrow> int \<Rightarrow> int \<Rightarrow> 's fetching \<Rightarrow> bool" where
  "sizes_fit m q count num f \<longleftrightarrow>
     (if partial_sizes m q then \<exists>xs. msgsizes f = Some xs \<and> int (length xs) = size_window m q
        \<and> (lastnum f < num \<or> 1 \<le> firstnum f \<and> firstnum f \<le> num \<and> lastnum f \<le> firstnum f + size_window m q - 1)
      else firstnum f = 1 \<and> (\<forall>xs. msgsizes f = Some xs \<longrightarrow> count \<le> int (length xs)))"

text \<open>The law of the protocol: the array is written in place.\<close>

definition in_place :: "'s protocol_methods \<Rightarrow> bool" where
  "in_place m \<longleftrightarrow> (\<forall>g s a b xs e ys s'. getpartialsizes m = Some g \<longrightarrow> g s a b xs = (e, ys, s') \<longrightarrow> length ys = length xs)"

definition window :: "'s fetching \<Rightarrow> int \<times> int \<times> int list option" where
  "window f = (firstnum f, lastnum f, msgsizes f)"

definition turn_keeps :: "'s fetching \<Rightarrow> 's fetch_turn \<Rightarrow> bool" where
  "turn_keeps f t = (case t of Give_up e f1 \<Rightarrow> window f1 = window f | Next f1 \<Rightarrow> window f1 = window f | Flag g f1 \<Rightarrow> window f1 = window f)"

lemma window_updates [simp]:
  "window (f\<lparr>session := s\<rparr>) = window f" "window (log_event e f) = window f" "window (f\<lparr>fetches := a\<rparr>) = window f"
  "window (f\<lparr>dispatches := a\<rparr>) = window f" "window (f\<lparr>errcount := a\<rparr>) = window f" "window (f\<lparr>transient_errors := a\<rparr>) = window f"
  "window (f\<lparr>deleted := a\<rparr>) = window f" "window (f\<lparr>skipped := sk\<rparr>) = window f" "window (count_transient a f) = window f"
  by (simp_all add: window_def log_event_def count_transient_def)

lemma eat_trailer_window: "eat_trailer m f = (t, f1) \<Longrightarrow> window f1 = window f"
  by (auto simp: eat_trailer_def split: option.splits prod.splits)

lemma request_body_window: "request_body m num len a b f = (e, l, f1) \<Longrightarrow> window f1 = window f"
  by (auto simp: request_body_def split: option.splits prod.splits)

lemma finish_message_window: "window f = window f0 \<Longrightarrow> turn_keeps f0 (finish_message st num g f)"
  by (auto simp: finish_message_def turn_keeps_def Let_def split: prod.split)

lemma fetch_the_body_window: "window f = window f0 \<Longrightarrow> turn_keeps f0 (fetch_the_body m st num len a b g f)"
proof -
  assume w: "window f = window f0"
  obtain err len1 f1 where 1: "request_body m num len a b f = (err, len1, f1)" by (metis prod_cases3)
  obtain e s2 where 2: "read_body st (session f1) (\<not> suppress_forward g) len1 = (e, s2)" by fastforce
  define f2 where "f2 = log_event (Body num e) (f1\<lparr>session := s2\<rparr>)"
  obtain t f4 where 4: "eat_trailer m (count_transient e f2) = (t, f4)" by fastforce
  have w1: "window f1 = window f0" using request_body_window [OF 1] w by simp
  have w2: "window f2 = window f0" using w1 by (simp add: f2_def)
  have w4: "window f4 = window f0" using eat_trailer_window [OF 4] w2 by simp
  have ends: "turn_keeps f0 (Give_up err f1)" "turn_keeps f0 (Give_up e f2)" "turn_keeps f0 (Give_up t f4)"
    using w1 w2 w4 by (simp_all add: turn_keeps_def)
  show ?thesis
    unfolding fetch_the_body_def 1 2 4 Let_def case_prod_conv f2_def [symmetric]
    using ends finish_message_window [OF w4] by (auto split: if_split)
qed

lemma fetch_one_window: "turn_keeps f (fetch_one m st num msgsize f)"
proof -
  define sep where "sep = (fetch_body m \<noteq> None)"
  obtain err len0 s1 where 1: "fetch_headers m (session f) num = (err, len0, s1)" by (metis prod_cases3)
  define f1 where "f1 = f\<lparr>session := s1\<rparr>"
  define len where "len = (if len0 = -1 then msgsize else len0)"
  obtain h s2 where 2: "read_headers st (session f1) num len msgsize (\<not> sep) = (h, s2)" by fastforce
  define f2 where "f2 = log_event (Headers num (hcode h)) (f1\<lparr>session := s2, errcount := errcount f1 + herrors h\<rparr>)"
  obtain t f4 where 4: "(if sep then eat_trailer m (count_transient (hcode h) f2) else (0, count_transient (hcode h) f2)) = (t, f4)" by fastforce
  have w2: "window f1 = window f" "window f2 = window f" by (simp_all add: f1_def f2_def)
  have w4: "window f4 = window f"
    using 4 eat_trailer_window [of m "count_transient (hcode h) f2" t f4] w2 by (cases sep) auto
  have ends: "turn_keeps f (Next (count_transient e f1))" "turn_keeps f (Give_up e f1)" "turn_keeps f (Give_up e f2)" "turn_keeps f (Give_up e f4)" for e
    using w2 w4 by (simp_all add: turn_keeps_def)
  show ?thesis
    unfolding fetch_one_def sep_def [symmetric] 1 Let_def case_prod_conv
    unfolding len_def [symmetric] f1_def [symmetric] 2 case_prod_conv
    unfolding f2_def [symmetric] 4 case_prod_conv
    using ends finish_message_window [OF w4] fetch_the_body_window [OF w4] by (auto split: if_split)
qed

lemma get_block_fits:
  assumes "in_place m" "sizes_fit m q count num f" "1 \<le> num" "num \<le> count"
  obtains e f1 where "get_block m q count num f = Some (e, f1)" "sizes_fit m q count num f1" "e = None \<longrightarrow> msgsize_of f1 num \<noteq> None"
proof (cases "partial_sizes m q \<and> lastnum f < num")
  case True
  define lim where "lim = size_window m q"
  have lim: "0 < lim" using True by (auto simp: partial_sizes_def NUM_NONZERO_def lim_def)
  obtain xs where xs: "msgsizes f = Some xs" "int (length xs) = lim" using assms(2) True by (auto simp: sizes_fit_def lim_def)
  obtain g where g: "getpartialsizes m = Some g" using True by (auto simp: partial_sizes_def)
  define upto where "upto = min (num + lim - 1) count"
  define zeroed where "zeroed = replicate (nat lim) (0::int)"
  have all: "drop (nat lim) xs = []" "nat lim \<le> length xs" using xs(2) by auto
  obtain e ys s1 where r: "g (session f) num upto zeroed = (e, ys, s1)" by (metis prod_cases3)
  have "length ys = length zeroed" using assms(1) g r unfolding in_place_def by blast
  then have ys: "int (length ys) = lim" using xs(2) lim by (simp add: zeroed_def)
  define f1 where "f1 = f\<lparr>session := s1, firstnum := num, lastnum := upto, msgsizes := Some ys\<rparr>"
  have "get_block m q count num f = Some (if e \<noteq> 0 then Some e else None, f1)"
    using True xs g r lim unfolding get_block_def lim_def [symmetric] Let_def upto_def [symmetric]
    by (simp add: all zeroed_def [symmetric] f1_def)
  moreover have "sizes_fit m q count num f1"
    using True ys assms(3) by (auto simp: sizes_fit_def f1_def lim_def upto_def)
  moreover have "msgsize_of f1 num \<noteq> None" using ys lim by (auto simp: msgsize_of_def f1_def peek_def)
  ultimately show ?thesis using that by blast
next
  case False
  then have "get_block m q count num f = Some (None, f)" unfolding get_block_def by (simp only: if_False)
  moreover have "msgsize_of f num \<noteq> None"
  proof (cases "partial_sizes m q")
    case True
    then obtain xs where "msgsizes f = Some xs" "int (length xs) = size_window m q" "1 \<le> firstnum f" "firstnum f \<le> num"
      "num \<le> lastnum f" "lastnum f \<le> firstnum f + size_window m q - 1"
      using assms(2) False by (auto simp: sizes_fit_def)
    then show ?thesis by (auto simp: msgsize_of_def peek_def)
  next
    case p: False
    then show ?thesis using assms(2-4) by (auto simp: sizes_fit_def msgsize_of_def peek_def split: option.split)
  qed
  ultimately show ?thesis using that assms(2) by blast
qed

lemma window_fits: "window f1 = window f \<Longrightarrow> sizes_fit m q count num f1 = sizes_fit m q count num f"
  by (simp add: window_def sizes_fit_def)

lemma fits_next: "sizes_fit m q count num f \<Longrightarrow> sizes_fit m q count (num + 1) f"
  by (auto simp: sizes_fit_def)

lemma turn_fits:
  "turn_keeps f t \<Longrightarrow> sizes_fit m q count num f \<Longrightarrow>
     case t of Give_up e f1 \<Rightarrow> True | Next f1 \<Rightarrow> sizes_fit m q count num f1 | Flag g f1 \<Rightarrow> sizes_fit m q count num f1"
  by (auto simp: turn_keeps_def split: fetch_turn.splits intro: window_fits [THEN iffD2])

lemma start_turn_fits:
  assumes "in_place m" "sizes_fit m q count num f" "1 \<le> num" "num \<le> count"
  obtains t where "start_turn m st q force count num f = Some t"
    "case t of Give_up e f1 \<Rightarrow> True | Next f1 \<Rightarrow> sizes_fit m q count num f1 | Flag g f1 \<Rightarrow> sizes_fit m q count num f1"
proof -
  obtain old f1 where 1: "(if fetch_all q \<or> force then (False, f)
        else (case is_old m of None \<Rightarrow> (False, f) | Some old_one \<Rightarrow> (let (b, s1) = old_one (session f) num in (b, f\<lparr>session := s1\<rparr>)))) = (old, f1)"
    by fastforce
  have "window f1 = window f" using 1 by (auto split: if_splits option.splits prod.splits)
  then have w1: "sizes_fit m q count num f1" using assms(2) window_fits by metis
  obtain e f2 where 2: "get_block m q count num f1 = Some (e, f2)" "sizes_fit m q count num f2" "e = None \<longrightarrow> msgsize_of f2 num \<noteq> None"
    by (rule get_block_fits [OF assms(1) w1 assms(3,4)])
  have fo: "case fetch_one m st num sz f2 of Give_up e f1 \<Rightarrow> True | Next f1 \<Rightarrow> sizes_fit m q count num f1 | Flag g f1 \<Rightarrow> sizes_fit m q count num f1" for sz
    by (rule turn_fits [OF fetch_one_window 2(2)])
  have big: "sizes_fit m q count num (log_event (Large num) (f2\<lparr>skipped := sk\<rparr>))" for sk
    using 2(2) window_fits [of "log_event (Large num) (f2\<lparr>skipped := sk\<rparr>)" f2 m q count num] by simp
  have old: "sizes_fit m q count num (log_event (Old num) f1)"
    using w1 window_fits [of "log_event (Old num) f1" f1 m q count num] by simp
  show ?thesis
  proof (cases old)
    case True
    then have "start_turn m st q force count num f = Some (Flag (skip_flags MSGLEN_OLD False) (log_event (Old num) f1))"
      unfolding start_turn_def 1 by (simp add: Let_def)
    then show ?thesis using that old by simp
  next
    case False
    show ?thesis
    proof (cases e)
      case (Some c)
      then have "start_turn m st q force count num f = Some (Give_up c f2)"
        unfolding start_turn_def 1 using False 2(1) by (simp add: Let_def)
      then show ?thesis using that by simp
    next
      case None
      then obtain sz where "msgsize_of f2 num = Some sz" using 2(3) by blast
      then have "start_turn m st q force count num f = Some (if NUM_NONZERO (size_limit q) \<and> sz > size_limit q
          then Flag (skip_flags MSGLEN_TOOLARGE (\<not> limit_flush q)) (log_event (Large num) (f2\<lparr>skipped := mark_oversized (skipped f2) sz\<rparr>))
          else fetch_one m st num sz f2)"
        unfolding start_turn_def 1 using False 2(1) None by (simp add: Let_def)
      then show ?thesis using that [of "if NUM_NONZERO (size_limit q) \<and> sz > size_limit q
          then Flag (skip_flags MSGLEN_TOOLARGE (\<not> limit_flush q)) (log_event (Large num) (f2\<lparr>skipped := mark_oversized (skipped f2) sz\<rparr>))
          else fetch_one m st num sz f2"] fo [of sz] big by (simp split: if_splits)
    qed
  qed
qed

lemma flag_message_window: "flag_message m q num g f = (e, f1) \<Longrightarrow> window f1 = window f"
  by (auto simp: flag_message_def Let_def split: if_splits prod.splits)

lemma fetch_loop_returns:
  "in_place m \<Longrightarrow> sizes_fit m q count num f \<Longrightarrow> 1 \<le> num \<Longrightarrow> fetch_loop m st q force count [num..count] f \<noteq> None"
proof (induction "nat (count + 1 - num)" arbitrary: num f)
  case 0
  then have "[num..count] = []" by simp
  then show ?case by simp
next
  case (Suc k)
  then have l: "[num..count] = num # [num + 1..count]" "num \<le> count" by (auto simp: upto_rec1)
  have k: "k = nat (count + 1 - (num + 1))" using Suc.hyps(2) by simp
  obtain t where t: "start_turn m st q force count num f = Some t"
    "case t of Give_up e f1 \<Rightarrow> True | Next f1 \<Rightarrow> sizes_fit m q count num f1 | Flag g f1 \<Rightarrow> sizes_fit m q count num f1"
    by (rule start_turn_fits [OF Suc.prems l(2)])
  have ih: "sizes_fit m q count num f2 \<Longrightarrow> fetch_loop m st q force count [num + 1..count] f2 \<noteq> None" for f2
    using Suc.hyps(1) [OF k Suc.prems(1) fits_next] Suc.prems(3) by simp
  show ?case
  proof (cases t)
    case (Flag g f2)
    obtain e f3 where f3: "flag_message m q num g f2 = (e, f3)" by fastforce
    have "sizes_fit m q count num f3" using window_fits [OF flag_message_window [OF f3]] t(2) Flag by simp
    then show ?thesis using l t(1) Flag f3 ih [of f3] by (auto split: option.split)
  qed (use l t ih in auto)
qed

text \<open>
  C28. The loop over the messages always comes to its end, and every size it looks up is inside of the array: both where the
  sizes were fetched at once and where they are fetched in blocks, also when old messages are passed over in between.
\<close>

theorem fetch_sizes_in_bounds:
  assumes "in_place m" "partial_sizes m q \<or> (\<forall>xs. msgsizes f = Some xs \<longrightarrow> count \<le> int (length xs))"
  shows "\<exists>r f1. fetch_messages m st q junk count f = Some (r, f1)"
proof -
  let ?f = "f\<lparr>firstnum := 1, lastnum := 0, msgsizes := (if partial_sizes m q then Some (map junk [0..<nat (size_window m q)]) else msgsizes f)\<rparr>"
  have "sizes_fit m q count 1 ?f"
    using assms(2) by (auto simp: sizes_fit_def partial_sizes_def NUM_NONZERO_def)
  from fetch_loop_returns [OF assms(1) this] show ?thesis
    unfolding fetch_messages_def by fastforce
qed


subsection \<open>An example\<close>

text \<open>
  A POP3-like mailbox: the first message is delivered, the second refused, the third put off, and the fourth is too large.
\<close>

definition sample_methods :: "unit protocol_methods" where
  "sample_methods = \<lparr>is_old = Some (\<lambda>s n. (False, s)), getpartialsizes = Some (\<lambda>s a b xs. (0, map (\<lambda>x. if a = 4 then 900 else 10) xs, s)),
     fetch_headers = (\<lambda>s n. (0, 10, s)), fetch_body = None, trail = None, delete_msg = Some (\<lambda>s n. (0, s)), mark_seen = None\<rparr>"

definition sample_steps :: "unit message_steps" where
  "sample_steps = \<lparr>read_headers = (\<lambda>s n a b c. (\<lparr>hcode = (if n = 2 then PS_REFUSED else if n = 3 then PS_TRANSIENT else 0), no_body = False,
       hlen = 5, herrors = 0\<rparr>, s)),
     read_body = (\<lambda>s fwd len. (0, s)), finish = (\<lambda>s fwd. (True, s))\<rparr>"

definition sample_fetch :: fetch_options where
  "sample_fetch = \<lparr>fetch_all = False, flush_old = False, keep_new = False, limit_flush = False, size_limit = 100, fetchsizelimit = 100, is_pop = True,
     peek_capable = True, softbounce = False, maxfetch = 0\<rparr>"

definition sample_start :: "unit fetching" where
  "sample_start = \<lparr>session = (), firstnum = 0, lastnum = 0, msgsizes = None, fetches = 0, dispatches = 0, deleted = 0, transient_errors = 0,
     errcount = 0, skipped = [], events = []\<rparr>"

lemma sample_run:
  "map_option (\<lambda>(r, f). (r, events f, deleted f, skipped f)) (fetch_messages sample_methods sample_steps sample_fetch (\<lambda>i. 0) 4 sample_start)
   = Some (0, [Headers 1 0, Body 1 0, Closed 1 True True, Deleted 1, Headers 2 PS_REFUSED, Body 2 0, Closed 2 False True, Deleted 2,
       Headers 3 PS_TRANSIENT, Body 3 0, Closed 3 False True, Large 4], 2, [(''900'', 0, 1)])"
  by code_simp

theorem deleted_is_disposed_witness:
  "\<exists>f1. fetch_messages sample_methods sample_steps sample_fetch (\<lambda>i. 0) 4 sample_start = Some (0, f1) \<and> Deleted 2 \<in> set (events f1)
     \<and> ending sample_fetch 2 (events f1)"
proof -
  obtain f1 where f1: "fetch_messages sample_methods sample_steps sample_fetch (\<lambda>i. 0) 4 sample_start = Some (0, f1)" "Deleted 2 \<in> set (events f1)"
    using sample_run by auto
  have "events sample_start = []" by (simp add: sample_start_def)
  from deleted_is_disposed [OF f1(1) this] f1 show ?thesis by blast
qed

theorem fetch_sizes_in_bounds_witness:
  "\<exists>r f1. fetch_messages sample_methods sample_steps sample_fetch (\<lambda>i. 0) 4 sample_start = Some (r, f1)"
proof -
  have "in_place sample_methods" by (auto simp: in_place_def sample_methods_def)
  moreover have "partial_sizes sample_methods sample_fetch" by code_simp
  ultimately show ?thesis using fetch_sizes_in_bounds by blast
qed

end
