(* ===== verification/Spec2Isabelle.thy ===== *)
theory Spec2Isabelle
  imports Base64 Strings UidProps UidFile Pop3Props ImapProps X509 Msgid Nxtaddr MimeRoundtrip Smtp NtlmSpec NetrcSpec SinkReplies ReceivedProps ShipProps BodyProps DriveProps
begin

text \<open>
  A verification library for fetchmail, a program in C that retrieves mail from POP and IMAP servers
  and hands it to the local system. It models the parts that decide what is sent, stored and
  delivered, and proves what makes each of them correct.

  \<^bold>\<open>The program.\<close> A poll opens a connection (\<open>socket.c\<close>), talks to the server with the commands and replies of
  \<open>transact.c\<close> through the methods of a protocol (\<open>pop3.c\<close>, \<open>imap.c\<close>, \<open>starttls.c\<close>), authenticates (\<open>cram.c\<close>, \<open>md5c.c\<close>,
  \<open>ntlmsubr.c\<close>, \<open>smb*.c\<close>, with passwords from \<open>netrc.c\<close>), finds the new messages (\<open>uid.c\<close>,
  \<open>uid_db.c\<close>), rewrites their headers and decodes their bodies (\<open>rfc822.c\<close>, \<open>unmime.c\<close>,
  \<open>rfc2047e.c\<close>, \<open>base64.c\<close>, \<open>rfc822valid.c\<close>) and passes them on (\<open>sink.c\<close>, \<open>smtp.c\<close>), one by one under the control of \<open>driver.c\<close>; TLS
  connections check the name of the server (\<open>x509_name_match.c\<close>).

  \<^bold>\<open>Conventions.\<close> A C string is the list of its characters without the NUL; a buffer is the list of
  its cells, and an access outside of it is \<open>None\<close>, so that a result \<open>Some\<close> says that all accesses
  were inside. Unsigned integers are words of 32 bits and wrap around; an \<open>int\<close> that stays small is
  an integer. Linked structures whose sharing matters are in an explicit store (\<open>UidDb\<close>, \<open>Idlist\<close>).
  What a function of the system or of an unmodelled part delivers is a parameter. Output for the
  user, signals, timeouts and the release of memory are left out unless a theory says otherwise.

  \<^bold>\<open>The theories.\<close>

  \<^item> \<open>Prelude\<close>: characters, C strings, \<open>string.h\<close>, bounded buffers. \<open>Strings\<close>: the replacements of
    library functions (\<open>strlcpy.c\<close>, \<open>strstr.c\<close>, \dots), their results and bounds.
  \<^item> \<open>Base64\<close>: encoder and decoder, the round trip and the bounds of the output.
  \<^item> \<open>UidDb\<close>: the PATRICIA trie and the arrays of \<open>uid_db.c\<close> on a store of nodes and records.
    \<open>UidKey\<close>, \<open>UidStore\<close>, \<open>UidTrie\<close>, \<open>UidLink\<close>, \<open>UidInsert\<close>, \<open>UidSpec\<close>, \<open>UidApi\<close>: the well-formed
    trie, what each step keeps of it, and the refinement of a list of records; the contract of the
    database is a locale there, interpreted on the trie. \<open>UidProps\<close>: its properties.
  \<^item> \<open>X509\<close>: \<open>name_match\<close>. \<open>Msgid\<close>: \<open>rfc822_valid_msgid\<close> and the grammar it accepts.
  \<^item> \<open>Rfc822\<close>, \<open>Nxtaddr\<close>: \<open>reply_hack\<close> and \<open>nxtaddr\<close> as state machines, termination, bounds and the
    addresses found. \<open>Rfc2047\<close>, \<open>Unmime\<close>, \<open>UnmimeQp\<close>, \<open>UnmimeB64\<close>, \<open>UnmimeSpec\<close>, \<open>MimeRoundtrip\<close>:
    the encoder of header words, the decoder that works in place, the functional specification it
    refines, and the round trip of the two.
  \<^item> \<open>Md5\<close>, \<open>Md5Spec\<close>: MD5 on the context of the code; any split of a message gives the digest of
    RFC 1321 (a locale for hashes fed piece by piece). \<open>Cram\<close>: HMAC and CRAM-MD5.
  \<^item> \<open>SmbDes\<close>, \<open>SmbDesSpec\<close>: DES and RC4; decryption, the complementation property, the
    permutation of RC4 (a locale for Feistel networks). \<open>SmbMd4\<close>: MD4 and RFC 1320.
    \<open>SmbEncrypt\<close>: the LM and NT hashes. \<open>Ntlm\<close>, \<open>NtlmSpec\<close>: the messages, the dialogue, what they
    send and how far a server can drive them.
  \<^item> \<open>Socket\<close>: reading lines and writing. \<open>Smtp\<close>: the client, its reply loops and authentication.
  \<^item> \<open>Stdio\<close>: reading a file line by line. \<open>Netrc\<close>, \<open>NetrcSpec\<close>: the parser that edits its line buffer in place, the functional reading it
    refines, and the round trip from entries to a file and back.
  \<^item> \<open>Idlist\<close>, \<open>Uid\<close>, \<open>UidFile\<close>: the linked lists of strings and their sharing; the file of seen
    messages, its parser and writer, and the lists a poll goes through.
  \<^item> \<open>Transport\<close>: sending a command, with its tag, and receiving a reply. \<open>Pop3\<close>: replies, TLS and the authentication
    of POP3; \<open>Pop3Uid\<close>: the searches for new messages and what is done with one. \<open>Pop3Spec\<close>, \<open>Pop3Props\<close>: what is
    written in clear, the binary search, bounds, and two crashes.
  \<^item> \<open>Imap\<close>: responses and untagged data; \<open>ImapAuth\<close>: capabilities, TLS and the logins; \<open>ImapBox\<close>: idling, the search,
    sizes, fetching and deleting. \<open>ImapSpec\<close>: a locale that lifts what every step of a dialogue keeps to responses and
    commands, with its interpretations; \<open>ImapSearch\<close>, \<open>ImapMail\<close>, \<open>ImapLogin\<close>: the array of unseen messages, the
    counters, the login. \<open>ImapProps\<close>: its properties, among them a login without TLS and a loop without end.
    POP3 and IMAP are those of a build with TLS and without Kerberos, GSSAPI, OPIE, NTLM, RPA and SDPS.

  \<^item> \<open>Sink\<close>, \<open>Mda\<close>: \<open>sink.c\<close>, the envelope and the end of a message with SMTP and LMTP, error replies, bounces, the command
    of a delivery agent. \<open>SinkProps\<close>: no name gets out of its quotes; dotted quads; what a listener answers.
    \<open>SinkReplies\<close>: which recipients get a message, and who is blamed in a bounce, as a function of the replies.
  \<^item> \<open>Body\<close>: \<open>stuffline\<close> and \<open>readbody\<close>; \<open>BodyProps\<close>: the body arrives as it was sent, for every protocol and sink, and two
    ways in which it does not. \<open>Drive\<close>: the loop of \<open>driver.c\<close> over the messages of a mailbox, with the method table of
    the protocol as a record of functions on any state; \<open>DriveProps\<close>: what is deleted was delivered, refused or to be
    flushed, and the loop ends within the array of sizes.

  \<^item> \<open>Multidrop\<close>: \<open>checkalias.c\<close> over a resolver that is a parameter, the names in a header and the envelope address in a
    Received line (\<open>transact.c\<close>). \<open>MultiProps\<close>: each address is placed, once and in order, and the counts are right;
    \<open>ReceivedProps\<close>: the envelope address is found, a line that is read beyond its end, and an outage of the name server
    that makes any host an alias.

  \<^item> \<open>HeaderRead\<close>, \<open>HeaderShip\<close>: \<open>readheaders\<close>, first the loop that reads header lines with their continuations and sorts
    them, then the test for duplicates, sender and recipients, \<open>open_sink\<close>, the trace lines and the warning. \<open>HeaderProps\<close>:
    the loop is a fold over the headers, and what is kept of them; \<open>HeaderText\<close>: what the sink gets; \<open>ShipProps\<close>: messages
    that are left on the server, one that is lost after it was put off, an overflow, and a warning that is never written.

  \<^bold>\<open>Loops.\<close> Loops end by a measure, which is the text left to read, except for the walks over
  linked structures, \<open>UnMimeHeader\<close>, the calls of \<open>nxtaddr\<close> for a header and the two loops over a SEARCH reply: these are partial functions in the option monad, and their
  properties state that they return.

  \<^bold>\<open>Not modelled.\<close> The model of the driver takes the steps on a message as parameters and is not put together with the one of
  \<open>transact.c\<close>. The opening of connections, the signals and the warnings in \<open>driver.c\<close> and \<open>sink.c\<close>; the command line, the
  environment and the merging of options (\<open>fetchmail.c\<close>, \<open>options.c\<close>, \<open>env.c\<close>, \<open>conf.c\<close>); the small protocols (\<open>pop2.c\<close>,
  \<open>etrn.c\<close>, \<open>odmr.c\<close>); the generated parser of the configuration file, OpenSSL, Kerberos, GSSAPI and RPA, the system interfaces
  (\<open>interface.c\<close>, \<open>mxget.c\<close>), and the vendored libraries (trio, getopt, getnameinfo).
\<close>

end
